(* ===== verification/Prelude.thy ===== *)
theory Prelude
  imports Main "HOL-Library.Word"
begin

text \<open>
  What every component theory of the development shares: the result type for code that can
  throw or trip an assertion, sequencing of such code, and generic facts on lists, bits of
  words and intervals.
\<close>

unbundle bit_operations_syntax

section \<open>Results\<close>

text \<open>
  The kernel signals errors by exceptions and guards its internal assumptions by
  \<^verbatim>\<open>assert\<close>, which panics. Both are values here: \<open>E_ASSERT\<close> is a failed
  assertion, \<open>E_SEGFAULT\<close> an access outside of the object at hand, and the other
  constructors are the exception codes of \<^verbatim>\<open>include/kos/except.h\<close> that the
  modelled code throws. \<open>NO_RETURN\<close> stands for a loop of the source that is entered
  in a state in which it never ends.
\<close>

datatype kos_error =
    E_ASSERT
  | E_SEGFAULT
  | E_BADALLOC
  | E_INVALID_ARGUMENT
  | E_INTERRUPT
  | E_WOULDBLOCK
  | E_UNICODE_ERROR
  | E_BUFFER_TOO_SMALL
  | NO_RETURN

type_synonym 'a result = "kos_error + 'a"

definition rbind :: "'a result \<Rightarrow> ('a \<Rightarrow> 'b result) \<Rightarrow> 'b result" where
  "rbind m f = (case m of Inl e \<Rightarrow> Inl e | Inr x \<Rightarrow> f x)"

definition rassert :: "bool \<Rightarrow> 'a result \<Rightarrow> 'a result" where
  "rassert b m = (if b then m else Inl E_ASSERT)"

named_theorems result_simps

lemma rbind_Inr [simp, result_simps]: "rbind (Inr x) f = f x"
  by (simp add: rbind_def)

lemma rbind_Inl [simp, result_simps]: "rbind (Inl e) f = Inl e"
  by (simp add: rbind_def)

lemma rbind_eq_Inr_iff [result_simps]:
  "rbind m f = Inr y \<longleftrightarrow> (\<exists>x. m = Inr x \<and> f x = Inr y)"
  by (cases m) auto

lemma rassert_True [simp, result_simps]: "rassert True m = m"
  by (simp add: rassert_def)

lemma rassert_False [simp, result_simps]: "rassert False m = Inl E_ASSERT"
  by (simp add: rassert_def)

lemma rassert_eq_Inr_iff [result_simps]: "rassert b m = Inr y \<longleftrightarrow> b \<and> m = Inr y"
  by (simp add: rassert_def)

lemma rbind_cong [fundef_cong]:
  "m = m' \<Longrightarrow> (\<And>x. m' = Inr x \<Longrightarrow> f x = f' x) \<Longrightarrow> rbind m f = rbind m' f'"
  by (cases m') auto

lemma rassert_cong [fundef_cong]:
  "b = b' \<Longrightarrow> (b' \<Longrightarrow> m = m') \<Longrightarrow> rassert b m = rassert b' m'"
  by (cases b') auto

section \<open>Results of code that may not return\<close>

text \<open>For loops and recursions without a bound in the source: \<open>None\<close> is not returning.\<close>

type_synonym 'a pres = "'a result option"

definition pbind :: "'a pres \<Rightarrow> ('a \<Rightarrow> 'b pres) \<Rightarrow> 'b pres" where
  "pbind m f = Option.bind m (\<lambda>r. case r of Inl e \<Rightarrow> Some (Inl e) | Inr x \<Rightarrow> f x)"

definition passert :: "bool \<Rightarrow> 'a pres \<Rightarrow> 'a pres" where
  "passert b m = (if b then m else Some (Inl E_ASSERT))"

lemma pbind_simps [simp]:
  "pbind (Some (Inr x)) f = f x" "pbind (Some (Inl e)) f = Some (Inl e)" "pbind None f = None"
  by (simp_all add: pbind_def)

lemma pbind_eq_iff:
  "pbind m f = Some (Inr y) \<longleftrightarrow> (\<exists>x. m = Some (Inr x) \<and> f x = Some (Inr y))"
  "Some (Inr y) = pbind m f \<longleftrightarrow> (\<exists>x. m = Some (Inr x) \<and> f x = Some (Inr y))"
  by (cases m; auto simp: pbind_def split: sum.splits)+

lemma passert_simps [simp]:
  "passert True m = m" "passert False m = Some (Inl E_ASSERT)"
  by (simp_all add: passert_def)

lemma pbind_mono [partial_function_mono]:
  assumes "mono_option B" "\<And>y. mono_option (\<lambda>f. C y f)"
  shows "mono_option (\<lambda>f. pbind (B f) (\<lambda>y. C y f))"
  unfolding pbind_def
proof (rule bind_mono [OF assms(1)])
  show "mono_option (\<lambda>f. case r of Inl e \<Rightarrow> Some (Inl e) | Inr x \<Rightarrow> C x f)" for r
    by (cases r) (auto intro: assms(2) option.const_mono)
qed

lemma passert_mono [partial_function_mono]:
  "mono_option B \<Longrightarrow> mono_option (\<lambda>f. passert b (B f))"
  unfolding passert_def by (intro partial_function_mono)

section \<open>Bytes and unsigned 32-bit sums\<close>

type_synonym byte = "8 word"

definition add32 :: "nat \<Rightarrow> nat \<Rightarrow> nat" where
  "add32 a b = (a + b) mod 2 ^ 32"

lemma add32_eq [simp]: "a + b < 2 ^ 32 \<Longrightarrow> add32 a b = a + b"
  by (simp add: add32_def)

section \<open>Bits\<close>

lemma bit_word_ge_length: "LENGTH('a::len) \<le> n \<Longrightarrow> \<not> bit (w :: 'a word) n"
  by (auto dest: bit_imp_le_length)

lemma nat_less_32_cases:
  assumes "(k::nat) < 32"
  shows "k \<in> {0, 1, 2, 3, 4, 5, 6, 7, 8, 9, 10, 11, 12, 13, 14, 15, 16, 17, 18, 19, 20, 21,
    22, 23, 24, 25, 26, 27, 28, 29, 30, 31}"
  using assms by (simp; arith)

lemma bit_mask_range [simp]:
  fixes n k i :: nat
  shows "bit (push_bit k (mask n) :: 'a::len word) i \<longleftrightarrow>
    i < LENGTH('a) \<and> k \<le> i \<and> i < k + n"
  by (auto simp: bit_push_bit_iff bit_mask_iff)

lemma word_eq_zero_iff_no_bit:
  fixes w :: "'a::len word"
  shows "w = 0 \<longleftrightarrow> (\<forall>i<LENGTH('a). \<not> bit w i)"
  by (auto intro: bit_word_eqI)

lemma word_and_eq_mask_iff:
  fixes w m :: "'a::len word"
  shows "w AND m = m \<longleftrightarrow> (\<forall>i<LENGTH('a). bit m i \<longrightarrow> bit w i)"
proof
  assume eq: "w AND m = m"
  have "bit w i" if "bit m i" for i
  proof -
    from that eq have "bit (w AND m) i" by simp
    then show ?thesis by (simp add: bit_and_iff)
  qed
  then show "\<forall>i<LENGTH('a). bit m i \<longrightarrow> bit w i" by blast
next
  assume "\<forall>i<LENGTH('a). bit m i \<longrightarrow> bit w i"
  then show "w AND m = m"
    by (auto intro!: bit_word_eqI simp: bit_and_iff)
qed

lemma unat_less_2_32: "unat (w :: 32 word) < 2 ^ 32"
  using unsigned_less [of w, where ?'a = nat] by simp

lemma unat_of_nat_32: "n < 2 ^ 32 \<Longrightarrow> unat (of_nat n :: 32 word) = n"
  by (simp add: unat_of_nat)

lemma next_word_index:
  fixes p n :: nat
  assumes "p mod 32 + n = 32"
  shows "(p + n) div 32 = p div 32 + 1"
proof -
  have "p + n = 32 * (p div 32) + (p mod 32 + n)" by simp
  then have "p + n = 32 * (p div 32 + 1)" using assms by simp
  then show ?thesis by simp
qed

section \<open>Lists\<close>

lemma nth_list_update_if:
  "i < length xs \<Longrightarrow> xs[i := x] ! j = (if i = j then x else xs ! j)"
  by simp

end
