(* ===== verification/Page_Memory.thy ===== *)
theory Page_Memory
  imports Prelude
begin

text \<open>
  The physical page allocator of \<^verbatim>\<open>src/kernel/src/kernel/memory.c\<close>, for the
  32-bit kernel (\<^verbatim>\<open>DATAWORD_BITS\<close> is 32). A zone keeps one bit per page of a
  range of physical pages in an array of machine words; a set bit is a free page.
  The code updates the words by compare-exchange; the model runs one thread, for which every
  compare-exchange succeeds.
\<close>

section \<open>Data words\<close>

text \<open>\<^verbatim>\<open>BSWAP_BE2H32\<close> on a little endian machine: the four bytes in reverse.\<close>

definition SWAPPTR :: "32 word \<Rightarrow> 32 word" where
  "SWAPPTR x = push_bit 24 x OR (push_bit 8 x AND 0x00ff0000)
     OR (drop_bit 8 x AND 0x0000ff00) OR drop_bit 24 x"

definition FIXED_SHL :: "32 word \<Rightarrow> nat \<Rightarrow> 32 word" where
  "FIXED_SHL x y = (if 32 \<le> y then 0 else push_bit y x)"

text \<open>The mask of \<open>n\<close> pages from bit \<open>off\<close> of a data word, as the code builds it.\<close>

definition page_mask :: "nat \<Rightarrow> nat \<Rightarrow> 32 word" where
  "page_mask off n = SWAPPTR (push_bit off (FIXED_SHL 1 n - 1))"

section \<open>Zones\<close>

record mzone =
  mz_min :: nat
  mz_max :: nat
  mz_used :: "32 word"
  mz_free :: "32 word"
  mz_fpages :: "32 word list"

definition zone_size :: "mzone \<Rightarrow> nat" where
  "zone_size z = mz_max z + 1 - mz_min z"

text \<open>The size in bytes of \<^verbatim>\<open>mz_fpages\<close>, as allocated and as asserted.\<close>

definition fpages_bytes :: "mzone \<Rightarrow> nat" where
  "fpages_bytes z = (mz_max z - mz_min z + 1 + 7) div 8 + 2 * 4"

definition take_pages :: "mzone \<Rightarrow> nat \<Rightarrow> 32 word \<Rightarrow> nat \<Rightarrow> mzone" where
  "take_pages z iter m n = z\<lparr>mz_fpages := (mz_fpages z)[iter := mz_fpages z ! iter AND NOT m],
     mz_free := mz_free z - of_nat n, mz_used := mz_used z + of_nat n\<rparr>"

definition give_pages :: "mzone \<Rightarrow> nat \<Rightarrow> 32 word \<Rightarrow> nat \<Rightarrow> mzone" where
  "give_pages z iter m n = z\<lparr>mz_fpages := (mz_fpages z)[iter := mz_fpages z ! iter OR m],
     mz_free := mz_free z + of_nat n, mz_used := mz_used z - of_nat n\<rparr>"

function mzone_free_loop :: "nat \<Rightarrow> nat \<Rightarrow> nat \<Rightarrow> mzone \<Rightarrow> mzone result" where
  "mzone_free_loop iter page num z =
     (if num = 0 then Inr z
      else rassert (4 * iter < fpages_bytes z)
       (if length (mz_fpages z) \<le> iter then Inl E_SEGFAULT
        else let off = page mod 32;
                 n = min (32 - off) num;
                 m = page_mask off n
             in rassert (mz_fpages z ! iter AND m = 0)
                 (mzone_free_loop (iter + 1) (page + n) (num - n) (give_pages z iter m n))))"
  by pat_completeness auto
termination
  by (relation "measure (\<lambda>(iter, page, num, z). num)") (auto simp: Let_def)

definition mzone_free :: "mzone \<Rightarrow> nat \<Rightarrow> nat \<Rightarrow> mzone result" where
  "mzone_free z page num =
     rassert (mz_max z \<noteq> 0) (rassert (num \<noteq> 0) (rassert (page + num \<le> zone_size z)
       (mzone_free_loop (page div 32) page num z)))"

text \<open>
  The loop of \<^verbatim>\<open>mzone_malloc_at\<close>; \<open>start\<close> is the first page asked for, to
  which the pages taken so far are returned when a later page turns out to be in use.
\<close>

function mzone_malloc_at_loop ::
  "nat \<Rightarrow> nat \<Rightarrow> nat \<Rightarrow> nat \<Rightarrow> mzone \<Rightarrow> (bool \<times> mzone) result" where
  "mzone_malloc_at_loop start iter base missing z =
     (if missing = 0 then Inr (True, z)
      else rassert (4 * iter < fpages_bytes z)
       (if length (mz_fpages z) \<le> iter then Inl E_SEGFAULT
        else let off = base mod 32;
                 n = min (32 - off) missing;
                 m = page_mask off n
             in if mz_fpages z ! iter AND m \<noteq> m
                then rassert (start \<le> base)
                      (if base \<noteq> start
                       then rbind (mzone_free z start (base - start)) (\<lambda>z'. Inr (False, z'))
                       else Inr (False, z))
                else mzone_malloc_at_loop start (iter + 1) (base + n) (missing - n)
                      (take_pages z iter m n)))"
  by pat_completeness auto
termination
  by (relation "measure (\<lambda>(start, iter, base, missing, z). missing)") (auto simp: Let_def)

definition mzone_malloc_at :: "mzone \<Rightarrow> nat \<Rightarrow> nat \<Rightarrow> (bool \<times> mzone) result" where
  "mzone_malloc_at z page num =
     rassert (mz_max z \<noteq> 0) (rassert (num \<noteq> 0) (rassert (page + num \<le> zone_size z)
       (if unat (mz_free z) < num then Inr (False, z)
        else mzone_malloc_at_loop page (page div 32) page num z)))"

declare mzone_free_loop.simps [simp del] mzone_malloc_at_loop.simps [simp del]

lemma take_pages_sel [simp]:
  "mz_min (take_pages z i m n) = mz_min z" "mz_max (take_pages z i m n) = mz_max z"
  "length (mz_fpages (take_pages z i m n)) = length (mz_fpages z)"
  by (simp_all add: take_pages_def)

lemma give_pages_sel [simp]:
  "mz_min (give_pages z i m n) = mz_min z" "mz_max (give_pages z i m n) = mz_max z"
  "length (mz_fpages (give_pages z i m n)) = length (mz_fpages z)"
  by (simp_all add: give_pages_def)

lemma mzone_free_loop_bounds:
  "mzone_free_loop iter page num z = Inr z' \<Longrightarrow>
     mz_min z' = mz_min z \<and> mz_max z' = mz_max z \<and> length (mz_fpages z') = length (mz_fpages z)"
proof (induction iter page num z rule: mzone_free_loop.induct)
  case (1 iter page num z)
  from "1.prems" [unfolded mzone_free_loop.simps [of iter page num z]] "1.IH" show ?case
    by (auto simp: Let_def result_simps split: if_splits)
qed

lemma mzone_malloc_at_loop_bounds:
  "mzone_malloc_at_loop start iter page num z = Inr (b, z') \<Longrightarrow>
     mz_min z' = mz_min z \<and> mz_max z' = mz_max z \<and> length (mz_fpages z') = length (mz_fpages z)"
proof (induction start iter page num z rule: mzone_malloc_at_loop.induct)
  case (1 start iter page num z)
  from "1.prems" [unfolded mzone_malloc_at_loop.simps [of start iter page num z]] "1.IH" show ?case
    by (auto simp: Let_def mzone_free_def result_simps dest: mzone_free_loop_bounds split: if_splits)
qed

lemma mzone_malloc_at_bounds:
  "mzone_malloc_at z page num = Inr (b, z') \<Longrightarrow>
     mz_min z' = mz_min z \<and> mz_max z' = mz_max z \<and> length (mz_fpages z') = length (mz_fpages z)"
  by (auto simp: mzone_malloc_at_def result_simps dest: mzone_malloc_at_loop_bounds split: if_splits)

section \<open>Searching a zone\<close>

function skip_zero_bits :: "32 word \<Rightarrow> nat \<Rightarrow> (32 word \<times> nat) result" where
  "skip_zero_bits dataword off =
     (if dataword = 0 then Inl NO_RETURN
      else if bit dataword 0 then Inr (dataword, off)
      else skip_zero_bits (drop_bit 1 dataword) (off + 1))"
  by pat_completeness auto
termination
  by (relation "measure (\<lambda>(dataword, off). unat dataword)")
    (simp_all add: drop_bit_eq_div unat_div unat_gt_0)

function count_one_bits :: "32 word \<Rightarrow> nat \<Rightarrow> nat \<Rightarrow> 32 word \<times> nat" where
  "count_one_bits dataword alloc_size max_pages =
     (if bit dataword 0 \<and> alloc_size < max_pages
      then count_one_bits (drop_bit 1 dataword) (alloc_size + 1) max_pages
      else (dataword, alloc_size))"
  by pat_completeness auto
termination
  by (relation "measure (\<lambda>(dataword, alloc_size, max_pages). max_pages - alloc_size)") auto

declare skip_zero_bits.simps [simp del] count_one_bits.simps [simp del]

lemma skip_zero_bits_unat_le: "skip_zero_bits dw off = Inr (dw', off') \<Longrightarrow> unat dw' \<le> unat dw"
proof (induction dw off rule: skip_zero_bits.induct)
  case (1 dw off)
  have le: "unat (drop_bit 1 dw) \<le> unat dw" by (simp add: drop_bit_eq_div unat_div)
  show ?case
  proof (cases "dw = 0 \<or> bit dw 0")
    case True
    with "1.prems" show ?thesis by (subst (asm) skip_zero_bits.simps) (auto split: if_splits)
  next
    case False
    with "1.prems" have "skip_zero_bits (drop_bit 1 dw) (off + 1) = Inr (dw', off')"
      by (subst (asm) skip_zero_bits.simps) auto
    with "1.IH" False have "unat dw' \<le> unat (drop_bit 1 dw)" by simp
    with le show ?thesis by linarith
  qed
qed

lemma count_one_bits_unat_le:
  "count_one_bits dw s mx = (dw', s') \<Longrightarrow> s \<le> s' \<and> unat dw' \<le> unat dw \<and> (s < s' \<longrightarrow> unat dw' < unat dw)"
proof (induction dw s mx rule: count_one_bits.induct)
  case (1 dw s mx)
  show ?case
  proof (cases "bit dw 0 \<and> s < mx")
    case True
    then have "dw \<noteq> 0" by auto
    then have less: "unat (drop_bit 1 dw) < unat dw"
      by (simp add: drop_bit_eq_div unat_div unat_gt_0)
    from True "1.prems" have "count_one_bits (drop_bit 1 dw) (s + 1) mx = (dw', s')"
      by (subst (asm) count_one_bits.simps) simp
    with "1.IH" True less show ?thesis by force
  next
    case False
    with "1.prems" show ?thesis by (subst (asm) count_one_bits.simps) auto
  qed
qed

text \<open>
  The scan of one data word from \<^verbatim>\<open>scan_alloc_offset\<close> on: the next run of set bits
  (at most \<open>max_pages\<close> of them) and, while that is too short and set bits remain, the one
  after it. The result is the last run looked at and what is left of the word.
\<close>

function scan_dataword ::
  "32 word \<Rightarrow> nat \<Rightarrow> nat \<Rightarrow> 32 word \<Rightarrow> nat \<Rightarrow> (nat \<times> nat \<times> 32 word) result" where
  "scan_dataword origword min_pages max_pages dataword off =
     rbind (skip_zero_bits dataword off) (\<lambda>(dw1, off1).
       let (dw2, alloc_size) = count_one_bits dw1 0 max_pages in
       rassert (off1 + alloc_size \<le> 32)
        (rassert (origword AND page_mask off1 alloc_size = page_mask off1 alloc_size)
          (if alloc_size < min_pages \<and> dw2 \<noteq> 0
           then rassert (off1 + alloc_size \<noteq> 32)
                 (if alloc_size = 0 then Inl NO_RETURN
                  else scan_dataword origword min_pages max_pages dw2 (off1 + alloc_size))
           else Inr (off1, alloc_size, dw2))))"
  by pat_completeness auto
termination
proof (relation "measure (\<lambda>(orig, mn, mx, dw, off). unat dw)", simp, goal_cases)
  case (1 origword mn mx dw off x dw1 off1 c dw2 alloc_size)
  from "1" have a: "skip_zero_bits dw off = Inr (dw1, off1)" "count_one_bits dw1 0 mx = (dw2, alloc_size)"
    by auto
  from "1" have "alloc_size \<noteq> 0" by simp
  with count_one_bits_unat_le [OF a(2)] have "unat dw2 < unat dw1" by simp
  with skip_zero_bits_unat_le [OF a(1)] show ?case by simp
qed

declare scan_dataword.simps [simp del]

datatype zone_scan = Got nat nat mzone | Zone_Done mzone

function scan_zone :: "nat \<Rightarrow> nat \<Rightarrow> nat \<Rightarrow> mzone \<Rightarrow> zone_scan result" where
  "scan_zone min_pages max_pages iter z =
     (if 4 * iter < (mz_max z - mz_min z) div 8 + 1
      then rassert (4 * iter < fpages_bytes z)
       (if length (mz_fpages z) \<le> iter then Inl E_SEGFAULT
        else let origword = mz_fpages z ! iter in
         if origword = 0 then scan_zone min_pages max_pages (iter + 1) z
         else rbind (scan_dataword origword min_pages max_pages (SWAPPTR origword) 0)
          (\<lambda>(off, alloc_size, dataword).
            let m = page_mask off alloc_size;
                base = iter * 32 + off
            in if alloc_size < min_pages
               then (if off + alloc_size \<noteq> 32 then scan_zone min_pages max_pages (iter + 1) z
                     else let missing = min_pages - alloc_size;
                              max_avail = (zone_size z + 2 ^ 32 - base) mod 2 ^ 32
                          in if max_avail < missing then Inr (Zone_Done z)
                             else rbind (mzone_malloc_at (take_pages z iter m alloc_size) (base + alloc_size) missing)
                                   (\<lambda>(ok, z'). if ok then Inr (Got (base + mz_min z) (alloc_size + missing) z')
                                     else scan_zone min_pages max_pages (iter + 1)
                                           (give_pages z' iter m alloc_size)))
               else Inr (Got (base + mz_min z) alloc_size (take_pages z iter m alloc_size))))
      else Inr (Zone_Done z))"
  by pat_completeness auto
termination
proof (relation "measure (\<lambda>(mn, mx, iter, z). (mz_max z - mz_min z) div 8 + 1 - 4 * iter)", simp, goal_cases)
  case 1
  then show ?case by simp
next
  case 2
  then show ?case by simp
next
  case (3 mn mx iter z)
  then have "4 * iter < (mz_max z - mz_min z) div 8 + 1" by simp
  then have "(mz_max z - mz_min z) div 8 + 1 - 4 * (iter + 1) < (mz_max z - mz_min z) div 8 + 1 - 4 * iter"
    by (intro diff_less_mono2) simp_all
  with "3" show ?case by (auto dest!: mzone_malloc_at_bounds)
qed

declare scan_zone.simps [simp del]

section \<open>The allocator\<close>

text \<open>
  The loop over zones from \<open>zone_id\<close> down. The zones are part of the result also when the
  allocation fails, which is the \<open>Inl E_BADALLOC\<close> inside of it: the exception leaves the
  zones in the state they are in. Continuing the exception, which retries the allocation, is
  left to the handler and not part of the model.
\<close>

fun page_malloc_zones ::
  "nat \<Rightarrow> nat \<Rightarrow> nat \<Rightarrow> mzone list \<Rightarrow> ((kos_error + nat \<times> nat) \<times> mzone list) result" where
  "page_malloc_zones min_pages max_pages zone_id zones =
     (let zone = zones ! zone_id;
          next_zone = (\<lambda>zs. case zone_id of 0 \<Rightarrow> Inr (Inl E_BADALLOC, zs)
                              | Suc k \<Rightarrow> page_malloc_zones min_pages max_pages k zs)
      in rassert (mz_max zone \<noteq> 0)
          (if unat (mz_free zone) < min_pages then next_zone zones
           else rbind (scan_zone min_pages max_pages 0 zone)
                 (\<lambda>r. case r of Got base alloc_size z' \<Rightarrow> Inr (Inr (base, alloc_size), zones[zone_id := z'])
                       | Zone_Done z' \<Rightarrow> next_zone (zones[zone_id := z']))))"

declare page_malloc_zones.simps [simp del]

definition page_malloc_part ::
  "nat \<Rightarrow> nat \<Rightarrow> nat \<Rightarrow> mzone list \<Rightarrow> ((kos_error + nat \<times> nat) \<times> mzone list) result" where
  "page_malloc_part min_pages max_pages max_zone zones =
     rassert (min_pages \<le> max_pages) (rassert (max_zone < length zones)
       (page_malloc_zones min_pages max_pages max_zone zones))"

definition page_malloc ::
  "nat \<Rightarrow> nat \<Rightarrow> mzone list \<Rightarrow> ((kos_error + nat) \<times> mzone list) result" where
  "page_malloc num_pages max_zone zones =
     rbind (page_malloc_part num_pages num_pages max_zone zones)
       (\<lambda>(r, zs). Inr (map_sum id fst r, zs))"

text \<open>
  Page numbers are 32 bits wide, so that the end \<open>base + num\<close> of a range may wrap to 0.
\<close>

fun page_free_loop :: "nat \<Rightarrow> nat \<Rightarrow> nat \<Rightarrow> mzone list \<Rightarrow> mzone list result" where
  "page_free_loop 0 base num zones = Inr zones"
| "page_free_loop (Suc i) base num zones =
     (if num = 0 then Inr zones
      else let zone = zones ! i;
               zone_end = (base + num) mod 2 ^ 32;
               zone_start = (if mz_min zone < base then base else mz_min zone)
           in rassert (mz_max zone \<noteq> 0)
               (if zone_end \<le> mz_min zone \<and> zone_end \<noteq> 0
                then page_free_loop i base num zones
                else rassert ((zone_end + 2 ^ 32 - 1) mod 2 ^ 32 \<le> mz_max zone)
                      (rassert (zone_start < zone_end)
                        (rbind (mzone_free zone (zone_start - mz_min zone) (zone_end - zone_start))
                          (\<lambda>z'. page_free_loop i base (zone_start - base) (zones[i := z']))))))"

definition page_free :: "nat \<Rightarrow> nat \<Rightarrow> mzone list \<Rightarrow> mzone list result" where
  "page_free base num zones =
     rassert (base \<le> (base + num) mod 2 ^ 32 \<or> (base + num) mod 2 ^ 32 = 0)
       (page_free_loop (length zones) base num zones)"

fun page_malloc_at_loop ::
  "nat \<Rightarrow> nat \<Rightarrow> nat \<Rightarrow> nat \<Rightarrow> mzone list \<Rightarrow> (bool \<times> mzone list) result" where
  "page_malloc_at_loop 0 base num remaining zones = Inr (True, zones)"
| "page_malloc_at_loop (Suc i) base num remaining zones =
     (if remaining = 0 then Inr (True, zones)
      else let zone = zones ! i;
               zone_end = (base + num) mod 2 ^ 32;
               zone_start = (if mz_min zone < base then base else mz_min zone);
               err = (\<lambda>zs. rbind (page_free zone_end (num - remaining) zs) (\<lambda>zs'. Inr (False, zs')))
           in if zone_end \<le> mz_min zone \<and> zone_end \<noteq> 0
              then page_malloc_at_loop i base num remaining zones
              else if mz_max zone < (zone_end + 2 ^ 32 - 1) mod 2 ^ 32 then err zones
              else rassert (zone_start < zone_end)
                    (rbind (mzone_malloc_at zone (zone_start - mz_min zone) (zone_end - zone_start))
                      (\<lambda>(ok, z'). if \<not> ok then err (zones[i := z'])
                        else page_malloc_at_loop i base num (zone_start - base) (zones[i := z']))))"

definition page_malloc_at :: "nat \<Rightarrow> nat \<Rightarrow> mzone list \<Rightarrow> (bool \<times> mzone list) result" where
  "page_malloc_at base num zones = page_malloc_at_loop (length zones) base num num zones"

section \<open>Free pages\<close>

definition swap_ix :: "nat \<Rightarrow> nat" where
  "swap_ix k = 8 * (3 - k div 8) + k mod 8"

lemma bit_SWAPPTR: "bit (SWAPPTR w) k \<longleftrightarrow> k < 32 \<and> bit w (swap_ix k)"
proof (cases "k < 32")
  case True
  from nat_less_32_cases [OF this] show ?thesis
    by (elim insertE emptyE; simp add: SWAPPTR_def swap_ix_def bit_simps bit_word_ge_length
        flip: numeral_2_eq_2)
next
  case False
  then show ?thesis by (auto simp: bit_word_ge_length)
qed

lemma swap_ix_less [simp]: "swap_ix k < 32"
proof -
  have "3 - k div 8 \<le> 3" "k mod 8 < 8" by simp_all
  then show ?thesis unfolding swap_ix_def by linarith
qed

lemma swap_ix_swap_ix [simp]: "k < 32 \<Longrightarrow> swap_ix (swap_ix k) = k"
  by (drule nat_less_32_cases) (elim insertE emptyE; simp add: swap_ix_def)

lemma SWAPPTR_SWAPPTR [simp]: "SWAPPTR (SWAPPTR w) = w"
  by (rule bit_word_eqI) (simp add: bit_SWAPPTR)

lemma SWAPPTR_or: "SWAPPTR (a OR b) = SWAPPTR a OR SWAPPTR b"
  by (rule bit_word_eqI) (auto simp add: bit_SWAPPTR bit_or_iff)

lemma SWAPPTR_and: "SWAPPTR (a AND b) = SWAPPTR a AND SWAPPTR b"
  by (rule bit_word_eqI) (auto simp add: bit_SWAPPTR bit_and_iff)

lemma SWAPPTR_not: "SWAPPTR (NOT a) = NOT (SWAPPTR a)"
  by (rule bit_word_eqI) (auto simp add: bit_SWAPPTR bit_not_iff)

lemma SWAPPTR_0 [simp]: "SWAPPTR 0 = 0"
  by (simp add: SWAPPTR_def)

lemma SWAPPTR_inject [simp]: "SWAPPTR v = SWAPPTR w \<longleftrightarrow> v = w"
  by (metis SWAPPTR_SWAPPTR)

lemma SWAPPTR_eq_0 [simp]: "SWAPPTR w = 0 \<longleftrightarrow> w = 0"
  by (metis SWAPPTR_0 SWAPPTR_inject)

lemma FIXED_SHL_mask: "n \<le> 32 \<Longrightarrow> FIXED_SHL 1 n - 1 = mask n"
  by (auto simp: FIXED_SHL_def mask_eq_exp_minus_1)

lemma bit_page_mask:
  "off + n \<le> 32 \<Longrightarrow> bit (SWAPPTR (page_mask off n)) i \<longleftrightarrow> off \<le> i \<and> i < off + n"
  by (auto simp: page_mask_def FIXED_SHL_mask)

definition page_is_free :: "mzone \<Rightarrow> nat \<Rightarrow> bool" where
  "page_is_free z p \<longleftrightarrow>
     p div 32 < length (mz_fpages z) \<and> bit (SWAPPTR (mz_fpages z ! (p div 32))) (p mod 32)"

lemma div_mod_range:
  fixes p i off n :: nat
  assumes "off + n \<le> 32"
  shows "p div 32 = i \<and> off \<le> p mod 32 \<and> p mod 32 < off + n \<longleftrightarrow>
     32 * i + off \<le> p \<and> p < 32 * i + off + n"
proof -
  have p: "p = 32 * (p div 32) + p mod 32" "p mod 32 < 32" by simp_all
  show ?thesis
  proof
    assume "p div 32 = i \<and> off \<le> p mod 32 \<and> p mod 32 < off + n"
    with p show "32 * i + off \<le> p \<and> p < 32 * i + off + n" by linarith
  next
    assume r: "32 * i + off \<le> p \<and> p < 32 * i + off + n"
    with assms have "p div 32 = i" by (intro div_nat_eqI) auto
    with r p show "p div 32 = i \<and> off \<le> p mod 32 \<and> p mod 32 < off + n" by linarith
  qed
qed

lemma page_is_free_give:
  assumes "i < length (mz_fpages z)" "off + n \<le> 32"
  shows "page_is_free (give_pages z i (page_mask off n) n) p \<longleftrightarrow>
    page_is_free z p \<or> 32 * i + off \<le> p \<and> p < 32 * i + off + n"
  using assms
  by (auto simp: page_is_free_def give_pages_def nth_list_update SWAPPTR_or bit_or_iff bit_page_mask
      simp flip: div_mod_range [OF assms(2)])

lemma page_is_free_take:
  assumes "i < length (mz_fpages z)" "off + n \<le> 32"
  shows "page_is_free (take_pages z i (page_mask off n) n) p \<longleftrightarrow>
    page_is_free z p \<and> \<not> (32 * i + off \<le> p \<and> p < 32 * i + off + n)"
  using assms
  by (auto simp: page_is_free_def take_pages_def nth_list_update SWAPPTR_and SWAPPTR_not
      bit_and_iff bit_not_iff bit_page_mask simp flip: div_mod_range [OF assms(2)])

lemma and_page_mask_eq_0:
  assumes "i < length (mz_fpages z)" "off + n \<le> 32"
  shows "mz_fpages z ! i AND page_mask off n = 0 \<longleftrightarrow>
    (\<forall>p. 32 * i + off \<le> p \<and> p < 32 * i + off + n \<longrightarrow> \<not> page_is_free z p)"
proof -
  have "mz_fpages z ! i AND page_mask off n = 0 \<longleftrightarrow> SWAPPTR (mz_fpages z ! i AND page_mask off n) = 0"
    by simp
  also have "\<dots> \<longleftrightarrow> (\<forall>k<32. bit (SWAPPTR (mz_fpages z ! i)) k \<longrightarrow> \<not> (off \<le> k \<and> k < off + n))"
    using assms(2) by (auto simp: word_eq_zero_iff_no_bit SWAPPTR_and bit_and_iff bit_page_mask)
  also have "\<dots> \<longleftrightarrow> (\<forall>p. 32 * i + off \<le> p \<and> p < 32 * i + off + n \<longrightarrow> \<not> page_is_free z p)"
    (is "?l \<longleftrightarrow> ?r")
  proof
    assume ?l then show ?r
      using assms by (auto simp: page_is_free_def simp flip: div_mod_range [OF assms(2)])
  next
    assume r: ?r
    show ?l
    proof (intro allI impI notI)
      fix k :: nat assume k: "k < 32" "bit (SWAPPTR (mz_fpages z ! i)) k" "off \<le> k \<and> k < off + n"
      from k assms have "page_is_free z (32 * i + k)" by (simp add: page_is_free_def)
      with r k show False by auto
    qed
  qed
  finally show ?thesis .
qed

lemma and_page_mask_eq_mask:
  assumes "i < length (mz_fpages z)" "off + n \<le> 32"
  shows "mz_fpages z ! i AND page_mask off n = page_mask off n \<longleftrightarrow>
    (\<forall>p. 32 * i + off \<le> p \<and> p < 32 * i + off + n \<longrightarrow> page_is_free z p)"
proof -
  have "mz_fpages z ! i AND page_mask off n = page_mask off n \<longleftrightarrow>
      SWAPPTR (mz_fpages z ! i) AND SWAPPTR (page_mask off n) = SWAPPTR (page_mask off n)"
    by (simp flip: SWAPPTR_and)
  also have "\<dots> \<longleftrightarrow> (\<forall>k<32. off \<le> k \<and> k < off + n \<longrightarrow> bit (SWAPPTR (mz_fpages z ! i)) k)"
    using assms(2) by (auto simp: word_and_eq_mask_iff bit_page_mask)
  also have "\<dots> \<longleftrightarrow> (\<forall>p. 32 * i + off \<le> p \<and> p < 32 * i + off + n \<longrightarrow> page_is_free z p)"
    (is "?l \<longleftrightarrow> ?r")
  proof
    assume ?l then show ?r
      using assms by (auto simp: page_is_free_def simp flip: div_mod_range [OF assms(2)])
  next
    assume r: ?r
    show ?l
    proof (intro allI impI)
      fix k :: nat assume k: "k < 32" "off \<le> k \<and> k < off + n"
      with r have "page_is_free z (32 * i + k)" by auto
      with k show "bit (SWAPPTR (mz_fpages z ! i)) k" by (simp add: page_is_free_def)
    qed
  qed
  finally show ?thesis .
qed

lemma mzone_eqI:
  assumes "mz_min z = mz_min z'" "mz_max z = mz_max z'" "mz_used z = mz_used z'"
    "mz_free z = mz_free z'" "length (mz_fpages z) = length (mz_fpages z')"
    and free: "\<And>p. page_is_free z p \<longleftrightarrow> page_is_free z' p"
  shows "z = (z' :: mzone)"
proof -
  have "mz_fpages z = mz_fpages z'"
  proof (rule nth_equalityI [OF assms(5)])
    fix i assume i: "i < length (mz_fpages z)"
    have "SWAPPTR (mz_fpages z ! i) = SWAPPTR (mz_fpages z' ! i)"
    proof (rule bit_word_eqI)
      fix k assume "k < LENGTH(32)"
      with i assms(5) free [of "32 * i + k"]
      show "bit (SWAPPTR (mz_fpages z ! i)) k = bit (SWAPPTR (mz_fpages z' ! i)) k"
        by (simp add: page_is_free_def)
    qed
    then show "mz_fpages z ! i = mz_fpages z' ! i" by simp
  qed
  with assms show ?thesis by (cases z; cases z') simp
qed

end
