(* ===== verification/Page_Zones.thy ===== *)
theory Page_Zones
  imports Page_Memory
begin

text \<open>
  One zone of the page allocator: its well-formedness, what taking and returning pages does to
  the set of its free pages, and what the scan of a zone for a run of free pages finds.
\<close>

section \<open>Well-formed zones\<close>

definition zone_wf :: "mzone \<Rightarrow> bool" where
  "zone_wf z \<longleftrightarrow> mz_min z \<le> mz_max z \<and> mz_max z \<noteq> 0 \<and> mz_max z < 2 ^ 32 \<and> zone_size z < 2 ^ 32 \<and>
     length (mz_fpages z) = fpages_bytes z div 4 \<and>
     list_all (\<lambda>p. page_is_free z p \<longrightarrow> p < zone_size z) [0..<32 * length (mz_fpages z)] \<and>
     unat (mz_free z) = length (filter (page_is_free z) [0..<zone_size z])"

definition free_pages :: "mzone \<Rightarrow> nat set" where
  "free_pages z = {p. page_is_free z p}"

lemma page_is_free_bound: "page_is_free z p \<Longrightarrow> p < 32 * length (mz_fpages z)"
  by (auto simp: page_is_free_def)

lemma finite_free_pages [simp, intro]: "finite (free_pages z)"
  by (rule finite_subset [of _ "{..<32 * length (mz_fpages z)}"])
    (auto simp: free_pages_def dest: page_is_free_bound)

lemma zone_wfD:
  assumes "zone_wf z"
  shows "mz_min z \<le> mz_max z" "mz_max z \<noteq> 0" "mz_max z < 2 ^ 32" "zone_size z < 2 ^ 32"
    "length (mz_fpages z) = fpages_bytes z div 4"
    "page_is_free z p \<Longrightarrow> p < zone_size z"
    "unat (mz_free z) = card (free_pages z)"
proof -
  from assms have le: "page_is_free z p \<Longrightarrow> p < zone_size z" for p
    using page_is_free_bound [of z p] by (auto simp: zone_wf_def list_all_iff)
  then show "page_is_free z p \<Longrightarrow> p < zone_size z" .
  have "card (free_pages z) = card (set (filter (page_is_free z) [0..<zone_size z]))"
    using le by (intro arg_cong [of _ _ card]) (auto simp: free_pages_def)
  also have "\<dots> = length (filter (page_is_free z) [0..<zone_size z])"
    by (intro distinct_card distinct_filter distinct_upt)
  finally show "unat (mz_free z) = card (free_pages z)" using assms by (simp add: zone_wf_def)
qed (use assms in \<open>auto simp: zone_wf_def\<close>)

lemma zone_wfI:
  assumes "mz_min z \<le> mz_max z" "mz_max z \<noteq> 0" "mz_max z < 2 ^ 32" "zone_size z < 2 ^ 32"
    "length (mz_fpages z) = fpages_bytes z div 4"
    and le: "\<And>p. page_is_free z p \<Longrightarrow> p < zone_size z"
    and "unat (mz_free z) = card (free_pages z)"
  shows "zone_wf z"
proof -
  have "card (free_pages z) = card (set (filter (page_is_free z) [0..<zone_size z]))"
    using le by (intro arg_cong [of _ _ card]) (auto simp: free_pages_def)
  also have "\<dots> = length (filter (page_is_free z) [0..<zone_size z])"
    by (intro distinct_card distinct_filter distinct_upt)
  finally show ?thesis using assms by (simp add: zone_wf_def list_all_iff)
qed

lemma zone_size_upper: "mz_min z \<le> mz_max z \<Longrightarrow> zone_size z = mz_max z - mz_min z + 1"
  by (simp add: zone_size_def)

lemma word_index_in_fpages:
  assumes "length (mz_fpages z) = fpages_bytes z div 4" "mz_min z \<le> mz_max z" "p < zone_size z"
  shows "p div 32 < length (mz_fpages z)" "4 * (p div 32) < fpages_bytes z"
  using assms unfolding fpages_bytes_def by (simp_all add: zone_size_def)

text \<open>
  A zone \<open>z'\<close> that agrees with \<open>z\<close> but for the pages of a set, which have
  become free (or used) together with the counters.
\<close>

definition zone_with :: "mzone \<Rightarrow> mzone \<Rightarrow> nat set \<Rightarrow> 32 word \<Rightarrow> bool" where
  "zone_with z z' S d \<longleftrightarrow> mz_min z' = mz_min z \<and> mz_max z' = mz_max z \<and>
     length (mz_fpages z') = length (mz_fpages z) \<and> free_pages z' = S \<and>
     mz_free z' = mz_free z + d \<and> mz_used z' = mz_used z - d"

lemma zone_withD:
  assumes "zone_with z z' S d"
  shows "mz_min z' = mz_min z" "mz_max z' = mz_max z" "length (mz_fpages z') = length (mz_fpages z)"
    "free_pages z' = S" "mz_free z' = mz_free z + d" "mz_used z' = mz_used z - d"
    "page_is_free z' p \<longleftrightarrow> p \<in> S" "zone_size z' = zone_size z" "fpages_bytes z' = fpages_bytes z"
  using assms by (auto simp: zone_with_def free_pages_def zone_size_def fpages_bytes_def)

lemma zone_with_give:
  assumes "i < length (mz_fpages z)" "off + n \<le> 32"
  shows "zone_with z (give_pages z i (page_mask off n) n)
    (free_pages z \<union> {32 * i + off..<32 * i + off + n}) (of_nat n)"
proof -
  have "free_pages (give_pages z i (page_mask off n) n) = free_pages z \<union> {32 * i + off..<32 * i + off + n}"
    by (simp add: set_eq_iff free_pages_def page_is_free_give [OF assms])
  then show ?thesis by (simp add: zone_with_def) (simp add: give_pages_def)
qed

lemma zone_with_take:
  assumes "i < length (mz_fpages z)" "off + n \<le> 32"
  shows "zone_with z (take_pages z i (page_mask off n) n)
    (free_pages z - {32 * i + off..<32 * i + off + n}) (- of_nat n)"
proof -
  have "free_pages (take_pages z i (page_mask off n) n) = free_pages z - {32 * i + off..<32 * i + off + n}"
    by (simp add: set_eq_iff free_pages_def page_is_free_take [OF assms])
  then show ?thesis by (simp add: zone_with_def) (simp add: take_pages_def)
qed

lemma zone_with_trans:
  "zone_with z z1 S1 d1 \<Longrightarrow> zone_with z1 z2 S2 d2 \<Longrightarrow> zone_with z z2 S2 (d1 + d2)"
  by (simp add: zone_with_def)

lemma zone_with_self: "zone_with z z' (free_pages z) 0 \<Longrightarrow> z' = z"
  by (rule mzone_eqI) (simp_all add: zone_with_def free_pages_def set_eq_iff)

lemma zone_with_refl: "zone_with z z (free_pages z) 0"
  by (simp add: zone_with_def)

section \<open>Returning pages\<close>

lemma mzone_free_loop_spec:
  assumes "length (mz_fpages z) = fpages_bytes z div 4" "mz_min z \<le> mz_max z"
    and "iter = page div 32 \<or> num = 0" "page + num \<le> zone_size z"
    and "free_pages z \<inter> {page..<page + num} = {}"
  shows "\<exists>z'. mzone_free_loop iter page num z = Inr z' \<and>
     zone_with z z' (free_pages z \<union> {page..<page + num}) (of_nat num)"
  using assms
proof (induction iter page num z rule: mzone_free_loop.induct)
  case (1 iter page num z)
  show ?case
  proof (cases "num = 0")
    case True
    then show ?thesis by (subst mzone_free_loop.simps) (simp add: zone_with_refl)
  next
    case False
    define n where "n = min (32 - page mod 32) num"
    define z1 where "z1 = give_pages z iter (page_mask (page mod 32) n) n"
    from False "1.prems" have iter: "iter = page div 32" and page: "page < zone_size z" by auto
    note ix = word_index_in_fpages [OF "1.prems"(1,2) page, folded iter]
    have off: "page mod 32 + n \<le> 32" and pg: "32 * iter + page mod 32 = page"
      and n: "n \<le> num" "n = num \<or> page mod 32 + n = 32"
      using iter by (auto simp: n_def)
    have used: "mz_fpages z ! iter AND page_mask (page mod 32) n = 0"
      using "1.prems"(5) n(1) by (auto simp: and_page_mask_eq_0 [OF ix(1) off] pg free_pages_def)
    have step: "zone_with z z1 (free_pages z \<union> {page..<page + n}) (of_nat n)"
      using zone_with_give [OF ix(1) off] by (simp only: pg z1_def)
    note sd = zone_withD [OF step]
    have nxt: "iter + 1 = (page + n) div 32 \<or> num - n = 0"
      using n(2) iter next_word_index by auto
    have "\<exists>z'. mzone_free_loop (iter + 1) (page + n) (num - n) z1 = Inr z' \<and>
      zone_with z1 z' (free_pages z1 \<union> {page + n..<page + n + (num - n)}) (of_nat (num - n))"
      unfolding z1_def n_def
    proof (rule "1.IH" [OF _ _ _ refl refl refl], fold n_def, fold z1_def)
      show "free_pages z1 \<inter> {page + n..<page + n + (num - n)} = {}"
        using "1.prems"(5) n(1) by (auto simp: sd(4))
    qed (use False ix used "1.prems" nxt sd n(1) in auto)
    then obtain z' where z': "mzone_free_loop (iter + 1) (page + n) (num - n) z1 = Inr z'"
      and w: "zone_with z1 z' (free_pages z1 \<union> {page + n..<page + n + (num - n)}) (of_nat (num - n))"
      by blast
    have "mzone_free_loop iter page num z = Inr z'"
      using False ix used z' by (subst mzone_free_loop.simps) (simp add: Let_def flip: n_def z1_def)
    moreover have "zone_with z z' (free_pages z \<union> {page..<page + num}) (of_nat num)"
    proof -
      have "free_pages z1 \<union> {page + n..<page + n + (num - n)} = free_pages z \<union> {page..<page + num}"
        using sd(4) n(1) by auto
      moreover have "of_nat n + of_nat (num - n) = (of_nat num :: 32 word)"
        using n(1) by (simp flip: of_nat_add)
      ultimately show ?thesis using zone_with_trans [OF step w] by simp
    qed
    ultimately show ?thesis by blast
  qed
qed

lemma mzone_free_spec:
  assumes "zone_wf z" "num \<noteq> 0" "page + num \<le> zone_size z"
    and "free_pages z \<inter> {page..<page + num} = {}"
  shows "\<exists>z'. mzone_free z page num = Inr z' \<and>
     zone_with z z' (free_pages z \<union> {page..<page + num}) (of_nat num)"
proof -
  have "mzone_free z page num = mzone_free_loop (page div 32) page num z"
    using assms(2,3) zone_wfD(2) [OF assms(1)] by (simp add: mzone_free_def)
  then show ?thesis
    using mzone_free_loop_spec [OF zone_wfD(5,1) [OF assms(1)] _ assms(3,4)] by simp
qed

lemma zone_wf_zone_with:
  assumes wf: "zone_wf z" and w: "zone_with z z' S d"
    and S: "S \<subseteq> {..<zone_size z}" "unat (mz_free z + d) = card S"
  shows "zone_wf z'"
proof (rule zone_wfI)
  fix p assume "page_is_free z' p"
  then have "p \<in> S" by (simp add: zone_withD(7) [OF w])
  with S(1) show "p < zone_size z'" by (auto simp: zone_withD(8) [OF w])
qed (use zone_wfD(1-5) [OF wf] S(2) in \<open>simp_all add: zone_withD [OF w]\<close>)

lemma free_pages_in_zone: "zone_wf z \<Longrightarrow> free_pages z \<subseteq> {..<zone_size z}"
  by (auto simp: free_pages_def dest: zone_wfD(6))

lemma zone_wf_give:
  assumes wf: "zone_wf z" and w: "zone_with z z' (free_pages z \<union> A) (of_nat (card A))"
    and A: "A \<subseteq> {..<zone_size z}" "free_pages z \<inter> A = {}"
  shows "zone_wf z'"
proof (rule zone_wf_zone_with [OF wf w])
  show sub: "free_pages z \<union> A \<subseteq> {..<zone_size z}" using free_pages_in_zone [OF wf] A(1) by simp
  have fin: "finite A" by (rule finite_subset [OF A(1)]) simp
  note un = card_Un_disjoint [OF finite_free_pages fin A(2)]
  have "card (free_pages z \<union> A) \<le> zone_size z"
    using card_mono [OF _ sub] by simp
  then have le: "card (free_pages z) + card A < 2 ^ 32" using un zone_wfD(4) [OF wf] by simp
  then have "unat (of_nat (card A) :: 32 word) = card A" by (simp add: unat_of_nat)
  with le zone_wfD(7) [OF wf] show "unat (mz_free z + of_nat (card A)) = card (free_pages z \<union> A)"
    by (simp add: unat_word_ariths un)
qed

section \<open>Taking pages\<close>

lemma zone_wf_take:
  assumes wf: "zone_wf z" and w: "zone_with z z' (free_pages z - A) (- of_nat (card A))"
    and A: "A \<subseteq> free_pages z"
  shows "zone_wf z'"
proof (rule zone_wf_zone_with [OF wf w])
  show "free_pages z - A \<subseteq> {..<zone_size z}" using free_pages_in_zone [OF wf] by blast
  have fin: "finite A" by (rule finite_subset [OF A]) simp
  have "unat (mz_free z) < 2 ^ 32" by (rule unat_less_2_32)
  with card_mono [OF finite_free_pages A] zone_wfD(7) [OF wf]
  have le: "card A \<le> unat (mz_free z)" "card A < 2 ^ 32"
    by simp_all
  then have "(of_nat (card A) :: 32 word) \<le> mz_free z" "unat (of_nat (card A) :: 32 word) = card A"
    by (simp_all add: word_le_nat_alt unat_of_nat)
  then have "unat (mz_free z - of_nat (card A)) = unat (mz_free z) - card A"
    by (simp add: unat_sub)
  then show "unat (mz_free z + - of_nat (card A)) = card (free_pages z - A)"
    using card_Diff_subset [OF fin A] zone_wfD(7) [OF wf] by simp
qed

text \<open>
  One iteration of the allocation loop is on track when the pages from \<open>start\<close> to
  \<open>base\<close> have been taken from the zone \<open>z0\<close> the loop was entered with.
\<close>

lemma mzone_malloc_at_loop_spec:
  assumes wf: "zone_wf z0" and "start \<le> base" "base + missing \<le> zone_size z0"
    and "iter = base div 32 \<or> missing = 0"
    and "{start..<base} \<subseteq> free_pages z0"
    and "zone_with z0 z (free_pages z0 - {start..<base}) (- of_nat (base - start))"
  shows "\<exists>z'. mzone_malloc_at_loop start iter base missing z =
       Inr ({base..<base + missing} \<subseteq> free_pages z0, z') \<and>
     (if {base..<base + missing} \<subseteq> free_pages z0
      then zone_with z0 z' (free_pages z0 - {start..<base + missing}) (- of_nat (base + missing - start))
      else z' = z0)"
  using assms(2-)
proof (induction start iter base missing z rule: mzone_malloc_at_loop.induct)
  case (1 start iter base missing z)
  note zd = zone_wfD [OF wf] and wd = zone_withD [OF "1.prems"(5)]
  show ?case
  proof (cases "missing = 0")
    case True
    with "1.prems" show ?thesis by (subst mzone_malloc_at_loop.simps) simp
  next
    case False
    define n where "n = min (32 - base mod 32) missing"
    define m where "m = page_mask (base mod 32) n"
    define z1 where "z1 = take_pages z iter m n"
    from False "1.prems" have iter: "iter = base div 32" and base: "base < zone_size z" by (auto simp: wd)
    have fb: "length (mz_fpages z) = fpages_bytes z div 4" "mz_min z \<le> mz_max z" using zd wd by simp_all
    note ix = word_index_in_fpages [OF fb base, folded iter]
    have off: "base mod 32 + n \<le> 32" and pg: "32 * iter + base mod 32 = base"
      and n: "n \<le> missing" "n = missing \<or> base mod 32 + n = 32"
      using iter by (auto simp: n_def)
    have got: "mz_fpages z ! iter AND m = m \<longleftrightarrow> {base..<base + n} \<subseteq> free_pages z0"
      using wd(7) by (auto simp: m_def and_page_mask_eq_mask [OF ix(1) off] pg free_pages_def)
    show ?thesis
    proof (cases "{base..<base + n} \<subseteq> free_pages z0")
      case True
      have step: "zone_with z z1 (free_pages z - {base..<base + n}) (- of_nat n)"
        using zone_with_take [OF ix(1) off] by (simp only: pg z1_def m_def)
      have inv: "zone_with z0 z1 (free_pages z0 - {start..<base + n}) (- of_nat (base + n - start))"
      proof -
        have "{start..<base + n} = {start..<base} \<union> {base..<base + n}"
          using "1.prems"(1) by (simp add: ivl_disj_un_two(3))
        then have "free_pages z - {base..<base + n} = free_pages z0 - {start..<base + n}"
          unfolding wd(4) by blast
        moreover have "base + n - start = (base - start) + n" using "1.prems"(1) by simp
        then have "- of_nat (base - start) + - of_nat n = (- of_nat (base + n - start) :: 32 word)"
          by simp
        ultimately show ?thesis using zone_with_trans [OF "1.prems"(5) step] by simp
      qed
      have nxt: "iter + 1 = (base + n) div 32 \<or> missing - n = 0"
        using n(2) iter next_word_index by auto
      have sub: "{start..<base + n} \<subseteq> free_pages z0"
      proof
        fix p assume "p \<in> {start..<base + n}"
        then have "p \<in> {start..<base} \<or> p \<in> {base..<base + n}" by auto
        with True "1.prems"(4) show "p \<in> free_pages z0" by blast
      qed
      from True got have m: "\<not> mz_fpages z ! iter AND m \<noteq> m" by simp
      have "{base..<base + missing} = {base..<base + n} \<union> {base + n..<base + missing}"
        using n(1) by auto
      with True n(1) have rest: "{base + n..<base + n + (missing - n)} \<subseteq> free_pages z0 \<longleftrightarrow>
          {base..<base + missing} \<subseteq> free_pages z0" by simp
      have "\<exists>z'. mzone_malloc_at_loop start (iter + 1) (base + n) (missing - n) z1 =
          Inr ({base + n..<base + n + (missing - n)} \<subseteq> free_pages z0, z') \<and>
        (if {base + n..<base + n + (missing - n)} \<subseteq> free_pages z0
         then zone_with z0 z' (free_pages z0 - {start..<base + n + (missing - n)})
           (- of_nat (base + n + (missing - n) - start))
         else z' = z0)"
        unfolding z1_def m_def n_def
        by (rule "1.IH" [OF _ _ _ refl refl refl], fold n_def, fold m_def, fold z1_def)
          (use False ix m "1.prems"(1,2) nxt sub inv n(1) in auto)
      moreover have eq: "mzone_malloc_at_loop start iter base missing z =
          mzone_malloc_at_loop start (iter + 1) (base + n) (missing - n) z1"
        using False ix m by (subst mzone_malloc_at_loop.simps) (simp add: Let_def flip: n_def m_def z1_def)
      moreover have e: "base + n + (missing - n) = base + missing" using n(1) by simp
      ultimately show ?thesis unfolding rest unfolding eq e by simp
    next
      case no: False
      moreover have "{base..<base + n} \<subseteq> {base..<base + missing}" using n(1) by simp
      ultimately have no': "\<not> {base..<base + missing} \<subseteq> free_pages z0" by blast
      from no got have m: "mz_fpages z ! iter AND m \<noteq> m" by simp
      have eq: "mzone_malloc_at_loop start iter base missing z =
          (if base \<noteq> start then rbind (mzone_free z start (base - start)) (\<lambda>z'. Inr (False, z'))
           else Inr (False, z))"
        using False ix m "1.prems"(1)
        by (subst mzone_malloc_at_loop.simps) (simp add: Let_def flip: n_def m_def)
      have "mzone_malloc_at_loop start iter base missing z = Inr (False, z0)"
      proof (cases "base = start")
        case True
        with "1.prems"(5) have "z = z0" by (intro zone_with_self) simp
        with True show ?thesis unfolding eq by simp
      next
        case ne: False
        have wfz: "zone_wf z"
          by (rule zone_wf_take [OF wf _ "1.prems"(4)]) (use "1.prems"(5) in simp)
        have len: "start + (base - start) = base" using "1.prems"(1) by simp
        have dis: "free_pages z \<inter> {start..<start + (base - start)} = {}" unfolding wd(4) len by blast
        have le: "start + (base - start) \<le> zone_size z" and ne0: "base - start \<noteq> 0"
          using "1.prems"(1,2) ne by (simp_all add: wd(8))
        from mzone_free_spec [OF wfz ne0 le dis, unfolded len]
        obtain z' where z': "mzone_free z start (base - start) = Inr z'"
          "zone_with z z' (free_pages z \<union> {start..<base}) (of_nat (base - start))"
          by (elim exE conjE)
        have "free_pages z \<union> {start..<base} = free_pages z0"
          unfolding wd(4) using "1.prems"(4) by blast
        with zone_with_trans [OF "1.prems"(5) z'(2)] have "z' = z0"
          by (intro zone_with_self) simp
        with z'(1) ne show ?thesis unfolding eq by simp
      qed
      with no' show ?thesis by simp
    qed
  qed
qed

lemma mzone_malloc_at_spec:
  assumes wf: "zone_wf z" and "num \<noteq> 0" "page + num \<le> zone_size z"
  shows "\<exists>z'. mzone_malloc_at z page num = Inr ({page..<page + num} \<subseteq> free_pages z, z') \<and>
    (if {page..<page + num} \<subseteq> free_pages z
     then zone_with z z' (free_pages z - {page..<page + num}) (- of_nat num) else z' = z)"
proof (cases "unat (mz_free z) < num")
  case True
  have "\<not> {page..<page + num} \<subseteq> free_pages z"
  proof
    assume "{page..<page + num} \<subseteq> free_pages z"
    from card_mono [OF finite_free_pages this] True zone_wfD(7) [OF wf] show False by simp
  qed
  with True assms(2,3) zone_wfD [OF wf] show ?thesis by (simp add: mzone_malloc_at_def)
next
  case False
  then have "mzone_malloc_at z page num = mzone_malloc_at_loop page (page div 32) page num z"
    using assms(2,3) zone_wfD(2) [OF wf] by (simp add: mzone_malloc_at_def)
  moreover have "page + num - page = num" by simp
  moreover have "zone_with z z (free_pages z - {page..<page}) (- of_nat (page - page))"
    by (simp add: zone_with_refl)
  ultimately show ?thesis
    using mzone_malloc_at_loop_spec [OF wf, of page page num "page div 32" z] assms(3)
    by (simp only: order_refl atLeastLessThan_empty empty_subsetI simp_thms)
qed

section \<open>Searching\<close>

lemma skip_zero_bits_spec:
  assumes "dw \<noteq> 0"
  shows "\<exists>k<32. skip_zero_bits dw off = Inr (drop_bit k dw, off + k) \<and> bit dw k"
  using assms
proof (induction dw off rule: skip_zero_bits.induct)
  case (1 dw off)
  show ?case
  proof (cases "bit dw 0")
    case True
    with "1.prems" show ?thesis by (subst skip_zero_bits.simps) (auto intro!: exI [of _ 0])
  next
    case False
    have nz: "drop_bit 1 dw \<noteq> 0"
    proof
      assume z: "drop_bit 1 dw = 0"
      have s: "\<not> bit dw (Suc j)" for j
      proof -
        have "bit (drop_bit 1 dw) j \<longleftrightarrow> bit (0 :: 32 word) j" by (simp only: z)
        then show ?thesis by (simp add: bit_drop_bit_eq)
      qed
      have "dw = 0"
      proof (rule bit_word_eqI)
        fix i
        show "bit dw i = bit (0 :: 32 word) i"
          using s [of "i - 1"] False by (cases "i = 0") simp_all
      qed
      with "1.prems" show False by simp
    qed
    from "1.IH" [OF "1.prems" False nz]
    obtain k where k: "skip_zero_bits (drop_bit 1 dw) (off + 1) =
        Inr (drop_bit k (drop_bit 1 dw), off + 1 + k)" "bit dw (Suc k)"
      by (auto simp: bit_drop_bit_eq)
    have "Suc k < 32" using k(2) bit_word_ge_length [of "Suc k" dw] by force
    with "1.prems" False k show ?thesis
      by (intro exI [of _ "Suc k"], subst skip_zero_bits.simps) (simp add: drop_bit_drop_bit)
  qed
qed

lemma count_one_bits_spec:
  "s \<le> mx \<Longrightarrow> \<exists>k. count_one_bits dw s mx = (drop_bit k dw, s + k) \<and> s + k \<le> mx \<and>
     (\<forall>j<k. bit dw j) \<and> (s + k < mx \<longrightarrow> \<not> bit dw k)"
proof (induction dw s mx rule: count_one_bits.induct)
  case (1 dw s mx)
  show ?case
  proof (cases "bit dw 0 \<and> s < mx")
    case True
    with "1.IH" obtain k where k: "count_one_bits (drop_bit 1 dw) (s + 1) mx =
        (drop_bit k (drop_bit 1 dw), s + 1 + k)" "s + 1 + k \<le> mx"
      "\<forall>j<k. bit dw (Suc j)" "s + 1 + k < mx \<longrightarrow> \<not> bit dw (Suc k)"
      by (force simp: bit_drop_bit_eq)
    from k(3) True have "\<forall>j<Suc k. bit dw j" by (auto simp: less_Suc_eq_0_disj)
    with True k show ?thesis
      by (intro exI [of _ "Suc k"], subst count_one_bits.simps) (simp add: drop_bit_drop_bit)
  next
    case False
    with "1.prems" show ?thesis
      by (intro exI [of _ 0], subst count_one_bits.simps) auto
  qed
qed

text \<open>
  A scan of the word \<open>w\<close> that starts at bit \<open>off\<close> with a set bit left ends with a
  run of set bits of \<open>w\<close>.
\<close>

lemma scan_dataword_spec:
  assumes "dw = drop_bit off (SWAPPTR origword)" "dw \<noteq> 0" "mn \<le> mx" "0 < mx"
  shows "\<exists>o' n. scan_dataword origword mn mx dw off =
      Inr (o', n, drop_bit (o' + n) (SWAPPTR origword)) \<and>
    o' + n \<le> 32 \<and> 0 < n \<and> n \<le> mx \<and> (\<forall>j. o' \<le> j \<and> j < o' + n \<longrightarrow> bit (SWAPPTR origword) j) \<and>
    (n < mn \<longrightarrow> drop_bit (o' + n) (SWAPPTR origword) = 0)"
  using assms
proof (induction origword mn mx dw off rule: scan_dataword.induct)
  case (1 origword mn mx dw off)
  let ?w = "SWAPPTR origword"
  from skip_zero_bits_spec [OF "1.prems"(2)] obtain k where
    k: "skip_zero_bits dw off = Inr (drop_bit k dw, off + k)" "bit dw k" by blast
  from count_one_bits_spec [of 0 mx "drop_bit k dw"] obtain n where
    n: "count_one_bits (drop_bit k dw) 0 mx = (drop_bit n (drop_bit k dw), n)" "n \<le> mx"
      "\<forall>j<n. bit (drop_bit k dw) j" "n < mx \<longrightarrow> \<not> bit (drop_bit k dw) n" by auto
  let ?o = "off + k"
  have dw2: "drop_bit n (drop_bit k dw) = drop_bit (?o + n) ?w"
    using "1.prems"(1) by (simp add: drop_bit_drop_bit ac_simps)
  have pos: "0 < n"
  proof (rule ccontr)
    assume "\<not> 0 < n"
    with n(4) "1.prems"(4) k(2) show False by (simp add: bit_drop_bit_eq)
  qed
  have bits: "bit ?w j" if "?o \<le> j" "j < ?o + n" for j
  proof -
    from that have "j - ?o < n" by linarith
    with n(3) have "bit (drop_bit k dw) (j - ?o)" by blast
    then show ?thesis using "1.prems"(1) that by (simp add: bit_drop_bit_eq ac_simps)
  qed
  from bits [of "?o + n - 1"] pos have "bit ?w (?o + n - 1)" by simp
  then have le: "?o + n \<le> 32" using bit_word_ge_length [of "?o + n - 1" ?w] pos by force
  have msk: "origword AND page_mask ?o n = page_mask ?o n"
  proof -
    have "SWAPPTR origword AND SWAPPTR (page_mask ?o n) = SWAPPTR (page_mask ?o n)"
      using bits by (auto simp: word_and_eq_mask_iff bit_page_mask [OF le])
    then show ?thesis by (simp flip: SWAPPTR_and)
  qed
  show ?case
  proof (cases "n < mn \<and> drop_bit (?o + n) ?w \<noteq> 0")
    case False
    then have "scan_dataword origword mn mx dw off = Inr (?o, n, drop_bit (?o + n) ?w)"
      using k(1) n(1) le msk dw2 by (subst scan_dataword.simps) auto
    with False le pos n(2) bits show ?thesis by (intro exI [of _ ?o] exI [of _ n]) auto
  next
    case True
    have ne: "?o + n \<noteq> 32"
    proof
      assume "?o + n = 32"
      then have "drop_bit (?o + n) ?w = 0" by (intro bit_word_eqI) (simp add: bit_drop_bit_eq bit_word_ge_length)
      with True show False by simp
    qed
    have "scan_dataword origword mn mx dw off = scan_dataword origword mn mx (drop_bit (?o + n) ?w) (?o + n)"
      using k(1) n(1) le msk dw2 True ne pos by (subst scan_dataword.simps) auto
    moreover have "\<exists>o' n'. scan_dataword origword mn mx (drop_bit n (drop_bit k dw)) (?o + n) =
        Inr (o', n', drop_bit (o' + n') ?w) \<and>
      o' + n' \<le> 32 \<and> 0 < n' \<and> n' \<le> mx \<and> (\<forall>j. o' \<le> j \<and> j < o' + n' \<longrightarrow> bit ?w j) \<and>
      (n' < mn \<longrightarrow> drop_bit (o' + n') ?w = 0)"
      using True ne pos le msk n(1) dw2 "1.prems" k(1)
      by (intro "1.IH" [of "(drop_bit k dw, off + k)" "drop_bit k dw" "off + k" "(drop_bit n (drop_bit k dw), n)"
            "drop_bit n (drop_bit k dw)" n]) auto
    ultimately show ?thesis by (simp only: dw2)
  qed
qed

text \<open>
  A zone as \<open>page_malloc_part\<close> leaves it after it took \<open>n\<close> pages from
  \<open>base\<close> on (an absolute page number).
\<close>

definition pages_taken :: "mzone \<Rightarrow> mzone \<Rightarrow> nat \<Rightarrow> nat \<Rightarrow> bool" where
  "pages_taken z z' base n \<longleftrightarrow> mz_min z \<le> base \<and> base + n \<le> mz_max z + 1 \<and>
     {base - mz_min z..<base - mz_min z + n} \<subseteq> free_pages z \<and>
     zone_with z z' (free_pages z - {base - mz_min z..<base - mz_min z + n}) (- of_nat n)"

lemma pages_takenI:
  assumes "zone_wf z" "0 < n" "{p..<p + n} \<subseteq> free_pages z"
    "zone_with z z' (free_pages z - {p..<p + n}) (- of_nat n)"
  shows "pages_taken z z' (p + mz_min z) n"
proof -
  have "p + n - 1 \<in> free_pages z" using assms(2,3) by auto
  then have "p + n - 1 < zone_size z" using free_pages_in_zone [OF assms(1)] by auto
  then have "p + n + mz_min z \<le> mz_max z + 1" using zone_wfD(1) [OF assms(1)] by (simp add: zone_size_def)
  with assms(3,4) show ?thesis by (simp add: pages_taken_def ac_simps)
qed

lemma pages_taken_wf:
  assumes "zone_wf z" "pages_taken z z' base n"
  shows "zone_wf z'"
proof (rule zone_wf_take [OF assms(1)])
  let ?A = "{base - mz_min z..<base - mz_min z + n}"
  show "?A \<subseteq> free_pages z" using assms(2) unfolding pages_taken_def by blast
  have "card ?A = n" by simp
  then show "zone_with z z' (free_pages z - ?A) (- of_nat (card ?A))"
    using assms(2) unfolding pages_taken_def by metis
qed

lemma give_take_pages:
  assumes "i < length (mz_fpages z)" "off + n \<le> 32"
    "{32 * i + off..<32 * i + off + n} \<subseteq> free_pages z"
  shows "give_pages (take_pages z i (page_mask off n) n) i (page_mask off n) n = z"
proof (rule zone_with_self)
  let ?z = "take_pages z i (page_mask off n) n"
  have t: "zone_with z ?z (free_pages z - {32 * i + off..<32 * i + off + n}) (- of_nat n)"
    by (rule zone_with_take [OF assms(1,2)])
  have "i < length (mz_fpages ?z)" using assms(1) by simp
  from zone_with_give [OF this assms(2)] zone_withD(4) [OF t] assms(3)
  have "zone_with ?z (give_pages ?z i (page_mask off n) n) (free_pages z) (of_nat n)"
    by (simp add: Un_absorb2)
  from zone_with_trans [OF t this] show "zone_with z (give_pages ?z i (page_mask off n) n) (free_pages z) 0"
    by simp
qed

lemma scan_index_in_fpages:
  assumes "zone_wf z" "4 * iter < (mz_max z - mz_min z) div 8 + 1"
  shows "iter < length (mz_fpages z)" "4 * iter < fpages_bytes z"
proof -
  have "4 * iter < fpages_bytes z \<and> iter < fpages_bytes z div 4"
    using assms(2) unfolding fpages_bytes_def by linarith
  then show "iter < length (mz_fpages z)" "4 * iter < fpages_bytes z"
    using zone_wfD(5) [OF assms(1)] by simp_all
qed

text \<open>What a scan of a zone from word \<open>iter\<close> on may end with.\<close>

definition scan_ok :: "nat \<Rightarrow> nat \<Rightarrow> nat \<Rightarrow> mzone \<Rightarrow> zone_scan result \<Rightarrow> bool" where
  "scan_ok mn mx iter z r \<longleftrightarrow> (case r of
      Inl e \<Rightarrow> e = E_ASSERT \<and> 1 < mn
    | Inr (Got base n z') \<Rightarrow> mn \<le> n \<and> n \<le> mx \<and> 0 < n \<and> pages_taken z z' base n
    | Inr (Zone_Done z') \<Rightarrow> z' = z \<and> (mn \<le> 1 \<longrightarrow> free_pages z \<inter> {32 * iter..} = {}))"

lemma scan_ok_simps [simp]:
  "scan_ok mn mx iter z (Inl e) \<longleftrightarrow> e = E_ASSERT \<and> 1 < mn"
  "scan_ok mn mx iter z (Inr (Got base n z')) \<longleftrightarrow> mn \<le> n \<and> n \<le> mx \<and> 0 < n \<and> pages_taken z z' base n"
  "scan_ok mn mx iter z (Inr (Zone_Done z')) \<longleftrightarrow> z' = z \<and> (mn \<le> 1 \<longrightarrow> free_pages z \<inter> {32 * iter..} = {})"
  by (simp_all add: scan_ok_def)

lemma scan_ok_next:
  assumes "scan_ok mn mx (iter + 1) z r" "mz_fpages z ! iter = 0 \<or> 1 < mn"
  shows "scan_ok mn mx iter z r"
proof -
  have "free_pages z \<inter> {32 * iter..} = free_pages z \<inter> {32 * (iter + 1)..}" if "mz_fpages z ! iter = 0"
  proof -
    have "p \<notin> free_pages z" if "32 * iter \<le> p" "p < 32 * (iter + 1)" for p
    proof -
      from that have "p div 32 = iter" by (intro div_nat_eqI) auto
      then show ?thesis using \<open>mz_fpages z ! iter = 0\<close> by (simp add: free_pages_def page_is_free_def)
    qed
    then show ?thesis by force
  qed
  with assms show ?thesis by (auto simp: scan_ok_def split: sum.splits zone_scan.splits)
qed

text \<open>The run at the end of a data word is continued in the words that follow.\<close>

lemma extend_run_spec:
  assumes wf: "zone_wf z" and n: "0 < n" "n < mn" "mn \<le> mx"
    and rng: "{base..<base + n} \<subseteq> free_pages z"
    and t: "zone_with z z1 (free_pages z - {base..<base + n}) (- of_nat n)"
  shows "(\<exists>z2. mzone_malloc_at z1 (base + n) (mn - n) = Inr (True, z2) \<and>
        pages_taken z z2 (base + mz_min z) mn) \<or>
    mzone_malloc_at z1 (base + n) (mn - n) = Inr (False, z1) \<or>
    mzone_malloc_at z1 (base + n) (mn - n) = Inl E_ASSERT"
proof (cases "base + n + (mn - n) \<le> zone_size z1")
  have wf1: "zone_wf z1" using zone_wf_take [OF wf _ rng] t by simp
  {
    case False
    then show ?thesis using n zone_wfD(2) [OF wf1] by (simp add: mzone_malloc_at_def)
  next
    case fits: True
    from n have miss: "mn - n \<noteq> 0" by simp
    let ?more = "{base + n..<base + n + (mn - n)}"
    from mzone_malloc_at_spec [OF wf1 miss fits] obtain z2 where
      z2: "mzone_malloc_at z1 (base + n) (mn - n) = Inr (?more \<subseteq> free_pages z1, z2)"
      and w: "if ?more \<subseteq> free_pages z1
        then zone_with z1 z2 (free_pages z1 - ?more) (- of_nat (mn - n)) else z2 = z1" by blast
    show ?thesis
    proof (cases "?more \<subseteq> free_pages z1")
      case False
      with w z2 show ?thesis by simp
    next
      case got: True
      have e: "{base..<base + mn} = {base..<base + n} \<union> ?more" using n by auto
      have sub: "{base..<base + mn} \<subseteq> free_pages z"
        unfolding e using rng got zone_withD(4) [OF t] by blast
      have "free_pages z1 - ?more = free_pages z - {base..<base + mn}"
        unfolding e zone_withD(4) [OF t] by blast
      moreover have "- of_nat n + - of_nat (mn - n) = (- of_nat mn :: 32 word)"
        using n by (simp add: of_nat_diff)
      ultimately have "zone_with z z2 (free_pages z - {base..<base + mn}) (- of_nat mn)"
        using zone_with_trans [OF t, of z2] w got by metis
      with pages_takenI [OF wf _ sub] n have "pages_taken z z2 (base + mz_min z) mn" by simp
      with z2 got show ?thesis by simp
    qed
  }
qed

lemma scan_zone_step:
  assumes wf: "zone_wf z" and mn: "mn \<le> mx" "0 < mx"
    and iter: "4 * iter < (mz_max z - mz_min z) div 8 + 1"
  shows "scan_zone mn mx iter z = scan_zone mn mx (iter + 1) z \<and> (mz_fpages z ! iter = 0 \<or> 1 < mn) \<or>
    scan_ok mn mx iter z (scan_zone mn mx iter z)"
proof (cases "mz_fpages z ! iter = 0")
  note ix = scan_index_in_fpages [OF wf iter]
  {
    case True
    with iter ix show ?thesis by (subst scan_zone.simps) simp
  next
    case orig: False
    let ?w = "SWAPPTR (mz_fpages z ! iter)"
    from scan_dataword_spec [of ?w 0 "mz_fpages z ! iter" mn mx] orig mn
    obtain off n where s: "scan_dataword (mz_fpages z ! iter) mn mx ?w 0 = Inr (off, n, drop_bit (off + n) ?w)"
      and on: "off + n \<le> 32" "0 < n" "n \<le> mx"
      and bits: "\<And>j. off \<le> j \<Longrightarrow> j < off + n \<Longrightarrow> bit ?w j" by auto
    define m where "m = page_mask off n"
    define base where "base = iter * 32 + off"
    define z1 where "z1 = take_pages z iter m n"
    have rng: "{base..<base + n} \<subseteq> free_pages z"
    proof
      fix p assume "p \<in> {base..<base + n}"
      then have "32 * iter + off \<le> p \<and> p < 32 * iter + off + n" by (simp add: base_def ac_simps)
      then have "p div 32 = iter \<and> off \<le> p mod 32 \<and> p mod 32 < off + n"
        using div_mod_range [OF on(1)] by blast
      with bits ix(1) show "p \<in> free_pages z" by (simp add: free_pages_def page_is_free_def)
    qed
    have t: "zone_with z z1 (free_pages z - {base..<base + n}) (- of_nat n)"
      using zone_with_take [OF ix(1) on(1)] by (simp add: z1_def m_def base_def ac_simps)
    have give: "give_pages z1 iter m n = z"
      unfolding z1_def m_def using rng
      by (intro give_take_pages [OF ix(1) on(1)]) (simp add: base_def ac_simps)
    have eq: "scan_zone mn mx iter z =
       (if n < mn
        then (if off + n \<noteq> 32 then scan_zone mn mx (iter + 1) z
              else if (zone_size z + 2 ^ 32 - base) mod 2 ^ 32 < mn - n then Inr (Zone_Done z)
              else rbind (mzone_malloc_at z1 (base + n) (mn - n))
                     (\<lambda>(ok, z'). if ok then Inr (Got (base + mz_min z) mn z')
                        else scan_zone mn mx (iter + 1) (give_pages z' iter m n)))
        else Inr (Got (base + mz_min z) n z1))"
      using iter ix orig s
      by (subst scan_zone.simps) (simp add: Let_def base_def m_def z1_def less_imp_le cong: if_cong)
    show ?thesis
    proof (cases "n < mn")
      case False
      with eq on pages_takenI [OF wf on(2) rng t] show ?thesis by simp
    next
      case True
      with on(2) have "1 < mn" by simp
      with extend_run_spec [OF wf on(2) True mn(1) rng t] eq True give mn(1) show ?thesis by auto
    qed
  }
qed

lemma scan_zone_spec:
  assumes wf: "zone_wf z" and mn: "mn \<le> mx" "0 < mx"
  shows "scan_ok mn mx iter z (scan_zone mn mx iter z)"
proof (induction "(mz_max z - mz_min z) div 8 + 1 - 4 * iter" arbitrary: iter rule: less_induct)
  case less
  show ?case
  proof (cases "4 * iter < (mz_max z - mz_min z) div 8 + 1")
    case False
    then have "zone_size z \<le> 32 * iter" using zone_wfD(1) [OF wf] by (simp add: zone_size_def)
    then have "free_pages z \<inter> {32 * iter..} = {}" using free_pages_in_zone [OF wf] by auto
    with False show ?thesis by (subst scan_zone.simps) simp
  next
    case True
    then have "(mz_max z - mz_min z) div 8 + 1 - 4 * (iter + 1) < (mz_max z - mz_min z) div 8 + 1 - 4 * iter"
      by (intro diff_less_mono2) simp_all
    then have "scan_ok mn mx (iter + 1) z (scan_zone mn mx (iter + 1) z)" by (rule less.hyps)
    with scan_zone_step [OF wf mn True] show ?thesis by (metis scan_ok_next)
  qed
qed

end
