(* ===== verification/Page_Alloc.thy ===== *)
theory Page_Alloc
  imports Page_Zones
begin

text \<open>
  The page allocator over all zones: the physical pages that are free, what an allocation and a
  free do to them, the interface that clients of the allocator rely on, and the allocator's
  properties.
\<close>

section \<open>The physical pages of all zones\<close>

text \<open>
  The zones cover disjoint, ascending ranges of pages, and the last page number of the 32-bit
  page type belongs to none of them.
\<close>

definition zones_wf :: "mzone list \<Rightarrow> bool" where
  "zones_wf zs \<longleftrightarrow> list_all (\<lambda>z. zone_wf z \<and> mz_max z + 1 < 2 ^ 32) zs \<and>
     sorted_wrt (\<lambda>a b. mz_max a < mz_min b) zs"

definition zone_phys :: "mzone \<Rightarrow> nat set" where
  "zone_phys z = {p. mz_min z \<le> p \<and> p - mz_min z \<in> free_pages z}"

definition phys_free :: "mzone list \<Rightarrow> nat set" where
  "phys_free zs = (\<Union>i<length zs. zone_phys (zs ! i))"

definition phys_managed :: "mzone list \<Rightarrow> nat set" where
  "phys_managed zs = (\<Union>i<length zs. {mz_min (zs ! i)..mz_max (zs ! i)})"

lemma zones_wfD:
  assumes "zones_wf zs" "i < length zs"
  shows "zone_wf (zs ! i)" "mz_max (zs ! i) + 1 < 2 ^ 32"
    "j < i \<Longrightarrow> mz_max (zs ! j) < mz_min (zs ! i)"
  using assms by (auto simp: zones_wf_def list_all_length sorted_wrt_iff_nth_less)

lemma zone_phys_range: "zone_wf z \<Longrightarrow> p \<in> zone_phys z \<Longrightarrow> mz_min z \<le> p \<and> p \<le> mz_max z"
  using free_pages_in_zone [of z] by (auto simp: zone_phys_def zone_size_def)

lemma phys_free_managed: "zones_wf zs \<Longrightarrow> phys_free zs \<subseteq> phys_managed zs"
  using zone_phys_range by (fastforce simp: phys_free_def phys_managed_def dest: zones_wfD(1))

lemma zones_disjoint:
  assumes "zones_wf zs" "i < length zs" "j < length zs"
    and "mz_min (zs ! i) \<le> p" "p \<le> mz_max (zs ! i)" "mz_min (zs ! j) \<le> p" "p \<le> mz_max (zs ! j)"
  shows "i = j"
  using assms zones_wfD(3) [of zs i j] zones_wfD(3) [of zs j i] by (cases i j rule: linorder_cases) simp_all

lemma zones_wf_update:
  assumes "zones_wf zs" "zone_wf z'" "mz_min z' = mz_min (zs ! i)" "mz_max z' = mz_max (zs ! i)"
  shows "zones_wf (zs[i := z'])"
  using assms
  by (cases "i < length zs") (auto simp: zones_wf_def list_all_length sorted_wrt_iff_nth_less nth_list_update_if)

lemma phys_managed_update:
  assumes "mz_min z' = mz_min (zs ! i)" "mz_max z' = mz_max (zs ! i)"
  shows "phys_managed (zs[i := z']) = phys_managed zs"
  unfolding phys_managed_def using assms
  by (cases "i < length zs") (auto simp: nth_list_update_if split: if_splits)

text \<open>A change of one zone changes the physical pages of its range only.\<close>

lemma phys_free_update:
  assumes "i < length zs" "zones_wf zs" "zone_wf z'"
    "mz_min z' = mz_min (zs ! i)" "mz_max z' = mz_max (zs ! i)"
  shows "p \<in> phys_free (zs[i := z']) \<longleftrightarrow>
    (if mz_min z' \<le> p \<and> p \<le> mz_max z' then p \<in> zone_phys z' else p \<in> phys_free zs)"
proof (cases "mz_min z' \<le> p \<and> p \<le> mz_max z'")
  case True
  have "p \<notin> zone_phys (zs ! j)" if "j < length zs" "j \<noteq> i" for j
    using zones_disjoint [OF assms(2) that(1) assms(1), of p] that True assms(4,5)
      zone_phys_range [OF zones_wfD(1) [OF assms(2) that(1)], of p] by auto
  with True assms(1) show ?thesis by (auto simp: phys_free_def nth_list_update split: if_splits)
next
  case False
  then have "p \<notin> zone_phys z'" "p \<notin> zone_phys (zs ! i)"
    using zone_phys_range [OF assms(3), of p] zone_phys_range [OF zones_wfD(1) [OF assms(2,1)], of p] assms(4,5)
    by auto
  with False assms(1) show ?thesis by (auto simp: phys_free_def nth_list_update split: if_splits)
qed

lemma pages_taken_phys:
  assumes zs: "zones_wf zs" "i < length zs" and t: "pages_taken (zs ! i) z' base n"
  shows "zones_wf (zs[i := z'])" "phys_managed (zs[i := z']) = phys_managed zs"
    "phys_free (zs[i := z']) = phys_free zs - {base..<base + n}" "{base..<base + n} \<subseteq> phys_free zs"
proof -
  note wf = zones_wfD(1) [OF zs]
  note wf' = pages_taken_wf [OF wf t]
  from t have w: "zone_with (zs ! i) z' (free_pages (zs ! i) -
      {base - mz_min (zs ! i)..<base - mz_min (zs ! i) + n}) (- of_nat n)"
    and base: "mz_min (zs ! i) \<le> base" "base + n \<le> mz_max (zs ! i) + 1"
    and sub: "{base - mz_min (zs ! i)..<base - mz_min (zs ! i) + n} \<subseteq> free_pages (zs ! i)"
    unfolding pages_taken_def by blast+
  note mm = zone_withD(1,2) [OF w]
  show "zones_wf (zs[i := z'])" by (rule zones_wf_update [OF zs(1) wf' mm])
  show "phys_managed (zs[i := z']) = phys_managed zs" by (rule phys_managed_update [OF mm])
  have inzone: "p \<in> zone_phys (zs ! i)" if "p \<in> {base..<base + n}" for p
  proof -
    have "p - mz_min (zs ! i) \<in> {base - mz_min (zs ! i)..<base - mz_min (zs ! i) + n}"
      using that base(1) by auto
    with sub have "p - mz_min (zs ! i) \<in> free_pages (zs ! i)" by blast
    with that base(1) show ?thesis by (simp add: zone_phys_def)
  qed
  with zs(2) show "{base..<base + n} \<subseteq> phys_free zs" by (auto simp: phys_free_def)
  have inz': "p \<in> zone_phys z' \<longleftrightarrow> p \<in> zone_phys (zs ! i) \<and> p \<notin> {base..<base + n}" for p
    unfolding zone_phys_def zone_withD(4) [OF w] mm using base(1) by auto
  have "p \<in> phys_free (zs[i := z']) \<longleftrightarrow> p \<in> phys_free zs - {base..<base + n}" for p
    using phys_free_update [OF zs(2,1) wf' mm, of p] phys_free_update [OF zs(2,1) wf refl refl, of p]
      base inz' [of p] unfolding mm by auto
  then show "phys_free (zs[i := z']) = phys_free zs - {base..<base + n}" by blast
qed

section \<open>Allocation\<close>

text \<open>What an allocation from the zones up to \<open>max_zone\<close> may do.\<close>

definition alloc_ok :: "nat \<Rightarrow> nat \<Rightarrow> nat \<Rightarrow> mzone list \<Rightarrow>
    ((kos_error + nat \<times> nat) \<times> mzone list) result \<Rightarrow> bool" where
  "alloc_ok mn mx max_zone zs r \<longleftrightarrow> (case r of
      Inl e \<Rightarrow> e = E_ASSERT \<and> 1 < mn
    | Inr (Inl e, zs') \<Rightarrow> e = E_BADALLOC \<and> zs' = zs \<and>
        (mn \<le> 1 \<longrightarrow> (\<forall>i\<le>max_zone. free_pages (zs ! i) = {}))
    | Inr (Inr (base, n), zs') \<Rightarrow> mn \<le> n \<and> n \<le> mx \<and> 0 < n \<and>
        (\<exists>i\<le>max_zone. \<exists>z'. zs' = zs[i := z'] \<and> pages_taken (zs ! i) z' base n))"

lemma alloc_ok_simps [simp]:
  "alloc_ok mn mx k zs (Inl e) \<longleftrightarrow> e = E_ASSERT \<and> 1 < mn"
  "alloc_ok mn mx k zs (Inr (Inl e, zs')) \<longleftrightarrow>
     e = E_BADALLOC \<and> zs' = zs \<and> (mn \<le> 1 \<longrightarrow> (\<forall>i\<le>k. free_pages (zs ! i) = {}))"
  "alloc_ok mn mx k zs (Inr (Inr (base, n), zs')) \<longleftrightarrow> mn \<le> n \<and> n \<le> mx \<and> 0 < n \<and>
     (\<exists>i\<le>k. \<exists>z'. zs' = zs[i := z'] \<and> pages_taken (zs ! i) z' base n)"
  by (simp_all add: alloc_ok_def)

lemma alloc_ok_next_zone:
  assumes "alloc_ok mn mx k zs r" "mn \<le> 1 \<Longrightarrow> free_pages (zs ! Suc k) = {}"
  shows "alloc_ok mn mx (Suc k) zs r"
  using assms unfolding alloc_ok_def
  by (auto simp: le_Suc_eq split: sum.splits) (metis le_SucI le_Suc_eq)

lemma no_free_page:
  assumes "zone_wf z" "unat (mz_free z) < mn" "mn \<le> 1"
  shows "free_pages z = {}"
proof -
  from assms zone_wfD(7) [OF assms(1)] have "card (free_pages z) = 0" by linarith
  then show ?thesis by simp
qed

lemma page_malloc_zones_spec:
  assumes wf: "zones_wf zs" and mn: "mn \<le> mx" "0 < mx"
  shows "max_zone < length zs \<Longrightarrow> alloc_ok mn mx max_zone zs (page_malloc_zones mn mx max_zone zs)"
proof (induction max_zone)
  case 0
  note z = zones_wfD(1) [OF wf "0"]
  from no_free_page [OF z, of mn] scan_zone_spec [OF z mn, of 0] zone_wfD(2) [OF z] show ?case
    by (subst page_malloc_zones.simps) (auto split: sum.splits zone_scan.splits simp: scan_ok_def Let_def)
next
  case (Suc k)
  note z = zones_wfD(1) [OF wf Suc.prems]
  have ih: "alloc_ok mn mx k zs (page_malloc_zones mn mx k zs)" using Suc by simp
  note nz = alloc_ok_next_zone [OF ih]
  show ?case
  proof (cases "unat (mz_free (zs ! Suc k)) < mn")
    case True
    then have "alloc_ok mn mx (Suc k) zs (page_malloc_zones mn mx k zs)"
      by (intro nz no_free_page [OF z])
    with True zone_wfD(2) [OF z] show ?thesis by (subst page_malloc_zones.simps) simp
  next
    case False
    with scan_zone_spec [OF z mn, of 0] zone_wfD(2) [OF z] nz show ?thesis
      by (subst page_malloc_zones.simps)
        (auto split: sum.splits zone_scan.splits simp: scan_ok_def Let_def simp del: alloc_ok_simps(2))
  qed
qed

section \<open>Freeing\<close>

text \<open>Pages of one zone that \<^const>\<open>mzone_free\<close> has returned.\<close>

lemma mzone_free_phys:
  assumes zs: "zones_wf zs" "i < length zs" and n: "n \<noteq> 0"
    and base: "mz_min (zs ! i) \<le> base" "base + n \<le> mz_max (zs ! i) + 1"
    and used: "phys_free zs \<inter> {base..<base + n} = {}"
  shows "\<exists>z'. mzone_free (zs ! i) (base - mz_min (zs ! i)) n = Inr z' \<and>
    zones_wf (zs[i := z']) \<and> phys_managed (zs[i := z']) = phys_managed zs \<and>
    phys_free (zs[i := z']) = phys_free zs \<union> {base..<base + n} \<and>
    mz_min z' = mz_min (zs ! i) \<and> mz_max z' = mz_max (zs ! i)"
proof -
  note wf = zones_wfD(1) [OF zs]
  let ?p = "base - mz_min (zs ! i)"
  have fits: "?p + n \<le> zone_size (zs ! i)" using base by (simp add: zone_size_def)
  have "zone_phys (zs ! i) \<inter> {base..<base + n} = {}" using used zs(2) by (auto simp: phys_free_def)
  then have fr: "p + mz_min (zs ! i) \<notin> {base..<base + n}" if "p \<in> free_pages (zs ! i)" for p
    using that by (auto simp: zone_phys_def disjoint_iff)
  have "free_pages (zs ! i) \<inter> {?p..<?p + n} = {}" using fr base(1) by force
  from mzone_free_spec [OF wf n fits this] obtain z' where
    z': "mzone_free (zs ! i) ?p n = Inr z'"
    and w: "zone_with (zs ! i) z' (free_pages (zs ! i) \<union> {?p..<?p + n}) (of_nat n)" by blast
  have dis: "free_pages (zs ! i) \<inter> {?p..<?p + n} = {}" by fact
  have "{?p..<?p + n} \<subseteq> {..<zone_size (zs ! i)}" using fits by auto
  with zone_wf_give [OF wf, of z' "{?p..<?p + n}"] w dis have wf': "zone_wf z'" by simp
  note mm = zone_withD(1,2) [OF w]
  have inz': "p \<in> zone_phys z' \<longleftrightarrow> p \<in> zone_phys (zs ! i) \<or> p \<in> {base..<base + n}" for p
    unfolding zone_phys_def zone_withD(4) [OF w] mm using base(1) by auto
  have "p \<in> phys_free (zs[i := z']) \<longleftrightarrow> p \<in> phys_free zs \<union> {base..<base + n}" for p
    using phys_free_update [OF zs(2,1) wf' mm, of p] phys_free_update [OF zs(2,1) wf refl refl, of p]
      base inz' [of p] unfolding mm by auto
  then have "phys_free (zs[i := z']) = phys_free zs \<union> {base..<base + n}" by blast
  with z' mm zones_wf_update [OF zs(1) wf' mm] phys_managed_update [OF mm] show ?thesis by blast
qed

lemma wrap_pred: "0 < e \<Longrightarrow> e < 4294967296 \<Longrightarrow> (4294967295 + e) mod 4294967296 = e - (1 :: nat)"
  using mod_add_self1 [of 4294967296 "e - 1"] by (simp add: mod_less)

text \<open>One round of the loop, on a zone that holds the upper end of the range.\<close>

lemma page_free_loop_zone:
  assumes zs: "zones_wf zs" "i < length zs"
    and rng: "mz_min (zs ! i) < base + num" "base + num \<le> mz_max (zs ! i) + 1" "num \<noteq> 0"
    and used: "phys_free zs \<inter> {base..<base + num} = {}"
    and start: "start = max base (mz_min (zs ! i))"
  shows "\<exists>z'. page_free_loop (Suc i) base num zs = page_free_loop i base (start - base) (zs[i := z']) \<and>
    zones_wf (zs[i := z']) \<and> phys_managed (zs[i := z']) = phys_managed zs \<and>
    phys_free (zs[i := z']) = phys_free zs \<union> {start..<base + num}"
proof -
  have st: "mz_min (zs ! i) \<le> start" "start < base + num" "base \<le> start"
    using rng by (auto simp: start)
  then have n: "base + num - start \<noteq> 0" "start + (base + num - start) = base + num" by auto
  have "phys_free zs \<inter> {start..<base + num} = {}" using used st by (auto simp: disjoint_iff)
  with mzone_free_phys [OF zs n(1) st(1)] rng(2)
  obtain z' where z': "mzone_free (zs ! i) (start - mz_min (zs ! i)) (base + num - start) = Inr z'"
    and zs': "zones_wf (zs[i := z'])" "phys_managed (zs[i := z']) = phys_managed zs"
      "phys_free (zs[i := z']) = phys_free zs \<union> {start..<base + num}" unfolding n(2) by blast
  have "base + num < 2 ^ 32" using zones_wfD(2) [OF zs] rng(2) by simp
  then have "page_free_loop (Suc i) base num zs = page_free_loop i base (start - base) (zs[i := z'])"
    using rng st(2) z' zone_wfD(2) [OF zones_wfD(1) [OF zs]]
    by (auto simp: Let_def start max_def not_le wrap_pred le_diff_conv split: if_splits)
  with zs' show ?thesis by blast
qed

lemma page_free_loop_spec:
  assumes "zones_wf zs" "i \<le> length zs"
    and "{base..<base + num} \<subseteq> (\<Union>j<i. {mz_min (zs ! j)..mz_max (zs ! j)})"
    and "phys_free zs \<inter> {base..<base + num} = {}"
  shows "\<exists>zs'. page_free_loop i base num zs = Inr zs' \<and> zones_wf zs' \<and>
     phys_managed zs' = phys_managed zs \<and> phys_free zs' = phys_free zs \<union> {base..<base + num}"
  using assms
proof (induction i arbitrary: num zs)
  case 0
  then show ?case by simp
next
  case (Suc i)
  from Suc.prems(2) have i: "i < length zs" by simp
  let ?z = "zs ! i"
  consider "num = 0" | "num \<noteq> 0" "base + num \<le> mz_min ?z" | "num \<noteq> 0" "mz_min ?z < base + num"
    by linarith
  then show ?case
  proof cases
    case 1
    with Suc.prems show ?thesis by simp
  next
    case 2
    have sub: "{base..<base + num} \<subseteq> (\<Union>j<i. {mz_min (zs ! j)..mz_max (zs ! j)})"
      using Suc.prems(3) 2(2) by (fastforce simp: less_Suc_eq subset_iff)
    have "mz_min ?z < 2 ^ 32" using zone_wfD(1,3) [OF zones_wfD(1) [OF Suc.prems(1) i]] by simp
    with 2 Suc.IH [OF Suc.prems(1) _ sub Suc.prems(4)] i zone_wfD(2) [OF zones_wfD(1) [OF Suc.prems(1) i]]
    show ?thesis by (simp add: Let_def)
  next
    case 3
    have "base + num - 1 \<in> {base..<base + num}" using 3 by simp
    with Suc.prems(3) obtain j where j: "j < Suc i" "base + num - 1 \<le> mz_max (zs ! j)" by auto
    then have top: "base + num \<le> mz_max ?z + 1"
      using zones_wfD(3) [OF Suc.prems(1) i, of j] 3 by (cases "j = i") auto
    define start where "start = max base (mz_min ?z)"
    from page_free_loop_zone [OF Suc.prems(1) i 3(2) top 3(1) Suc.prems(4) start_def]
    obtain z' where loop: "page_free_loop (Suc i) base num zs = page_free_loop i base (start - base) (zs[i := z'])"
      and zs': "zones_wf (zs[i := z'])" "phys_managed (zs[i := z']) = phys_managed zs"
        "phys_free (zs[i := z']) = phys_free zs \<union> {start..<base + num}" by blast
    have st: "base \<le> start" "start \<le> base + num" using 3 by (auto simp: start_def)
    have sub: "{base..<base + (start - base)} \<subseteq> (\<Union>j<i. {mz_min (zs[i := z'] ! j)..mz_max (zs[i := z'] ! j)})"
      using Suc.prems(3) st by (fastforce simp: less_Suc_eq subset_iff start_def)
    have dis: "phys_free (zs[i := z']) \<inter> {base..<base + (start - base)} = {}"
      unfolding zs'(3) using Suc.prems(4) st by (auto simp: disjoint_iff)
    have "{start..<base + num} \<union> {base..<base + (start - base)} = {base..<base + num}" using st by auto
    with Suc.IH [OF zs'(1) _ sub dis] i loop zs'(2,3) show ?thesis by (simp add: Un_assoc)
  qed
qed

lemma page_free_spec:
  assumes zs: "zones_wf zs" and rng: "{base..<base + num} \<subseteq> phys_managed zs" "base < 2 ^ 32"
    and used: "phys_free zs \<inter> {base..<base + num} = {}"
  shows "\<exists>zs'. page_free base num zs = Inr zs' \<and> zones_wf zs' \<and>
     phys_managed zs' = phys_managed zs \<and> phys_free zs' = phys_free zs \<union> {base..<base + num}"
proof -
  have "(base + num) mod 2 ^ 32 = base + num"
  proof (cases "num = 0")
    case False
    then have "base + num - 1 \<in> phys_managed zs" using rng(1) by auto
    then obtain i where "i < length zs" "base + num - 1 \<le> mz_max (zs ! i)"
      by (auto simp: phys_managed_def)
    with zones_wfD(2) [OF zs this(1)] False show ?thesis by simp
  qed (use rng(2) in simp)
  then have "page_free base num zs = page_free_loop (length zs) base num zs"
    by (simp add: page_free_def)
  with page_free_loop_spec [OF zs order_refl _ used] rng(1) show ?thesis
    unfolding phys_managed_def by simp
qed

text \<open>Freeing what an allocation took gives back the same zones, counters included.\<close>

lemma page_free_loop_above:
  assumes "zones_wf zs" "i < k" "k \<le> length zs" "n \<noteq> 0"
    and "base + n \<le> mz_max (zs ! i) + 1"
  shows "page_free_loop k base n zs = page_free_loop (Suc i) base n zs"
  using assms(2,3)
proof (induction k)
  case (Suc k)
  show ?case
  proof (cases "i = k")
    case False
    with Suc.prems have ik: "i < k" "k < length zs" by auto
    from zones_wfD(3) [OF assms(1) ik(2,1)] assms(5) have "base + n \<le> mz_min (zs ! k)" by simp
    moreover have "mz_min (zs ! k) < 2 ^ 32"
      using zone_wfD(1,3) [OF zones_wfD(1) [OF assms(1) ik(2)]] by simp
    ultimately show ?thesis
      using Suc.IH ik assms(4) zone_wfD(2) [OF zones_wfD(1) [OF assms(1) ik(2)]] by (simp add: Let_def)
  qed simp
qed simp

lemma page_free_pages_taken:
  assumes zs: "zones_wf zs" "i < length zs" and n: "n \<noteq> 0" and t: "pages_taken (zs ! i) z' base n"
  shows "page_free base n (zs[i := z']) = Inr zs"
proof -
  let ?zs = "zs[i := z']" and ?p = "base - mz_min (zs ! i)"
  note wf' = pages_taken_wf [OF zones_wfD(1) [OF zs] t]
  from t have w: "zone_with (zs ! i) z' (free_pages (zs ! i) - {?p..<?p + n}) (- of_nat n)"
    and base: "mz_min (zs ! i) \<le> base" "base + n \<le> mz_max (zs ! i) + 1"
    and sub: "{?p..<?p + n} \<subseteq> free_pages (zs ! i)" unfolding pages_taken_def by blast+
  note mm = zone_withD(1,2) [OF w]
  have fits: "?p + n \<le> zone_size z'" using base by (simp add: zone_size_def mm)
  have "free_pages z' \<inter> {?p..<?p + n} = {}" unfolding zone_withD(4) [OF w] by blast
  from mzone_free_spec [OF wf' n fits this] obtain z2 where
    z2: "mzone_free z' ?p n = Inr z2"
    and w2: "zone_with z' z2 (free_pages z' \<union> {?p..<?p + n}) (of_nat n)" by blast
  have "free_pages z' \<union> {?p..<?p + n} = free_pages (zs ! i)"
    unfolding zone_withD(4) [OF w] using sub by blast
  with zone_with_trans [OF w w2] have "zone_with (zs ! i) z2 (free_pages (zs ! i)) 0" by simp
  then have z2_eq: "z2 = zs ! i" by (rule zone_with_self)
  have le: "base + n < 2 ^ 32" using zones_wfD(2) [OF zs] base by simp
  have "page_free base n ?zs = page_free_loop (length ?zs) base n ?zs"
    using le by (simp add: page_free_def)
  also have "\<dots> = page_free_loop (Suc i) base n ?zs"
    using zs(2) base(2) mm
    by (intro page_free_loop_above [OF pages_taken_phys(1) [OF zs t] _ _ n]) simp_all
  also have "\<dots> = page_free_loop i base 0 zs"
    using n le zs(2) base z2 z2_eq zone_wfD(2) [OF wf'] mm by (auto simp: Let_def not_le wrap_pred le_diff_conv)
  finally show ?thesis by (cases i) simp_all
qed

section \<open>Properties of the allocator\<close>

lemma page_malloc_part_alloc_ok:
  assumes "zones_wf zs" "mn \<le> mx" "0 < mx" "max_zone < length zs"
  shows "alloc_ok mn mx max_zone zs (page_malloc_part mn mx max_zone zs)"
  using page_malloc_zones_spec [OF assms] assms(2,4) by (simp add: page_malloc_part_def)

lemma zone_phys_empty: "zone_phys z = {} \<longleftrightarrow> free_pages z = {}"
proof
  assume e: "zone_phys z = {}"
  show "free_pages z = {}"
  proof (rule equals0I)
    fix p assume "p \<in> free_pages z"
    then have "p + mz_min z \<in> zone_phys z" by (simp add: zone_phys_def)
    with e show False by simp
  qed
qed (simp add: zone_phys_def)

lemma page_malloc_part_got:
  assumes "zones_wf zs" "mn \<le> mx" "0 < mx" "max_zone < length zs"
    and "page_malloc_part mn mx max_zone zs = Inr (Inr (base, n), zs')"
  obtains i z' where "mn \<le> n" "n \<le> mx" "0 < n" "i < length zs" "zs' = zs[i := z']"
    "pages_taken (zs ! i) z' base n" "i \<le> max_zone"
  using page_malloc_part_alloc_ok [OF assms(1-4)] assms(4) unfolding assms(5) by auto

text \<open>
  C13: an allocation that succeeds hands out a block of at least \<open>min_pages\<close> and at most
  \<open>max_pages\<close> pages, all of which were free before; afterwards exactly these pages are no
  longer free, the zones are well formed (so their counters agree with their bitsets) and
  manage the same pages.
\<close>

theorem page_malloc_part_success:
  assumes "zones_wf zs" "mn \<le> mx" "0 < mx" "max_zone < length zs"
    and "page_malloc_part mn mx max_zone zs = Inr (Inr (base, n), zs')"
  shows "mn \<le> n \<and> n \<le> mx \<and> 0 < n \<and> {base..<base + n} \<subseteq> phys_free zs \<and>
    phys_free zs' = phys_free zs - {base..<base + n} \<and> zones_wf zs' \<and> phys_managed zs' = phys_managed zs"
  using assms(5) pages_taken_phys [OF assms(1)] by (elim page_malloc_part_got [OF assms(1-4)]) simp

text \<open>
  C16: an allocation of at least one page never fails an assertion, and is refused exactly when
  no zone up to \<open>max_zone\<close> has a free page; a refused allocation leaves all zones as they
  were.
\<close>

theorem page_malloc_part_one:
  assumes "zones_wf zs" "0 < mx" "max_zone < length zs"
  shows "(page_malloc_part 1 mx max_zone zs = Inr (Inl E_BADALLOC, zs) \<longleftrightarrow>
      phys_free (take (Suc max_zone) zs) = {}) \<and>
    (phys_free (take (Suc max_zone) zs) \<noteq> {} \<longrightarrow>
      (\<exists>base n zs'. page_malloc_part 1 mx max_zone zs = Inr (Inr (base, n), zs')))"
proof -
  have empty: "phys_free (take (Suc max_zone) zs) = {} \<longleftrightarrow> (\<forall>i\<le>max_zone. free_pages (zs ! i) = {})"
    using assms(3) by (auto simp: phys_free_def less_Suc_eq_le zone_phys_empty)
  have ok: "alloc_ok 1 mx max_zone zs (page_malloc_part 1 mx max_zone zs)"
    using assms by (intro page_malloc_part_alloc_ok) simp_all
  then obtain r zs' where r: "page_malloc_part 1 mx max_zone zs = Inr (r, zs')"
    by (cases "page_malloc_part 1 mx max_zone zs") auto
  show ?thesis
  proof (cases r)
    case (Inl e)
    with ok show ?thesis unfolding empty r by simp
  next
    case (Inr bn)
    obtain base n where bn: "bn = (base, n)" by force
    from ok [unfolded r Inr bn] obtain i z' where
      i: "i \<le> max_zone" "0 < n" "pages_taken (zs ! i) z' base n" by auto
    then have "free_pages (zs ! i) \<noteq> {}" by (auto simp: pages_taken_def)
    with i(1) show ?thesis unfolding empty r Inr bn by auto
  qed
qed

text \<open>
  C21: giving back the block that an allocation returned restores the zones as they were
  before the allocation, counters and bitsets included.
\<close>

theorem page_free_page_malloc_part:
  assumes "zones_wf zs" "mn \<le> mx" "0 < mx" "max_zone < length zs"
    and "page_malloc_part mn mx max_zone zs = Inr (Inr (base, n), zs')"
  shows "page_free base n zs' = Inr zs"
  using assms(5) page_free_pages_taken [OF assms(1)] by (elim page_malloc_part_got [OF assms(1-4)]) simp

text \<open>
  C22: \<^verbatim>\<open>page_free\<close> of pages that are managed and not free succeeds, also when the
  range spans several adjacent zones, and adds exactly these pages to the free ones.
\<close>

theorem page_free_correct:
  assumes "zones_wf zs" "{base..<base + num} \<subseteq> phys_managed zs" "base < 2 ^ 32"
    and "phys_free zs \<inter> {base..<base + num} = {}"
  shows "\<exists>zs'. page_free base num zs = Inr zs' \<and> zones_wf zs' \<and>
     phys_managed zs' = phys_managed zs \<and> phys_free zs' = phys_free zs \<union> {base..<base + num}"
  by (rule page_free_spec [OF assms])

text \<open>
  \<^verbatim>\<open>mzone_malloc_at\<close> takes a range of pages of a zone as a whole or not at all:
  it reports success exactly when all of them are free, and leaves the zone unchanged otherwise,
  after undoing the data words it had already taken.
\<close>

theorem mzone_malloc_at_all_or_nothing:
  assumes "zone_wf z" "num \<noteq> 0" "page + num \<le> zone_size z"
  shows "\<exists>z'. mzone_malloc_at z page num = Inr ({page..<page + num} \<subseteq> free_pages z, z') \<and>
    (if {page..<page + num} \<subseteq> free_pages z
     then zone_wf z' \<and> free_pages z' = free_pages z - {page..<page + num} \<and>
       mz_free z' = mz_free z - of_nat num \<and> mz_used z' = mz_used z + of_nat num
     else z' = z)"
proof -
  from mzone_malloc_at_spec [OF assms] obtain z' where
    z': "mzone_malloc_at z page num = Inr ({page..<page + num} \<subseteq> free_pages z, z')"
    and w: "if {page..<page + num} \<subseteq> free_pages z
      then zone_with z z' (free_pages z - {page..<page + num}) (- of_nat num) else z' = z" by blast
  have "zone_wf z'" if "{page..<page + num} \<subseteq> free_pages z"
    using zone_wf_take [OF assms(1), of z' "{page..<page + num}"] that w by simp
  with w z' show ?thesis by (auto simp: zone_with_def)
qed

lemma page_malloc_at_loop_above:
  assumes "zones_wf zs" "i < k" "k \<le> length zs" "rem \<noteq> 0" "base + n \<le> mz_max (zs ! i) + 1" "n \<noteq> 0"
  shows "page_malloc_at_loop k base n rem zs = page_malloc_at_loop (Suc i) base n rem zs"
  using assms(2,3)
proof (induction k)
  case (Suc k)
  show ?case
  proof (cases "i = k")
    case False
    with Suc.prems have ik: "i < k" "k < length zs" by auto
    from zones_wfD(3) [OF assms(1) ik(2,1)] assms(5) have "base + n \<le> mz_min (zs ! k)" by simp
    moreover have "mz_min (zs ! k) < 2 ^ 32"
      using zone_wfD(1,3) [OF zones_wfD(1) [OF assms(1) ik(2)]] by simp
    ultimately show ?thesis using Suc.IH ik assms(4,6) by (simp add: Let_def)
  qed simp
qed simp

lemma page_free_none [simp]: "base < 2 ^ 32 \<Longrightarrow> page_free base 0 zs = Inr zs"
  by (cases zs) (simp_all add: page_free_def)

lemma page_malloc_at_loop_none [simp]: "page_malloc_at_loop i base n 0 zs = Inr (True, zs)"
  by (cases i) simp_all

text \<open>
  a range within one zone is taken by \<^verbatim>\<open>page_malloc_at\<close> exactly when all its pages are
  free; otherwise no zone changes.
\<close>

theorem page_malloc_at_in_zone:
  assumes "zones_wf zs" "i < length zs" "num \<noteq> 0"
    and "mz_min (zs ! i) \<le> base" "base + num \<le> mz_max (zs ! i) + 1"
  shows "\<exists>zs'. page_malloc_at base num zs = Inr ({base..<base + num} \<subseteq> phys_free zs, zs') \<and>
    (if {base..<base + num} \<subseteq> phys_free zs
     then zones_wf zs' \<and> phys_free zs' = phys_free zs - {base..<base + num} else zs' = zs)"
proof -
  note zs = assms(1,2) and n = assms(3) and base = assms(4,5)
  let ?p = "base - mz_min (zs ! i)"
  have fits: "?p + num \<le> zone_size (zs ! i)" using base by (simp add: zone_size_def)
  from mzone_malloc_at_spec [OF zones_wfD(1) [OF zs] n fits] obtain z' where
    z': "mzone_malloc_at (zs ! i) ?p num = Inr ({?p..<?p + num} \<subseteq> free_pages (zs ! i), z')"
    and w: "if {?p..<?p + num} \<subseteq> free_pages (zs ! i)
      then zone_with (zs ! i) z' (free_pages (zs ! i) - {?p..<?p + num}) (- of_nat num) else z' = zs ! i" by blast
  have le: "base + num < 2 ^ 32" using zones_wfD(2) [OF zs] base by simp
  have loop: "page_malloc_at base num zs = page_malloc_at_loop (Suc i) base num num zs"
    unfolding page_malloc_at_def using zs(2) n base by (intro page_malloc_at_loop_above [OF zs(1)]) simp_all
  have start: "(if mz_min (zs ! i) < base then base else mz_min (zs ! i)) = base" using base(1) by simp
  have run: "page_malloc_at base num zs = Inr ({?p..<?p + num} \<subseteq> free_pages (zs ! i),
      zs[i := z'])"
    unfolding loop using n le base z' w zs(2)
    by (auto simp: Let_def start not_le wrap_pred le_diff_conv)
  show ?thesis
  proof (cases "{?p..<?p + num} \<subseteq> free_pages (zs ! i)")
    case True
    with w base have t: "pages_taken (zs ! i) z' base num" unfolding pages_taken_def by simp
    from pages_taken_phys [OF zs t] run True show ?thesis by auto
  next
    case False
    have "\<not> {base..<base + num} \<subseteq> phys_free zs"
    proof
      assume sub: "{base..<base + num} \<subseteq> phys_free zs"
      have "q \<in> free_pages (zs ! i)" if "q \<in> {?p..<?p + num}" for q
      proof -
        have m: "q + mz_min (zs ! i) \<in> {base..<base + num}" using that base(1) by auto
        with sub phys_free_update [OF zs(2,1) zones_wfD(1) [OF zs] refl refl, of "q + mz_min (zs ! i)"] base(2)
        have "q + mz_min (zs ! i) \<in> zone_phys (zs ! i)" by auto
        then show ?thesis by (simp add: zone_phys_def)
      qed
      with False show False by blast
    qed
    with run w False show ?thesis by simp
  qed
qed

lemma page_malloc_got:
  assumes "zones_wf zs" "0 < n" "max_zone < length zs" "page_malloc n max_zone zs = Inr (Inr b, zs')"
  shows "zones_wf zs' \<and> {b..<b + n} \<subseteq> phys_free zs \<and> phys_free zs' = phys_free zs - {b..<b + n} \<and>
    phys_managed zs' = phys_managed zs \<and> length zs' = length zs"
proof -
  from assms(4) obtain m where m: "page_malloc_part n n max_zone zs = Inr (Inr (b, m), zs')"
    by (cases "page_malloc_part n n max_zone zs") (auto simp: page_malloc_def map_sum_def split: sum.splits)
  show ?thesis
    using m pages_taken_phys [OF assms(1)]
    by (elim page_malloc_part_got [OF assms(1) order_refl assms(2,3)]) simp
qed

lemma page_malloc_refused:
  assumes "zones_wf zs" "0 < n" "max_zone < length zs" "page_malloc n max_zone zs = Inr (Inl e, zs')"
  shows "zs' = zs"
proof -
  from assms(4) have "page_malloc_part n n max_zone zs = Inr (Inl e, zs')"
    by (cases "page_malloc_part n n max_zone zs") (auto simp: page_malloc_def map_sum_def split: sum.splits)
  with page_malloc_part_alloc_ok [OF assms(1) order_refl assms(2,3)] show ?thesis by simp
qed

section \<open>The interface of the allocator\<close>

text \<open>The pages of a block, given by its first page and its number of pages.\<close>

definition block :: "nat \<times> nat \<Rightarrow> nat set" where
  "block bn = {fst bn..<fst bn + snd bn}"

definition disjoint_blocks :: "(nat \<times> nat) list \<Rightarrow> bool" where
  "disjoint_blocks bs \<longleftrightarrow> sorted_wrt (\<lambda>x y. block x \<inter> block y = {}) bs"

definition blocks :: "(nat \<times> nat) list \<Rightarrow> nat set" where
  "blocks bs = (\<Union>b\<in>set bs. block b)"

lemma blocks_simps [simp]:
  "blocks [] = {}" "blocks (x # bs) = block x \<union> blocks bs"
  "disjoint_blocks []" "disjoint_blocks (x # bs) \<longleftrightarrow> block x \<inter> blocks bs = {} \<and> disjoint_blocks bs"
  by (auto simp: blocks_def disjoint_blocks_def)

lemma block_subset: "x \<in> set bs \<Longrightarrow> block x \<subseteq> blocks bs"
  by (auto simp: blocks_def)

lemma blocks_remove1:
  "disjoint_blocks bs \<Longrightarrow> x \<in> set bs \<Longrightarrow>
    disjoint_blocks (remove1 x bs) \<and> blocks (remove1 x bs) = blocks bs - block x"
proof (induction bs)
  case (Cons y bs)
  then show ?case using block_subset [of x bs] by (cases "x = y") (auto simp del: Un_iff)
qed simp

text \<open>
  What a client may rely on: a provider of pages hands out pages that are available, and takes
  back pages that it manages and that are not available. The invariant \<open>owned\<close> of a client
  that holds the blocks \<open>bs\<close> follows from these laws alone.
\<close>

locale page_provider =
  fixes inv :: "'s \<Rightarrow> bool" and avail :: "'s \<Rightarrow> nat set" and managed :: "'s \<Rightarrow> nat set"
    and valid :: "'s \<Rightarrow> 'q \<Rightarrow> bool"
    and alloc :: "nat \<Rightarrow> 'q \<Rightarrow> 's \<Rightarrow> ((kos_error + nat) \<times> 's) result"
    and release :: "nat \<Rightarrow> nat \<Rightarrow> 's \<Rightarrow> 's result"
  assumes avail_managed: "inv s \<Longrightarrow> avail s \<subseteq> managed s"
    and managed_bound: "inv s \<Longrightarrow> p \<in> managed s \<Longrightarrow> p < 2 ^ 32"
    and alloc_got: "inv s \<Longrightarrow> 0 < n \<Longrightarrow> valid s q \<Longrightarrow> alloc n q s = Inr (Inr b, s') \<Longrightarrow>
      inv s' \<and> {b..<b + n} \<subseteq> avail s \<and> avail s' = avail s - {b..<b + n} \<and> managed s' = managed s"
    and alloc_refused: "inv s \<Longrightarrow> 0 < n \<Longrightarrow> valid s q \<Longrightarrow> alloc n q s = Inr (Inl e, s') \<Longrightarrow> s' = s"
    and release_ok: "inv s \<Longrightarrow> b < 2 ^ 32 \<Longrightarrow> {b..<b + n} \<subseteq> managed s \<Longrightarrow> avail s \<inter> {b..<b + n} = {} \<Longrightarrow>
      \<exists>s'. release b n s = Inr s' \<and> inv s' \<and> managed s' = managed s \<and> avail s' = avail s \<union> {b..<b + n}"
begin

definition owned :: "nat set \<Rightarrow> 's \<Rightarrow> (nat \<times> nat) list \<Rightarrow> bool" where
  "owned A s bs \<longleftrightarrow> inv s \<and> disjoint_blocks bs \<and> (\<forall>b\<in>set bs. 0 < snd b) \<and>
     A \<subseteq> managed s \<and> blocks bs \<inter> avail s = {} \<and> blocks bs \<union> avail s = A"

lemma owned_start: "inv s \<Longrightarrow> owned (avail s) s []"
  by (simp add: owned_def avail_managed)

lemma owned_alloc:
  assumes "owned A s bs" "0 < n" "valid s q" "alloc n q s = Inr (Inr b, s')"
  shows "owned A s' ((b, n) # bs)"
proof -
  from assms(1) have "inv s" by (simp add: owned_def)
  note got = alloc_got [OF this assms(2-4)]
  have b: "block (b, n) = {b..<b + n}" by (simp add: block_def)
  from got assms(1,2) show ?thesis unfolding owned_def blocks_simps b list.set by auto
qed

lemma owned_refused: "owned A s bs \<Longrightarrow> 0 < n \<Longrightarrow> valid s q \<Longrightarrow> alloc n q s = Inr (Inl e, s') \<Longrightarrow> owned A s' bs"
  by (metis alloc_refused owned_def)

lemma owned_release:
  assumes "owned A s bs" "(b, n) \<in> set bs"
  shows "\<exists>s'. release b n s = Inr s' \<and> owned A s' (remove1 (b, n) bs)"
proof -
  from assms have inv: "inv s" and sub: "{b..<b + n} \<subseteq> blocks bs" and n: "0 < n"
    using block_subset [of "(b, n)" bs] by (auto simp: owned_def block_def)
  with assms(1) have m: "{b..<b + n} \<subseteq> managed s" "avail s \<inter> {b..<b + n} = {}"
    by (auto simp: owned_def)
  moreover have "b < 2 ^ 32" by (rule managed_bound [OF inv], rule subsetD [OF m(1)]) (simp add: n)
  ultimately obtain s' where s': "release b n s = Inr s'" "inv s'" "managed s' = managed s"
    "avail s' = avail s \<union> {b..<b + n}" using release_ok [OF inv] by blast
  have r: "disjoint_blocks (remove1 (b, n) bs)" "blocks (remove1 (b, n) bs) = blocks bs - {b..<b + n}"
    using blocks_remove1 [of bs "(b, n)"] assms by (auto simp: owned_def block_def)
  from assms(1) have "\<forall>x\<in>set (remove1 (b, n) bs). 0 < snd x" using set_remove1_subset [of "(b, n)" bs] 
    unfolding owned_def by blast
  moreover have "(blocks bs - {b..<b + n}) \<union> (avail s \<union> {b..<b + n}) = A"
    "(blocks bs - {b..<b + n}) \<inter> (avail s \<union> {b..<b + n}) = {}"
    using assms(1) sub unfolding owned_def by blast+
  ultimately have "owned A s' (remove1 (b, n) bs)"
    using s'(2-4) r assms(1) by (simp add: owned_def)
  with s'(1) show ?thesis by blast
qed

end

interpretation pages: page_provider zones_wf phys_free phys_managed
  "\<lambda>zs max_zone. max_zone < length zs" page_malloc page_free
proof
  show "p < 2 ^ 32" if "zones_wf zs" "p \<in> phys_managed zs" for zs p
    using that zones_wfD(2) [OF that(1)] by (force simp: phys_managed_def)
qed (fact phys_free_managed | (drule (3) page_malloc_got, blast) | (drule (3) page_malloc_refused, assumption) | (rule page_free_spec; assumption))+

text \<open>
  The states that clients reach that allocate blocks, and free blocks that they hold.
\<close>

inductive page_trace :: "mzone list \<Rightarrow> mzone list \<Rightarrow> (nat \<times> nat) list \<Rightarrow> bool" for zs0 where
  trace_start: "page_trace zs0 zs0 []"
| trace_malloc: "page_trace zs0 zs bs \<Longrightarrow> 0 < n \<Longrightarrow> max_zone < length zs \<Longrightarrow>
    page_malloc n max_zone zs = Inr (Inr b, zs') \<Longrightarrow> page_trace zs0 zs' ((b, n) # bs)"
| trace_refused: "page_trace zs0 zs bs \<Longrightarrow> 0 < n \<Longrightarrow> max_zone < length zs \<Longrightarrow>
    page_malloc n max_zone zs = Inr (Inl e, zs') \<Longrightarrow> page_trace zs0 zs' bs"
| trace_free: "page_trace zs0 zs bs \<Longrightarrow> (b, n) \<in> set bs \<Longrightarrow>
    page_free b n zs = Inr zs' \<Longrightarrow> page_trace zs0 zs' (remove1 (b, n) bs)"

lemma page_trace_owned: "page_trace zs0 zs bs \<Longrightarrow> zones_wf zs0 \<Longrightarrow> pages.owned (phys_free zs0) zs bs"
proof (induction rule: page_trace.induct)
  case trace_start
  then show ?case by (rule pages.owned_start)
next
  case (trace_malloc zs bs n max_zone b zs')
  then show ?case using pages.owned_alloc by blast
next
  case (trace_refused zs bs n max_zone e zs')
  then show ?case using pages.owned_refused by blast
next
  case (trace_free zs bs b n zs')
  with pages.owned_release [of "phys_free zs0" zs bs b n] show ?case by auto
qed

text \<open>
  C1: whatever sequence of allocations and frees clients perform, no page is handed out twice:
  the blocks held are disjoint from each other and from the free pages, together with the
  free pages they are the pages that were free at the start, and freeing a held block
  never fails an assertion.
\<close>

theorem page_trace_no_overlap:
  assumes "zones_wf zs0" "page_trace zs0 zs bs"
  shows "zones_wf zs \<and> disjoint_blocks bs \<and> blocks bs \<inter> phys_free zs = {} \<and>
    blocks bs \<union> phys_free zs = phys_free zs0 \<and>
    (\<forall>(b, n) \<in> set bs. \<exists>zs'. page_free b n zs = Inr zs')"
proof -
  note own = page_trace_owned [OF assms(2,1)]
  have "\<exists>zs'. page_free b n zs = Inr zs'" if "(b, n) \<in> set bs" for b n
    using pages.owned_release [OF own that] by blast
  with own show ?thesis unfolding pages.owned_def by blast
qed


section \<open>Concrete zones\<close>

text \<open>
  Two adjacent zones of 32 pages. In the first one pages 43 to 46 are free: the bits 27 to 30
  of the data word once its bytes are in reverse order.
\<close>

definition zone_a :: mzone where
  "zone_a = \<lparr>mz_min = 16, mz_max = 47, mz_used = 28, mz_free = 4, mz_fpages = [0x78, 0, 0]\<rparr>"

definition zone_b :: mzone where
  "zone_b = \<lparr>mz_min = 48, mz_max = 79, mz_used = 32, mz_free = 0, mz_fpages = [0, 0, 0]\<rparr>"

definition zone_c :: mzone where
  "zone_c = \<lparr>mz_min = 16, mz_max = 79, mz_used = 36, mz_free = 28, mz_fpages = [0xffff0000, 0x0000f0ff, 0, 0]\<rparr>"

definition zone_d :: mzone where
  "zone_d = \<lparr>mz_min = 48, mz_max = 79, mz_used = 30, mz_free = 2, mz_fpages = [0x03000000, 0, 0]\<rparr>"

lemmas page_memory_eval = zone_a_def zone_b_def zone_c_def zone_d_def zone_size_def fpages_bytes_def
  SWAPPTR_def FIXED_SHL_def page_mask_def
  take_pages_def give_pages_def mzone_free_def mzone_free_loop.simps mzone_malloc_at_def mzone_malloc_at_loop.simps
  skip_zero_bits.simps count_one_bits.simps scan_dataword.simps scan_zone.simps
  page_malloc_part_def page_malloc_zones.simps page_malloc_def page_free_def page_malloc_at_def

lemmas zone_wf_eval = zone_wf_def zone_size_def fpages_bytes_def page_is_free_def bit_SWAPPTR swap_ix_def upt_conv_Cons

lemma zone_a_wf: "zone_wf zone_a" by (simp add: zone_wf_eval zone_a_def)

lemma zone_b_wf: "zone_wf zone_b" by (simp add: zone_wf_eval zone_b_def)

lemma zone_c_wf: "zone_wf zone_c" by (simp add: zone_wf_eval zone_c_def)

lemma zone_d_wf: "zone_wf zone_d" by (simp add: zone_wf_eval zone_d_def)

lemma zones_ab_wf: "zones_wf [zone_a, zone_b]"
  using zone_a_wf zone_b_wf by (simp add: zones_wf_def zone_a_def zone_b_def)

definition zone_a1 :: mzone where
  "zone_a1 = zone_a\<lparr>mz_fpages := [0x40, 0, 0], mz_free := 1, mz_used := 31\<rparr>"

lemma page_malloc_part_ab: "page_malloc_part 2 3 1 [zone_a, zone_b] = Inr (Inr (43, 3), [zone_a1, zone_b])"
  by (simp add: page_memory_eval zone_a1_def)

lemma page_malloc_ab: "page_malloc 3 1 [zone_a, zone_b] = Inr (Inr 43, [zone_a1, zone_b])"
  by (simp add: page_memory_eval zone_a1_def)

theorem page_malloc_part_success_witness:
  "{43..<46} \<subseteq> phys_free [zone_a, zone_b] \<and> phys_free [zone_a1, zone_b] = phys_free [zone_a, zone_b] - {43..<46}"
  using page_malloc_part_success [OF zones_ab_wf _ _ _ page_malloc_part_ab] by simp

theorem page_malloc_part_one_witness:
  "(page_malloc_part 1 3 1 [zone_a, zone_b] = Inr (Inl E_BADALLOC, [zone_a, zone_b])) =
     (phys_free [zone_a, zone_b] = {})"
  using page_malloc_part_one [OF zones_ab_wf, of 3 1] by simp

theorem page_free_page_malloc_part_witness: "page_free 43 3 [zone_a1, zone_b] = Inr [zone_a, zone_b]"
  using page_free_page_malloc_part [OF zones_ab_wf _ _ _ page_malloc_part_ab] by simp

lemma page_trace_ab: "page_trace [zone_a, zone_b] [zone_a1, zone_b] [(43, 3)]"
  by (rule page_trace.trace_malloc [OF page_trace.trace_start _ _ page_malloc_ab]) simp_all

theorem page_trace_no_overlap_witness:
  "blocks [(43, 3)] \<union> phys_free [zone_a1, zone_b] = phys_free [zone_a, zone_b]"
  using page_trace_no_overlap [OF zones_ab_wf page_trace_ab] by blast

lemma pages_ab: "{47..<49} \<subseteq> phys_managed [zone_a, zone_b]" "phys_free [zone_a, zone_b] \<inter> {47..<49} = {}"
proof -
  have e: "{47..<49} = {47, 48 :: nat}" by auto
  show "{47..<49} \<subseteq> phys_managed [zone_a, zone_b]"
    unfolding e by (simp add: phys_managed_def zone_a_def zone_b_def lessThan_Suc)
  show "phys_free [zone_a, zone_b] \<inter> {47..<49} = {}"
    unfolding e
    by (simp add: phys_free_def zone_phys_def free_pages_def page_is_free_def zone_a_def zone_b_def
        lessThan_Suc bit_SWAPPTR swap_ix_def)
qed

theorem page_free_correct_witness:
  "\<exists>zs'. page_free 47 2 [zone_a, zone_b] = Inr zs' \<and> phys_free zs' = phys_free [zone_a, zone_b] \<union> {47..<49}"
  using page_free_correct [OF zones_ab_wf, of 47 2] pages_ab by auto

theorem mzone_malloc_at_all_or_nothing_witness:
  "\<exists>z'. mzone_malloc_at zone_a 26 3 = Inr ({26..<29} \<subseteq> free_pages zone_a, z')"
  using mzone_malloc_at_all_or_nothing [OF zone_a_wf, of 3 26] by (auto simp: zone_size_def zone_a_def)

theorem page_malloc_at_in_zone_witness:
  "\<exists>zs'. page_malloc_at 42 3 [zone_a, zone_b] = Inr ({42..<45} \<subseteq> phys_free [zone_a, zone_b], zs')"
  using page_malloc_at_in_zone [OF zones_ab_wf, of 0 3 42] by (auto simp: zone_a_def)

text \<open>
  on a well-formed zone with 28 free pages, asking for 20 contiguous
  ones trips the assertion of \<^verbatim>\<open>mzone_malloc_at\<close> instead of being refused: the check
  of the pages that are left in the zone counts from the start of the run that was found,
  not from its end.
\<close>

theorem page_malloc_part_assertion:
  "zones_wf [zone_c] \<and> page_malloc_part 20 20 0 [zone_c] = Inl E_ASSERT"
  using zone_c_wf by (simp add: zones_wf_def zone_c_def) (simp add: page_memory_eval)

text \<open>
  \<^verbatim>\<open>page_malloc_at\<close> of four free pages that span two adjacent zones
  fails, keeps the two pages of the upper zone, and frees two pages behind the range, which
  somebody else had in use.
\<close>

theorem page_malloc_at_across_zones:
  "page_malloc_at 46 4 [zone_a\<lparr>mz_fpages := [0xc0, 0, 0], mz_free := 2, mz_used := 30\<rparr>, zone_d] =
     Inr (False, [zone_a\<lparr>mz_fpages := [0xc0, 0, 0], mz_free := 2, mz_used := 30\<rparr>,
       zone_d\<lparr>mz_fpages := [0x0c000000, 0, 0]\<rparr>])"
  by (simp add: page_memory_eval)


end
