(* ===== verification/Atree.thy ===== *)
theory Atree
  imports Prelude
begin

text \<open>
  The address tree of \<^verbatim>\<open>include/hybrid/list/atree-abi.h\<close>: a binary tree that maps
  disjoint ranges of keys to nodes. The position of a node in the tree depends on the bits of
  its range only. Keys are 32 bits wide. The functions follow the variant with a lower and an
  upper bound per node, with all assertions enabled. The assertions after the label
  \<^verbatim>\<open>got_it\<close> repeat the ones that guard the insertion, and a node is never its own branch,
  so they are not repeated.
\<close>

section \<open>Positions\<close>

text \<open>
  A position is a semi-key together with a level. The level is an unsigned integer that wraps
  to \<open>-1\<close> below level 0; the shift by it is the one of the i386, which takes the shift count
  modulo 32.
\<close>

type_synonym key = "32 word"

definition shl1 :: "32 word \<Rightarrow> key" where
  "shl1 l = push_bit (unat l mod 32) 1"

definition ATREE_SEMI0 :: key where
  "ATREE_SEMI0 = (- 1) div 2 + 1"

definition ATREE_LEVEL0 :: "32 word" where
  "ATREE_LEVEL0 = 4 * 8 - 1"

definition ATREE_MAPMIN :: "key \<Rightarrow> 32 word \<Rightarrow> key" where
  "ATREE_MAPMIN semi level = semi AND NOT (shl1 level)"

definition ATREE_MAPMAX :: "key \<Rightarrow> 32 word \<Rightarrow> key" where
  "ATREE_MAPMAX semi level = semi OR (shl1 level - 1)"

definition ATREE_WALKMIN :: "key \<Rightarrow> 32 word \<Rightarrow> key \<times> 32 word" where
  "ATREE_WALKMIN semi level = ((semi AND NOT (shl1 level)) OR shl1 (level - 1), level - 1)"

definition ATREE_WALKMAX :: "key \<Rightarrow> 32 word \<Rightarrow> key \<times> 32 word" where
  "ATREE_WALKMAX semi level = (semi OR shl1 (level - 1), level - 1)"

section \<open>Trees\<close>

datatype 'a atree = ATREE_NULL
  | Node (a_min: "'a atree") (a_vmin: key) (a_vmax: key) (a_val: 'a) (a_max: "'a atree")

text \<open>A node without its branches, as it is passed to the insertion.\<close>

type_synonym 'a aleaf = "key \<times> key \<times> 'a"

fun leaf_node :: "'a aleaf \<Rightarrow> 'a atree" where
  "leaf_node (mn, mx, x) = Node ATREE_NULL mn mx x ATREE_NULL"

primrec priv_reinsertall ::
  "('a atree \<Rightarrow> 'a aleaf \<Rightarrow> 'a atree pres) \<Rightarrow> 'a atree \<Rightarrow> 'a atree \<Rightarrow> 'a atree pres" where
  "priv_reinsertall ins ATREE_NULL root = Some (Inr root)"
| "priv_reinsertall ins (Node l mn mx x r) root =
     pbind (priv_reinsertall ins l root) (\<lambda>root1.
     pbind (priv_reinsertall ins r root1) (\<lambda>root2.
     ins root2 (mn, mx, x)))"

lemma priv_reinsertall_mono [partial_function_mono]:
  assumes "\<And>t x. mono_option (\<lambda>f. g f t x)"
  shows "mono_option (\<lambda>f. priv_reinsertall (g f) s t)"
proof (induction s arbitrary: t)
  case ATREE_NULL
  show ?case by (simp add: option.const_mono)
next
  case (Node l mn mx x r)
  show ?case unfolding priv_reinsertall.simps
    by (intro pbind_mono Node.IH assms)
qed

partial_function (option) insert_at :: "'a atree \<Rightarrow> 'a aleaf \<Rightarrow> key \<Rightarrow> 32 word \<Rightarrow> 'a atree pres" where
  "insert_at root newleaf semi level =
     (let mn = fst newleaf; mx = fst (snd newleaf) in
      passert (mn \<le> mx)
      (passert (ATREE_MAPMIN semi level \<le> mn)
      (passert (mx \<le> ATREE_MAPMAX semi level)
      (case root of
         ATREE_NULL \<Rightarrow> Some (Inr (leaf_node newleaf))
       | Node l imin imax ix r \<Rightarrow>
           passert (\<not> (mn \<le> imax \<and> imin \<le> mx))
           (if mn \<le> semi \<and> semi \<le> mx
            then passert (imax \<le> semi \<or> semi \<le> imin)
                  (priv_reinsertall (\<lambda>t x. insert_at t x semi level) root (leaf_node newleaf))
            else if mx < semi
            then pbind (insert_at l newleaf (fst (ATREE_WALKMIN semi level)) (snd (ATREE_WALKMIN semi level)))
                  (\<lambda>l'. Some (Inr (Node l' imin imax ix r)))
            else passert (semi < mn)
                  (pbind (insert_at r newleaf (fst (ATREE_WALKMAX semi level)) (snd (ATREE_WALKMAX semi level)))
                    (\<lambda>r'. Some (Inr (Node l imin imax ix r')))))))))"

text \<open>The same walk; an overlap with an existing node is reported, and the tree left alone.\<close>

partial_function (option) tryinsert_at ::
  "'a atree \<Rightarrow> 'a aleaf \<Rightarrow> key \<Rightarrow> 32 word \<Rightarrow> (bool \<times> 'a atree) pres" where
  "tryinsert_at root newleaf semi level =
     (let mn = fst newleaf; mx = fst (snd newleaf) in
      passert (mn \<le> mx)
      (passert (ATREE_MAPMIN semi level \<le> mn)
      (passert (mx \<le> ATREE_MAPMAX semi level)
      (case root of
         ATREE_NULL \<Rightarrow> Some (Inr (True, leaf_node newleaf))
       | Node l imin imax ix r \<Rightarrow>
           if mn \<le> imax \<and> imin \<le> mx then Some (Inr (False, root))
           else if mn \<le> semi \<and> semi \<le> mx
            then passert (imax \<le> semi \<or> semi \<le> imin)
                  (pbind (priv_reinsertall (\<lambda>t x. insert_at t x semi level) root (leaf_node newleaf))
                    (\<lambda>root'. Some (Inr (True, root'))))
            else if mx < semi
            then pbind (tryinsert_at l newleaf (fst (ATREE_WALKMIN semi level)) (snd (ATREE_WALKMIN semi level)))
                  (\<lambda>(ok, l'). Some (Inr (ok, Node l' imin imax ix r)))
            else passert (semi < mn)
                  (pbind (tryinsert_at r newleaf (fst (ATREE_WALKMAX semi level)) (snd (ATREE_WALKMAX semi level)))
                    (\<lambda>(ok, r'). Some (Inr (ok, Node l imin imax ix r'))))))))"

text \<open>
  A pointer into the tree, as \<^verbatim>\<open>pinsert_at\<close> and \<^verbatim>\<open>plocate_at\<close> return it, is the path
  from the root; they also return the position of the node.
\<close>

datatype branch = Min | Max

type_synonym position = "branch list \<times> key \<times> 32 word"

partial_function (option) pinsert_at ::
  "'a atree \<Rightarrow> 'a aleaf \<Rightarrow> key \<Rightarrow> 32 word \<Rightarrow> ('a atree \<times> position) pres" where
  "pinsert_at root newleaf semi level =
     (let mn = fst newleaf; mx = fst (snd newleaf) in
      passert (mn \<le> mx)
      (passert (ATREE_MAPMIN semi level \<le> mn)
      (passert (mx \<le> ATREE_MAPMAX semi level)
      (case root of
         ATREE_NULL \<Rightarrow> Some (Inr (leaf_node newleaf, [], semi, level))
       | Node l imin imax ix r \<Rightarrow>
           passert (\<not> (mn \<le> imax \<and> imin \<le> mx))
           (if mn \<le> semi \<and> semi \<le> mx
            then passert (imax \<le> semi \<or> semi \<le> imin)
                  (pbind (priv_reinsertall (\<lambda>t x. insert_at t x semi level) root (leaf_node newleaf))
                    (\<lambda>root'. Some (Inr (root', [], semi, level))))
            else if mx < semi
            then pbind (pinsert_at l newleaf (fst (ATREE_WALKMIN semi level)) (snd (ATREE_WALKMIN semi level)))
                  (\<lambda>(l', p, q). Some (Inr (Node l' imin imax ix r, Min # p, q)))
            else passert (semi < mn)
                  (pbind (pinsert_at r newleaf (fst (ATREE_WALKMAX semi level)) (snd (ATREE_WALKMAX semi level)))
                    (\<lambda>(r', p, q). Some (Inr (Node l imin imax ix r', Max # p, q)))))))))"

fun subtree_at :: "branch list \<Rightarrow> 'a atree \<Rightarrow> 'a atree" where
  "subtree_at [] t = t"
| "subtree_at (Min # p) (Node l mn mx x r) = subtree_at p l"
| "subtree_at (Max # p) (Node l mn mx x r) = subtree_at p r"
| "subtree_at (b # p) ATREE_NULL = ATREE_NULL"

fun replace_at :: "branch list \<Rightarrow> 'a atree \<Rightarrow> 'a atree \<Rightarrow> 'a atree" where
  "replace_at [] s t = s"
| "replace_at (Min # p) s (Node l mn mx x r) = Node (replace_at p s l) mn mx x r"
| "replace_at (Max # p) s (Node l mn mx x r) = Node l mn mx x (replace_at p s r)"
| "replace_at (b # p) s ATREE_NULL = ATREE_NULL"

text \<open>
  \<^verbatim>\<open>pop_at\<close> takes the root of a tree out of it. The null pointer, on which it faults, is not
  a tree that it is called with.
\<close>

fun pop_at :: "'a atree \<Rightarrow> key \<Rightarrow> 32 word \<Rightarrow> ('a aleaf \<times> 'a atree) pres" where
  "pop_at ATREE_NULL semi level = Some (Inl E_SEGFAULT)"
| "pop_at (Node l mn mx x r) semi level =
     pbind (priv_reinsertall (\<lambda>t y. insert_at t y semi level) l ATREE_NULL) (\<lambda>root1.
     pbind (priv_reinsertall (\<lambda>t y. insert_at t y semi level) r root1) (\<lambda>root2.
     Some (Inr ((mn, mx, x), root2))))"

text \<open>The debug checks of a node on the way to a key.\<close>

definition valid_branch :: "key \<Rightarrow> key \<Rightarrow> key \<Rightarrow> 32 word \<Rightarrow> bool" where
  "valid_branch mn mx semi level \<longleftrightarrow> mn \<le> mx \<and> ATREE_MAPMIN semi level \<le> mn \<and> mx \<le> ATREE_MAPMAX semi level"

fun locate_at :: "'a atree \<Rightarrow> key \<Rightarrow> key \<Rightarrow> 32 word \<Rightarrow> 'a aleaf option result" where
  "locate_at ATREE_NULL key semi level = Inr None"
| "locate_at (Node l mn mx x r) key semi level =
     rassert (valid_branch mn mx semi level)
      (if mn \<le> key \<and> key \<le> mx then Inr (Some (mn, mx, x))
       else rassert (level \<noteq> - 1)
         (if key < semi
          then locate_at l key (fst (ATREE_WALKMIN semi level)) (snd (ATREE_WALKMIN semi level))
          else locate_at r key (fst (ATREE_WALKMAX semi level)) (snd (ATREE_WALKMAX semi level))))"

fun plocate_at :: "'a atree \<Rightarrow> key \<Rightarrow> key \<Rightarrow> 32 word \<Rightarrow> position option result" where
  "plocate_at ATREE_NULL key semi level = Inr None"
| "plocate_at (Node l mn mx x r) key semi level =
     rassert (valid_branch mn mx semi level)
      (if mn \<le> key \<and> key \<le> mx then Inr (Some ([], semi, level))
       else rassert (level \<noteq> - 1)
         (if key < semi
          then rbind (plocate_at l key (fst (ATREE_WALKMIN semi level)) (snd (ATREE_WALKMIN semi level)))
                 (\<lambda>q. Inr (map_option (\<lambda>(p, q). (Min # p, q)) q))
          else rbind (plocate_at r key (fst (ATREE_WALKMAX semi level)) (snd (ATREE_WALKMAX semi level)))
                 (\<lambda>q. Inr (map_option (\<lambda>(p, q). (Max # p, q)) q))))"

definition remove_at :: "'a atree \<Rightarrow> key \<Rightarrow> key \<Rightarrow> 32 word \<Rightarrow> ('a aleaf option \<times> 'a atree) pres" where
  "remove_at root key semi level =
     pbind (Some (plocate_at root key semi level)) (\<lambda>q. case q of
         None \<Rightarrow> Some (Inr (None, root))
       | Some (p, semi', level') \<Rightarrow>
           pbind (pop_at (subtree_at p root) semi' level') (\<lambda>(x, t).
             Some (Inr (Some x, replace_at p t root))))"

text \<open>The convenience functions, which start at the root position.\<close>

definition tryinsert :: "'a atree \<Rightarrow> 'a aleaf \<Rightarrow> (bool \<times> 'a atree) pres" where
  "tryinsert root newleaf = tryinsert_at root newleaf ATREE_SEMI0 ATREE_LEVEL0"

definition insert_tree :: "'a atree \<Rightarrow> 'a aleaf \<Rightarrow> 'a atree pres" where
  "insert_tree root newleaf = insert_at root newleaf ATREE_SEMI0 ATREE_LEVEL0"

definition remove_tree :: "'a atree \<Rightarrow> key \<Rightarrow> ('a aleaf option \<times> 'a atree) pres" where
  "remove_tree root key = remove_at root key ATREE_SEMI0 ATREE_LEVEL0"

definition pop_tree :: "'a atree \<Rightarrow> ('a aleaf \<times> 'a atree) pres" where
  "pop_tree root = pop_at root ATREE_SEMI0 ATREE_LEVEL0"

definition locate_tree :: "'a atree \<Rightarrow> key \<Rightarrow> 'a aleaf option result" where
  "locate_tree root key = locate_at root key ATREE_SEMI0 ATREE_LEVEL0"

end
