(* ===== verification/Atree_Props.thy ===== *)
theory Atree_Props
  imports Atree
begin

text \<open>
  Correctness of the address tree: the positions that the walks reach, well-formed trees, what
  insertion, lookup and removal do to the ranges of a tree, and the contract \<open>range_map\<close> that
  they fulfil.
\<close>

section \<open>Positions and ranges\<close>

text \<open>
  The positions that a walk from the root reaches: the branch of size \<open>2 ^ L\<close> that starts at
  key \<open>lo\<close>. Its level is \<open>L - 1\<close>.
\<close>

definition aligned :: "key \<Rightarrow> nat \<Rightarrow> bool" where
  "aligned lo L \<longleftrightarrow> L \<le> 32 \<and> (\<forall>k<L. \<not> bit lo k)"

definition semi_of :: "key \<Rightarrow> nat \<Rightarrow> key" where
  "semi_of lo L = lo OR push_bit (if L = 0 then 31 else L - 1) 1"

definition lev_of :: "nat \<Rightarrow> 32 word" where
  "lev_of L = of_nat L - 1"

definition hi_of :: "key \<Rightarrow> nat \<Rightarrow> key" where
  "hi_of lo L = lo OR mask L"

lemma shl1_lev_of: "L \<le> 32 \<Longrightarrow> shl1 (lev_of L) = push_bit (if L = 0 then 31 else L - 1) 1"
proof -
  assume "L \<le> 32"
  have "unat (lev_of L) mod 32 = (if L = 0 then 31 else L - 1)"
  proof (cases "L = 0")
    case False
    then have "lev_of L = of_nat (L - 1)" by (simp add: lev_of_def of_nat_diff)
    then have "unat (lev_of L) = L - 1" using \<open>L \<le> 32\<close> by (simp add: unsigned_of_nat take_bit_nat_eq_self)
    with False \<open>L \<le> 32\<close> show ?thesis by simp
  qed (simp add: lev_of_def unsigned_minus_1_eq_mask mask_eq_exp_minus_1)
  then show ?thesis by (simp add: shl1_def)
qed

lemma lev_of_Suc [simp]: "lev_of (Suc L) - 1 = lev_of L"
  by (simp add: lev_of_def)

lemma lev_of_eq_minus_1: "L \<le> 32 \<Longrightarrow> lev_of L = - 1 \<longleftrightarrow> L = 0"
proof -
  assume L: "L \<le> 32"
  have "lev_of L = - 1 \<longleftrightarrow> (of_nat L :: 32 word) = 0" by (simp add: lev_of_def)
  also have "\<dots> \<longleftrightarrow> L = 0" using L by (auto simp: word_of_nat_eq_0_iff dest: dvd_imp_le)
  finally show ?thesis .
qed

lemma aligned_SucD: "aligned lo (Suc L) \<Longrightarrow> aligned lo L"
  by (simp add: aligned_def)

lemma aligned_upper: "aligned lo (Suc L) \<Longrightarrow> aligned (semi_of lo (Suc L)) L"
  by (auto simp: aligned_def semi_of_def bit_simps)

lemma bit_semi_of:
  "L \<le> 32 \<Longrightarrow> bit (semi_of lo L) k \<longleftrightarrow> bit lo k \<or> k = (if L = 0 then 31 else L - 1)"
  by (cases "k < 32") (auto simp: semi_of_def bit_simps bit_word_ge_length)

lemma bit_shl1: "L \<le> 32 \<Longrightarrow> bit (shl1 (lev_of L)) k \<longleftrightarrow> k = (if L = 0 then 31 else L - 1)"
  by (cases "k < 32") (auto simp: shl1_lev_of bit_simps bit_word_ge_length)

lemma MAPMIN_semi_of:
  assumes "aligned lo (Suc L)"
  shows "ATREE_MAPMIN (semi_of lo (Suc L)) (lev_of (Suc L)) = lo"
  using assms by (intro bit_word_eqI) (auto simp: ATREE_MAPMIN_def bit_and_iff bit_not_iff bit_semi_of bit_shl1 aligned_def)

lemma MAPMIN_semi_of_0: "ATREE_MAPMIN (semi_of lo 0) (lev_of 0) \<le> lo"
proof -
  have "ATREE_MAPMIN (semi_of lo 0) (lev_of 0) = lo AND NOT (push_bit 31 1)"
    by (intro bit_word_eqI) (auto simp: ATREE_MAPMIN_def bit_simps bit_semi_of bit_shl1 shl1_lev_of)
  then show ?thesis by (simp add: word_and_le2)
qed

lemma shl1_minus_1: "L \<le> 32 \<Longrightarrow> shl1 (lev_of L) - 1 = mask (if L = 0 then 31 else L - 1)"
  by (simp add: shl1_lev_of mask_eq_exp_minus_1 push_bit_eq_mult)

lemma MAPMAX_semi_of:
  assumes "aligned lo (Suc L)"
  shows "ATREE_MAPMAX (semi_of lo (Suc L)) (lev_of (Suc L)) = hi_of lo (Suc L)"
proof -
  have "L \<le> 31" using assms by (simp add: aligned_def)
  then show ?thesis
    by (intro bit_word_eqI)
      (auto simp: ATREE_MAPMAX_def hi_of_def bit_or_iff bit_semi_of shl1_minus_1 bit_mask_iff less_Suc_eq)
qed

lemma MAPMAX_semi_of_0: "ATREE_MAPMAX (semi_of lo 0) (lev_of 0) = - 1"
  by (intro bit_word_eqI)
    (auto simp: ATREE_MAPMAX_def bit_or_iff bit_semi_of shl1_minus_1 bit_mask_iff)

lemma WALKMIN_semi_of:
  assumes "aligned lo (Suc L)"
  shows "ATREE_WALKMIN (semi_of lo (Suc L)) (lev_of (Suc L)) = (semi_of lo L, lev_of L)"
proof -
  have "L \<le> 32" using assms by (simp add: aligned_def)
  then have "ATREE_MAPMIN (semi_of lo (Suc L)) (lev_of (Suc L)) OR shl1 (lev_of L) = semi_of lo L"
    unfolding MAPMIN_semi_of [OF assms] by (simp add: shl1_lev_of semi_of_def)
  then show ?thesis by (simp add: ATREE_WALKMIN_def ATREE_MAPMIN_def)
qed

lemma WALKMAX_semi_of:
  assumes "aligned lo (Suc L)"
  shows "ATREE_WALKMAX (semi_of lo (Suc L)) (lev_of (Suc L)) = (semi_of (semi_of lo (Suc L)) L, lev_of L)"
proof -
  have "L \<le> 32" using assms by (simp add: aligned_def)
  then show ?thesis by (simp add: ATREE_WALKMAX_def shl1_lev_of semi_of_def)
qed

lemma unat_semi_of:
  assumes "aligned lo (Suc L)"
  shows "unat (semi_of lo (Suc L)) = unat lo + 2 ^ L"
proof -
  have L: "L < 32" using assms by (simp add: aligned_def)
  have "\<not> bit (unat lo) n \<or> \<not> bit (2 ^ L :: nat) n" for n
    using assms by (auto simp: bit_simps aligned_def)
  then have "unat lo + 2 ^ L = unat lo OR 2 ^ L" by (rule disjunctive_add)
  also have "\<dots> = unat (semi_of lo (Suc L))"
    using L by (intro bit_eqI) (auto simp: semi_of_def bit_simps)
  finally show ?thesis by simp
qed

lemma unat_hi_of:
  assumes "aligned lo L"
  shows "unat (hi_of lo L) = unat lo + (2 ^ L - 1)"
proof -
  have L: "L \<le> 32" using assms by (simp add: aligned_def)
  have "\<not> bit (unat lo) n \<or> \<not> bit (mask L :: nat) n" for n
    using assms by (auto simp: bit_simps aligned_def)
  then have "unat lo + mask L = unat lo OR mask L" by (rule disjunctive_add)
  also have "\<dots> = unat (hi_of lo L)"
    using L by (intro bit_eqI) (auto simp: hi_of_def bit_simps)
  finally show ?thesis by (simp add: mask_eq_exp_minus_1)
qed

text \<open>The lower and the upper half of a branch.\<close>

lemma branch_halves:
  assumes "aligned lo (Suc L)"
  shows "w \<le> hi_of lo L \<longleftrightarrow> w < semi_of lo (Suc L)"
    "hi_of (semi_of lo (Suc L)) L = hi_of lo (Suc L)"
    "lo < semi_of lo (Suc L)" "semi_of lo (Suc L) \<le> hi_of lo (Suc L)"
proof -
  define p :: nat where "p = 2 ^ L"
  have p: "0 < p" by (simp add: p_def)
  have e: "unat (semi_of lo (Suc L)) = unat lo + p" "unat (hi_of lo (Suc L)) = unat lo + (p + p - 1)"
    "unat (hi_of lo L) = unat lo + (p - 1)" "unat (hi_of (semi_of lo (Suc L)) L) = unat lo + p + (p - 1)"
    using unat_semi_of [OF assms] unat_hi_of [OF assms] unat_hi_of [OF aligned_SucD [OF assms]]
      unat_hi_of [OF aligned_upper [OF assms]] by (simp_all add: p_def mult_2)
  show "w \<le> hi_of lo L \<longleftrightarrow> w < semi_of lo (Suc L)" using p e by (auto simp: word_le_nat_alt word_less_nat_alt)
  show "hi_of (semi_of lo (Suc L)) L = hi_of lo (Suc L)" using p e by (simp add: word_unat_eq_iff)
  show "lo < semi_of lo (Suc L)" using p e by (simp add: word_less_nat_alt)
  show "semi_of lo (Suc L) \<le> hi_of lo (Suc L)" using p e by (simp add: word_le_nat_alt)
qed

section \<open>Well-formed trees\<close>

primrec leaves :: "'a atree \<Rightarrow> 'a aleaf list" where
  "leaves ATREE_NULL = []"
| "leaves (Node l mn mx x r) = leaves l @ (mn, mx, x) # leaves r"

definition apart :: "'a aleaf \<Rightarrow> 'b aleaf \<Rightarrow> bool" where
  "apart x y \<longleftrightarrow> fst (snd x) < fst y \<or> fst (snd y) < fst x"

definition in_range :: "key \<Rightarrow> key \<Rightarrow> 'a aleaf \<Rightarrow> bool" where
  "in_range lo hi x \<longleftrightarrow> lo \<le> fst x \<and> fst x \<le> fst (snd x) \<and> fst (snd x) \<le> hi"

text \<open>
  A tree at the branch of size \<open>2 ^ L\<close> from \<open>lo\<close> on: the node at its root lies in the branch,
  the lower branch below the semi-key, the upper branch above it, and all ranges are apart.
\<close>

fun atree_wf :: "'a atree \<Rightarrow> key \<Rightarrow> nat \<Rightarrow> bool" where
  "atree_wf ATREE_NULL lo L \<longleftrightarrow> True"
| "atree_wf (Node l mn mx x r) lo 0 \<longleftrightarrow>
     in_range lo (hi_of lo 0) (mn, mx, x) \<and> l = ATREE_NULL \<and> r = ATREE_NULL"
| "atree_wf (Node l mn mx x r) lo (Suc L) \<longleftrightarrow>
     in_range lo (hi_of lo (Suc L)) (mn, mx, x) \<and>
     list_all (\<lambda>y. fst (snd y) < semi_of lo (Suc L) \<and> apart (mn, mx, x) y) (leaves l) \<and>
     list_all (\<lambda>y. semi_of lo (Suc L) < fst y \<and> apart (mn, mx, x) y) (leaves r) \<and>
     atree_wf l lo L \<and> atree_wf r (semi_of lo (Suc L)) L"

lemma apart_sym: "apart x y \<Longrightarrow> apart y x"
  by (auto simp: apart_def)

lemma atree_wf_range:
  "aligned lo L \<Longrightarrow> atree_wf t lo L \<Longrightarrow> y \<in> set (leaves t) \<Longrightarrow> in_range lo (hi_of lo L) y"
proof (induction t lo L rule: atree_wf.induct)
  case (3 l mn mx x r lo L)
  note al = "3.prems"(1)
  have lower: "in_range lo (hi_of lo L) y \<Longrightarrow> in_range lo (hi_of lo (Suc L)) y"
    using branch_halves(1,4) [OF al] by (auto simp: in_range_def intro: order_trans less_imp_le)
  have upper: "in_range (semi_of lo (Suc L)) (hi_of (semi_of lo (Suc L)) L) y \<Longrightarrow>
      in_range lo (hi_of lo (Suc L)) y"
    using branch_halves(2,3) [OF al] by (auto simp: in_range_def intro: order_trans less_imp_le)
  from "3.prems" "3.IH" lower upper aligned_SucD [OF al] aligned_upper [OF al] show ?case by auto
qed auto

lemma atree_wf_sorted_apart:
  "aligned lo L \<Longrightarrow> atree_wf t lo L \<Longrightarrow> sorted_wrt apart (leaves t)"
proof (induction t lo L rule: atree_wf.induct)
  case (3 l mn mx x r lo L)
  note al = "3.prems"(1)
  have "apart y z" if "y \<in> set (leaves l)" "z \<in> set (leaves r)" for y z
    using that "3.prems"(2) unfolding apart_def atree_wf.simps list_all_iff by (meson less_trans)
  with "3.prems" "3.IH" aligned_SucD [OF al] aligned_upper [OF al] show ?case
    by (auto simp: sorted_wrt_append list_all_iff intro: apart_sym)
qed auto

section \<open>Insertion\<close>

lemma reinsertall_spec:
  assumes ins: "\<And>T x. Inv T \<Longrightarrow> ok x \<Longrightarrow> (\<And>y. y \<in> set (leaves T) \<Longrightarrow> apart x y) \<Longrightarrow>
      \<exists>T'. ins T x = Some (Inr T') \<and> Inv T' \<and> set (leaves T') = insert x (set (leaves T))"
  shows "Inv T \<Longrightarrow> (\<And>x. x \<in> set (leaves s) \<Longrightarrow> ok x) \<Longrightarrow> sorted_wrt apart (leaves s) \<Longrightarrow>
    (\<And>x y. x \<in> set (leaves s) \<Longrightarrow> y \<in> set (leaves T) \<Longrightarrow> apart x y) \<Longrightarrow>
    \<exists>T'. priv_reinsertall ins s T = Some (Inr T') \<and> Inv T' \<and> set (leaves T') = set (leaves s) \<union> set (leaves T)"
proof (induction s arbitrary: T)
  case (Node l mn mx x r)
  have srt: "sorted_wrt apart (leaves l)" "sorted_wrt apart (leaves r)"
    and cross: "\<And>y z. y \<in> set (leaves r) \<Longrightarrow> z \<in> set (leaves l) \<Longrightarrow> apart y z"
      "\<And>z. z \<in> set (leaves l) \<union> set (leaves r) \<Longrightarrow> apart (mn, mx, x) z"
    using Node.prems(3) unfolding leaves.simps sorted_wrt_append sorted_wrt.simps
    by (auto intro: apart_sym)
  obtain T1 where T1: "priv_reinsertall ins l T = Some (Inr T1)" "Inv T1"
    "set (leaves T1) = set (leaves l) \<union> set (leaves T)"
    using Node.IH(1) [OF Node.prems(1) _ srt(1)] Node.prems(2,4) by fastforce
  obtain T2 where T2: "priv_reinsertall ins r T1 = Some (Inr T2)" "Inv T2"
    "set (leaves T2) = set (leaves r) \<union> set (leaves T1)"
    using Node.IH(2) [OF T1(2) _ srt(2)] Node.prems(2,4) cross(1) T1(3) by fastforce
  have ap: "apart (mn, mx, x) y" if "y \<in> set (leaves T2)" for y
  proof (cases "y \<in> set (leaves T)")
    case True
    then show ?thesis by (intro Node.prems(4)) simp_all
  next
    case False
    with that T1(3) T2(3) show ?thesis by (intro cross(2)) blast
  qed
  have "ok (mn, mx, x)" by (rule Node.prems(2)) simp
  from ins [OF T2(2) this ap]
  obtain T3 where T3: "ins T2 (mn, mx, x) = Some (Inr T3)" "Inv T3"
    "set (leaves T3) = insert (mn, mx, x) (set (leaves T2))"
    by blast
  from T1 T2 T3 show ?case by auto
qed simp

lemma range_checks:
  assumes "aligned lo L" "in_range lo (hi_of lo L) x"
  shows "fst x \<le> fst (snd x)" "ATREE_MAPMIN (semi_of lo L) (lev_of L) \<le> fst x"
    "fst (snd x) \<le> ATREE_MAPMAX (semi_of lo L) (lev_of L)"
proof -
  show "fst x \<le> fst (snd x)" using assms(2) by (simp add: in_range_def)
  show "ATREE_MAPMIN (semi_of lo L) (lev_of L) \<le> fst x"
    using assms MAPMIN_semi_of_0 [of lo] MAPMIN_semi_of [of lo "L - 1"]
    by (cases L) (auto simp: in_range_def intro: order_trans)
  show "fst (snd x) \<le> ATREE_MAPMAX (semi_of lo L) (lev_of L)"
    using assms MAPMAX_semi_of_0 [of lo] MAPMAX_semi_of [of lo "L - 1"]
    by (cases L) (auto simp: in_range_def)
qed

lemma insert_at_Null:
  assumes "aligned lo L" "in_range lo (hi_of lo L) x"
  shows "insert_at ATREE_NULL x (semi_of lo L) (lev_of L) = Some (Inr (leaf_node x))"
  using range_checks [OF assms] by (subst insert_at.simps) (simp add: Let_def)

lemma leaf_node_spec:
  assumes "in_range lo (hi_of lo L) x"
  shows "atree_wf (leaf_node x) lo L" "leaves (leaf_node x) = [x]"
  using assms by (cases x; cases L; simp)+

lemma not_apart: "in_range lo hi x \<Longrightarrow> in_range lo hi y \<Longrightarrow>
    apart x y \<longleftrightarrow> \<not> (fst x \<le> fst (snd y) \<and> fst y \<le> fst (snd x))"
  by (auto simp: apart_def in_range_def)

text \<open>The shape of a node whose branches are well formed.\<close>

lemma atree_wf_NodeI:
  assumes "in_range lo (hi_of lo (Suc L)) (mn, mx, x)"
    and "\<And>y. y \<in> set (leaves l) \<Longrightarrow> fst (snd y) < semi_of lo (Suc L) \<and> apart (mn, mx, x) y"
    and "\<And>y. y \<in> set (leaves r) \<Longrightarrow> semi_of lo (Suc L) < fst y \<and> apart (mn, mx, x) y"
    and "atree_wf l lo L" "atree_wf r (semi_of lo (Suc L)) L"
  shows "atree_wf (Node l mn mx x r) lo (Suc L)"
  using assms by (simp add: list_all_iff)

lemma atree_wf_NodeD:
  assumes "atree_wf (Node l mn mx x r) lo (Suc L)"
  shows "in_range lo (hi_of lo (Suc L)) (mn, mx, x)"
    "y \<in> set (leaves l) \<Longrightarrow> fst (snd y) < semi_of lo (Suc L) \<and> apart (mn, mx, x) y"
    "y \<in> set (leaves r) \<Longrightarrow> semi_of lo (Suc L) < fst y \<and> apart (mn, mx, x) y"
    "atree_wf l lo L" "atree_wf r (semi_of lo (Suc L)) L"
  using assms by (simp_all add: list_all_iff)

text \<open>What is to be shown of the insertion of \<open>x\<close> into the branches of size \<open>2 ^ L\<close>.\<close>

definition insert_correct :: "'a aleaf \<Rightarrow> nat \<Rightarrow> bool" where
  "insert_correct x L \<longleftrightarrow> (\<forall>lo t. aligned lo L \<longrightarrow> atree_wf t lo L \<longrightarrow> in_range lo (hi_of lo L) x \<longrightarrow>
     (\<forall>z\<in>set (leaves t). apart x z) \<longrightarrow>
     (\<exists>t'. insert_at t x (semi_of lo L) (lev_of L) = Some (Inr t') \<and> atree_wf t' lo L \<and>
        set (leaves t') = insert x (set (leaves t))))"

lemma insert_correctD:
  assumes "insert_correct x L" "aligned lo L" "atree_wf t lo L" "in_range lo (hi_of lo L) x"
    and "\<And>z. z \<in> set (leaves t) \<Longrightarrow> apart x z"
  obtains t' where "insert_at t x (semi_of lo L) (lev_of L) = Some (Inr t')" "atree_wf t' lo L"
    "set (leaves t') = insert x (set (leaves t))"
  using assms unfolding insert_correct_def by blast

text \<open>
  One step of the walk: a range that does not cover the semi-key goes into the branch on its
  side. The hypothesis is the claim for the branches.
\<close>

lemma insert_at_descend:
  assumes al: "aligned lo (Suc L)" and wf: "atree_wf (Node l mn mx y r) lo (Suc L)"
    and x: "in_range lo (hi_of lo (Suc L)) x" "\<And>z. z \<in> set (leaves (Node l mn mx y r)) \<Longrightarrow> apart x z"
    and side: "\<not> (fst x \<le> semi_of lo (Suc L) \<and> semi_of lo (Suc L) \<le> fst (snd x))"
    and IH: "insert_correct x L"
  shows "\<exists>l' r'. insert_at (Node l mn mx y r) x (semi_of lo (Suc L)) (lev_of (Suc L)) =
      Some (Inr (Node l' mn mx y r')) \<and> atree_wf (Node l' mn mx y r') lo (Suc L) \<and>
      set (leaves (Node l' mn mx y r')) = insert x (set (leaves (Node l mn mx y r)))"
proof -
  let ?s = "semi_of lo (Suc L)"
  note w = atree_wf_NodeD [OF wf]
  have ap: "\<not> (fst x \<le> mx \<and> mn \<le> fst (snd x))" "apart (mn, mx, y) x"
    using x(2) [of "(mn, mx, y)"] not_apart [OF x(1) w(1)] by (auto intro: apart_sym)
  note eq = insert_at.simps [of "Node l mn mx y r" x ?s "lev_of (Suc L)"]
  note checks = range_checks [OF al x(1)]
  show ?thesis
  proof (cases "fst (snd x) < ?s")
    case True
    then have "in_range lo (hi_of lo L) x" using x(1) branch_halves(1) [OF al] by (auto simp: in_range_def)
    from insert_correctD [OF IH aligned_SucD [OF al] w(4) this] x(2) obtain l' where
      l': "insert_at l x (semi_of lo L) (lev_of L) = Some (Inr l')" "atree_wf l' lo L"
        "set (leaves l') = insert x (set (leaves l))" by auto
    have "atree_wf (Node l' mn mx y r) lo (Suc L)"
      using l' w True ap(2) by (intro atree_wf_NodeI) auto
    with eq l' checks ap(1) True side show ?thesis by (auto simp: Let_def WALKMIN_semi_of [OF al])
  next
    case False
    with side have gt: "?s < fst x" by auto
    then have "in_range ?s (hi_of ?s L) x" using x(1) branch_halves(2) [OF al] by (auto simp: in_range_def)
    from insert_correctD [OF IH aligned_upper [OF al] w(5) this] x(2) obtain r' where
      r': "insert_at r x (semi_of ?s L) (lev_of L) = Some (Inr r')" "atree_wf r' ?s L"
        "set (leaves r') = insert x (set (leaves r))" by auto
    have "atree_wf (Node l mn mx y r') lo (Suc L)"
      using r' w gt ap(2) by (intro atree_wf_NodeI) auto
    with eq r' checks ap(1) False gt side show ?thesis by (auto simp: Let_def WALKMAX_semi_of [OF al])
  qed
qed

text \<open>
  A range that covers the semi-key becomes the root; all nodes of the old tree are inserted
  again below it.
\<close>

lemma insert_at_override:
  assumes al: "aligned lo (Suc L)" and wf: "atree_wf (Node l mn mx y r) lo (Suc L)"
    and x: "in_range lo (hi_of lo (Suc L)) (x :: 'a aleaf)" "\<And>z. z \<in> set (leaves (Node l mn mx y r)) \<Longrightarrow> apart x z"
    and covers: "fst x \<le> semi_of lo (Suc L)" "semi_of lo (Suc L) \<le> fst (snd x)"
    and IH: "\<And>z :: 'a aleaf. insert_correct z L"
  shows "\<exists>t'. insert_at (Node l mn mx y r) x (semi_of lo (Suc L)) (lev_of (Suc L)) = Some (Inr t') \<and>
    priv_reinsertall (\<lambda>t z. insert_at t z (semi_of lo (Suc L)) (lev_of (Suc L)))
      (Node l mn mx y r) (leaf_node x) = Some (Inr t') \<and>
    atree_wf t' lo (Suc L) \<and> set (leaves t') = insert x (set (leaves (Node l mn mx y r))) \<and>
    (\<exists>l r. t' = Node l (fst x) (fst (snd x)) (snd (snd x)) r)"
proof -
  let ?s = "semi_of lo (Suc L)" and ?t = "Node l mn mx y r"
  define Inv where "Inv T \<longleftrightarrow> atree_wf T lo (Suc L) \<and> (\<exists>l r. T = Node l (fst x) (fst (snd x)) (snd (snd x)) r)" for T
  have ins: "\<exists>T'. insert_at T z ?s (lev_of (Suc L)) = Some (Inr T') \<and> Inv T' \<and>
      set (leaves T') = insert z (set (leaves T))"
    if "Inv T" "in_range lo (hi_of lo (Suc L)) z" "\<And>y. y \<in> set (leaves T) \<Longrightarrow> apart z y" for T z
  proof -
    from that(1) obtain l1 r1 where T: "T = Node l1 (fst x) (fst (snd x)) (snd (snd x)) r1" "atree_wf T lo (Suc L)"
      by (auto simp: Inv_def)
    have "apart z x" by (rule that(3)) (simp add: T(1))
    then have "\<not> (fst z \<le> ?s \<and> ?s \<le> fst (snd z))" using covers by (auto simp: apart_def)
    from insert_at_descend [OF al T(2) [unfolded T(1)] that(2) that(3) [unfolded T(1)] this IH]
    show ?thesis by (auto simp: Inv_def T(1))
  qed
  have t_rng: "in_range lo (hi_of lo (Suc L)) z" if "z \<in> set (leaves ?t)" for z
    by (rule atree_wf_range [OF al wf that])
  have ap: "apart z w" if "z \<in> set (leaves ?t)" "w \<in> set (leaves (leaf_node x))" for z w
    using that x(2) [of z] leaf_node_spec(2) [OF x(1)] by (auto intro: apart_sym)
  have "Inv (leaf_node x)" using leaf_node_spec [OF x(1)] by (cases x) (simp add: Inv_def)
  from reinsertall_spec [of Inv "in_range lo (hi_of lo (Suc L))" "\<lambda>t z. insert_at t z ?s (lev_of (Suc L))",
      OF ins this t_rng atree_wf_sorted_apart [OF al wf] ap]
  obtain T' where T': "priv_reinsertall (\<lambda>t z. insert_at t z ?s (lev_of (Suc L))) ?t (leaf_node x) = Some (Inr T')"
    "Inv T'" "set (leaves T') = set (leaves ?t) \<union> set (leaves (leaf_node x))" by blast
  have "apart x (mn, mx, y)" by (rule x(2)) simp
  with not_apart [OF x(1) atree_wf_NodeD(1) [OF wf]] covers have
    "\<not> (fst x \<le> mx \<and> mn \<le> fst (snd x))" "mx \<le> ?s \<or> ?s \<le> mn" by auto
  then have "insert_at ?t x ?s (lev_of (Suc L)) = Some (Inr T')"
    using T'(1) covers range_checks [OF al x(1)] by (subst insert_at.simps) (simp add: Let_def)
  moreover have "set (leaves T') = insert x (set (leaves ?t))"
    using T'(3) leaf_node_spec(2) [OF x(1)] by simp
  ultimately show ?thesis using T'(1,2) unfolding Inv_def by blast
qed

lemma insert_correct: "insert_correct x L"
proof (induction L arbitrary: x)
  case 0
  have "t = ATREE_NULL" if "aligned lo 0" "atree_wf t lo 0" "in_range lo (hi_of lo 0) x"
    "\<forall>z\<in>set (leaves t). apart x z" for lo t
    using that by (cases t) (auto simp: apart_def in_range_def hi_of_def)
  then show ?case unfolding insert_correct_def
    using insert_at_Null [of _ 0 x] leaf_node_spec [of _ 0 x] by fastforce
next
  case (Suc L)
  show ?case unfolding insert_correct_def
  proof (intro allI impI)
    fix lo :: key and t :: "'a atree"
    assume al: "aligned lo (Suc L)" and wf: "atree_wf t lo (Suc L)"
      and x: "in_range lo (hi_of lo (Suc L)) x" and ap: "\<forall>z\<in>set (leaves t). apart x z"
    show "\<exists>t'. insert_at t x (semi_of lo (Suc L)) (lev_of (Suc L)) = Some (Inr t') \<and>
      atree_wf t' lo (Suc L) \<and> set (leaves t') = insert x (set (leaves t))"
    proof (cases t)
      case ATREE_NULL
      with insert_at_Null [OF al x] leaf_node_spec [OF x] show ?thesis by simp
    next
      case (Node l mn mx y r)
      then have ap': "\<And>z. z \<in> set (leaves (Node l mn mx y r)) \<Longrightarrow> apart x z" using ap by blast
      show ?thesis
      proof (cases "fst x \<le> semi_of lo (Suc L) \<and> semi_of lo (Suc L) \<le> fst (snd x)")
        case False
        from insert_at_descend [OF al wf [unfolded Node] x ap' False Suc.IH] Node show ?thesis by blast
      next
        case True
        from insert_at_override [OF al wf [unfolded Node] x ap' _ _ Suc.IH] True Node show ?thesis by blast
      qed
    qed
  qed
qed

lemmas insert_at_spec = insert_correctD [OF insert_correct]


section \<open>Lookup\<close>

definition covers :: "'a aleaf \<Rightarrow> key \<Rightarrow> bool" where
  "covers y k \<longleftrightarrow> fst y \<le> k \<and> k \<le> fst (snd y)"

lemma valid_branch_range:
  assumes "aligned lo L" "in_range lo (hi_of lo L) (mn, mx, x)"
  shows "valid_branch mn mx (semi_of lo L) (lev_of L)"
  using range_checks [OF assms] by (simp add: valid_branch_def)

lemma locate_at_step:
  assumes "aligned lo (Suc L)" "in_range lo (hi_of lo (Suc L)) (mn, mx, x)"
  shows "locate_at (Node l mn mx x r) k (semi_of lo (Suc L)) (lev_of (Suc L)) =
      (if covers (mn, mx, x) k then Inr (Some (mn, mx, x))
       else if k < semi_of lo (Suc L) then locate_at l k (semi_of lo L) (lev_of L)
       else locate_at r k (semi_of (semi_of lo (Suc L)) L) (lev_of L))"
    "plocate_at (Node l mn mx x r) k (semi_of lo (Suc L)) (lev_of (Suc L)) =
      (if covers (mn, mx, x) k then Inr (Some ([], semi_of lo (Suc L), lev_of (Suc L)))
       else if k < semi_of lo (Suc L)
       then rbind (plocate_at l k (semi_of lo L) (lev_of L))
              (\<lambda>q. Inr (map_option (\<lambda>(p, q). (Min # p, q)) q))
       else rbind (plocate_at r k (semi_of (semi_of lo (Suc L)) L) (lev_of L))
              (\<lambda>q. Inr (map_option (\<lambda>(p, q). (Max # p, q)) q)))"
  using valid_branch_range [OF assms] lev_of_eq_minus_1 [of "Suc L"] assms(1)
  by (simp_all add: covers_def aligned_def WALKMIN_semi_of [OF assms(1)] WALKMAX_semi_of [OF assms(1)])

lemma locate_at_step_0:
  assumes "aligned lo 0" "in_range lo (hi_of lo 0) (mn, mx, x)" "lo \<le> k" "k \<le> hi_of lo 0"
  shows "covers (mn, mx, x) k"
    "locate_at (Node l mn mx x r) k (semi_of lo 0) (lev_of 0) = Inr (Some (mn, mx, x))"
    "plocate_at (Node l mn mx x r) k (semi_of lo 0) (lev_of 0) = Inr (Some ([], semi_of lo 0, lev_of 0))"
proof -
  show "covers (mn, mx, x) k" using assms by (auto simp: covers_def in_range_def hi_of_def)
  then show "locate_at (Node l mn mx x r) k (semi_of lo 0) (lev_of 0) = Inr (Some (mn, mx, x))"
    "plocate_at (Node l mn mx x r) k (semi_of lo 0) (lev_of 0) = Inr (Some ([], semi_of lo 0, lev_of 0))"
    using valid_branch_range [OF assms(1,2)] by (simp_all add: covers_def)
qed

lemma locate_at_spec:
  "aligned lo L \<Longrightarrow> atree_wf t lo L \<Longrightarrow> lo \<le> k \<Longrightarrow> k \<le> hi_of lo L \<Longrightarrow>
   \<exists>r. locate_at t k (semi_of lo L) (lev_of L) = Inr r \<and>
     (\<forall>y. r = Some y \<longleftrightarrow> y \<in> set (leaves t) \<and> covers y k)"
proof (induction t lo L rule: atree_wf.induct)
  case (2 l mn mx x r lo)
  then have e: "in_range lo (hi_of lo 0) (mn, mx, x)" "l = ATREE_NULL" "r = ATREE_NULL" by simp_all
  from locate_at_step_0 [OF "2.prems"(1) e(1) "2.prems"(3,4)] show ?case unfolding e(2,3) by auto
next
  case (3 l mn mx x r lo L)
  let ?s = "semi_of lo (Suc L)"
  note al = "3.prems"(1) and w = atree_wf_NodeD [OF "3.prems"(2)]
  note step = locate_at_step(1) [OF al w(1), of l r k]
  have lr: "\<not> covers z k" if "z \<in> set (leaves l)" "covers (mn, mx, x) k \<or> \<not> k < ?s" for z
    using that w(2) [of z] by (auto simp: covers_def apart_def)
  have rr: "\<not> covers z k" if "z \<in> set (leaves r)" "covers (mn, mx, x) k \<or> k < ?s" for z
    using that w(3) [of z] by (auto simp: covers_def apart_def)
  consider "covers (mn, mx, x) k" | "\<not> covers (mn, mx, x) k" "k < ?s" | "\<not> covers (mn, mx, x) k" "\<not> k < ?s"
    by blast
  then show ?case
  proof cases
    case 1
    with step lr rr show ?thesis by (intro exI [of _ "Some (mn, mx, x)"]) auto
  next
    case 2
    then have "k \<le> hi_of lo L" using branch_halves(1) [OF al] by blast
    from "3.IH"(1) [OF aligned_SucD [OF al] w(4) "3.prems"(3) this] obtain q where
      q: "locate_at l k (semi_of lo L) (lev_of L) = Inr q" "\<forall>y. q = Some y \<longleftrightarrow> y \<in> set (leaves l) \<and> covers y k"
      by blast
    from step 2 q rr show ?thesis by (intro exI [of _ q]) auto
  next
    case 3
    then have "?s \<le> k" "k \<le> hi_of ?s L" using branch_halves(2) [OF al] "3.prems"(4) by auto
    from "3.IH"(2) [OF aligned_upper [OF al] w(5) this] obtain q where
      q: "locate_at r k (semi_of ?s L) (lev_of L) = Inr q" "\<forall>y. q = Some y \<longleftrightarrow> y \<in> set (leaves r) \<and> covers y k"
      by blast
    from step 3 q lr show ?thesis by (intro exI [of _ q]) auto
  qed
qed simp

text \<open>The branch that a path leads to.\<close>

fun at_path :: "branch list \<Rightarrow> key \<Rightarrow> nat \<Rightarrow> key \<times> nat" where
  "at_path [] lo L = (lo, L)"
| "at_path (Min # p) lo L = at_path p lo (L - 1)"
| "at_path (Max # p) lo L = at_path p (semi_of lo L) (L - 1)"

definition position_of :: "branch list \<Rightarrow> key \<Rightarrow> nat \<Rightarrow> position" where
  "position_of p lo L = (p, semi_of (fst (at_path p lo L)) (snd (at_path p lo L)), lev_of (snd (at_path p lo L)))"

fun root_leaf :: "'a atree \<Rightarrow> 'a aleaf option" where
  "root_leaf ATREE_NULL = None"
| "root_leaf (Node l mn mx x r) = Some (mn, mx, x)"

lemma position_of_Cons [simp]:
  "position_of (Min # p) lo (Suc L) = (case position_of p lo L of (q, r) \<Rightarrow> (Min # q, r))"
  "position_of (Max # p) lo (Suc L) = (case position_of p (semi_of lo (Suc L)) L of (q, r) \<Rightarrow> (Max # q, r))"
  by (simp_all add: position_of_def)

lemma position_of_Nil [simp]: "position_of [] lo L = ([], semi_of lo L, lev_of L)"
  by (simp add: position_of_def)

lemma plocate_at_spec:
  "aligned lo L \<Longrightarrow> atree_wf t lo L \<Longrightarrow> lo \<le> k \<Longrightarrow> k \<le> hi_of lo L \<Longrightarrow>
   (locate_at t k (semi_of lo L) (lev_of L) = Inr None \<and> plocate_at t k (semi_of lo L) (lev_of L) = Inr None) \<or>
   (\<exists>y p. locate_at t k (semi_of lo L) (lev_of L) = Inr (Some y) \<and>
     plocate_at t k (semi_of lo L) (lev_of L) = Inr (Some (position_of p lo L)) \<and>
     root_leaf (subtree_at p t) = Some y)"
proof (induction t lo L rule: atree_wf.induct)
  case (2 l mn mx x r lo)
  then have e: "in_range lo (hi_of lo 0) (mn, mx, x)" by simp
  note st = locate_at_step_0(2,3) [OF "2.prems"(1) e "2.prems"(3,4), of l r]
  have "root_leaf (subtree_at [] (Node l mn mx x r)) = Some (mn, mx, x)" by simp
  with st position_of_Nil show ?case by metis
next
  case (3 l mn mx x r lo L)
  let ?s = "semi_of lo (Suc L)" and ?t = "Node l mn mx x r"
  note al = "3.prems"(1) and w = atree_wf_NodeD [OF "3.prems"(2)]
  note step = locate_at_step [OF al w(1), of l r k]
  consider "covers (mn, mx, x) k" | "\<not> covers (mn, mx, x) k" "k < ?s" | "\<not> covers (mn, mx, x) k" "\<not> k < ?s"
    by blast
  then show ?case
  proof cases
    case 1
    have "root_leaf (subtree_at [] ?t) = Some (mn, mx, x)" by simp
    with step 1 position_of_Nil show ?thesis by metis
  next
    case 2
    then have "k \<le> hi_of lo L" using branch_halves(1) [OF al] by blast
    from "3.IH"(1) [OF aligned_SucD [OF al] w(4) "3.prems"(3) this] show ?thesis
    proof (elim disjE exE conjE)
      fix y p
      assume "locate_at l k (semi_of lo L) (lev_of L) = Inr (Some y)"
        "plocate_at l k (semi_of lo L) (lev_of L) = Inr (Some (position_of p lo L))"
        "root_leaf (subtree_at p l) = Some y"
      with step 2 show ?thesis
        by (intro disjI2 exI [of _ y] exI [of _ "Min # p"]) (simp split: prod.splits)
    qed (use step 2 in simp)
  next
    case 3
    then have "?s \<le> k" "k \<le> hi_of ?s L" using branch_halves(2) [OF al] "3.prems"(4) by auto
    from "3.IH"(2) [OF aligned_upper [OF al] w(5) this] show ?thesis
    proof (elim disjE exE conjE)
      fix y p
      assume "locate_at r k (semi_of ?s L) (lev_of L) = Inr (Some y)"
        "plocate_at r k (semi_of ?s L) (lev_of L) = Inr (Some (position_of p ?s L))"
        "root_leaf (subtree_at p r) = Some y"
      with step 3 show ?thesis
        by (intro disjI2 exI [of _ y] exI [of _ "Max # p"]) (simp split: prod.splits)
    qed (use step 3 in simp)
  qed
qed simp

section \<open>Removal\<close>

lemma not_apart_self: "in_range lo hi y \<Longrightarrow> \<not> apart y y"
  by (auto simp: apart_def in_range_def)

lemma pop_at_spec:
  assumes al: "aligned lo L" and wf: "atree_wf (Node l mn mx x r) lo L"
  shows "\<exists>t'. pop_at (Node l mn mx x r) (semi_of lo L) (lev_of L) = Some (Inr ((mn, mx, x), t')) \<and>
    atree_wf t' lo L \<and> set (leaves t') = set (leaves (Node l mn mx x r)) - {(mn, mx, x)}"
proof -
  let ?ins = "\<lambda>t y. insert_at t y (semi_of lo L) (lev_of L)"
  note srt = atree_wf_sorted_apart [OF al wf]
  have rng: "in_range lo (hi_of lo L) z" if "z \<in> set (leaves l) \<union> set (leaves r)" for z
    using that by (intro atree_wf_range [OF al wf]) auto
  have ins: "\<exists>T'. ?ins T z = Some (Inr T') \<and> atree_wf T' lo L \<and> set (leaves T') = insert z (set (leaves T))"
    if "atree_wf T lo L" "in_range lo (hi_of lo L) z" "\<And>y. y \<in> set (leaves T) \<Longrightarrow> apart z y" for T z
    using insert_at_spec [OF al that] by blast
  note re = reinsertall_spec [of "\<lambda>T. atree_wf T lo L" "in_range lo (hi_of lo L)" ?ins, OF ins]
  have s: "sorted_wrt apart (leaves l)" "sorted_wrt apart (leaves r)"
    using srt by (simp_all add: sorted_wrt_append)
  have cross: "apart y z" if "y \<in> set (leaves r)" "z \<in> set (leaves l)" for y z
    using srt that by (auto simp: sorted_wrt_append intro: apart_sym)
  have "\<exists>T1. priv_reinsertall ?ins l ATREE_NULL = Some (Inr T1) \<and> atree_wf T1 lo L \<and>
      set (leaves T1) = set (leaves l) \<union> set (leaves ATREE_NULL)"
    using rng s(1) by (intro re) simp_all
  then obtain T1 where T1: "priv_reinsertall ?ins l ATREE_NULL = Some (Inr T1)" "atree_wf T1 lo L"
    "set (leaves T1) = set (leaves l)" by auto
  have "\<exists>T2. priv_reinsertall ?ins r T1 = Some (Inr T2) \<and> atree_wf T2 lo L \<and>
      set (leaves T2) = set (leaves r) \<union> set (leaves T1)"
    using rng s(2) cross T1 by (intro re) simp_all
  then obtain T2 where T2: "priv_reinsertall ?ins r T1 = Some (Inr T2)" "atree_wf T2 lo L"
    "set (leaves T2) = set (leaves r) \<union> set (leaves T1)" by blast
  have "(mn, mx, x) \<notin> set (leaves l) \<union> set (leaves r)"
    using srt not_apart_self [OF atree_wf_range [OF al wf, of "(mn, mx, x)"]]
    by (auto simp: sorted_wrt_append)
  with T1 T2 show ?thesis by auto
qed

text \<open>Replacing a subtree by one with fewer nodes keeps the tree well formed.\<close>

lemma replace_at_spec:
  "aligned lo L \<Longrightarrow> atree_wf t lo L \<Longrightarrow> root_leaf (subtree_at p t) = Some y \<Longrightarrow>
   at_path p lo L = (lo', L') \<Longrightarrow>
   aligned lo' L' \<and> atree_wf (subtree_at p t) lo' L' \<and>
   (\<forall>t2. atree_wf t2 lo' L' \<longrightarrow> set (leaves t2) = set (leaves (subtree_at p t)) - {y} \<longrightarrow>
     atree_wf (replace_at p t2 t) lo L \<and> set (leaves (replace_at p t2 t)) = set (leaves t) - {y}) \<and>
   y \<in> set (leaves (subtree_at p t)) \<and> set (leaves (subtree_at p t)) \<subseteq> set (leaves t)"
proof (induction t lo L arbitrary: p rule: atree_wf.induct)
  case (1 lo L)
  then show ?case by (cases p) simp_all
next
  case (2 l mn mx x r lo)
  show ?case
  proof (cases p)
    case Nil
    with 2 show ?thesis by simp
  next
    case (Cons b q)
    with 2 have False by (cases b; cases q) simp_all
    then show ?thesis ..
  qed
next
  case (3 l mn mx x r lo L)
  let ?s = "semi_of lo (Suc L)"
  note al = "3.prems"(1) and w = atree_wf_NodeD [OF "3.prems"(2)]
  have self: "\<not> apart (mn, mx, x) (mn, mx, x)" by (rule not_apart_self [OF w(1)])
  show ?case
  proof (cases p)
    case Nil
    with "3.prems" show ?thesis by (auto simp del: atree_wf.simps)
  next
    case (Cons b q)
    show ?thesis
    proof (cases b)
      case Min
      then have q: "root_leaf (subtree_at q l) = Some y" "at_path q lo L = (lo', L')"
        using "3.prems"(3,4) Cons by simp_all
      note ih = "3.IH"(1) [OF aligned_SucD [OF al] w(4) q]
      then have yl: "y \<in> set (leaves l)" by blast
      then have "y \<noteq> (mn, mx, x)" "y \<notin> set (leaves r)" using self w(2) [of y] w(3) [of y]
          atree_wf_range [OF aligned_SucD [OF al] w(4), of y] by (auto simp: in_range_def)
      with ih w show ?thesis unfolding Cons Min
        by (auto simp: list_all_iff simp del: atree_wf.simps intro!: atree_wf_NodeI)
    next
      case Max
      then have q: "root_leaf (subtree_at q r) = Some y" "at_path q ?s L = (lo', L')"
        using "3.prems"(3,4) Cons by simp_all
      note ih = "3.IH"(2) [OF aligned_upper [OF al] w(5) q]
      then have yr: "y \<in> set (leaves r)" by blast
      then have "y \<noteq> (mn, mx, x)" "y \<notin> set (leaves l)" using self w(2) [of y] w(3) [of y]
          atree_wf_range [OF aligned_upper [OF al] w(5), of y] by (auto simp: in_range_def)
      with ih w show ?thesis unfolding Cons Max
        by (auto simp: list_all_iff simp del: atree_wf.simps intro!: atree_wf_NodeI)
    qed
  qed
qed

lemma remove_at_spec:
  assumes al: "aligned lo L" and wf: "atree_wf t lo L" and k: "lo \<le> k" "k \<le> hi_of lo L"
  shows "\<exists>r t'. remove_at t k (semi_of lo L) (lev_of L) = Some (Inr (r, t')) \<and>
    locate_at t k (semi_of lo L) (lev_of L) = Inr r \<and>
    atree_wf t' lo L \<and> set (leaves t') = set (leaves t) - set_option r"
  using plocate_at_spec [OF al wf k]
proof (elim disjE exE conjE)
  fix y p
  assume loc: "locate_at t k (semi_of lo L) (lev_of L) = Inr (Some y)"
    and ploc: "plocate_at t k (semi_of lo L) (lev_of L) = Inr (Some (position_of p lo L))"
    and root: "root_leaf (subtree_at p t) = Some y"
  obtain lo' L' where path: "at_path p lo L = (lo', L')" by force
  note rep = replace_at_spec [OF al wf root path]
  from root obtain l mn mx x r where sub: "subtree_at p t = Node l mn mx x r" "y = (mn, mx, x)"
    by (cases "subtree_at p t") auto
  have "aligned lo' L'" "atree_wf (Node l mn mx x r) lo' L'" using rep sub by auto
  from pop_at_spec [OF this] obtain t2 where
    t2: "pop_at (subtree_at p t) (semi_of lo' L') (lev_of L') = Some (Inr (y, t2))" "atree_wf t2 lo' L'"
      "set (leaves t2) = set (leaves (subtree_at p t)) - {y}" unfolding sub by blast
  have "remove_at t k (semi_of lo L) (lev_of L) = Some (Inr (Some y, replace_at p t2 t))"
    using ploc t2(1) path by (simp add: remove_at_def position_of_def)
  with loc rep t2 show ?thesis by auto
qed (use wf in \<open>simp add: remove_at_def\<close>)

section \<open>The other insertions\<close>

text \<open>One step of each insertion at a node that does not overlap with the new range.\<close>

lemma insert_step:
  fixes l r :: "'a atree"
  assumes al: "aligned lo (Suc L)" and x: "in_range lo (hi_of lo (Suc L)) x"
    and root: "in_range lo (hi_of lo (Suc L)) (mn, mx, y)" "apart x (mn, mx, y)"
  defines "s \<equiv> semi_of lo (Suc L)" and "lv \<equiv> lev_of (Suc L)" and "t \<equiv> Node l mn mx y r"
  defines "over \<equiv> priv_reinsertall (\<lambda>t z. insert_at t z s lv) t (leaf_node x)"
  shows "insert_at t x s lv =
      (if covers x s then over
       else if fst (snd x) < s
       then pbind (insert_at l x (semi_of lo L) (lev_of L)) (\<lambda>l'. Some (Inr (Node l' mn mx y r)))
       else pbind (insert_at r x (semi_of s L) (lev_of L)) (\<lambda>r'. Some (Inr (Node l mn mx y r'))))"
    "tryinsert_at t x s lv =
      (if covers x s then pbind over (\<lambda>t'. Some (Inr (True, t')))
       else if fst (snd x) < s
       then pbind (tryinsert_at l x (semi_of lo L) (lev_of L)) (\<lambda>(ok, l'). Some (Inr (ok, Node l' mn mx y r)))
       else pbind (tryinsert_at r x (semi_of s L) (lev_of L)) (\<lambda>(ok, r'). Some (Inr (ok, Node l mn mx y r'))))"
    "pinsert_at t x s lv =
      (if covers x s then pbind over (\<lambda>t'. Some (Inr (t', [], s, lv)))
       else if fst (snd x) < s
       then pbind (pinsert_at l x (semi_of lo L) (lev_of L))
              (\<lambda>(l', p, q). Some (Inr (Node l' mn mx y r, Min # p, q)))
       else pbind (pinsert_at r x (semi_of s L) (lev_of L))
              (\<lambda>(r', p, q). Some (Inr (Node l mn mx y r', Max # p, q))))"
proof -
  have ap: "\<not> (fst x \<le> mx \<and> mn \<le> fst (snd x))" using not_apart [OF x root(1)] root(2) by simp
  then have side: "covers x s \<Longrightarrow> mx \<le> s \<or> s \<le> mn" by (auto simp: covers_def)
  have up: "\<not> covers x s \<Longrightarrow> \<not> fst (snd x) < s \<Longrightarrow> s < fst x" by (auto simp: covers_def)
  note checks = range_checks [OF al x, folded s_def lv_def]
  note walk = WALKMIN_semi_of [OF al, folded s_def lv_def] WALKMAX_semi_of [OF al, folded s_def lv_def]
  show "insert_at t x s lv =
      (if covers x s then over
       else if fst (snd x) < s
       then pbind (insert_at l x (semi_of lo L) (lev_of L)) (\<lambda>l'. Some (Inr (Node l' mn mx y r)))
       else pbind (insert_at r x (semi_of s L) (lev_of L)) (\<lambda>r'. Some (Inr (Node l mn mx y r'))))"
    using ap side up checks walk
    by (subst insert_at.simps) (auto simp: Let_def t_def over_def covers_def passert_def)
  show "tryinsert_at t x s lv =
      (if covers x s then pbind over (\<lambda>t'. Some (Inr (True, t')))
       else if fst (snd x) < s
       then pbind (tryinsert_at l x (semi_of lo L) (lev_of L)) (\<lambda>(ok, l'). Some (Inr (ok, Node l' mn mx y r)))
       else pbind (tryinsert_at r x (semi_of s L) (lev_of L)) (\<lambda>(ok, r'). Some (Inr (ok, Node l mn mx y r'))))"
    using ap side up checks walk
    by (subst tryinsert_at.simps) (auto simp: Let_def t_def over_def covers_def passert_def)
  show "pinsert_at t x s lv =
      (if covers x s then pbind over (\<lambda>t'. Some (Inr (t', [], s, lv)))
       else if fst (snd x) < s
       then pbind (pinsert_at l x (semi_of lo L) (lev_of L))
              (\<lambda>(l', p, q). Some (Inr (Node l' mn mx y r, Min # p, q)))
       else pbind (pinsert_at r x (semi_of s L) (lev_of L))
              (\<lambda>(r', p, q). Some (Inr (Node l mn mx y r', Max # p, q))))"
    using ap side up checks walk
    by (subst pinsert_at.simps) (auto simp: Let_def t_def over_def covers_def passert_def)
qed

lemma insert_Null_variants:
  assumes "aligned lo L" "in_range lo (hi_of lo L) x"
  shows "tryinsert_at ATREE_NULL x (semi_of lo L) (lev_of L) = Some (Inr (True, leaf_node x))"
    "pinsert_at ATREE_NULL x (semi_of lo L) (lev_of L) = Some (Inr (leaf_node x, position_of [] lo L))"
  using range_checks [OF assms]
  by (subst tryinsert_at.simps pinsert_at.simps, simp add: Let_def)+

text \<open>All three insertions build the same tree.\<close>

lemma insert_variants:
  "aligned lo L \<Longrightarrow> atree_wf t lo L \<Longrightarrow> in_range lo (hi_of lo L) x \<Longrightarrow>
   \<forall>y\<in>set (leaves t). apart x y \<Longrightarrow> insert_at t x (semi_of lo L) (lev_of L) = Some (Inr t') \<Longrightarrow>
   tryinsert_at t x (semi_of lo L) (lev_of L) = Some (Inr (True, t')) \<and>
   (\<exists>p. pinsert_at t x (semi_of lo L) (lev_of L) = Some (Inr (t', position_of p lo L)) \<and>
     root_leaf (subtree_at p t') = Some x)"
proof (induction t lo L arbitrary: t' rule: atree_wf.induct)
  case (1 lo L)
  have "root_leaf (subtree_at [] (leaf_node x)) = Some x" by (cases x) simp
  with 1 insert_at_Null [of lo L x] insert_Null_variants [of lo L x] show ?case by (auto intro: exI [of _ "[]"])
next
  case (2 l mn mx y r lo)
  then show ?case by (auto simp: apart_def in_range_def hi_of_def)
next
  case (3 l mn mx y r lo L)
  let ?s = "semi_of lo (Suc L)" and ?t = "Node l mn mx y r"
  note al = "3.prems"(1) and w = atree_wf_NodeD [OF "3.prems"(2)] and x = "3.prems"(3)
  have "apart x (mn, mx, y)" using "3.prems"(4) by simp
  note step = insert_step [OF al x w(1) this, of l r]
  have ap: "\<forall>z\<in>set (leaves l). apart x z" "\<forall>z\<in>set (leaves r). apart x z" using "3.prems"(4) by auto
  consider "covers x ?s" | "\<not> covers x ?s" "fst (snd x) < ?s" | "\<not> covers x ?s" "\<not> fst (snd x) < ?s"
    by blast
  then show ?case
  proof cases
    case 1
    then have c: "fst x \<le> ?s" "?s \<le> fst (snd x)" by (auto simp: covers_def)
    have ap': "\<And>z. z \<in> set (leaves ?t) \<Longrightarrow> apart x z" using "3.prems"(4) by blast
    from insert_at_override [OF al "3.prems"(2) x ap' c insert_correct]
    have "root_leaf t' = Some x" using "3.prems"(5) by (cases x) auto
    then have "root_leaf (subtree_at [] t') = Some x" by simp
    moreover have over: "priv_reinsertall (\<lambda>t z. insert_at t z ?s (lev_of (Suc L))) ?t (leaf_node x) = Some (Inr t')"
      using 1 step(1) "3.prems"(5) by presburger
    have "tryinsert_at ?t x ?s (lev_of (Suc L)) = Some (Inr (True, t'))"
      "pinsert_at ?t x ?s (lev_of (Suc L)) = Some (Inr (t', position_of [] lo (Suc L)))"
      unfolding step(2,3) over using 1 by simp_all
    ultimately show ?thesis by blast
  next
    case 2
    then have xl: "in_range lo (hi_of lo L) x" using x branch_halves(1) [OF al] by (auto simp: in_range_def)
    obtain l' where l': "insert_at l x (semi_of lo L) (lev_of L) = Some (Inr l')"
      using insert_at_spec [OF aligned_SucD [OF al] w(4) xl] ap(1) by blast
    with 2 step(1) "3.prems"(5) have t': "t' = Node l' mn mx y r" by simp
    from "3.IH"(1) [OF aligned_SucD [OF al] w(4) xl ap(1) l'] obtain p where
      "tryinsert_at l x (semi_of lo L) (lev_of L) = Some (Inr (True, l'))"
      "pinsert_at l x (semi_of lo L) (lev_of L) = Some (Inr (l', position_of p lo L))"
      "root_leaf (subtree_at p l') = Some x" by blast
    with 2 step(2,3) t' show ?thesis by (auto split: prod.splits intro!: exI [of _ "Min # p"])
  next
    case 3
    then have "?s \<le> fst x" by (auto simp: covers_def)
    then have xr: "in_range ?s (hi_of ?s L) x" using x branch_halves(2) [OF al] by (auto simp: in_range_def)
    obtain r' where r': "insert_at r x (semi_of ?s L) (lev_of L) = Some (Inr r')"
      using insert_at_spec [OF aligned_upper [OF al] w(5) xr] ap(2) by blast
    with 3 step(1) "3.prems"(5) have t': "t' = Node l mn mx y r'" by simp
    from "3.IH"(2) [OF aligned_upper [OF al] w(5) xr ap(2) r'] obtain p where
      "tryinsert_at r x (semi_of ?s L) (lev_of L) = Some (Inr (True, r'))"
      "pinsert_at r x (semi_of ?s L) (lev_of L) = Some (Inr (r', position_of p ?s L))"
      "root_leaf (subtree_at p r') = Some x" by blast
    with 3 step(2,3) t' show ?thesis by (auto split: prod.splits intro!: exI [of _ "Max # p"])
  qed
qed

text \<open>A refusal of \<^verbatim>\<open>tryinsert_at\<close> is justified, and leaves the tree alone.\<close>

lemma tryinsert_refused:
  "aligned lo L \<Longrightarrow> atree_wf t lo L \<Longrightarrow> in_range lo (hi_of lo L) x \<Longrightarrow>
   tryinsert_at t x (semi_of lo L) (lev_of L) = Some (Inr (False, t')) \<Longrightarrow>
   t' = t \<and> (\<exists>y\<in>set (leaves t). \<not> apart x y)"
proof (induction t lo L arbitrary: t' rule: atree_wf.induct)
  case (1 lo L)
  with insert_Null_variants(1) [of lo L x] show ?case by simp
next
  case (2 l mn mx y r lo)
  then have "\<not> apart x (mn, mx, y)" "x \<noteq> x \<or> fst x \<le> mx \<and> mn \<le> fst (snd x)"
    by (auto simp: apart_def in_range_def hi_of_def)
  with 2 range_checks [of lo 0 x] show ?case by (auto simp: tryinsert_at.simps [of "Node _ _ _ _ _"] Let_def)
next
  case (3 l mn mx y r lo L)
  let ?s = "semi_of lo (Suc L)"
  note al = "3.prems"(1) and w = atree_wf_NodeD [OF "3.prems"(2)] and x = "3.prems"(3)
  show ?case
  proof (cases "apart x (mn, mx, y)")
    case False
    then have "fst x \<le> mx \<and> mn \<le> fst (snd x)" using not_apart [OF x w(1)] by simp
    then have "tryinsert_at (Node l mn mx y r) x ?s (lev_of (Suc L)) = Some (Inr (False, Node l mn mx y r))"
      using range_checks [OF al x] by (subst tryinsert_at.simps) (simp add: Let_def)
    with False "3.prems"(4) show ?thesis by auto
  next
    case True
    note step = insert_step(2) [OF al x w(1) True, of l r]
    have nc: "\<not> covers x ?s"
    proof
      assume "covers x ?s"
      with step "3.prems"(4) have "pbind (priv_reinsertall (\<lambda>t z. insert_at t z ?s (lev_of (Suc L)))
          (Node l mn mx y r) (leaf_node x)) (\<lambda>t'. Some (Inr (True, t'))) = Some (Inr (False, t'))" by presburger
      then show False unfolding pbind_eq_iff by simp
    qed
    show ?thesis
    proof (cases "fst (snd x) < ?s")
      case lt: True
      then have xl: "in_range lo (hi_of lo L) x" using x branch_halves(1) [OF al] by (auto simp: in_range_def)
      from step nc lt "3.prems"(4) obtain l' where
        "tryinsert_at l x (semi_of lo L) (lev_of L) = Some (Inr (False, l'))" "t' = Node l' mn mx y r"
        by (auto simp: pbind_eq_iff)
      with "3.IH"(1) [OF aligned_SucD [OF al] w(4) xl] show ?thesis by auto
    next
      case ge: False
      then have "?s \<le> fst x" using nc by (auto simp: covers_def)
      then have xr: "in_range ?s (hi_of ?s L) x" using x branch_halves(2) [OF al] by (auto simp: in_range_def)
      from step nc ge "3.prems"(4) obtain r' where
        "tryinsert_at r x (semi_of ?s L) (lev_of L) = Some (Inr (False, r'))" "t' = Node l mn mx y r'"
        by (auto simp: pbind_eq_iff)
      with "3.IH"(2) [OF aligned_upper [OF al] w(5) xr] show ?thesis by auto
    qed
  qed
qed

section \<open>The whole tree\<close>

lemma root_position:
  "ATREE_SEMI0 = semi_of 0 32" "ATREE_LEVEL0 = lev_of 32" "aligned 0 32" "hi_of 0 32 = - 1"
proof -
  have "(- 1 :: key) div 2 = drop_bit 1 (- 1)" by (simp add: drop_bit_eq_div)
  also have "\<dots> = 0x7fffffff" by (intro bit_word_eqI) (auto simp: bit_simps dest!: nat_less_32_cases)
  finally show "ATREE_SEMI0 = semi_of 0 32" by (simp add: ATREE_SEMI0_def semi_of_def)
  show "hi_of 0 32 = - 1" by (intro bit_word_eqI) (simp add: hi_of_def bit_simps)
qed (simp_all add: ATREE_LEVEL0_def lev_of_def aligned_def)

definition tree_ok :: "'a atree \<Rightarrow> bool" where
  "tree_ok t \<longleftrightarrow> atree_wf t 0 32"

definition ranges :: "'a atree \<Rightarrow> 'a aleaf set" where
  "ranges t = set (leaves t)"

text \<open>
  The contract of a map from disjoint ranges of keys, and what its clients derive from it.
\<close>

locale range_map =
  fixes inv :: "'t \<Rightarrow> bool" and content :: "'t \<Rightarrow> 'a aleaf set"
    and ins :: "'t \<Rightarrow> 'a aleaf \<Rightarrow> 't pres"
    and del :: "'t \<Rightarrow> key \<Rightarrow> ('a aleaf option \<times> 't) pres"
    and look :: "'t \<Rightarrow> key \<Rightarrow> 'a aleaf option result"
  assumes look_law: "inv t \<Longrightarrow> \<exists>r. look t k = Inr r \<and> (\<forall>y. r = Some y \<longleftrightarrow> y \<in> content t \<and> covers y k)"
    and ins_law: "inv t \<Longrightarrow> fst x \<le> fst (snd x) \<Longrightarrow> \<forall>y\<in>content t. apart x y \<Longrightarrow>
      \<exists>t'. ins t x = Some (Inr t') \<and> inv t' \<and> content t' = insert x (content t)"
    and del_law: "inv t \<Longrightarrow> \<exists>r t'. del t k = Some (Inr (r, t')) \<and> look t k = Inr r \<and> inv t' \<and>
      content t' = content t - set_option r"
begin

lemma look_eq:
  assumes "inv t" "inv t'" "\<And>y. covers y k \<Longrightarrow> y \<in> content t' \<longleftrightarrow> y \<in> content t"
  shows "look t' k = look t k"
proof -
  obtain r r' where r: "look t k = Inr r" "\<forall>y. r = Some y \<longleftrightarrow> y \<in> content t \<and> covers y k"
    "look t' k = Inr r'" "\<forall>y. r' = Some y \<longleftrightarrow> y \<in> content t' \<and> covers y k"
    using look_law [OF assms(1), of k] look_law [OF assms(2), of k] by blast
  with assms(3) have "\<forall>y. r' = Some y \<longleftrightarrow> r = Some y" by blast
  then have "r' = r" by (cases r; cases r') auto
  with r(1,3) show ?thesis by simp
qed

lemma look_ins:
  assumes t: "inv t" and x: "fst x \<le> fst (snd x)" "\<forall>y\<in>content t. apart x y" and i: "ins t x = Some (Inr t')"
  shows "look t' k = (if covers x k then Inr (Some x) else look t k)"
proof -
  have t': "inv t'" "content t' = insert x (content t)" using ins_law [OF t x] i by auto
  show ?thesis
  proof (cases "covers x k")
    case True
    obtain r where r: "look t' k = Inr r" "\<forall>y. r = Some y \<longleftrightarrow> y \<in> content t' \<and> covers y k"
      using look_law [OF t'(1), of k] by blast
    have "r = Some x" using r(2) True t'(2) by blast
    with r(1) True show ?thesis by simp
  next
    case False
    then have "look t' k = look t k" using t'(2) by (intro look_eq [OF t t'(1)]) auto
    with False show ?thesis by simp
  qed
qed

lemma look_del:
  assumes t: "inv t" and d: "del t k = Some (Inr (r, t'))"
    and ap: "\<And>y z. y \<in> content t \<Longrightarrow> z \<in> content t \<Longrightarrow> y \<noteq> z \<Longrightarrow> apart y z"
  shows "look t' j = (if \<exists>y. r = Some y \<and> covers y j then Inr None else look t j)"
proof -
  have t': "inv t'" "content t' = content t - set_option r" "look t k = Inr r"
    using del_law [OF t, of k] d by auto
  show ?thesis
  proof (cases "\<exists>y. r = Some y \<and> covers y j")
    case True
    then obtain y where y: "r = Some y" "covers y j" by blast
    then have "y \<in> content t" using look_law [OF t, of k] t'(3) by (metis sum.inject(2))
    have none: "z \<notin> content t'" if "covers z j" for z
    proof
      assume "z \<in> content t'"
      then have "z \<in> content t" "z \<noteq> y" using t'(2) y(1) by simp_all
      with ap \<open>y \<in> content t\<close> have "apart y z" by blast
      with that y(2) show False by (auto simp: covers_def apart_def)
    qed
    obtain q where "look t' j = Inr q" "\<forall>y. q = Some y \<longleftrightarrow> y \<in> content t' \<and> covers y j"
      using look_law [OF t'(1), of j] by blast
    with none have "look t' j = Inr None" by (cases q) blast+
    with True show ?thesis by simp
  next
    case False
    then have "look t' j = look t j" using t'(2) by (intro look_eq [OF t t'(1)]) auto
    then show ?thesis unfolding if_not_P [OF False] .
  qed
qed

lemma del_ins:
  assumes t: "inv t" and x: "fst x \<le> fst (snd x)" "\<forall>y\<in>content t. apart x y" and i: "ins t x = Some (Inr t')"
    and k: "covers x k"
  shows "\<exists>t''. del t' k = Some (Inr (Some x, t'')) \<and> inv t'' \<and> content t'' = content t"
proof -
  have t': "inv t'" "content t' = insert x (content t)" using ins_law [OF t x] i by auto
  have "x \<notin> content t" using x by (auto simp: apart_def)
  with del_law [OF t'(1), of k] look_ins [OF t x i, of k] k t'(2) show ?thesis by auto
qed

end

lemma tree_insert_law:
  assumes "tree_ok t" "fst x \<le> fst (snd x)" "\<forall>y\<in>ranges t. apart x y"
  shows "\<exists>t'. insert_tree t x = Some (Inr t') \<and> tree_ok t' \<and> ranges t' = insert x (ranges t)"
proof -
  have "in_range 0 (hi_of 0 32) x" using assms(2) by (simp add: in_range_def root_position)
  from insert_at_spec [OF root_position(3) assms(1) [unfolded tree_ok_def] this] assms(3)
  obtain t' where "insert_at t x (semi_of 0 32) (lev_of 32) = Some (Inr t')" "atree_wf t' 0 32"
    "set (leaves t') = insert x (set (leaves t))" unfolding ranges_def by blast
  then show ?thesis by (simp add: insert_tree_def tree_ok_def ranges_def root_position)
qed

interpretation tree: range_map tree_ok ranges insert_tree remove_tree locate_tree
proof
  fix t :: "'a atree" and k
  assume "tree_ok t"
  then have wf: "atree_wf t 0 32" by (simp add: tree_ok_def)
  have k: "0 \<le> k" "k \<le> hi_of 0 32" by (simp_all add: root_position)
  show "\<exists>r. locate_tree t k = Inr r \<and> (\<forall>y. r = Some y \<longleftrightarrow> y \<in> ranges t \<and> covers y k)"
    using locate_at_spec [OF root_position(3) wf k] by (simp add: locate_tree_def ranges_def root_position)
  show "\<exists>r t'. remove_tree t k = Some (Inr (r, t')) \<and> locate_tree t k = Inr r \<and> tree_ok t' \<and>
      ranges t' = ranges t - set_option r"
    using remove_at_spec [OF root_position(3) wf k]
    by (simp add: locate_tree_def remove_tree_def tree_ok_def ranges_def root_position)
qed (fact tree_insert_law)

lemma tree_ok_apart:
  assumes "tree_ok t" "y \<in> ranges t" "z \<in> ranges t" "y \<noteq> z"
  shows "apart y z"
proof -
  have s: "sorted_wrt apart (leaves t)"
    using atree_wf_sorted_apart [OF root_position(3)] assms(1) by (simp add: tree_ok_def)
  obtain i j where "i < length (leaves t)" "j < length (leaves t)" "y = leaves t ! i" "z = leaves t ! j"
    using assms(2,3) by (auto simp: ranges_def in_set_conv_nth)
  with s assms(4) show ?thesis
    by (cases i j rule: linorder_cases) (auto simp: sorted_wrt_iff_nth_less intro: apart_sym)
qed

section \<open>Properties\<close>

text \<open>
  C4: inserting a range that is apart from all ranges of a tree returns, although the nodes below a
  new root are inserted again recursively; no assertion fails, the tree stays well formed, and a
  lookup of any key finds the new node if it lies in its range, and what it found before otherwise.
\<close>

theorem atree_insert_lookup:
  assumes "tree_ok t" "fst x \<le> fst (snd x)" "\<forall>y\<in>ranges t. apart x y"
  shows "\<exists>t'. insert_tree t x = Some (Inr t') \<and> tree_ok t' \<and> ranges t' = insert x (ranges t) \<and>
    (\<forall>k. locate_tree t' k = (if covers x k then Inr (Some x) else locate_tree t k))"
  using tree_insert_law [OF assms] tree.look_ins [OF assms] by blast

text \<open>
  C12: removing the node of a key returns it, keeps the tree well formed, and afterwards the keys of
  its range, and no others, have lost their node.
\<close>

theorem atree_remove_lookup:
  assumes "tree_ok t"
  shows "\<exists>r t'. remove_tree t k = Some (Inr (r, t')) \<and> locate_tree t k = Inr r \<and> tree_ok t' \<and>
    ranges t' = ranges t - set_option r \<and>
    (\<forall>j. locate_tree t' j = (if \<exists>y. r = Some y \<and> covers y j then Inr None else locate_tree t j))"
  using tree.del_law [OF assms, of k] tree.look_del [OF assms _ tree_ok_apart [OF assms], of k] by blast

text \<open>
  a lookup in a well-formed tree trips none of the debug assertions and finds the one node
  whose range has the key, if there is one.
\<close>

theorem atree_locate_correct:
  assumes "tree_ok t"
  shows "\<exists>r. locate_tree t k = Inr r \<and> (\<forall>y. r = Some y \<longleftrightarrow> y \<in> ranges t \<and> covers y k)"
  by (rule tree.look_law [OF assms])

text \<open>
  \<^verbatim>\<open>tryinsert\<close> and \<^verbatim>\<open>pinsert_at\<close> of a range that is apart from all others build the
  same tree as \<^verbatim>\<open>insert\<close>, and the position that \<^verbatim>\<open>pinsert_at\<close> returns is the one of the
  new node; a refusal of \<^verbatim>\<open>tryinsert\<close> leaves the tree alone, and there is an overlap.
\<close>

theorem atree_insert_variants:
  assumes "tree_ok t" "fst x \<le> fst (snd x)"
  shows "((\<forall>y\<in>ranges t. apart x y) \<longrightarrow> (\<exists>t' p. insert_tree t x = Some (Inr t') \<and>
        tryinsert t x = Some (Inr (True, t')) \<and>
        pinsert_at t x ATREE_SEMI0 ATREE_LEVEL0 = Some (Inr (t', position_of p 0 32)) \<and>
        root_leaf (subtree_at p t') = Some x)) \<and>
    (\<forall>t'. tryinsert t x = Some (Inr (False, t')) \<longrightarrow> t' = t \<and> (\<exists>y\<in>ranges t. \<not> apart x y))"
proof -
  have x: "in_range 0 (hi_of 0 32) x" using assms(2) by (simp add: in_range_def root_position)
  note wf = assms(1) [unfolded tree_ok_def]
  show ?thesis
    using tree_insert_law [OF assms] insert_variants [OF root_position(3) wf x]
      tryinsert_refused [OF root_position(3) wf x]
    unfolding insert_tree_def tryinsert_def root_position ranges_def by blast
qed

section \<open>Concrete trees\<close>

definition tree_a :: "nat atree" where
  "tree_a = leaf_node (10, 20, 1)"

definition tree_b :: "nat atree" where
  "tree_b = Node (leaf_node (100, 65536, 2)) 10 20 1 ATREE_NULL"

lemmas atree_eval = ATREE_SEMI0_def ATREE_LEVEL0_def ATREE_MAPMIN_def ATREE_MAPMAX_def
  ATREE_WALKMIN_def ATREE_WALKMAX_def shl1_def Let_def insert_at.simps tryinsert_at.simps
  insert_tree_def tryinsert_def remove_tree_def remove_at_def locate_tree_def valid_branch_def

lemma tree_a_ok: "tree_ok tree_a" "ranges tree_a = {(10, 20, 1)}"
  using leaf_node_spec [of 0 32 "(10, 20, 1 :: nat)"]
  by (simp_all add: tree_ok_def tree_a_def in_range_def root_position ranges_def)

lemma tree_b_ok: "tree_ok tree_b" "ranges tree_b = {(10, 20, 1), (100, 65536, 2)}"
proof -
  have "aligned 0 31" by (simp add: aligned_def)
  then have h: "hi_of 0 31 = 0x7fffffff" using unat_hi_of [of 0 31] by (simp add: word_unat_eq_iff)
  have s: "semi_of 0 32 = 0x80000000" by (simp add: semi_of_def)
  have "atree_wf tree_b 0 (Suc 31)" unfolding tree_b_def
    using leaf_node_spec [of 0 31 "(100, 65536, 2 :: nat)"] root_position(4)
    by (intro atree_wf_NodeI) (auto simp: in_range_def h s apart_def)
  then show "tree_ok tree_b" by (simp add: tree_ok_def)
qed (auto simp: ranges_def tree_b_def)

theorem atree_insert_lookup_witness:
  "\<exists>t'. insert_tree tree_a (100, 65536, 2) = Some (Inr t') \<and> tree_ok t'"
  using atree_insert_lookup [OF tree_a_ok(1), of "(100, 65536, 2)"] by (auto simp: tree_a_ok(2) apart_def)

theorem atree_remove_lookup_witness:
  "\<exists>r t'. remove_tree tree_b 15 = Some (Inr (r, t')) \<and> locate_tree tree_b 15 = Inr r \<and> tree_ok t'"
  using atree_remove_lookup [OF tree_b_ok(1), of 15] by blast

theorem atree_locate_correct_witness:
  "\<exists>r. locate_tree tree_b 200 = Inr r \<and> (\<forall>y. r = Some y \<longleftrightarrow> y \<in> {(10, 20, 1), (100, 65536, 2)} \<and> covers y 200)"
  using atree_locate_correct [OF tree_b_ok(1), of 200] unfolding tree_b_ok(2) .

theorem atree_insert_variants_witness:
  "\<exists>t' p. insert_tree tree_b (30, 40, 3) = Some (Inr t') \<and> root_leaf (subtree_at p t') = Some (30, 40, 3)"
  using atree_insert_variants [OF tree_b_ok(1), of "(30, 40, 3)"] by (auto simp: tree_b_ok(2) apart_def)

text \<open>
  \<^verbatim>\<open>tryinsert\<close> checks for an overlap only with the nodes on its way. A range that covers the
  semi-key replaces the root, and the overlap with a node further down then trips an assertion
  of the insertion of that node below the new root, where the documentation promises
  \<^verbatim>\<open>false\<close>.
\<close>

theorem atree_tryinsert_assertion:
  "tree_ok tree_b \<and> (100, 65536, 2) \<in> ranges tree_b \<and> \<not> apart (30, 0x90000000, 3) (100, 65536, 2) \<and>
   tryinsert tree_b (30, 0x90000000, 3) = Some (Inl E_ASSERT)"
  using tree_b_ok by (simp add: apart_def) (simp add: tree_b_def atree_eval)

end
