(* ===== verification/Rects.thy ===== *)
theory Rects
  imports Prelude
begin

text \<open>
  The sets of pixels of the window manager, \<^verbatim>\<open>src/apps/wms/rect.c\<close>: a chain of vertical
  strips, sorted by their x-coordinates, each with a sorted vector of blocks. Coordinates are
  unsigned 32-bit integers, whose sums wrap. Allocations succeed; where the code grows a
  vector in place or moves it, the model has a list. The chain, as the loops
  walk it by a pointer \<^verbatim>\<open>piter\<close> to a link, is a pair of lists: the strips before that link,
  the closest first, and the strips from the link on.
\<close>

record rect =
  r_xmin :: nat
  r_ymin :: nat
  r_xsiz :: nat
  r_ysiz :: nat

record rect_block =
  rb_ymin :: nat
  rb_ysiz :: nat

record rect_strip =
  rs_xmin :: nat
  rs_xsiz :: nat
  rs_blkv :: "rect_block list"

definition rb_end :: "rect_block \<Rightarrow> nat" where
  "rb_end b = add32 (rb_ymin b) (rb_ysiz b)"

definition rs_end :: "rect_strip \<Rightarrow> nat" where
  "rs_end s = add32 (rs_xmin s) (rs_xsiz s)"

section \<open>Rectangles\<close>

text \<open>The function leaves \<^verbatim>\<open>r_xmin\<close>, \<^verbatim>\<open>r_ymin\<close> and \<^verbatim>\<open>r_ysiz\<close> of an empty result undefined; they are 0 here.\<close>

definition rect_intersect :: "rect \<Rightarrow> rect \<Rightarrow> rect" where
  "rect_intersect a b =
     (let a_xend = add32 (r_xmin a) (r_xsiz a); a_yend = add32 (r_ymin a) (r_ysiz a);
          b_xend = add32 (r_xmin b) (r_xsiz b); b_yend = add32 (r_ymin b) (r_ysiz b)
      in if a_xend \<le> r_xmin b \<or> a_yend \<le> r_ymin b \<or> b_xend \<le> r_xmin a \<or> b_yend \<le> r_ymin a
         then \<lparr>r_xmin = 0, r_ymin = 0, r_xsiz = 0, r_ysiz = 0\<rparr>
         else let xmin = max (r_xmin a) (r_xmin b); ymin = max (r_ymin a) (r_ymin b)
              in \<lparr>r_xmin = xmin, r_ymin = ymin,
                  r_xsiz = min a_xend b_xend - xmin, r_ysiz = min a_yend b_yend - ymin\<rparr>)"

text \<open>The rectangles that \<^verbatim>\<open>RECTS_FOREACH\<close> enumerates.\<close>

definition rects_foreach :: "rect_strip list \<Rightarrow> rect list" where
  "rects_foreach self = concat (map (\<lambda>s. map (\<lambda>b. \<lparr>r_xmin = rs_xmin s, r_ymin = rb_ymin b,
     r_xsiz = rs_xsiz s, r_ysiz = rb_ysiz b\<rparr>) (rs_blkv s)) self)"

section \<open>The invariant that the code asserts\<close>

fun blocks_assert :: "rect_block list \<Rightarrow> bool" where
  "blocks_assert [] \<longleftrightarrow> False"
| "blocks_assert [b] \<longleftrightarrow> rb_ymin b < 2 ^ 31 \<and> rb_ysiz b < 2 ^ 31 \<and> rb_ysiz b \<noteq> 0"
| "blocks_assert (b # c # bs) \<longleftrightarrow> rb_ymin b < 2 ^ 31 \<and> rb_ysiz b < 2 ^ 31 \<and> rb_ysiz b \<noteq> 0 \<and>
     rb_end b < rb_ymin c \<and> blocks_assert (c # bs)"

fun rects_assert :: "rect_strip list \<Rightarrow> bool" where
  "rects_assert [] \<longleftrightarrow> True"
| "rects_assert (s # ss) \<longleftrightarrow> rs_xmin s < 2 ^ 31 \<and> rs_xsiz s < 2 ^ 31 \<and> rs_xsiz s \<noteq> 0 \<and>
     (case ss of [] \<Rightarrow> True | n # _ \<Rightarrow> rs_end s \<le> rs_xmin n) \<and>
     blocks_assert (rs_blkv s) \<and> rects_assert ss"

section \<open>Strips\<close>

text \<open>The strip and the copy that follows it in the chain afterwards.\<close>

definition rects_split_strip :: "rect_strip \<Rightarrow> nat \<Rightarrow> (rect_strip \<times> rect_strip) result" where
  "rects_split_strip self off = rassert (off < rs_xsiz self)
     (Inr (self\<lparr>rs_xsiz := off\<rparr>,
           self\<lparr>rs_xmin := add32 (rs_xmin self) off, rs_xsiz := rs_xsiz self - off\<rparr>))"

text \<open>Merges a strip with the first of the strips that follow it; \<open>None\<close> if it cannot.\<close>

fun rects_split_merge_next :: "rect_strip \<Rightarrow> rect_strip list \<Rightarrow> (rect_strip \<times> rect_strip list) option" where
  "rects_split_merge_next self [] = None"
| "rects_split_merge_next self (nxt # ss) =
     (if rs_xmin nxt = rs_end self \<and> length (rs_blkv nxt) = length (rs_blkv self) \<and> rs_blkv nxt = rs_blkv self
      then Some (self\<lparr>rs_xsiz := add32 (rs_xsiz self) (rs_xsiz nxt)\<rparr>, ss) else None)"

text \<open>The same for the strip that \<^verbatim>\<open>piter\<close> is a link of, where there is one.\<close>

definition merge_pred :: "rect_strip list \<Rightarrow> rect_strip list \<Rightarrow> (rect_strip list \<times> rect_strip list) option" where
  "merge_pred pre rest = (case pre of [] \<Rightarrow> None
     | p # ps \<Rightarrow> map_option (\<lambda>(p', rest'). (p' # ps, rest')) (rects_split_merge_next p rest))"

section \<open>Blocks\<close>

definition rects_split_insert_block_at ::
  "rect_block list \<Rightarrow> nat \<Rightarrow> nat \<Rightarrow> nat \<Rightarrow> rect_block list result" where
  "rects_split_insert_block_at blkv index ymin ysiz =
     rassert (index \<le> length blkv)
     (rassert (index = length blkv \<or> add32 ymin ysiz < rb_ymin (blkv ! index))
     (rassert (index = 0 \<or> rb_end (blkv ! (index - 1)) < ymin)
     (Inr (take index blkv @ \<lparr>rb_ymin = ymin, rb_ysiz = ysiz\<rparr> # drop index blkv))))"

text \<open>
  One round of the loop over the blocks, which ends it with the blocks as they are then, or
  goes on at an index with what is left of the range.
\<close>

datatype block_step = Done "rect_block list" | Continue "rect_block list" nat nat nat

text \<open>The end of a round of the insertion, at a block that starts at or below \<open>ymin\<close>.\<close>

definition insert_block_extend ::
  "rect_block list \<Rightarrow> nat \<Rightarrow> rect_block \<Rightarrow> nat \<Rightarrow> nat \<Rightarrow> nat \<Rightarrow> block_step result" where
  "insert_block_extend blkv i b block_end ymin ysiz =
     (let nxt = blkv ! (i + 1) in
      rassert (2 \<le> length blkv \<and> i \<le> length blkv - 2 \<and> block_end < rb_ymin nxt)
       (let insert_height = min (rb_ymin nxt - block_end) ysiz;
            b = b\<lparr>rb_ysiz := add32 (rb_ysiz b) insert_height\<rparr>;
            block_end = add32 block_end insert_height;
            ymin = add32 ymin insert_height;
            ysiz = ysiz - insert_height
        in rassert (block_end = rb_end b \<and> block_end \<le> rb_ymin nxt)
           (if block_end = rb_ymin nxt
            then let b = b\<lparr>rb_ysiz := add32 (rb_ysiz b) (rb_ysiz nxt)\<rparr>;
                     blkv = take i blkv @ b # drop (i + 2) blkv
                 in Inr (if ysiz = 0 then Done blkv else Continue blkv i ymin ysiz)
            else Inr (if ysiz = 0 then Done (blkv[i := b]) else Continue (blkv[i := b]) (i + 1) ymin ysiz))))"

text \<open>A round from the treatment of the overlap on.\<close>

definition insert_block_overlap ::
  "rect_block list \<Rightarrow> nat \<Rightarrow> rect_block \<Rightarrow> nat \<Rightarrow> nat \<Rightarrow> nat \<Rightarrow> block_step result" where
  "insert_block_overlap blkv i b block_end ymin ysiz =
     rassert (rb_ymin b \<le> ymin)
     (let insert_height = block_end - ymin in
      if ysiz \<le> insert_height then Inr (Done blkv)
      else let ymin = add32 ymin insert_height; ysiz = ysiz - insert_height in
       rassert (ymin = block_end)
       (if i = length blkv - 1
        then Inr (Done (blkv[i := b\<lparr>rb_ysiz := add32 (rb_ysiz b) ysiz\<rparr>]))
        else insert_block_extend blkv i b block_end ymin ysiz))"

definition insert_block_step :: "rect_block list \<Rightarrow> nat \<Rightarrow> nat \<Rightarrow> nat \<Rightarrow> block_step result" where
  "insert_block_step blkv i ymin ysiz =
     (let b = blkv ! i; block_end = rb_end b in
      rassert (i = length blkv - 1 \<or> block_end < rb_ymin (blkv ! (i + 1)))
      (rassert (i = 0 \<or> rb_end (blkv ! (i - 1)) < rb_ymin b)
      (rassert (i = 0 \<or> rb_end (blkv ! (i - 1)) < ymin)
      (if block_end < ymin then Inr (Continue blkv (i + 1) ymin ysiz)
       else if ymin < rb_ymin b then
         if rb_ymin b \<le> add32 ymin ysiz
         then let insert_height = rb_ymin b - ymin;
                  b = \<lparr>rb_ymin = rb_ymin b - insert_height, rb_ysiz = add32 (rb_ysiz b) insert_height\<rparr>
              in insert_block_overlap (blkv[i := b]) i b block_end ymin ysiz
         else rbind (rects_split_insert_block_at blkv i ymin ysiz) (\<lambda>blkv. Inr (Done blkv))
       else insert_block_overlap blkv i b block_end ymin ysiz))))"

lemma insert_block_extend_measure:
  assumes "insert_block_extend blkv i b block_end ymin ysiz = Inr (Continue blkv' i' ymin' ysiz')"
  shows "length blkv' - i' < length blkv - i"
  using assms unfolding insert_block_extend_def Let_def rassert_eq_Inr_iff
  by (elim conjE, thin_tac "_ = rb_end _") (auto split: if_split_asm intro!: diff_less_mono2)

lemma insert_block_overlap_measure:
  assumes "insert_block_overlap blkv i b block_end ymin ysiz = Inr (Continue blkv' i' ymin' ysiz')"
  shows "length blkv' - i' < length blkv - i"
  using assms unfolding insert_block_overlap_def Let_def
  by (simp add: rassert_eq_Inr_iff split: if_split_asm) (rule insert_block_extend_measure, blast)

lemma insert_block_step_measure:
  assumes "insert_block_step blkv i ymin ysiz = Inr (Continue blkv' i' ymin' ysiz')" "i < length blkv"
  shows "length blkv' - i' < length blkv - i"
  using assms unfolding insert_block_step_def Let_def
  by (auto simp: rassert_eq_Inr_iff rbind_eq_Inr_iff split: if_split_asm dest!: insert_block_overlap_measure)

function insert_block_loop :: "rect_block list \<Rightarrow> nat \<Rightarrow> nat \<Rightarrow> nat \<Rightarrow> rect_block list result" where
  "insert_block_loop blkv i ymin ysiz =
     (if i < length blkv then
        rbind (insert_block_step blkv i ymin ysiz) (\<lambda>st. case st of
            Done blkv' \<Rightarrow> Inr blkv'
          | Continue blkv' i' ymin' ysiz' \<Rightarrow> insert_block_loop blkv' i' ymin' ysiz')
      else rassert (i = length blkv) (Inr (blkv @ [\<lparr>rb_ymin = ymin, rb_ysiz = ysiz\<rparr>])))"
  by pat_completeness auto
termination
  by (relation "measure (\<lambda>(blkv, i, ymin, ysiz). length blkv - i)") (auto dest: insert_block_step_measure)

declare insert_block_loop.simps [simp del]

definition rects_split_insert_block :: "rect_strip \<Rightarrow> nat \<Rightarrow> nat \<Rightarrow> rect_strip result" where
  "rects_split_insert_block self ymin ysiz = rassert (ysiz \<noteq> 0)
     (rbind (insert_block_loop (rs_blkv self) 0 ymin ysiz) (\<lambda>blkv. Inr (self\<lparr>rs_blkv := blkv\<rparr>)))"

definition remove_block_step :: "rect_block list \<Rightarrow> nat \<Rightarrow> nat \<Rightarrow> nat \<Rightarrow> block_step result" where
  "remove_block_step blkv i ymin ysiz =
     (let b = blkv ! i; block_end = rb_end b in
      rassert (i = length blkv - 1 \<or> block_end < rb_ymin (blkv ! (i + 1)))
      (if block_end \<le> ymin then Inr (Continue blkv (i + 1) ymin ysiz)
       else if rb_ymin b < ymin then
         let remove_height = block_end - ymin in
         if remove_height \<le> ysiz
         then let blkv = blkv[i := b\<lparr>rb_ysiz := rb_ysiz b - remove_height\<rparr>]
              in Inr (if ysiz - remove_height = 0 then Done blkv
                 else Continue blkv (i + 1) (add32 ymin remove_height) (ysiz - remove_height))
         else rassert (add32 ymin ysiz < block_end)
               (rbind (rects_split_insert_block_at (blkv[i := b\<lparr>rb_ysiz := ymin - rb_ymin b\<rparr>]) (i + 1)
                        (add32 ymin ysiz) (block_end - add32 ymin ysiz))
                 (\<lambda>blkv. Inr (Done blkv)))
       else if ymin < rb_ymin b \<and> ysiz \<le> rb_ymin b - ymin then Inr (Done blkv)
       else let remove_height = rb_ymin b - ymin;
                ysiz = (if ymin < rb_ymin b then ysiz - remove_height else ysiz);
                ymin = (if ymin < rb_ymin b then add32 ymin remove_height else ymin)
            in rassert (rb_ymin b = ymin)
               (if rb_ysiz b \<le> ysiz
                then let blkv = take i blkv @ drop (i + 1) blkv
                     in Inr (if ysiz - rb_ysiz b = 0 then Done blkv
                        else Continue blkv i (add32 ymin (rb_ysiz b)) (ysiz - rb_ysiz b))
                else Inr (Done (blkv[i := \<lparr>rb_ymin = add32 (rb_ymin b) ysiz, rb_ysiz = rb_ysiz b - ysiz\<rparr>])))))"

lemma remove_block_step_measure:
  assumes "remove_block_step blkv i ymin ysiz = Inr (Continue blkv' i' ymin' ysiz')" "i < length blkv"
  shows "length blkv' - i' < length blkv - i"
  using assms
  by (auto simp: remove_block_step_def Let_def rassert_def rbind_def split: if_splits sum.splits)

function remove_block_loop :: "rect_block list \<Rightarrow> nat \<Rightarrow> nat \<Rightarrow> nat \<Rightarrow> rect_block list result" where
  "remove_block_loop blkv i ymin ysiz =
     (if i < length blkv then
        rbind (remove_block_step blkv i ymin ysiz) (\<lambda>st. case st of
            Done blkv' \<Rightarrow> Inr blkv'
          | Continue blkv' i' ymin' ysiz' \<Rightarrow> remove_block_loop blkv' i' ymin' ysiz')
      else Inr blkv)"
  by pat_completeness auto
termination
  by (relation "measure (\<lambda>(blkv, i, ymin, ysiz). length blkv - i)") (auto dest: remove_block_step_measure)

declare remove_block_loop.simps [simp del]

definition rects_split_remove_block :: "rect_strip \<Rightarrow> nat \<Rightarrow> nat \<Rightarrow> rect_strip result" where
  "rects_split_remove_block self ymin ysiz = rassert (ysiz \<noteq> 0)
     (rbind (remove_block_loop (rs_blkv self) 0 ymin ysiz) (\<lambda>blkv. Inr (self\<lparr>rs_blkv := blkv\<rparr>)))"

section \<open>Inserting a rectangle\<close>

text \<open>
  One round of the loop over the strips ends the loop, or goes on at a link of the chain with
  what is left of the rectangle.
\<close>

datatype strip_step = Finished "rect_strip list" | Next "rect_strip list" "rect_strip list" rect

definition rect_advance :: "rect \<Rightarrow> nat \<Rightarrow> rect" where
  "rect_advance r w = r\<lparr>r_xmin := add32 (r_xmin r) w, r_xsiz := r_xsiz r - w\<rparr>"

text \<open>The common end of a round: the width is taken off the rectangle, and nothing is left or it goes on.\<close>

definition strip_round :: "rect_strip list \<Rightarrow> rect_strip list \<Rightarrow> rect \<Rightarrow> nat \<Rightarrow> strip_step result" where
  "strip_round pre rest r w = rassert (rects_assert (rev pre @ rest))
     (Inr (if r_xsiz r - w = 0 then Finished (rev pre @ rest) else Next pre rest (rect_advance r w)))"

text \<open>Splits a strip that is wider than \<open>w\<close> after this width.\<close>

definition split_width :: "rect_strip list \<Rightarrow> rect_strip \<Rightarrow> rect_strip list \<Rightarrow> nat \<Rightarrow>
    (rect_strip \<times> rect_strip list) result" where
  "split_width pre it ss w =
     (if w < rs_xsiz it
      then rbind (rects_split_strip it w) (\<lambda>(a, b). rassert (rects_assert (rev pre @ a # b # ss)) (Inr (a, b # ss)))
      else Inr (it, ss))"

text \<open>The merges of a changed strip with its neighbours.\<close>

definition merge_strip :: "rect_strip list \<Rightarrow> rect_strip \<Rightarrow> rect_strip list \<Rightarrow> rect \<Rightarrow> nat \<Rightarrow> strip_step result" where
  "merge_strip pre it ss r w =
     (case merge_pred pre (it # ss) of
        Some (pre1, rest1) \<Rightarrow>
          rassert (rects_assert (rev pre1 @ rest1))
          (case merge_pred pre1 rest1 of
             Some (pre2, rest2) \<Rightarrow> strip_round [] (rev pre2 @ rest2) r w
           | None \<Rightarrow> strip_round pre1 rest1 r w)
      | None \<Rightarrow> (case rects_split_merge_next it ss of
             Some (it1, ss1) \<Rightarrow> strip_round pre (it1 # ss1) r w
           | None \<Rightarrow> strip_round (it # pre) ss r w))"

definition insert_strip :: "rect_strip list \<Rightarrow> rect_strip \<Rightarrow> rect_strip list \<Rightarrow> nat \<Rightarrow> rect \<Rightarrow> strip_step result" where
  "insert_strip pre it ss strip_end r =
     rassert (r_xmin r = rs_xmin it \<and> rs_end it = strip_end)
     (let w = min (rs_xsiz it) (r_xsiz r) in
      rbind (split_width pre it ss w) (\<lambda>(it, ss).
      rassert (r_xmin r = rs_xmin it \<and> w = rs_xsiz it)
      (rassert (rects_assert (rev pre @ it # ss))
      (rbind (rects_split_insert_block it (r_ymin r) (r_ysiz r)) (\<lambda>it.
       rassert (rects_assert (rev pre @ it # ss)) (merge_strip pre it ss r w))))))"

definition rects_insert_step :: "rect_strip list \<Rightarrow> rect_strip \<Rightarrow> rect_strip list \<Rightarrow> rect \<Rightarrow> strip_step result" where
  "rects_insert_step pre it ss r =
     rassert (rects_assert (rev pre @ it # ss))
     (let strip_end = rs_end it in
      if strip_end \<le> r_xmin r then Inr (Next (it # pre) ss r)
      else if r_xmin r < rs_xmin it then
        let w = min (rs_xmin it - r_xmin r) (r_xsiz r);
            new = \<lparr>rs_xmin = r_xmin r, rs_xsiz = w, rs_blkv = [\<lparr>rb_ymin = r_ymin r, rb_ysiz = r_ysiz r\<rparr>]\<rparr>
        in rassert (w \<noteq> 0)
           (rassert (rects_assert (rev pre @ new # it # ss))
           (if r_xsiz r - w = 0
            then let rest = (case rects_split_merge_next new (it # ss) of Some (n, ns) \<Rightarrow> n # ns | None \<Rightarrow> new # it # ss);
                     (pre, rest) = (case merge_pred pre rest of Some z \<Rightarrow> z | None \<Rightarrow> (pre, rest))
                 in rassert (rects_assert (rev pre @ rest)) (Inr (Finished (rev pre @ rest)))
            else let (pre, rest) = (case merge_pred pre (new # it # ss) of Some z \<Rightarrow> z | None \<Rightarrow> (new # pre, it # ss))
                 in rassert (rects_assert (rev pre @ rest))
                    (insert_strip pre (hd rest) (tl rest) strip_end (rect_advance r w))))
      else if rs_xmin it < r_xmin r
      then rbind (rects_split_strip it (r_xmin r - rs_xmin it)) (\<lambda>(a, b).
             rassert (rects_assert (rev pre @ a # b # ss)) (insert_strip (a # pre) b ss strip_end r))
      else insert_strip pre it ss strip_end r)"

definition rects_append :: "rect_strip list \<Rightarrow> rect \<Rightarrow> rect_strip list result" where
  "rects_append pre r =
     (let new = \<lparr>rs_xmin = r_xmin r, rs_xsiz = r_xsiz r, rs_blkv = [\<lparr>rb_ymin = r_ymin r, rb_ysiz = r_ysiz r\<rparr>]\<rparr>
      in rassert (rects_assert (rev pre))
         (rassert (r_xmin r < 2 ^ 31 \<and> r_ymin r < 2 ^ 31)
         (rassert (rects_assert (rev pre @ [new]))
         (case merge_pred pre [new] of
            Some (pre1, rest1) \<Rightarrow> Inr (rev pre1 @ rest1)
          | None \<Rightarrow> Inr (rev pre @ [new])))))"

lemma strip_round_Next:
  "strip_round pre rest r w = Inr (Next pre' rest' r') \<Longrightarrow> r' = rect_advance r w \<and> w < r_xsiz r"
  by (auto simp: strip_round_def rassert_eq_Inr_iff split: if_splits)

lemma merge_strip_Next:
  "merge_strip pre it ss r w = Inr (Next pre' rest' r') \<Longrightarrow> r' = rect_advance r w \<and> w < r_xsiz r"
  by (auto simp: merge_strip_def rassert_eq_Inr_iff split: option.splits dest: strip_round_Next)

lemma rects_assert_width: "rects_assert (xs @ it # ys) \<Longrightarrow> rs_xsiz it \<noteq> 0"
  by (induction xs) auto

lemma insert_strip_Next:
  assumes "insert_strip pre it ss e r = Inr (Next pre' rest' r')"
  shows "r_xsiz r' < r_xsiz r"
  using assms unfolding insert_strip_def Let_def
  by (auto simp: rassert_eq_Inr_iff rbind_eq_Inr_iff rect_advance_def dest!: merge_strip_Next rects_assert_width)

lemma rects_insert_step_Next:
  assumes "rects_insert_step pre it ss r = Inr (Next pre' rest' r')"
  shows "r_xsiz r' < r_xsiz r \<or> r' = r \<and> rest' = ss"
  using assms unfolding rects_insert_step_def Let_def
  by (auto simp: rassert_eq_Inr_iff rbind_eq_Inr_iff rect_advance_def split: if_split_asm prod.splits
      dest!: insert_strip_Next)

function rects_insert_loop :: "rect_strip list \<Rightarrow> rect_strip list \<Rightarrow> rect \<Rightarrow> rect_strip list result" where
  "rects_insert_loop pre rest r = (case rest of
       [] \<Rightarrow> rects_append pre r
     | it # ss \<Rightarrow> rbind (rects_insert_step pre it ss r) (\<lambda>st. case st of
           Finished self \<Rightarrow> Inr self
         | Next pre' rest' r' \<Rightarrow> rects_insert_loop pre' rest' r'))"
  by pat_completeness auto
termination
  by (relation "measures [\<lambda>(pre, rest, r). r_xsiz r, \<lambda>(pre, rest, r). length rest]")
    (auto dest: rects_insert_step_Next)

declare rects_insert_loop.simps [simp del]

definition rects_insert :: "rect_strip list \<Rightarrow> rect \<Rightarrow> rect_strip list result" where
  "rects_insert self r = rassert (rects_assert self)
     (if r_xsiz r = 0 \<or> r_ysiz r = 0 then Inr self
      else rassert (r_xmin r < 2 ^ 31 \<and> r_ymin r < 2 ^ 31)
        (rbind (rects_insert_loop [] self r) (\<lambda>self. rassert (rects_assert self) (Inr self))))"

section \<open>Removing a rectangle\<close>

definition remove_strip :: "rect_strip list \<Rightarrow> rect_strip \<Rightarrow> rect_strip list \<Rightarrow> rect \<Rightarrow> strip_step result" where
  "remove_strip pre it ss r =
     rassert (r_xmin r = rs_xmin it)
     (let w = min (rs_xsiz it) (r_xsiz r) in
      rbind (split_width pre it ss w) (\<lambda>(it, ss).
      rassert (rects_assert (rev pre @ it # ss))
      (rbind (rects_split_remove_block it (r_ymin r) (r_ysiz r)) (\<lambda>it.
       if rs_blkv it = [] then strip_round pre ss r w
       else rassert (rects_assert (rev pre @ it # ss)) (merge_strip pre it ss r w)))))"

definition rects_remove_step :: "rect_strip list \<Rightarrow> rect_strip \<Rightarrow> rect_strip list \<Rightarrow> rect \<Rightarrow> strip_step result" where
  "rects_remove_step pre it ss r =
     rassert (rects_assert (rev pre @ it # ss))
     (let strip_end = rs_end it in
      if strip_end \<le> r_xmin r then Inr (Next (it # pre) ss r)
      else if r_xmin r < rs_xmin it then
        let w = min (rs_xmin it - r_xmin r) (r_xsiz r) in
        if r_xsiz r - w = 0 then Inr (Finished (rev pre @ it # ss))
        else remove_strip pre it ss (rect_advance r w)
      else if rs_xmin it < r_xmin r
      then rbind (rects_split_strip it (r_xmin r - rs_xmin it)) (\<lambda>(a, b).
             rassert (rects_assert (rev pre @ a # b # ss)) (remove_strip (a # pre) b ss r))
      else remove_strip pre it ss r)"

lemma split_width_width:
  assumes "split_width pre it ss (min (rs_xsiz it) n) = Inr (it', ss')"
  shows "rs_xsiz it' = min (rs_xsiz it) n"
  using assms
  by (auto simp: split_width_def rects_split_strip_def rassert_eq_Inr_iff rbind_eq_Inr_iff split: if_splits)

lemma remove_strip_Next:
  assumes "remove_strip pre it ss r = Inr (Next pre' rest' r')"
  shows "r_xsiz r' < r_xsiz r"
  using assms unfolding remove_strip_def Let_def
  by (auto simp: rassert_eq_Inr_iff rbind_eq_Inr_iff rect_advance_def split: if_split_asm
      dest!: merge_strip_Next strip_round_Next split_width_width rects_assert_width)

lemma rects_remove_step_Next:
  assumes "rects_remove_step pre it ss r = Inr (Next pre' rest' r')"
  shows "r_xsiz r' < r_xsiz r \<or> r' = r \<and> rest' = ss"
  using assms unfolding rects_remove_step_def Let_def
  by (auto simp: rassert_eq_Inr_iff rbind_eq_Inr_iff rect_advance_def split: if_split_asm prod.splits
      dest!: remove_strip_Next)

function rects_remove_loop :: "rect_strip list \<Rightarrow> rect_strip list \<Rightarrow> rect \<Rightarrow> rect_strip list result" where
  "rects_remove_loop pre rest r = (case rest of
       [] \<Rightarrow> Inr (rev pre)
     | it # ss \<Rightarrow> rbind (rects_remove_step pre it ss r) (\<lambda>st. case st of
           Finished self \<Rightarrow> Inr self
         | Next pre' rest' r' \<Rightarrow> rects_remove_loop pre' rest' r'))"
  by pat_completeness auto
termination
  by (relation "measures [\<lambda>(pre, rest, r). r_xsiz r, \<lambda>(pre, rest, r). length rest]")
    (auto dest: rects_remove_step_Next)

declare rects_remove_loop.simps [simp del]

definition rects_remove :: "rect_strip list \<Rightarrow> rect \<Rightarrow> rect_strip list result" where
  "rects_remove self r = rassert (rects_assert self)
     (if r_xsiz r = 0 \<or> r_ysiz r = 0 then Inr self
      else rbind (rects_remove_loop [] self r) (\<lambda>self. rassert (rects_assert self) (Inr self)))"

section \<open>Moving\<close>

definition add_offset :: "nat \<Rightarrow> int \<Rightarrow> nat" where
  "add_offset a d = nat ((int a + d) mod 2 ^ 32)"

definition move_strip :: "rect_strip \<Rightarrow> int \<Rightarrow> int \<Rightarrow> rect_strip" where
  "move_strip s dx dy = s\<lparr>rs_xmin := add_offset (rs_xmin s) dx,
     rs_blkv := (if dy = 0 then rs_blkv s
       else map (\<lambda>b. b\<lparr>rb_ymin := add_offset (rb_ymin b) dy\<rparr>) (rs_blkv s))\<rparr>"

definition rects_duplicate_and_move :: "rect_strip list \<Rightarrow> int \<Rightarrow> int \<Rightarrow> rect_strip list" where
  "rects_duplicate_and_move src dx dy = map (\<lambda>s. move_strip s dx dy) src"

definition rects_move :: "rect_strip list \<Rightarrow> int \<Rightarrow> int \<Rightarrow> rect_strip list result" where
  "rects_move self dx dy = rassert (rects_assert self)
     (let self = map (\<lambda>s. move_strip s dx dy) self in rassert (rects_assert self) (Inr self))"

end
