(* ===== verification/Rects_Blocks.thy ===== *)
theory Rects_Blocks
  imports Rects
begin

text \<open>
  The blocks of one strip of a set of pixels of the window manager: their invariant is kept,
  no assertion fails and no sum of coordinates wraps as long as all coordinates are below
  \<open>2 ^ 31\<close>, inserting a rectangle adds exactly its pixels, and removing one takes
  exactly its pixels away.
\<close>

section \<open>Blocks\<close>

definition bend :: "rect_block \<Rightarrow> nat" where
  "bend b = rb_ymin b + rb_ysiz b"

definition blk_pix :: "rect_block list \<Rightarrow> nat set" where
  "blk_pix bs = (\<Union>b\<in>set bs. {rb_ymin b..<bend b})"

definition blocks_wf :: "nat \<Rightarrow> rect_block list \<Rightarrow> bool" where
  "blocks_wf B bs \<longleftrightarrow> sorted_wrt (\<lambda>a b. bend a < rb_ymin b) bs \<and>
     list_all (\<lambda>b. rb_ysiz b \<noteq> 0 \<and> bend b \<le> B) bs"

lemma blk_pix_simps [simp]:
  "blk_pix [] = {}" "blk_pix (b # bs) = {rb_ymin b..<bend b} \<union> blk_pix bs"
  "blk_pix (xs @ ys) = blk_pix xs \<union> blk_pix ys"
  by (auto simp: blk_pix_def)

lemma rb_end_eq: "bend b < 2 ^ 32 \<Longrightarrow> rb_end b = bend b"
  by (simp add: rb_end_def bend_def)

lemma blocks_wf_append:
  "blocks_wf B (xs @ b # ys) \<longleftrightarrow> blocks_wf B xs \<and> blocks_wf B ys \<and> rb_ysiz b \<noteq> 0 \<and> bend b \<le> B \<and>
     (\<forall>x\<in>set xs. bend x < rb_ymin b) \<and> (\<forall>y\<in>set ys. bend b < rb_ymin y) \<and>
     (\<forall>x\<in>set xs. \<forall>y\<in>set ys. bend x < rb_ymin y)"
  by (auto simp: blocks_wf_def sorted_wrt_append)

lemma blocks_wf_Nil [simp]: "blocks_wf B []"
  by (simp add: blocks_wf_def)

lemma blocks_wf_Cons:
  "blocks_wf B (b # ys) \<longleftrightarrow> blocks_wf B ys \<and> rb_ysiz b \<noteq> 0 \<and> bend b \<le> B \<and> (\<forall>y\<in>set ys. bend b < rb_ymin y)"
  using blocks_wf_append [of B "[]" b ys] by simp

lemma blocks_wf_blocks_assert:
  assumes "B < 2 ^ 31"
  shows "blocks_wf B bs \<Longrightarrow> bs \<noteq> [] \<Longrightarrow> blocks_assert bs"
proof (induction bs rule: blocks_assert.induct)
  case (3 b c bs)
  then have "bend b < 2 ^ 31" using assms by (simp add: blocks_wf_Cons)
  with 3 show ?case by (auto simp: blocks_wf_Cons rb_end_eq bend_def)
qed (use assms in \<open>auto simp: blocks_wf_Cons bend_def\<close>)

text \<open>What a round of a loop over the blocks has to establish: \<open>P\<close> is the goal for the final blocks.\<close>

definition block_step_ok :: "nat \<Rightarrow> (rect_block list \<Rightarrow> nat \<Rightarrow> nat \<Rightarrow> nat \<Rightarrow> bool) \<Rightarrow>
    (rect_block list \<Rightarrow> bool) \<Rightarrow> block_step result \<Rightarrow> bool" where
  "block_step_ok B I P r \<longleftrightarrow> (case r of Inr (Done bs) \<Rightarrow> blocks_wf B bs \<and> P bs
     | Inr (Continue bs i y s) \<Rightarrow> I bs i y s | Inl e \<Rightarrow> False)"

lemma block_step_ok_simps [simp]:
  "block_step_ok B I P (Inr (Done bs)) \<longleftrightarrow> blocks_wf B bs \<and> P bs"
  "block_step_ok B I P (Inr (Continue bs i y s)) \<longleftrightarrow> I bs i y s"
  "\<not> block_step_ok B I P (Inl e)"
  by (simp_all add: block_step_ok_def)

section \<open>Inserting into the blocks of a strip\<close>

text \<open>The invariant of the loop: what is left of the range lies above the blocks before the index.\<close>

definition insert_inv :: "nat \<Rightarrow> nat set \<Rightarrow> rect_block list \<Rightarrow> nat \<Rightarrow> nat \<Rightarrow> nat \<Rightarrow> bool" where
  "insert_inv B S bs i ymin ysiz \<longleftrightarrow> blocks_wf B bs \<and> i \<le> length bs \<and> (\<forall>b\<in>set (take i bs). bend b < ymin) \<and>
     ysiz \<noteq> 0 \<and> ymin + ysiz \<le> B \<and> blk_pix bs \<union> {ymin..<ymin + ysiz} = S"

lemma insert_block_at_ok:
  assumes "blocks_wf B (xs @ ys)" "\<forall>x\<in>set xs. bend x < ymin" "\<forall>y\<in>set ys. ymin + ysiz < rb_ymin y"
    and "ysiz \<noteq> 0" "ymin + ysiz \<le> B" "B < 2 ^ 31"
  shows "rects_split_insert_block_at (xs @ ys) (length xs) ymin ysiz =
      Inr (xs @ \<lparr>rb_ymin = ymin, rb_ysiz = ysiz\<rparr> # ys)"
    "blocks_wf B (xs @ \<lparr>rb_ymin = ymin, rb_ysiz = ysiz\<rparr> # ys)"
proof -
  have le: "bend x \<le> B" if "x \<in> set xs" for x
    using assms(1) that by (auto simp: blocks_wf_def list_all_iff)
  have "rb_end (last xs) < ymin" if "xs \<noteq> []"
    using that assms(2,6) le [of "last xs"] rb_end_eq [of "last xs"] by simp
  then have "length xs = 0 \<or> rb_end ((xs @ ys) ! (length xs - 1)) < ymin"
    by (cases "xs = []") (simp_all add: nth_append last_conv_nth)
  moreover have "length xs = length (xs @ ys) \<or> add32 ymin ysiz < rb_ymin ((xs @ ys) ! length xs)"
    using assms(3,5,6) by (cases ys) (simp_all add: nth_append)
  ultimately show "rects_split_insert_block_at (xs @ ys) (length xs) ymin ysiz =
      Inr (xs @ \<lparr>rb_ymin = ymin, rb_ysiz = ysiz\<rparr> # ys)"
    by (simp add: rects_split_insert_block_at_def)
  show "blocks_wf B (xs @ \<lparr>rb_ymin = ymin, rb_ysiz = ysiz\<rparr> # ys)"
    using assms by (auto simp: blocks_wf_append blocks_wf_def sorted_wrt_append bend_def)
qed

lemma insert_block_extend_ok:
  assumes wf: "blocks_wf B (xs @ b # c # ys)" and B: "B < 2 ^ 31"
    and y: "ysiz \<noteq> 0" "bend b + ysiz \<le> B"
  shows "block_step_ok B (insert_inv B (blk_pix (xs @ b # c # ys) \<union> {bend b..<bend b + ysiz}))
    (\<lambda>bs. blk_pix bs = blk_pix (xs @ b # c # ys) \<union> {bend b..<bend b + ysiz})
    (insert_block_extend (xs @ b # c # ys) (length xs) b (bend b) (bend b) ysiz)"
proof -
  have c: "bend b < rb_ymin c" "bend c \<le> B" "bend b \<le> B" "rb_ymin c < bend c" "rb_ymin b < bend b"
    using wf by (auto simp: blocks_wf_append blocks_wf_Cons bend_def)
  show ?thesis
  proof (cases "rb_ymin c - bend b \<le> ysiz")
    case True
    define d where "d = b\<lparr>rb_ysiz := bend c - rb_ymin b\<rparr>"
    define z where "z = ysiz - (rb_ymin c - bend b)"
    have d: "bend d = bend c" "rb_ymin d = rb_ymin b" "rb_ysiz d \<noteq> 0" using c by (auto simp: d_def bend_def)
    have run: "insert_block_extend (xs @ b # c # ys) (length xs) b (bend b) (bend b) ysiz =
        Inr (if z = 0 then Done (xs @ d # ys) else Continue (xs @ d # ys) (length xs) (rb_ymin c) z)"
      using c True B
      by (simp add: insert_block_extend_def Let_def nth_append min_def d_def z_def rb_end_def bend_def)
    have "blocks_wf B (xs @ d # ys)" using wf d c by (auto simp: blocks_wf_append blocks_wf_Cons)
    moreover have "blk_pix (xs @ d # ys) \<union> {rb_ymin c..<rb_ymin c + z} =
        blk_pix (xs @ b # c # ys) \<union> {bend b..<bend b + ysiz}"
      using c d True by (auto simp: z_def)
    moreover have "rb_ymin c + z \<le> B" using True c y by (simp add: z_def)
    moreover have "\<forall>x\<in>set xs. bend x < rb_ymin c" using wf by (auto simp: blocks_wf_append)
    ultimately show ?thesis unfolding run by (cases "z = 0") (simp_all add: insert_inv_def)
  next
    case False
    define d where "d = b\<lparr>rb_ysiz := rb_ysiz b + ysiz\<rparr>"
    have d: "bend d = bend b + ysiz" "rb_ymin d = rb_ymin b" "rb_ysiz d \<noteq> 0" using y by (auto simp: d_def bend_def)
    have "bend b + ysiz < rb_ymin c" using False c by simp
    then have run: "insert_block_extend (xs @ b # c # ys) (length xs) b (bend b) (bend b) ysiz =
        Inr (Done (xs @ d # c # ys))"
      using c False B y
      by (simp add: insert_block_extend_def Let_def nth_append min_def d_def rb_end_def bend_def)
    have "bend b + ysiz < rb_ymin z" if "z \<in> set (c # ys)" for z
      using that wf False c by (auto simp: blocks_wf_append blocks_wf_Cons)
    then have "blocks_wf B (xs @ d # c # ys)" using wf d y by (auto simp: blocks_wf_append blocks_wf_Cons)
    moreover have "blk_pix (xs @ d # c # ys) = blk_pix (xs @ b # c # ys) \<union> {bend b..<bend b + ysiz}"
      using d c by auto
    ultimately show ?thesis unfolding run by simp
  qed
qed

lemma insert_block_overlap_ok:
  assumes wf: "blocks_wf B (xs @ b # ys)" and B: "B < 2 ^ 31"
    and y: "ysiz \<noteq> 0" "ymin + ysiz \<le> B" "rb_ymin b \<le> ymin" "ymin \<le> bend b"
  shows "block_step_ok B (insert_inv B (blk_pix (xs @ b # ys) \<union> {ymin..<ymin + ysiz}))
    (\<lambda>bs. blk_pix bs = blk_pix (xs @ b # ys) \<union> {ymin..<ymin + ysiz})
    (insert_block_overlap (xs @ b # ys) (length xs) b (bend b) ymin ysiz)"
proof -
  have b: "bend b \<le> B" using wf by (simp add: blocks_wf_append)
  consider "ysiz \<le> bend b - ymin" | "\<not> ysiz \<le> bend b - ymin" "ys = []"
    | c zs where "\<not> ysiz \<le> bend b - ymin" "ys = c # zs" by (cases ys) auto
  then show ?thesis
  proof cases
    case 1
    then have "blk_pix (xs @ b # ys) = blk_pix (xs @ b # ys) \<union> {ymin..<ymin + ysiz}" using y by auto
    with 1 y wf show ?thesis by (simp add: insert_block_overlap_def)
  next
    case 2
    define d where "d = b\<lparr>rb_ysiz := rb_ysiz b + (ysiz - (bend b - ymin))\<rparr>"
    have d: "bend d = ymin + ysiz" "rb_ymin d = rb_ymin b" "rb_ysiz d \<noteq> 0"
      using y 2 by (auto simp: d_def bend_def)
    have "insert_block_overlap (xs @ b # ys) (length xs) b (bend b) ymin ysiz = Inr (Done (xs @ [d]))"
      using 2 y B b by (simp add: insert_block_overlap_def Let_def d_def bend_def)
    moreover have "blocks_wf B (xs @ [d])" using wf d y 2(2) by (auto simp: blocks_wf_append)
    moreover have "blk_pix (xs @ [d]) = blk_pix (xs @ b # ys) \<union> {ymin..<ymin + ysiz}" using d y 2 by auto
    ultimately show ?thesis by simp
  next
    case (3 c zs)
    let ?s = "ysiz - (bend b - ymin)"
    have "insert_block_overlap (xs @ b # ys) (length xs) b (bend b) ymin ysiz =
        insert_block_extend (xs @ b # c # zs) (length xs) b (bend b) (bend b) ?s"
      using 3 y B b by (simp add: insert_block_overlap_def Let_def)
    moreover have "{ymin..<ymin + ysiz} \<union> {rb_ymin b..<bend b} = {bend b..<bend b + ?s} \<union> {rb_ymin b..<bend b}"
      using 3 y by auto
    then have "blk_pix (xs @ b # ys) \<union> {ymin..<ymin + ysiz} = blk_pix (xs @ b # c # zs) \<union> {bend b..<bend b + ?s}"
      unfolding 3(2) blk_pix_simps by blast
    ultimately show ?thesis
      using insert_block_extend_ok [OF wf [unfolded 3(2)] B, of ?s] 3 y by simp
  qed
qed

lemma insert_block_step_ok:
  assumes inv: "insert_inv B S blkv i ymin ysiz" and i: "i < length blkv" and B: "B < 2 ^ 31"
  shows "block_step_ok B (insert_inv B S) (\<lambda>bs. blk_pix bs = S) (insert_block_step blkv i ymin ysiz)"
proof -
  define xs b ys where "xs = take i blkv" and "b = blkv ! i" and "ys = drop (i + 1) blkv"
  have l: "blkv = xs @ b # ys" "i = length xs"
    using i id_take_nth_drop [OF i] by (simp_all add: xs_def b_def ys_def)
  note inv' = inv [unfolded l insert_inv_def]
  have wf: "blocks_wf B (xs @ b # ys)" and y: "ysiz \<noteq> 0" "ymin + ysiz \<le> B"
    and below: "\<forall>x\<in>set xs. bend x < ymin" and S: "S = blk_pix (xs @ b # ys) \<union> {ymin..<ymin + ysiz}"
    using inv' by auto
  note w = wf [unfolded blocks_wf_append]
  have be: "rb_end x = bend x" if "x \<in> set xs \<union> {b}" for x
    using that w B by (intro rb_end_eq) (auto simp: blocks_wf_def list_all_iff)
  have a1: "length xs = length (xs @ b # ys) - 1 \<or> bend b < rb_ymin ((xs @ b # ys) ! (length xs + 1))"
    using w by (cases ys) (simp_all add: nth_append)
  have prev: "length xs = 0 \<or> (xs @ b # ys) ! (length xs - 1) \<in> set xs"
    by (cases "xs = []") (simp_all add: nth_append)
  have a2: "length xs = 0 \<or> rb_end ((xs @ b # ys) ! (length xs - 1)) < rb_ymin b"
    "length xs = 0 \<or> rb_end ((xs @ b # ys) ! (length xs - 1)) < ymin"
    using prev w below be by auto
  have ext: "ymin < rb_ymin b \<Longrightarrow> add32 (rb_ysiz b) (rb_ymin b - ymin) = bend b - ymin"
  proof -
    have "rb_ymin b + rb_ysiz b < 2 ^ 31" using w B by (simp add: bend_def)
    then show "ymin < rb_ymin b \<Longrightarrow> add32 (rb_ysiz b) (rb_ymin b - ymin) = bend b - ymin"
      by (subst add32_eq) (simp_all add: bend_def)
  qed
  have e: "insert_block_step blkv i ymin ysiz =
      (if bend b < ymin then Inr (Continue (xs @ b # ys) (length xs + 1) ymin ysiz)
       else if ymin < rb_ymin b then
         if rb_ymin b \<le> ymin + ysiz
         then let d = \<lparr>rb_ymin = ymin, rb_ysiz = bend b - ymin\<rparr>
              in insert_block_overlap (xs @ d # ys) (length xs) d (bend b) ymin ysiz
         else rbind (rects_split_insert_block_at (xs @ b # ys) (length xs) ymin ysiz) (\<lambda>blkv. Inr (Done blkv))
       else insert_block_overlap (xs @ b # ys) (length xs) b (bend b) ymin ysiz)"
    using a1 a2 be [of b] y B ext by (simp add: l insert_block_step_def Let_def)
  consider "bend b < ymin" | "ymin < rb_ymin b" "rb_ymin b \<le> ymin + ysiz"
    | "ymin < rb_ymin b" "ymin + ysiz < rb_ymin b" | "rb_ymin b \<le> ymin" "ymin \<le> bend b" by linarith
  then show ?thesis
  proof cases
    case 1
    with inv' below show ?thesis unfolding e by (simp add: insert_inv_def)
  next
    case 2
    define d where "d = \<lparr>rb_ymin = ymin, rb_ysiz = bend b - ymin\<rparr>"
    have lt: "\<not> bend b < ymin" using 2 by (simp add: bend_def)
    then have d: "bend d = bend b" "rb_ymin d = ymin" "rb_ysiz d \<noteq> 0" using 2 by (auto simp: d_def bend_def)
    have wfd: "blocks_wf B (xs @ d # ys)" using w d below by (auto simp: blocks_wf_append)
    have "insert_block_step blkv i ymin ysiz = insert_block_overlap (xs @ d # ys) (length xs) d (bend d) ymin ysiz"
      unfolding e using 2 lt d(1) by (simp add: Let_def d_def)
    moreover have "{ymin..<bend b} \<union> {ymin..<ymin + ysiz} = {rb_ymin b..<bend b} \<union> {ymin..<ymin + ysiz}"
      using 2 by auto
    then have "S = blk_pix (xs @ d # ys) \<union> {ymin..<ymin + ysiz}"
      unfolding S blk_pix_simps d(1,2) by blast
    ultimately show ?thesis using insert_block_overlap_ok [OF wfd B y] d lt by simp
  next
    case 3
    then have "\<not> bend b < ymin" by (simp add: bend_def)
    moreover have "\<forall>z\<in>set (b # ys). ymin + ysiz < rb_ymin z" using 3 w by (auto simp: bend_def)
    note at = insert_block_at_ok [OF wf below this y B]
    moreover have "blk_pix (xs @ \<lparr>rb_ymin = ymin, rb_ysiz = ysiz\<rparr> # b # ys) = S"
      unfolding S by (auto simp: bend_def)
    ultimately show ?thesis unfolding e using 3 by simp
  next
    case 4
    with insert_block_overlap_ok [OF wf B y 4] show ?thesis unfolding e S by simp
  qed
qed

lemma insert_block_loop_ok:
  assumes "B < 2 ^ 31"
  shows "insert_inv B S blkv i ymin ysiz \<Longrightarrow>
    \<exists>bs. insert_block_loop blkv i ymin ysiz = Inr bs \<and> blocks_wf B bs \<and> blk_pix bs = S"
proof (induction blkv i ymin ysiz rule: insert_block_loop.induct)
  case (1 blkv i ymin ysiz)
  show ?case
  proof (cases "i < length blkv")
    case True
    from insert_block_step_ok [OF "1.prems" True assms]
    show ?thesis
      by (subst insert_block_loop.simps)
        (auto simp: True block_step_ok_def split: sum.splits block_step.splits intro: "1.IH" [OF True])
  next
    case False
    with "1.prems" have wf: "blocks_wf B (blkv @ [])" "\<forall>b\<in>set blkv. bend b < ymin" "i = length blkv"
      by (auto simp: insert_inv_def)
    with insert_block_at_ok(2) [OF wf(1,2), of ysiz] "1.prems" assms show ?thesis
      by (subst insert_block_loop.simps) (auto simp: insert_inv_def bend_def)
  qed
qed

lemma rects_split_insert_block_ok:
  assumes "B < 2 ^ 31" "blocks_wf B (rs_blkv s)" "ysiz \<noteq> 0" "ymin + ysiz \<le> B"
  shows "\<exists>bs. rects_split_insert_block s ymin ysiz = Inr (s\<lparr>rs_blkv := bs\<rparr>) \<and> blocks_wf B bs \<and> bs \<noteq> [] \<and>
    blk_pix bs = blk_pix (rs_blkv s) \<union> {ymin..<ymin + ysiz}"
proof -
  have "insert_inv B (blk_pix (rs_blkv s) \<union> {ymin..<ymin + ysiz}) (rs_blkv s) 0 ymin ysiz"
    using assms by (simp add: insert_inv_def)
  from insert_block_loop_ok [OF assms(1) this] assms(3) show ?thesis
    by (auto simp: rects_split_insert_block_def)
qed

section \<open>Removing from the blocks of a strip\<close>

definition remove_inv :: "nat \<Rightarrow> nat set \<Rightarrow> rect_block list \<Rightarrow> nat \<Rightarrow> nat \<Rightarrow> nat \<Rightarrow> bool" where
  "remove_inv B S bs i ymin ysiz \<longleftrightarrow> blocks_wf B bs \<and> i \<le> length bs \<and> (\<forall>b\<in>set (take i bs). bend b \<le> ymin) \<and>
     ysiz \<noteq> 0 \<and> ymin + ysiz < 2 ^ 32 \<and> blk_pix bs - {ymin..<ymin + ysiz} = S"

text \<open>The pixels of the blocks below and above a block stay clear of it.\<close>

lemma blk_pix_bounds:
  assumes "blocks_wf B (xs @ b # ys)"
  shows "y \<in> blk_pix xs \<Longrightarrow> y < rb_ymin b" "y \<in> blk_pix ys \<Longrightarrow> bend b < y" "y \<in> blk_pix ys \<Longrightarrow> \<not> y < bend b"
  using assms by (fastforce simp: blocks_wf_append blk_pix_def bend_def)+

lemma blk_pix_diff_eqI:
  assumes wf: "blocks_wf B (xs @ b # ys)" and lower: "\<forall>x\<in>set xs. bend x \<le> l"
    and mid: "\<And>y. \<lbrakk>y \<in> blk_pix xs \<longrightarrow> y < l; y \<in> blk_pix ys \<longrightarrow> bend b < y\<rbrakk> \<Longrightarrow>
      (y \<in> blk_pix xs \<or> y \<in> M \<or> y \<in> blk_pix ys) \<and> \<not> (c \<le> y \<and> y < d) \<longleftrightarrow>
      (y \<in> blk_pix xs \<or> rb_ymin b \<le> y \<and> y < bend b \<or> y \<in> blk_pix ys) \<and> \<not> (p \<le> y \<and> y < q)"
  shows "(blk_pix xs \<union> (M \<union> blk_pix ys)) - {c..<d} = blk_pix (xs @ b # ys) - {p..<q}"
proof (rule set_eqI)
  fix y
  have "y \<in> blk_pix xs \<longrightarrow> y < l" using lower by (fastforce simp: blk_pix_def)
  moreover have "y \<in> blk_pix ys \<longrightarrow> bend b < y" using blk_pix_bounds(2) [OF wf] by blast
  ultimately show "y \<in> (blk_pix xs \<union> (M \<union> blk_pix ys)) - {c..<d} \<longleftrightarrow> y \<in> blk_pix (xs @ b # ys) - {p..<q}"
    using mid [of y] by simp
qed

lemma remove_block_inside_ok:
  assumes wf: "blocks_wf B (xs @ b # ys)" and B: "B < 2 ^ 31" and y: "ysiz \<noteq> 0" "ymin + ysiz < 2 ^ 32"
    and ins: "rb_ymin b < ymin" "ymin < bend b"
  defines "S \<equiv> blk_pix (xs @ b # ys) - {ymin..<ymin + ysiz}"
  shows "block_step_ok B (remove_inv B S) (\<lambda>bs. blk_pix bs = S) (remove_block_step (xs @ b # ys) (length xs) ymin ysiz)"
proof -
  note w = wf [unfolded blocks_wf_append]
  have be: "rb_end b = bend b" using w B by (intro rb_end_eq) simp
  have lower: "\<forall>x\<in>set xs. bend x \<le> rb_ymin b" using w by auto
  have a1: "length xs = length (xs @ b # ys) - 1 \<or> bend b < rb_ymin ((xs @ b # ys) ! (length xs + 1))"
    using w by (cases ys) (simp_all add: nth_append)
  define d where "d = b\<lparr>rb_ysiz := ymin - rb_ymin b\<rparr>"
  have d: "bend d = ymin" "rb_ymin d = rb_ymin b" "rb_ysiz d \<noteq> 0" using ins by (auto simp: d_def bend_def)
  have wfd: "blocks_wf B (xs @ d # ys)" using w d ins by (auto simp: blocks_wf_append)
  have trim: "rb_ysiz b - (bend b - ymin) = ymin - rb_ymin b" using ins by (simp add: bend_def)
  show ?thesis
  proof (cases "bend b - ymin \<le> ysiz")
    case True
    let ?z = "ysiz - (bend b - ymin)"
    have run: "remove_block_step (xs @ b # ys) (length xs) ymin ysiz =
        Inr (if ?z = 0 then Done (xs @ d # ys) else Continue (xs @ d # ys) (length xs + 1) (bend b) ?z)"
      using a1 be ins True B w trim by (simp add: remove_block_step_def Let_def d_def)
    have "blk_pix (xs @ d # ys) - {bend b..<bend b + ?z} = S"
      unfolding S_def blk_pix_simps(2) [of d] blk_pix_simps(3) [of xs "d # ys"]
      by (rule blk_pix_diff_eqI [OF wf lower]) (use d ins True in auto)
    with wfd True y ins w run d show ?thesis
      by (cases "?z = 0") (auto simp: remove_inv_def blocks_wf_append)
  next
    case False
    let ?n = "\<lparr>rb_ymin = ymin + ysiz, rb_ysiz = bend b - (ymin + ysiz)\<rparr>"
    have below: "\<forall>x\<in>set (xs @ [d]). bend x < ymin + ysiz" using w d y ins by auto
    have above: "\<forall>z\<in>set ys. ymin + ysiz + (bend b - (ymin + ysiz)) < rb_ymin z" using w False by auto
    have "bend b - (ymin + ysiz) \<noteq> 0" "ymin + ysiz + (bend b - (ymin + ysiz)) \<le> B" using False w by auto
    note at = insert_block_at_ok [OF _ below above this B]
    have run: "remove_block_step (xs @ b # ys) (length xs) ymin ysiz = Inr (Done (xs @ d # ?n # ys))"
      using a1 be ins False B w y at(1) wfd by (simp add: remove_block_step_def Let_def d_def rassert_def)
    have "blk_pix xs \<union> ({rb_ymin b..<ymin} \<union> {ymin + ysiz..<bend b} \<union> blk_pix ys) - {0..<0} = S"
      unfolding S_def by (rule blk_pix_diff_eqI [OF wf lower]) (use ins False in auto)
    then have "blk_pix (xs @ d # ?n # ys) = S" using d False by (simp add: bend_def [of ?n] Un_assoc)
    with at(2) wfd run show ?thesis by simp
  qed
qed

lemma remove_block_front_ok:
  assumes wf: "blocks_wf B (xs @ b # ys)" and B: "B < 2 ^ 31" and y: "ysiz \<noteq> 0" "ymin + ysiz < 2 ^ 32"
    and below: "\<forall>x\<in>set xs. bend x \<le> ymin" and ins: "ymin \<le> rb_ymin b"
  defines "S \<equiv> blk_pix (xs @ b # ys) - {ymin..<ymin + ysiz}"
  shows "block_step_ok B (remove_inv B S) (\<lambda>bs. blk_pix bs = S) (remove_block_step (xs @ b # ys) (length xs) ymin ysiz)"
proof -
  note w = wf [unfolded blocks_wf_append]
  have be: "rb_end b = bend b" using w B by (intro rb_end_eq) simp
  have le: "rb_ymin b < bend b" using w by (simp add: bend_def)
  have a1: "length xs = length (xs @ b # ys) - 1 \<or> bend b < rb_ymin ((xs @ b # ys) ! (length xs + 1))"
    using w by (cases ys) (simp_all add: nth_append)
  have wfr: "blocks_wf B (xs @ ys)" using w by (auto simp: blocks_wf_def sorted_wrt_append)
  define z where "z = ysiz - (rb_ymin b - ymin)"
  consider "ymin < rb_ymin b" "ysiz \<le> rb_ymin b - ymin"
    | "\<not> (ymin < rb_ymin b \<and> ysiz \<le> rb_ymin b - ymin)" "rb_ysiz b \<le> z"
    | "\<not> (ymin < rb_ymin b \<and> ysiz \<le> rb_ymin b - ymin)" "z < rb_ysiz b" by linarith
  then show ?thesis
  proof cases
    case 1
    then have "remove_block_step (xs @ b # ys) (length xs) ymin ysiz = Inr (Done (xs @ b # ys))"
      using a1 be le by (simp add: remove_block_step_def Let_def)
    moreover have "blk_pix xs \<union> ({rb_ymin b..<bend b} \<union> blk_pix ys) - {0..<0} = S"
      unfolding S_def by (rule blk_pix_diff_eqI [OF wf below]) (use 1 le in auto)
    ultimately show ?thesis using wf by simp
  next
    case 2
    have run: "remove_block_step (xs @ b # ys) (length xs) ymin ysiz =
        Inr (if z - rb_ysiz b = 0 then Done (xs @ ys) else Continue (xs @ ys) (length xs) (bend b) (z - rb_ysiz b))"
      using a1 be le 2 ins B w unfolding z_def by (simp add: remove_block_step_def Let_def bend_def) auto
    have z: "bend b + (z - rb_ysiz b) = ymin + ysiz" using 2 ins by (auto simp: z_def bend_def)
    have "blk_pix xs \<union> ({} \<union> blk_pix ys) - {bend b..<bend b + (z - rb_ysiz b)} = S"
      unfolding S_def z by (rule blk_pix_diff_eqI [OF wf below]) (use ins le z in auto)
    moreover have "\<forall>x\<in>set xs. bend x \<le> bend b" using w le by (auto intro: order.strict_implies_order less_trans)
    ultimately show ?thesis using wfr run y z
      by (cases "z - rb_ysiz b = 0") (simp_all add: remove_inv_def)
  next
    case 3
    let ?n = "\<lparr>rb_ymin = rb_ymin b + z, rb_ysiz = rb_ysiz b - z\<rparr>"
    have z: "rb_ymin b + z = ymin + ysiz" using 3 ins by (auto simp: z_def)
    have run: "remove_block_step (xs @ b # ys) (length xs) ymin ysiz = Inr (Done (xs @ ?n # ys))"
      using a1 be le 3 ins B w unfolding z_def by (simp add: remove_block_step_def Let_def bend_def) auto
    have "blocks_wf B (xs @ ?n # ys)" using w 3 by (auto simp: blocks_wf_append bend_def)
    moreover have "blk_pix xs \<union> ({rb_ymin b + z..<bend b} \<union> blk_pix ys) - {0..<0} = S"
      unfolding S_def by (rule blk_pix_diff_eqI [OF wf below]) (use 3 ins le z in \<open>auto simp: bend_def\<close>)
    then have "blk_pix (xs @ ?n # ys) = S" using 3 by (simp add: bend_def)
    ultimately show ?thesis using run by simp
  qed
qed

lemma remove_block_step_ok:
  assumes inv: "remove_inv B S blkv i ymin ysiz" and i: "i < length blkv" and B: "B < 2 ^ 31"
  shows "block_step_ok B (remove_inv B S) (\<lambda>bs. blk_pix bs = S) (remove_block_step blkv i ymin ysiz)"
proof -
  define xs b ys where "xs = take i blkv" and "b = blkv ! i" and "ys = drop (i + 1) blkv"
  have l: "blkv = xs @ b # ys" "i = length xs"
    using i id_take_nth_drop [OF i] by (simp_all add: xs_def b_def ys_def)
  note inv' = inv [unfolded l remove_inv_def]
  have wf: "blocks_wf B (xs @ b # ys)" and y: "ysiz \<noteq> 0" "ymin + ysiz < 2 ^ 32"
    and below: "\<forall>x\<in>set xs. bend x \<le> ymin" and S: "S = blk_pix (xs @ b # ys) - {ymin..<ymin + ysiz}"
    using inv' by auto
  consider "bend b \<le> ymin" | "rb_ymin b < ymin" "ymin < bend b" | "ymin \<le> rb_ymin b" "ymin < bend b" by linarith
  then show ?thesis
  proof cases
    case 1
    have "rb_end b = bend b" using wf B by (intro rb_end_eq) (simp add: blocks_wf_append)
    moreover have "length xs = length (xs @ b # ys) - 1 \<or> bend b < rb_ymin ((xs @ b # ys) ! (length xs + 1))"
      using wf by (cases ys) (simp_all add: nth_append blocks_wf_append)
    ultimately have "remove_block_step blkv i ymin ysiz = Inr (Continue (xs @ b # ys) (length xs + 1) ymin ysiz)"
      using 1 by (simp add: l remove_block_step_def Let_def)
    with 1 inv' below show ?thesis by (simp add: remove_inv_def)
  next
    case 2
    with remove_block_inside_ok [OF wf B y] show ?thesis unfolding l S by simp
  next
    case 3
    with remove_block_front_ok [OF wf B y below] show ?thesis unfolding l S by simp
  qed
qed

lemma remove_block_loop_ok:
  assumes "B < 2 ^ 31"
  shows "remove_inv B S blkv i ymin ysiz \<Longrightarrow>
    \<exists>bs. remove_block_loop blkv i ymin ysiz = Inr bs \<and> blocks_wf B bs \<and> blk_pix bs = S"
proof (induction blkv i ymin ysiz rule: remove_block_loop.induct)
  case (1 blkv i ymin ysiz)
  show ?case
  proof (cases "i < length blkv")
    case True
    from remove_block_step_ok [OF "1.prems" True assms] show ?thesis
      by (subst remove_block_loop.simps)
        (auto simp: True block_step_ok_def split: sum.splits block_step.splits intro: "1.IH" [OF True])
  next
    case False
    with "1.prems" have "\<forall>b\<in>set blkv. bend b \<le> ymin" by (auto simp: remove_inv_def)
    then have "blk_pix blkv - {ymin..<ymin + ysiz} = blk_pix blkv" by (fastforce simp: blk_pix_def)
    with False "1.prems" show ?thesis by (subst remove_block_loop.simps) (simp add: remove_inv_def)
  qed
qed

lemma rects_split_remove_block_ok:
  assumes "B < 2 ^ 31" "blocks_wf B (rs_blkv s)" "ysiz \<noteq> 0" "ymin + ysiz < 2 ^ 32"
  shows "\<exists>bs. rects_split_remove_block s ymin ysiz = Inr (s\<lparr>rs_blkv := bs\<rparr>) \<and> blocks_wf B bs \<and>
    blk_pix bs = blk_pix (rs_blkv s) - {ymin..<ymin + ysiz}"
proof -
  have "remove_inv B (blk_pix (rs_blkv s) - {ymin..<ymin + ysiz}) (rs_blkv s) 0 ymin ysiz"
    using assms by (simp add: remove_inv_def)
  from remove_block_loop_ok [OF assms(1) this] assms(3) show ?thesis
    by (auto simp: rects_split_remove_block_def)
qed

end
