(* ===== verification/Rects_Props.thy ===== *)
theory Rects_Props
  imports Rects_Blocks
begin

text \<open>
  Correctness of the pixel sets of the window manager: the loops over the strips keep the
  invariant that the code asserts, inserting a rectangle adds exactly its pixels, and removing one
  takes exactly its pixels away; enumerating and moving a set.
\<close>

section \<open>Strips\<close>

definition send :: "rect_strip \<Rightarrow> nat" where
  "send s = rs_xmin s + rs_xsiz s"

definition strip_wf :: "nat \<Rightarrow> rect_strip \<Rightarrow> bool" where
  "strip_wf B s \<longleftrightarrow> rs_xsiz s \<noteq> 0 \<and> send s \<le> B \<and> rs_blkv s \<noteq> [] \<and> blocks_wf B (rs_blkv s)"

definition strips_wf :: "nat \<Rightarrow> rect_strip list \<Rightarrow> bool" where
  "strips_wf B ss \<longleftrightarrow> sorted_wrt (\<lambda>a b. send a \<le> rs_xmin b) ss \<and> list_all (strip_wf B) ss"

definition strip_pix :: "rect_strip \<Rightarrow> (nat \<times> nat) set" where
  "strip_pix s = {rs_xmin s..<send s} \<times> blk_pix (rs_blkv s)"

definition pix :: "rect_strip list \<Rightarrow> (nat \<times> nat) set" where
  "pix ss = (\<Union>s\<in>set ss. strip_pix s)"

definition rect_pix :: "rect \<Rightarrow> (nat \<times> nat) set" where
  "rect_pix r = {r_xmin r..<r_xmin r + r_xsiz r} \<times> {r_ymin r..<r_ymin r + r_ysiz r}"

lemma pix_simps [simp]:
  "pix [] = {}" "pix (s # ss) = strip_pix s \<union> pix ss" "pix (xs @ ys) = pix xs \<union> pix ys" "pix (rev xs) = pix xs"
  by (auto simp: pix_def)

lemma strips_wf_Nil [simp]: "strips_wf B []"
  by (simp add: strips_wf_def)

lemma strips_wf_append:
  "strips_wf B (xs @ ys) \<longleftrightarrow> strips_wf B xs \<and> strips_wf B ys \<and> (\<forall>x\<in>set xs. \<forall>y\<in>set ys. send x \<le> rs_xmin y)"
  by (auto simp: strips_wf_def sorted_wrt_append)

lemma strips_wf_Cons:
  "strips_wf B (s # ss) \<longleftrightarrow> strip_wf B s \<and> strips_wf B ss \<and> (\<forall>y\<in>set ss. send s \<le> rs_xmin y)"
  by (auto simp: strips_wf_def)

lemma rs_end_eq: "send s < 2 ^ 32 \<Longrightarrow> rs_end s = send s"
  by (simp add: rs_end_def send_def)

lemma strips_wf_assert:
  assumes "B < 2 ^ 31"
  shows "strips_wf B ss \<Longrightarrow> rects_assert ss"
proof (induction ss)
  case (Cons s ss)
  then have s: "strip_wf B s" by (simp add: strips_wf_Cons)
  then have "rs_end s = send s" using assms by (intro rs_end_eq) (simp add: strip_wf_def)
  moreover have "blocks_assert (rs_blkv s)" using s assms by (intro blocks_wf_blocks_assert) (auto simp: strip_wf_def)
  ultimately show ?case using Cons s assms by (auto simp: strips_wf_Cons strip_wf_def send_def split: list.splits)
qed simp

text \<open>Two adjacent strips have the shape and the pixels of the strips they replace.\<close>

definition same_pix :: "nat \<Rightarrow> rect_strip list \<Rightarrow> rect_strip list \<Rightarrow> bool" where
  "same_pix B xs ys \<longleftrightarrow> (strips_wf B xs \<longrightarrow> strips_wf B ys) \<and> pix ys = pix xs"

lemma split_strip_ok:
  assumes "strips_wf B (pre @ s # ss)" "B < 2 ^ 31" "0 < off" "off < rs_xsiz s"
  obtains a b where "rects_split_strip s off = Inr (a, b)" "strips_wf B (pre @ a # b # ss)"
    "pix (pre @ a # b # ss) = pix (pre @ s # ss)" "rs_xmin a = rs_xmin s" "rs_xsiz a = off"
    "rs_xmin b = rs_xmin s + off" "send b = send s" "rs_blkv a = rs_blkv s" "rs_blkv b = rs_blkv s"
proof
  let ?a = "s\<lparr>rs_xsiz := off\<rparr>" and ?b = "s\<lparr>rs_xmin := rs_xmin s + off, rs_xsiz := rs_xsiz s - off\<rparr>"
  have w: "strip_wf B s" using assms by (simp add: strips_wf_append strips_wf_Cons)
  then have "rs_xmin s + off < 2 ^ 32" using assms by (simp add: strip_wf_def send_def)
  then show "rects_split_strip s off = Inr (?a, ?b)" using assms by (simp add: rects_split_strip_def)
  have e: "send ?b = send s" "send ?a = rs_xmin s + off" using assms by (auto simp: send_def)
  then show "strips_wf B (pre @ ?a # ?b # ss)"
    using assms w by (auto simp: strips_wf_append strips_wf_Cons strip_wf_def send_def)
  have "{rs_xmin s..<send s} = {rs_xmin s..<rs_xmin s + off} \<union> {rs_xmin s + off..<send s}"
    using assms by (auto simp: send_def)
  then show "pix (pre @ ?a # ?b # ss) = pix (pre @ s # ss)"
    by (auto simp: strip_pix_def e)
qed (use assms in \<open>auto simp: send_def\<close>)

lemma merge_next_ok:
  assumes "rects_split_merge_next s ss = Some (s', ss')" "strips_wf B (pre @ s # ss)" "B < 2 ^ 31"
  shows "strips_wf B (pre @ s' # ss')" "pix (pre @ s' # ss') = pix (pre @ s # ss)" "rs_xmin s' = rs_xmin s"
proof -
  from assms(1) obtain n where ss: "ss = n # ss'" and n: "rs_xmin n = rs_end s" "rs_blkv n = rs_blkv s"
    and s': "s' = s\<lparr>rs_xsiz := add32 (rs_xsiz s) (rs_xsiz n)\<rparr>"
    by (cases ss) (auto split: if_splits)
  have w: "strip_wf B s" "strip_wf B n" using assms ss by (simp_all add: strips_wf_append strips_wf_Cons)
  then have e: "rs_end s = send s" using assms by (intro rs_end_eq) (simp add: strip_wf_def)
  have x: "rs_xsiz s' = rs_xsiz s + rs_xsiz n" "rs_xmin s' = rs_xmin s" "rs_blkv s' = rs_blkv s"
    using s' w assms n e by (auto simp: strip_wf_def send_def)
  then have z: "send s' = send n" using n e by (simp add: send_def)
  from assms(2) w x z show "strips_wf B (pre @ s' # ss')"
    by (auto simp: ss strips_wf_append strips_wf_Cons strip_wf_def)
  have "{rs_xmin s..<send n} = {rs_xmin s..<send s} \<union> {rs_xmin n..<send n}"
    using n e w by (auto simp: send_def)
  then show "pix (pre @ s' # ss') = pix (pre @ s # ss)"
    by (auto simp: ss strip_pix_def x z n)
  show "rs_xmin s' = rs_xmin s" by (rule x)
qed

lemma merge_pred_ok:
  assumes "merge_pred pre rest = Some (pre', rest')" "strips_wf B (rev pre @ rest)" "B < 2 ^ 31"
  shows "strips_wf B (rev pre' @ rest')" "pix (rev pre' @ rest') = pix (rev pre @ rest)"
    "\<exists>s. rest = s # rest' \<and> pre' \<noteq> [] \<and> send (hd pre') = send s \<and> rs_xmin (hd pre') = rs_xmin (hd pre) \<and> tl pre' = tl pre"
proof -
  from assms(1) obtain p ps p' where p: "pre = p # ps" "rects_split_merge_next p rest = Some (p', rest')" "pre' = p' # ps"
    by (auto simp: merge_pred_def split: list.splits)
  note m = merge_next_ok [OF p(2), of B "rev ps"]
  from m assms p show "strips_wf B (rev pre' @ rest')" "pix (rev pre' @ rest') = pix (rev pre @ rest)"
    by (simp_all add: Un_ac)
  from p(2) obtain s where s: "rest = s # rest'" "rs_xmin s = rs_end p"
    "p' = p\<lparr>rs_xsiz := add32 (rs_xsiz p) (rs_xsiz s)\<rparr>" by (cases rest) (auto split: if_splits)
  have w: "strip_wf B p" "strip_wf B s" using assms(2) s p by (simp_all add: strips_wf_append strips_wf_Cons)
  then have "rs_end p = send p" using assms by (intro rs_end_eq) (simp add: strip_wf_def)
  with s w assms have "send p' = send s" by (auto simp: send_def strip_wf_def)
  with s p show "\<exists>s. rest = s # rest' \<and> pre' \<noteq> [] \<and> send (hd pre') = send s \<and> rs_xmin (hd pre') = rs_xmin (hd pre) \<and> tl pre' = tl pre"
    by auto
qed

section \<open>A round of the loops over the strips\<close>

text \<open>
  The rectangle that is left has its ends below \<open>E\<close>; \<open>F\<close> is the set operation to
  perform with its pixels, and \<open>S\<close> the set of pixels to arrive at.
\<close>

definition rect_ok :: "nat \<Rightarrow> rect \<Rightarrow> bool" where
  "rect_ok E r \<longleftrightarrow> E < 2 ^ 32 \<and> r_ysiz r \<noteq> 0 \<and> r_xmin r + r_xsiz r \<le> E \<and> r_ymin r + r_ysiz r \<le> E"

definition chain_inv :: "((nat \<times> nat) set \<Rightarrow> (nat \<times> nat) set \<Rightarrow> (nat \<times> nat) set) \<Rightarrow> nat \<Rightarrow> nat \<Rightarrow> (nat \<times> nat) set \<Rightarrow>
    rect_strip list \<Rightarrow> rect_strip list \<Rightarrow> rect \<Rightarrow> bool" where
  "chain_inv F E B S pre rest r \<longleftrightarrow> strips_wf B (rev pre @ rest) \<and> (\<forall>p\<in>set pre. send p \<le> r_xmin r) \<and>
     r_xsiz r \<noteq> 0 \<and> rect_ok E r \<and> F (pix (rev pre @ rest)) (rect_pix r) = S"

definition strip_step_ok :: "((nat \<times> nat) set \<Rightarrow> (nat \<times> nat) set \<Rightarrow> (nat \<times> nat) set) \<Rightarrow> nat \<Rightarrow> nat \<Rightarrow> (nat \<times> nat) set \<Rightarrow>
    strip_step result \<Rightarrow> bool" where
  "strip_step_ok F E B S st = (case st of
       Inl e \<Rightarrow> False
     | Inr (Finished ss) \<Rightarrow> strips_wf B ss \<and> pix ss = S
     | Inr (Next pre rest r) \<Rightarrow> chain_inv F E B S pre rest r)"

lemma strip_step_ok_simps [simp]:
  "strip_step_ok F E B S (Inr (Finished ss)) \<longleftrightarrow> strips_wf B ss \<and> pix ss = S"
  "strip_step_ok F E B S (Inr (Next pre rest r)) \<longleftrightarrow> chain_inv F E B S pre rest r"
  by (simp_all add: strip_step_ok_def)

lemma rect_advance_ok:
  assumes "rect_ok E r" "w \<le> r_xsiz r"
  shows "rect_ok E (rect_advance r w)" "r_xmin (rect_advance r w) = r_xmin r + w" "r_xsiz (rect_advance r w) = r_xsiz r - w"
    "r_ymin (rect_advance r w) = r_ymin r" "r_ysiz (rect_advance r w) = r_ysiz r"
    "rect_pix r = {r_xmin r..<r_xmin r + w} \<times> {r_ymin r..<r_ymin r + r_ysiz r} \<union> rect_pix (rect_advance r w)"
proof -
  have w: "r_xmin r + w < 2 ^ 32" using assms by (simp add: rect_ok_def)
  then show "r_xmin (rect_advance r w) = r_xmin r + w" by (simp add: rect_advance_def)
  with w assms show "rect_ok E (rect_advance r w)" by (simp add: rect_ok_def rect_advance_def)
  show "r_xsiz (rect_advance r w) = r_xsiz r - w" "r_ymin (rect_advance r w) = r_ymin r" "r_ysiz (rect_advance r w) = r_ysiz r"
    by (simp_all add: rect_advance_def)
  have "{r_xmin r..<r_xmin r + r_xsiz r} = {r_xmin r..<r_xmin r + w} \<union> {r_xmin r + w..<r_xmin r + r_xsiz r}"
    using assms by auto
  with w assms(2) show "rect_pix r = {r_xmin r..<r_xmin r + w} \<times> {r_ymin r..<r_ymin r + r_ysiz r} \<union> rect_pix (rect_advance r w)"
    by (simp add: rect_pix_def rect_advance_def Sigma_Un_distrib1)
qed

lemma strip_round_ok:
  assumes "strips_wf B (rev pre @ rest)" "B < 2 ^ 31" "w \<le> r_xsiz r" "rect_ok E r"
    and "\<forall>p\<in>set pre. send p \<le> r_xmin r + w" "\<And>X. F X {} = X"
  shows "strip_step_ok F E B (F (pix (rev pre @ rest)) (rect_pix (rect_advance r w))) (strip_round pre rest r w)"
proof (cases "w = r_xsiz r")
  case True
  then have "rect_pix (rect_advance r w) = {}" by (simp add: rect_pix_def rect_advance_def)
  with True assms show ?thesis by (simp add: strip_round_def strips_wf_assert)
next
  case False
  with assms rect_advance_ok [OF assms(4,3)] show ?thesis
    by (simp add: strip_round_def strips_wf_assert chain_inv_def)
qed

lemma strips_wf_below:
  assumes "strips_wf B (rev pre @ it # ss)" "p \<in> set pre"
  shows "send p \<le> rs_xmin it" "send p \<le> send it"
proof -
  show "send p \<le> rs_xmin it" using assms by (auto simp: strips_wf_append)
  then show "send p \<le> send it" by (simp add: send_def)
qed

lemma merge_strip_ok:
  assumes wf: "strips_wf B (rev pre @ it # ss)" and B: "B < 2 ^ 31" and w: "w \<le> r_xsiz r" and r: "rect_ok E r"
    and it: "send it \<le> r_xmin r + w" and F: "\<And>X. F X {} = X"
  shows "strip_step_ok F E B (F (pix (rev pre @ it # ss)) (rect_pix (rect_advance r w))) (merge_strip pre it ss r w)"
proof -
  have round: "strip_step_ok F E B (F (pix (rev pre @ rest)) (rect_pix (rect_advance r w))) (strip_round pre rest r w)"
    if "strips_wf B (rev pre @ rest)" "\<forall>p\<in>set pre. send p \<le> r_xmin r + w" for pre rest
    using strip_round_ok [where F = F] that B w r F by blast
  have pre: "\<forall>p\<in>set (it # pre). send p \<le> r_xmin r + w" using strips_wf_below(2) [OF wf] it by fastforce
  show ?thesis
  proof (cases "merge_pred pre (it # ss)")
    case (Some z)
    then obtain pre1 rest1 where m: "merge_pred pre (it # ss) = Some (pre1, rest1)" by (cases z) auto
    note ok = merge_pred_ok [OF m wf B]
    have pre1: "\<forall>p\<in>set pre1. send p \<le> r_xmin r + w"
      using ok(3) pre by (cases pre1; cases pre) auto
    show ?thesis
    proof (cases "merge_pred pre1 rest1")
      case None
      with m ok(1) B round [OF ok(1) pre1] show ?thesis by (simp add: merge_strip_def strips_wf_assert ok(2) del: pix_simps)
    next
      case (Some z2)
      then obtain pre2 rest2 where m2: "merge_pred pre1 rest1 = Some (pre2, rest2)" by (cases z2) auto
      note ok2 = merge_pred_ok [OF m2 ok(1) B]
      from m m2 ok(1) B round [of "[]" "rev pre2 @ rest2"] ok2(1) show ?thesis
        by (simp add: merge_strip_def strips_wf_assert ok(2) ok2(2) del: pix_simps)
    qed
  next
    case None
    show ?thesis
    proof (cases "rects_split_merge_next it ss")
      case None': None
      from None None' round [of "it # pre" ss] wf pre show ?thesis
        by (simp add: merge_strip_def del: pix_simps)
    next
      case (Some z)
      then obtain it1 ss1 where m: "rects_split_merge_next it ss = Some (it1, ss1)" by (cases z) auto
      note ok = merge_next_ok [OF m wf B]
      from None m round [OF ok(1)] pre show ?thesis by (simp add: merge_strip_def ok(2) del: pix_simps)
    qed
  qed
qed

lemma split_width_ok:
  assumes "strips_wf B (rev pre @ it # ss)" "B < 2 ^ 31" "0 < w" "w \<le> rs_xsiz it"
  obtains it' ss' where "split_width pre it ss w = Inr (it', ss')" "strips_wf B (rev pre @ it' # ss')"
    "pix (rev pre @ it' # ss') = pix (rev pre @ it # ss)" "rs_xmin it' = rs_xmin it" "rs_xsiz it' = w"
proof (cases "w < rs_xsiz it")
  case True
  from split_strip_ok [OF assms(1,2,3) True] obtain a b where "rects_split_strip it w = Inr (a, b)"
    "strips_wf B (rev pre @ a # b # ss)" "pix (rev pre @ a # b # ss) = pix (rev pre @ it # ss)"
    "rs_xmin a = rs_xmin it" "rs_xsiz a = w" by metis
  with True assms(2) show ?thesis by (intro that [of a "b # ss"]) (simp_all add: split_width_def strips_wf_assert)
next
  case False
  with assms show ?thesis by (intro that [of it ss]) (simp_all add: split_width_def)
qed

lemma strips_wf_blocks:
  assumes "strips_wf B (pre @ it # ss)" "blocks_wf B bs" "bs \<noteq> []"
  shows "strips_wf B (pre @ it\<lparr>rs_blkv := bs\<rparr> # ss)"
  using assms by (auto simp: strips_wf_append strips_wf_Cons strip_wf_def send_def)

section \<open>Inserting and removing a rectangle\<close>

lemma insert_strip_ok:
  assumes wf: "strips_wf B (rev pre @ it # ss)" and B: "B < 2 ^ 31" and r: "rect_ok B r" "r_xsiz r \<noteq> 0"
    and x: "r_xmin r = rs_xmin it"
  shows "strip_step_ok (\<union>) B B (pix (rev pre @ it # ss) \<union> rect_pix r) (insert_strip pre it ss (send it) r)"
proof -
  define w where "w = min (rs_xsiz it) (r_xsiz r)"
  have it: "strip_wf B it" using wf by (simp add: strips_wf_append strips_wf_Cons)
  then have e: "rs_end it = send it" using B by (intro rs_end_eq) (simp add: strip_wf_def)
  have w: "0 < w" "w \<le> rs_xsiz it" "w \<le> r_xsiz r" using it r by (auto simp: w_def strip_wf_def)
  from split_width_ok [OF wf B w(1,2)] obtain it1 ss1 where sp: "split_width pre it ss w = Inr (it1, ss1)"
    and wf1: "strips_wf B (rev pre @ it1 # ss1)" and px: "pix (rev pre @ it1 # ss1) = pix (rev pre @ it # ss)"
    and it1: "rs_xmin it1 = rs_xmin it" "rs_xsiz it1 = w" by metis
  have bw: "rs_blkv it1 \<noteq> []" "blocks_wf B (rs_blkv it1)" using wf1 by (auto simp: strips_wf_append strips_wf_Cons strip_wf_def)
  have y: "r_ysiz r \<noteq> 0" "r_ymin r + r_ysiz r \<le> B" using r by (simp_all add: rect_ok_def)
  from rects_split_insert_block_ok [OF B bw(2) y] obtain bs where ib: "rects_split_insert_block it1 (r_ymin r) (r_ysiz r) = Inr (it1\<lparr>rs_blkv := bs\<rparr>)"
    and bs: "blocks_wf B bs" "blk_pix bs = blk_pix (rs_blkv it1) \<union> {r_ymin r..<r_ymin r + r_ysiz r}" by auto
  have "r_ymin r \<in> blk_pix bs" using y by (simp add: bs)
  then have "bs \<noteq> []" by auto
  from strips_wf_blocks [OF wf1 bs(1) this] have wf2: "strips_wf B (rev pre @ it1\<lparr>rs_blkv := bs\<rparr> # ss1)" .
  have "send (it1\<lparr>rs_blkv := bs\<rparr>) \<le> r_xmin r + w" using it1 x by (simp add: send_def)
  note m = merge_strip_ok [OF wf2 B w(3) r(1) this, where F = "(\<union>)"]
  have "pix (rev pre @ it1\<lparr>rs_blkv := bs\<rparr> # ss1) \<union> rect_pix (rect_advance r w) = pix (rev pre @ it1 # ss1) \<union> rect_pix r"
    unfolding rect_advance_ok(6) [OF r(1) w(3)] pix_simps strip_pix_def using it1 x bs by (auto simp: send_def)
  with m B e x sp wf1 wf2 ib it1 px show ?thesis
    by (simp add: insert_strip_def w_def [symmetric] strips_wf_assert del: pix_simps)
qed

lemma pix_outside:
  assumes "strips_wf B (rev pre @ it # ss)" "R \<subseteq> {rs_xmin it..<send it} \<times> Y"
  shows "pix (rev pre) \<inter> R = {}" "pix ss \<inter> R = {}"
proof -
  have "\<forall>p\<in>set pre. send p \<le> rs_xmin it" "\<forall>s\<in>set ss. send it \<le> rs_xmin s"
    using assms(1) by (auto simp: strips_wf_append strips_wf_Cons)
  then show "pix (rev pre) \<inter> R = {}" "pix ss \<inter> R = {}"
    using assms(2) by (fastforce simp: pix_def strip_pix_def)+
qed

lemma remove_strip_ok:
  assumes wf: "strips_wf B (rev pre @ it # ss)" and B: "B < 2 ^ 31" and r: "rect_ok E r" "r_xsiz r \<noteq> 0"
    and x: "r_xmin r = rs_xmin it"
  shows "strip_step_ok (-) E B (pix (rev pre @ it # ss) - rect_pix r) (remove_strip pre it ss r)"
proof -
  define w where "w = min (rs_xsiz it) (r_xsiz r)"
  have it: "strip_wf B it" using wf by (simp add: strips_wf_append strips_wf_Cons)
  have w: "0 < w" "w \<le> rs_xsiz it" "w \<le> r_xsiz r" using it r by (auto simp: w_def strip_wf_def)
  from split_width_ok [OF wf B w(1,2)] obtain it1 ss1 where sp: "split_width pre it ss w = Inr (it1, ss1)"
    and wf1: "strips_wf B (rev pre @ it1 # ss1)" and px: "pix (rev pre @ it1 # ss1) = pix (rev pre @ it # ss)"
    and it1: "rs_xmin it1 = rs_xmin it" "rs_xsiz it1 = w" by metis
  have bw: "blocks_wf B (rs_blkv it1)" using wf1 by (auto simp: strips_wf_append strips_wf_Cons strip_wf_def)
  have y: "r_ysiz r \<noteq> 0" "r_ymin r + r_ysiz r < 2 ^ 32" using r by (simp_all add: rect_ok_def)
  from rects_split_remove_block_ok [OF B bw y] obtain bs where ib: "rects_split_remove_block it1 (r_ymin r) (r_ysiz r) = Inr (it1\<lparr>rs_blkv := bs\<rparr>)"
    and bs: "blocks_wf B bs" "blk_pix bs = blk_pix (rs_blkv it1) - {r_ymin r..<r_ymin r + r_ysiz r}" by auto
  define R where "R = {r_xmin r..<r_xmin r + w} \<times> {r_ymin r..<r_ymin r + r_ysiz r}"
  have out: "pix (rev pre) \<inter> R = {}" "pix ss1 \<inter> R = {}"
    using pix_outside [OF wf1, of R] it1 x by (auto simp: R_def send_def)
  have it2: "strip_pix it1 - R = {rs_xmin it1..<send it1} \<times> blk_pix bs"
    using it1 x bs by (auto simp: strip_pix_def R_def send_def)
  have eq: "(pix (rev pre) \<union> ({rs_xmin it1..<send it1} \<times> blk_pix bs \<union> pix ss1)) - rect_pix (rect_advance r w) =
      pix (rev pre @ it1 # ss1) - rect_pix r"
    unfolding rect_advance_ok(6) [OF r(1) w(3)] R_def [symmetric] it2 [symmetric] pix_simps(2,3) using out by blast
  have pre: "\<forall>p\<in>set pre. send p \<le> r_xmin r + w" using strips_wf_below(1) [OF wf] x by fastforce
  show ?thesis
  proof (cases "bs = []")
    case True
    have "strips_wf B (rev pre @ ss1)" using wf1 by (auto simp: strips_wf_append strips_wf_Cons)
    note m = strip_round_ok [OF this B w(3) r(1) pre, where F = "(-)"]
    from True eq have "pix (rev pre @ ss1) - rect_pix (rect_advance r w) = pix (rev pre @ it1 # ss1) - rect_pix r" by simp
    with m True B x sp wf1 ib px show ?thesis
      by (simp add: remove_strip_def w_def [symmetric] strips_wf_assert del: pix_simps)
  next
    case False
    from strips_wf_blocks [OF wf1 bs(1) this] have wf2: "strips_wf B (rev pre @ it1\<lparr>rs_blkv := bs\<rparr> # ss1)" .
    have "send (it1\<lparr>rs_blkv := bs\<rparr>) \<le> r_xmin r + w" using it1 x by (simp add: send_def)
    note m = merge_strip_ok [OF wf2 B w(3) r(1) this, where F = "(-)"]
    have "pix (rev pre @ it1\<lparr>rs_blkv := bs\<rparr> # ss1) - rect_pix (rect_advance r w) = pix (rev pre @ it1 # ss1) - rect_pix r"
      unfolding eq [symmetric] by (simp add: strip_pix_def send_def)
    with m False B x sp wf1 wf2 ib px show ?thesis
      by (simp add: remove_strip_def w_def [symmetric] strips_wf_assert del: pix_simps)
  qed
qed

text \<open>A new strip for the columns of the rectangle left of the next strip.\<close>

definition new_strip :: "rect \<Rightarrow> nat \<Rightarrow> rect_strip" where
  "new_strip r w = \<lparr>rs_xmin = r_xmin r, rs_xsiz = w, rs_blkv = [\<lparr>rb_ymin = r_ymin r, rb_ysiz = r_ysiz r\<rparr>]\<rparr>"

lemma new_strip_ok:
  assumes "strips_wf B (rev pre @ rest)" "\<forall>p\<in>set pre. send p \<le> r_xmin r" "rect_ok B r" "0 < w" "w \<le> r_xsiz r"
    and "\<forall>s\<in>set rest. r_xmin r + w \<le> rs_xmin s"
  shows "strips_wf B (rev pre @ new_strip r w # rest)"
    "pix (rev pre @ new_strip r w # rest) \<union> rect_pix (rect_advance r w) = pix (rev pre @ rest) \<union> rect_pix r"
    "send (new_strip r w) = r_xmin r + w"
proof -
  have s: "strip_wf B (new_strip r w)"
    using assms by (simp add: new_strip_def strip_wf_def send_def rect_ok_def blocks_wf_Cons bend_def)
  show e: "send (new_strip r w) = r_xmin r + w" by (simp add: new_strip_def send_def)
  with s assms show "strips_wf B (rev pre @ new_strip r w # rest)"
    by (auto simp: strips_wf_append strips_wf_Cons new_strip_def)
  show "pix (rev pre @ new_strip r w # rest) \<union> rect_pix (rect_advance r w) = pix (rev pre @ rest) \<union> rect_pix r"
    unfolding rect_advance_ok(6) [OF assms(3,5)] by (auto simp: strip_pix_def e) (auto simp: new_strip_def bend_def)
qed

text \<open>The merges that end an insertion before a strip.\<close>

lemma insert_finish_ok:
  assumes wf: "strips_wf B (rev pre @ n # it # ss)" and B: "B < 2 ^ 31"
    and rest: "rest = (case rects_split_merge_next n (it # ss) of Some (a, as) \<Rightarrow> a # as | None \<Rightarrow> n # it # ss)"
    and fin: "(pre', rest') = (case merge_pred pre rest of Some z \<Rightarrow> z | None \<Rightarrow> (pre, rest))"
  shows "strips_wf B (rev pre' @ rest')" "pix (rev pre' @ rest') = pix (rev pre @ n # it # ss)"
proof -
  have r: "strips_wf B (rev pre @ rest) \<and> pix (rev pre @ rest) = pix (rev pre @ n # it # ss)"
  proof (cases "rects_split_merge_next n (it # ss)")
    case (Some z)
    then obtain a as where m: "rects_split_merge_next n (it # ss) = Some (a, as)" by (cases z) auto
    from merge_next_ok(1,2) [OF m wf B] m show ?thesis by (simp add: rest del: pix_simps rects_split_merge_next.simps)
  qed (use wf rest in simp)
  have "strips_wf B (rev pre' @ rest') \<and> pix (rev pre' @ rest') = pix (rev pre @ n # it # ss)"
  proof (cases "merge_pred pre rest")
    case (Some z)
    with fin have "merge_pred pre rest = Some (pre', rest')" by simp
    from merge_pred_ok(1,2) [OF this _ B] r show ?thesis by (simp del: pix_simps)
  qed (use r fin in simp)
  then show "strips_wf B (rev pre' @ rest')" "pix (rev pre' @ rest') = pix (rev pre @ n # it # ss)" by auto
qed

lemma rects_insert_gap_ok:
  assumes inv: "chain_inv (\<union>) B B S pre (it # ss) r" and B: "B < 2 ^ 31" and gap: "r_xmin r < rs_xmin it"
  shows "strip_step_ok (\<union>) B B S (rects_insert_step pre it ss r)"
proof -
  define w where "w = min (rs_xmin it - r_xmin r) (r_xsiz r)"
  note i = inv [unfolded chain_inv_def]
  have it: "strip_wf B it" using i by (simp add: strips_wf_append strips_wf_Cons)
  then have e: "rs_end it = send it" "\<not> send it \<le> r_xmin r"
    using B gap by (auto simp: strip_wf_def send_def intro!: rs_end_eq [unfolded send_def])
  have w: "0 < w" "w \<le> r_xsiz r" "\<forall>s\<in>set (it # ss). r_xmin r + w \<le> rs_xmin s"
    using gap i by (auto simp: w_def strips_wf_append strips_wf_Cons send_def)
  note n = new_strip_ok [of B pre "it # ss" r w]
  have wf1: "strips_wf B (rev pre @ new_strip r w # it # ss)"
    and px: "pix (rev pre @ new_strip r w # it # ss) \<union> rect_pix (rect_advance r w) = S"
    using n i w by auto
  note wfa = strips_wf_assert [OF B]
  show ?thesis
  proof (cases "r_xsiz r - w = 0")
    case True
    define rest where "rest = (case rects_split_merge_next (new_strip r w) (it # ss) of Some (a, as) \<Rightarrow> a # as | None \<Rightarrow> new_strip r w # it # ss)"
    obtain pre' rest' where fin: "(pre', rest') = (case merge_pred pre rest of Some z \<Rightarrow> z | None \<Rightarrow> (pre, rest))"
      by (metis surj_pair)
    note f = insert_finish_ok [OF wf1 B rest_def fin]
    have "rect_pix (rect_advance r w) = {}" using True by (simp add: rect_pix_def rect_advance_def)
    with f px have "pix (rev pre' @ rest') = S" by simp
    moreover have "rects_insert_step pre it ss r = Inr (Finished (rev pre' @ rest'))"
      using i e gap w(1) wf1 f(1) True
      by (simp add: rects_insert_step_def Let_def w_def [symmetric] new_strip_def [symmetric] rest_def [symmetric]
          fin [symmetric] wfa del: rects_split_merge_next.simps)
    ultimately show ?thesis using f(1) by simp
  next
    case False
    then have wd: "r_xmin r + w = rs_xmin it" using gap by (auto simp: w_def)
    obtain pre' rest' where fin: "(pre', rest') = (case merge_pred pre (new_strip r w # it # ss) of Some z \<Rightarrow> z | None \<Rightarrow> (new_strip r w # pre, it # ss))"
      by (metis surj_pair)
    have m: "strips_wf B (rev pre' @ it # ss) \<and> pix (rev pre' @ it # ss) = pix (rev pre @ new_strip r w # it # ss) \<and> rest' = it # ss"
      using fin wf1 merge_pred_ok [OF _ wf1 B] by (auto simp del: pix_simps split: option.splits)
    have adv: "rect_ok B (rect_advance r w)" "r_xsiz (rect_advance r w) \<noteq> 0" "r_xmin (rect_advance r w) = rs_xmin it"
      using rect_advance_ok [of B r w] i w False wd by auto
    have "rects_insert_step pre it ss r = insert_strip pre' it ss (send it) (rect_advance r w)"
      using i e gap w(1) wf1 m False
      by (simp add: rects_insert_step_def Let_def w_def [symmetric] new_strip_def [symmetric] fin [symmetric] wfa)
    with insert_strip_ok [of B pre' it ss "rect_advance r w"] m adv B px show ?thesis by (simp del: pix_simps)
  qed
qed

lemma chain_inv_skip:
  assumes "chain_inv F E B S pre (it # ss) r" "send it \<le> r_xmin r"
  shows "chain_inv F E B S (it # pre) ss r"
  using assms by (simp add: chain_inv_def del: pix_simps)

lemma split_at_ok:
  assumes "strips_wf B (rev pre @ it # ss)" "B < 2 ^ 31" "rs_xmin it < x" "x < send it"
  obtains a b where "rects_split_strip it (x - rs_xmin it) = Inr (a, b)" "strips_wf B (rev (a # pre) @ b # ss)"
    "pix (rev (a # pre) @ b # ss) = pix (rev pre @ it # ss)" "rs_xmin b = x" "send b = send it"
proof (rule split_strip_ok [OF assms(1,2), of "x - rs_xmin it"])
  show "0 < x - rs_xmin it" "x - rs_xmin it < rs_xsiz it" using assms by (auto simp: send_def)
qed (use assms in \<open>auto intro!: that simp del: pix_simps\<close>)

lemma rects_insert_step_ok:
  assumes inv: "chain_inv (\<union>) B B S pre (it # ss) r" and B: "B < 2 ^ 31"
  shows "strip_step_ok (\<union>) B B S (rects_insert_step pre it ss r)"
proof -
  note i = inv [unfolded chain_inv_def]
  have it: "strip_wf B it" and wf: "strips_wf B (rev pre @ it # ss)" using i by (simp_all add: strips_wf_append strips_wf_Cons)
  have e: "rs_end it = send it" using B it by (intro rs_end_eq) (simp add: strip_wf_def)
  consider "send it \<le> r_xmin r" | "r_xmin r < rs_xmin it" | "rs_xmin it < r_xmin r" "r_xmin r < send it" | "r_xmin r = rs_xmin it" "r_xmin r < send it"
    by linarith
  then show ?thesis
  proof cases
    case 1
    with chain_inv_skip [OF inv 1] e wf B show ?thesis by (simp add: rects_insert_step_def strips_wf_assert)
  next
    case 2
    then show ?thesis by (rule rects_insert_gap_ok [OF inv B])
  next
    case 3
    from split_at_ok [OF wf B this] obtain a b where sp: "rects_split_strip it (r_xmin r - rs_xmin it) = Inr (a, b)"
      and wf1: "strips_wf B (rev (a # pre) @ b # ss)" and px: "pix (rev (a # pre) @ b # ss) = pix (rev pre @ it # ss)"
      and b: "rs_xmin b = r_xmin r" "send b = send it" .
    have "rects_insert_step pre it ss r = insert_strip (a # pre) b ss (send b) r"
      using 3 e wf wf1 sp b B by (simp add: rects_insert_step_def strips_wf_assert)
    with insert_strip_ok [OF wf1 B, of r] px i b show ?thesis by (simp del: pix_simps)
  next
    case 4
    then have "rects_insert_step pre it ss r = insert_strip pre it ss (send it) r"
      using e strips_wf_assert [OF B wf] by (simp add: rects_insert_step_def)
    with insert_strip_ok [OF wf B, of r] i 4 show ?thesis by (simp del: pix_simps)
  qed
qed

lemma rects_append_ok:
  assumes inv: "chain_inv (\<union>) B B S pre [] r" and B: "B < 2 ^ 31"
  shows "\<exists>ss. rects_append pre r = Inr ss \<and> strips_wf B ss \<and> pix ss = S"
proof -
  note i = inv [unfolded chain_inv_def]
  have n: "strips_wf B (rev pre @ [new_strip r (r_xsiz r)])"
    and px: "pix (rev pre @ [new_strip r (r_xsiz r)]) \<union> rect_pix (rect_advance r (r_xsiz r)) = S"
    using new_strip_ok [of B pre "[]" r "r_xsiz r"] i by auto
  have "rect_pix (rect_advance r (r_xsiz r)) = {}" by (simp add: rect_pix_def rect_advance_def)
  with px have px: "pix (rev pre @ [new_strip r (r_xsiz r)]) = S" by simp
  have c: "r_xmin r < 2 ^ 31" "r_ymin r < 2 ^ 31" using i B by (auto simp: rect_ok_def)
  from i c n B strips_wf_assert [OF B] merge_pred_ok(1,2) [OF _ n B] px show ?thesis
    by (auto simp: rects_append_def Let_def new_strip_def [symmetric] simp del: pix_simps split: option.splits)
qed

lemma rects_insert_loop_ok:
  assumes B: "B < 2 ^ 31"
  shows "chain_inv (\<union>) B B S pre rest r \<Longrightarrow>
    \<exists>ss. rects_insert_loop pre rest r = Inr ss \<and> strips_wf B ss \<and> pix ss = S"
proof (induction pre rest r rule: rects_insert_loop.induct)
  case (1 pre rest r)
  show ?case
  proof (cases rest)
    case Nil
    with rects_append_ok [OF _ B] "1.prems" show ?thesis by (subst rects_insert_loop.simps) simp
  next
    case (Cons it ss)
    with rects_insert_step_ok [OF _ B] "1.prems" have "strip_step_ok (\<union>) B B S (rects_insert_step pre it ss r)" by simp
    then show ?thesis
      by (subst rects_insert_loop.simps)
        (auto simp: Cons strip_step_ok_def split: sum.splits strip_step.splits intro: "1.IH" [OF Cons])
  qed
qed

lemma rects_remove_step_ok:
  assumes inv: "chain_inv (-) E B S pre (it # ss) r" and B: "B < 2 ^ 31"
  shows "strip_step_ok (-) E B S (rects_remove_step pre it ss r)"
proof -
  note i = inv [unfolded chain_inv_def]
  have it: "strip_wf B it" and wf: "strips_wf B (rev pre @ it # ss)" using i by (simp_all add: strips_wf_append strips_wf_Cons)
  have e: "rs_end it = send it" using B it by (intro rs_end_eq) (simp add: strip_wf_def)
  note a = strips_wf_assert [OF B wf]
  consider "send it \<le> r_xmin r" | "r_xmin r < rs_xmin it" | "rs_xmin it < r_xmin r" "r_xmin r < send it" | "r_xmin r = rs_xmin it" "r_xmin r < send it"
    by linarith
  then show ?thesis
  proof cases
    case 1
    with chain_inv_skip [OF inv 1] e a show ?thesis by (simp add: rects_remove_step_def)
  next
    case 2
    define w where "w = min (rs_xmin it - r_xmin r) (r_xsiz r)"
    have w: "w \<le> r_xsiz r" "r_xmin r + w \<le> rs_xmin it" using 2 by (auto simp: w_def)
    note adv = rect_advance_ok [OF _ w(1), of E]
    have "\<forall>p\<in>set pre. send p \<le> r_xmin r" "\<forall>s\<in>set (it # ss). rs_xmin it \<le> rs_xmin s"
      using i by (auto simp: strips_wf_append strips_wf_Cons send_def)
    with w(2) have "pix (rev pre @ it # ss) \<inter> {r_xmin r..<r_xmin r + w} \<times> {r_ymin r..<r_ymin r + r_ysiz r} = {}"
      by (fastforce simp: pix_def strip_pix_def)
    with adv(6) i have px: "pix (rev pre @ it # ss) - rect_pix (rect_advance r w) = S" by blast
    have "\<not> send it \<le> r_xmin r" using 2 by (simp add: send_def)
    then have run: "rects_remove_step pre it ss r = (if r_xsiz r - w = 0 then Inr (Finished (rev pre @ it # ss))
        else remove_strip pre it ss (rect_advance r w))"
      using 2 e a by (simp add: rects_remove_step_def Let_def w_def)
    show ?thesis
    proof (cases "r_xsiz r - w = 0")
      case True
      then have "rect_pix (rect_advance r w) = {}" by (simp add: rect_pix_def rect_advance_def)
      with True run wf px show ?thesis by simp
    next
      case False
      then have "r_xmin r + w = rs_xmin it" using 2 by (auto simp: w_def)
      with remove_strip_ok [OF wf B, of E "rect_advance r w"] adv i False px run show ?thesis by (simp del: pix_simps)
    qed
  next
    case 3
    from split_at_ok [OF wf B this] obtain a b where sp: "rects_split_strip it (r_xmin r - rs_xmin it) = Inr (a, b)"
      and wf1: "strips_wf B (rev (a # pre) @ b # ss)" and px: "pix (rev (a # pre) @ b # ss) = pix (rev pre @ it # ss)"
      and b: "rs_xmin b = r_xmin r" "send b = send it" .
    have "rects_remove_step pre it ss r = remove_strip (a # pre) b ss r"
      using 3 e a sp strips_wf_assert [OF B wf1] by (simp add: rects_remove_step_def)
    with remove_strip_ok [OF wf1 B, of E r] px i b show ?thesis by (simp del: pix_simps)
  next
    case 4
    then have "rects_remove_step pre it ss r = remove_strip pre it ss r"
      using e a by (simp add: rects_remove_step_def)
    with remove_strip_ok [OF wf B, of E r] i 4 show ?thesis by (simp del: pix_simps)
  qed
qed

lemma rects_remove_loop_ok:
  assumes B: "B < 2 ^ 31"
  shows "chain_inv (-) E B S pre rest r \<Longrightarrow>
    \<exists>ss. rects_remove_loop pre rest r = Inr ss \<and> strips_wf B ss \<and> pix ss = S"
proof (induction pre rest r rule: rects_remove_loop.induct)
  case (1 pre rest r)
  show ?case
  proof (cases rest)
    case Nil
    with "1.prems" have "pix (rev pre) \<inter> rect_pix r = {}"
      by (fastforce simp: chain_inv_def pix_def strip_pix_def rect_pix_def)
    with "1.prems" Nil show ?thesis by (subst rects_remove_loop.simps) (auto simp: chain_inv_def)
  next
    case (Cons it ss)
    with rects_remove_step_ok [OF _ B] "1.prems" have "strip_step_ok (-) E B S (rects_remove_step pre it ss r)" by simp
    then show ?thesis
      by (subst rects_remove_loop.simps)
        (auto simp: Cons strip_step_ok_def split: sum.splits strip_step.splits intro: "1.IH" [OF Cons])
  qed
qed

section \<open>The contract\<close>

text \<open>
  What the window manager expects of its sets of pixels: \<open>shape\<close> is the invariant of a set and
  \<open>pixels\<close> what it stands for; a set takes the rectangles that \<open>fits\<close> admits.
\<close>

locale region_set =
  fixes shape :: "'s \<Rightarrow> bool" and pixels :: "'s \<Rightarrow> (nat \<times> nat) set" and fits :: "rect \<Rightarrow> bool"
    and insert_rect remove_rect :: "'s \<Rightarrow> rect \<Rightarrow> 's result"
  assumes insert_law: "shape s \<Longrightarrow> fits r \<Longrightarrow> \<exists>t. insert_rect s r = Inr t \<and> shape t \<and> pixels t = pixels s \<union> rect_pix r"
    and remove_law: "shape s \<Longrightarrow> fits r \<Longrightarrow> \<exists>t. remove_rect s r = Inr t \<and> shape t \<and> pixels t = pixels s - rect_pix r"
begin

lemma script_law:
  assumes "shape s" "list_all (\<lambda>(add, r). fits r) ops"
  shows "\<exists>t. fold (\<lambda>(add, r) acc. rbind acc (\<lambda>s. if add then insert_rect s r else remove_rect s r)) ops (Inr s) = Inr t \<and>
    shape t \<and> pixels t = fold (\<lambda>(add, r) X. if add then X \<union> rect_pix r else X - rect_pix r) ops (pixels s)"
  using assms
proof (induction ops arbitrary: s)
  case (Cons op ops)
  obtain add r where op: "op = (add, r)" by (cases op)
  then have "fits r" using Cons.prems by simp
  from insert_law [OF Cons.prems(1) this] remove_law [OF Cons.prems(1) this]
  obtain t where t: "(if add then insert_rect s r else remove_rect s r) = Inr t" "shape t"
      "pixels t = (if add then pixels s \<union> rect_pix r else pixels s - rect_pix r)" by (cases add) auto
  from Cons.IH [OF t(2)] Cons.prems t op show ?case by simp
qed simp

end

definition rect_fits :: "nat \<Rightarrow> rect \<Rightarrow> bool" where
  "rect_fits B r \<longleftrightarrow> r_xmin r + r_xsiz r \<le> B \<and> r_ymin r + r_ysiz r \<le> B"

lemma rect_pix_empty: "r_xsiz r = 0 \<or> r_ysiz r = 0 \<Longrightarrow> rect_pix r = {}"
  by (auto simp: rect_pix_def)

lemma rects_insert_spec:
  assumes "strips_wf B self" "B < 2 ^ 31" "rect_fits B r"
  shows "\<exists>ss. rects_insert self r = Inr ss \<and> strips_wf B ss \<and> pix ss = pix self \<union> rect_pix r"
proof (cases "r_xsiz r = 0 \<or> r_ysiz r = 0")
  case False
  then have inv: "chain_inv (\<union>) B B (pix self \<union> rect_pix r) [] self r" and "r_xmin r < 2 ^ 31" "r_ymin r < 2 ^ 31"
    using assms by (auto simp: chain_inv_def rect_ok_def rect_fits_def)
  moreover obtain ss where ss: "rects_insert_loop [] self r = Inr ss" "strips_wf B ss" "pix ss = pix self \<union> rect_pix r"
    using rects_insert_loop_ok [OF assms(2) inv] by blast
  ultimately have "rects_insert self r = Inr ss"
    using False strips_wf_assert [OF assms(2) assms(1)] strips_wf_assert [OF assms(2) ss(2)] by (simp add: rects_insert_def)
  with ss show ?thesis by blast
qed (use assms strips_wf_assert rect_pix_empty in \<open>auto simp: rects_insert_def\<close>)

lemma rects_remove_spec:
  assumes "strips_wf B self" "B < 2 ^ 31" "rect_fits E r" "E < 2 ^ 32"
  shows "\<exists>ss. rects_remove self r = Inr ss \<and> strips_wf B ss \<and> pix ss = pix self - rect_pix r"
proof (cases "r_xsiz r = 0 \<or> r_ysiz r = 0")
  case False
  then have "chain_inv (-) E B (pix self - rect_pix r) [] self r"
    using assms by (auto simp: chain_inv_def rect_ok_def rect_fits_def)
  with rects_remove_loop_ok [OF assms(2)] False strips_wf_assert [OF assms(2)] assms(1) show ?thesis
    by (fastforce simp: rects_remove_def)
qed (use assms strips_wf_assert rect_pix_empty in \<open>auto simp: rects_remove_def\<close>)

interpretation screen: region_set "strips_wf (2 ^ 31 - 1)" pix "rect_fits (2 ^ 31 - 1)" rects_insert rects_remove
  by unfold_locales (auto intro: rects_insert_spec rects_remove_spec)

section \<open>Moving and enumerating\<close>

definition shift :: "int \<Rightarrow> nat \<Rightarrow> nat" where
  "shift d a = nat (int a + d)"

lemma shift_interval: "0 \<le> int a + d \<Longrightarrow> shift d ` {a..<e} = {shift d a..<shift d e}"
proof (rule set_eqI)
  fix y
  assume "0 \<le> int a + d"
  then have "\<exists>x. y = shift d x \<and> x \<in> {a..<e}" if "y \<in> {shift d a..<shift d e}"
    using that by (intro exI [of _ "nat (int y - d)"]) (auto simp: shift_def)
  moreover have "y \<in> {shift d a..<shift d e}" if "y = shift d x" "x \<in> {a..<e}" for x
    using that \<open>0 \<le> int a + d\<close> by (auto simp: shift_def)
  ultimately show "y \<in> shift d ` {a..<e} \<longleftrightarrow> y \<in> {shift d a..<shift d e}" by blast
qed

lemma shift_less: "0 \<le> int a + d \<Longrightarrow> a < b \<Longrightarrow> shift d a < shift d b"
  by (simp add: shift_def)

lemma add_offset_eq: "0 \<le> int a + d \<Longrightarrow> int a + d < 2 ^ 32 \<Longrightarrow> add_offset a d = shift d a"
  by (simp add: add_offset_def shift_def)

definition move_fits :: "nat \<Rightarrow> int \<Rightarrow> int \<Rightarrow> rect_strip list \<Rightarrow> bool" where
  "move_fits B dx dy ss \<longleftrightarrow> list_all (\<lambda>s. 0 \<le> int (rs_xmin s) + dx \<and> int (send s) + dx \<le> int B \<and>
     list_all (\<lambda>b. 0 \<le> int (rb_ymin b) + dy \<and> int (bend b) + dy \<le> int B) (rs_blkv s)) ss"

definition move_block :: "int \<Rightarrow> rect_block \<Rightarrow> rect_block" where
  "move_block dy b = b\<lparr>rb_ymin := shift dy (rb_ymin b)\<rparr>"

lemma move_blocks_ok:
  assumes "blocks_wf B bs" "list_all (\<lambda>b. 0 \<le> int (rb_ymin b) + dy \<and> int (bend b) + dy \<le> int B') bs"
  shows "blocks_wf B' (map (move_block dy) bs) \<and> blk_pix (map (move_block dy) bs) = shift dy ` blk_pix bs"
  using assms
proof (induction bs)
  case (Cons b bs)
  have e: "bend (move_block dy b) = shift dy (bend b)" "rb_ymin (move_block dy b) = shift dy (rb_ymin b)"
    "rb_ysiz (move_block dy b) = rb_ysiz b"
    using Cons.prems by (auto simp: move_block_def bend_def shift_def)
  have "0 \<le> int (bend b) + dy" using Cons.prems by (simp add: bend_def)
  then have "\<forall>c\<in>set (map (move_block dy) bs). bend (move_block dy b) < rb_ymin c"
    using Cons.prems e(1) by (auto simp: blocks_wf_Cons move_block_def intro!: shift_less)
  with Cons e show ?case
    by (simp add: blocks_wf_Cons image_Un shift_interval) (auto simp: shift_def)
qed simp

lemma move_strip_ok:
  assumes "strip_wf B s" "move_fits B' dx dy [s]" "B' < 2 ^ 31"
  shows "strip_wf B' (move_strip s dx dy)" "rs_xmin (move_strip s dx dy) = shift dx (rs_xmin s)"
    "send (move_strip s dx dy) = shift dx (send s)"
    "strip_pix (move_strip s dx dy) = (\<lambda>(x, y). (shift dx x, shift dy y)) ` strip_pix s"
proof -
  have x: "0 \<le> int (rs_xmin s) + dx" "int (send s) + dx \<le> int B'"
    and f: "list_all (\<lambda>b. 0 \<le> int (rb_ymin b) + dy \<and> int (bend b) + dy \<le> int B') (rs_blkv s)"
    using assms(2) by (simp_all add: move_fits_def)
  have "add_offset (rb_ymin b) dy = shift dy (rb_ymin b)" if "b \<in> set (rs_blkv s)" for b
    using f that assms(3) by (intro add_offset_eq) (auto simp: list_all_iff bend_def)
  moreover have "rs_blkv s = map (move_block 0) (rs_blkv s)" by (simp add: map_idI move_block_def shift_def)
  ultimately have bl: "rs_blkv (move_strip s dx dy) = map (move_block dy) (rs_blkv s)"
    by (auto simp: move_strip_def move_block_def)
  show xm: "rs_xmin (move_strip s dx dy) = shift dx (rs_xmin s)"
    using x assms(3) by (simp add: move_strip_def send_def add_offset_eq)
  then show se: "send (move_strip s dx dy) = shift dx (send s)"
    using x by (simp add: move_strip_def send_def shift_def)
  note b = move_blocks_ok [OF _ f, of B]
  show "strip_wf B' (move_strip s dx dy)"
    using assms(1) b x se bl by (simp add: strip_wf_def shift_def) (simp add: move_strip_def)
  show "strip_pix (move_strip s dx dy) = (\<lambda>(x, y). (shift dx x, shift dy y)) ` strip_pix s"
    using assms(1) b x by (simp add: strip_pix_def xm se bl image_paired_Times shift_interval strip_wf_def)
qed

lemma move_strips_ok:
  assumes "B' < 2 ^ 31"
  shows "strips_wf B ss \<Longrightarrow> move_fits B' dx dy ss \<Longrightarrow> strips_wf B' (map (\<lambda>s. move_strip s dx dy) ss) \<and>
    pix (map (\<lambda>s. move_strip s dx dy) ss) = (\<lambda>(x, y). (shift dx x, shift dy y)) ` pix ss"
proof (induction ss)
  case (Cons s ss)
  have s: "strip_wf B s" "move_fits B' dx dy [s]" "move_fits B' dx dy ss"
    using Cons.prems by (simp_all add: strips_wf_Cons move_fits_def)
  note m = move_strip_ok [OF s(1,2) assms]
  have "send (move_strip s dx dy) \<le> rs_xmin (move_strip t dx dy)" if t: "t \<in> set ss" for t
  proof -
    have "strip_wf B t" "move_fits B' dx dy [t]" "send s \<le> rs_xmin t"
      using Cons.prems t by (auto simp: strips_wf_def move_fits_def list_all_iff)
    with move_strip_ok(2) [OF _ _ assms, of B t dx dy] m(3) show ?thesis by (simp add: shift_def)
  qed
  with Cons s m show ?case by (simp add: strips_wf_Cons image_Un)
qed simp

lemma rects_foreach_Cons:
  "rects_foreach (s # ss) = map (\<lambda>b. \<lparr>r_xmin = rs_xmin s, r_ymin = rb_ymin b, r_xsiz = rs_xsiz s, r_ysiz = rb_ysiz b\<rparr>) (rs_blkv s)
     @ rects_foreach ss"
  by (simp add: rects_foreach_def)

lemma rects_foreach_pix: "(\<Union>r\<in>set (rects_foreach ss). rect_pix r) = pix ss"
  by (induction ss) (auto simp: rects_foreach_Cons strip_pix_def rect_pix_def send_def blk_pix_def bend_def rects_foreach_def [of "[]"])

lemma rects_foreach_disjoint:
  "strips_wf B ss \<Longrightarrow> sorted_wrt (\<lambda>a b. rect_pix a \<inter> rect_pix b = {}) (rects_foreach ss)"
proof (induction ss)
  case (Cons s ss)
  let ?f = "\<lambda>b. \<lparr>r_xmin = rs_xmin s, r_ymin = rb_ymin b, r_xsiz = rs_xsiz s, r_ysiz = rb_ysiz b\<rparr>"
  have "sorted_wrt (\<lambda>a b. bend a < rb_ymin b) (rs_blkv s)"
    using Cons.prems by (simp add: strips_wf_Cons strip_wf_def blocks_wf_def)
  then have 1: "sorted_wrt (\<lambda>a b. rect_pix (?f a) \<inter> rect_pix (?f b) = {}) (rs_blkv s)"
    by (rule sorted_wrt_mono_rel [rotated]) (auto simp: rect_pix_def bend_def)
  have 2: "rect_pix (?f b) \<subseteq> strip_pix s" if "b \<in> set (rs_blkv s)" for b
    using that by (auto simp: rect_pix_def strip_pix_def send_def blk_pix_def bend_def)
  have "strip_pix s \<inter> pix ss = {}"
    using Cons.prems by (fastforce simp: strips_wf_Cons pix_def strip_pix_def)
  then have "strip_pix s \<inter> rect_pix r = {}" if "r \<in> set (rects_foreach ss)" for r
    using that rects_foreach_pix [of ss] by blast
  with 2 have 3: "rect_pix (?f b) \<inter> rect_pix r = {}" if "b \<in> set (rs_blkv s)" "r \<in> set (rects_foreach ss)" for b r
    using that by blast
  have 4: "sorted_wrt (\<lambda>a b. rect_pix a \<inter> rect_pix b = {}) (rects_foreach ss)"
    using Cons by (simp add: strips_wf_Cons)
  from 1 3 4 show ?case
    unfolding rects_foreach_Cons sorted_wrt_append sorted_wrt_map by (simp only: set_map ball_simps) blast
qed (simp add: rects_foreach_def)

section \<open>Properties\<close>

text \<open>The example of the witnesses: a bar with a bar across it, over a hundred columns and lines.\<close>

definition bars :: "rect_strip list" where
  "bars = [\<lparr>rs_xmin = 0, rs_xsiz = 10, rs_blkv = [\<lparr>rb_ymin = 20, rb_ysiz = 5\<rparr>]\<rparr>,
     \<lparr>rs_xmin = 10, rs_xsiz = 5, rs_blkv = [\<lparr>rb_ymin = 0, rb_ysiz = 40\<rparr>]\<rparr>,
     \<lparr>rs_xmin = 15, rs_xsiz = 10, rs_blkv = [\<lparr>rb_ymin = 20, rb_ysiz = 5\<rparr>]\<rparr>]"

lemmas wf_eval = strips_wf_def strip_wf_def blocks_wf_def send_def bend_def rect_fits_def move_fits_def

lemma bars_wf [simp]: "strips_wf 100 bars"
  by (simp add: bars_def wf_eval)

text \<open>Inserting a rectangle into a set of pixels that lies, as the rectangle does, within \<open>B\<close> columns
  and lines returns, whatever the shape of the set, and no assertion fails on the way; it adds exactly the
  pixels of the rectangle and keeps the invariant.\<close>
theorem rects_insert_pixels:
  assumes "strips_wf B self" "B < 2 ^ 31" "rect_fits B r"
  shows "\<exists>ss. rects_insert self r = Inr ss \<and> rects_assert ss \<and> strips_wf B ss \<and> pix ss = pix self \<union> rect_pix r"
  using rects_insert_spec [OF assms] strips_wf_assert [OF assms(2)] by blast

theorem rects_insert_pixels_witness:
  "\<exists>ss. rects_insert bars \<lparr>r_xmin = 5, r_ymin = 10, r_xsiz = 15, r_ysiz = 12\<rparr> = Inr ss \<and> strips_wf 100 ss \<and>
     pix ss = pix bars \<union> rect_pix \<lparr>r_xmin = 5, r_ymin = 10, r_xsiz = 15, r_ysiz = 12\<rparr>"
  using rects_insert_pixels [of 100 bars "\<lparr>r_xmin = 5, r_ymin = 10, r_xsiz = 15, r_ysiz = 12\<rparr>"]
  by (auto simp: rect_fits_def)

text \<open>Removing a rectangle, which need not lie within the bounds of the set, returns without a failed
  assertion; it takes exactly the pixels of the rectangle away and keeps the invariant.\<close>
theorem rects_remove_pixels:
  assumes "strips_wf B self" "B < 2 ^ 31" "rect_fits E r" "E < 2 ^ 32"
  shows "\<exists>ss. rects_remove self r = Inr ss \<and> rects_assert ss \<and> strips_wf B ss \<and> pix ss = pix self - rect_pix r"
  using rects_remove_spec [OF assms] strips_wf_assert [OF assms(2)] by blast

theorem rects_remove_pixels_witness:
  "\<exists>ss. rects_remove bars \<lparr>r_xmin = 12, r_ymin = 4, r_xsiz = 2 ^ 31, r_ysiz = 18\<rparr> = Inr ss \<and> strips_wf 100 ss \<and>
     pix ss = pix bars - rect_pix \<lparr>r_xmin = 12, r_ymin = 4, r_xsiz = 2 ^ 31, r_ysiz = 18\<rparr>"
  using rects_remove_pixels [of 100 bars "2 ^ 32 - 1" "\<lparr>r_xmin = 12, r_ymin = 4, r_xsiz = 2 ^ 31, r_ysiz = 18\<rparr>"]
  by (auto simp: rect_fits_def)

text \<open>C3: The sets of pixels refine finite sets of points: every sequence of insertions and removals of
  rectangles below \<open>2 ^ 31\<close>, started with the empty set, runs to its end, and the pixels it leaves are
  those of the same unions and differences of point sets.\<close>
theorem rects_refine_point_sets:
  assumes "list_all (\<lambda>(add, r). rect_fits (2 ^ 31 - 1) r) ops"
  shows "\<exists>ss. fold (\<lambda>(add, r) acc. rbind acc (\<lambda>s. if add then rects_insert s r else rects_remove s r)) ops (Inr []) = Inr ss \<and>
    pix ss = fold (\<lambda>(add, r) X. if add then X \<union> rect_pix r else X - rect_pix r) ops {}"
  using screen.script_law [OF _ assms, of "[]"] by auto

theorem rects_refine_point_sets_witness:
  "\<exists>ss. rbind (rects_insert [] \<lparr>r_xmin = 0, r_ymin = 0, r_xsiz = 40, r_ysiz = 40\<rparr>)
      (\<lambda>s. rects_remove s \<lparr>r_xmin = 10, r_ymin = 10, r_xsiz = 20, r_ysiz = 20\<rparr>) = Inr ss \<and>
     pix ss = {0..<40} \<times> {0..<40} - {10..<30} \<times> {10..<30}"
  using rects_refine_point_sets [of "[(True, \<lparr>r_xmin = 0, r_ymin = 0, r_xsiz = 40, r_ysiz = 40\<rparr>),
      (False, \<lparr>r_xmin = 10, r_ymin = 10, r_xsiz = 20, r_ysiz = 20\<rparr>)]"]
  by (simp add: rect_fits_def rect_pix_def)

text \<open>The rectangles that \<^verbatim>\<open>RECTS_FOREACH\<close> enumerates are disjoint, and together they are the set.\<close>
theorem rects_foreach_partition:
  assumes "strips_wf B ss"
  shows "(\<Union>r\<in>set (rects_foreach ss). rect_pix r) = pix ss \<and>
    sorted_wrt (\<lambda>a b. rect_pix a \<inter> rect_pix b = {}) (rects_foreach ss)"
  using rects_foreach_pix rects_foreach_disjoint [OF assms] by blast

theorem rects_foreach_partition_witness:
  "length (rects_foreach bars) = 3 \<and> sorted_wrt (\<lambda>a b. rect_pix a \<inter> rect_pix b = {}) (rects_foreach bars)"
  using rects_foreach_partition [OF bars_wf] by (simp add: rects_foreach_def bars_def)

text \<open>Moving a set by an offset that keeps its coordinates between 0 and \<open>B'\<close> returns, and translates each
  of its pixels; a moved copy is the same set.\<close>
theorem rects_move_translates:
  assumes "strips_wf B self" "B < 2 ^ 31" "move_fits B' dx dy self" "B' < 2 ^ 31"
  shows "\<exists>ss. rects_move self dx dy = Inr ss \<and> rects_duplicate_and_move self dx dy = ss \<and> strips_wf B' ss \<and>
    pix ss = (\<lambda>(x, y). (nat (int x + dx), nat (int y + dy))) ` pix self"
  using move_strips_ok [OF assms(4,1,3)] strips_wf_assert [OF assms(2,1)] strips_wf_assert [OF assms(4)]
  by (auto simp: rects_move_def rects_duplicate_and_move_def shift_def)

theorem rects_move_translates_witness:
  "\<exists>ss. rects_move bars 7 3 = Inr ss \<and> pix ss = (\<lambda>(x, y). (nat (int x + 7), nat (int y + 3))) ` pix bars"
  using rects_move_translates [of 100 bars 100 7 3] by (auto simp: bars_def wf_eval)

text \<open>The intersection of two rectangles whose ends do not wrap has exactly the pixels that both have.\<close>
theorem rect_intersect_pixels:
  assumes "rect_fits (2 ^ 32 - 1) a" "rect_fits (2 ^ 32 - 1) b"
  shows "rect_pix (rect_intersect a b) = rect_pix a \<inter> rect_pix b"
proof -
  have e: "add32 (r_xmin a) (r_xsiz a) = r_xmin a + r_xsiz a" "add32 (r_ymin a) (r_ysiz a) = r_ymin a + r_ysiz a"
    "add32 (r_xmin b) (r_xsiz b) = r_xmin b + r_xsiz b" "add32 (r_ymin b) (r_ysiz b) = r_ymin b + r_ysiz b"
    using assms by (simp_all add: rect_fits_def)
  show ?thesis by (auto simp: rect_intersect_def e Let_def rect_pix_def)
qed

theorem rect_intersect_pixels_witness:
  "rect_pix (rect_intersect \<lparr>r_xmin = 0, r_ymin = 0, r_xsiz = 10, r_ysiz = 10\<rparr> \<lparr>r_xmin = 5, r_ymin = 3, r_xsiz = 10, r_ysiz = 2\<rparr>)
     = {5..<10} \<times> {3..<5}"
  using rect_intersect_pixels [of "\<lparr>r_xmin = 0, r_ymin = 0, r_xsiz = 10, r_ysiz = 10\<rparr>" "\<lparr>r_xmin = 5, r_ymin = 3, r_xsiz = 10, r_ysiz = 2\<rparr>"]
  by (auto simp: rect_fits_def rect_pix_def Times_Int_Times)

end
