(* ===== verification/Iov.thy ===== *)
theory Iov
  imports Prelude
begin

text \<open>
  Vectors of buffers, \<^verbatim>\<open>src/kernel/src/fs/iov.c\<close>. An \<^verbatim>\<open>iovec\<close> is the buffer that its base and
  length describe, a list of bytes; the buffers of a vector do not overlap, and are valid user
  memory, so that the check of their addresses passes. An access behind the end of the
  vector is \<open>E_SEGFAULT\<close>.
\<close>

text \<open>
  The loop that skips leading entries: it looks at entry 0 in every round, since the index is
  only incremented when the loop ends. An empty entry 0 keeps it running.
\<close>

function iov_skip :: "nat \<Rightarrow> nat \<Rightarrow> nat result" where
  "iov_skip len off = (if off \<le> len then Inr off else if len = 0 then Inl NO_RETURN else iov_skip len (off - len))"
  by pat_completeness auto
termination
  by (relation "measure snd") auto

declare iov_skip.simps [simp del]

fun iov_gather :: "byte list list \<Rightarrow> nat \<Rightarrow> byte list result" where
  "iov_gather [] n = (if n = 0 then Inr [] else Inl E_SEGFAULT)"
| "iov_gather (b # bs) n =
     (if n = 0 then Inr []
      else let len = min (length b) n
           in rbind (iov_gather bs (n - len)) (\<lambda>rest. Inr (take len b @ rest)))"

text \<open>The bytes that are copied to the destination.\<close>

definition iov_read :: "byte list list \<Rightarrow> nat \<Rightarrow> nat \<Rightarrow> byte list result" where
  "iov_read src iov_offset num_bytes =
     (if iov_offset = 0 then iov_gather src num_bytes
      else case src of
        [] \<Rightarrow> Inl E_SEGFAULT
      | b # bs \<Rightarrow> rbind (iov_skip (length b) iov_offset) (\<lambda>off.
          let len = min (length b - off) num_bytes
          in rbind (iov_gather bs (num_bytes - len)) (\<lambda>rest. Inr (take len b @ rest))))"

definition copy_to :: "byte list \<Rightarrow> byte list \<Rightarrow> byte list" where
  "copy_to base src = src @ drop (length src) base"

fun iov_scatter :: "byte list list \<Rightarrow> byte list \<Rightarrow> byte list list result" where
  "iov_scatter [] src = (if src = [] then Inr [] else Inl E_SEGFAULT)"
| "iov_scatter (b # bs) src =
     (if src = [] then Inr (b # bs)
      else let len = min (length b) (length src)
           in rbind (iov_scatter bs (drop len src)) (\<lambda>bs'. Inr (copy_to b (take len src) # bs')))"

text \<open>The vector after \<open>src\<close> was copied to it.\<close>

definition iov_write :: "byte list list \<Rightarrow> nat \<Rightarrow> byte list \<Rightarrow> byte list list result" where
  "iov_write dst iov_offset src =
     (if iov_offset = 0 then iov_scatter dst src
      else case dst of
        [] \<Rightarrow> Inl E_SEGFAULT
      | b # bs \<Rightarrow> rbind (iov_skip (length b) iov_offset) (\<lambda>off.
          let len = min (length b - off) (length src)
          in rbind (iov_scatter bs (drop len src)) (\<lambda>bs'. Inr (copy_to b (take len src) # bs'))))"

section \<open>Gathering and scattering\<close>

lemma iov_scatter_length: "iov_scatter bs src = Inr bs' \<Longrightarrow> map length bs' = map length bs"
  by (induction bs src arbitrary: bs' rule: iov_scatter.induct)
    (auto simp: Let_def rbind_eq_Inr_iff copy_to_def split: if_splits)

lemma iov_write_length: "iov_write dst off src = Inr dst' \<Longrightarrow> map length dst' = map length dst"
  by (auto simp: iov_write_def Let_def rbind_eq_Inr_iff copy_to_def split: if_splits list.splits dest!: iov_scatter_length)

lemma iov_gather_ok: "n \<le> length (concat bs) \<Longrightarrow> iov_gather bs n = Inr (take n (concat bs))"
proof (induction bs arbitrary: n)
  case (Cons b bs)
  then have "iov_gather bs (n - min (length b) n) = Inr (take (n - min (length b) n) (concat bs))"
    by (intro Cons.IH) auto
  then show ?case by (auto simp: Let_def min_def)
qed simp

lemma iov_scatter_ok:
  "length src \<le> length (concat bs) \<Longrightarrow>
     \<exists>bs'. iov_scatter bs src = Inr bs' \<and> map length bs' = map length bs \<and> concat bs' = copy_to (concat bs) src"
proof (induction bs arbitrary: src)
  case (Cons b bs)
  define len where "len = min (length b) (length src)"
  from Cons have "\<exists>bs'. iov_scatter bs (drop len src) = Inr bs' \<and> map length bs' = map length bs \<and>
      concat bs' = copy_to (concat bs) (drop len src)"
    by (intro Cons.IH) (auto simp: len_def)
  then obtain bs' where bs': "iov_scatter bs (drop len src) = Inr bs'" "map length bs' = map length bs"
    "concat bs' = copy_to (concat bs) (drop len src)" by blast
  have "copy_to b (take len src) @ copy_to (concat bs) (drop len src) = copy_to (b @ concat bs) src"
    by (cases "length b \<le> length src") (auto simp: copy_to_def len_def min_def)
  moreover have "length (copy_to b (take len src)) = length b" by (auto simp: copy_to_def len_def)
  ultimately show ?case using bs' by (cases "src = []") (auto simp: Let_def len_def copy_to_def)
qed (auto simp: copy_to_def)

lemma iov_scatter_Nil [simp]: "iov_scatter bs [] = Inr bs"
  by (cases bs) auto

lemma iov_gather_0 [simp]: "iov_gather bs 0 = Inr []"
  by (cases bs) auto

lemma iov_skip_within [simp]: "off \<le> len \<Longrightarrow> iov_skip len off = Inr off"
  by (subst iov_skip.simps) simp

lemma iov_write_tail:
  assumes "off \<noteq> 0" "off + length src \<le> length b"
  shows "iov_write [b] off src = Inr [copy_to b src]"
  using assms by (simp add: iov_write_def)

lemma iov_read_tail:
  assumes "off \<noteq> 0" "off + n \<le> length b"
  shows "iov_read [b] off n = Inr (take n b)"
  using assms by (auto simp: iov_read_def Let_def min_def)

lemma iov_gather_size: "iov_gather bs n = Inr src \<Longrightarrow> length src = n"
proof (induction bs arbitrary: n src)
  case (Cons b bs)
  show ?case
  proof (cases "n = 0")
    case False
    with Cons.prems obtain rest where "iov_gather bs (n - min (length b) n) = Inr rest" "src = take (min (length b) n) b @ rest"
      by (auto simp: Let_def rbind_eq_Inr_iff)
    with Cons.IH [of "n - min (length b) n" rest] show ?thesis by simp
  qed (use Cons.prems in simp)
qed (simp split: if_splits)

lemma iov_read_size:
  assumes "iov_read bs off n = Inr src"
  shows "length src = n"
proof (cases "off = 0")
  case True
  with assms iov_gather_size show ?thesis by (simp add: iov_read_def)
next
  case False
  with assms obtain b bs' o' rest where "bs = b # bs'" "iov_gather bs' (n - min (length b - o') n) = Inr rest"
      "src = take (min (length b - o') n) b @ rest"
    by (auto simp: iov_read_def Let_def rbind_eq_Inr_iff split: list.splits)
  with iov_gather_size [of bs' "n - min (length b - o') n" rest] show ?thesis by simp
qed

lemma iov_skip_none: "iov_skip 0 off = (if off = 0 then Inr 0 else Inl NO_RETURN)"
  by (subst iov_skip.simps) simp

section \<open>Properties\<close>

text \<open>C27: What is written to a vector that has room for it is what is read from it again; the vector keeps its shape, and
  its bytes behind the ones written stay as they are.\<close>
theorem iov_write_read:
  assumes "length src \<le> length (concat dst)"
  shows "\<exists>dst'. iov_write dst 0 src = Inr dst' \<and> iov_read dst' 0 (length src) = Inr src \<and> map length dst' = map length dst \<and>
    drop (length src) (concat dst') = drop (length src) (concat dst)"
proof -
  from iov_scatter_ok [OF assms] obtain dst' where d: "iov_scatter dst src = Inr dst'" "map length dst' = map length dst"
    "concat dst' = copy_to (concat dst) src" by blast
  then have "iov_gather dst' (length src) = Inr src" using iov_gather_ok [of "length src" dst'] assms by (simp add: copy_to_def)
  with d show ?thesis by (simp add: iov_write_def iov_read_def copy_to_def)
qed

theorem iov_write_read_witness:
  "\<exists>dst'. iov_write [[0, 0], [], [0, 0]] 0 [1, 2, 3] = Inr dst' \<and> iov_read dst' 0 3 = Inr [1, 2, 3]"
  using iov_write_read [of "[1, 2, 3]" "[[0, 0], [], [0, 0]]"] by (auto simp: numeral_3_eq_3)

end
