(* ===== verification/Ringbuffer.thy ===== *)
theory Ringbuffer
  imports Iov
begin

text \<open>
  The ring buffer, \<^verbatim>\<open>src/kernel/src/fs/ringbuffer.c\<close> and \<^verbatim>\<open>ringbuffer.h\<close>. The buffer
  memory is a list of bytes, whose length is \<^verbatim>\<open>r_size\<close>, and the pointers into it are offsets from
  \<^verbatim>\<open>r_base\<close>. The limit and its two flag bits are three fields. The lock is not part of the state,
  as one thread runs at a time; what is sent to \<^verbatim>\<open>r_stat\<close> is an output. The kernel
  heap is a parameter: \<open>alloc n\<close> is the block for a request of \<open>n\<close> bytes, or an exception, and
  \<open>allat p n\<close> the memory it got behind a block of \<open>p\<close> bytes, or nothing.
\<close>

record ringbuffer =
  r_rptr :: nat
  r_wptr :: nat
  r_data :: "byte list"
  r_limt :: nat
  r_static :: bool
  r_closed :: bool

abbreviation r_size :: "ringbuffer \<Rightarrow> nat" where
  "r_size self \<equiv> length (r_data self)"

datatype rb_signal = Sig_broadcast | Sig_broadcast_channel nat | Sig_send_channel nat nat

definition RBUFFER_INIT_ALLOC :: nat where "RBUFFER_INIT_ALLOC = 512"
definition RBUF_STATE_CHANNEL_NOTFULL :: nat where "RBUF_STATE_CHANNEL_NOTFULL = 1"
definition RBUF_STATE_CHANNEL_EMPTY :: nat where "RBUF_STATE_CHANNEL_EMPTY = 2"
definition RBUF_STATE_CHANNEL_FULL :: nat where "RBUF_STATE_CHANNEL_FULL = 4"

definition ringbuffer_init :: "nat \<Rightarrow> ringbuffer" where
  "ringbuffer_init limt = \<lparr>r_rptr = 0, r_wptr = 0, r_data = [], r_limt = 4 * (limt div 4), r_static = False, r_closed = False\<rparr>"

definition ringbuffer_close :: "ringbuffer \<Rightarrow> bool \<times> ringbuffer \<times> rb_signal list" where
  "ringbuffer_close self =
     (if r_closed self then (False, self, []) else (True, self\<lparr>r_closed := True\<rparr>, [Sig_broadcast]))"

section \<open>State\<close>

definition ringbuffer_maxread :: "ringbuffer \<Rightarrow> nat" where
  "ringbuffer_maxread self =
     (if r_rptr self < r_wptr self then r_wptr self - r_rptr self else r_size self - (r_rptr self - r_wptr self))"

definition ringbuffer_maxwrite :: "ringbuffer \<Rightarrow> nat" where
  "ringbuffer_maxwrite self =
     (if r_wptr self < r_rptr self then r_rptr self - r_wptr self else r_size self - (r_wptr self - r_rptr self))"

definition ringbuffer_isclosed :: "ringbuffer \<Rightarrow> bool" where
  "ringbuffer_isclosed self \<longleftrightarrow> r_closed self"

definition ringbuffer_isfull :: "ringbuffer \<Rightarrow> bool" where
  "ringbuffer_isfull self \<longleftrightarrow> r_rptr self = r_wptr self \<or> ringbuffer_isclosed self"

definition ringbuffer_isnonfull :: "ringbuffer \<Rightarrow> bool" where
  "ringbuffer_isnonfull self \<longleftrightarrow> r_rptr self \<noteq> r_wptr self \<or> ringbuffer_isclosed self"

definition ringbuffer_isempty :: "ringbuffer \<Rightarrow> bool" where
  "ringbuffer_isempty self \<longleftrightarrow> r_wptr self = 0 \<and> r_rptr self = r_size self \<or> ringbuffer_isclosed self"

definition ringbuffer_isnonempty :: "ringbuffer \<Rightarrow> bool" where
  "ringbuffer_isnonempty self \<longleftrightarrow> r_wptr self \<noteq> 0 \<or> r_rptr self \<noteq> r_size self \<or> ringbuffer_isclosed self"

datatype poll_event = POLLIN | POLLOUT | POLLHUP

definition ringbuffer_poll :: "ringbuffer \<Rightarrow> poll_event set \<Rightarrow> poll_event set" where
  "ringbuffer_poll self mode =
     (if r_closed self then {POLLHUP} else {}) \<union>
     (if POLLIN \<in> mode \<and> (r_rptr self \<noteq> r_size self \<or> r_wptr self \<noteq> 0) then {POLLIN} else {}) \<union>
     (if POLLOUT \<in> mode \<and> r_rptr self \<noteq> r_wptr self then {POLLOUT} else {})"

section \<open>Undoing reads and writes\<close>

text \<open>The position \<open>n\<close> bytes before \<open>p\<close>, or \<open>low\<close> if that is below it.\<close>

definition step_back :: "nat \<Rightarrow> nat \<Rightarrow> nat \<Rightarrow> nat" where
  "step_back p n low = (if p < n \<or> p - n < low then low else p - n)"

definition ringbuffer_unread :: "ringbuffer \<Rightarrow> nat \<Rightarrow> (nat \<times> ringbuffer \<times> rb_signal list) result" where
  "ringbuffer_unread self num_bytes =
     (if r_wptr self \<noteq> 0 then
        let new_pointer = step_back (r_rptr self) num_bytes 0;
            n = r_rptr self - new_pointer
        in rassert (n \<le> num_bytes)
           (let (new_pointer, n) =
              (if new_pointer = 0 \<and> n \<noteq> num_bytes
               then let p = step_back (r_size self) (num_bytes - n) (r_wptr self) in (p, n + (r_size self - p))
               else (new_pointer, n))
            in Inr (n, self\<lparr>r_rptr := new_pointer\<rparr>,
                    if n \<noteq> 0 then
                      if r_rptr self = r_size self then [Sig_broadcast]
                      else if new_pointer = r_wptr self then [Sig_broadcast_channel RBUF_STATE_CHANNEL_FULL] else []
                    else []))
      else Inr (0, self, []))"

text \<open>The new write pointer, with the number of bytes that the code takes for unwritten.\<close>

definition unwrite_pointer :: "ringbuffer \<Rightarrow> nat \<Rightarrow> (nat \<times> nat) result" where
  "unwrite_pointer self num_bytes =
     (if r_rptr self \<le> r_wptr self
      then let n = min (r_wptr self - r_rptr self) num_bytes in Inr (r_wptr self - n, n)
      else let new_pointer = step_back (r_wptr self) num_bytes 0;
               n = new_pointer
           in rassert (n \<le> num_bytes)
              (if new_pointer = 0 \<and> n \<noteq> num_bytes
               then let p = step_back (r_size self) (num_bytes - n) (r_rptr self) in Inr (p, n + (r_size self - p))
               else Inr (new_pointer, n)))"

definition ringbuffer_unwrite :: "ringbuffer \<Rightarrow> nat \<Rightarrow> (nat \<times> ringbuffer \<times> rb_signal list) result" where
  "ringbuffer_unwrite self num_bytes =
     rbind (unwrite_pointer self num_bytes)
     (\<lambda>(new_pointer, n).
       let was_full = (r_rptr self = r_wptr self);
           is_empty = (r_rptr self = new_pointer)
       in Inr (n,
            if is_empty then self\<lparr>r_rptr := r_size self, r_wptr := 0\<rparr> else self\<lparr>r_wptr := new_pointer\<rparr>,
            if n \<noteq> 0 then (if was_full then [Sig_send_channel RBUF_STATE_CHANNEL_NOTFULL 1] else []) @
              (if is_empty then [Sig_broadcast_channel RBUF_STATE_CHANNEL_EMPTY] else []) else []))"

section \<open>Reading\<close>

text \<open>
  The steps that discarding, reading and peeking share: where to start, how many bytes to take
  before the end of the memory, where to go on, and how many bytes to take below the write pointer.
\<close>

definition read_start :: "ringbuffer \<Rightarrow> nat" where
  "read_start self = (if r_rptr self = r_size self \<and> r_wptr self \<noteq> 0 then 0 else r_rptr self)"

definition read_high :: "ringbuffer \<Rightarrow> nat \<Rightarrow> nat" where
  "read_high self num_bytes =
     (let p = read_start self in if p < r_size self \<and> r_wptr self \<le> p then min (r_size self - p) num_bytes else 0)"

definition read_mid :: "ringbuffer \<Rightarrow> nat \<Rightarrow> nat" where
  "read_mid self num_bytes =
     (let p = read_start self in
      if p < r_size self \<and> r_wptr self \<le> p
      then let q = p + read_high self num_bytes in if q = r_size self \<and> r_wptr self \<noteq> 0 then 0 else q
      else p)"

definition read_low :: "ringbuffer \<Rightarrow> nat \<Rightarrow> nat" where
  "read_low self num_bytes =
     (let p = read_mid self num_bytes in
      if p < r_wptr self then min (r_wptr self - p) (num_bytes - read_high self num_bytes) else 0)"

definition read_finish :: "ringbuffer \<Rightarrow> nat \<Rightarrow> nat \<times> ringbuffer \<times> rb_signal list" where
  "read_finish self num_bytes =
     (let n = read_high self num_bytes + read_low self num_bytes;
          new_pointer = read_mid self num_bytes + read_low self num_bytes;
          was_full = (r_rptr self = r_wptr self);
          is_empty = (new_pointer = r_wptr self)
      in (n,
          if is_empty then self\<lparr>r_rptr := r_size self, r_wptr := 0\<rparr> else self\<lparr>r_rptr := new_pointer\<rparr>,
          if n \<noteq> 0 then (if was_full then [Sig_send_channel RBUF_STATE_CHANNEL_NOTFULL 1] else []) @
            (if is_empty then [Sig_broadcast_channel RBUF_STATE_CHANNEL_EMPTY] else []) else []))"

definition ringbuffer_discard :: "ringbuffer \<Rightarrow> nat \<Rightarrow> nat \<times> ringbuffer \<times> rb_signal list" where
  "ringbuffer_discard self num_bytes = read_finish self num_bytes"

text \<open>The bytes in the memory from \<open>p\<close> on.\<close>

definition chunk :: "ringbuffer \<Rightarrow> nat \<Rightarrow> nat \<Rightarrow> byte list" where
  "chunk self p n = take n (drop p (r_data self))"

definition ringbuffer_readv_atomic ::
  "ringbuffer \<Rightarrow> byte list list \<Rightarrow> nat \<Rightarrow> nat \<Rightarrow> (byte list list \<times> nat \<times> ringbuffer \<times> rb_signal list) result" where
  "ringbuffer_readv_atomic self iov iov_offset num_bytes =
     (let p = read_start self; hi = read_high self num_bytes;
          q = read_mid self num_bytes; lo = read_low self num_bytes
      in rbind (if p < r_size self \<and> r_wptr self \<le> p then iov_write iov iov_offset (chunk self p hi) else Inr iov) (\<lambda>iov.
         rbind (if q < r_wptr self
                then rassert (hi \<le> num_bytes) (iov_write iov (iov_offset + hi) (chunk self q lo)) else Inr iov) (\<lambda>iov.
         Inr (iov, read_finish self num_bytes))))"

definition ringbuffer_read_atomic ::
  "ringbuffer \<Rightarrow> byte list \<Rightarrow> (byte list \<times> nat \<times> ringbuffer \<times> rb_signal list) result" where
  "ringbuffer_read_atomic self buf =
     rbind (ringbuffer_readv_atomic self [buf] 0 (length buf)) (\<lambda>(iov, r). Inr (hd iov, r))"

definition ringbuffer_peekv_atomic ::
  "ringbuffer \<Rightarrow> byte list list \<Rightarrow> nat \<Rightarrow> nat \<Rightarrow> (byte list list \<times> nat) result" where
  "ringbuffer_peekv_atomic self iov iov_offset num_bytes =
     (let p = read_start self; hi = read_high self num_bytes;
          q = read_mid self num_bytes; lo = read_low self num_bytes
      in rbind (if p < r_size self \<and> r_wptr self \<le> p then iov_write iov iov_offset (chunk self p hi) else Inr iov) (\<lambda>iov.
         rbind (if q < r_wptr self
                then rassert (hi \<le> num_bytes) (iov_write iov (iov_offset + hi) (chunk self q lo)) else Inr iov) (\<lambda>iov.
         Inr (iov, hi + lo))))"

definition ringbuffer_peek_atomic :: "ringbuffer \<Rightarrow> byte list \<Rightarrow> (byte list \<times> nat) result" where
  "ringbuffer_peek_atomic self buf =
     rbind (ringbuffer_peekv_atomic self [buf] 0 (length buf)) (\<lambda>(iov, r). Inr (hd iov, r))"

lemma ringbuffer_peekv_atomic_length:
  "ringbuffer_peekv_atomic self iov off n = Inr (iov', m) \<Longrightarrow> map length iov' = map length iov"
  by (auto simp: ringbuffer_peekv_atomic_def Let_def rbind_eq_Inr_iff rassert_eq_Inr_iff split: if_splits
      dest!: iov_write_length)

section \<open>Waiting\<close>

text \<open>
  A call that may block runs against an event list, which says in which order the calling thread and the others take
  their steps. \<open>Me\<close> is a step of the calling thread; \<open>Other step chosen\<close> a step of another one, which changes the buffer and sends
  signals, where \<open>chosen\<close> tells whether the calling thread is the one that a signal to a single thread goes to; \<open>Raise e\<close> is an
  exception that \<^verbatim>\<open>task_connect()\<close> or \<^verbatim>\<open>task_wait()\<close> throws, \<^verbatim>\<open>E_INTERRUPT\<close> or the error of an RPC function; \<open>Timeout\<close> is the end
  of the time that \<^verbatim>\<open>task_waitfor()\<close> was given. A call returns with the events that are left, or is still under way when they are used up,
  which is \<open>None\<close>.
\<close>

datatype thread_event = Me | Other "ringbuffer \<Rightarrow> ringbuffer \<times> rb_signal list" bool | Raise kos_error | Timeout

text \<open>
  Whether signals wake a thread that is connected with the channel mask \<open>channels\<close>. \<^verbatim>\<open>sig_broadcast\<close> wakes every thread, whatever
  its mask is.
\<close>

fun wakes :: "nat \<Rightarrow> bool \<Rightarrow> rb_signal \<Rightarrow> bool" where
  "wakes channels chosen Sig_broadcast \<longleftrightarrow> True"
| "wakes channels chosen (Sig_broadcast_channel c) \<longleftrightarrow> channels AND c \<noteq> 0"
| "wakes channels chosen (Sig_send_channel c n) \<longleftrightarrow> channels AND c \<noteq> 0 \<and> chosen"

text \<open>
  Where the calling thread is: at its first attempt, at the test of the flags behind it, before \<^verbatim>\<open>task_connect()\<close>, at the attempt
  once connected, at the test behind that, or in \<^verbatim>\<open>task_wait()\<close>. The argument of the last three tells whether the thread was
  woken since it connected; then the wait ends at once, and otherwise it goes on.
\<close>

datatype wait_pc = Try | Test | Connect | Retry bool | Retest bool | Wait bool

definition signalled :: "nat \<Rightarrow> bool \<Rightarrow> rb_signal list \<Rightarrow> wait_pc \<Rightarrow> wait_pc" where
  "signalled channels chosen sigs pc =
     (let woken = list_ex (wakes channels chosen) sigs in
      case pc of Retry w \<Rightarrow> Retry (w \<or> woken) | Retest w \<Rightarrow> Retest (w \<or> woken) | Wait w \<Rightarrow> Wait (w \<or> woken) | _ \<Rightarrow> pc)"

text \<open>
  Reading, peeking and writing wait in the same way: an attempt, a second one once connected to the signal of the
  buffer, and a wait if both moved no byte. An attempt that moves no byte sends no signal.
\<close>

fun wait_loop :: "(ringbuffer \<Rightarrow> 'io \<Rightarrow> ('io \<times> nat \<times> ringbuffer \<times> rb_signal list) result) \<Rightarrow> nat \<Rightarrow> nat \<Rightarrow> bool \<Rightarrow> wait_pc \<Rightarrow>
    thread_event list \<Rightarrow> ringbuffer \<Rightarrow> 'io \<Rightarrow> ('io \<times> nat \<times> ringbuffer \<times> rb_signal list \<times> thread_event list) option result" where
  "wait_loop attempt channels num_bytes nonblock pc [] self io = Inr None"
| "wait_loop attempt channels num_bytes nonblock pc (Other step chosen # sched) self io =
     (let (self, sigs) = step self in wait_loop attempt channels num_bytes nonblock (signalled channels chosen sigs pc) sched self io)"
| "wait_loop attempt channels num_bytes nonblock pc (Timeout # sched) self io = wait_loop attempt channels num_bytes nonblock pc sched self io"
| "wait_loop attempt channels num_bytes nonblock pc (Raise e # sched) self io =
     (case pc of Connect \<Rightarrow> Inl e | Wait w \<Rightarrow> Inl e | _ \<Rightarrow> wait_loop attempt channels num_bytes nonblock pc sched self io)"
| "wait_loop attempt channels num_bytes nonblock pc (Me # sched) self io =
     (case pc of
        Try \<Rightarrow> rbind (attempt self io) (\<lambda>(io, n, self, sigs).
          if n \<noteq> 0 \<or> num_bytes = 0 then Inr (Some (io, n, self, sigs, sched))
          else wait_loop attempt channels num_bytes nonblock Test sched self io)
      | Test \<Rightarrow>
          if r_closed self \<or> nonblock then Inr (Some (io, 0, self, [], sched))
          else wait_loop attempt channels num_bytes nonblock Connect sched self io
      | Connect \<Rightarrow> wait_loop attempt channels num_bytes nonblock (Retry False) sched self io
      | Retry w \<Rightarrow> rbind (attempt self io) (\<lambda>(io, n, self, sigs).
          if n \<noteq> 0 then Inr (Some (io, n, self, sigs, sched))
          else wait_loop attempt channels num_bytes nonblock (Retest w) sched self io)
      | Retest w \<Rightarrow>
          if r_closed self then Inr (Some (io, 0, self, [], sched))
          else wait_loop attempt channels num_bytes nonblock (Wait w) sched self io
      | Wait w \<Rightarrow> wait_loop attempt channels num_bytes nonblock (if w then Try else pc) sched self io)"

lemma wait_loop_result:
  assumes "\<And>self io io' r. attempt self io = Inr (io', r) \<Longrightarrow> f io' = f io"
  shows "wait_loop attempt channels num_bytes nonblock pc sched self io = Inr (Some (io', n, self', sigs, sched')) \<Longrightarrow>
    f io' = f io \<and> length sched' < length sched"
proof (induction sched arbitrary: pc self io nonblock)
  case (Cons event sched)
  show ?case
  proof (cases event)
    case Me
    with Cons.prems show ?thesis
      by (cases pc) (auto simp: rbind_eq_Inr_iff split: if_splits dest!: assms Cons.IH)
  qed (use Cons in \<open>auto split: wait_pc.splits prod.splits dest!: Cons.IH\<close>)
qed simp

section \<open>Blocking reads\<close>

definition ringbuffer_readv :: "thread_event list \<Rightarrow> ringbuffer \<Rightarrow> byte list list \<Rightarrow> nat \<Rightarrow> nat \<Rightarrow> bool \<Rightarrow>
    (byte list list \<times> nat \<times> ringbuffer \<times> rb_signal list \<times> thread_event list) option result" where
  "ringbuffer_readv sched self iov iov_offset num_bytes nonblock =
     wait_loop (\<lambda>self iov. ringbuffer_readv_atomic self iov iov_offset num_bytes) 0 num_bytes nonblock Try sched self iov"

definition ringbuffer_read :: "thread_event list \<Rightarrow> ringbuffer \<Rightarrow> byte list \<Rightarrow> bool \<Rightarrow>
    (byte list \<times> nat \<times> ringbuffer \<times> rb_signal list \<times> thread_event list) option result" where
  "ringbuffer_read sched self buf nonblock =
     rbind (ringbuffer_readv sched self [buf] 0 (length buf) nonblock) (\<lambda>r.
     Inr (map_option (\<lambda>(iov, r). (hd iov, r)) r))"

definition ringbuffer_peekv :: "thread_event list \<Rightarrow> ringbuffer \<Rightarrow> byte list list \<Rightarrow> nat \<Rightarrow> nat \<Rightarrow> bool \<Rightarrow>
    (byte list list \<times> nat \<times> ringbuffer \<times> rb_signal list \<times> thread_event list) option result" where
  "ringbuffer_peekv sched self iov iov_offset num_bytes nonblock =
     wait_loop (\<lambda>self iov. rbind (ringbuffer_peekv_atomic self iov iov_offset num_bytes) (\<lambda>(iov, n). Inr (iov, n, self, [])))
       0 num_bytes nonblock Try sched self iov"

definition ringbuffer_peek :: "thread_event list \<Rightarrow> ringbuffer \<Rightarrow> byte list \<Rightarrow> bool \<Rightarrow>
    (byte list \<times> nat \<times> ringbuffer \<times> rb_signal list \<times> thread_event list) option result" where
  "ringbuffer_peek sched self buf nonblock =
     rbind (ringbuffer_peekv sched self [buf] 0 (length buf) nonblock) (\<lambda>r.
     Inr (map_option (\<lambda>(iov, r). (hd iov, r)) r))"

lemma ringbuffer_peek_length:
  assumes "ringbuffer_peek sched self buf nonblock = Inr (Some (buf', n, self', sigs, sched'))"
  shows "length buf' = length buf \<and> length sched' < length sched"
proof -
  from assms obtain iov where iov: "ringbuffer_peekv sched self [buf] 0 (length buf) nonblock = Inr (Some (iov, n, self', sigs, sched'))"
    "buf' = hd iov"
    by (auto simp: ringbuffer_peek_def rbind_eq_Inr_iff)
  have "map length iov = map length [buf] \<and> length sched' < length sched"
    by (rule wait_loop_result [OF _ iov(1) [unfolded ringbuffer_peekv_def]])
      (auto simp: rbind_eq_Inr_iff dest!: ringbuffer_peekv_atomic_length)
  with iov show ?thesis by (cases iov) auto
qed

text \<open>Reads to \<open>buf\<close> from its byte \<open>n\<close> on; the bytes before it are there already.\<close>

function readall_loop :: "thread_event list \<Rightarrow> ringbuffer \<Rightarrow> byte list \<Rightarrow> nat \<Rightarrow> bool \<Rightarrow>
    (byte list \<times> nat \<times> ringbuffer \<times> thread_event list) option result" where
  "readall_loop sched self buf n nonblock =
     rbind (ringbuffer_peek sched self (drop n buf) nonblock) (\<lambda>r. case r of
         None \<Rightarrow> Inr None
       | Some (part, temp, self, sigs, sched) \<Rightarrow>
           if temp \<noteq> 0 \<and> n + temp < length buf
           then readall_loop sched self (take n buf @ part) (n + temp) nonblock
           else Inr (Some (take n buf @ part, n + temp, self, sched)))"
  by pat_completeness auto
termination
  by (relation "measure (\<lambda>(sched, self, buf, n, nonblock). length buf - n)") (auto dest!: ringbuffer_peek_length)

declare readall_loop.simps [simp del]

definition ringbuffer_readall :: "thread_event list \<Rightarrow> ringbuffer \<Rightarrow> byte list \<Rightarrow> bool \<Rightarrow>
    (byte list \<times> nat \<times> ringbuffer \<times> thread_event list) option result" where
  "ringbuffer_readall sched self buf nonblock = readall_loop sched self buf 0 nonblock"

text \<open>Peeks again as long as there was too little, without taking anything; the loop ends with the events.\<close>

function ringbuffer_peekall :: "thread_event list \<Rightarrow> ringbuffer \<Rightarrow> byte list \<Rightarrow> bool \<Rightarrow>
    (byte list \<times> nat \<times> ringbuffer) option result" where
  "ringbuffer_peekall sched self buf nonblock =
     rbind (ringbuffer_peek sched self buf nonblock) (\<lambda>r. case r of
         None \<Rightarrow> Inr None
       | Some (buf', n, self, sigs, sched') \<Rightarrow>
           if n \<noteq> 0 \<and> n < length buf \<and> n < r_limt self
           then ringbuffer_peekall sched' self buf' nonblock
           else Inr (Some (buf', n, self)))"
  by pat_completeness auto
termination
  by (relation "measure (\<lambda>(sched, self, buf, nonblock). length sched)") (auto dest!: ringbuffer_peek_length)

declare ringbuffer_peekall.simps [simp del]

section \<open>Waiting for a state\<close>

text \<open>
  The functions that wait for a condition, with the channel mask that they listen to. They start at the test of the
  condition, and return whether it was met, or are still waiting when the events are used up.
\<close>

fun wait_until :: "nat \<Rightarrow> (ringbuffer \<Rightarrow> bool) \<Rightarrow> wait_pc \<Rightarrow> thread_event list \<Rightarrow> ringbuffer \<Rightarrow> (bool \<times> ringbuffer) option result" where
  "wait_until channels cond pc [] self = Inr None"
| "wait_until channels cond pc (Other step chosen # sched) self =
     (let (self, sigs) = step self in wait_until channels cond (signalled channels chosen sigs pc) sched self)"
| "wait_until channels cond pc (Timeout # sched) self =
     (case pc of Wait w \<Rightarrow> Inr (Some (False, self)) | _ \<Rightarrow> wait_until channels cond pc sched self)"
| "wait_until channels cond pc (Raise e # sched) self =
     (case pc of Connect \<Rightarrow> Inl e | Wait w \<Rightarrow> Inl e | _ \<Rightarrow> wait_until channels cond pc sched self)"
| "wait_until channels cond pc (Me # sched) self =
     (case pc of
        Connect \<Rightarrow> wait_until channels cond (Retest False) sched self
      | Retest w \<Rightarrow> if cond self then Inr (Some (True, self)) else wait_until channels cond (Wait w) sched self
      | Wait w \<Rightarrow> wait_until channels cond (if w then Test else pc) sched self
      | _ \<Rightarrow> if cond self then Inr (Some (True, self)) else wait_until channels cond Connect sched self)"

definition ringbuffer_wait_full :: "thread_event list \<Rightarrow> ringbuffer \<Rightarrow> (bool \<times> ringbuffer) option result" where
  "ringbuffer_wait_full = wait_until RBUF_STATE_CHANNEL_FULL ringbuffer_isfull Test"

definition ringbuffer_wait_nonfull :: "thread_event list \<Rightarrow> ringbuffer \<Rightarrow> (bool \<times> ringbuffer) option result" where
  "ringbuffer_wait_nonfull = wait_until RBUF_STATE_CHANNEL_NOTFULL ringbuffer_isnonfull Test"

definition ringbuffer_wait_empty :: "thread_event list \<Rightarrow> ringbuffer \<Rightarrow> (bool \<times> ringbuffer) option result" where
  "ringbuffer_wait_empty = wait_until RBUF_STATE_CHANNEL_EMPTY ringbuffer_isempty Test"

definition ringbuffer_wait_nonempty :: "thread_event list \<Rightarrow> ringbuffer \<Rightarrow> (bool \<times> ringbuffer) option result" where
  "ringbuffer_wait_nonempty = wait_until 0 ringbuffer_isnonempty Test"

definition ringbuffer_wait_close :: "thread_event list \<Rightarrow> ringbuffer \<Rightarrow> (bool \<times> ringbuffer) option result" where
  "ringbuffer_wait_close = wait_until 0 ringbuffer_isclosed Test"

section \<open>Growing\<close>

text \<open>Doubles the size until it reaches the target. A size of 0 stays 0, and the loop runs forever.\<close>

function double_until :: "32 word \<Rightarrow> 32 word \<Rightarrow> 32 word result" where
  "double_until siz target =
     (if siz < target then if siz = 0 then Inl NO_RETURN else double_until (siz * 2) target else Inr siz)"
  by pat_completeness auto
termination
proof (relation "measure (\<lambda>(siz, target). LEAST k. siz * 2 ^ k = 0)")
  fix siz target :: "32 word"
  assume "siz \<noteq> 0"
  let ?k = "LEAST k. siz * 2 ^ k = 0"
  have "siz * 2 ^ LENGTH(32) = 0" by (simp only: word_exp_length_eq_0 mult_zero_right)
  then have k: "siz * 2 ^ ?k = 0" by (rule LeastI)
  with \<open>siz \<noteq> 0\<close> obtain j where j: "?k = Suc j" by (cases ?k) auto
  with k have "siz * 2 * 2 ^ j = 0" by (simp add: mult.assoc)
  then have "(LEAST k. siz * 2 * 2 ^ k = 0) \<le> j" by (rule Least_le)
  with j show "((siz * 2, target), (siz, target)) \<in> measure (\<lambda>(siz, target). LEAST k. siz * 2 ^ k = 0)" by simp
qed simp

declare double_until.simps [simp del]

definition increase_size :: "ringbuffer \<Rightarrow> nat \<Rightarrow> nat result" where
  "increase_size self num_bytes =
     (let siz = of_nat (r_size self) * 2 :: 32 word;
          siz = (if siz = 0 then of_nat RBUFFER_INIT_ALLOC else siz)
      in rbind (double_until siz (of_nat (r_size self) + of_nat num_bytes)) (\<lambda>siz. Inr (min (unat siz) (r_limt self))))"

text \<open>
  The buffer with more memory; \<open>None\<close> if it may not grow. When the heap has returned less than
  asked for, the code asks again with the same request.
\<close>

definition increase_buffer :: "(nat \<Rightarrow> nat \<Rightarrow> byte list) \<Rightarrow> (nat \<Rightarrow> byte list result) \<Rightarrow> ringbuffer \<Rightarrow> nat \<Rightarrow>
    ringbuffer option result" where
  "increase_buffer allat alloc self num_bytes =
     (if r_static self then Inr None
      else rbind (increase_size self num_bytes) (\<lambda>siz.
        if siz \<le> r_size self then Inr None
        else let more = (if r_size self \<noteq> 0 \<and> r_rptr self = 0 then allat (r_size self) (siz - r_size self) else [])
             in if more \<noteq> []
                then let self' = self\<lparr>r_wptr := r_size self, r_data := r_data self @ more\<rparr>
                     in rassert (r_rptr self' \<noteq> r_wptr self') (Inr (Some self'))
                else rbind (alloc siz) (\<lambda>mem.
                     if length mem \<le> r_size self then Inl NO_RETURN
                     else let old = drop (r_rptr self) (r_data self) @ take (r_wptr self) (r_data self);
                              self' = self\<lparr>r_data := old @ drop (length old) mem,
                                r_rptr := (if length old = 0 then length mem else 0), r_wptr := length old\<rparr>
                          in rassert (length old < length mem \<and> r_wptr self' < r_size self' \<and> r_rptr self' \<noteq> r_wptr self')
                             (Inr (Some self')))))"

section \<open>Writing\<close>

definition store :: "ringbuffer \<Rightarrow> nat \<Rightarrow> byte list \<Rightarrow> byte list" where
  "store self p src = take p (r_data self) @ src @ drop (p + length src) (r_data self)"

definition write_signals :: "nat \<Rightarrow> bool \<Rightarrow> bool \<Rightarrow> rb_signal list" where
  "write_signals n was_empty is_full =
     (if n \<noteq> 0 then if was_empty then [Sig_broadcast]
        else if is_full then [Sig_broadcast_channel RBUF_STATE_CHANNEL_FULL] else [] else [])"

text \<open>The write below the read pointer.\<close>

definition write_below :: "ringbuffer \<Rightarrow> byte list list \<Rightarrow> nat \<Rightarrow> nat \<Rightarrow> (nat \<times> ringbuffer \<times> rb_signal list) result" where
  "write_below self iov iov_offset num_bytes =
     (let was_empty = (r_wptr self = 0 \<and> r_rptr self = r_size self);
          n = min (r_rptr self - r_wptr self) num_bytes
      in rbind (iov_read iov iov_offset n) (\<lambda>src.
         let self' = self\<lparr>r_data := store self (r_wptr self) src, r_wptr := r_wptr self + n\<rparr>;
             is_full = (r_wptr self' = r_rptr self')
         in if r_wptr self' = r_size self
            then rassert (r_rptr self' = r_size self \<and> is_full)
                 (Inr (n, self'\<lparr>r_rptr := 0, r_wptr := 0\<rparr>, write_signals n was_empty is_full))
            else Inr (n, self', write_signals n was_empty is_full)))"

text \<open>The write up to the end of the memory, and from its start up to the read pointer.\<close>

definition write_above :: "ringbuffer \<Rightarrow> byte list list \<Rightarrow> nat \<Rightarrow> nat \<Rightarrow> (nat \<times> ringbuffer \<times> rb_signal list) result" where
  "write_above self iov iov_offset num_bytes =
     (let n = min (r_size self - r_wptr self) num_bytes
      in rbind (iov_read iov iov_offset n) (\<lambda>src.
         let self = self\<lparr>r_data := store self (r_wptr self) src, r_wptr := r_wptr self + n\<rparr>
         in if r_wptr self = r_size self
            then let self = self\<lparr>r_wptr := 0\<rparr>
                 in if r_rptr self \<noteq> 0
                    then let max_write = min (r_rptr self) (num_bytes - n)
                         in rbind (iov_read iov (iov_offset + n) max_write) (\<lambda>src.
                            let self = self\<lparr>r_data := store self 0 src, r_wptr := max_write\<rparr>
                            in rassert (r_wptr self \<noteq> r_size self)
                               (Inr (n + max_write, self,
                                  write_signals (n + max_write) False (r_wptr self = r_rptr self))))
                    else Inr (n, self, write_signals n False False)
            else Inr (n, self, write_signals n False False)))"

definition write_pass :: "ringbuffer \<Rightarrow> byte list list \<Rightarrow> nat \<Rightarrow> nat \<Rightarrow> (nat \<times> ringbuffer \<times> rb_signal list) result" where
  "write_pass self iov iov_offset num_bytes =
     rassert (r_wptr self < r_size self \<or> r_size self = 0)
     (if r_wptr self < r_rptr self then write_below self iov iov_offset num_bytes
      else write_above self iov iov_offset num_bytes)"

text \<open>The buffer is not full once it has grown, as asserted there, so that one more pass ends the write.\<close>

definition ringbuffer_writev_atomic :: "(nat \<Rightarrow> nat \<Rightarrow> byte list) \<Rightarrow> (nat \<Rightarrow> byte list result) \<Rightarrow>
    ringbuffer \<Rightarrow> byte list list \<Rightarrow> nat \<Rightarrow> nat \<Rightarrow> (nat \<times> ringbuffer \<times> rb_signal list) result" where
  "ringbuffer_writev_atomic allat alloc self iov iov_offset num_bytes =
     (if num_bytes = 0 \<or> r_closed self then Inr (0, self, [])
      else rassert (r_wptr self < r_size self \<or> r_size self = 0)
       (if r_wptr self = r_rptr self
        then rbind (increase_buffer allat alloc self num_bytes) (\<lambda>r. case r of
               None \<Rightarrow> Inr (0, self, [])
             | Some self \<Rightarrow> write_pass self iov iov_offset num_bytes)
        else write_pass self iov iov_offset num_bytes))"

definition ringbuffer_write_atomic :: "(nat \<Rightarrow> nat \<Rightarrow> byte list) \<Rightarrow> (nat \<Rightarrow> byte list result) \<Rightarrow>
    ringbuffer \<Rightarrow> byte list \<Rightarrow> (nat \<times> ringbuffer \<times> rb_signal list) result" where
  "ringbuffer_write_atomic allat alloc self buf = ringbuffer_writev_atomic allat alloc self [buf] 0 (length buf)"

definition ringbuffer_writev :: "(nat \<Rightarrow> nat \<Rightarrow> byte list) \<Rightarrow> (nat \<Rightarrow> byte list result) \<Rightarrow> thread_event list \<Rightarrow>
    ringbuffer \<Rightarrow> byte list list \<Rightarrow> nat \<Rightarrow> nat \<Rightarrow> bool \<Rightarrow> (unit \<times> nat \<times> ringbuffer \<times> rb_signal list \<times> thread_event list) option result" where
  "ringbuffer_writev allat alloc sched self iov iov_offset num_bytes nonblock =
     wait_loop (\<lambda>self io. rbind (ringbuffer_writev_atomic allat alloc self iov iov_offset num_bytes) (\<lambda>r. Inr (io, r)))
       RBUF_STATE_CHANNEL_NOTFULL num_bytes nonblock Try sched self ()"

definition ringbuffer_write :: "(nat \<Rightarrow> nat \<Rightarrow> byte list) \<Rightarrow> (nat \<Rightarrow> byte list result) \<Rightarrow> thread_event list \<Rightarrow>
    ringbuffer \<Rightarrow> byte list \<Rightarrow> bool \<Rightarrow> (unit \<times> nat \<times> ringbuffer \<times> rb_signal list \<times> thread_event list) option result" where
  "ringbuffer_write allat alloc sched self buf nonblock =
     ringbuffer_writev allat alloc sched self [buf] 0 (length buf) nonblock"

function writeall_loop :: "(nat \<Rightarrow> nat \<Rightarrow> byte list) \<Rightarrow> (nat \<Rightarrow> byte list result) \<Rightarrow> thread_event list \<Rightarrow>
    ringbuffer \<Rightarrow> byte list \<Rightarrow> nat \<Rightarrow> bool \<Rightarrow> (nat \<times> ringbuffer \<times> thread_event list) option result" where
  "writeall_loop allat alloc sched self buf n nonblock =
     rbind (ringbuffer_write allat alloc sched self (drop n buf) nonblock) (\<lambda>r. case r of
         None \<Rightarrow> Inr None
       | Some (_, part, self, sigs, sched) \<Rightarrow>
           if part \<noteq> 0 \<and> n + part < length buf
           then writeall_loop allat alloc sched self buf (n + part) nonblock
           else Inr (Some (n + part, self, sched)))"
  by pat_completeness auto
termination
  by (relation "measure (\<lambda>(allat, alloc, sched, self, buf, n, nonblock). length buf - n)") auto

declare writeall_loop.simps [simp del]

definition ringbuffer_writeall :: "(nat \<Rightarrow> nat \<Rightarrow> byte list) \<Rightarrow> (nat \<Rightarrow> byte list result) \<Rightarrow> thread_event list \<Rightarrow>
    ringbuffer \<Rightarrow> byte list \<Rightarrow> bool \<Rightarrow> (nat \<times> ringbuffer \<times> thread_event list) option result" where
  "ringbuffer_writeall allat alloc sched self buf nonblock = writeall_loop allat alloc sched self buf 0 nonblock"

end
