(* ===== verification/Ringbuffer_Queue.thy ===== *)
theory Ringbuffer_Queue
  imports Ringbuffer
begin

text \<open>
  The ring buffer as a queue of bytes: what a buffer holds, that reads take it from the front and
  writes append to it, across the wrap-around and the growth of the memory.
\<close>

section \<open>The bytes of a buffer\<close>

definition rb_bytes :: "ringbuffer \<Rightarrow> byte list" where
  "rb_bytes self = (if r_rptr self < r_wptr self then take (r_wptr self - r_rptr self) (drop (r_rptr self) (r_data self))
     else drop (r_rptr self) (r_data self) @ take (r_wptr self) (r_data self))"

definition rb_wf :: "ringbuffer \<Rightarrow> bool" where
  "rb_wf self \<longleftrightarrow> r_rptr self \<le> r_size self \<and> (r_wptr self < r_size self \<or> r_size self = 0 \<and> r_wptr self = 0)"

definition rb_full :: "ringbuffer \<Rightarrow> bool" where
  "rb_full self \<longleftrightarrow> r_rptr self = r_wptr self"

lemma length_rb_bytes: "rb_wf self \<Longrightarrow> length (rb_bytes self) = ringbuffer_maxread self"
  by (auto simp: rb_wf_def rb_bytes_def ringbuffer_maxread_def)

lemma rb_bytes_le_size: "rb_wf self \<Longrightarrow> length (rb_bytes self) \<le> r_size self"
  by (auto simp: length_rb_bytes ringbuffer_maxread_def rb_wf_def)

lemma rb_full_iff: "rb_wf self \<Longrightarrow> rb_full self \<longleftrightarrow> length (rb_bytes self) = r_size self"
  by (auto simp: length_rb_bytes ringbuffer_maxread_def rb_wf_def rb_full_def)

lemma rb_empty_iff: "rb_wf self \<Longrightarrow> rb_bytes self = [] \<longleftrightarrow> r_rptr self = r_size self \<and> r_wptr self = 0"
  by (auto simp: rb_bytes_def rb_wf_def)

section \<open>Reading\<close>

text \<open>The four positions of the pointers that a read tells apart.\<close>

lemma read_cases:
  assumes "rb_wf self"
  obtains (between) "r_rptr self < r_wptr self" "r_wptr self < r_size self"
  | (at_end) "r_rptr self = r_size self" "0 < r_wptr self" "r_wptr self < r_size self"
  | (around) "r_wptr self \<le> r_rptr self" "r_rptr self < r_size self"
  | (empty) "r_rptr self = r_size self" "r_wptr self = 0"
  using assms by (fastforce simp: rb_wf_def)

lemmas read_defs = read_start_def read_high_def read_mid_def read_low_def Let_def

lemma read_between:
  assumes "r_rptr self < r_wptr self" "r_wptr self < r_size self"
  shows "read_start self = r_rptr self" "read_high self n = 0" "read_mid self n = r_rptr self"
    "read_low self n = min (r_wptr self - r_rptr self) n"
  using assms by (auto simp: read_defs)

lemma read_at_end:
  assumes "r_rptr self = r_size self" "0 < r_wptr self" "r_wptr self < r_size self"
  shows "read_start self = 0" "read_high self n = 0" "read_mid self n = 0" "read_low self n = min (r_wptr self) n"
  using assms by (auto simp: read_defs)

lemma read_around:
  assumes "r_wptr self \<le> r_rptr self" "r_rptr self < r_size self"
  shows "read_start self = r_rptr self" "read_high self n = min (r_size self - r_rptr self) n"
    "read_mid self n = (if r_size self - r_rptr self \<le> n \<and> r_wptr self \<noteq> 0 then 0 else r_rptr self + read_high self n)"
    "read_low self n = (if r_size self - r_rptr self \<le> n then min (r_wptr self) (n - (r_size self - r_rptr self)) else 0)"
  using assms by (auto simp: read_defs)

lemma read_empty:
  assumes "r_rptr self = r_size self" "r_wptr self = 0"
  shows "read_start self = r_size self" "read_high self n = 0" "read_mid self n = r_size self" "read_low self n = 0"
  using assms by (auto simp: read_defs)

lemma read_chunks:
  assumes "rb_wf self"
  shows "chunk self (read_start self) (read_high self n) @ chunk self (read_mid self n) (read_low self n) = take n (rb_bytes self)"
  using assms
proof (cases rule: read_cases)
  case between
  then show ?thesis by (simp add: read_between chunk_def rb_bytes_def min.commute)
next
  case at_end
  then show ?thesis by (simp add: read_at_end chunk_def rb_bytes_def min.commute)
next
  case around
  then show ?thesis by (auto simp: read_around chunk_def rb_bytes_def min_def)
next
  case empty
  then show ?thesis by (simp add: read_empty chunk_def rb_bytes_def)
qed

lemma read_finish_ok:
  assumes wf: "rb_wf self" and n: "n \<noteq> 0 \<or> \<not> rb_full self \<or> r_size self = 0"
  obtains self' sigs where "read_finish self n = (min n (length (rb_bytes self)), self', sigs)"
    "rb_wf self'" "rb_bytes self' = drop n (rb_bytes self)" "r_data self' = r_data self" "r_limt self' = r_limt self"
    "r_static self' = r_static self" "r_closed self' = r_closed self"
proof -
  have "\<exists>self' sigs. read_finish self n = (min n (length (rb_bytes self)), self', sigs) \<and>
      rb_wf self' \<and> rb_bytes self' = drop n (rb_bytes self) \<and> r_data self' = r_data self \<and> r_limt self' = r_limt self \<and>
      r_static self' = r_static self \<and> r_closed self' = r_closed self"
    using wf
  proof (cases rule: read_cases)
    case between
    then show ?thesis by (auto simp: read_finish_def read_between Let_def rb_wf_def rb_bytes_def min_def drop_take add.commute)
  next
    case at_end
    then show ?thesis by (auto simp: read_finish_def read_at_end Let_def rb_wf_def rb_bytes_def min_def drop_take add.commute)
  next
    case around
    with n show ?thesis by (auto simp: read_finish_def read_around Let_def rb_wf_def rb_bytes_def min_def drop_take add.commute rb_full_def)
  next
    case empty
    then show ?thesis by (auto simp: read_finish_def read_empty Let_def rb_wf_def rb_bytes_def min_def drop_take add.commute)
  qed
  then show ?thesis using that by blast
qed

section \<open>Writing\<close>

definition rb_keep :: "ringbuffer \<Rightarrow> ringbuffer \<Rightarrow> bool" where
  "rb_keep self self' \<longleftrightarrow> r_limt self' = r_limt self \<and> r_static self' = r_static self \<and> r_closed self' = r_closed self"

lemma rb_keep_refl [simp]: "rb_keep self self"
  by (simp add: rb_keep_def)

lemma store_eq:
  assumes "p + length src \<le> r_size self"
  shows "length (store self p src) = r_size self" "take p (store self p src) = take p (r_data self)"
    "drop (p + length src) (store self p src) = drop (p + length src) (r_data self)"
    "take (p + length src) (store self p src) = take p (r_data self) @ src"
  using assms by (auto simp: store_def)

lemma drop_store_below:
  assumes "p + length src \<le> r_size self" "q \<le> p"
  shows "drop q (store self p src) = take (p - q) (drop q (r_data self)) @ src @ drop (p + length src) (r_data self)"
  using assms by (simp add: store_def drop_take)

lemma drop_store_above:
  assumes "p + length src \<le> q" "q \<le> r_size self"
  shows "drop q (store self p src) = drop q (r_data self)"
  using assms by (simp add: store_def)

text \<open>A write below the read pointer appends what it gets from the vector.\<close>

lemma write_below_ok:
  assumes wf: "rb_wf self" and lt: "r_wptr self < r_rptr self" and n: "n \<noteq> 0"
    and src: "iov_read iov off (min (r_rptr self - r_wptr self) n) = Inr src" "length src = min (r_rptr self - r_wptr self) n"
  shows "\<exists>self' sigs. write_below self iov off n = Inr (length src, self', sigs) \<and> rb_wf self' \<and> rb_keep self self' \<and>
    r_size self' = r_size self \<and> rb_bytes self' = rb_bytes self @ src \<and> (rb_bytes self = [] \<longrightarrow> sigs = [Sig_broadcast])"
proof -
  define w where "w = r_wptr self"
  have b: "w + length src \<le> r_rptr self" "r_rptr self \<le> r_size self" "w < r_size self" "length src \<noteq> 0"
    using wf lt src(2) n by (auto simp: rb_wf_def w_def)
  have fit: "w + length src \<le> r_size self" using b by simp
  note st = store_eq [OF fit] drop_store_above [of w src, OF b(1,2)]
  have old: "rb_bytes self = drop (r_rptr self) (r_data self) @ take w (r_data self)" using lt by (simp add: rb_bytes_def w_def)
  have emp: "rb_bytes self = [] \<longrightarrow> r_wptr self = 0 \<and> r_rptr self = r_size self" using rb_empty_iff [OF wf] by simp
  let ?s = "self\<lparr>r_data := store self w src, r_wptr := w + length src\<rparr>"
  show ?thesis
  proof (cases "w + length src = r_size self")
    case True
    then have rptr: "r_rptr self = r_size self" using b by simp
    then have "write_below self iov off n = Inr (length src, ?s\<lparr>r_rptr := 0, r_wptr := 0\<rparr>, write_signals (length src) (r_wptr self = 0 \<and> r_rptr self = r_size self) True)"
      using src True st(1) by (simp add: write_below_def Let_def w_def [symmetric])
    moreover have "rb_bytes (?s\<lparr>r_rptr := 0, r_wptr := 0\<rparr>) = rb_bytes self @ src"
      unfolding old using st(4) True rptr st(1) by (simp add: rb_bytes_def)
    moreover have "rb_wf (?s\<lparr>r_rptr := 0, r_wptr := 0\<rparr>)" using b st(1) by (simp add: rb_wf_def)
    ultimately show ?thesis using st(1) emp b by (auto simp: rb_keep_def write_signals_def)
  next
    case False
    then have "write_below self iov off n = Inr (length src, ?s, write_signals (length src) (r_wptr self = 0 \<and> r_rptr self = r_size self) (w + length src = r_rptr self))"
      using src st(1) by (simp add: write_below_def Let_def w_def [symmetric])
    moreover have "rb_bytes ?s = rb_bytes self @ src" unfolding old using st b by (simp add: rb_bytes_def)
    moreover have "rb_wf ?s" using b False st(1) by (simp add: rb_wf_def)
    ultimately show ?thesis using st(1) emp b by (auto simp: rb_keep_def write_signals_def)
  qed
qed

text \<open>How many bytes a write above the read pointer stores before the end of the memory, and how many after.\<close>

definition write_split :: "ringbuffer \<Rightarrow> nat \<Rightarrow> nat \<times> nat" where
  "write_split self n = (let hi = min (r_size self - r_wptr self) n in (hi, min (r_rptr self) (n - hi)))"

lemma write_above_ok:
  assumes wf: "rb_wf self" and lt: "r_rptr self < r_wptr self"
    and sp: "write_split self n = (hi, lo)"
    and src: "iov_read iov off hi = Inr src" "length src = hi"
    and src2: "r_wptr self + hi = r_size self \<Longrightarrow> r_rptr self \<noteq> 0 \<Longrightarrow> iov_read iov (off + hi) lo = Inr src2" "length src2 = lo"
  shows "\<exists>self' sigs. write_above self iov off n = Inr (hi + lo, self', sigs) \<and> rb_wf self' \<and> rb_keep self self' \<and>
    r_size self' = r_size self \<and> rb_bytes self' = rb_bytes self @ src @ src2"
proof -
  define w where "w = r_wptr self"
  have hi: "hi = min (r_size self - w) n" "lo = min (r_rptr self) (n - hi)" using sp by (auto simp: write_split_def Let_def w_def)
  have b: "r_rptr self < w" "w < r_size self" using wf lt by (auto simp: rb_wf_def w_def)
  have "hi \<le> r_size self - w" using hi by simp
  then have fit: "w + length src \<le> r_size self" using b(2) src(2) by linarith
  note st = store_eq [OF fit] drop_store_below [OF fit, of "r_rptr self"]
  have old: "rb_bytes self = take (w - r_rptr self) (drop (r_rptr self) (r_data self))" using lt by (simp add: rb_bytes_def w_def)
  let ?s = "self\<lparr>r_data := store self w src, r_wptr := w + hi\<rparr>"
  show ?thesis
  proof (cases "w + hi = r_size self")
    case False
    then have lo: "lo = 0" using hi b by (auto simp: min_def split: if_splits)
    have "write_above self iov off n = Inr (hi, ?s, write_signals hi False False)"
      using src False st(1) by (simp add: write_above_def Let_def w_def [symmetric] hi(1) [symmetric])
    moreover have "rb_bytes ?s = rb_bytes self @ src"
      unfolding old using b src(2) by (simp add: rb_bytes_def st(5))
    moreover have "rb_wf ?s" using b False st(1) fit src by (simp add: rb_wf_def)
    ultimately show ?thesis using st(1) lo src2(2) by (auto simp: rb_keep_def)
  next
    case True
    let ?t = "self\<lparr>r_data := store self w src, r_wptr := 0\<rparr>"
    have high: "drop (r_rptr self) (store self w src) = rb_bytes self @ src" using b True src(2) by (simp add: st(5) old)
    show ?thesis
    proof (cases "r_rptr self = 0")
      case True2: True
      then have "write_above self iov off n = Inr (hi, ?t, write_signals hi False False)"
        using src True st(1) by (simp add: write_above_def Let_def w_def [symmetric] hi(1) [symmetric])
      moreover have "rb_bytes ?t = rb_bytes self @ src" unfolding high [symmetric] using True2 by (simp add: rb_bytes_def)
      moreover have "rb_wf ?t" using b st(1) by (simp add: rb_wf_def)
      ultimately show ?thesis using st(1) True2 src2(2) hi by (auto simp: rb_keep_def)
    next
      case False
      have s2: "iov_read iov (off + hi) lo = Inr src2" using src2(1) True False by (simp add: w_def)
      have fit2: "0 + length src2 \<le> r_size ?t" using src2(2) hi(2) b st(1) by simp
      let ?u = "?t\<lparr>r_data := store ?t 0 src2, r_wptr := lo\<rparr>"
      note st2 = store_eq [OF fit2]
      have l2: "length src2 \<le> r_rptr self" using src2(2) hi(2) by simp
      then have "lo < r_size self" using src2(2) b by simp
      have "drop (r_rptr self) (store ?t 0 src2) = drop (r_rptr self) (r_data ?t)"
        using l2 b st(1) by (intro drop_store_above) auto
      then have "rb_bytes ?u = rb_bytes self @ src @ src2"
        unfolding append_assoc [symmetric] high [symmetric] using l2 src2(2) st2(4) by (simp add: rb_bytes_def)
      moreover have "write_above self iov off n = Inr (hi + lo, ?u, write_signals (hi + lo) False (lo = r_rptr self))"
        using src True st(1) st2(1) False s2 \<open>lo < r_size self\<close>
        by (simp add: write_above_def Let_def w_def [symmetric] hi(1) [symmetric] hi(2) [symmetric])
      moreover have "rb_wf ?u" using b st(1) st2(1) l2 src2(2) by (simp add: rb_wf_def)
      ultimately show ?thesis using st(1) st2(1) by (auto simp: rb_keep_def)
    qed
  qed
qed

text \<open>
  A single buffer: the second part of a write that wraps around comes from the start of the buffer
  again, since \<^verbatim>\<open>iov_read\<close> ignores the offset.
\<close>

definition write_data :: "ringbuffer \<Rightarrow> byte list \<Rightarrow> byte list" where
  "write_data self buf =
     (if r_wptr self < r_rptr self then take (r_rptr self - r_wptr self) buf
      else let (hi, lo) = write_split self (length buf) in take hi buf @ take lo buf)"

lemma length_write_data:
  assumes "rb_wf self" "\<not> rb_full self"
  shows "length (write_data self buf) = min (length buf) (r_size self - length (rb_bytes self))"
  using assms by (auto simp: write_data_def write_split_def Let_def length_rb_bytes ringbuffer_maxread_def rb_wf_def rb_full_def min_def)

lemma write_pass_ok:
  assumes wf: "rb_wf self" and nf: "\<not> rb_full self" and buf: "buf \<noteq> []"
  shows "\<exists>self' sigs. write_pass self [buf] 0 (length buf) = Inr (length (write_data self buf), self', sigs) \<and>
    rb_wf self' \<and> rb_keep self self' \<and> r_size self' = r_size self \<and> rb_bytes self' = rb_bytes self @ write_data self buf \<and>
    (rb_bytes self = [] \<longrightarrow> sigs = [Sig_broadcast])"
proof -
  have sz: "r_wptr self < r_size self \<or> r_size self = 0" using wf by (auto simp: rb_wf_def)
  have gat: "iov_read [buf] 0 m = Inr (take m buf)" if "m \<le> length buf" for m
    using iov_gather_ok [of m "[buf]"] that by (simp add: iov_read_def)
  show ?thesis
  proof (cases "r_wptr self < r_rptr self")
    case True
    let ?m = "min (r_rptr self - r_wptr self) (length buf)"
    have "write_data self buf = take ?m buf" using True by (simp add: write_data_def min_def)
    moreover have "iov_read [buf] 0 ?m = Inr (take ?m buf)" by (rule gat) simp
    ultimately show ?thesis using write_below_ok [OF wf True _ _, of "length buf" "[buf]" 0 "write_data self buf"] buf sz True
      by (simp add: write_pass_def)
  next
    case False
    then have lt: "r_rptr self < r_wptr self" using nf by (simp add: rb_full_def)
    then have ne: "rb_bytes self \<noteq> []" using wf by (auto simp: rb_empty_iff)
    obtain hi lo where sp: "write_split self (length buf) = (hi, lo)" by (metis surj_pair)
    then have hl: "hi \<le> length buf" "lo \<le> length buf - hi" "hi \<noteq> 0"
      using lt wf buf by (auto simp: write_split_def Let_def rb_wf_def min_def split: if_splits)
    have wd: "write_data self buf = take hi buf @ take lo buf" using False sp by (simp add: write_data_def)
    have "iov_read [buf] (0 + hi) lo = Inr (take lo buf)" using hl by (intro iov_read_tail) auto
    from write_above_ok [OF wf lt sp gat [OF hl(1)] _ this] hl False sz wd ne show ?thesis by (simp add: write_pass_def)
  qed
qed

section \<open>Growing\<close>

lemma double_until_ok:
  "siz \<noteq> 0 \<Longrightarrow> unat target \<le> 2 ^ 31 \<Longrightarrow> \<exists>r. double_until siz target = Inr r \<and> target \<le> r \<and> r \<noteq> 0"
proof (induction siz target rule: double_until.induct)
  case (1 siz target)
  show ?case
  proof (cases "siz < target")
    case True
    then have lt: "unat siz < 2 ^ 31" using "1.prems" by (simp add: word_less_nat_alt)
    then have "unat (siz * 2) = unat siz * 2" by (subst unat_mult_lem [THEN iffD1]) auto
    moreover have "unat siz \<noteq> 0" using "1.prems" by (simp add: unat_eq_zero)
    ultimately have "siz * 2 \<noteq> 0" by (metis mult_eq_0_iff unat_0 zero_neq_numeral)
    from "1.IH" [OF True "1.prems"(1) this "1.prems"(2)] True "1.prems"(1) show ?thesis
      by (subst double_until.simps) simp
  next
    case False
    with "1.prems" show ?thesis by (subst double_until.simps) auto
  qed
qed

lemma double_until_endless:
  "siz = 2 ^ j \<Longrightarrow> 2 ^ 31 < unat target \<Longrightarrow> double_until siz target = Inl NO_RETURN"
proof (induction siz target arbitrary: j rule: double_until.induct)
  case (1 siz target)
  have lt: "siz < target"
  proof (cases "j < 32")
    case True
    then have "(2::nat) ^ j < 2 ^ 32" by (intro power_strict_increasing) auto
    then have "unat (of_nat (2 ^ j) :: 32 word) = 2 ^ j" by (rule unat_of_nat_32)
    then have "unat siz = 2 ^ j" using "1.prems"(1) by simp
    also have "\<dots> \<le> 2 ^ 31" using True by (intro power_increasing) auto
    finally show ?thesis using "1.prems"(2) by (simp add: word_less_nat_alt)
  next
    case False
    then have "siz = 0" using "1.prems"(1) by (simp add: exp_eq_zero_iff)
    then show ?thesis using "1.prems"(2) by (simp add: word_less_nat_alt)
  qed
  show ?case
  proof (cases "siz = 0")
    case False
    have "siz * 2 = 2 ^ Suc j" using "1.prems"(1) by simp
    from "1.IH" [OF lt False this "1.prems"(2)] lt False show ?thesis by (subst double_until.simps) simp
  qed (use lt in \<open>subst double_until.simps, simp\<close>)
qed

lemma increase_buffer_ok:
  assumes wf: "rb_wf self" and full: "rb_full self" and inc: "increase_buffer allat alloc self n = Inr (Some self')"
  shows "rb_wf self'" "\<not> rb_full self'" "rb_bytes self' = rb_bytes self" "rb_keep self self'" "r_size self < r_size self'"
    "r_wptr self' < r_rptr self' \<or> r_rptr self' = 0"
proof -
  have eq: "r_rptr self = r_wptr self" using full by (simp add: rb_full_def)
  from inc obtain siz where siz: "increase_size self n = Inr siz" "\<not> siz \<le> r_size self" and st: "\<not> r_static self"
    by (auto simp: increase_buffer_def rbind_eq_Inr_iff split: if_splits)
  define more where "more = (if r_size self \<noteq> 0 \<and> r_rptr self = 0 then allat (r_size self) (siz - r_size self) else [])"
  note inc' = inc [unfolded increase_buffer_def Let_def if_not_P [OF st] siz(1) rbind_Inr if_not_P [OF siz(2)] more_def [symmetric]]
  have "rb_wf self' \<and> \<not> rb_full self' \<and> rb_bytes self' = rb_bytes self \<and> rb_keep self self' \<and> r_size self < r_size self' \<and>
    (r_wptr self' < r_rptr self' \<or> r_rptr self' = 0)"
  proof (cases "more = []")
    case True
    define old where "old = drop (r_rptr self) (r_data self) @ take (r_wptr self) (r_data self)"
    have old: "old = rb_bytes self" "length old = r_size self" using wf eq by (auto simp: old_def rb_bytes_def rb_wf_def)
    from inc' [folded old_def] True obtain mem where mem: "r_size self < length mem" and self': "self' = self\<lparr>r_data := old @ drop (length old) mem,
        r_rptr := (if length old = 0 then length mem else 0), r_wptr := length old\<rparr>"
      by (auto simp: rbind_eq_Inr_iff rassert_eq_Inr_iff not_le split: if_splits)
    with old show ?thesis by (auto simp: rb_wf_def rb_full_def rb_keep_def rb_bytes_def)
  next
    case False
    then have "r_rptr self = 0" "r_size self \<noteq> 0" by (auto simp: more_def split: if_splits)
    with inc' False wf eq show ?thesis
      by (auto simp: rassert_eq_Inr_iff rb_wf_def rb_full_def rb_keep_def rb_bytes_def)
  qed
  then show "rb_wf self'" "\<not> rb_full self'" "rb_bytes self' = rb_bytes self" "rb_keep self self'" "r_size self < r_size self'"
    "r_wptr self' < r_rptr self' \<or> r_rptr self' = 0" by auto
qed

section \<open>Writes of any vector\<close>

text \<open>What a write does for every vector and offset: it appends as many bytes as it returns, and wakes every thread that waits when
  the buffer was empty.\<close>

definition write_appends :: "ringbuffer \<Rightarrow> nat \<times> ringbuffer \<times> rb_signal list \<Rightarrow> bool" where
  "write_appends self r \<longleftrightarrow>
     (case r of (k, self', sigs) \<Rightarrow>
        rb_wf self' \<and> rb_keep self self' \<and> (\<exists>src. length src = k \<and> rb_bytes self' = rb_bytes self @ src) \<and>
        (rb_bytes self = [] \<and> rb_bytes self' \<noteq> [] \<longrightarrow> Sig_broadcast \<in> set sigs))"

lemma write_pass_appends:
  assumes wf: "rb_wf self" and nf: "\<not> rb_full self" and n: "n \<noteq> 0" and w: "write_pass self iov off n = Inr r"
  shows "write_appends self r"
proof (cases "r_wptr self < r_rptr self")
  case True
  let ?m = "min (r_rptr self - r_wptr self) n"
  from w True obtain src where src: "iov_read iov off ?m = Inr src"
    by (auto simp: write_pass_def write_below_def Let_def rassert_eq_Inr_iff rbind_eq_Inr_iff)
  from write_below_ok [OF wf True n src iov_read_size [OF src]] obtain self' sigs where
    b: "write_below self iov off n = Inr (length src, self', sigs)" and s: "rb_wf self'" "rb_keep self self'"
      "rb_bytes self' = rb_bytes self @ src" "rb_bytes self = [] \<longrightarrow> sigs = [Sig_broadcast]" by blast
  have "r = (length src, self', sigs)" using w b True by (simp add: write_pass_def rassert_eq_Inr_iff)
  then show ?thesis using s unfolding write_appends_def by fastforce
next
  case False
  then have lt: "r_rptr self < r_wptr self" using nf by (simp add: rb_full_def)
  then have ne: "rb_bytes self \<noteq> []" using wf by (auto simp: rb_empty_iff)
  obtain hi lo where sp: "write_split self n = (hi, lo)" by (metis surj_pair)
  then have hl: "hi = min (r_size self - r_wptr self) n" "lo = min (r_rptr self) (n - hi)" by (auto simp: write_split_def Let_def)
  from w False obtain src where src: "iov_read iov off hi = Inr src"
    by (auto simp: write_pass_def write_above_def Let_def rassert_eq_Inr_iff rbind_eq_Inr_iff hl(1))
  have "\<exists>src2. (r_wptr self + hi = r_size self \<longrightarrow> r_rptr self \<noteq> 0 \<longrightarrow> iov_read iov (off + hi) lo = Inr src2) \<and> length src2 = lo"
  proof (cases "r_wptr self + hi = r_size self \<and> r_rptr self \<noteq> 0")
    case True
    have "length (store self (r_wptr self) src) = r_size self"
      by (rule store_eq) (use True iov_read_size [OF src] in simp)
    with w False True obtain src2 where "iov_read iov (off + hi) lo = Inr src2"
      by (auto simp: write_pass_def write_above_def Let_def rassert_eq_Inr_iff rbind_eq_Inr_iff src
          hl(1) [symmetric] hl(2) [symmetric])
    with iov_read_size show ?thesis by blast
  next
    case False
    then show ?thesis by (intro exI [of _ "replicate lo 0"]) auto
  qed
  then obtain src2 where src2: "r_wptr self + hi = r_size self \<Longrightarrow> r_rptr self \<noteq> 0 \<Longrightarrow> iov_read iov (off + hi) lo = Inr src2"
    "length src2 = lo" by blast
  from write_above_ok [OF wf lt sp src iov_read_size [OF src] src2] obtain self' sigs where
    a: "write_above self iov off n = Inr (hi + lo, self', sigs)" and s: "rb_wf self'" "rb_keep self self'"
      "rb_bytes self' = rb_bytes self @ src @ src2" by blast
  have "r = (hi + lo, self', sigs)" using w a False by (simp add: write_pass_def rassert_eq_Inr_iff)
  moreover have "length (src @ src2) = hi + lo" using src2(2) iov_read_size [OF src] by simp
  ultimately show ?thesis using s ne unfolding write_appends_def by blast
qed

lemma writev_atomic_appends:
  assumes wf: "rb_wf self" and w: "ringbuffer_writev_atomic allat alloc self iov off n = Inr r"
  shows "write_appends self r"
proof (cases "n = 0 \<or> r_closed self")
  case True
  with w wf show ?thesis by (auto simp: ringbuffer_writev_atomic_def write_appends_def)
next
  case False
  have sz: "r_wptr self < r_size self \<or> r_size self = 0" using wf by (auto simp: rb_wf_def)
  note w' = w [unfolded ringbuffer_writev_atomic_def if_not_P [OF False]]
  show ?thesis
  proof (cases "rb_full self")
    case True
    then have eq: "r_wptr self = r_rptr self" by (simp add: rb_full_def)
    from w' sz eq obtain t where t: "increase_buffer allat alloc self n = Inr t"
      by (auto simp: rassert_eq_Inr_iff rbind_eq_Inr_iff)
    show ?thesis
    proof (cases t)
      case None
      with t w' sz eq wf show ?thesis by (auto simp: rassert_eq_Inr_iff write_appends_def)
    next
      case (Some t')
      note i = increase_buffer_ok [OF wf True t [unfolded Some]]
      have "write_pass t' iov off n = Inr r" using w' sz eq t Some by (simp add: rassert_eq_Inr_iff)
      from write_pass_appends [OF i(1,2) _ this] False i(3,4) show ?thesis
        by (auto simp: write_appends_def rb_keep_def split: prod.splits)
    qed
  next
    case nf: False
    then have "write_pass self iov off n = Inr r" using w' sz by (auto simp: rb_full_def rassert_eq_Inr_iff)
    from write_pass_appends [OF wf nf _ this] False show ?thesis by simp
  qed
qed

end
