(* ===== verification/Ringbuffer_Props.thy ===== *)
theory Ringbuffer_Props
  imports Ringbuffer_Queue
begin

text \<open>
  The properties of the ring buffer: its invariant, the order of the bytes that pass through it, the
  undoing of reads, waiting readers, growth, and the inputs for which the code fails.
\<close>

section \<open>Reads and writes of a single buffer\<close>

lemma copy_to_Nil [simp]: "copy_to buf [] = buf"
  by (simp add: copy_to_def)

lemma iov_write_single:
  assumes "off + length src \<le> length buf" "off \<le> length buf"
  shows "iov_write [buf] off src = Inr [copy_to buf src]"
  using assms iov_write_tail [of off src buf] by (cases "off = 0") (auto simp: iov_write_def Let_def)

lemma chunk_length: "length (chunk self p n) \<le> n"
  by (simp add: chunk_def)

lemma chunk_0 [simp]: "chunk self p 0 = []"
  by (simp add: chunk_def)

lemma read_counts:
  assumes "rb_wf self"
  shows "read_high self n + read_low self n \<le> n"
  using assms by (cases rule: read_cases) (auto simp: read_between read_at_end read_around read_empty)

text \<open>What a read of one buffer does to it: both parts of the data are copied to its start.\<close>

definition read_result :: "ringbuffer \<Rightarrow> byte list \<Rightarrow> byte list" where
  "read_result self buf = (let n = length buf in
     copy_to (copy_to buf (chunk self (read_start self) (read_high self n))) (chunk self (read_mid self n) (read_low self n)))"

lemma readv_atomic_single:
  assumes "rb_wf self"
  shows "ringbuffer_readv_atomic self [buf] 0 (length buf) = Inr ([read_result self buf], read_finish self (length buf))"
    and "ringbuffer_peekv_atomic self [buf] 0 (length buf) =
      Inr ([read_result self buf], read_high self (length buf) + read_low self (length buf))"
proof -
  let ?n = "length buf"
  define c1 where "c1 = chunk self (read_start self) (read_high self ?n)"
  define c2 where "c2 = chunk self (read_mid self ?n) (read_low self ?n)"
  have le: "read_high self ?n + length c2 \<le> ?n" "length c1 \<le> ?n" "read_high self ?n \<le> ?n"
    using read_counts [OF assms, of ?n] chunk_length [of self "read_mid self ?n" "read_low self ?n"]
      chunk_length [of self "read_start self" "read_high self ?n"]
    unfolding c1_def c2_def by linarith+
  have 1: "(if read_start self < r_size self \<and> r_wptr self \<le> read_start self then iov_write [buf] 0 c1 else Inr [buf]) = Inr [copy_to buf c1]"
    using iov_write_single [of 0 c1 buf] le by (auto simp: c1_def read_high_def Let_def)
  have "length (copy_to buf c1) = ?n" using le by (simp add: copy_to_def)
  then have 2: "(if read_mid self ?n < r_wptr self then rassert (read_high self ?n \<le> ?n) (iov_write [copy_to buf c1] (0 + read_high self ?n) c2)
      else Inr [copy_to buf c1]) = Inr [copy_to (copy_to buf c1) c2]"
    using iov_write_single [of "read_high self ?n" c2 "copy_to buf c1"] le by (auto simp: c2_def read_low_def Let_def)
  show "ringbuffer_readv_atomic self [buf] 0 (length buf) = Inr ([read_result self buf], read_finish self (length buf))"
    "ringbuffer_peekv_atomic self [buf] 0 (length buf) =
      Inr ([read_result self buf], read_high self (length buf) + read_low self (length buf))"
    unfolding ringbuffer_readv_atomic_def ringbuffer_peekv_atomic_def Let_def c1_def [symmetric] c2_def [symmetric] 1 rbind_Inr 2
    by (simp_all add: read_result_def c1_def c2_def Let_def)
qed

text \<open>Transfers that do not cross the end of the memory.\<close>

definition straight_read :: "ringbuffer \<Rightarrow> nat \<Rightarrow> bool" where
  "straight_read self n \<longleftrightarrow> r_rptr self < r_wptr self \<or> r_rptr self = r_size self \<or> r_wptr self = 0 \<or> n \<le> r_size self - r_rptr self"

definition straight_write :: "ringbuffer \<Rightarrow> nat \<Rightarrow> bool" where
  "straight_write self n \<longleftrightarrow> r_wptr self \<le> r_rptr self \<or> r_rptr self = 0 \<or> n \<le> r_size self - r_wptr self"

lemma read_result_straight:
  assumes wf: "rb_wf self" and st: "straight_read self (length buf)"
  shows "read_result self buf = copy_to buf (take (length buf) (rb_bytes self))"
proof -
  have "read_high self (length buf) = 0 \<or> read_low self (length buf) = 0"
    using wf
  proof (cases rule: read_cases)
    case around
    with st show ?thesis by (auto simp: read_around straight_read_def)
  qed (auto simp: read_between read_at_end read_empty)
  with read_chunks [OF wf, of "length buf"] show ?thesis by (auto simp: read_result_def Let_def)
qed

lemma read_finish_wf:
  assumes "rb_wf self"
  shows "rb_wf (fst (snd (read_finish self n)))"
  using assms
proof (cases rule: read_cases)
  case between
  then show ?thesis by (auto simp: read_finish_def read_between Let_def rb_wf_def)
next
  case at_end
  then show ?thesis by (auto simp: read_finish_def read_at_end Let_def rb_wf_def)
next
  case around
  then show ?thesis by (auto simp: read_finish_def read_around Let_def rb_wf_def)
next
  case empty
  then show ?thesis by (auto simp: read_finish_def read_empty Let_def rb_wf_def)
qed

lemma write_data_straight:
  assumes "\<not> rb_full self" "straight_write self (length buf)"
  shows "take (length (write_data self buf)) buf = write_data self buf"
proof (cases "r_wptr self < r_rptr self")
  case False
  with assms have "snd (write_split self (length buf)) = 0"
    by (auto simp: rb_full_def straight_write_def write_split_def Let_def)
  with False show ?thesis by (auto simp: write_data_def min_def split: prod.splits)
qed (simp add: write_data_def min_def)

lemma write_atomic_ok:
  assumes wf: "rb_wf self" and w: "ringbuffer_write_atomic allat alloc self buf = Inr (k, self', sigs)"
  shows "rb_wf self' \<and> k \<le> length buf \<and>
    (straight_write self (length buf) \<longrightarrow> rb_bytes self' = rb_bytes self @ take k buf)"
proof (cases "buf = [] \<or> r_closed self")
  case True
  with w wf show ?thesis by (auto simp: ringbuffer_write_atomic_def ringbuffer_writev_atomic_def)
next
  case False
  have sz: "r_wptr self < r_size self \<or> r_size self = 0" using wf by (auto simp: rb_wf_def)
  note w' = w [unfolded ringbuffer_write_atomic_def ringbuffer_writev_atomic_def]
  have pass: "rb_wf t' \<and> m \<le> length buf \<and> (straight_write t (length buf) \<longrightarrow> rb_bytes t' = rb_bytes t @ take m buf)"
    if t: "rb_wf t" "\<not> rb_full t" and p: "write_pass t [buf] 0 (length buf) = Inr (m, t', sg)" for t m t' sg
  proof -
    from write_pass_ok [OF t, of buf] False p length_write_data [OF t, of buf] write_data_straight [OF t(2), of buf]
    show ?thesis by auto
  qed
  show ?thesis
  proof (cases "rb_full self")
    case True
    then have eq: "r_wptr self = r_rptr self" by (simp add: rb_full_def)
    show ?thesis
    proof (cases "increase_buffer allat alloc self (length buf)")
      case (Inl e)
      with w' False sz eq show ?thesis by simp
    next
      case (Inr r)
      show ?thesis
      proof (cases r)
        case None
        with Inr w' False sz eq wf show ?thesis by auto
      next
        case (Some t)
        note i = increase_buffer_ok [OF wf True Inr [unfolded Some]]
        have "straight_write t (length buf)" using i(6) by (auto simp: straight_write_def)
        with pass [OF i(1,2)] Some Inr w' False sz eq i(3) show ?thesis by auto
      qed
    qed
  next
    case False2: False
    then have "r_wptr self \<noteq> r_rptr self" by (auto simp: rb_full_def)
    with pass [OF wf False2] w' False sz show ?thesis by simp
  qed
qed

lemma read_atomic_ok:
  assumes wf: "rb_wf self" and n: "buf \<noteq> [] \<or> \<not> rb_full self"
    and r: "ringbuffer_read_atomic self buf = Inr (buf', k, self', sigs)"
  shows "rb_wf self' \<and> k = min (length buf) (length (rb_bytes self)) \<and> rb_bytes self' = drop k (rb_bytes self) \<and>
    (straight_read self (length buf) \<longrightarrow> take k buf' = take k (rb_bytes self))"
proof -
  have n': "length buf \<noteq> 0 \<or> \<not> rb_full self \<or> r_size self = 0" using n by auto
  obtain s g where f: "read_finish self (length buf) = (min (length buf) (length (rb_bytes self)), s, g)"
    "rb_wf s" "rb_bytes s = drop (length buf) (rb_bytes self)" by (rule read_finish_ok [OF wf n']) blast
  from r f have "buf' = read_result self buf" "k = min (length buf) (length (rb_bytes self))" "self' = s"
    by (auto simp: ringbuffer_read_atomic_def readv_atomic_single [OF wf])
  with f read_result_straight [OF wf, of buf] show ?thesis
    by (auto simp: copy_to_def min_def)
qed

section \<open>A queue of bytes\<close>

text \<open>
  What the users of a buffer rely on: \<open>put\<close> appends a prefix of the bytes given, \<open>get\<close> delivers
  bytes from the front and removes them; \<open>may_put\<close> and \<open>may_get\<close> are the calls the contract covers.
\<close>

locale byte_queue =
  fixes shape :: "'s \<Rightarrow> bool" and held :: "'s \<Rightarrow> byte list"
    and may_put may_get :: "'s \<Rightarrow> nat \<Rightarrow> bool"
    and put :: "'s \<Rightarrow> byte list \<Rightarrow> (nat \<times> 's \<times> 'g) result"
    and get :: "'s \<Rightarrow> byte list \<Rightarrow> (byte list \<times> nat \<times> 's \<times> 'g) result"
  assumes put_law: "shape s \<Longrightarrow> may_put s (length b) \<Longrightarrow> put s b = Inr (k, s', g) \<Longrightarrow> shape s' \<and> held s' = held s @ take k b"
    and get_law: "shape s \<Longrightarrow> may_get s (length b) \<Longrightarrow> get s b = Inr (b', k, s', g) \<Longrightarrow> shape s' \<and> held s = take k b' @ held s'"
begin

lemma put_keeps_order:
  assumes "shape s \<and> sent = received @ held s" "may_put s (length b)" "put s b = Inr (k, s', g)"
  shows "shape s' \<and> sent @ take k b = received @ held s'"
  using put_law [OF _ assms(2,3)] assms(1) by simp

lemma get_keeps_order:
  assumes "shape s \<and> sent = received @ held s" "may_get s (length b)" "get s b = Inr (b', k, s', g)"
  shows "shape s' \<and> sent = (received @ take k b') @ held s'"
  using get_law [OF _ assms(2,3)] assms(1) by simp

end

definition may_read :: "ringbuffer \<Rightarrow> nat \<Rightarrow> bool" where
  "may_read self n \<longleftrightarrow> straight_read self n \<and> (n \<noteq> 0 \<or> \<not> rb_full self)"

interpretation ring: byte_queue rb_wf rb_bytes straight_write may_read "ringbuffer_write_atomic allat alloc" ringbuffer_read_atomic
  for allat alloc
proof
  show "rb_wf s' \<and> rb_bytes s' = rb_bytes s @ take k b"
    if "rb_wf s" "straight_write s (length b)" "ringbuffer_write_atomic allat alloc s b = Inr (k, s', g)" for s b k s' g
    using write_atomic_ok [OF that(1,3)] that(2) by blast
  show "rb_wf s' \<and> rb_bytes s = take k b' @ rb_bytes s'"
    if "rb_wf s" "may_read s (length b)" "ringbuffer_read_atomic s b = Inr (b', k, s', g)" for s b b' k s' g
    using read_atomic_ok [OF that(1) _ that(3)] that(2) by (auto simp: may_read_def)
qed

section \<open>Histories\<close>

text \<open>
  A buffer with all that was written to it and read from it since it was created, by writes and reads of single buffers that return
  and do not cross the end of the memory. A read of no bytes from a full buffer is left out: it throws the bytes away.
\<close>

inductive rb_trace :: "(nat \<Rightarrow> nat \<Rightarrow> byte list) \<Rightarrow> (nat \<Rightarrow> byte list result) \<Rightarrow> byte list \<Rightarrow> byte list \<Rightarrow> ringbuffer \<Rightarrow> bool"
  for allat alloc where
  init: "rb_trace allat alloc [] [] (ringbuffer_init limt)"
| write_some: "rb_trace allat alloc sent received self \<Longrightarrow> straight_write self (length buf) \<Longrightarrow>
    ringbuffer_write_atomic allat alloc self buf = Inr (k, self', sigs) \<Longrightarrow>
    rb_trace allat alloc (sent @ take k buf) received self'"
| read: "rb_trace allat alloc sent received self \<Longrightarrow> straight_read self (length buf) \<Longrightarrow> buf \<noteq> [] \<or> \<not> rb_full self \<Longrightarrow>
    ringbuffer_read_atomic self buf = Inr (buf', k, self', sigs) \<Longrightarrow>
    rb_trace allat alloc sent (received @ take k buf') self'"

lemma rb_init_wf [simp]: "rb_wf (ringbuffer_init limt)" "rb_bytes (ringbuffer_init limt) = []"
  by (simp_all add: rb_wf_def rb_bytes_def ringbuffer_init_def)

lemma rb_trace_order:
  "rb_trace allat alloc sent received self \<Longrightarrow> rb_wf self \<and> sent = received @ rb_bytes self"
proof (induction rule: rb_trace.induct)
  case (write_some sent received self buf k self' sigs)
  from ring.put_keeps_order [OF write_some.IH write_some.hyps(2,3)] show ?case .
next
  case (read sent received self buf buf' k self' sigs)
  have "may_read self (length buf)" using read.hyps(2,3) by (simp add: may_read_def)
  from ring.get_keeps_order [OF read.IH this read.hyps(4)] show ?case .
qed simp

text \<open>
  The operations on a buffer, with what they make of it and the signals they send, for all arguments with which they
  return.
\<close>

inductive rb_op :: "(nat \<Rightarrow> nat \<Rightarrow> byte list) \<Rightarrow> (nat \<Rightarrow> byte list result) \<Rightarrow> ringbuffer \<Rightarrow> ringbuffer \<times> rb_signal list \<Rightarrow> bool"
  for allat alloc where
  close: "ringbuffer_close self = (r, self', sigs) \<Longrightarrow> rb_op allat alloc self (self', sigs)"
| write_some: "ringbuffer_writev_atomic allat alloc self iov off n = Inr (k, self', sigs) \<Longrightarrow> rb_op allat alloc self (self', sigs)"
| read: "ringbuffer_readv_atomic self iov off n = Inr (iov', k, self', sigs) \<Longrightarrow> rb_op allat alloc self (self', sigs)"
| discard: "ringbuffer_discard self n = (k, self', sigs) \<Longrightarrow> rb_op allat alloc self (self', sigs)"
| unread: "ringbuffer_unread self n = Inr (k, self', sigs) \<Longrightarrow> rb_op allat alloc self (self', sigs)"
| unwrite: "ringbuffer_unwrite self n = Inr (k, self', sigs) \<Longrightarrow> rb_op allat alloc self (self', sigs)"

text \<open>All buffers that the operations lead to, whatever the calls.\<close>

inductive rb_reachable :: "(nat \<Rightarrow> nat \<Rightarrow> byte list) \<Rightarrow> (nat \<Rightarrow> byte list result) \<Rightarrow> ringbuffer \<Rightarrow> bool"
  for allat alloc where
  init: "rb_reachable allat alloc (ringbuffer_init limt)"
| step: "rb_reachable allat alloc self \<Longrightarrow> rb_op allat alloc self (self', sigs) \<Longrightarrow> rb_reachable allat alloc self'"

lemma step_back_le: "low \<le> p \<Longrightarrow> step_back p n low \<le> p" "low \<le> step_back p n low"
  by (auto simp: step_back_def)

lemma ringbuffer_unread_wf:
  assumes "rb_wf self" "ringbuffer_unread self n = Inr (k, self', sigs)"
  shows "rb_wf self'"
proof -
  have "step_back (r_rptr self) n 0 \<le> r_size self"
    using step_back_le(1) [of 0 "r_rptr self" n] assms(1) by (simp add: rb_wf_def)
  moreover have "step_back (r_size self) m (r_wptr self) \<le> r_size self" for m
    using step_back_le(1) [of "r_wptr self" "r_size self" m] assms(1) by (auto simp: rb_wf_def)
  ultimately show ?thesis
    using assms by (auto simp: ringbuffer_unread_def Let_def rassert_eq_Inr_iff rb_wf_def split: if_splits)
qed

lemma unwrite_pointer_bound:
  assumes "rb_wf self" "unwrite_pointer self n = Inr (p, k)" "r_rptr self \<noteq> p"
  shows "p < r_size self \<or> r_size self = 0 \<and> p = 0"
proof (cases "r_rptr self \<le> r_wptr self")
  case True
  with assms show ?thesis by (auto simp: unwrite_pointer_def Let_def rb_wf_def)
next
  case False
  have "step_back (r_wptr self) n 0 < r_size self"
    using step_back_le(1) [of 0 "r_wptr self" n] False assms(1) by (auto simp: rb_wf_def)
  moreover have "step_back (r_size self) m (r_rptr self) < r_size self"
    if "m \<noteq> 0" "r_rptr self \<noteq> step_back (r_size self) m (r_rptr self)" for m
    using that assms(1) by (auto simp: step_back_def rb_wf_def split: if_splits)
  ultimately show ?thesis
    using False assms(2,3) by (auto simp: unwrite_pointer_def Let_def rassert_eq_Inr_iff split: if_splits)
qed

lemma ringbuffer_unwrite_wf:
  assumes "rb_wf self" "ringbuffer_unwrite self n = Inr (k, self', sigs)"
  shows "rb_wf self'"
proof -
  from assms(2) obtain p m where "unwrite_pointer self n = Inr (p, m)"
    and "self' = (if r_rptr self = p then self\<lparr>r_rptr := r_size self, r_wptr := 0\<rparr> else self\<lparr>r_wptr := p\<rparr>)"
    unfolding ringbuffer_unwrite_def Let_def by (auto simp: rbind_eq_Inr_iff)
  with unwrite_pointer_bound [OF assms(1)] assms(1) show ?thesis by (auto simp: rb_wf_def)
qed

lemma readv_atomic_finish:
  "ringbuffer_readv_atomic self iov off n = Inr (iov', r) \<Longrightarrow> r = read_finish self n"
  by (auto simp: ringbuffer_readv_atomic_def Let_def rbind_eq_Inr_iff)

lemma rb_op_wf: "rb_op allat alloc self (self', sigs) \<Longrightarrow> rb_wf self \<Longrightarrow> rb_wf self'"
proof (induction self "(self', sigs)" rule: rb_op.induct)
  case (read self iov off n iov' k)
  with readv_atomic_finish [OF read.hyps] read_finish_wf [of self n] show ?case by (metis fst_conv snd_conv)
next
  case (discard self n k)
  with read_finish_wf [of self n] show ?case by (simp add: ringbuffer_discard_def)
next
  case (write_some self iov off n k)
  with writev_atomic_appends show ?case by (force simp: write_appends_def)
next
  case (unread self n k)
  with ringbuffer_unread_wf show ?case by blast
next
  case (unwrite self n k)
  with ringbuffer_unwrite_wf show ?case by blast
next
  case (close self r)
  then show ?case by (auto simp: ringbuffer_close_def rb_wf_def split: if_splits)
qed

lemma rb_reachable_wf: "rb_reachable allat alloc self \<Longrightarrow> rb_wf self"
  by (induction rule: rb_reachable.induct) (auto intro: rb_op_wf)

section \<open>Undoing a read\<close>

lemma unread_restores:
  assumes wf: "rb_wf self" and n: "0 < n" "n < length (rb_bytes self)" and w: "r_wptr self \<noteq> 0"
  shows "\<exists>self' sigs self'' sigs'. ringbuffer_discard self n = (n, self', sigs) \<and>
    ringbuffer_unread self' n = Inr (n, self'', sigs') \<and> rb_bytes self'' = rb_bytes self"
  using wf
proof (cases rule: read_cases)
  case between
  then have "n < r_wptr self - r_rptr self" using n by (simp add: rb_bytes_def)
  with between n(1) show ?thesis
    by (auto simp: ringbuffer_discard_def read_finish_def read_between Let_def ringbuffer_unread_def step_back_def rb_bytes_def min_def)
next
  case at_end
  then have "n < r_wptr self" using n by (simp add: rb_bytes_def)
  with at_end n(1) show ?thesis
    by (auto simp: ringbuffer_discard_def read_finish_def read_at_end Let_def ringbuffer_unread_def step_back_def rb_bytes_def min_def)
next
  case around
  show ?thesis
  proof (cases "n < r_size self - r_rptr self")
    case True
    with around n(1) w show ?thesis
      by (auto simp: ringbuffer_discard_def read_finish_def read_around Let_def ringbuffer_unread_def step_back_def rb_bytes_def min_def)
  next
    case False
    define m where "m = n - (r_size self - r_rptr self)"
    have m: "n = m + (r_size self - r_rptr self)" "m < r_wptr self"
      using False around n by (auto simp: m_def rb_bytes_def split: if_splits)
    have "read_finish self n = (n, self\<lparr>r_rptr := m\<rparr>, snd (snd (read_finish self n)))"
      using around m w by (simp add: read_finish_def read_around Let_def add.commute)
    moreover have "ringbuffer_unread (self\<lparr>r_rptr := m\<rparr>) n = Inr (n, self\<lparr>r_rptr := r_rptr self\<rparr>, snd (snd (projr (ringbuffer_unread (self\<lparr>r_rptr := m\<rparr>) n))))"
      using around m w by (auto simp: ringbuffer_unread_def step_back_def Let_def)
    ultimately show ?thesis by (auto simp: ringbuffer_discard_def)
  qed
next
  case empty
  with w show ?thesis by simp
qed

section \<open>Waiting readers\<close>
















section \<open>Growth\<close>

lemma increase_size_returns:
  assumes "r_size self + n \<le> 2 ^ 31" "0 < r_limt self"
  shows "\<exists>siz. increase_size self n = Inr siz \<and> siz \<noteq> 0 \<and> (r_size self + n \<le> siz \<or> siz = r_limt self)"
proof -
  let ?t = "of_nat (r_size self) + of_nat n :: 32 word"
  define siz where "siz = (if (of_nat (r_size self) * 2 :: 32 word) = 0 then of_nat RBUFFER_INIT_ALLOC else of_nat (r_size self) * 2 :: 32 word)"
  have t: "unat ?t = r_size self + n" using unat_of_nat_32 [of "r_size self + n"] assms by simp
  have "siz \<noteq> 0" by (simp add: siz_def RBUFFER_INIT_ALLOC_def)
  from double_until_ok [OF this, of ?t] t assms obtain r where r: "double_until siz ?t = Inr r" "?t \<le> r" "r \<noteq> 0" by auto
  then have "r_size self + n \<le> unat r" using t by (simp add: word_le_nat_alt)
  moreover have "unat r \<noteq> 0" using r by (simp add: unat_eq_zero)
  ultimately show ?thesis using r assms(2)
    by (auto simp: increase_size_def Let_def siz_def [symmetric] min_def)
qed

lemma increase_size_endless:
  assumes "r_size self = 0 \<or> r_size self = 2 ^ j" "2 ^ 31 < r_size self + n" "r_size self + n < 2 ^ 32"
  shows "increase_size self n = Inl NO_RETURN"
proof -
  define siz where "siz = (if (of_nat (r_size self) * 2 :: 32 word) = 0 then of_nat RBUFFER_INIT_ALLOC else of_nat (r_size self) * 2 :: 32 word)"
  have "\<exists>i. siz = 2 ^ i"
  proof (cases "(of_nat (r_size self) * 2 :: 32 word) = 0")
    case True
    then have "siz = 2 ^ 9" by (simp add: siz_def RBUFFER_INIT_ALLOC_def)
    then show ?thesis by blast
  next
    case False
    with assms(1) have "siz = 2 ^ Suc j" by (auto simp: siz_def)
    then show ?thesis by blast
  qed
  moreover have "2 ^ 31 < unat (of_nat (r_size self) + of_nat n :: 32 word)"
    using unat_of_nat_32 [OF assms(3)] assms(2) by simp
  ultimately have "double_until siz (of_nat (r_size self) + of_nat n) = Inl NO_RETURN" using double_until_endless by blast
  then show ?thesis by (simp add: increase_size_def Let_def siz_def [symmetric])
qed

lemma increase_buffer_returns:
  assumes full: "rb_wf self" "rb_full self" "\<not> r_static self" and siz: "r_size self + n \<le> 2 ^ 31" "r_size self < r_limt self" "n \<noteq> 0"
    and alloc: "\<And>m. \<exists>mem. alloc m = Inr mem \<and> m \<le> length mem"
  shows "\<exists>self'. increase_buffer allat alloc self n = Inr (Some self')"
proof -
  have "0 < r_limt self" using siz by simp
  from increase_size_returns [OF siz(1) this] siz obtain s where s: "increase_size self n = Inr s" "r_size self < s" by fastforce
  obtain mem where mem: "alloc s = Inr mem" "s \<le> length mem" using alloc by blast
  define more where "more = (if r_size self \<noteq> 0 \<and> r_rptr self = 0 then allat (r_size self) (s - r_size self) else [])"
  define old where "old = drop (r_rptr self) (r_data self) @ take (r_wptr self) (r_data self)"
  have old: "length old = r_size self" using full by (auto simp: old_def rb_wf_def rb_full_def)
  show ?thesis
  proof (cases "more = []")
    case True
    have "mem \<noteq> []" using s(2) mem(2) by auto
    with True show ?thesis using s mem full(3) old
      by (auto simp: increase_buffer_def Let_def more_def [symmetric] old_def [symmetric] rassert_def)
  next
    case False
    then have "r_rptr self = 0" "r_size self \<noteq> 0" by (auto simp: more_def split: if_splits)
    then show ?thesis using s False full(3)
      by (simp add: increase_buffer_def Let_def more_def)
  qed
qed

section \<open>Properties\<close>

text \<open>The examples of the theorems: a heap that returns what is asked for, and a buffer of four bytes.\<close>

definition simple_alloc :: "nat \<Rightarrow> byte list result" where
  "simple_alloc n = Inr (replicate n 0)"

definition no_allat :: "nat \<Rightarrow> nat \<Rightarrow> byte list" where
  "no_allat p n = []"

definition ring4 :: "nat \<Rightarrow> nat \<Rightarrow> ringbuffer" where
  "ring4 r w = \<lparr>r_rptr = r, r_wptr = w, r_data = [1, 2, 3, 4], r_limt = 8, r_static = False, r_closed = False\<rparr>"

lemma ring4_wf: "r \<le> 4 \<Longrightarrow> w < 4 \<Longrightarrow> rb_wf (ring4 r w)"
  by (simp add: rb_wf_def ring4_def)

text \<open>C6: Bytes leave a ring buffer in the order in which they entered it, none is lost, changed or duplicated:
  what was written since the buffer was created is what was delivered followed by what it still holds, across every growth of the buffer.
  This is for all sequences of \<^verbatim>\<open>ringbuffer_write_atomic\<close> and \<^verbatim>\<open>ringbuffer_read_atomic\<close> that do not cross the end of the memory
  and are not reads of no bytes from a full buffer.\<close>
theorem ringbuffer_fifo:
  assumes "rb_trace allat alloc sent received self"
  shows "sent = received @ rb_bytes self \<and> length (rb_bytes self) = ringbuffer_maxread self \<and> rb_wf self"
  using rb_trace_order [OF assms] length_rb_bytes by blast

definition ring_79 :: ringbuffer where
  "ring_79 = \<lparr>r_rptr = 8, r_wptr = 2, r_data = [7, 9, 0, 0, 0, 0, 0, 0], r_limt = 8, r_static = False, r_closed = False\<rparr>"

lemma ring_eval: "ringbuffer_write_atomic no_allat simple_alloc (ringbuffer_init 8) [7, 9] = Inr (2, ring_79, [Sig_broadcast])"
proof -
  have r8: "replicate 8 0 = [0, 0, 0, 0, 0, 0, 0, 0 :: byte]" by (simp add: eval_nat_numeral)
  have "double_until 512 2 = Inr 512" by (subst double_until.simps) simp
  then have "increase_size (ringbuffer_init 8) 2 = Inr 8"
    by (simp add: increase_size_def ringbuffer_init_def RBUFFER_INIT_ALLOC_def Let_def)
  then have "increase_buffer no_allat simple_alloc (ringbuffer_init 8) 2 = Inr (Some ((ringbuffer_init 8)\<lparr>r_data := [0, 0, 0, 0, 0, 0, 0, 0],
      r_rptr := 8, r_wptr := 0\<rparr>))"
    by (simp add: increase_buffer_def simple_alloc_def ringbuffer_init_def Let_def r8)
  then show ?thesis
    by (simp add: ringbuffer_write_atomic_def ringbuffer_writev_atomic_def write_pass_def write_below_def
        ring_79_def ringbuffer_init_def Let_def iov_read_def store_def write_signals_def numeral_2_eq_2)
qed

lemma ring_79_trace: "rb_trace no_allat simple_alloc [7, 9] [] ring_79"
proof -
  have "rb_trace no_allat simple_alloc ([] @ take 2 [7, 9]) [] ring_79"
    by (rule rb_trace.write_some [OF rb_trace.init _ ring_eval]) (simp add: straight_write_def ringbuffer_init_def)
  then show ?thesis by simp
qed

theorem ringbuffer_fifo_witness: "[7, 9] = [] @ rb_bytes ring_79 \<and> rb_wf ring_79"
  using ringbuffer_fifo [OF ring_79_trace] by blast

text \<open>C23: Every buffer that the operations lead to, by whatever calls, reads and writes of vectors included, has its pointers within
  the memory, the write pointer before its end, and the number of bytes that \<^verbatim>\<open>ringbuffer_maxread\<close> reports is the number it holds. The number
  \<^verbatim>\<open>ringbuffer_maxwrite\<close> reports is the space that is left, unless the buffer is full: then it is the whole size. A read pointer at the end of the memory
  with the write pointer behind the start, which a comment of the source calls illegal, is among these buffers.\<close>
theorem ringbuffer_wellformed:
  assumes "rb_reachable allat alloc self"
  shows "rb_wf self \<and> ringbuffer_maxread self = length (rb_bytes self) \<and> length (rb_bytes self) \<le> r_size self \<and>
    ringbuffer_maxwrite self = (if r_rptr self = r_wptr self then r_size self else r_size self - length (rb_bytes self))"
  using rb_reachable_wf [OF assms] rb_bytes_le_size [of self] length_rb_bytes [of self]
  by (auto simp: ringbuffer_maxread_def ringbuffer_maxwrite_def rb_wf_def)

theorem ringbuffer_wellformed_witness: "rb_wf ring_79 \<and> ringbuffer_maxread ring_79 = length (rb_bytes ring_79)"
  using ringbuffer_wellformed [OF rb_reachable.step [OF rb_reachable.init rb_op.write_some [OF ring_eval [unfolded ringbuffer_write_atomic_def]]]] by blast

text \<open>A read delivers the next bytes and removes exactly these, for every position of the pointers, as long as the
  bytes do not cross the end of the memory; \<^verbatim>\<open>ringbuffer_peek_atomic\<close> delivers the same and removes none,
  and \<^verbatim>\<open>ringbuffer_discard\<close> removes the same.\<close>
theorem ringbuffer_read_peek_discard:
  assumes "rb_wf self" "buf \<noteq> []" "straight_read self (length buf)"
  defines "n \<equiv> min (length buf) (length (rb_bytes self))"
  defines "buf' \<equiv> take n (rb_bytes self) @ drop n buf"
  shows "\<exists>self' sigs. ringbuffer_read_atomic self buf = Inr (buf', n, self', sigs) \<and> rb_bytes self' = drop n (rb_bytes self) \<and>
    ringbuffer_peek_atomic self buf = Inr (buf', n) \<and> ringbuffer_discard self (length buf) = (n, self', sigs)"
proof -
  obtain s g where f: "read_finish self (length buf) = (n, s, g)" "rb_bytes s = drop (length buf) (rb_bytes self)"
    by (rule read_finish_ok [OF assms(1), of "length buf"]) (use assms(2) in \<open>auto simp: n_def\<close>)
  then have "read_high self (length buf) + read_low self (length buf) = n" by (simp add: read_finish_def Let_def)
  moreover have "read_result self buf = buf'"
    using read_result_straight [OF assms(1,3)] by (auto simp: copy_to_def buf'_def n_def min_def)
  moreover have "drop (length buf) (rb_bytes self) = drop n (rb_bytes self)" by (simp add: n_def min_def)
  ultimately show ?thesis using f
    by (simp add: ringbuffer_read_atomic_def ringbuffer_peek_atomic_def ringbuffer_discard_def readv_atomic_single [OF assms(1)])
qed

theorem ringbuffer_read_peek_discard_witness:
  "\<exists>self' sigs. ringbuffer_read_atomic (ring4 1 3) [0, 0, 0] = Inr ([2, 3, 0], 2, self', sigs) \<and> rb_bytes self' = []"
proof -
  have "rb_bytes (ring4 1 3) = [2, 3]" by (simp add: rb_bytes_def ring4_def numeral_eq_Suc)
  with ringbuffer_read_peek_discard [OF ring4_wf [of 1 3], of "[0, 0, 0]"] show ?thesis
    by (auto simp: straight_read_def ring4_def)
qed

text \<open>Undoing a read with \<^verbatim>\<open>ringbuffer_unread\<close> gives back all its bytes, also those from before a wrap-around,
  if bytes were left in the buffer and the write pointer is not at the start of the memory.\<close>
theorem ringbuffer_unread_read:
  assumes "rb_wf self" "0 < n" "n < length (rb_bytes self)" "r_wptr self \<noteq> 0"
  shows "\<exists>self' sigs self'' sigs'. ringbuffer_discard self n = (n, self', sigs) \<and>
    ringbuffer_unread self' n = Inr (n, self'', sigs') \<and> rb_bytes self'' = rb_bytes self"
  by (rule unread_restores [OF assms])

theorem ringbuffer_unread_read_witness:
  "\<exists>self' sigs self'' sigs'. ringbuffer_discard (ring4 3 2) 2 = (2, self', sigs) \<and>
    ringbuffer_unread self' 2 = Inr (2, self'', sigs') \<and> rb_bytes self'' = rb_bytes (ring4 3 2)"
  using ringbuffer_unread_read [OF ring4_wf [of 3 2], of 2] by (simp add: rb_bytes_def ring4_def)






text \<open>A full buffer that has not reached its limit grows for every request up to a total of \<open>2 ^ 31\<close> bytes: the loop
  that doubles its size ends, and a heap that serves requests gives it more memory, with the bytes it held.\<close>
theorem ringbuffer_growth_terminates:
  assumes "rb_wf self" "r_rptr self = r_wptr self" "\<not> r_static self" "r_size self + n \<le> 2 ^ 31" "r_size self < r_limt self" "n \<noteq> 0"
    and alloc: "\<And>m. \<exists>mem. alloc m = Inr mem \<and> m \<le> length mem"
  shows "\<exists>self'. increase_buffer allat alloc self n = Inr (Some self') \<and> rb_wf self' \<and> rb_bytes self' = rb_bytes self \<and>
    r_size self < r_size self' \<and> r_rptr self' \<noteq> r_wptr self'"
proof -
  have full: "rb_full self" using assms(2) by (simp add: rb_full_def)
  from increase_buffer_returns [OF assms(1) full assms(3-6) alloc] obtain s where s: "increase_buffer allat alloc self n = Inr (Some s)" by blast
  from s increase_buffer_ok [OF assms(1) full s] show ?thesis by (auto simp: rb_full_def)
qed

theorem ringbuffer_growth_terminates_witness:
  "\<exists>self'. increase_buffer no_allat simple_alloc (ring4 2 2) 3 = Inr (Some self') \<and> rb_bytes self' = [3, 4, 1, 2]"
proof -
  have "rb_bytes (ring4 2 2) = [3, 4, 1, 2]" by (simp add: rb_bytes_def ring4_def)
  then show ?thesis
    using ringbuffer_growth_terminates [OF ring4_wf [of 2 2], of 3 simple_alloc no_allat] by (auto simp: ring4_def simple_alloc_def)
qed

text \<open>A write of more than \<open>2 ^ 31\<close> bytes to a full buffer whose size is a power of two, as it is after every growth
  below the limit, or to a new buffer, never returns: the doubled size wraps to 0 and stays there.\<close>
theorem ringbuffer_growth_endless:
  assumes "rb_wf self" "r_rptr self = r_wptr self" "\<not> r_static self" "\<not> r_closed self" "r_size self = 0 \<or> r_size self = 2 ^ j"
    and "0 < n" "2 ^ 31 < r_size self + n" "r_size self + n < 2 ^ 32"
  shows "ringbuffer_writev_atomic allat alloc self iov off n = Inl NO_RETURN"
proof -
  have "increase_buffer allat alloc self n = Inl NO_RETURN"
    using increase_size_endless [OF assms(5,7,8)] assms(3) by (simp add: increase_buffer_def)
  with assms(1,2,4,6) show ?thesis by (auto simp: ringbuffer_writev_atomic_def rb_wf_def)
qed

theorem ringbuffer_growth_endless_witness:
  "ringbuffer_writev_atomic no_allat simple_alloc (ringbuffer_init 4096) [] 0 (2 ^ 31 + 1) = Inl NO_RETURN"
  by (rule ringbuffer_growth_endless [where j = 0]) (simp_all add: ringbuffer_init_def rb_wf_def)

text \<open>A write of fewer bytes than the size to an empty open buffer with memory leaves the read pointer at the end of the memory
  while the write pointer is not at its start. The comment at the top of the source calls this position illegal, and says that it is fixed by setting
  the read pointer to the start; no write does that.\<close>
theorem ringbuffer_write_leaves_end:
  assumes wf: "rb_wf self" and e: "rb_bytes self = []" and "\<not> r_closed self" "buf \<noteq> []" "length buf < r_size self"
  shows "\<exists>self' sigs. ringbuffer_write_atomic allat alloc self buf = Inr (length buf, self', sigs) \<and>
    r_rptr self' = r_size self' \<and> r_wptr self' \<noteq> 0 \<and> r_size self' = r_size self"
proof -
  have p: "r_rptr self = r_size self" "r_wptr self = 0" using rb_empty_iff [OF wf] e by simp_all
  have "iov_read [buf] 0 (length buf) = Inr buf" using iov_gather_ok [of "length buf" "[buf]"] by (simp add: iov_read_def)
  with p assms(3-5) show ?thesis
    by (auto simp: ringbuffer_write_atomic_def ringbuffer_writev_atomic_def write_pass_def write_below_def Let_def min_def store_def)
qed

theorem ringbuffer_write_leaves_end_witness:
  "\<exists>self' sigs. ringbuffer_write_atomic no_allat simple_alloc (ring4 4 0) [7] = Inr (1, self', sigs) \<and> r_rptr self' = r_size self' \<and> r_wptr self' \<noteq> 0"
  using ringbuffer_write_leaves_end [OF ring4_wf [of 4 0], of "[7]" no_allat simple_alloc] by (auto simp: rb_bytes_def ring4_def)

text \<open>C25: A read that crosses the end of the memory corrupts the data it delivers. The bytes of the buffer are those up to the end of
  the memory, followed by those from its start on; the read returns the number of both parts and removes both, but the second part lands in
  the caller's buffer on top of the first. If the parts do not begin with the same byte, what is delivered is not what was in the buffer.\<close>
theorem ringbuffer_wrap_corrupts:
  assumes wf: "rb_wf self" and pos: "r_wptr self \<le> r_rptr self" "r_rptr self < r_size self" "r_wptr self \<noteq> 0"
    and n: "r_size self - r_rptr self < length buf"
  defines "high \<equiv> drop (r_rptr self) (r_data self)"
  defines "low \<equiv> take (length buf - length high) (take (r_wptr self) (r_data self))"
  shows "\<exists>buf' self' sigs. ringbuffer_read_atomic self buf = Inr (buf', length (high @ low), self', sigs) \<and>
    take (length (high @ low)) (rb_bytes self) = high @ low \<and> rb_bytes self' = drop (length (high @ low)) (rb_bytes self) \<and>
    buf' = copy_to (copy_to buf high) low \<and>
    (hd low \<noteq> hd high \<longrightarrow> take (length (high @ low)) buf' \<noteq> high @ low)"
proof -
  have lh: "length high = r_size self - r_rptr self" "high \<noteq> []" using pos by (auto simp: high_def)
  have ll: "length low = min (r_wptr self) (length buf - length high)" "low \<noteq> []" using pos n lh by (auto simp: low_def min_def)
  have bytes: "rb_bytes self = high @ take (r_wptr self) (r_data self)" using pos by (simp add: rb_bytes_def high_def)
  have "chunk self (r_rptr self) (length high) = high" by (simp add: chunk_def high_def)
  moreover have "chunk self 0 (length low) = low" using pos ll(1) by (simp add: chunk_def low_def min.commute)
  ultimately have res: "read_result self buf = copy_to (copy_to buf high) low"
    using read_around [OF pos(1,2)] n pos(3) lh(1) ll(1) by (simp add: read_result_def Let_def)
  obtain s g where f: "read_finish self (length buf) = (min (length buf) (length (rb_bytes self)), s, g)"
    "rb_bytes s = drop (length buf) (rb_bytes self)"
    by (rule read_finish_ok [OF wf, of "length buf"]) (use n in auto)
  have k: "min (length buf) (length (rb_bytes self)) = length (high @ low)" using bytes n pos lh(1) ll(1) by (auto simp: min_def)
  have d: "drop (length buf) (rb_bytes self) = drop (length (high @ low)) (rb_bytes self)"
    using k by (metis drop_all linorder_le_cases min.absorb1 min.absorb2)
  have t: "take (length (high @ low)) (rb_bytes self) = high @ low" using bytes pos ll(1) by (simp add: low_def min_def)
  have "hd (take (length (high @ low)) (copy_to (copy_to buf high) low)) = hd low" using ll(2) lh(2) by (cases low; cases high) (auto simp: copy_to_def)
  then have "hd low \<noteq> hd high \<longrightarrow> take (length (high @ low)) (copy_to (copy_to buf high) low) \<noteq> high @ low"
    using lh(2) by (metis hd_append2)
  with t d f res show ?thesis by (simp add: ringbuffer_read_atomic_def readv_atomic_single [OF wf] k)
qed

theorem ringbuffer_wrap_corrupts_witness:
  "rb_bytes (ring4 2 2) = [3, 4, 1, 2] \<and> (\<exists>self' sigs. ringbuffer_read_atomic (ring4 2 2) [0, 0, 0, 0] = Inr ([1, 2, 0, 0], 4, self', sigs))"
  using ringbuffer_wrap_corrupts [OF ring4_wf [of 2 2], of "[0, 0, 0, 0]"] by (auto simp: rb_bytes_def ring4_def copy_to_def)

text \<open>A write that crosses the end of the memory stores wrong bytes. It stores as many as fit before the end of
  the memory and below the read pointer, but the second part is taken from the start of the caller's buffer again. If that part does not
  begin with the byte that is due, what is appended is not what was to be written.\<close>
theorem ringbuffer_write_wrap_corrupts:
  assumes wf: "rb_wf self" and pos: "r_rptr self \<noteq> 0" "r_rptr self < r_wptr self" "\<not> r_closed self"
    and n: "r_size self - r_wptr self < length buf"
  defines "hi \<equiv> r_size self - r_wptr self"
  defines "lo \<equiv> min (r_rptr self) (length buf - hi)"
  shows "\<exists>self' sigs. ringbuffer_write_atomic allat alloc self buf = Inr (hi + lo, self', sigs) \<and>
    rb_bytes self' = rb_bytes self @ take hi buf @ take lo buf \<and>
    (hd buf \<noteq> buf ! hi \<longrightarrow> rb_bytes self' \<noteq> rb_bytes self @ take (hi + lo) buf)"
proof -
  have w: "r_wptr self < r_size self" using wf pos(2) by (auto simp: rb_wf_def)
  have h: "0 < hi" "hi < length buf" "0 < lo" using w n pos by (auto simp: hi_def lo_def)
  have sp: "write_split self (length buf) = (hi, lo)" using h(2) by (simp add: write_split_def Let_def hi_def lo_def)
  have wd: "write_data self buf = take hi buf @ take lo buf" using pos(2) sp by (simp add: write_data_def)
  have nf: "\<not> rb_full self" "buf \<noteq> []" using pos(2) h(2) by (auto simp: rb_full_def)
  from write_pass_ok [OF wf nf] obtain self' sigs where
    s: "write_pass self [buf] 0 (length buf) = Inr (length (write_data self buf), self', sigs)" "rb_bytes self' = rb_bytes self @ write_data self buf"
    by blast
  have l: "length (write_data self buf) = hi + lo" using wd h by (simp add: lo_def)
  have "ringbuffer_write_atomic allat alloc self buf = Inr (hi + lo, self', sigs)"
    using s(1) l pos nf w by (simp add: ringbuffer_write_atomic_def ringbuffer_writev_atomic_def)
  moreover have "take hi buf @ take lo buf \<noteq> take (hi + lo) buf" if "hd buf \<noteq> buf ! hi"
  proof -
    have "(take hi buf @ take lo buf) ! hi = hd buf" using h by (simp add: nth_append hd_conv_nth nf(2) lo_def)
    moreover have "take (hi + lo) buf ! hi = buf ! hi" using h by simp
    ultimately show ?thesis using that by auto
  qed
  ultimately show ?thesis using s(2) wd by auto
qed

theorem ringbuffer_write_wrap_corrupts_witness:
  "\<exists>self' sigs. ringbuffer_write_atomic no_allat simple_alloc (ring4 2 3) [7, 8, 9] = Inr (3, self', sigs) \<and> rb_bytes self' = [3, 7, 7, 8]"
proof -
  have "rb_bytes (ring4 2 3) = [3]" by (simp add: rb_bytes_def ring4_def)
  then show ?thesis
    using ringbuffer_write_wrap_corrupts [OF ring4_wf [of 2 3], of "[7, 8, 9]" no_allat simple_alloc] by (auto simp: ring4_def)
qed

text \<open>C26: A full buffer loses all its bytes to calls that should not change it: a read and a \<^verbatim>\<open>ringbuffer_discard\<close> of no bytes, and a
  \<^verbatim>\<open>ringbuffer_unwrite\<close> of any number of bytes, leave it empty while they return 0 and send no signal.\<close>
theorem ringbuffer_full_loses_bytes:
  assumes wf: "rb_wf self" and full: "r_rptr self = r_wptr self"
  shows "\<exists>self'. ringbuffer_read_atomic self [] = Inr ([], 0, self', []) \<and> ringbuffer_discard self 0 = (0, self', []) \<and>
    ringbuffer_unwrite self n = Inr (0, self', []) \<and> length (rb_bytes self) = r_size self \<and> rb_bytes self' = []"
proof -
  let ?e = "self\<lparr>r_rptr := r_size self, r_wptr := 0\<rparr>"
  have "length (rb_bytes self) = r_size self" using rb_full_iff [OF wf] full by (simp add: rb_full_def)
  moreover have "read_finish self 0 = (0, ?e, [])" using wf full by (auto simp: read_finish_def read_defs rb_wf_def)
  moreover have "ringbuffer_unwrite self n = Inr (0, ?e, [])" using full by (simp add: ringbuffer_unwrite_def unwrite_pointer_def Let_def)
  moreover have "read_result self [] = []" using readv_atomic_single(2) [OF wf, of "[]", THEN ringbuffer_peekv_atomic_length] by simp
  moreover have "rb_bytes ?e = []" by (simp add: rb_bytes_def)
  ultimately show ?thesis
    using readv_atomic_single(1) [OF wf, of "[]"] by (simp add: ringbuffer_read_atomic_def ringbuffer_discard_def)
qed

theorem ringbuffer_full_loses_bytes_witness:
  "\<exists>self'. ringbuffer_read_atomic (ring4 2 2) [] = Inr ([], 0, self', []) \<and> length (rb_bytes (ring4 2 2)) = 4 \<and> rb_bytes self' = []"
  using ringbuffer_full_loses_bytes [OF ring4_wf [of 2 2], of 0] by (auto simp: ring4_def)

text \<open>A \<^verbatim>\<open>ringbuffer_unread\<close> of one byte on a full buffer leaves only one, and on a buffer whose data wraps around, \<^verbatim>\<open>ringbuffer_unwrite\<close> of one byte
  trips its assertion.\<close>
theorem ringbuffer_undo_fails:
  "(\<exists>self' sigs. ringbuffer_unread (ring4 2 2) 1 = Inr (1, self', sigs) \<and> rb_bytes self' = [2]) \<and>
   ringbuffer_unwrite \<lparr>r_rptr = 4, r_wptr = 3, r_data = [1, 2, 3, 4, 5], r_limt = 8, r_static = False, r_closed = False\<rparr> 1 = Inl E_ASSERT"
  by (intro conjI) (simp_all add: ring4_def rb_bytes_def ringbuffer_unwrite_def unwrite_pointer_def ringbuffer_unread_def step_back_def)

text \<open>\<^verbatim>\<open>ringbuffer_readall\<close> does not take the bytes it delivers from the buffer, and delivers the same bytes again
  until the caller's buffer is full: it peeks where it should read.\<close>
theorem ringbuffer_readall_repeats:
  "\<exists>sched. ringbuffer_readall [Me, Me] (ring4 0 2) [0, 0, 0, 0] True = Inr (Some ([1, 2, 1, 2], 4, ring4 0 2, sched))"
proof -
  have p: "ringbuffer_peek (Me # sched) (ring4 0 2) buf True = Inr (Some (1 # 2 # drop 2 buf, 2, ring4 0 2, [], sched))" if "2 \<le> length buf" for buf sched
  proof -
    have "read_result (ring4 0 2) buf = 1 # 2 # drop 2 buf"
      using that by (simp add: read_result_def read_defs ring4_def chunk_def copy_to_def Let_def numeral_2_eq_2)
    then show ?thesis using that readv_atomic_single(2) [OF ring4_wf, of 0 2 buf]
      by (simp add: ringbuffer_peek_def ringbuffer_peekv_def read_defs ring4_def)
  qed
  have "readall_loop [Me] (ring4 0 2) [1, 2, 0, 0] 2 True = Inr (Some ([1, 2, 1, 2], 4, ring4 0 2, []))"
    by (subst readall_loop.simps) (simp add: p)
  then have "readall_loop [Me, Me] (ring4 0 2) [0, 0, 0, 0] 0 True = Inr (Some ([1, 2, 1, 2], 4, ring4 0 2, []))"
    by (subst readall_loop.simps) (simp add: p numeral_2_eq_2 [symmetric])
  then show ?thesis by (simp add: ringbuffer_readall_def)
qed

end
