(* ===== verification/Rwlock.thy ===== *)
theory Rwlock
  imports Prelude "HOL-Library.Multiset"
begin

text \<open>
  Read/write locks in a word, \<^verbatim>\<open>include/hybrid/sync\<close>: the contract that they share, and what it gives to any
  number of threads that use a lock. An operation is one atomic step: its loop ends with the
  compare-exchange that found the word as it was read. Which locks the threads hold is kept beside the
  lock word: one entry per read-lock, and the thread with the write-lock.
\<close>

section \<open>Operations\<close>

record 'w rwops =
  op_tryread :: "'w \<Rightarrow> (bool \<times> 'w) result"
  op_trywrite :: "'w \<Rightarrow> (bool \<times> 'w) result"
  op_tryupgrade :: "'w \<Rightarrow> (bool \<times> 'w) result"
  op_downgrade :: "'w \<Rightarrow> 'w result"
  op_endread :: "'w \<Rightarrow> 'w result"
  op_endwrite :: "'w \<Rightarrow> 'w result"
  op_end :: "'w \<Rightarrow> 'w result"

type_synonym thread = nat

record 'w lock_conf =
  lc_word :: 'w
  lc_readers :: "thread multiset"
  lc_writer :: "thread option"

definition lock_init :: "'w \<Rightarrow> 'w lock_conf" where
  "lock_init w = \<lparr>lc_word = w, lc_readers = {#}, lc_writer = None\<rparr>"

text \<open>Threads release, upgrade and downgrade only locks that they hold.\<close>

inductive lock_step :: "'w rwops \<Rightarrow> 'w lock_conf \<Rightarrow> 'w lock_conf \<Rightarrow> bool" for ops where
  tryread: "op_tryread ops (lc_word c) = Inr (b, w) \<Longrightarrow>
    lock_step ops c (c\<lparr>lc_word := w, lc_readers := (if b then add_mset t (lc_readers c) else lc_readers c)\<rparr>)"
| trywrite: "op_trywrite ops (lc_word c) = Inr (b, w) \<Longrightarrow>
    lock_step ops c (c\<lparr>lc_word := w, lc_writer := (if b then Some t else lc_writer c)\<rparr>)"
| tryupgrade: "t \<in># lc_readers c \<Longrightarrow> op_tryupgrade ops (lc_word c) = Inr (b, w) \<Longrightarrow>
    lock_step ops c (if b then c\<lparr>lc_word := w, lc_readers := lc_readers c - {#t#}, lc_writer := Some t\<rparr> else c\<lparr>lc_word := w\<rparr>)"
| downgrade: "lc_writer c = Some t \<Longrightarrow> op_downgrade ops (lc_word c) = Inr w \<Longrightarrow>
    lock_step ops c (c\<lparr>lc_word := w, lc_readers := add_mset t (lc_readers c), lc_writer := None\<rparr>)"
| endread: "t \<in># lc_readers c \<Longrightarrow> op_endread ops (lc_word c) = Inr w \<Longrightarrow>
    lock_step ops c (c\<lparr>lc_word := w, lc_readers := lc_readers c - {#t#}\<rparr>)"
| endwrite: "lc_writer c = Some t \<Longrightarrow> op_endwrite ops (lc_word c) = Inr w \<Longrightarrow>
    lock_step ops c (c\<lparr>lc_word := w, lc_writer := None\<rparr>)"
| end_reader: "t \<in># lc_readers c \<Longrightarrow> op_end ops (lc_word c) = Inr w \<Longrightarrow>
    lock_step ops c (c\<lparr>lc_word := w, lc_readers := lc_readers c - {#t#}\<rparr>)"
| end_writer: "lc_writer c = Some t \<Longrightarrow> op_end ops (lc_word c) = Inr w \<Longrightarrow>
    lock_step ops c (c\<lparr>lc_word := w, lc_writer := None\<rparr>)"

inductive_cases lock_step_cases: "lock_step ops c c'"

inductive lock_reachable :: "'w rwops \<Rightarrow> 'w \<Rightarrow> 'w lock_conf \<Rightarrow> bool" for ops w where
  start: "lock_reachable ops w (lock_init w)"
| step: "lock_reachable ops w c \<Longrightarrow> lock_step ops c c' \<Longrightarrow> lock_reachable ops w c'"

section \<open>Spinning\<close>

text \<open>
  A thread that spins runs against a schedule of what the other threads do to the word at each of its yields;
  it gets the lock with the rest of the schedule, or still spins when that is used up.
\<close>

fun spin :: "('w \<Rightarrow> (bool \<times> 'w) result) \<Rightarrow> ('w \<Rightarrow> 'w) list \<Rightarrow> 'w \<Rightarrow> ('w \<times> ('w \<Rightarrow> 'w) list) option result" where
  "spin try sched w = rbind (try w) (\<lambda>(b, w).
     if b then Inr (Some (w, sched))
     else case sched of [] \<Rightarrow> Inr None | step # sched \<Rightarrow> spin try sched (step w))"

declare spin.simps [simp del]

text \<open>The upgrade that may give up the read-lock in between; it returns whether that was not needed.\<close>

definition spin_upgrade :: "'w rwops \<Rightarrow> ('w \<Rightarrow> 'w) list \<Rightarrow> 'w \<Rightarrow> (bool \<times> 'w \<times> ('w \<Rightarrow> 'w) list) option result" where
  "spin_upgrade ops sched w = rbind (op_tryupgrade ops w) (\<lambda>(b, w).
     if b then Inr (Some (True, w, sched))
     else rbind (op_endread ops w) (\<lambda>w. rbind (spin (op_trywrite ops) sched w) (\<lambda>r. Inr (map_option (Pair False) r))))"

section \<open>The contract\<close>

datatype lock_state = Reading nat | Writing

text \<open>
  \<open>state\<close> is what the word says, \<open>payload\<close> what else it holds, which the lock leaves alone, and \<open>limit\<close>
  the number of read-locks that it can count.
\<close>

locale rw_lock =
  fixes ops :: "'w rwops" and state :: "'w \<Rightarrow> lock_state" and payload :: "'w \<Rightarrow> 'v" and limit :: nat
  assumes tryread_Writing: "state w = Writing \<Longrightarrow> op_tryread ops w = Inr (False, w)"
    and tryread_Reading: "state w = Reading n \<Longrightarrow> n < limit \<Longrightarrow>
      \<exists>w'. op_tryread ops w = Inr (True, w') \<and> state w' = Reading (Suc n) \<and> payload w' = payload w"
    and tryread_limit: "state w = Reading limit \<Longrightarrow> op_tryread ops w = Inr (b, w') \<Longrightarrow> \<not> b \<and> w' = w"
    and trywrite_free: "state w = Reading 0 \<Longrightarrow> \<exists>w'. op_trywrite ops w = Inr (True, w') \<and> state w' = Writing \<and> payload w' = payload w"
    and trywrite_held: "state w \<noteq> Reading 0 \<Longrightarrow> op_trywrite ops w = Inr (False, w)"
    and tryupgrade_one: "state w = Reading 1 \<Longrightarrow> \<exists>w'. op_tryupgrade ops w = Inr (True, w') \<and> state w' = Writing \<and> payload w' = payload w"
    and tryupgrade_more: "state w = Reading n \<Longrightarrow> 1 < n \<Longrightarrow> n \<le> limit \<Longrightarrow> op_tryupgrade ops w = Inr (False, w)"
    and downgrade_law: "state w = Writing \<Longrightarrow> \<exists>w'. op_downgrade ops w = Inr w' \<and> state w' = Reading 1 \<and> payload w' = payload w"
    and endread_law: "state w = Reading (Suc n) \<Longrightarrow> n < limit \<Longrightarrow> \<exists>w'. op_endread ops w = Inr w' \<and> state w' = Reading n \<and> payload w' = payload w"
    and endwrite_law: "state w = Writing \<Longrightarrow> \<exists>w'. op_endwrite ops w = Inr w' \<and> state w' = Reading 0 \<and> payload w' = payload w"
    and end_reader_law: "state w = Reading (Suc n) \<Longrightarrow> n < limit \<Longrightarrow> \<exists>w'. op_end ops w = Inr w' \<and> state w' = Reading n \<and> payload w' = payload w"
    and end_writer_law: "state w = Writing \<Longrightarrow> \<exists>w'. op_end ops w = Inr w' \<and> state w' = Reading 0 \<and> payload w' = payload w"
    and limit_pos: "0 < limit"
begin

text \<open>The word agrees with the locks that are held.\<close>

definition agrees :: "'v \<Rightarrow> 'w lock_conf \<Rightarrow> bool" where
  "agrees v c \<longleftrightarrow> payload (lc_word c) = v \<and> (case lc_writer c of
       Some t \<Rightarrow> lc_readers c = {#} \<and> state (lc_word c) = Writing
     | None \<Rightarrow> size (lc_readers c) \<le> limit \<and> state (lc_word c) = Reading (size (lc_readers c)))"

lemma reader_size:
  assumes "agrees v c" "t \<in># lc_readers c"
  shows "lc_writer c = None" "\<exists>n. size (lc_readers c) = Suc n \<and> n < limit" "size (lc_readers c - {#t#}) = size (lc_readers c) - 1"
  using assms by (auto simp: agrees_def size_Diff_singleton split: option.splits dest: multi_member_split)

lemma agrees_tryread:
  assumes "agrees v c" "op_tryread ops (lc_word c) = Inr (b, w)"
  shows "agrees v (c\<lparr>lc_word := w, lc_readers := (if b then add_mset t (lc_readers c) else lc_readers c)\<rparr>)"
proof (cases "lc_writer c")
  case None
  define n where "n = size (lc_readers c)"
  have s: "state (lc_word c) = Reading n" "n \<le> limit" using assms(1) None by (auto simp: agrees_def n_def)
  show ?thesis
  proof (cases "n = limit")
    case True
    with tryread_limit [OF _ assms(2)] s have "\<not> b" "w = lc_word c" by auto
    then show ?thesis using assms(1) by simp
  next
    case False
    with tryread_Reading [OF s(1)] s(2) assms None show ?thesis by (auto simp: agrees_def n_def)
  qed
next
  case (Some u)
  with tryread_Writing [of "lc_word c"] assms show ?thesis by (auto simp: agrees_def)
qed

lemma agrees_trywrite:
  assumes "agrees v c" "op_trywrite ops (lc_word c) = Inr (b, w)"
  shows "agrees v (c\<lparr>lc_word := w, lc_writer := (if b then Some t else lc_writer c)\<rparr>)"
proof (cases "lc_writer c = None \<and> lc_readers c = {#}")
  case True
  with trywrite_free [of "lc_word c"] assms show ?thesis by (auto simp: agrees_def)
next
  case False
  then have "state (lc_word c) \<noteq> Reading 0" using assms(1) by (auto simp: agrees_def split: option.splits)
  from trywrite_held [OF this] assms show ?thesis by (auto simp: agrees_def)
qed

lemma agrees_tryupgrade:
  assumes a: "agrees v c" and t: "t \<in># lc_readers c" and u: "op_tryupgrade ops (lc_word c) = Inr (b, w)"
  shows "agrees v (if b then c\<lparr>lc_word := w, lc_readers := lc_readers c - {#t#}, lc_writer := Some t\<rparr> else c\<lparr>lc_word := w\<rparr>)"
proof -
  note r = reader_size [OF a t]
  obtain n where n: "size (lc_readers c) = Suc n" "n < limit" using r(2) by blast
  have s: "state (lc_word c) = Reading (Suc n)" using a r(1) n by (simp add: agrees_def)
  show ?thesis
  proof (cases "n = 0")
    case True
    with tryupgrade_one [of "lc_word c"] s u a r n show ?thesis by (auto simp: agrees_def)
  next
    case False
    with tryupgrade_more [OF s] n u a show ?thesis by auto
  qed
qed

lemma agrees_step: "lock_step ops c c' \<Longrightarrow> agrees v c \<Longrightarrow> agrees v c'"
proof (erule lock_step_cases)
  fix b w t
  assume "agrees v c" "op_tryread ops (lc_word c) = Inr (b, w)"
    and "c' = c\<lparr>lc_word := w, lc_readers := (if b then add_mset t (lc_readers c) else lc_readers c)\<rparr>"
  then show "agrees v c'" using agrees_tryread by simp
next
  fix b w t
  assume "agrees v c" "op_trywrite ops (lc_word c) = Inr (b, w)"
    and "c' = c\<lparr>lc_word := w, lc_writer := (if b then Some t else lc_writer c)\<rparr>"
  then show "agrees v c'" using agrees_trywrite by simp
next
  fix t b w
  assume "agrees v c" "t \<in># lc_readers c" "op_tryupgrade ops (lc_word c) = Inr (b, w)"
    and "c' = (if b then c\<lparr>lc_word := w, lc_readers := lc_readers c - {#t#}, lc_writer := Some t\<rparr> else c\<lparr>lc_word := w\<rparr>)"
  then show "agrees v c'" using agrees_tryupgrade by simp
next
  fix t w
  assume "agrees v c" "lc_writer c = Some t" "op_downgrade ops (lc_word c) = Inr w"
    and "c' = c\<lparr>lc_word := w, lc_readers := add_mset t (lc_readers c), lc_writer := None\<rparr>"
  then show "agrees v c'" using downgrade_law [of "lc_word c"] limit_pos by (auto simp: agrees_def)
next
  fix t w
  assume a: "agrees v c" "t \<in># lc_readers c" "op_endread ops (lc_word c) = Inr w" "c' = c\<lparr>lc_word := w, lc_readers := lc_readers c - {#t#}\<rparr>"
  with reader_size [OF a(1,2)] endread_law [of "lc_word c"] show "agrees v c'" by (auto simp: agrees_def)
next
  fix t w
  assume "agrees v c" "lc_writer c = Some t" "op_endwrite ops (lc_word c) = Inr w" "c' = c\<lparr>lc_word := w, lc_writer := None\<rparr>"
  then show "agrees v c'" using endwrite_law [of "lc_word c"] by (auto simp: agrees_def)
next
  fix t w
  assume a: "agrees v c" "t \<in># lc_readers c" "op_end ops (lc_word c) = Inr w" "c' = c\<lparr>lc_word := w, lc_readers := lc_readers c - {#t#}\<rparr>"
  with reader_size [OF a(1,2)] end_reader_law [of "lc_word c"] show "agrees v c'" by (auto simp: agrees_def)
next
  fix t w
  assume "agrees v c" "lc_writer c = Some t" "op_end ops (lc_word c) = Inr w" "c' = c\<lparr>lc_word := w, lc_writer := None\<rparr>"
  then show "agrees v c'" using end_writer_law [of "lc_word c"] by (auto simp: agrees_def)
qed

lemma agrees_reachable:
  assumes "lock_reachable ops w c" "state w = Reading 0"
  shows "agrees (payload w) c"
  using assms
proof (induction rule: lock_reachable.induct)
  case start
  then show ?case by (simp add: agrees_def lock_init_def)
next
  case (step c c')
  then show ?case using agrees_step by blast
qed

text \<open>No interleaving gives a thread the write-lock while another holds a lock.\<close>

lemma mutual_exclusion:
  assumes "lock_reachable ops w c" "state w = Reading 0"
  shows "lc_writer c = Some t \<Longrightarrow> lc_readers c = {#}" "payload (lc_word c) = payload w"
  using agrees_reachable [OF assms] by (auto simp: agrees_def)

text \<open>A release of a lock that is held does not fail.\<close>

lemma release_ok:
  assumes "lock_reachable ops w c" "state w = Reading 0"
  shows "t \<in># lc_readers c \<Longrightarrow> (\<exists>w'. op_endread ops (lc_word c) = Inr w') \<and> (\<exists>w'. op_end ops (lc_word c) = Inr w') \<and>
      (\<exists>b w'. op_tryupgrade ops (lc_word c) = Inr (b, w'))"
    and "lc_writer c = Some t \<Longrightarrow> (\<exists>w'. op_endwrite ops (lc_word c) = Inr w') \<and> (\<exists>w'. op_end ops (lc_word c) = Inr w') \<and>
      (\<exists>w'. op_downgrade ops (lc_word c) = Inr w')"
proof -
  note a = agrees_reachable [OF assms]
  show "lc_writer c = Some t \<Longrightarrow> (\<exists>w'. op_endwrite ops (lc_word c) = Inr w') \<and> (\<exists>w'. op_end ops (lc_word c) = Inr w') \<and>
      (\<exists>w'. op_downgrade ops (lc_word c) = Inr w')"
    using a endwrite_law [of "lc_word c"] end_writer_law [of "lc_word c"] downgrade_law [of "lc_word c"] by (auto simp: agrees_def)
  assume t: "t \<in># lc_readers c"
  obtain n where n: "size (lc_readers c) = Suc n" "n < limit" using reader_size(2) [OF a t] by blast
  have s: "state (lc_word c) = Reading (Suc n)" using a reader_size(1) [OF a t] n by (simp add: agrees_def)
  have "\<exists>b w'. op_tryupgrade ops (lc_word c) = Inr (b, w')"
    using tryupgrade_one [of "lc_word c"] tryupgrade_more [OF s] s n by (cases "n = 0") auto
  with endread_law [OF s n(2)] end_reader_law [OF s n(2)]
  show "(\<exists>w'. op_endread ops (lc_word c) = Inr w') \<and> (\<exists>w'. op_end ops (lc_word c) = Inr w') \<and>
      (\<exists>b w'. op_tryupgrade ops (lc_word c) = Inr (b, w'))" by blast
qed

text \<open>A thread that spins for the write-lock gets it if and only if it looks once while the lock is free.\<close>

lemma spin_write:
  "(\<exists>w' sched'. spin (op_trywrite ops) sched w = Inr (Some (w', sched')) \<and> state w' = Writing) \<longleftrightarrow>
     (\<exists>i\<le>length sched. state (fold (\<lambda>f w. f w) (take i sched) w) = Reading 0)" (is "?got sched w \<longleftrightarrow> ?free sched w")
proof (induction sched arbitrary: w)
  case Nil
  then show ?case using trywrite_free [of w] trywrite_held [of w]
    by (cases "state w = Reading 0") (auto simp: spin.simps)
next
  case (Cons f sched)
  show ?case
  proof (cases "state w = Reading 0")
    case True
    then show ?thesis using trywrite_free [of w] by (auto simp: spin.simps intro: exI [of _ 0])
  next
    case False
    have "?got (f # sched) w \<longleftrightarrow> ?got sched (f w)"
      using trywrite_held [OF False] by (simp add: spin.simps [of _ "f # sched"])
    moreover have "?free (f # sched) w \<longleftrightarrow> ?free sched (f w)"
    proof
      assume "?free (f # sched) w"
      then obtain i where i: "i \<le> length (f # sched)" "state (fold (\<lambda>f w. f w) (take i (f # sched)) w) = Reading 0" by blast
      with False obtain j where "i = Suc j" by (cases i) auto
      with i show "?free sched (f w)" by auto
    next
      assume "?free sched (f w)"
      then obtain i where "i \<le> length sched" "state (fold (\<lambda>f w. f w) (take i sched) (f w)) = Reading 0" by blast
      then show "?free (f # sched) w" by (intro exI [of _ "Suc i"]) simp
    qed
    ultimately show ?thesis using Cons.IH [of "f w"] by blast
  qed
qed

end

end
