(* ===== verification/Atomic_Rwlock.thy ===== *)
theory Atomic_Rwlock
  imports Rwlock
begin

text \<open>
  The lock of \<^verbatim>\<open>include/hybrid/sync/atomic-rwlock.h\<close>: a 32-bit word that is the number of readers, or has only its
  highest bit set for a writer. The functions are those with assertions enabled; tasks are not preempted
  unsafely, so that the assertions on that hold.
\<close>

definition ATOMIC_RWLOCK_RMASK :: "32 word" where "ATOMIC_RWLOCK_RMASK = 0x7fffffff"
definition ATOMIC_RWLOCK_WFLAG :: "32 word" where "ATOMIC_RWLOCK_WFLAG = 0x80000000"

definition atomic_rwlock_init :: "32 word" where
  "atomic_rwlock_init = 0"

definition atomic_rwlock_init_read :: "32 word" where
  "atomic_rwlock_init_read = 1"

definition atomic_rwlock_init_write :: "32 word" where
  "atomic_rwlock_init_write = ATOMIC_RWLOCK_WFLAG"

definition atomic_rwlock_reading :: "32 word \<Rightarrow> bool" where
  "atomic_rwlock_reading x \<longleftrightarrow> x \<noteq> 0"

definition atomic_rwlock_writing :: "32 word \<Rightarrow> bool" where
  "atomic_rwlock_writing x \<longleftrightarrow> x AND ATOMIC_RWLOCK_WFLAG \<noteq> 0"

definition atomic_rwlock_endwrite :: "32 word \<Rightarrow> 32 word result" where
  "atomic_rwlock_endwrite f = rassert (f AND ATOMIC_RWLOCK_WFLAG \<noteq> 0) (Inr 0)"

definition atomic_rwlock_endread :: "32 word \<Rightarrow> (bool \<times> 32 word) result" where
  "atomic_rwlock_endread f =
     rassert (f AND ATOMIC_RWLOCK_WFLAG = 0) (rassert (f \<noteq> 0) (Inr (f = 1, f - 1)))"

definition atomic_rwlock_end :: "32 word \<Rightarrow> (bool \<times> 32 word) result" where
  "atomic_rwlock_end temp =
     rbind (if temp AND ATOMIC_RWLOCK_WFLAG \<noteq> 0 then rassert (temp AND ATOMIC_RWLOCK_RMASK = 0) (Inr 0)
            else rassert (temp \<noteq> 0) (Inr (temp - 1))) (\<lambda>newval. Inr (newval = 0, newval))"

definition atomic_rwlock_tryread :: "32 word \<Rightarrow> (bool \<times> 32 word) result" where
  "atomic_rwlock_tryread temp =
     (if temp AND ATOMIC_RWLOCK_WFLAG \<noteq> 0 then Inr (False, temp)
      else rassert (temp AND ATOMIC_RWLOCK_RMASK \<noteq> ATOMIC_RWLOCK_RMASK) (Inr (True, temp + 1)))"

definition atomic_rwlock_trywrite :: "32 word \<Rightarrow> (bool \<times> 32 word) result" where
  "atomic_rwlock_trywrite lck = (if lck = 0 then Inr (True, ATOMIC_RWLOCK_WFLAG) else Inr (False, lck))"

definition atomic_rwlock_read :: "(32 word \<Rightarrow> 32 word) list \<Rightarrow> 32 word \<Rightarrow> (32 word \<times> (32 word \<Rightarrow> 32 word) list) option result" where
  "atomic_rwlock_read = spin atomic_rwlock_tryread"

definition atomic_rwlock_write :: "(32 word \<Rightarrow> 32 word) list \<Rightarrow> 32 word \<Rightarrow> (32 word \<times> (32 word \<Rightarrow> 32 word) list) option result" where
  "atomic_rwlock_write = spin atomic_rwlock_trywrite"

definition atomic_rwlock_tryupgrade :: "32 word \<Rightarrow> (bool \<times> 32 word) result" where
  "atomic_rwlock_tryupgrade temp = (if temp \<noteq> 1 then Inr (False, temp) else Inr (True, ATOMIC_RWLOCK_WFLAG))"

definition atomic_rwlock_downgrade :: "32 word \<Rightarrow> 32 word result" where
  "atomic_rwlock_downgrade f = rassert (f = ATOMIC_RWLOCK_WFLAG) (Inr 1)"

text \<open>The operations as the contract wants them, without what \<^verbatim>\<open>atomic_rwlock_endread\<close> and \<^verbatim>\<open>atomic_rwlock_end\<close> return.\<close>

definition atomic_rwlock_ops :: "32 word rwops" where
  "atomic_rwlock_ops = \<lparr>op_tryread = atomic_rwlock_tryread, op_trywrite = atomic_rwlock_trywrite,
     op_tryupgrade = atomic_rwlock_tryupgrade, op_downgrade = atomic_rwlock_downgrade,
     op_endread = (\<lambda>w. rbind (atomic_rwlock_endread w) (\<lambda>(b, w). Inr w)), op_endwrite = atomic_rwlock_endwrite,
     op_end = (\<lambda>w. rbind (atomic_rwlock_end w) (\<lambda>(b, w). Inr w))\<rparr>"

definition atomic_rwlock_upgrade ::
  "(32 word \<Rightarrow> 32 word) list \<Rightarrow> 32 word \<Rightarrow> (bool \<times> 32 word \<times> (32 word \<Rightarrow> 32 word) list) option result" where
  "atomic_rwlock_upgrade = spin_upgrade atomic_rwlock_ops"

section \<open>The contract\<close>

definition rwlock_state :: "32 word \<Rightarrow> lock_state" where
  "rwlock_state w = (if w = ATOMIC_RWLOCK_WFLAG then Writing else Reading (unat w))"

lemma and_WFLAG: "w AND ATOMIC_RWLOCK_WFLAG = 0 \<longleftrightarrow> unat w < 2 ^ 31"
proof -
  have "ATOMIC_RWLOCK_WFLAG = 2 ^ 31" by (simp add: ATOMIC_RWLOCK_WFLAG_def)
  then have "w AND ATOMIC_RWLOCK_WFLAG = 0 \<longleftrightarrow> \<not> bit w 31" by (metis and_exp_eq_0_iff_not_bit)
  also have "\<dots> \<longleftrightarrow> \<not> bit (unat w) 31" by (simp add: bit_unsigned_iff)
  also have "\<dots> \<longleftrightarrow> even (unat w div 2 ^ 31)" by (simp add: bit_iff_odd)
  also have "\<dots> \<longleftrightarrow> unat w < 2 ^ 31"
  proof -
    have "unat w div 2 ^ 31 < 2" using unat_less_2_32 [of w] by (simp add: less_mult_imp_div_less)
    then have "even (unat w div 2 ^ 31) \<longleftrightarrow> unat w div 2 ^ 31 = 0" by (cases "unat w div 2 ^ 31") auto
    then show ?thesis by (simp add: div_eq_0_iff)
  qed
  finally show ?thesis .
qed

lemma and_RMASK: "unat w < 2 ^ 31 \<Longrightarrow> w AND ATOMIC_RWLOCK_RMASK = w"
proof -
  assume "unat w < 2 ^ 31"
  have "ATOMIC_RWLOCK_RMASK = mask 31" by (simp add: ATOMIC_RWLOCK_RMASK_def mask_eq_exp_minus_1)
  then have "w AND ATOMIC_RWLOCK_RMASK = take_bit 31 w" by (simp add: take_bit_eq_mask)
  also have "\<dots> = w"
    using \<open>unat w < 2 ^ 31\<close> by (intro word_unat_eq_iff [THEN iffD2]) (simp add: unsigned_take_bit_eq take_bit_nat_eq_self)
  finally show ?thesis .
qed

lemma unat_WFLAG: "unat ATOMIC_RWLOCK_WFLAG = 2 ^ 31" "ATOMIC_RWLOCK_WFLAG \<noteq> 0" "ATOMIC_RWLOCK_WFLAG \<noteq> 1"
  "ATOMIC_RWLOCK_WFLAG AND ATOMIC_RWLOCK_RMASK = 0" "ATOMIC_RWLOCK_WFLAG AND ATOMIC_RWLOCK_WFLAG \<noteq> 0"
  by (simp_all add: ATOMIC_RWLOCK_WFLAG_def ATOMIC_RWLOCK_RMASK_def)

lemma rwlock_state_simps:
  "rwlock_state w = Writing \<longleftrightarrow> w = ATOMIC_RWLOCK_WFLAG"
  "n < 2 ^ 31 \<Longrightarrow> rwlock_state w = Reading n \<longleftrightarrow> unat w = n"
  by (auto simp: rwlock_state_def unat_WFLAG)

lemma unat_inc: "unat w < 2 ^ 31 \<Longrightarrow> unat (w + 1 :: 32 word) = unat w + 1"
  by (subst unat_add_lem [THEN iffD1]) auto

lemma unat_dec: "w \<noteq> 0 \<Longrightarrow> unat (w - 1 :: 32 word) = unat w - 1"
  by (simp add: unat_minus_one)

interpretation rwlock: rw_lock atomic_rwlock_ops rwlock_state "\<lambda>_. ()" "2 ^ 31 - 1"
proof
  fix w :: "32 word" and n
  show "op_tryread atomic_rwlock_ops w = Inr (False, w)" if "rwlock_state w = Writing"
    using that by (simp add: rwlock_state_simps atomic_rwlock_ops_def atomic_rwlock_tryread_def unat_WFLAG)
  show "\<exists>w'. op_tryread atomic_rwlock_ops w = Inr (True, w') \<and> rwlock_state w' = Reading (Suc n) \<and> () = ()"
    if "rwlock_state w = Reading n" "n < 2 ^ 31 - 1"
  proof -
    have n: "unat w = n" using that by (simp add: rwlock_state_simps)
    then have "w AND ATOMIC_RWLOCK_RMASK \<noteq> ATOMIC_RWLOCK_RMASK" using that(2) and_RMASK [of w] by (auto simp: ATOMIC_RWLOCK_RMASK_def)
    moreover have "w AND ATOMIC_RWLOCK_WFLAG = 0" using n that(2) by (simp add: and_WFLAG)
    moreover have "rwlock_state (w + 1) = Reading (Suc n)" using n that(2) unat_inc [of w] by (subst rwlock_state_simps) auto
    ultimately show ?thesis by (simp add: atomic_rwlock_ops_def atomic_rwlock_tryread_def)
  qed
  show "\<not> b \<and> w' = w" if "rwlock_state w = Reading (2 ^ 31 - 1)" "op_tryread atomic_rwlock_ops w = Inr (b, w')" for b w'
  proof -
    have "unat w = 2 ^ 31 - 1" using that(1) by (simp add: rwlock_state_simps)
    then have "w = ATOMIC_RWLOCK_RMASK" by (intro word_unat_eq_iff [THEN iffD2]) (simp add: ATOMIC_RWLOCK_RMASK_def)
    with that(2) show ?thesis by (auto simp: atomic_rwlock_ops_def atomic_rwlock_tryread_def rassert_eq_Inr_iff split: if_splits)
  qed
  show "\<exists>w'. op_trywrite atomic_rwlock_ops w = Inr (True, w') \<and> rwlock_state w' = Writing \<and> () = ()" if "rwlock_state w = Reading 0"
    using that by (simp add: rwlock_state_simps unat_eq_zero atomic_rwlock_ops_def atomic_rwlock_trywrite_def)
  show "op_trywrite atomic_rwlock_ops w = Inr (False, w)"
    if "rwlock_state w \<noteq> Reading 0"
    using that by (auto simp: rwlock_state_simps atomic_rwlock_ops_def atomic_rwlock_trywrite_def unat_WFLAG)
  show "\<exists>w'. op_tryupgrade atomic_rwlock_ops w = Inr (True, w') \<and> rwlock_state w' = Writing \<and> () = ()" if "rwlock_state w = Reading 1"
  proof -
    have "w = 1" using that by (intro word_unat_eq_iff [THEN iffD2]) (simp add: rwlock_state_simps)
    then show ?thesis by (simp add: rwlock_state_simps atomic_rwlock_ops_def atomic_rwlock_tryupgrade_def)
  qed
  show "op_tryupgrade atomic_rwlock_ops w = Inr (False, w)" if "rwlock_state w = Reading n" "1 < n" "n \<le> 2 ^ 31 - 1"
    using that by (auto simp: rwlock_state_simps atomic_rwlock_ops_def atomic_rwlock_tryupgrade_def)
  show "\<exists>w'. op_downgrade atomic_rwlock_ops w = Inr w' \<and> rwlock_state w' = Reading 1 \<and> () = ()" if "rwlock_state w = Writing"
    using that by (simp add: rwlock_state_simps atomic_rwlock_ops_def atomic_rwlock_downgrade_def)
  have rd: "w AND ATOMIC_RWLOCK_WFLAG = 0 \<and> w \<noteq> 0 \<and> rwlock_state (w - 1) = Reading n" if "rwlock_state w = Reading (Suc n)" "n < 2 ^ 31 - 1"
  proof -
    have n: "unat w = Suc n" using that by (subst (asm) rwlock_state_simps) auto
    then have "w \<noteq> 0" by auto
    with n that(2) unat_dec [of w] show ?thesis by (auto simp: and_WFLAG rwlock_state_simps)
  qed
  show "\<exists>w'. op_endread atomic_rwlock_ops w = Inr w' \<and> rwlock_state w' = Reading n \<and> () = ()"
    if "rwlock_state w = Reading (Suc n)" "n < 2 ^ 31 - 1"
    using rd [OF that] by (simp add: atomic_rwlock_ops_def atomic_rwlock_endread_def)
  show "\<exists>w'. op_end atomic_rwlock_ops w = Inr w' \<and> rwlock_state w' = Reading n \<and> () = ()"
    if "rwlock_state w = Reading (Suc n)" "n < 2 ^ 31 - 1"
    using rd [OF that] by (simp add: atomic_rwlock_ops_def atomic_rwlock_end_def)
  show "\<exists>w'. op_endwrite atomic_rwlock_ops w = Inr w' \<and> rwlock_state w' = Reading 0 \<and> () = ()" if "rwlock_state w = Writing"
    using that by (simp add: rwlock_state_simps atomic_rwlock_ops_def atomic_rwlock_endwrite_def unat_WFLAG)
  show "\<exists>w'. op_end atomic_rwlock_ops w = Inr w' \<and> rwlock_state w' = Reading 0 \<and> () = ()" if "rwlock_state w = Writing"
    using that by (simp add: rwlock_state_simps atomic_rwlock_ops_def atomic_rwlock_end_def unat_WFLAG)
qed simp

end
