(* ===== verification/Atomic_Rwptr.thy ===== *)
theory Atomic_Rwptr
  imports Rwlock
begin

text \<open>
  The pointer with a lock in its low bits, \<^verbatim>\<open>include/hybrid/sync/atomic-rwptr.h\<close>: three bits count the readers, the
  fourth is set for a writer, and the other bits are the address. Most functions work on the low byte of the word only.
  The functions are those of the debug build.
\<close>

definition ATOMIC_RWPTR_MASK_RCNT :: "'a::len word" where "ATOMIC_RWPTR_MASK_RCNT = 7"
definition ATOMIC_RWPTR_MASK_WMODE :: "'a::len word" where "ATOMIC_RWPTR_MASK_WMODE = 8"
definition ATOMIC_RWPTR_LOCK_MASK :: "'a::len word" where "ATOMIC_RWPTR_LOCK_MASK = 16 - 1"

text \<open>The low byte of the word, and the word with another low byte.\<close>

definition ap_lbyt :: "32 word \<Rightarrow> 8 word" where
  "ap_lbyt d = ucast d"

definition set_lbyt :: "32 word \<Rightarrow> 8 word \<Rightarrow> 32 word" where
  "set_lbyt d b = of_nat (256 * (unat d div 256) + unat b)"

definition ATOMIC_RWPTR_GET :: "32 word \<Rightarrow> 32 word" where
  "ATOMIC_RWPTR_GET d = d AND NOT ATOMIC_RWPTR_LOCK_MASK"

definition atomic_rwptr_init :: "32 word" where
  "atomic_rwptr_init = 0"

definition atomic_rwptr_reading :: "32 word \<Rightarrow> bool" where
  "atomic_rwptr_reading d \<longleftrightarrow> d AND (ATOMIC_RWPTR_MASK_WMODE OR ATOMIC_RWPTR_MASK_RCNT) \<noteq> 0"

definition atomic_rwptr_writing :: "32 word \<Rightarrow> bool" where
  "atomic_rwptr_writing d \<longleftrightarrow> d AND ATOMIC_RWPTR_MASK_WMODE \<noteq> 0"

definition atomic_rwptr_tryread :: "32 word \<Rightarrow> (bool \<times> 32 word) result" where
  "atomic_rwptr_tryread d =
     (let lold = ap_lbyt d in
      if lold AND ATOMIC_RWPTR_MASK_WMODE \<noteq> 0 \<or> lold AND ATOMIC_RWPTR_MASK_RCNT = ATOMIC_RWPTR_MASK_RCNT
      then Inr (False, d)
      else Inr (True, set_lbyt d (lold + 1)))"

definition atomic_rwptr_read :: "(32 word \<Rightarrow> 32 word) list \<Rightarrow> 32 word \<Rightarrow> (32 word \<times> (32 word \<Rightarrow> 32 word) list) option result" where
  "atomic_rwptr_read = spin atomic_rwptr_tryread"

definition atomic_rwptr_endread :: "32 word \<Rightarrow> 32 word result" where
  "atomic_rwptr_endread d =
     (let lold = ap_lbyt d in rassert (lold AND ATOMIC_RWPTR_MASK_RCNT \<noteq> 0) (Inr (set_lbyt d (lold - 1))))"

definition atomic_rwptr_trywrite :: "32 word \<Rightarrow> (bool \<times> 32 word) result" where
  "atomic_rwptr_trywrite d =
     (let lold = ap_lbyt d in
      if lold AND (ATOMIC_RWPTR_MASK_WMODE OR ATOMIC_RWPTR_MASK_RCNT) \<noteq> 0 then Inr (False, d)
      else Inr (True, set_lbyt d (lold OR ATOMIC_RWPTR_MASK_WMODE)))"

definition atomic_rwptr_write :: "(32 word \<Rightarrow> 32 word) list \<Rightarrow> 32 word \<Rightarrow> (32 word \<times> (32 word \<Rightarrow> 32 word) list) option result" where
  "atomic_rwptr_write = spin atomic_rwptr_trywrite"

definition atomic_rwptr_endwrite :: "32 word \<Rightarrow> 32 word result" where
  "atomic_rwptr_endwrite d =
     (let lold = ap_lbyt d in
      rassert (lold AND ATOMIC_RWPTR_MASK_WMODE \<noteq> 0) (Inr (set_lbyt d (lold AND NOT ATOMIC_RWPTR_MASK_WMODE))))"

definition atomic_rwptr_end :: "32 word \<Rightarrow> 32 word result" where
  "atomic_rwptr_end temp =
     (if temp AND ATOMIC_RWPTR_MASK_WMODE \<noteq> 0
      then rassert (temp AND ATOMIC_RWPTR_MASK_RCNT = 0) (Inr (temp AND NOT ATOMIC_RWPTR_MASK_WMODE))
      else rassert (temp AND ATOMIC_RWPTR_MASK_RCNT \<noteq> 0) (Inr (temp - 1)))"

definition atomic_rwptr_tryupgrade :: "32 word \<Rightarrow> (bool \<times> 32 word) result" where
  "atomic_rwptr_tryupgrade d =
     (let lold = ap_lbyt d in
      rassert (1 \<le> lold AND ATOMIC_RWPTR_MASK_RCNT)
       (if lold AND ATOMIC_RWPTR_MASK_RCNT \<noteq> 1 then Inr (False, d)
        else Inr (True, set_lbyt d ((lold AND NOT ATOMIC_RWPTR_MASK_RCNT) OR ATOMIC_RWPTR_MASK_WMODE))))"

definition atomic_rwptr_downgrade :: "32 word \<Rightarrow> 32 word result" where
  "atomic_rwptr_downgrade d =
     (let lold = ap_lbyt d in
      rassert (lold AND ATOMIC_RWPTR_LOCK_MASK = ATOMIC_RWPTR_MASK_WMODE)
       (Inr (set_lbyt d ((lold AND NOT ATOMIC_RWPTR_MASK_WMODE) OR 1))))"

definition atomic_rwptr_ops :: "32 word rwops" where
  "atomic_rwptr_ops = \<lparr>op_tryread = atomic_rwptr_tryread, op_trywrite = atomic_rwptr_trywrite,
     op_tryupgrade = atomic_rwptr_tryupgrade, op_downgrade = atomic_rwptr_downgrade,
     op_endread = atomic_rwptr_endread, op_endwrite = atomic_rwptr_endwrite, op_end = atomic_rwptr_end\<rparr>"

definition atomic_rwptr_upgrade ::
  "(32 word \<Rightarrow> 32 word) list \<Rightarrow> 32 word \<Rightarrow> (bool \<times> 32 word \<times> (32 word \<Rightarrow> 32 word) list) option result" where
  "atomic_rwptr_upgrade = spin_upgrade atomic_rwptr_ops"

section \<open>The low bits of a word\<close>

lemma unat_and_7: "unat (w AND 7 :: 'a::len word) = unat w mod 8"
proof -
  have "w AND 7 = take_bit 3 w" by (simp add: take_bit_eq_mask mask_eq_exp_minus_1)
  then have "unat (w AND 7) = take_bit 3 (unat w)" by (metis unsigned_take_bit_eq)
  then show ?thesis by (simp add: take_bit_eq_mod)
qed

lemma unat_and_15: "unat (w AND 15 :: 'a::len word) = unat w mod 16"
proof -
  have "w AND 15 = take_bit 4 w" by (simp add: take_bit_eq_mask mask_eq_exp_minus_1)
  then have "unat (w AND 15) = take_bit 4 (unat w)" by (metis unsigned_take_bit_eq)
  then show ?thesis by (simp add: take_bit_eq_mod)
qed

lemma and_8_eq_0: "(w AND 8 :: 'a::len word) = 0 \<longleftrightarrow> unat w mod 16 < 8"
proof -
  have "w AND 2 ^ 3 = 0 \<longleftrightarrow> \<not> bit w 3" by (rule and_exp_eq_0_iff_not_bit)
  also have "\<dots> \<longleftrightarrow> \<not> bit (unat w) 3" by (simp add: bit_unsigned_iff)
  also have "\<dots> \<longleftrightarrow> even (unat w div 8)" by (simp add: bit_iff_odd)
  also have "\<dots> \<longleftrightarrow> unat w mod 16 < 8" by presburger
  finally show ?thesis by simp
qed

text \<open>A set bit that is cleared, and a cleared bit that is set, for words of more than four bits.\<close>

lemma unat_nibble_bound:
  assumes "4 < LENGTH('a::len)"
  shows "16 * (unat (w :: 'a word) div 16) + 16 \<le> 2 ^ LENGTH('a)"
proof -
  have "(2 :: nat) ^ 4 dvd 2 ^ LENGTH('a)" using assms by (intro le_imp_power_dvd) simp
  then have d: "16 * (2 ^ LENGTH('a) div 16) = (2 :: nat) ^ LENGTH('a)" by (intro dvd_mult_div_cancel) simp
  have "unat w < 2 ^ LENGTH('a)" by (rule unsigned_less)
  then have "unat w div 16 < 2 ^ LENGTH('a) div 16" using d by (intro less_mult_imp_div_less) (simp add: mult.commute)
  with d show ?thesis by linarith
qed

lemma unat_plus_nibble:
  assumes "4 < LENGTH('a::len)" "unat (w :: 'a word) mod 16 + n < 16"
  shows "unat (w + of_nat n) = unat w + n"
proof -
  have b: "16 * (unat w div 16) + 16 \<le> 2 ^ LENGTH('a)" by (rule unat_nibble_bound [OF assms(1)])
  have "unat w = 16 * (unat w div 16) + unat w mod 16" by simp
  then have sum: "unat w + n < 2 ^ LENGTH('a)" using b assms(2) by linarith
  then have "unat (of_nat n :: 'a word) = n" by (simp add: unat_of_nat)
  with sum show ?thesis by (subst unat_add_lem [THEN iffD1]) auto
qed

lemma unat_minus_nibble:
  assumes "n \<le> unat (w :: 'a::len word) mod 16"
  shows "unat (w - of_nat n) = unat w - n"
proof -
  have "n \<le> unat w" using assms by (metis le_trans mod_less_eq_dividend)
  moreover from this have "n < 2 ^ LENGTH('a)" by (rule le_less_trans) (rule unsigned_less)
  then have "unat (of_nat n :: 'a word) = n" by (simp add: unat_of_nat)
  ultimately show ?thesis by (subst unat_sub) (simp_all add: word_le_nat_alt)
qed

lemma and_not_minus: "w AND NOT m = w - (w AND m :: 'a::len word)"
  using word_plus_and_or [of "w AND m" "w AND NOT m"]
proof -
  have "(w AND m) AND (w AND NOT m) = 0" "(w AND m) OR (w AND NOT m) = w"
    by (auto intro!: bit_word_eqI simp: bit_and_iff bit_or_iff bit_not_iff)
  with word_plus_and_or [of "w AND m" "w AND NOT m"] show ?thesis by (simp add: algebra_simps)
qed

lemma or_plus: "w AND m = 0 \<Longrightarrow> w OR m = w + (m :: 'a::len word)"
  using word_plus_and_or [of w m] by simp

lemmas rwptr_masks = ATOMIC_RWPTR_MASK_RCNT_def ATOMIC_RWPTR_MASK_WMODE_def ATOMIC_RWPTR_LOCK_MASK_def

lemma unat_or_8:
  assumes "4 < LENGTH('a::len)" "unat (w :: 'a word) mod 16 < 8"
  shows "unat (w OR 8) = unat w + 8"
  using unat_plus_nibble [OF assms(1), of w 8] assms(2) or_plus [of w 8] by (simp add: and_8_eq_0)

lemma unat_and_not_8:
  assumes "4 < LENGTH('a::len)" "8 \<le> unat (w :: 'a word) mod 16"
  shows "unat (w AND NOT 8) = unat w - 8"
proof -
  have "w AND 2 ^ 3 \<noteq> 0" using assms by (simp add: and_8_eq_0)
  then have "bit w 3" by (simp only: and_exp_eq_0_iff_not_bit not_not)
  then have "w AND 2 ^ 3 = 2 ^ 3" by (intro bit_word_eqI) (simp only: bit_and_iff bit_exp_iff, blast)
  then show ?thesis unfolding and_not_minus using unat_minus_nibble [of 8 w] assms(2) by simp
qed


section \<open>The contract\<close>

definition rwptr_state :: "32 word \<Rightarrow> lock_state" where
  "rwptr_state d = (if unat d mod 16 = 8 then Writing else Reading (unat d mod 16))"

definition rwptr_addr :: "32 word \<Rightarrow> nat" where
  "rwptr_addr d = unat d div 16"

lemma rwptr_state_simps:
  "rwptr_state d = Writing \<longleftrightarrow> unat d mod 16 = 8" "n \<noteq> 8 \<Longrightarrow> rwptr_state d = Reading n \<longleftrightarrow> unat d mod 16 = n"
  by (auto simp: rwptr_state_def)

lemma unat_lbyt: "unat (ap_lbyt d) = unat d mod 256"
  by (simp add: ap_lbyt_def unsigned_ucast_eq take_bit_eq_mod)

lemma unat_set_lbyt: "unat (set_lbyt d b) = 256 * (unat d div 256) + unat b"
proof -
  have "unat d div 256 < 2 ^ 24" using unat_less_2_32 [of d] by (simp add: less_mult_imp_div_less)
  moreover have "unat b < 256" using unsigned_less [of b, where ?'a = nat] by simp
  ultimately have "256 * (unat d div 256) + unat b < 2 ^ 32" by simp
  then show ?thesis unfolding set_lbyt_def by (rule unat_of_nat_32)
qed

text \<open>The low nibble of the byte is that of the word, and a byte with the same high nibble leaves the address alone.\<close>

lemma lbyt_nibble: "unat (ap_lbyt d) mod 16 = unat d mod 16" "unat (ap_lbyt d) mod 8 = unat d mod 8"
  by (simp_all add: unat_lbyt mod_mod_cancel)

lemma set_lbyt_word:
  assumes "unat b div 16 = unat (ap_lbyt d) div 16"
  shows "unat (set_lbyt d b) mod 16 = unat b mod 16" "rwptr_addr (set_lbyt d b) = rwptr_addr d"
proof -
  have e: "unat (set_lbyt d b) = unat b + 16 * (16 * (unat d div 256))" by (simp add: unat_set_lbyt)
  then show "unat (set_lbyt d b) mod 16 = unat b mod 16" by (metis mod_mult_self2)
  have q: "(x + 16 * y) div 16 = x div 16 + y" for x y :: nat by simp
  have "unat d = unat (ap_lbyt d) + 16 * (16 * (unat d div 256))" by (simp add: unat_lbyt)
  from arg_cong [OF this, of "\<lambda>n. n div 16"] have "unat d div 16 = unat (ap_lbyt d) div 16 + 16 * (unat d div 256)"
    unfolding q .
  moreover from arg_cong [OF e, of "\<lambda>n. n div 16"] have "unat (set_lbyt d b) div 16 = unat b div 16 + 16 * (unat d div 256)"
    unfolding q .
  ultimately show "rwptr_addr (set_lbyt d b) = rwptr_addr d" using assms by (simp add: rwptr_addr_def)
qed

lemma nibble_plus: "(x::nat) mod 16 + k < 16 \<Longrightarrow> (x + k) div 16 = x div 16 \<and> (x + k) mod 16 = x mod 16 + k"
proof -
  assume k: "x mod 16 + k < 16"
  have "x + k = 16 * (x div 16) + (x mod 16 + k)" by simp
  with k show ?thesis by (metis add.right_neutral div_less div_mult_self4 mod_less mod_mult_self4 zero_neq_numeral)
qed

lemma nibble_minus: "k \<le> (x::nat) mod 16 \<Longrightarrow> (x - k) div 16 = x div 16 \<and> (x - k) mod 16 = x mod 16 - k"
proof -
  assume k: "k \<le> x mod 16"
  then have "x - k = 16 * (x div 16) + (x mod 16 - k)" by (simp add: diff_add_assoc [symmetric])
  moreover have "x mod 16 - k < 16" by (simp add: less_imp_diff_less)
  ultimately show ?thesis by simp
qed

text \<open>The word after the byte was increased or decreased within its low nibble.\<close>

lemma set_lbyt_plus:
  assumes "unat b = unat (ap_lbyt d) + k" "unat d mod 16 + k < 16"
  shows "unat (set_lbyt d b) mod 16 = unat d mod 16 + k" "rwptr_addr (set_lbyt d b) = rwptr_addr d"
  using set_lbyt_word [of b d] nibble_plus [of "unat (ap_lbyt d)" k] assms by (simp_all add: lbyt_nibble)

lemma set_lbyt_minus:
  assumes "unat b = unat (ap_lbyt d) - k" "k \<le> unat d mod 16"
  shows "unat (set_lbyt d b) mod 16 = unat d mod 16 - k" "rwptr_addr (set_lbyt d b) = rwptr_addr d"
  using set_lbyt_word [of b d] nibble_minus [of k "unat (ap_lbyt d)"] assms by (simp_all add: lbyt_nibble)

lemma lbyt_tests:
  "ap_lbyt d AND 8 = 0 \<longleftrightarrow> unat d mod 16 < 8" "unat (ap_lbyt d AND 7) = unat d mod 8" "unat (ap_lbyt d AND 15) = unat d mod 16"
  by (simp_all add: and_8_eq_0 unat_and_7 unat_and_15 lbyt_nibble)

lemma rwptr_held: "ap_lbyt d AND (8 OR 7) \<noteq> 0 \<longleftrightarrow> unat d mod 16 \<noteq> 0"
proof -
  have "ap_lbyt d AND (8 OR 7) = ap_lbyt d AND 15" by simp
  then show ?thesis using lbyt_tests(3) [of d] by (metis unat_eq_zero)
qed

text \<open>The changes of the low byte, one for each operation.\<close>

lemma lbyt_inc: "unat d mod 16 < 15 \<Longrightarrow> unat (ap_lbyt d + 1) = unat (ap_lbyt d) + 1"
  using unat_plus_nibble [of "ap_lbyt d" 1] by (simp add: lbyt_nibble)

lemma lbyt_dec: "unat d mod 16 \<noteq> 0 \<Longrightarrow> unat (ap_lbyt d - 1) = unat (ap_lbyt d) - 1"
  using unat_minus_nibble [of 1 "ap_lbyt d"] by (simp add: lbyt_nibble)

lemma lbyt_upgrade:
  assumes "unat d mod 16 = 1"
  shows "unat ((ap_lbyt d AND NOT 7) OR 8) = unat (ap_lbyt d) + 7"
proof -
  have m8: "unat d mod 8 = 1" using assms by presburger
  then have "unat (ap_lbyt d AND 7) = 1" by (simp add: lbyt_tests)
  then have "ap_lbyt d AND 7 = 1" by (intro word_unat_eq_iff [THEN iffD2]) simp
  then have e: "ap_lbyt d AND NOT 7 = ap_lbyt d - 1" by (simp only: and_not_minus)
  have u: "unat (ap_lbyt d - 1) = unat (ap_lbyt d) - 1" using lbyt_dec assms by simp
  moreover have "(unat (ap_lbyt d) - 1) mod 16 = 0" using nibble_minus [of 1 "unat (ap_lbyt d)"] assms by (simp add: lbyt_nibble)
  ultimately have "unat ((ap_lbyt d - 1) OR 8) = unat (ap_lbyt d) - 1 + 8" using unat_or_8 [of "ap_lbyt d - 1"] by simp
  moreover have "0 < unat (ap_lbyt d)" using assms lbyt_nibble(1) [of d] by (cases "unat (ap_lbyt d)") auto
  ultimately show ?thesis unfolding e by simp
qed

lemma lbyt_downgrade:
  assumes "unat d mod 16 = 8"
  shows "unat ((ap_lbyt d AND NOT 8) OR 1) = unat (ap_lbyt d) - 7"
proof -
  let ?b = "ap_lbyt d AND NOT 8"
  have u: "unat ?b = unat (ap_lbyt d) - 8" using assms by (intro unat_and_not_8) (simp_all add: lbyt_nibble)
  have z: "unat ?b mod 16 = 0" using u nibble_minus [of 8 "unat (ap_lbyt d)"] assms by (simp add: lbyt_nibble)
  then have "even (unat ?b)" by presburger
  then have "\<not> bit (unat ?b) 0" by (simp only: bit_0 not_not)
  then have "\<not> bit ?b 0" by (simp only: bit_unsigned_iff) simp
  then have "?b AND 2 ^ 0 = 0" by (simp only: and_exp_eq_0_iff_not_bit not_False_eq_True)
  then have "?b AND 1 = 0" by simp
  then have "?b OR 1 = ?b + 1" by (rule or_plus)
  moreover have "unat (?b + 1) = unat ?b + 1" using unat_plus_nibble [of ?b 1] z by simp
  moreover have "8 \<le> unat (ap_lbyt d)" using assms lbyt_nibble(1) [of d] mod_less_eq_dividend [of "unat (ap_lbyt d)" 16] by simp
  ultimately show ?thesis using u by simp
qed

lemma mod_8_nibble: "unat d mod 16 = n \<Longrightarrow> unat (ap_lbyt d AND 7) = n mod 8" "unat (d :: 32 word) mod 16 = n \<Longrightarrow> unat (d AND 7) = n mod 8"
  by (auto simp: lbyt_tests unat_and_7 lbyt_nibble mod_mod_cancel)

lemma rwptr_step:
  assumes "unat (set_lbyt d b) mod 16 = k" "k \<noteq> 8" "rwptr_addr (set_lbyt d b) = rwptr_addr d"
  shows "rwptr_state (set_lbyt d b) = Reading k \<and> rwptr_addr (set_lbyt d b) = rwptr_addr d"
  using assms by (simp add: rwptr_state_def)

interpretation rwptr: rw_lock atomic_rwptr_ops rwptr_state rwptr_addr 7
proof
  fix d :: "32 word" and n
  note ops = atomic_rwptr_ops_def Let_def rwptr_masks
  show "op_tryread atomic_rwptr_ops d = Inr (False, d)" if "rwptr_state d = Writing"
    using that by (simp add: ops atomic_rwptr_tryread_def rwptr_state_simps lbyt_tests)
  show "\<exists>w'. op_tryread atomic_rwptr_ops d = Inr (True, w') \<and> rwptr_state w' = Reading (Suc n) \<and> rwptr_addr w' = rwptr_addr d"
    if "rwptr_state d = Reading n" "n < 7"
  proof -
    have n: "unat d mod 16 = n" using that by (simp add: rwptr_state_simps)
    then have "unat (ap_lbyt d AND 7) \<noteq> 7" using that(2) by (simp add: mod_8_nibble)
    then have "ap_lbyt d AND 7 \<noteq> 7" by auto
    moreover have "ap_lbyt d AND 8 = 0" using n that(2) by (simp add: lbyt_tests)
    moreover have "rwptr_state (set_lbyt d (ap_lbyt d + 1)) = Reading (Suc n) \<and> rwptr_addr (set_lbyt d (ap_lbyt d + 1)) = rwptr_addr d"
      using set_lbyt_plus [OF lbyt_inc, of d] n that(2) by (intro rwptr_step) auto
    ultimately show ?thesis by (simp add: ops atomic_rwptr_tryread_def)
  qed
  show "\<not> b \<and> w' = d" if "rwptr_state d = Reading 7" "op_tryread atomic_rwptr_ops d = Inr (b, w')" for b w'
  proof -
    have "unat d mod 16 = 7" using that(1) by (simp add: rwptr_state_simps)
    then have "unat (ap_lbyt d AND 7) = 7" by (simp add: mod_8_nibble)
    then have "ap_lbyt d AND 7 = 7" by (intro word_unat_eq_iff [THEN iffD2]) simp
    with that(2) show ?thesis by (auto simp: ops atomic_rwptr_tryread_def)
  qed
  show "\<exists>w'. op_trywrite atomic_rwptr_ops d = Inr (True, w') \<and> rwptr_state w' = Writing \<and> rwptr_addr w' = rwptr_addr d"
    if "rwptr_state d = Reading 0"
  proof -
    have n: "unat d mod 16 = 0" using that by (simp add: rwptr_state_simps)
    have "unat (ap_lbyt d OR 8) = unat (ap_lbyt d) + 8" using n by (intro unat_or_8) (simp_all add: lbyt_nibble)
    from set_lbyt_plus [OF this] n rwptr_held [of d] show ?thesis by (simp add: ops atomic_rwptr_trywrite_def rwptr_state_simps)
  qed
  show "op_trywrite atomic_rwptr_ops d = Inr (False, d)" if "rwptr_state d \<noteq> Reading 0"
    using that rwptr_held [of d] by (auto simp: ops atomic_rwptr_trywrite_def rwptr_state_simps)
  show "\<exists>w'. op_tryupgrade atomic_rwptr_ops d = Inr (True, w') \<and> rwptr_state w' = Writing \<and> rwptr_addr w' = rwptr_addr d"
    if "rwptr_state d = Reading 1"
  proof -
    have n: "unat d mod 16 = 1" using that by (simp add: rwptr_state_simps)
    then have "unat (ap_lbyt d AND 7) = 1" by (simp add: mod_8_nibble)
    then have "ap_lbyt d AND 7 = 1" by (intro word_unat_eq_iff [THEN iffD2]) simp
    with set_lbyt_plus [OF lbyt_upgrade [OF n]] n show ?thesis by (simp add: ops atomic_rwptr_tryupgrade_def rwptr_state_simps)
  qed
  show "op_tryupgrade atomic_rwptr_ops d = Inr (False, d)" if "rwptr_state d = Reading n" "1 < n" "n \<le> 7"
  proof -
    have n: "unat d mod 16 = n" using that by (simp add: rwptr_state_simps)
    then have "unat (ap_lbyt d AND 7) = n" using that by (simp add: mod_8_nibble)
    then have "1 \<le> ap_lbyt d AND 7" "ap_lbyt d AND 7 \<noteq> 1" using that by (auto simp: word_le_nat_alt)
    then show ?thesis by (simp add: ops atomic_rwptr_tryupgrade_def)
  qed
  show "\<exists>w'. op_downgrade atomic_rwptr_ops d = Inr w' \<and> rwptr_state w' = Reading 1 \<and> rwptr_addr w' = rwptr_addr d"
    if "rwptr_state d = Writing"
  proof -
    have n: "unat d mod 16 = 8" using that by (simp add: rwptr_state_simps)
    then have "ap_lbyt d AND 15 = 8" by (intro word_unat_eq_iff [THEN iffD2]) (simp add: lbyt_tests)
    with set_lbyt_minus [OF lbyt_downgrade [OF n]] n show ?thesis by (simp add: ops atomic_rwptr_downgrade_def rwptr_state_simps)
  qed
  show "\<exists>w'. op_endread atomic_rwptr_ops d = Inr w' \<and> rwptr_state w' = Reading n \<and> rwptr_addr w' = rwptr_addr d"
    if "rwptr_state d = Reading (Suc n)" "n < 7"
  proof -
    have n: "unat d mod 16 = Suc n" using that by (subst (asm) rwptr_state_simps) auto
    then have "unat (ap_lbyt d AND 7) \<noteq> 0" using that(2) by (simp add: mod_8_nibble)
    then have "ap_lbyt d AND 7 \<noteq> 0" by auto
    with set_lbyt_minus [OF lbyt_dec, of d] n that(2) show ?thesis by (simp add: ops atomic_rwptr_endread_def rwptr_state_simps)
  qed
  show "\<exists>w'. op_endwrite atomic_rwptr_ops d = Inr w' \<and> rwptr_state w' = Reading 0 \<and> rwptr_addr w' = rwptr_addr d"
    if "rwptr_state d = Writing"
  proof -
    have n: "unat d mod 16 = 8" using that by (simp add: rwptr_state_simps)
    have "unat (ap_lbyt d AND NOT 8) = unat (ap_lbyt d) - 8" using n by (intro unat_and_not_8) (simp_all add: lbyt_nibble)
    from set_lbyt_minus [OF this] n show ?thesis by (simp add: ops atomic_rwptr_endwrite_def rwptr_state_simps lbyt_tests)
  qed
  show "\<exists>w'. op_end atomic_rwptr_ops d = Inr w' \<and> rwptr_state w' = Reading n \<and> rwptr_addr w' = rwptr_addr d"
    if "rwptr_state d = Reading (Suc n)" "n < 7"
  proof -
    have n: "unat d mod 16 = Suc n" using that by (subst (asm) rwptr_state_simps) auto
    then have "unat (d AND 7) \<noteq> 0" using that(2) by (simp add: mod_8_nibble)
    then have "d AND 7 \<noteq> 0" "d AND 8 = 0" using n that(2) by (auto simp: and_8_eq_0)
    with unat_minus_nibble [of 1 d] nibble_minus [of 1 "unat d"] n that(2) show ?thesis
      by (simp add: ops atomic_rwptr_end_def rwptr_state_simps rwptr_addr_def)
  qed
  show "\<exists>w'. op_end atomic_rwptr_ops d = Inr w' \<and> rwptr_state w' = Reading 0 \<and> rwptr_addr w' = rwptr_addr d"
    if "rwptr_state d = Writing"
  proof -
    have n: "unat d mod 16 = 8" using that by (simp add: rwptr_state_simps)
    then have "unat (d AND 7) = 0" by (simp add: mod_8_nibble)
    then have "d AND 7 = 0" "d AND 8 \<noteq> 0" using n by (auto simp: and_8_eq_0 unat_eq_zero)
    with unat_and_not_8 [of d] nibble_minus [of 8 "unat d"] n show ?thesis
      by (simp add: ops atomic_rwptr_end_def rwptr_state_simps rwptr_addr_def)
  qed
qed simp

end
