(* ===== verification/Owner_Rwlock.thy ===== *)
theory Owner_Rwlock
  imports Atomic_Rwlock
begin

text \<open>
  The lock of \<^verbatim>\<open>include/hybrid/sync/atomic-owner-rwlock.h\<close>, whose writer may take it again: a word as in
  \<open>Atomic_Rwlock\<close>, where the low bits of a write-lock count how often it was taken again, and the thread that
  has the write-lock. The compare-exchange that takes the write-lock and the store of its owner are two
  steps, between which other threads run. The functions are those of the debug build.
\<close>

section \<open>Operations\<close>

definition ATOMIC_OWNER_RWLOCK_NMASK :: "32 word" where "ATOMIC_OWNER_RWLOCK_NMASK = 0x7fffffff"
definition ATOMIC_OWNER_RWLOCK_WFLAG :: "32 word" where "ATOMIC_OWNER_RWLOCK_WFLAG = 0x80000000"

record owner_rwlock =
  aorw_lock :: "32 word"
  aorw_owner :: "thread option"

definition atomic_owner_rwlock_init :: owner_rwlock where
  "atomic_owner_rwlock_init = \<lparr>aorw_lock = 0, aorw_owner = None\<rparr>"

definition atomic_owner_rwlock_reading :: "owner_rwlock \<Rightarrow> bool" where
  "atomic_owner_rwlock_reading x \<longleftrightarrow> aorw_lock x \<noteq> 0"

definition atomic_owner_rwlock_writing :: "thread \<Rightarrow> owner_rwlock \<Rightarrow> bool" where
  "atomic_owner_rwlock_writing tself x \<longleftrightarrow> aorw_lock x AND ATOMIC_OWNER_RWLOCK_WFLAG \<noteq> 0 \<and> aorw_owner x = Some tself"

definition atomic_owner_rwlock_endwrite :: "thread \<Rightarrow> owner_rwlock \<Rightarrow> owner_rwlock result" where
  "atomic_owner_rwlock_endwrite tself l =
     rassert (aorw_owner l = Some tself)
      (let f = aorw_lock l in
       rassert (f AND ATOMIC_OWNER_RWLOCK_WFLAG \<noteq> 0)
        (let l = (if f AND ATOMIC_OWNER_RWLOCK_NMASK = 0 then l\<lparr>aorw_owner := None\<rparr> else l) in
         Inr (l\<lparr>aorw_lock := (if f AND ATOMIC_OWNER_RWLOCK_NMASK \<noteq> 0 then f - 1 else 0)\<rparr>)))"

definition atomic_owner_rwlock_endread :: "thread \<Rightarrow> owner_rwlock \<Rightarrow> owner_rwlock result" where
  "atomic_owner_rwlock_endread tself l =
     (let f = aorw_lock l in
      rassert (f \<noteq> 0)
       (rassert (f AND ATOMIC_OWNER_RWLOCK_WFLAG \<noteq> 0 \<longrightarrow> f \<noteq> ATOMIC_OWNER_RWLOCK_WFLAG \<and> aorw_owner l = Some tself)
         (Inr (l\<lparr>aorw_lock := f - 1\<rparr>))))"

definition atomic_owner_rwlock_end :: "thread \<Rightarrow> owner_rwlock \<Rightarrow> owner_rwlock result" where
  "atomic_owner_rwlock_end tself l =
     (let f = aorw_lock l in
      rassert (f \<noteq> 0)
       (if f AND ATOMIC_OWNER_RWLOCK_WFLAG \<noteq> 0
        then rassert (aorw_owner l = Some tself \<or> aorw_owner l = None)
              (if f AND ATOMIC_OWNER_RWLOCK_NMASK = 0 then Inr (l\<lparr>aorw_owner := None, aorw_lock := 0\<rparr>)
               else Inr (l\<lparr>aorw_lock := f - 1\<rparr>))
        else Inr (l\<lparr>aorw_lock := f - 1\<rparr>)))"

definition atomic_owner_rwlock_tryread :: "thread \<Rightarrow> owner_rwlock \<Rightarrow> (bool \<times> owner_rwlock) result" where
  "atomic_owner_rwlock_tryread tself l =
     (let temp = aorw_lock l in
      if temp AND ATOMIC_OWNER_RWLOCK_WFLAG \<noteq> 0 \<and> aorw_owner l \<noteq> Some tself then Inr (False, l)
      else rassert (temp AND ATOMIC_OWNER_RWLOCK_NMASK \<noteq> ATOMIC_OWNER_RWLOCK_NMASK)
            (Inr (True, l\<lparr>aorw_lock := temp + 1\<rparr>)))"

text \<open>
  The loop of an operation that takes the write-lock: whether it got the lock, whether it still has to store the
  owner, and the lock. The whole operation stores the owner at once.
\<close>

definition store_owner :: "thread \<Rightarrow> bool \<times> bool \<times> owner_rwlock \<Rightarrow> (bool \<times> owner_rwlock) result" where
  "store_owner tself = (\<lambda>(b, s, l). Inr (b, if s then l\<lparr>aorw_owner := Some tself\<rparr> else l))"

definition trywrite_loop :: "thread \<Rightarrow> owner_rwlock \<Rightarrow> (bool \<times> bool \<times> owner_rwlock) result" where
  "trywrite_loop tself l =
     (let temp = aorw_lock l in
      if temp AND ATOMIC_OWNER_RWLOCK_WFLAG \<noteq> 0 \<and> aorw_owner l \<noteq> Some tself then Inr (False, False, l)
      else if temp AND ATOMIC_OWNER_RWLOCK_WFLAG = 0 \<and> temp \<noteq> 0 then Inr (False, False, l)
      else let newval = (if temp AND ATOMIC_OWNER_RWLOCK_WFLAG \<noteq> 0 then temp + 1 else ATOMIC_OWNER_RWLOCK_WFLAG) in
           rassert (newval AND ATOMIC_OWNER_RWLOCK_WFLAG \<noteq> 0)
            (Inr (True, newval = ATOMIC_OWNER_RWLOCK_WFLAG, l\<lparr>aorw_lock := newval\<rparr>)))"

definition atomic_owner_rwlock_trywrite :: "thread \<Rightarrow> owner_rwlock \<Rightarrow> (bool \<times> owner_rwlock) result" where
  "atomic_owner_rwlock_trywrite tself l = rbind (trywrite_loop tself l) (store_owner tself)"

definition trywrite_r_loop :: "thread \<Rightarrow> owner_rwlock \<Rightarrow> (bool \<times> bool \<times> owner_rwlock) result" where
  "trywrite_r_loop tself l =
     (let temp = aorw_lock l in
      rassert (temp AND ATOMIC_OWNER_RWLOCK_WFLAG \<noteq> 0 \<longrightarrow> aorw_owner l \<noteq> Some tself)
       (if temp \<noteq> 0 then Inr (False, False, l)
        else Inr (True, True, l\<lparr>aorw_lock := ATOMIC_OWNER_RWLOCK_WFLAG\<rparr>)))"

definition atomic_owner_rwlock_trywrite_r :: "thread \<Rightarrow> owner_rwlock \<Rightarrow> (bool \<times> owner_rwlock) result" where
  "atomic_owner_rwlock_trywrite_r tself l = rbind (trywrite_r_loop tself l) (store_owner tself)"

definition tryupgrade_loop :: "thread \<Rightarrow> owner_rwlock \<Rightarrow> (bool \<times> bool \<times> owner_rwlock) result" where
  "tryupgrade_loop tself l =
     (let temp = aorw_lock l in
      if temp \<noteq> 1
      then if temp AND ATOMIC_OWNER_RWLOCK_WFLAG \<noteq> 0 \<and> aorw_owner l = Some tself then Inr (True, False, l)
           else Inr (False, False, l)
      else Inr (True, True, l\<lparr>aorw_lock := ATOMIC_OWNER_RWLOCK_WFLAG\<rparr>))"

definition atomic_owner_rwlock_tryupgrade :: "thread \<Rightarrow> owner_rwlock \<Rightarrow> (bool \<times> owner_rwlock) result" where
  "atomic_owner_rwlock_tryupgrade tself l = rbind (tryupgrade_loop tself l) (store_owner tself)"

definition atomic_owner_rwlock_downgrade :: "thread \<Rightarrow> owner_rwlock \<Rightarrow> owner_rwlock result" where
  "atomic_owner_rwlock_downgrade tself l =
     rassert (aorw_owner l = Some tself)
      (let f = aorw_lock l in
       rassert (f AND ATOMIC_OWNER_RWLOCK_WFLAG \<noteq> 0)
        (rassert (f AND ATOMIC_OWNER_RWLOCK_NMASK = 0) (Inr (l\<lparr>aorw_lock := 1\<rparr>))))"

definition atomic_owner_rwlock_ops :: "thread \<Rightarrow> owner_rwlock rwops" where
  "atomic_owner_rwlock_ops tself = \<lparr>op_tryread = atomic_owner_rwlock_tryread tself, op_trywrite = atomic_owner_rwlock_trywrite tself,
     op_tryupgrade = atomic_owner_rwlock_tryupgrade tself, op_downgrade = atomic_owner_rwlock_downgrade tself,
     op_endread = atomic_owner_rwlock_endread tself, op_endwrite = atomic_owner_rwlock_endwrite tself,
     op_end = atomic_owner_rwlock_end tself\<rparr>"

definition atomic_owner_rwlock_read ::
  "thread \<Rightarrow> (owner_rwlock \<Rightarrow> owner_rwlock) list \<Rightarrow> owner_rwlock \<Rightarrow> (owner_rwlock \<times> (owner_rwlock \<Rightarrow> owner_rwlock) list) option result" where
  "atomic_owner_rwlock_read tself = spin (atomic_owner_rwlock_tryread tself)"

definition atomic_owner_rwlock_write ::
  "thread \<Rightarrow> (owner_rwlock \<Rightarrow> owner_rwlock) list \<Rightarrow> owner_rwlock \<Rightarrow> (owner_rwlock \<times> (owner_rwlock \<Rightarrow> owner_rwlock) list) option result" where
  "atomic_owner_rwlock_write tself = spin (atomic_owner_rwlock_trywrite tself)"

definition atomic_owner_rwlock_upgrade ::
  "thread \<Rightarrow> (owner_rwlock \<Rightarrow> owner_rwlock) list \<Rightarrow> owner_rwlock \<Rightarrow> (bool \<times> owner_rwlock \<times> (owner_rwlock \<Rightarrow> owner_rwlock) list) option result" where
  "atomic_owner_rwlock_upgrade tself = spin_upgrade (atomic_owner_rwlock_ops tself)"

section \<open>Threads that use the lock\<close>

text \<open>
  The lock, the thread that has yet to store itself as the owner, and one entry for every read-lock and every
  write-lock that is held. \<open>dg\<close> says whether threads downgrade their write-locks.
\<close>

record owner_conf =
  oc_lock :: owner_rwlock
  oc_pending :: "thread option"
  oc_readers :: "thread multiset"
  oc_writers :: "thread multiset"

definition owner_start :: owner_conf where
  "owner_start = \<lparr>oc_lock = atomic_owner_rwlock_init, oc_pending = None, oc_readers = {#}, oc_writers = {#}\<rparr>"

definition take_write :: "thread \<Rightarrow> bool \<Rightarrow> bool \<Rightarrow> owner_rwlock \<Rightarrow> owner_conf \<Rightarrow> owner_conf" where
  "take_write t b s l c = c\<lparr>oc_lock := l, oc_pending := (if s then Some t else oc_pending c),
     oc_writers := (if b then add_mset t (oc_writers c) else oc_writers c)\<rparr>"

inductive owner_step :: "bool \<Rightarrow> owner_conf \<Rightarrow> owner_conf \<Rightarrow> bool" for dg where
  tryread: "oc_pending c \<noteq> Some t \<Longrightarrow> atomic_owner_rwlock_tryread t (oc_lock c) = Inr (b, l) \<Longrightarrow>
    owner_step dg c (c\<lparr>oc_lock := l, oc_readers := (if b then add_mset t (oc_readers c) else oc_readers c)\<rparr>)"
| trywrite: "oc_pending c \<noteq> Some t \<Longrightarrow> trywrite_loop t (oc_lock c) = Inr (b, s, l) \<Longrightarrow> owner_step dg c (take_write t b s l c)"
| trywrite_r: "oc_pending c \<noteq> Some t \<Longrightarrow> trywrite_r_loop t (oc_lock c) = Inr (b, s, l) \<Longrightarrow> owner_step dg c (take_write t b s l c)"
| tryupgrade: "oc_pending c \<noteq> Some t \<Longrightarrow> t \<in># oc_readers c \<Longrightarrow> tryupgrade_loop t (oc_lock c) = Inr (b, s, l) \<Longrightarrow>
    owner_step dg c (take_write t b s l (if b then c\<lparr>oc_readers := oc_readers c - {#t#}\<rparr> else c))"
| store: "oc_pending c = Some t \<Longrightarrow>
    owner_step dg c (c\<lparr>oc_lock := (oc_lock c)\<lparr>aorw_owner := Some t\<rparr>, oc_pending := None\<rparr>)"
| downgrade: "dg \<Longrightarrow> oc_pending c \<noteq> Some t \<Longrightarrow> t \<in># oc_writers c \<Longrightarrow> atomic_owner_rwlock_downgrade t (oc_lock c) = Inr l \<Longrightarrow>
    owner_step dg c (c\<lparr>oc_lock := l, oc_readers := add_mset t (oc_readers c), oc_writers := oc_writers c - {#t#}\<rparr>)"
| endread: "oc_pending c \<noteq> Some t \<Longrightarrow> t \<in># oc_readers c \<Longrightarrow> atomic_owner_rwlock_endread t (oc_lock c) = Inr l \<Longrightarrow>
    owner_step dg c (c\<lparr>oc_lock := l, oc_readers := oc_readers c - {#t#}\<rparr>)"
| endwrite: "oc_pending c \<noteq> Some t \<Longrightarrow> t \<in># oc_writers c \<Longrightarrow> atomic_owner_rwlock_endwrite t (oc_lock c) = Inr l \<Longrightarrow>
    owner_step dg c (c\<lparr>oc_lock := l, oc_writers := oc_writers c - {#t#}\<rparr>)"
| end_reader: "oc_pending c \<noteq> Some t \<Longrightarrow> t \<in># oc_readers c \<Longrightarrow> atomic_owner_rwlock_end t (oc_lock c) = Inr l \<Longrightarrow>
    owner_step dg c (c\<lparr>oc_lock := l, oc_readers := oc_readers c - {#t#}\<rparr>)"
| end_writer: "oc_pending c \<noteq> Some t \<Longrightarrow> t \<in># oc_writers c \<Longrightarrow> atomic_owner_rwlock_end t (oc_lock c) = Inr l \<Longrightarrow>
    owner_step dg c (c\<lparr>oc_lock := l, oc_writers := oc_writers c - {#t#}\<rparr>)"

inductive_cases owner_step_cases: "owner_step dg c c'"

inductive owner_reachable :: "bool \<Rightarrow> owner_conf \<Rightarrow> bool" for dg where
  start: "owner_reachable dg owner_start"
| step: "owner_reachable dg c \<Longrightarrow> owner_step dg c c' \<Longrightarrow> owner_reachable dg c'"

section \<open>The word and its owner\<close>

lemma owner_masks: "ATOMIC_OWNER_RWLOCK_NMASK = ATOMIC_RWLOCK_RMASK" "ATOMIC_OWNER_RWLOCK_WFLAG = ATOMIC_RWLOCK_WFLAG"
  by (simp_all add: ATOMIC_OWNER_RWLOCK_NMASK_def ATOMIC_RWLOCK_RMASK_def ATOMIC_OWNER_RWLOCK_WFLAG_def ATOMIC_RWLOCK_WFLAG_def)

lemma unat_and_NMASK: "unat (w AND ATOMIC_RWLOCK_RMASK) = unat w mod 2 ^ 31"
proof -
  have "ATOMIC_RWLOCK_RMASK = mask 31" by (simp add: ATOMIC_RWLOCK_RMASK_def mask_eq_exp_minus_1)
  then have "w AND ATOMIC_RWLOCK_RMASK = take_bit 31 w" by (simp add: take_bit_eq_mask)
  then show ?thesis by (metis unsigned_take_bit_eq take_bit_eq_mod)
qed

text \<open>The word with \<open>n\<close> locks in read-mode and in write-mode.\<close>

definition read_word :: "nat \<Rightarrow> 32 word \<Rightarrow> bool" where
  "read_word n w \<longleftrightarrow> n < 2 ^ 31 \<and> unat w = n"

definition write_word :: "nat \<Rightarrow> 32 word \<Rightarrow> bool" where
  "write_word n w \<longleftrightarrow> n < 2 ^ 31 \<and> unat w = 2 ^ 31 + n"

lemma read_word_tests:
  assumes "read_word n w"
  shows "w AND ATOMIC_OWNER_RWLOCK_WFLAG = 0" "w = 0 \<longleftrightarrow> n = 0" "w = 1 \<longleftrightarrow> n = 1"
    "w AND ATOMIC_OWNER_RWLOCK_NMASK \<noteq> ATOMIC_OWNER_RWLOCK_NMASK \<Longrightarrow> read_word (Suc n) (w + 1)"
    "n \<noteq> 0 \<Longrightarrow> read_word (n - 1) (w - 1)"
proof -
  have n: "n < 2 ^ 31" "unat w = n" using assms by (auto simp: read_word_def)
  show "w AND ATOMIC_OWNER_RWLOCK_WFLAG = 0" using n by (simp add: owner_masks and_WFLAG)
  show z: "w = 0 \<longleftrightarrow> n = 0" using n by (auto simp: unat_eq_zero)
  show "w = 1 \<longleftrightarrow> n = 1" using n by (auto simp: word_unat_eq_iff)
  show "n \<noteq> 0 \<Longrightarrow> read_word (n - 1) (w - 1)" using n z by (auto simp: read_word_def unat_dec)
  assume "w AND ATOMIC_OWNER_RWLOCK_NMASK \<noteq> ATOMIC_OWNER_RWLOCK_NMASK"
  then have "w \<noteq> ATOMIC_RWLOCK_RMASK" using n and_RMASK [of w] by (simp add: owner_masks)
  then have "n \<noteq> 2 ^ 31 - 1" using n by (auto simp: word_unat_eq_iff ATOMIC_RWLOCK_RMASK_def)
  then show "read_word (Suc n) (w + 1)" using n unat_inc [of w] by (simp add: read_word_def)
qed

lemma write_word_tests:
  assumes "write_word n w"
  shows "w AND ATOMIC_OWNER_RWLOCK_WFLAG \<noteq> 0" "w \<noteq> 0" "w \<noteq> 1"
    "w AND ATOMIC_OWNER_RWLOCK_NMASK = 0 \<longleftrightarrow> n = 0" "w = ATOMIC_OWNER_RWLOCK_WFLAG \<longleftrightarrow> n = 0"
    "w AND ATOMIC_OWNER_RWLOCK_NMASK \<noteq> ATOMIC_OWNER_RWLOCK_NMASK \<Longrightarrow> write_word (Suc n) (w + 1)"
    "(w + 1) AND ATOMIC_OWNER_RWLOCK_WFLAG \<noteq> 0 \<Longrightarrow> write_word (Suc n) (w + 1)"
    "n \<noteq> 0 \<Longrightarrow> write_word (n - 1) (w - 1)" "w + 1 \<noteq> ATOMIC_OWNER_RWLOCK_WFLAG"
proof -
  have n: "n < 2 ^ 31" "unat w = 2 ^ 31 + n" using assms by (auto simp: write_word_def)
  show "w AND ATOMIC_OWNER_RWLOCK_WFLAG \<noteq> 0" using n by (simp add: owner_masks and_WFLAG)
  show w: "w \<noteq> 0" "w \<noteq> 1" using n by auto
  have m: "unat (w AND ATOMIC_RWLOCK_RMASK) = n" using n by (simp add: unat_and_NMASK)
  then show "w AND ATOMIC_OWNER_RWLOCK_NMASK = 0 \<longleftrightarrow> n = 0" by (auto simp: owner_masks unat_eq_zero)
  show "w = ATOMIC_OWNER_RWLOCK_WFLAG \<longleftrightarrow> n = 0" using n unat_WFLAG(1) by (auto simp: owner_masks word_unat_eq_iff)
  show "n \<noteq> 0 \<Longrightarrow> write_word (n - 1) (w - 1)" using n w by (auto simp: write_word_def unat_dec)
  have inc: "write_word (Suc n) (w + 1)" if "n \<noteq> 2 ^ 31 - 1"
    using that n by (auto simp: write_word_def) (subst unat_add_lem [THEN iffD1]; simp)
  have max: "w + 1 = 0" if "n = 2 ^ 31 - 1"
  proof -
    have "w = - 1" using that n by (intro word_unat_eq_iff [THEN iffD2]) (simp add: unsigned_minus_1_eq_mask mask_eq_exp_minus_1)
    then show ?thesis by simp
  qed
  show "(w + 1) AND ATOMIC_OWNER_RWLOCK_WFLAG \<noteq> 0 \<Longrightarrow> write_word (Suc n) (w + 1)"
    using inc max by (cases "n = 2 ^ 31 - 1") auto
  show "w + 1 \<noteq> ATOMIC_OWNER_RWLOCK_WFLAG"
    using inc max unat_WFLAG(1,2) by (cases "n = 2 ^ 31 - 1") (auto simp: owner_masks write_word_def)
  assume "w AND ATOMIC_OWNER_RWLOCK_NMASK \<noteq> ATOMIC_OWNER_RWLOCK_NMASK"
  then have "n \<noteq> 2 ^ 31 - 1" using m by (auto simp: owner_masks word_unat_eq_iff ATOMIC_RWLOCK_RMASK_def)
  then show "write_word (Suc n) (w + 1)" by (rule inc)
qed

lemma lock_words: "read_word 0 0" "read_word 1 1" "write_word 0 ATOMIC_OWNER_RWLOCK_WFLAG"
  by (simp_all add: read_word_def write_word_def owner_masks unat_WFLAG)

section \<open>The invariant\<close>

text \<open>Nobody writes, and there is no owner; or one thread holds all the locks, and is the owner or about to be.\<close>

definition shared_mode :: "owner_conf \<Rightarrow> bool" where
  "shared_mode c \<longleftrightarrow> oc_writers c = {#} \<and> oc_pending c = None \<and> aorw_owner (oc_lock c) = None \<and>
     read_word (size (oc_readers c)) (aorw_lock (oc_lock c))"

definition owned_by :: "thread \<Rightarrow> owner_conf \<Rightarrow> bool" where
  "owned_by t c \<longleftrightarrow> set_mset (oc_readers c + oc_writers c) = {t} \<and>
     write_word (size (oc_readers c) + size (oc_writers c) - 1) (aorw_lock (oc_lock c)) \<and>
     (aorw_owner (oc_lock c) = Some t \<and> oc_pending c = None \<or> aorw_owner (oc_lock c) = None \<and> oc_pending c = Some t)"

definition owner_inv :: "owner_conf \<Rightarrow> bool" where
  "owner_inv c \<longleftrightarrow> shared_mode c \<or> (\<exists>t. owned_by t c)"

lemma owner_invI: "shared_mode c \<Longrightarrow> owner_inv c" "owned_by t c \<Longrightarrow> owner_inv c"
  by (auto simp: owner_inv_def)

lemmas owner_step_defs = take_write_def atomic_owner_rwlock_tryread_def trywrite_loop_def trywrite_r_loop_def tryupgrade_loop_def
  atomic_owner_rwlock_endread_def atomic_owner_rwlock_endwrite_def atomic_owner_rwlock_end_def

lemma shared_mode_step:
  assumes "owner_step False c c'" "shared_mode c"
  shows "owner_inv c'"
proof -
  have s: "oc_writers c = {#}" "oc_pending c = None" "aorw_owner (oc_lock c) = None" "read_word (size (oc_readers c)) (aorw_lock (oc_lock c))"
    using assms(2) by (auto simp: shared_mode_def)
  note tests = read_word_tests [OF s(4)]
  have drop: "size (oc_readers c - {#t#}) = size (oc_readers c) - 1" "size (oc_readers c) \<noteq> 0" if "t \<in># oc_readers c" for t
    using that by (auto simp: size_Diff_singleton)
  have one: "oc_readers c = {#t#}" if "t \<in># oc_readers c" "size (oc_readers c) = 1" for t
    using that by (metis size_1_singleton_mset set_mset_single singletonD set_mset_add_mset_insert multi_member_split)
  from assms(1) show ?thesis
  proof cases
    case (tryread t b l)
    then show ?thesis using s tests by (auto simp: owner_step_defs Let_def rassert_eq_Inr_iff shared_mode_def intro!: owner_invI(1))
  next
    case (trywrite t b s l)
    then show ?thesis using s tests by (auto simp: owner_step_defs Let_def rassert_eq_Inr_iff shared_mode_def owned_by_def lock_words split: if_splits intro: owner_invI)
  next
    case (trywrite_r t b s l)
    then show ?thesis using s tests by (auto simp: owner_step_defs Let_def rassert_eq_Inr_iff shared_mode_def owned_by_def lock_words split: if_splits intro: owner_invI)
  next
    case (tryupgrade t b s l)
    then show ?thesis using s tests one [of t] by (auto simp: owner_step_defs Let_def rassert_eq_Inr_iff shared_mode_def owned_by_def lock_words split: if_splits intro: owner_invI)
  next
    case (endread t l)
    then show ?thesis using s tests drop [of t] by (auto simp: owner_step_defs Let_def rassert_eq_Inr_iff shared_mode_def intro!: owner_invI(1))
  next
    case (end_reader t l)
    then show ?thesis using s tests drop [of t] by (auto simp: owner_step_defs Let_def rassert_eq_Inr_iff shared_mode_def intro!: owner_invI(1))
  qed (use s in auto)
qed

text \<open>The owner gave up one of its locks: it has others, or the lock is free.\<close>

lemma owner_release:
  assumes o: "owned_by t c" "aorw_owner (oc_lock c) = Some t" and r: "t \<in># r" "r + w = oc_readers c + oc_writers c"
    and l: "write_word (size (r + w) - 1) (aorw_lock (oc_lock c))"
    and last: "size (r + w) = 1 \<Longrightarrow> l = \<lparr>aorw_lock = 0, aorw_owner = None\<rparr>"
    and more: "size (r + w) \<noteq> 1 \<Longrightarrow> l = (oc_lock c)\<lparr>aorw_lock := aorw_lock (oc_lock c) - 1\<rparr>"
    and c': "oc_lock c' = l" "oc_pending c' = oc_pending c"
      "oc_readers c' + oc_writers c' = r - {#t#} + w"
  shows "owner_inv c'"
proof (cases "size (r + w) = 1")
  case True
  then have "oc_readers c' + oc_writers c' = {#}" using c'(3) r(1) by (auto dest: multi_member_split)
  then show ?thesis using True last c' o by (auto simp: shared_mode_def owned_by_def lock_words intro!: owner_invI(1))
next
  case False
  obtain r' where r': "r = add_mset t r'" using r(1) by (meson multi_member_split)
  have "set_mset (r + w) = {t}" using o(1) r(2) by (simp add: owned_by_def)
  then have "set_mset (r' + w) \<subseteq> {t}" using r' by auto
  moreover have "r' + w \<noteq> {#}" using False r' by auto
  ultimately have "set_mset (r' + w) = {t}" by (metis set_mset_eq_empty_iff subset_singletonD)
  moreover have "write_word (size (r' + w) - 1) (aorw_lock (oc_lock c) - 1)"
    using write_word_tests(8) [OF l] False r' by auto
  moreover have "size (oc_readers c') + size (oc_writers c') = size (r' + w)" using c'(3) r' by (metis add_mset_remove_trivial size_union)
  ultimately show ?thesis using more False c' o r' by (intro owner_invI(2) [of t]) (simp add: owned_by_def)
qed

lemma owned_by_step:
  assumes "owner_step False c c'" "owned_by t c"
  shows "owner_inv c'"
proof -
  let ?n = "size (oc_readers c) + size (oc_writers c) - 1"
  have s: "set_mset (oc_readers c + oc_writers c) = {t}" "write_word ?n (aorw_lock (oc_lock c))"
    "aorw_owner (oc_lock c) = Some t \<and> oc_pending c = None \<or> aorw_owner (oc_lock c) = None \<and> oc_pending c = Some t"
    using assms(2) by (auto simp: owned_by_def)
  note tests = write_word_tests [OF s(2)]
  have N: "size (oc_readers c) + size (oc_writers c) = Suc ?n" using s(1) by (cases "oc_readers c"; cases "oc_writers c") auto
  have own: "u = t" "aorw_owner (oc_lock c) = Some t" if "u \<in># oc_readers c \<or> u \<in># oc_writers c" "oc_pending c \<noteq> Some u" for u
    using that s by auto
  from assms(1) show ?thesis
  proof cases
    case (tryread u b l)
    then show ?thesis using s tests N by (auto simp: owner_step_defs Let_def rassert_eq_Inr_iff owned_by_def split: if_splits intro!: owner_invI(2) [of t])
  next
    case (trywrite u b s l)
    then show ?thesis using s tests N by (auto simp: owner_step_defs Let_def rassert_eq_Inr_iff owned_by_def split: if_splits intro!: owner_invI(2) [of t])
  next
    case (trywrite_r u b s l)
    then show ?thesis using s tests N by (auto simp: owner_step_defs Let_def rassert_eq_Inr_iff owned_by_def split: if_splits intro!: owner_invI(2) [of t])
  next
    case (tryupgrade u b s l)
    then show ?thesis using s tests N own [of u] by (auto simp: owner_step_defs Let_def rassert_eq_Inr_iff owned_by_def dest!: multi_member_split split: if_splits intro!: owner_invI(2) [of t])
  next
    case (store u)
    then show ?thesis using s by (auto simp: owned_by_def intro!: owner_invI(2) [of t])
  next
    case (endread u l)
    show ?thesis
    proof (rule owner_release [OF assms(2), of "oc_readers c" "oc_writers c" l])
    qed (use endread s tests N own [of u] in \<open>auto simp: owner_step_defs Let_def rassert_eq_Inr_iff\<close>)
  next
    case (endwrite u l)
    show ?thesis
    proof (rule owner_release [OF assms(2), of "oc_writers c" "oc_readers c" l])
    qed (use endwrite s tests N own [of u] in \<open>auto simp: owner_step_defs Let_def rassert_eq_Inr_iff ac_simps\<close>)
  next
    case (end_reader u l)
    show ?thesis
    proof (rule owner_release [OF assms(2), of "oc_readers c" "oc_writers c" l])
    qed (use end_reader s tests N own [of u] in \<open>auto simp: owner_step_defs Let_def rassert_eq_Inr_iff split: if_splits\<close>)
  next
    case (end_writer u l)
    show ?thesis
    proof (rule owner_release [OF assms(2), of "oc_writers c" "oc_readers c" l])
    qed (use end_writer s tests N own [of u] in \<open>auto simp: owner_step_defs Let_def rassert_eq_Inr_iff ac_simps split: if_splits\<close>)
  qed (use s in auto)
qed

lemma owner_inv_reachable: "owner_reachable False c \<Longrightarrow> owner_inv c"
proof (induction rule: owner_reachable.induct)
  case start
  then show ?case
    by (auto simp: owner_start_def atomic_owner_rwlock_init_def shared_mode_def lock_words intro!: owner_invI(1))
next
  case (step c c')
  then show ?case using shared_mode_step owned_by_step unfolding owner_inv_def [of c] by blast
qed

section \<open>Taking the write-lock again\<close>

fun rtimes :: "nat \<Rightarrow> ('a \<Rightarrow> 'a result) \<Rightarrow> 'a \<Rightarrow> 'a result" where
  "rtimes 0 f x = Inr x"
| "rtimes (Suc n) f x = rbind (rtimes n f x) f"

definition must_write :: "thread \<Rightarrow> owner_rwlock \<Rightarrow> owner_rwlock result" where
  "must_write t l = rbind (atomic_owner_rwlock_trywrite t l) (\<lambda>(b, l). rassert b (Inr l))"

lemma must_write_free:
  "must_write t atomic_owner_rwlock_init = Inr \<lparr>aorw_lock = ATOMIC_OWNER_RWLOCK_WFLAG, aorw_owner = Some t\<rparr>"
  using read_word_tests [OF lock_words(1)] write_word_tests(1) [OF lock_words(3)]
  by (simp add: must_write_def atomic_owner_rwlock_trywrite_def trywrite_loop_def atomic_owner_rwlock_init_def Let_def store_owner_def)

text \<open>The lock that \<open>t\<close> has taken \<open>Suc n\<close> times.\<close>

definition owned_word :: "thread \<Rightarrow> nat \<Rightarrow> owner_rwlock" where
  "owned_word t n = \<lparr>aorw_lock = ATOMIC_OWNER_RWLOCK_WFLAG + of_nat n, aorw_owner = Some t\<rparr>"

lemma owned_word: "n < 2 ^ 31 \<Longrightarrow> write_word n (ATOMIC_OWNER_RWLOCK_WFLAG + of_nat n)"
  by (simp add: write_word_def owner_masks) (subst unat_add_lem [THEN iffD1]; simp add: unat_WFLAG unat_of_nat_32)

lemma must_write_again:
  "Suc n < 2 ^ 31 \<Longrightarrow> must_write t (owned_word t n) = Inr (owned_word t (Suc n))"
  "must_write t (owned_word t (2 ^ 31 - 1)) = Inl E_ASSERT"
proof -
  show "must_write t (owned_word t n) = Inr (owned_word t (Suc n))" if "Suc n < 2 ^ 31"
    using write_word_tests [OF owned_word, of n] write_word_tests(1) [OF owned_word, of "Suc n"] that
    by (simp add: must_write_def atomic_owner_rwlock_trywrite_def trywrite_loop_def owned_word_def Let_def store_owner_def ac_simps)
  have "ATOMIC_OWNER_RWLOCK_WFLAG + of_nat (2 ^ 31 - 1) + 1 = 0" by (simp add: ATOMIC_OWNER_RWLOCK_WFLAG_def)
  then show "must_write t (owned_word t (2 ^ 31 - 1)) = Inl E_ASSERT"
    using write_word_tests(1) [OF owned_word, of "2 ^ 31 - 1"]
    by (simp add: must_write_def atomic_owner_rwlock_trywrite_def trywrite_loop_def owned_word_def Let_def rassert_def)
qed

lemma endwrite_again:
  "Suc n < 2 ^ 31 \<Longrightarrow> atomic_owner_rwlock_endwrite t (owned_word t (Suc n)) = Inr (owned_word t n)"
  "atomic_owner_rwlock_endwrite t (owned_word t 0) = Inr atomic_owner_rwlock_init"
  using write_word_tests [OF owned_word, of "Suc n"] write_word_tests [OF owned_word, of 0]
  by (simp_all add: atomic_owner_rwlock_endwrite_def owned_word_def Let_def atomic_owner_rwlock_init_def)

lemma must_write_times: "n < 2 ^ 31 \<Longrightarrow> rtimes (Suc n) (must_write t) atomic_owner_rwlock_init = Inr (owned_word t n)"
proof (induction n)
  case 0
  then show ?case by (simp add: must_write_free owned_word_def)
next
  case (Suc n)
  then show ?case by (simp only: rtimes.simps(2) [of "Suc n"] Suc_lessD rbind_Inr must_write_again)
qed

lemma rtimes_Suc: "rtimes (Suc n) f x = rbind (f x) (rtimes n f)"
  by (induction n arbitrary: x) (auto simp: rbind_def split: sum.splits)

lemma endwrite_times: "n < 2 ^ 31 \<Longrightarrow> rtimes (Suc n) (atomic_owner_rwlock_endwrite t) (owned_word t n) = Inr atomic_owner_rwlock_init"
  by (induction n) (simp_all only: rtimes_Suc endwrite_again Suc_lessD rbind_Inr rtimes.simps(1))

lemma owned_excludes:
  assumes "n < 2 ^ 31" "u \<noteq> t"
  shows "atomic_owner_rwlock_tryread u (owned_word t n) = Inr (False, owned_word t n)"
    "atomic_owner_rwlock_trywrite u (owned_word t n) = Inr (False, owned_word t n)"
  using write_word_tests(1) [OF owned_word [OF assms(1)]] assms(2)
  by (simp_all add: atomic_owner_rwlock_tryread_def atomic_owner_rwlock_trywrite_def trywrite_loop_def store_owner_def owned_word_def Let_def)

end
