(* ===== verification/Rwlock_Props.thy ===== *)
theory Rwlock_Props
  imports Atomic_Rwlock Atomic_Rwptr Owner_Rwlock
begin

text \<open>
  What threads that share one of the locks can rely on, whatever the order of their steps; and the interleaving in
  which the owner that a downgrade leaves behind breaks this.
\<close>

section \<open>Locks in one word\<close>

lemma rwlock_free: "rwlock_state atomic_rwlock_init = Reading 0"
  by (simp add: atomic_rwlock_init_def rwlock_state_simps)

text \<open>C5: Whatever a number of threads do with an \<^verbatim>\<open>atomic_rwlock\<close>, as long as each one only gives up, upgrades or downgrades
  locks that it holds: while one has the write-lock nobody has a read-lock and the word is in write-mode, and no
  assertion of a release, upgrade or downgrade fails.\<close>

theorem rwlock_mutual_exclusion:
  assumes "lock_reachable atomic_rwlock_ops atomic_rwlock_init c"
  shows "(\<forall>t. lc_writer c = Some t \<longrightarrow> lc_readers c = {#} \<and> atomic_rwlock_writing (lc_word c) \<and>
      (\<exists>w. atomic_rwlock_endwrite (lc_word c) = Inr w) \<and> (\<exists>b w. atomic_rwlock_end (lc_word c) = Inr (b, w)) \<and>
      (\<exists>w. atomic_rwlock_downgrade (lc_word c) = Inr w)) \<and>
    (\<forall>t. t \<in># lc_readers c \<longrightarrow> lc_writer c = None \<and> (\<exists>b w. atomic_rwlock_endread (lc_word c) = Inr (b, w)) \<and>
      (\<exists>b w. atomic_rwlock_end (lc_word c) = Inr (b, w)) \<and> (\<exists>b w. atomic_rwlock_tryupgrade (lc_word c) = Inr (b, w)))"
proof -
  note a = rwlock.agrees_reachable [OF assms rwlock_free]
  have "lc_readers c = {#} \<and> atomic_rwlock_writing (lc_word c) \<and>
      (\<exists>w. atomic_rwlock_endwrite (lc_word c) = Inr w) \<and> (\<exists>b w. atomic_rwlock_end (lc_word c) = Inr (b, w)) \<and>
      (\<exists>w. atomic_rwlock_downgrade (lc_word c) = Inr w)" if "lc_writer c = Some t" for t
    using rwlock.mutual_exclusion(1) [OF assms rwlock_free that] rwlock.release_ok(2) [OF assms rwlock_free that] a [unfolded rwlock.agrees_def] that
    by (auto simp: atomic_rwlock_ops_def rbind_eq_Inr_iff rwlock_state_simps atomic_rwlock_writing_def unat_WFLAG)
  moreover have "lc_writer c = None \<and> (\<exists>b w. atomic_rwlock_endread (lc_word c) = Inr (b, w)) \<and>
      (\<exists>b w. atomic_rwlock_end (lc_word c) = Inr (b, w)) \<and> (\<exists>b w. atomic_rwlock_tryupgrade (lc_word c) = Inr (b, w))"
    if "t \<in># lc_readers c" for t
    using rwlock.reader_size(1) [OF a that] rwlock.release_ok(1) [OF assms rwlock_free that]
    by (auto simp: atomic_rwlock_ops_def rbind_eq_Inr_iff)
  ultimately show ?thesis by (intro conjI allI impI) simp_all
qed

theorem rwlock_mutual_exclusion_witness:
  "let c = \<lparr>lc_word = ATOMIC_RWLOCK_WFLAG, lc_readers = {#}, lc_writer = Some 4\<rparr> in
   lc_readers c = {#} \<and> atomic_rwlock_writing (lc_word c) \<and> (\<exists>w. atomic_rwlock_downgrade (lc_word c) = Inr w)"
proof -
  let ?c = "\<lparr>lc_word = ATOMIC_RWLOCK_WFLAG, lc_readers = {#}, lc_writer = Some 4\<rparr> :: 32 word lock_conf"
  have "lock_step atomic_rwlock_ops (lock_init atomic_rwlock_init) ?c"
    using lock_step.trywrite [of atomic_rwlock_ops "lock_init atomic_rwlock_init" True ATOMIC_RWLOCK_WFLAG 4]
    by (simp add: lock_init_def atomic_rwlock_ops_def atomic_rwlock_trywrite_def atomic_rwlock_init_def)
  then have "lock_reachable atomic_rwlock_ops atomic_rwlock_init ?c" by (rule lock_reachable.step [OF lock_reachable.start])
  from rwlock_mutual_exclusion [OF this] show ?thesis by (simp add: Let_def)
qed

text \<open>\<^verbatim>\<open>atomic_rwlock_write\<close> returns, with the lock in write-mode, if and only if the lock is free at one of the
  times at which the thread looks: at first, or after one of the steps that other threads do while it yields.\<close>

theorem rwlock_write_returns:
  "(\<exists>sched'. atomic_rwlock_write sched w = Inr (Some (ATOMIC_RWLOCK_WFLAG, sched'))) \<longleftrightarrow>
     (\<exists>i\<le>length sched. fold (\<lambda>f w. f w) (take i sched) w = 0)"
  using rwlock.spin_write [of sched w]
  by (auto simp: atomic_rwlock_write_def atomic_rwlock_ops_def rwlock_state_simps unat_eq_zero)

lemma ATOMIC_RWPTR_GET_addr: "unat (ATOMIC_RWPTR_GET d) = 16 * rwptr_addr d"
proof -
  have "unat (d AND 15) = unat d mod 16" by (rule unat_and_15)
  then have "unat (d - (d AND 15)) = unat d - unat d mod 16" by (subst unat_sub) (simp_all add: word_le_nat_alt)
  moreover have "ATOMIC_RWPTR_GET d = d - (d AND (16 - 1))" by (simp only: ATOMIC_RWPTR_GET_def ATOMIC_RWPTR_LOCK_MASK_def and_not_minus)
  ultimately show ?thesis by (simp add: rwptr_addr_def minus_mod_eq_mult_div)
qed

text \<open>C14: A pointer with a lock in its low bits: whatever the threads do with the lock, the address stays the one that it
  was initialised with, which has to be a multiple of 16; while one thread has the write-lock nobody has a read-lock,
  at most 7 read-locks are held, and no assertion of a release, upgrade or downgrade fails.\<close>

theorem rwptr_keeps_address:
  assumes "p AND ATOMIC_RWPTR_LOCK_MASK = 0" "lock_reachable atomic_rwptr_ops p c"
  shows "ATOMIC_RWPTR_GET (lc_word c) = p \<and> size (lc_readers c) \<le> 7 \<and>
    (\<forall>t. lc_writer c = Some t \<longrightarrow> lc_readers c = {#} \<and> (\<exists>w. atomic_rwptr_endwrite (lc_word c) = Inr w) \<and>
      (\<exists>w. atomic_rwptr_end (lc_word c) = Inr w) \<and> (\<exists>w. atomic_rwptr_downgrade (lc_word c) = Inr w)) \<and>
    (\<forall>t. t \<in># lc_readers c \<longrightarrow> lc_writer c = None \<and> (\<exists>w. atomic_rwptr_endread (lc_word c) = Inr w) \<and>
      (\<exists>w. atomic_rwptr_end (lc_word c) = Inr w) \<and> (\<exists>b w. atomic_rwptr_tryupgrade (lc_word c) = Inr (b, w)))"
proof -
  have "unat (p AND 15) = 0" using assms(1) by (simp add: rwptr_masks)
  then have low: "unat p mod 16 = 0" by (simp only: unat_and_15)
  then have free: "rwptr_state p = Reading 0" by (simp add: rwptr_state_simps)
  note a = rwptr.agrees_reachable [OF assms(2) free]
  have "unat (ATOMIC_RWPTR_GET (lc_word c)) = unat p"
    using rwptr.mutual_exclusion(2) [OF assms(2) free] low 
    by (simp add: ATOMIC_RWPTR_GET_addr rwptr_addr_def minus_mod_eq_mult_div [symmetric])
  then have "ATOMIC_RWPTR_GET (lc_word c) = p" by (rule word_unat_eq_iff [THEN iffD2])
  moreover have "size (lc_readers c) \<le> 7" using a by (auto simp: rwptr.agrees_def split: option.splits)
  moreover have "lc_readers c = {#} \<and> (\<exists>w. atomic_rwptr_endwrite (lc_word c) = Inr w) \<and>
      (\<exists>w. atomic_rwptr_end (lc_word c) = Inr w) \<and> (\<exists>w. atomic_rwptr_downgrade (lc_word c) = Inr w)" if "lc_writer c = Some t" for t
    using rwptr.mutual_exclusion(1) [OF assms(2) free that] rwptr.release_ok(2) [OF assms(2) free that] by (simp add: atomic_rwptr_ops_def)
  moreover have "lc_writer c = None \<and> (\<exists>w. atomic_rwptr_endread (lc_word c) = Inr w) \<and>
      (\<exists>w. atomic_rwptr_end (lc_word c) = Inr w) \<and> (\<exists>b w. atomic_rwptr_tryupgrade (lc_word c) = Inr (b, w))" if "t \<in># lc_readers c" for t
    using rwptr.reader_size(1) [OF a that] rwptr.release_ok(1) [OF assms(2) free that] by (simp add: atomic_rwptr_ops_def)
  ultimately show ?thesis by (intro conjI allI impI) simp_all
qed

theorem rwptr_keeps_address_witness:
  "ATOMIC_RWPTR_GET (0x12345670 OR 1) = 0x12345670 \<and> (\<exists>b w. atomic_rwptr_tryupgrade 0x12345671 = Inr (b, w))"
proof -
  let ?c = "\<lparr>lc_word = 0x12345671, lc_readers = {#2#}, lc_writer = None\<rparr> :: 32 word lock_conf"
  have "atomic_rwptr_tryread 0x12345670 = Inr (True, 0x12345671)"
    by (simp add: atomic_rwptr_tryread_def rwptr_masks ap_lbyt_def set_lbyt_def)
  then have "lock_step atomic_rwptr_ops (lock_init 0x12345670) ?c"
    using lock_step.tryread [of atomic_rwptr_ops "lock_init 0x12345670" True "0x12345671" 2]
    by (simp add: lock_init_def atomic_rwptr_ops_def)
  then have r: "lock_reachable atomic_rwptr_ops 0x12345670 ?c" by (rule lock_reachable.step [OF lock_reachable.start])
  have "(0x12345670 :: 32 word) AND ATOMIC_RWPTR_LOCK_MASK = 0" by (simp add: rwptr_masks)
  from rwptr_keeps_address [OF this r] show ?thesis by simp
qed

section \<open>The lock with an owner\<close>

text \<open>C15: Threads that share an \<^verbatim>\<open>atomic_owner_rwlock\<close> and never downgrade: the thread with a write-lock is the only one that
  holds a lock of any kind, also between the compare-exchange that takes the lock and the store of the owner; and
  \<^verbatim>\<open>atomic_owner_rwlock_end\<close> works for every lock that a thread holds and is not in the middle of taking.\<close>

theorem owner_rwlock_mutual_exclusion:
  assumes "owner_reachable False c"
    and "u \<in># oc_readers c + oc_writers c"
  shows "(\<forall>t. t \<in># oc_writers c \<longrightarrow> u = t) \<and>
    (oc_pending c \<noteq> Some u \<longrightarrow> (\<exists>l. atomic_owner_rwlock_end u (oc_lock c) = Inr l))"
proof (intro conjI impI)
  have "shared_mode c \<or> (\<exists>t. owned_by t c)" using owner_inv_reachable [OF assms(1)] by (simp add: owner_inv_def)
  moreover have "v = x" if "owned_by x c" "v \<in># oc_readers c + oc_writers c" for v x
    using that unfolding owned_by_def by blast
  ultimately show "\<forall>t. t \<in># oc_writers c \<longrightarrow> u = t" using assms(2)
    by (metis empty_iff set_mset_empty shared_mode_def union_iff)
  assume "oc_pending c \<noteq> Some u"
  note u = assms(2) this
  from \<open>shared_mode c \<or> (\<exists>t. owned_by t c)\<close> show "\<exists>l. atomic_owner_rwlock_end u (oc_lock c) = Inr l"
  proof (elim disjE exE)
    assume s: "shared_mode c"
    then have "size (oc_readers c) \<noteq> 0" using u by (auto simp: shared_mode_def)
    with s read_word_tests(1,2) [of "size (oc_readers c)"] show ?thesis by (auto simp: shared_mode_def atomic_owner_rwlock_end_def Let_def)
  next
    fix t assume t: "owned_by t c"
    then have "u = t" "aorw_owner (oc_lock c) = Some t" using u by (auto simp: owned_by_def)
    moreover have "aorw_lock (oc_lock c) \<noteq> 0" using t write_word_tests(2) by (auto simp: owned_by_def)
    ultimately show ?thesis by (simp add: atomic_owner_rwlock_end_def Let_def)
  qed
qed

lemma owner_take_reachable:
  assumes "owner_reachable dg c" "oc_pending c = None" "aorw_lock (oc_lock c) = 0"
  shows "owner_reachable dg (c\<lparr>oc_lock := (oc_lock c)\<lparr>aorw_lock := ATOMIC_OWNER_RWLOCK_WFLAG\<rparr>, oc_pending := Some t,
     oc_writers := add_mset t (oc_writers c)\<rparr>)"
proof -
  have "trywrite_loop t (oc_lock c) = Inr (True, True, (oc_lock c)\<lparr>aorw_lock := ATOMIC_OWNER_RWLOCK_WFLAG\<rparr>)"
    using assms(3) write_word_tests(1) [OF lock_words(3)] by (simp add: trywrite_loop_def Let_def)
  from owner_step.trywrite [OF _ this, of dg] assms(1,2) show ?thesis
    by (simp add: take_write_def) (metis owner_reachable.step)
qed

lemma owner_store_reachable:
  assumes "owner_reachable dg c" "oc_pending c = Some t"
  shows "owner_reachable dg (c\<lparr>oc_lock := (oc_lock c)\<lparr>aorw_owner := Some t\<rparr>, oc_pending := None\<rparr>)"
  using assms owner_step.store owner_reachable.step by blast

theorem owner_rwlock_mutual_exclusion_witness:
  "\<exists>c. owner_reachable False c \<and> 7 \<in># oc_writers c \<and> (\<forall>u. u \<in># oc_readers c + oc_writers c \<longrightarrow> u = 7) \<and>
     (\<exists>l. atomic_owner_rwlock_end 7 (oc_lock c) = Inr l)"
proof -
  have "owner_reachable False \<lparr>oc_lock = \<lparr>aorw_lock = ATOMIC_OWNER_RWLOCK_WFLAG, aorw_owner = None\<rparr>, oc_pending = Some 7,
     oc_readers = {#}, oc_writers = {#7#}\<rparr>"
    using owner_take_reachable [OF owner_reachable.start, of False 7] by (simp add: owner_start_def atomic_owner_rwlock_init_def)
  from owner_store_reachable [OF this, of 7]
  have "owner_reachable False \<lparr>oc_lock = \<lparr>aorw_lock = ATOMIC_OWNER_RWLOCK_WFLAG, aorw_owner = Some 7\<rparr>, oc_pending = None,
     oc_readers = {#}, oc_writers = {#7#}\<rparr>" by simp
  then obtain c where r: "owner_reachable False c" and c: "7 \<in># oc_writers c" "oc_pending c = None" by fastforce
  have "u \<in># oc_readers c + oc_writers c \<Longrightarrow> u = 7" for u using owner_rwlock_mutual_exclusion [OF r, of u] c(1) by blast
  moreover have "\<exists>l. atomic_owner_rwlock_end 7 (oc_lock c) = Inr l" 
    by (rule owner_rwlock_mutual_exclusion [OF r, THEN conjunct2, rule_format]) (simp_all add: c)
  ultimately show ?thesis using r c by blast
qed

text \<open>C28: With downgrades this fails: a downgrade leaves the owner in place, so that a thread \<open>t\<close> that downgraded and gave up its
  lock still gets a read-lock on the lock that another thread \<open>u\<close> has just taken for writing, before \<open>u\<close> has stored
  itself as the owner. Both then hold the lock.\<close>

theorem owner_rwlock_downgrade_race:
  assumes "u \<noteq> t"
  shows "\<exists>c. owner_reachable True c \<and> u \<in># oc_writers c \<and> t \<in># oc_readers c"
proof -
  define w where "w = ATOMIC_OWNER_RWLOCK_WFLAG"
  note tests = write_word_tests [OF lock_words(3)]
  have 1: "owner_reachable True \<lparr>oc_lock = \<lparr>aorw_lock = w, aorw_owner = None\<rparr>, oc_pending = Some t, oc_readers = {#}, oc_writers = {#t#}\<rparr>"
    using owner_take_reachable [OF owner_reachable.start, of True t] by (simp add: owner_start_def atomic_owner_rwlock_init_def w_def)
  let ?c = "\<lparr>oc_lock = \<lparr>aorw_lock = w, aorw_owner = Some t\<rparr>, oc_pending = None, oc_readers = {#}, oc_writers = {#t#}\<rparr>"
  have 2: "owner_reachable True ?c" using owner_store_reachable [OF 1, of t] by simp
  have "owner_step True ?c \<lparr>oc_lock = \<lparr>aorw_lock = 1, aorw_owner = Some t\<rparr>, oc_pending = None, oc_readers = {#t#}, oc_writers = {#}\<rparr>"
    using owner_step.downgrade [of True ?c t "\<lparr>aorw_lock = 1, aorw_owner = Some t\<rparr>"] tests(1,4)
    by (simp add: atomic_owner_rwlock_downgrade_def Let_def w_def)
  note 3 = owner_reachable.step [OF 2 this]
  let ?d = "\<lparr>oc_lock = \<lparr>aorw_lock = 1, aorw_owner = Some t\<rparr>, oc_pending = None, oc_readers = {#t#}, oc_writers = {#}\<rparr>"
  have "owner_step True ?d \<lparr>oc_lock = \<lparr>aorw_lock = 0, aorw_owner = Some t\<rparr>, oc_pending = None, oc_readers = {#}, oc_writers = {#}\<rparr>"
    using owner_step.endread [of ?d t "\<lparr>aorw_lock = 0, aorw_owner = Some t\<rparr>" True] read_word_tests(1) [OF lock_words(2)]
    by (simp add: atomic_owner_rwlock_endread_def Let_def)
  note 4 = owner_reachable.step [OF 3 this]
  let ?e = "\<lparr>oc_lock = \<lparr>aorw_lock = w, aorw_owner = Some t\<rparr>, oc_pending = Some u, oc_readers = {#}, oc_writers = {#u#}\<rparr>"
  have 5: "owner_reachable True ?e" using owner_take_reachable [OF 4, of u] by (simp add: w_def)
  have "ATOMIC_OWNER_RWLOCK_WFLAG AND ATOMIC_OWNER_RWLOCK_NMASK \<noteq> ATOMIC_OWNER_RWLOCK_NMASK"
    by (simp add: ATOMIC_OWNER_RWLOCK_WFLAG_def ATOMIC_OWNER_RWLOCK_NMASK_def)
  with owner_step.tryread [of ?e t True "\<lparr>aorw_lock = w + 1, aorw_owner = Some t\<rparr>" True] assms
  have "owner_step True ?e (?e\<lparr>oc_lock := \<lparr>aorw_lock = w + 1, aorw_owner = Some t\<rparr>, oc_readers := {#t#}\<rparr>)"
    by (simp add: atomic_owner_rwlock_tryread_def Let_def w_def)
  from owner_reachable.step [OF 5 this] show ?thesis by (intro exI conjI) auto
qed

theorem owner_rwlock_downgrade_race_witness: "\<exists>c. owner_reachable True c \<and> 2 \<in># oc_writers c \<and> 1 \<in># oc_readers c"
  using owner_rwlock_downgrade_race [of 2 1] by simp

text \<open>A thread takes a free \<^verbatim>\<open>atomic_owner_rwlock\<close> for writing up to \<open>2 ^ 31\<close> times; nobody else gets it meanwhile; and after the
  same number of \<^verbatim>\<open>atomic_owner_rwlock_endwrite\<close> the lock is as it was. One more time trips the assertion.\<close>

theorem owner_rwlock_recursion:
  assumes "n < 2 ^ 31"
  shows "(\<exists>l. rtimes (Suc n) (must_write t) atomic_owner_rwlock_init = Inr l \<and>
      (\<forall>u. u \<noteq> t \<longrightarrow> atomic_owner_rwlock_tryread u l = Inr (False, l) \<and> atomic_owner_rwlock_trywrite u l = Inr (False, l)) \<and>
      rtimes (Suc n) (atomic_owner_rwlock_endwrite t) l = Inr atomic_owner_rwlock_init) \<and>
    rtimes (Suc (2 ^ 31)) (must_write t) atomic_owner_rwlock_init = Inl E_ASSERT"
proof (rule conjI)
  show "\<exists>l. rtimes (Suc n) (must_write t) atomic_owner_rwlock_init = Inr l \<and>
      (\<forall>u. u \<noteq> t \<longrightarrow> atomic_owner_rwlock_tryread u l = Inr (False, l) \<and> atomic_owner_rwlock_trywrite u l = Inr (False, l)) \<and>
      rtimes (Suc n) (atomic_owner_rwlock_endwrite t) l = Inr atomic_owner_rwlock_init"
    using must_write_times [OF assms, of t] owned_excludes [OF assms] endwrite_times [OF assms, of t] by blast
  have "rtimes (Suc (2 ^ 31 - 1)) (must_write t) atomic_owner_rwlock_init = Inr (owned_word t (2 ^ 31 - 1))"
    by (rule must_write_times) simp
  then have "rtimes (2 ^ 31) (must_write t) atomic_owner_rwlock_init = Inr (owned_word t (2 ^ 31 - 1))" by (simp del: rtimes.simps)
  then show "rtimes (Suc (2 ^ 31)) (must_write t) atomic_owner_rwlock_init = Inl E_ASSERT"
    by (simp only: rtimes.simps(2) rbind_Inr must_write_again)
qed

theorem owner_rwlock_recursion_witness:
  "\<exists>l. rtimes (Suc 1) (must_write 5) atomic_owner_rwlock_init = Inr l \<and>
      rtimes (Suc 1) (atomic_owner_rwlock_endwrite 5) l = Inr atomic_owner_rwlock_init"
  using owner_rwlock_recursion [of 1 5] by auto

end
