(* ===== verification/Meminfo.thy ===== *)
theory Meminfo
  imports Page_Memory
begin

text \<open>
  The map of physical memory, \<^verbatim>\<open>src/kernel/src/kernel/meminfo.c\<close>: a table of entries sorted by address, each of
  which gives the type of the memory up to the next entry. The table is a buffer of slots, of which the
  first \<open>mem_info_c\<close>, at least one, are in use. Pointers into the table are indices.
\<close>

section \<open>The table\<close>

definition MEMTYPE_NDEF :: nat where "MEMTYPE_NDEF = 0"
definition MEMTYPE_RAM :: nat where "MEMTYPE_RAM = 1"
definition MEMTYPE_PRESERVE :: nat where "MEMTYPE_PRESERVE = 2"
definition MEMTYPE_ALLOCATED :: nat where "MEMTYPE_ALLOCATED = 3"

lemmas MEMTYPE_defs = MEMTYPE_NDEF_def MEMTYPE_RAM_def MEMTYPE_PRESERVE_def MEMTYPE_ALLOCATED_def

record meminfo =
  mi_type :: nat
  mi_addr :: nat

record meminfo_table =
  mem_info_v :: "meminfo list"
  mem_info_c :: nat

definition MEMINFO_MAXCOUNT :: nat where
  "MEMINFO_MAXCOUNT = 4096 * 8 div 16"

definition MEMINFO_HASPREV :: "nat \<Rightarrow> bool" where
  "MEMINFO_HASPREV x \<longleftrightarrow> x \<noteq> 0"

definition MEMINFO_HASNEXT :: "nat \<Rightarrow> meminfo_table \<Rightarrow> bool" where
  "MEMINFO_HASNEXT x t \<longleftrightarrow> x \<noteq> mem_info_c t - 1"

text \<open>
  \<^verbatim>\<open>memmove\<close> of the slots behind the one that is deleted. For a slot that is not in use the number of bytes wraps
  around to almost all of the address space.
\<close>

definition MEMINFO_DELETE :: "nat \<Rightarrow> meminfo_table \<Rightarrow> meminfo_table result" where
  "MEMINFO_DELETE info t =
     (let c = mem_info_c t - 1; v = mem_info_v t in
      if c < info then Inl E_SEGFAULT
      else Inr \<lparr>mem_info_v = take info v @ take (c - info) (drop (Suc info) v) @ drop c v, mem_info_c = c\<rparr>)"

definition MEMINFO_DUP :: "nat \<Rightarrow> meminfo_table \<Rightarrow> meminfo_table" where
  "MEMINFO_DUP info t =
     (let c = mem_info_c t; v = mem_info_v t in
      \<lparr>mem_info_v = take (Suc info) v @ take (c - info) (drop info v) @ drop (Suc c) v, mem_info_c = Suc c\<rparr>)"

definition set_slot :: "nat \<Rightarrow> meminfo \<Rightarrow> meminfo_table \<Rightarrow> meminfo_table" where
  "set_slot i e t = t\<lparr>mem_info_v := (mem_info_v t)[i := e]\<rparr>"

definition slot_type :: "meminfo_table \<Rightarrow> nat \<Rightarrow> nat" where
  "slot_type t i = mi_type (mem_info_v t ! i)"

section \<open>Installing memory\<close>

fun split_iter :: "nat \<Rightarrow> meminfo list \<Rightarrow> nat \<Rightarrow> nat" where
  "split_iter addr [] iter = iter"
| "split_iter addr (e # es) iter = (if mi_addr e < addr then split_iter addr es (Suc iter) else iter)"

definition meminfo_split_at :: "nat \<Rightarrow> meminfo_table \<Rightarrow> (nat \<times> meminfo_table) result" where
  "meminfo_split_at addr t =
     (let c = mem_info_c t; iter = split_iter addr (take c (mem_info_v t)) 0 in
      if iter = c
      then rassert (c \<noteq> MEMINFO_MAXCOUNT)
            (Inr (iter, set_slot iter \<lparr>mi_type = slot_type t (iter - 1), mi_addr = addr\<rparr> (t\<lparr>mem_info_c := Suc c\<rparr>)))
      else if mi_addr (mem_info_v t ! iter) \<noteq> addr
      then rassert (c \<noteq> MEMINFO_MAXCOUNT)
            (let t = MEMINFO_DUP iter t in
             Inr (iter, set_slot iter \<lparr>mi_type = (if MEMINFO_HASPREV iter then slot_type t (iter - 1) else MEMTYPE_NDEF), mi_addr = addr\<rparr> t))
      else Inr (iter, t))"

definition meminfo_merge_with_prev :: "nat \<Rightarrow> meminfo_table \<Rightarrow> meminfo_table result" where
  "meminfo_merge_with_prev info t =
     (if MEMINFO_HASPREV info \<and> slot_type t (info - 1) = slot_type t info then MEMINFO_DELETE info t else Inr t)"

lemma MEMINFO_DELETE_count: "MEMINFO_DELETE i t = Inr t' \<Longrightarrow> Suc (mem_info_c t') = mem_info_c t \<or> i = 0 \<and> mem_info_c t = 0"
  by (auto simp: MEMINFO_DELETE_def Let_def split: if_splits)

text \<open>
  The loop at the label \<^verbatim>\<open>delete_iter\<close>: the entries behind \<open>iter\<close> that have its type are deleted. It returns
  their number, by which \<^verbatim>\<open>mem_install\<close> lowers \<^verbatim>\<open>stop\<close>.
\<close>

function merge_next :: "nat \<Rightarrow> nat \<Rightarrow> meminfo_table \<Rightarrow> (nat \<times> meminfo_table) result" where
  "merge_next iter type t =
     (if MEMINFO_HASNEXT iter t \<and> slot_type t (Suc iter) = type
      then rbind (MEMINFO_DELETE (Suc iter) t) (\<lambda>t. rbind (merge_next iter type t) (\<lambda>(n, t). Inr (Suc n, t)))
      else Inr (0, t))"
  by pat_completeness auto
termination
  by (relation "measure (\<lambda>(iter, type, t). mem_info_c t)") (auto dest: MEMINFO_DELETE_count)

declare merge_next.simps [simp del]

text \<open>An entry that has got a new type is merged with those before and behind it.\<close>

definition merge_slot :: "nat \<Rightarrow> nat \<Rightarrow> meminfo_table \<Rightarrow> (nat \<times> nat \<times> meminfo_table) result" where
  "merge_slot iter type t =
     rbind (if MEMINFO_HASPREV iter \<and> slot_type t (iter - 1) = type
            then rbind (MEMINFO_DELETE iter t) (\<lambda>t. Inr (iter - 1, 1, t)) else Inr (iter, 0, t))
       (\<lambda>(iter, n, t). rbind (merge_next iter type t) (\<lambda>(m, t). Inr (iter, n + m, t)))"

lemma merge_next_count: "merge_next iter type t = Inr (n, t') \<Longrightarrow> mem_info_c t = n + mem_info_c t'"
proof (induction iter type t arbitrary: n t' rule: merge_next.induct)
  case (1 iter type t)
  show ?case
  proof (cases "MEMINFO_HASNEXT iter t \<and> slot_type t (Suc iter) = type")
    case True
    with 1(2) obtain t1 m where m: "MEMINFO_DELETE (Suc iter) t = Inr t1" "merge_next iter type t1 = Inr (m, t')" "n = Suc m"
      by (subst (asm) merge_next.simps) (auto simp: rbind_eq_Inr_iff)
    with 1(1) [OF True m(1) m(2)] MEMINFO_DELETE_count [OF m(1)] show ?thesis by simp
  next
    case False
    with 1(2) show ?thesis by (subst (asm) merge_next.simps) auto
  qed
qed

lemma merge_slot_count:
  assumes "merge_slot iter type t = Inr (iter', n, t')" "iter < mem_info_c t"
  shows "mem_info_c t = n + mem_info_c t' \<and> (iter' = iter \<or> Suc iter' = iter \<and> 0 < n)"
proof (cases "MEMINFO_HASPREV iter \<and> slot_type t (iter - 1) = type")
  case True
  with assms(1) obtain t1 m where m: "MEMINFO_DELETE iter t = Inr t1" "merge_next (iter - 1) type t1 = Inr (m, t')" "n = Suc m" "iter' = iter - 1"
    by (auto simp: merge_slot_def rbind_eq_Inr_iff)
  have "Suc (mem_info_c t1) = mem_info_c t" using MEMINFO_DELETE_count [OF m(1)] assms(2) by simp
  moreover have "iter \<noteq> 0" using True by (simp add: MEMINFO_HASPREV_def)
  ultimately show ?thesis using merge_next_count [OF m(2)] m(3,4) by simp
next
  case False
  then have "merge_slot iter type t = rbind (merge_next iter type t) (\<lambda>(m, t). Inr (iter, m, t))"
    by (simp only: merge_slot_def if_False rbind_Inr prod.case add_0)
  with assms(1) have "merge_next iter type t = Inr (n, t')" "iter' = iter" by (cases "merge_next iter type t"; auto)+
  with merge_next_count [of iter type t n t'] show ?thesis by simp
qed

text \<open>The slots below \<open>stop\<close> are in use; the check for this only makes the recursion well-founded.\<close>

function install_loop :: "nat \<Rightarrow> nat \<Rightarrow> int \<Rightarrow> meminfo_table \<Rightarrow> (int \<times> meminfo_table) result" where
  "install_loop type iter stop t =
     (if int iter < stop
      then if mem_info_c t \<le> iter then Inl E_SEGFAULT
      else if type < slot_type t iter then install_loop type (Suc iter) stop t
      else rbind (merge_slot iter type (set_slot iter ((mem_info_v t ! iter)\<lparr>mi_type := type\<rparr>) t))
             (\<lambda>(iter, n, t). install_loop type (Suc iter) (stop - int n) t)
      else Inr (stop, t))"
  by pat_completeness auto
termination
  by (relation "measure (\<lambda>(type, iter, stop, t). nat (stop - int iter))") (auto dest!: merge_slot_count simp: set_slot_def)

declare install_loop.simps [simp del]

definition merge_stop :: "int \<Rightarrow> meminfo_table \<Rightarrow> meminfo_table result" where
  "merge_stop stop t =
     (if stop = int (mem_info_c t) then Inr t
      else if stop < 0 then Inl E_SEGFAULT else meminfo_merge_with_prev (nat stop) t)"

definition mem_install :: "nat \<Rightarrow> nat \<Rightarrow> nat \<Rightarrow> meminfo_table \<Rightarrow> meminfo_table result" where
  "mem_install base num_bytes type t =
     (if num_bytes = 0 then Inr t
      else rbind (meminfo_split_at base t) (\<lambda>(start, t).
        let addr_end = (base + num_bytes) mod 2 ^ 64 in
        rassert (mi_addr (mem_info_v t ! start) = base) (rbind (if addr_end \<le> base then Inr (mem_info_c t, t)
               else rbind (meminfo_split_at addr_end t) (\<lambda>(stop, t).
                 rassert (start \<noteq> stop) (rassert (mi_addr (mem_info_v t ! start) = base)
                   (rassert (mi_addr (mem_info_v t ! stop) = addr_end) (Inr (stop, t))))))
          (\<lambda>(stop, t). rassert (start < stop)
            (rbind (install_loop type start (int stop) t) (\<lambda>(stop, t).
              rbind (merge_stop stop t) (meminfo_merge_with_prev start)))))))"

section \<open>Releasing preserved memory\<close>

definition CEIL_ALIGN :: "nat \<Rightarrow> nat" where
  "CEIL_ALIGN x = (x + 4095) mod 2 ^ 64 div 4096 * 4096"

definition FLOOR_ALIGN :: "nat \<Rightarrow> nat" where
  "FLOOR_ALIGN x = x div 4096 * 4096"

definition MEMINFO_END :: "nat \<Rightarrow> meminfo_table \<Rightarrow> nat" where
  "MEMINFO_END x t = (if MEMINFO_HASNEXT x t then mi_addr (mem_info_v t ! Suc x) else 0)"

text \<open>The call of \<^verbatim>\<open>page_free\<close>, with the 64-bit differences and the casts to 32 bits as in the source.\<close>

definition free_preserved :: "nat \<Rightarrow> meminfo_table \<Rightarrow> mzone list \<Rightarrow> mzone list result" where
  "free_preserved iter t zones =
     (let info_begin = CEIL_ALIGN (mi_addr (mem_info_v t ! iter)); info_end = FLOOR_ALIGN (MEMINFO_END iter t) in
      if info_begin < info_end
      then let info_end = info_end - info_begin in
           page_free (info_begin div 4096 mod 2 ^ 32) ((info_end + 2 ^ 64 - info_begin) mod 2 ^ 64 div 4096 mod 2 ^ 32) zones
      else Inr zones)"

function unpreserve_loop :: "nat \<Rightarrow> meminfo_table \<Rightarrow> mzone list \<Rightarrow> (meminfo_table \<times> mzone list) result" where
  "unpreserve_loop iter t zones =
     (if mem_info_c t \<le> iter then Inr (t, zones)
      else if slot_type t iter \<noteq> MEMTYPE_ALLOCATED \<and> slot_type t iter \<noteq> MEMTYPE_PRESERVE then unpreserve_loop (Suc iter) t zones
      else rbind (if slot_type t iter = MEMTYPE_PRESERVE then free_preserved iter t zones else Inr zones) (\<lambda>zones.
             rbind (merge_slot iter MEMTYPE_RAM (set_slot iter ((mem_info_v t ! iter)\<lparr>mi_type := MEMTYPE_RAM\<rparr>) t))
               (\<lambda>(iter, n, t). unpreserve_loop (Suc iter) t zones)))"
  by pat_completeness auto
termination
  by (relation "measure (\<lambda>(iter, t, zones). mem_info_c t - iter)") (auto dest!: merge_slot_count simp: set_slot_def)

declare unpreserve_loop.simps [simp del]

definition mem_unpreserve :: "meminfo_table \<Rightarrow> mzone list \<Rightarrow> (meminfo_table \<times> mzone list) result" where
  "mem_unpreserve t zones = unpreserve_loop 0 t zones"

end
