(* ===== verification/Meminfo_Lists.thy ===== *)
theory Meminfo_Lists
  imports Meminfo
begin

text \<open>
  The operations on the table of memory as operations on the list of the entries in use: what they delete and insert,
  and the type that the list gives to an address.
\<close>

section \<open>Lists of entries\<close>

definition tab :: "meminfo_table \<Rightarrow> meminfo list \<Rightarrow> bool" where
  "tab t xs \<longleftrightarrow> length (mem_info_v t) = MEMINFO_MAXCOUNT \<and> mem_info_c t = length xs \<and> take (length xs) (mem_info_v t) = xs"

lemma tab_entry:
  assumes "tab t xs" "i < length xs"
  shows "mem_info_v t ! i = xs ! i" "i < MEMINFO_MAXCOUNT"
proof -
  have "take (length xs) (mem_info_v t) ! i = xs ! i" using assms(1) by (simp add: tab_def)
  then show "mem_info_v t ! i = xs ! i" using assms(2) by simp
  have "length (take (length xs) (mem_info_v t)) = length xs" using assms(1) by (simp add: tab_def)
  then show "i < MEMINFO_MAXCOUNT" using assms by (simp add: tab_def)
qed

lemma tab_le: "tab t xs \<Longrightarrow> length xs \<le> MEMINFO_MAXCOUNT"
  by (metis length_take min.cobounded1 min.commute tab_def)

lemma tab_split: "tab t (xs @ ys) \<Longrightarrow> \<exists>stale. mem_info_v t = xs @ ys @ stale \<and> mem_info_c t = length xs + length ys"
  unfolding tab_def by (metis append.assoc append_take_drop_id length_append)

lemma tab_DELETE:
  assumes "tab t (L @ e # R)"
  shows "\<exists>t'. MEMINFO_DELETE (length L) t = Inr t' \<and> tab t' (L @ R)"
proof -
  obtain stale where v: "mem_info_v t = L @ (e # R) @ stale" "mem_info_c t = length L + length (e # R)"
    using tab_split [OF assms] by blast
  have "take (length L + length R) (L @ R @ drop (length L + length R) (mem_info_v t)) = L @ R" by simp
  moreover have "length (mem_info_v t) = MEMINFO_MAXCOUNT" using assms by (simp add: tab_def)
  ultimately show ?thesis using v by (auto simp: MEMINFO_DELETE_def Let_def tab_def)
qed

lemma tab_set_slot: "tab t (L @ e # R) \<Longrightarrow> tab (set_slot (length L) e' t) (L @ e' # R)"
  using tab_split [of t L "e # R"] by (auto simp: tab_def set_slot_def)

lemma tab_slot_type: "tab t (L @ e # R) \<Longrightarrow> slot_type t (length L) = mi_type e"
  using tab_entry(1) [of t "L @ e # R" "length L"] by (simp add: slot_type_def)

lemma butlast_last: "L \<noteq> [] \<Longrightarrow> butlast L @ last L # X = L @ X"
  by (metis append.assoc append_Cons append_Nil append_butlast_last_id)

lemma tab_prev_type: "tab t (L @ R) \<Longrightarrow> L \<noteq> [] \<Longrightarrow> slot_type t (length L - 1) = mi_type (last L)"
  using tab_slot_type [of t "butlast L" "last L" R] by (simp add: butlast_last)

lemma tab_merge_with_prev:
  assumes "tab t (L @ e # R)"
  shows "\<exists>t'. meminfo_merge_with_prev (length L) t = Inr t' \<and>
     tab t' (if L \<noteq> [] \<and> mi_type (last L) = mi_type e then L @ R else L @ e # R)"
  using tab_DELETE [OF assms] tab_slot_type [OF assms] tab_prev_type [OF assms] assms
  by (auto simp: meminfo_merge_with_prev_def MEMINFO_HASPREV_def)

lemma tab_merge_next:
  "tab t (L @ e # R) \<Longrightarrow> \<exists>t'. merge_next (length L) type t = Inr (length (takeWhile (\<lambda>x. mi_type x = type) R), t') \<and>
     tab t' (L @ e # dropWhile (\<lambda>x. mi_type x = type) R)"
proof (induction R arbitrary: t)
  case Nil
  then have "\<not> MEMINFO_HASNEXT (length L) t" by (simp add: tab_def MEMINFO_HASNEXT_def)
  then show ?case using Nil by (subst merge_next.simps) simp
next
  case (Cons x R)
  have t: "slot_type t (Suc (length L)) = mi_type x" "MEMINFO_HASNEXT (length L) t"
    using tab_slot_type [of t "L @ [e]" x R] Cons.prems by (auto simp: tab_def MEMINFO_HASNEXT_def)
  show ?case
  proof (cases "mi_type x = type")
    case True
    obtain t1 where t1: "MEMINFO_DELETE (Suc (length L)) t = Inr t1" "tab t1 (L @ e # R)"
      using tab_DELETE [of t "L @ [e]" x R] Cons.prems by auto
    with Cons.IH [OF t1(2)] True t show ?thesis by (subst merge_next.simps) auto
  next
    case False
    then show ?thesis using t Cons.prems by (subst merge_next.simps) auto
  qed
qed

text \<open>The entry behind \<open>L\<close> has got a new type: it is dropped if \<open>L\<close> ends with that type.\<close>

definition push :: "meminfo list \<Rightarrow> meminfo \<Rightarrow> meminfo list" where
  "push L e = (if L \<noteq> [] \<and> mi_type (last L) = mi_type e then L else L @ [e])"

lemma push_nonempty [simp]: "push L e \<noteq> []" "mi_type (last (push L e)) = mi_type e"
  by (auto simp: push_def)

lemma length_push: "length (push L e) = length L \<or> length (push L e) = Suc (length L)"
  by (simp add: push_def)

lemma tab_merge_slot:
  assumes "tab t (L @ e # R)"
  defines "same \<equiv> \<lambda>x. mi_type x = mi_type e"
  shows "\<exists>n t'. merge_slot (length L) (mi_type e) t = Inr (length (push L e) - 1, n, t') \<and>
     n + length (push L e) = Suc (length L) + length (takeWhile same R) \<and> tab t' (push L e @ dropWhile same R)"
proof (cases "L \<noteq> [] \<and> mi_type (last L) = mi_type e")
  case True
  obtain t1 where t1: "MEMINFO_DELETE (length L) t = Inr t1" "tab t1 (L @ R)" using tab_DELETE [OF assms(1)] by blast
  have "tab t1 (butlast L @ last L # R)" using t1(2) True by (simp add: butlast_last)
  from tab_merge_next [OF this, of "mi_type e"] obtain t' where
    t': "merge_next (length L - 1) (mi_type e) t1 = Inr (length (takeWhile same R), t')" "tab t' (butlast L @ last L # dropWhile same R)"
    by (auto simp: same_def)
  then have "tab t' (L @ dropWhile same R)" using True by (simp add: butlast_last)
  moreover have "slot_type t (length L - 1) = mi_type e" using tab_prev_type [OF assms(1)] True by simp
  ultimately show ?thesis using True t1(1) t'(1) by (auto simp: merge_slot_def MEMINFO_HASPREV_def push_def)
next
  case False
  then have "\<not> (MEMINFO_HASPREV (length L) \<and> slot_type t (length L - 1) = mi_type e)"
    using tab_prev_type [OF assms(1)] by (auto simp: MEMINFO_HASPREV_def)
  then have "merge_slot (length L) (mi_type e) t = rbind (merge_next (length L) (mi_type e) t) (\<lambda>(m, t). Inr (length L, m, t))"
    by (simp only: merge_slot_def if_False rbind_Inr prod.case add_0)
  moreover have "push L e = L @ [e]" using False by (simp add: push_def)
  ultimately show ?thesis using tab_merge_next [OF assms(1), of "mi_type e"] by (auto simp: same_def)
qed

section \<open>The type of an address\<close>

definition mem_type :: "meminfo list \<Rightarrow> nat \<Rightarrow> nat" where
  "mem_type xs a = mi_type (last (filter (\<lambda>e. mi_addr e \<le> a) xs))"

abbreviation by_addr :: "meminfo list \<Rightarrow> bool" where
  "by_addr \<equiv> sorted_wrt (\<lambda>x y. mi_addr x < mi_addr y)"

text \<open>Entries that repeat the type of the one before them can be left out.\<close>

lemma mem_type_drop:
  assumes "by_addr (L @ D @ R)" "L \<noteq> []" "\<forall>x \<in> set D. mi_type x = mi_type (last L)"
  shows "mem_type (L @ D @ R) = mem_type (L @ R)"
proof
  fix a
  let ?f = "filter (\<lambda>e. mi_addr e \<le> a)"
  show "mem_type (L @ D @ R) a = mem_type (L @ R) a"
  proof (cases "?f R = [] \<and> ?f D \<noteq> []")
    case True
    then obtain d where d: "d \<in> set D" "mi_addr d \<le> a" by (auto simp: filter_empty_conv)
    have "\<forall>x \<in> set L. mi_addr x < mi_addr d" using assms(1) d(1) by (auto simp: sorted_wrt_append)
    then have "\<forall>x \<in> set L. mi_addr x \<le> a" using d(2) by (meson less_imp_le le_trans)
    then have "?f L = L" by (simp add: filter_id_conv)
    moreover have "last (?f D) \<in> set D" using True last_in_set by fastforce
    ultimately show ?thesis using True assms(2,3) by (simp add: mem_type_def)
  next
    case False
    then show ?thesis by (auto simp: mem_type_def last_append)
  qed
qed

lemma mem_type_push:
  assumes "by_addr (L @ e # R)"
  shows "mem_type (push L e @ R) = mem_type (L @ e # R)" "by_addr (push L e @ R)"
proof -
  show "mem_type (push L e @ R) = mem_type (L @ e # R)"
    using mem_type_drop [of L "[e]" R] assms by (simp add: push_def)
  show "by_addr (push L e @ R)" using assms by (simp add: push_def sorted_wrt_append)
qed

text \<open>Raising the types of the entries in the middle raises the types of the addresses from the first of them on.\<close>

definition raise_type :: "nat \<Rightarrow> meminfo \<Rightarrow> meminfo" where
  "raise_type type e = e\<lparr>mi_type := max type (mi_type e)\<rparr>"

lemma raise_type_simps [simp]: "mi_addr (raise_type type e) = mi_addr e" "mi_type (raise_type type e) = max type (mi_type e)"
  by (simp_all add: raise_type_def)

lemma filter_raise: "filter (\<lambda>e. mi_addr e \<le> a) (map (raise_type type) xs) = map (raise_type type) (filter (\<lambda>e. mi_addr e \<le> a) xs)"
  by (simp add: filter_map o_def)

lemma by_addr_raise [simp]: "by_addr (L @ map (raise_type type) M @ R) \<longleftrightarrow> by_addr (L @ M @ R)"
  by (simp add: sorted_wrt_append sorted_wrt_map ball_Un)

lemma filter_none: "by_addr xs \<Longrightarrow> xs \<noteq> [] \<Longrightarrow> filter (\<lambda>e. mi_addr e \<le> a) xs = [] \<longleftrightarrow> a < mi_addr (hd xs)"
  by (cases xs) (auto simp: filter_empty_conv not_le elim: less_trans)

lemma mem_type_raise:
  assumes "by_addr (L @ M @ R)" "M \<noteq> []" "R \<noteq> []"
  shows "mem_type (L @ map (raise_type type) M @ R) a =
     (if mi_addr (hd M) \<le> a \<and> a < mi_addr (hd R) then max type (mem_type (L @ M @ R) a) else mem_type (L @ M @ R) a)"
proof -
  let ?f = "filter (\<lambda>e. mi_addr e \<le> a)"
  have R: "?f R = [] \<longleftrightarrow> a < mi_addr (hd R)" using assms(1,3) by (intro filter_none) (auto simp: sorted_wrt_append)
  have M: "?f M = [] \<longleftrightarrow> a < mi_addr (hd M)" using assms(1,2) by (intro filter_none) (auto simp: sorted_wrt_append)
  have "mi_addr (hd M) < mi_addr (hd R)" using assms by (auto simp: sorted_wrt_append)
  with R M show ?thesis by (auto simp: mem_type_def filter_raise last_append last_map)
qed

end
