(* ===== verification/Meminfo_Props.thy ===== *)
theory Meminfo_Props
  imports Meminfo_Lists
begin

text \<open>
  What installing memory does to the type of each address, that the table stays in its normal form, and inputs for
  which the code fails.
\<close>

section \<open>The loop over the installed range\<close>

text \<open>
  The loop on lists: \<open>L\<close> holds the entries that are done, \<open>R\<close> those still to come within the range, and \<open>R2\<close>
  those behind it. It returns the entries done and what is left behind the range.
\<close>

function inst :: "nat \<Rightarrow> meminfo list \<Rightarrow> meminfo list \<Rightarrow> meminfo list \<Rightarrow> meminfo list \<times> meminfo list" where
  "inst type L [] R2 = (L, R2)"
| "inst type L (e # R) R2 =
     (if type < mi_type e then inst type (L @ [e]) R R2
      else let L' = push L (e\<lparr>mi_type := type\<rparr>) in
           if \<forall>x \<in> set R. mi_type x = type then (L', dropWhile (\<lambda>x. mi_type x = type) R2)
           else inst type L' (dropWhile (\<lambda>x. mi_type x = type) R) R2)"
  by pat_completeness auto
termination
  by (relation "measure (\<lambda>(type, L, R, R2). length R)") (auto simp: le_imp_less_Suc length_dropWhile_le)

lemma tab_install_loop:
  assumes "tab t (L @ R @ R2)" "inst type L R R2 = (A, B)"
  shows "\<exists>t'. install_loop type (length L) (int (length L + length R)) t = Inr (int (length A) - int (length R2 - length B), t') \<and> tab t' (A @ B)"
  using assms
proof (induction type L R R2 arbitrary: t rule: inst.induct)
  case (1 type L R2)
  then show ?case by (subst install_loop.simps) auto
next
  case (2 type L e R R2)
  have t: "tab t (L @ e # R @ R2)" using 2(3) by simp
  have range: "int (length L) < int (length L + length (e # R))" "\<not> mem_info_c t \<le> length L" "slot_type t (length L) = mi_type e"
    using t tab_slot_type [OF t] by (auto simp: tab_def)
  show ?case
  proof (cases "type < mi_type e")
    case True
    with 2(1) [OF True, of t] 2(3,4) show ?thesis by (subst install_loop.simps) (simp add: range del: of_nat_add)
  next
    case False
    let ?e = "e\<lparr>mi_type := type\<rparr>" and ?same = "\<lambda>x. mi_type x = type"
    let ?L = "push L ?e"
    have "mem_info_v t ! length L = e" using tab_entry(1) [OF t, of "length L"] by simp
    then have "tab (set_slot (length L) ((mem_info_v t ! length L)\<lparr>mi_type := type\<rparr>) t) (L @ ?e # R @ R2)"
      using tab_set_slot [OF t] by simp
    from tab_merge_slot [OF this] obtain n t' where
      m: "merge_slot (length L) type (set_slot (length L) ((mem_info_v t ! length L)\<lparr>mi_type := type\<rparr>) t) = Inr (length ?L - 1, n, t')"
        "n + length ?L = Suc (length L) + length (takeWhile ?same (R @ R2))" "tab t' (?L @ dropWhile ?same (R @ R2))" by auto
    have Suc: "Suc (length ?L - 1) = length ?L" by (simp add: push_def)
    then have run: "install_loop type (length L) (int (length L + length (e # R))) t =
        install_loop type (length ?L) (int (length L + length (e # R)) - int n) t'"
      using range False by (subst install_loop.simps) (simp add: m(1))
    show ?thesis
    proof (cases "\<forall>x \<in> set R. ?same x")
      case True
      then have d: "takeWhile ?same (R @ R2) = R @ takeWhile ?same R2" "dropWhile ?same (R @ R2) = dropWhile ?same R2" by auto
      have AB: "A = ?L" "B = dropWhile ?same R2" using 2(4) False True by auto
      have "length R2 - length B = length (takeWhile ?same R2)"
        using AB(2) by (metis add_diff_cancel_right' length_append takeWhile_dropWhile_id)
      then have stop: "int (length L + length (e # R)) - int n = int (length A) - int (length R2 - length B)"
        using m(2) AB d(1) by simp
      then show ?thesis using m(3) AB d(2) unfolding run stop by (subst install_loop.simps) simp
    next
      case 3: False
      then have d: "takeWhile ?same (R @ R2) = takeWhile ?same R" "dropWhile ?same (R @ R2) = dropWhile ?same R @ R2"
        by (auto simp: takeWhile_append1 dropWhile_append1)
      have "length R = length (takeWhile ?same R) + length (dropWhile ?same R)"
        by (metis length_append takeWhile_dropWhile_id)
      then have "int (length L + length (e # R)) - int n = int (length ?L + length (dropWhile ?same R))"
        using m(2) d(1) by simp
      moreover have "inst type ?L (dropWhile ?same R) R2 = (A, B)" using 2(4) False 3 by simp
      ultimately show ?thesis using 2(2) [OF False refl 3, of t'] m(3) d(2) unfolding run by simp
    qed
  qed
qed

text \<open>The loop raises the types of the entries in the range.\<close>

lemma raise_type_id: "type \<le> mi_type x \<Longrightarrow> raise_type type x = x"
  by (simp add: raise_type_def max_def)

lemma mem_type_dropWhile:
  assumes "by_addr (L @ D @ R)" "L \<noteq> []" "\<forall>x \<in> set D. mi_type x = mi_type (last L)"
  shows "mem_type (L @ D @ R) = mem_type (L @ R)" "by_addr (L @ R)"
  using mem_type_drop [OF assms] assms(1) by (auto simp: sorted_wrt_append)

lemma inst_mem_type:
  assumes "by_addr (L @ R @ R2)" "inst type L R R2 = (A, B)"
  shows "mem_type (A @ B) = mem_type (L @ map (raise_type type) R @ R2) \<and> by_addr (A @ B)"
  using assms
proof (induction type L R R2 rule: inst.induct)
  case (1 type L R2)
  then show ?case by simp
next
  case (2 type L e R R2)
  show ?case
  proof (cases "type < mi_type e")
    case True
    with 2(1) [OF True] 2(3,4) show ?thesis by (simp add: raise_type_id)
  next
    case False
    let ?e = "e\<lparr>mi_type := type\<rparr>" and ?same = "\<lambda>x. mi_type x = type" and ?g = "raise_type type"
    let ?L = "push L ?e"
    have e: "?g e = ?e" using False by (simp add: raise_type_def max_def)
    have "by_addr (L @ ?e # R @ R2)" using 2(3) by (simp add: sorted_wrt_append)
    then have p: "by_addr (?L @ R @ R2)" using mem_type_push(2) by blast
    have L: "mem_type (L @ map ?g (e # R) @ R2) = mem_type (?L @ map ?g R @ R2)"
      using mem_type_push(1) [of L ?e "map ?g R @ R2"] \<open>by_addr (L @ ?e # R @ R2)\<close> by_addr_raise [of "L @ [?e]" type R R2] e by simp
    show ?thesis
    proof (cases "\<forall>x \<in> set R. ?same x")
      case True
      then have AB: "A = ?L" "B = dropWhile ?same R2" using 2(4) False by auto
      have id: "map ?g R = R" using True by (intro map_idI) (simp add: raise_type_id)
      have "R2 = takeWhile ?same R2 @ B" using AB(2) by simp
      then have "by_addr (?L @ (R @ takeWhile ?same R2) @ B)" using p by (metis append.assoc)
      from mem_type_dropWhile [OF this] True have "mem_type (?L @ (R @ takeWhile ?same R2) @ B) = mem_type (?L @ B)" "by_addr (?L @ B)"
        by (auto dest: set_takeWhileD)
      then show ?thesis using L id AB(1) \<open>R2 = takeWhile ?same R2 @ B\<close> by (metis append.assoc)
    next
      case 3: False
      let ?D = "takeWhile ?same R" and ?R = "dropWhile ?same R"
      have "by_addr (?L @ ?D @ ?R @ R2)" using p by (metis append.assoc takeWhile_dropWhile_id)
      note s = this
      then have g: "by_addr (?L @ ?D @ map ?g ?R @ R2)" using by_addr_raise [of "?L @ ?D" type ?R R2] by simp
      have D: "\<forall>x \<in> set ?D. mi_type x = mi_type (last ?L)" by (auto dest: set_takeWhileD)
      have "mem_type (?L @ ?D @ map ?g ?R @ R2) = mem_type (?L @ map ?g ?R @ R2)"
        by (rule mem_type_dropWhile(1) [OF g push_nonempty(1) D])
      moreover have "by_addr (?L @ ?R @ R2)" by (rule mem_type_dropWhile(2) [OF s push_nonempty(1) D])
      moreover have "map ?g R = ?D @ map ?g ?R"
      proof -
        have "map ?g ?D = ?D" by (intro map_idI) (auto dest: set_takeWhileD simp: raise_type_id)
        then show ?thesis by (metis map_append takeWhile_dropWhile_id)
      qed
      moreover have "inst type ?L ?R R2 = (A, B)" using 2(4) False 3 by simp
      ultimately show ?thesis using 2(2) [OF False refl 3] L by simp
    qed
  qed
qed

section \<open>Neighbours have different types\<close>

abbreviation differ :: "meminfo list \<Rightarrow> bool" where
  "differ \<equiv> successively (\<lambda>x y. mi_type x \<noteq> mi_type y)"

lemma differ_append: "differ (xs @ ys) \<longleftrightarrow> differ xs \<and> differ ys \<and> (xs \<noteq> [] \<and> ys \<noteq> [] \<longrightarrow> mi_type (last xs) \<noteq> mi_type (hd ys))"
  by (auto simp: successively_append_iff)

lemma differ_tl: "differ (x # xs) \<Longrightarrow> differ xs \<and> (xs \<noteq> [] \<longrightarrow> mi_type x \<noteq> mi_type (hd xs))"
  by (cases xs) auto

lemma differ_dropWhile: "differ xs \<Longrightarrow> differ (dropWhile P xs)"
  by (metis differ_append takeWhile_dropWhile_id)

lemma differ_takeWhile_same: "differ xs \<Longrightarrow> length (takeWhile (\<lambda>x. mi_type x = type) xs) \<le> 1"
  by (cases xs; cases "tl xs") auto

text \<open>
  \<open>K\<close> are the entries before the range and \<open>P\<close> those of the range that are done. Two neighbours with the same type remain at
  most where the range begins and, if the loop left the entries behind it alone, where it ends.
\<close>

definition loop_inv :: "nat \<Rightarrow> meminfo list \<Rightarrow> meminfo list \<Rightarrow> bool" where
  "loop_inv type K P \<longleftrightarrow> differ K \<and> differ P \<and> (P \<noteq> [] \<and> mi_type (hd P) = type \<longrightarrow> K = [] \<or> mi_type (last K) \<noteq> type)"

lemma loop_inv_skip:
  "loop_inv type K P \<Longrightarrow> type < mi_type e \<Longrightarrow> (P \<noteq> [] \<Longrightarrow> mi_type (last P) \<noteq> mi_type e) \<Longrightarrow> loop_inv type K (P @ [e])"
  by (auto simp: loop_inv_def differ_append hd_append)

lemma loop_inv_push:
  assumes "loop_inv type K P" "mi_type e = type"
  shows "\<exists>P'. push (K @ P) e = K @ P' \<and> loop_inv type K P'"
proof (cases "K @ P \<noteq> [] \<and> mi_type (last (K @ P)) = type")
  case True
  then show ?thesis using assms by (auto simp: push_def)
next
  case False
  then have "push (K @ P) e = K @ (P @ [e])" using assms(2) by (auto simp: push_def)
  moreover have "loop_inv type K (P @ [e])" using assms False
    by (auto simp: loop_inv_def differ_append last_append hd_append split: if_splits)
  ultimately show ?thesis by blast
qed

lemma inst_loop_inv:
  assumes "inst type (K @ P) R R2 = (A, B)" "loop_inv type K P" "differ R"
    and "P \<noteq> [] \<Longrightarrow> R \<noteq> [] \<Longrightarrow> mi_type (last P) \<noteq> mi_type (hd R)" "R = [] \<Longrightarrow> P \<noteq> []"
  shows "\<exists>P'. A = K @ P' \<and> loop_inv type K P' \<and>
     (B = R2 \<and> P' \<noteq> [] \<or> B = dropWhile (\<lambda>x. mi_type x = type) R2 \<and> A \<noteq> [] \<and> mi_type (last A) = type)"
  using assms
proof (induction type "K @ P" R R2 arbitrary: P rule: inst.induct)
  case (1 type R2)
  then show ?case by auto
next
  case (2 type e R R2)
  show ?case
  proof (cases "type < mi_type e")
    case True
    have "loop_inv type K (P @ [e])" using loop_inv_skip [OF 2(4) True] 2(6) by simp
    then show ?thesis using 2(1) [OF True, of "P @ [e]"] 2(3,5) True by (auto dest: differ_tl)
  next
    case False
    let ?e = "e\<lparr>mi_type := type\<rparr>" and ?same = "\<lambda>x. mi_type x = type"
    obtain P' where P': "push (K @ P) ?e = K @ P'" "loop_inv type K P'" using loop_inv_push [OF 2(4), of ?e] by auto
    have last: "K @ P' \<noteq> []" "mi_type (last (K @ P')) = type" using push_nonempty [of "K @ P" ?e] P'(1) by auto
    show ?thesis
    proof (cases "\<forall>x \<in> set R. ?same x")
      case True
      then have "A = push (K @ P) ?e" "B = dropWhile ?same R2" using 2(3) False by auto
      then show ?thesis using P' last by (intro exI [of _ P']) simp
    next
      case 3: False
      have d: "differ (dropWhile ?same R)" using 2(5) by (auto dest: differ_tl intro: differ_dropWhile)
      have ne: "dropWhile ?same R \<noteq> []" using 3 by (simp add: dropWhile_eq_Nil_conv)
      then have "mi_type (hd (dropWhile ?same R)) \<noteq> type" by (rule hd_dropWhile)
      then have j: "P' \<noteq> [] \<Longrightarrow> mi_type (last P') \<noteq> mi_type (hd (dropWhile ?same R))" using last(2) by auto
      have "inst type (K @ P') (dropWhile ?same R) R2 = (A, B)" using 2(3) False 3 P'(1) by simp
      from 2(2) [OF False P'(1) [symmetric] 3 this P'(2) d j] ne show ?thesis by blast
    qed
  qed
qed

section \<open>Splitting the table\<close>

text \<open>The entries before an address, and those from it on, with an entry for the address itself.\<close>

definition split_list :: "nat \<Rightarrow> meminfo list \<Rightarrow> meminfo list \<times> meminfo list" where
  "split_list addr xs =
     (let K = takeWhile (\<lambda>e. mi_addr e < addr) xs; R = dropWhile (\<lambda>e. mi_addr e < addr) xs in
      (K, if R \<noteq> [] \<and> mi_addr (hd R) = addr then R else \<lparr>mi_type = mi_type (last K), mi_addr = addr\<rparr> # R))"

lemma split_listD:
  assumes "split_list addr xs = (K, R)"
  defines "R0 \<equiv> dropWhile (\<lambda>e. mi_addr e < addr) xs"
  shows "K = takeWhile (\<lambda>e. mi_addr e < addr) xs"
    "R = (if R0 \<noteq> [] \<and> mi_addr (hd R0) = addr then R0 else \<lparr>mi_type = mi_type (last K), mi_addr = addr\<rparr> # R0)"
proof -
  show K: "K = takeWhile (\<lambda>e. mi_addr e < addr) xs" using assms(1) by (simp add: split_list_def Let_def)
  show "R = (if R0 \<noteq> [] \<and> mi_addr (hd R0) = addr then R0 else \<lparr>mi_type = mi_type (last K), mi_addr = addr\<rparr> # R0)"
    using assms(1) unfolding K R0_def split_list_def Let_def prod.inject by (elim conjE sym)
qed

lemma split_iter: "split_iter addr xs i = i + length (takeWhile (\<lambda>e. mi_addr e < addr) xs)"
  by (induction xs arbitrary: i) auto

lemma tab_split_at:
  assumes t: "tab t xs" and room: "length xs < MEMINFO_MAXCOUNT" and xs: "xs \<noteq> []" "mi_addr (hd xs) \<le> addr"
    and s: "split_list addr xs = (K, R)"
  shows "\<exists>t'. meminfo_split_at addr t = Inr (length K, t') \<and> tab t' (K @ R)"
proof -
  define R0 where "R0 = dropWhile (\<lambda>e. mi_addr e < addr) xs"
  have K: "K = takeWhile (\<lambda>e. mi_addr e < addr) xs" by (rule split_listD [OF s])
  have xs_eq: "xs = K @ R0" by (simp add: K R0_def)
  have c: "mem_info_c t = length xs" "take (mem_info_c t) (mem_info_v t) = xs" using t by (auto simp: tab_def)
  have iter: "split_iter addr (take (mem_info_c t) (mem_info_v t)) 0 = length K" by (simp only: split_iter c(2) K add_0)
  obtain stale where v: "mem_info_v t = K @ R0 @ stale" using tab_split [of t K R0] t xs_eq by auto
  have "stale \<noteq> []" using t room v xs_eq by (auto simp: tab_def)
  then obtain x stale' where st: "stale = x # stale'" by (cases stale) auto
  have len: "length (mem_info_v t) = MEMINFO_MAXCOUNT" using t by (simp add: tab_def)
  let ?new = "\<lparr>mi_type = mi_type (last K), mi_addr = addr\<rparr>"
  show ?thesis
  proof (cases R0)
    case Nil
    then have "K \<noteq> []" "length K = mem_info_c t" "R = [?new]" using xs xs_eq c split_listD(2) [OF s, folded R0_def] by auto
    moreover have "slot_type t (length K - 1) = mi_type (last K)" using tab_prev_type [of t K R0] t xs_eq \<open>K \<noteq> []\<close> by simp
    ultimately show ?thesis using iter room c v Nil st len
      by (auto simp: meminfo_split_at_def Let_def tab_def set_slot_def list_update_append)
  next
    case (Cons e R1)
    have at: "mem_info_v t ! length K = e" "length K \<noteq> mem_info_c t" using v Cons c xs_eq by auto
    show ?thesis
    proof (cases "mi_addr e = addr")
      case True
      then have "R = R0" using split_listD(2) [OF s, folded R0_def] Cons by simp
      then show ?thesis using iter at True t xs_eq by (auto simp: meminfo_split_at_def Let_def)
    next
      case False
      then have R: "R = ?new # R0" using split_listD(2) [OF s, folded R0_def] Cons by simp
      have "\<not> mi_addr e < addr" using Cons hd_dropWhile [of "\<lambda>e. mi_addr e < addr" xs] by (auto simp: R0_def)
      then have "K \<noteq> []" using xs(2) xs_eq Cons False by (cases K) auto
      define t1 where "t1 = MEMINFO_DUP (length K) t"
      have t1: "tab t1 (K @ e # R0)" using v Cons st c xs_eq len by (auto simp: t1_def MEMINFO_DUP_def Let_def tab_def)
      from tab_set_slot [OF t1, of ?new] tab_prev_type [OF t1 \<open>K \<noteq> []\<close>] show ?thesis
        using iter at False room c R \<open>K \<noteq> []\<close> by (auto simp: meminfo_split_at_def Let_def MEMINFO_HASPREV_def t1_def)
    qed
  qed
qed

definition table_wf :: "meminfo list \<Rightarrow> bool" where
  "table_wf xs \<longleftrightarrow> xs \<noteq> [] \<and> mi_addr (hd xs) = 0 \<and> by_addr xs \<and> differ xs"

text \<open>The parts of a split list: neighbours with the same type occur only where it was split.\<close>

lemma by_addr_dropWhile: "by_addr xs \<Longrightarrow> e \<in> set (dropWhile (\<lambda>e. mi_addr e < addr) xs) \<Longrightarrow> addr \<le> mi_addr e"
proof (induction xs)
  case (Cons x xs)
  show ?case
  proof (cases "mi_addr x < addr")
    case False
    have "mi_addr x \<le> mi_addr e" using Cons.prems False by (auto intro: less_imp_le)
    with False show ?thesis by linarith
  qed (use Cons in simp)
qed simp

lemma split_list_parts:
  assumes s: "split_list addr xs = (K, R)" and xs: "by_addr xs" "xs \<noteq> []" "mi_addr (hd xs) \<le> addr"
  shows "by_addr (K @ R)" "mem_type (K @ R) = mem_type xs" "R \<noteq> []" "mi_addr (hd R) = addr" "mi_type (last R) = mi_type (last xs)"
    "differ xs \<Longrightarrow> differ K \<and> differ R" "K @ R \<noteq> []" "mi_addr (hd (K @ R)) = mi_addr (hd xs)"
    "length (K @ R) \<le> Suc (length xs)" "K = takeWhile (\<lambda>e. mi_addr e < addr) xs"
proof -
  define R0 where "R0 = dropWhile (\<lambda>e. mi_addr e < addr) xs"
  show K: "K = takeWhile (\<lambda>e. mi_addr e < addr) xs" by (rule split_listD [OF s])
  have xs_eq: "xs = K @ R0" by (simp add: K R0_def)
  let ?new = "\<lparr>mi_type = mi_type (last K), mi_addr = addr\<rparr>"
  note R = split_listD(2) [OF s, folded R0_def]
  show ne: "R \<noteq> []" "mi_addr (hd R) = addr" using R by auto
  show "length (K @ R) \<le> Suc (length xs)" using xs_eq R by simp
  have "by_addr (K @ R) \<and> mem_type (K @ R) = mem_type xs \<and> mi_type (last R) = mi_type (last xs) \<and>
     (differ xs \<longrightarrow> differ K \<and> differ R) \<and> mi_addr (hd (K @ R)) = mi_addr (hd xs)"
  proof (cases "R0 \<noteq> [] \<and> mi_addr (hd R0) = addr")
    case True
    then have "R = R0" using R by simp
    moreover have "last R0 = last xs" using True xs_eq by simp
    ultimately show ?thesis using xs(1) xs_eq by (auto simp: differ_append)
  next
    case False
    then have R: "R = ?new # R0" using R by simp
    have ge: "\<forall>e \<in> set R0. addr < mi_addr e"
    proof
      fix e assume e: "e \<in> set R0"
      then obtain r R1 where r: "R0 = r # R1" by (cases R0) auto
      have "addr \<le> mi_addr r" using by_addr_dropWhile [OF xs(1), of r addr] r by (simp add: R0_def)
      moreover have "mi_addr r \<noteq> addr" using False r by simp
      moreover have "mi_addr r \<le> mi_addr e" using e r xs(1) xs_eq by (auto simp: sorted_wrt_append)
      ultimately show "addr < mi_addr e" by linarith
    qed
    have K': "K \<noteq> []"
    proof
      assume "K = []"
      then have "hd xs \<in> set R0" using xs(2) xs_eq by simp
      then show False using ge xs(3) by auto
    qed
    have "\<forall>e \<in> set K. mi_addr e < addr" unfolding K by (auto dest: set_takeWhileD)
    then have b: "by_addr (K @ [?new] @ R0)" using xs(1) xs_eq ge by (auto simp: sorted_wrt_append)
    have "mem_type (K @ [?new] @ R0) = mem_type xs" using mem_type_drop [OF b K'] xs_eq by simp
    with b R K' xs_eq show ?thesis by (auto simp: differ_append successively_Cons)
  qed
  then show "by_addr (K @ R)" "mem_type (K @ R) = mem_type xs" "mi_type (last R) = mi_type (last xs)"
    "differ xs \<Longrightarrow> differ K \<and> differ R" "mi_addr (hd (K @ R)) = mi_addr (hd xs)" by blast+
  show "K @ R \<noteq> []" using ne(1) by simp
qed

lemma split_list_differ:
  assumes "split_list addr (K1 @ S) = (K1 @ K2, R)" "K2 \<noteq> []" "differ S"
  shows "differ R"
proof -
  define R0 where "R0 = dropWhile (\<lambda>e. mi_addr e < addr) (K1 @ S)"
  have "K1 @ S = (K1 @ K2) @ R0" unfolding split_listD(1) [OF assms(1)] R0_def by simp
  then have "differ (K2 @ R0)" using assms(3) by simp
  then show ?thesis using split_listD(2) [OF assms(1), folded R0_def] assms(2) by (auto simp: differ_append successively_Cons)
qed

section \<open>Merging at both ends of the range\<close>

lemma loop_inv_last:
  assumes "loop_inv type K P" "K @ P = A0 @ [z]" "mi_type z = type" "A0 \<noteq> []"
  shows "mi_type (last A0) \<noteq> mi_type z"
proof (cases P rule: rev_cases)
  case Nil
  then show ?thesis using assms by (auto simp: loop_inv_def differ_append)
next
  case (snoc P1 y)
  then have "y = z" "A0 = K @ P1" using assms(2) by auto
  with snoc assms show ?thesis by (cases "P1 = []") (auto simp: loop_inv_def differ_append)
qed

lemma tab_merge_stop:
  assumes "tab t (A @ e # R)"
  shows "\<exists>t'. merge_stop (int (length A)) t = Inr t' \<and> tab t' (if A \<noteq> [] \<and> mi_type (last A) = mi_type e then A @ R else A @ e # R)"
proof -
  have "int (length A) \<noteq> int (mem_info_c t)" using assms by (simp add: tab_def)
  then show ?thesis using tab_merge_with_prev [OF assms] by (simp add: merge_stop_def)
qed

text \<open>What the loop left behind the range is merged with it.\<close>

definition closed_range :: "meminfo list \<Rightarrow> meminfo list \<Rightarrow> meminfo list \<Rightarrow> meminfo list \<Rightarrow> bool" where
  "closed_range K P B B' \<longleftrightarrow> differ (P @ B') \<and> P @ B' \<noteq> [] \<and> mem_type (K @ P @ B') = mem_type (K @ P @ B) \<and> by_addr (K @ P @ B')"

lemma merge_stop_left:
  assumes t: "tab t (K @ P @ r # R)" and P: "differ P" "P \<noteq> []" and R: "differ (r # R)" and a: "by_addr (K @ P @ r # R)"
  shows "\<exists>t' B'. merge_stop (int (length (K @ P))) t = Inr t' \<and> tab t' (K @ P @ B') \<and> closed_range K P (r # R) B'"
proof -
  obtain t' where t': "merge_stop (int (length (K @ P))) t = Inr t'"
      "tab t' (if K @ P \<noteq> [] \<and> mi_type (last (K @ P)) = mi_type r then (K @ P) @ R else (K @ P) @ r # R)"
    using tab_merge_stop [of t "K @ P" r R] t by auto
  have lst: "last (K @ P) = last P" "K @ P \<noteq> []" using P(2) by auto
  show ?thesis
  proof (cases "mi_type (last P) = mi_type r")
    case True
    have "by_addr ((K @ P) @ [r] @ R)" using a by simp
    moreover have "\<forall>x \<in> set [r]. mi_type x = mi_type (last (K @ P))" using True lst by simp
    ultimately have "mem_type ((K @ P) @ [r] @ R) = mem_type ((K @ P) @ R)" "by_addr ((K @ P) @ R)"
      using mem_type_dropWhile [of "K @ P" "[r]" R] lst(2) by blast+
    moreover have "differ (P @ R)" using True P R by (auto simp: differ_append dest!: differ_tl)
    ultimately have "closed_range K P (r # R) R" using P(2) by (simp add: closed_range_def)
    then show ?thesis using t' True lst by (intro exI [of _ t'] exI [of _ R]) simp
  next
    case False
    then have "closed_range K P (r # R) (r # R)" using P R a by (simp add: closed_range_def differ_append)
    then show ?thesis using t' False lst by (intro exI [of _ t'] exI [of _ "r # R"]) simp
  qed
qed

lemma merge_stop_eaten:
  assumes t: "tab t (K @ P @ B)" and inv: "loop_inv type K P" and R2: "differ R2" "R2 \<noteq> []" "mi_type (last R2) \<noteq> type"
    and B: "B = dropWhile (\<lambda>x. mi_type x = type) R2" and A: "K @ P \<noteq> []" "mi_type (last (K @ P)) = type" and a: "by_addr (K @ P @ B)"
  shows "\<exists>t'. merge_stop (int (length (K @ P)) - int (length R2 - length B)) t = Inr t' \<and> tab t' (K @ P @ B) \<and> closed_range K P B B"
proof -
  let ?same = "\<lambda>x. mi_type x = type"
  have "last R2 \<in> set R2" using R2(2) by simp
  then have "B \<noteq> []" using R2(3) unfolding B dropWhile_eq_Nil_conv by blast
  then obtain b B1 where b: "B = b # B1" by (cases B) auto
  have hd: "mi_type b \<noteq> type" using hd_dropWhile [of ?same R2] b B by (metis list.distinct(1) list.sel(1))
  have "differ (P @ B)" using inv differ_dropWhile [OF R2(1), of ?same] A(2) hd b B
    by (auto simp: differ_append loop_inv_def)
  then have c: "closed_range K P B B" using b a by (simp add: closed_range_def)
  have len: "length R2 - length B = length (takeWhile ?same R2)"
    using B by (metis add_diff_cancel_right' length_append takeWhile_dropWhile_id)
  show ?thesis
  proof (cases "length (takeWhile ?same R2) = 0")
    case True
    then have stop: "int (length (K @ P)) - int (length R2 - length B) = int (length (K @ P))" using len by simp
    have "tab t ((K @ P) @ b # B1)" using t b by simp
    from tab_merge_stop [OF this] show ?thesis unfolding stop using A hd c b by auto
  next
    case False
    then have "length R2 - length B = 1" using differ_takeWhile_same [OF R2(1), of type] len by linarith
    moreover obtain A0 z where z: "K @ P = A0 @ [z]" using A(1) by (metis append_butlast_last_id)
    ultimately have stop: "int (length (K @ P)) - int (length R2 - length B) = int (length A0)" by simp
    have e: "K @ P @ B = A0 @ z # B" using z by (metis append.assoc append_Cons append_Nil)
    have "\<not> (A0 \<noteq> [] \<and> mi_type (last A0) = mi_type z)" using loop_inv_last [OF inv z] A(2) z by auto
    note keep = if_not_P [OF this]
    have "tab t (A0 @ z # B)" using t by (simp only: e)
    from tab_merge_stop [OF this] have "\<exists>t'. merge_stop (int (length A0)) t = Inr t' \<and> tab t' (A0 @ z # B)" unfolding keep .
    then show ?thesis unfolding stop using c by (simp only: e simp_thms)
  qed
qed

lemma tab_merge_start:
  assumes "tab t (K @ Y)" "Y \<noteq> []" "differ K" "differ Y" "by_addr (K @ Y)"
  shows "\<exists>t' zs. meminfo_merge_with_prev (length K) t = Inr t' \<and> tab t' zs \<and> zs \<noteq> [] \<and> differ zs \<and> by_addr zs \<and>
     mem_type zs = mem_type (K @ Y) \<and> mi_addr (hd zs) = mi_addr (hd (K @ Y))"
proof -
  obtain y Z where y: "Y = y # Z" using assms(2) by (cases Y) auto
  obtain t' where t': "meminfo_merge_with_prev (length K) t = Inr t'"
      "tab t' (if K \<noteq> [] \<and> mi_type (last K) = mi_type y then K @ Z else K @ y # Z)"
    using tab_merge_with_prev [of t K y Z] assms(1) y by auto
  show ?thesis
  proof (cases "K \<noteq> [] \<and> mi_type (last K) = mi_type y")
    case True
    have "by_addr (K @ [y] @ Z)" using assms(5) y by simp
    from mem_type_dropWhile [OF this] True have "mem_type (K @ [y] @ Z) = mem_type (K @ Z)" "by_addr (K @ Z)" by auto
    moreover have "differ (K @ Z)" using True assms(3,4) y by (auto simp: differ_append dest!: differ_tl)
    ultimately show ?thesis using t' True y by (intro exI [of _ t'] exI [of _ "K @ Z"]) simp
  next
    case False
    moreover have "differ (K @ Y)" using False assms y by (auto simp: differ_append)
    ultimately show ?thesis using t' assms(5) y by (intro exI [of _ t'] exI [of _ "K @ Y"]) auto
  qed
qed

section \<open>Installing memory\<close>

lemma inst_hd: "inst type L R R2 = (A, B) \<Longrightarrow> L @ R \<noteq> [] \<Longrightarrow> A \<noteq> [] \<and> mi_addr (hd A) = mi_addr (hd (L @ R))"
proof (induction type L R R2 rule: inst.induct)
  case (2 type L e R R2)
  have "mi_addr (hd (push L (e\<lparr>mi_type := type\<rparr>) @ X)) = mi_addr (hd (L @ e # R))" for X by (auto simp: push_def hd_append)
  from this this [of "[]"] show ?case using 2 by (cases "type < mi_type e"; cases "\<forall>x \<in> set R. mi_type x = type") (auto simp: hd_append)
qed simp

lemma tab_install_range:
  assumes t: "tab t (K @ R @ R2)" and a: "by_addr (K @ R @ R2)" and d: "differ K" "differ R" "differ R2"
    and ne: "R \<noteq> []" "R2 \<noteq> []" and l: "mi_type (last R2) \<noteq> type"
  shows "\<exists>t' zs. rbind (install_loop type (length K) (int (length K + length R)) t)
       (\<lambda>(stop, t). rbind (merge_stop stop t) (meminfo_merge_with_prev (length K))) = Inr t' \<and>
     tab t' zs \<and> zs \<noteq> [] \<and> differ zs \<and> by_addr zs \<and>
     mem_type zs = mem_type (K @ map (raise_type type) R @ R2) \<and> mi_addr (hd zs) = mi_addr (hd (K @ R @ R2))"
proof -
  obtain A B where AB: "inst type K R R2 = (A, B)" by (cases "inst type K R R2")
  let ?stop = "int (length A) - int (length R2 - length B)"
  obtain t1 where t1: "install_loop type (length K) (int (length K + length R)) t = Inr (?stop, t1)" "tab t1 (A @ B)"
    using tab_install_loop [OF t AB] by blast
  have m: "mem_type (A @ B) = mem_type (K @ map (raise_type type) R @ R2)" "by_addr (A @ B)" using inst_mem_type [OF a AB] by auto
  obtain P where P: "A = K @ P" "loop_inv type K P"
      "B = R2 \<and> P \<noteq> [] \<or> B = dropWhile (\<lambda>x. mi_type x = type) R2 \<and> A \<noteq> [] \<and> mi_type (last A) = type"
    using inst_loop_inv [of type K "[]" R R2 A B] AB d ne(1) by (auto simp: loop_inv_def)
  have "\<exists>t2 B'. merge_stop ?stop t1 = Inr t2 \<and> tab t2 (K @ P @ B') \<and> closed_range K P B B'"
    using P(3)
  proof
    assume B: "B = R2 \<and> P \<noteq> []"
    obtain r R3 where r: "R2 = r # R3" using ne(2) by (cases R2) auto
    have "differ P" using P(2) by (simp add: loop_inv_def)
    then show ?thesis using merge_stop_left [of t1 K P r R3] t1(2) m(2) B r P(1) d(3) by auto
  next
    assume "B = dropWhile (\<lambda>x. mi_type x = type) R2 \<and> A \<noteq> [] \<and> mi_type (last A) = type"
    then show ?thesis using merge_stop_eaten [of t1 K P B type R2] t1(2) m(2) P(1,2) d(3) ne(2) l by auto
  qed
  then obtain t2 B' where t2: "merge_stop ?stop t1 = Inr t2" "tab t2 (K @ P @ B')" "closed_range K P B B'" by blast
  then obtain t' zs where zs: "meminfo_merge_with_prev (length K) t2 = Inr t'" "tab t' zs" "zs \<noteq> []" "differ zs" "by_addr zs"
      "mem_type zs = mem_type (K @ P @ B')" "mi_addr (hd zs) = mi_addr (hd (K @ P @ B'))"
    using tab_merge_start [of t2 K "P @ B'"] d(1) by (auto simp: closed_range_def)
  have "mem_type zs = mem_type (K @ map (raise_type type) R @ R2)" using zs(6) t2(3) m(1) P(1) by (simp add: closed_range_def)
  moreover have "mi_addr (hd zs) = mi_addr (hd (K @ R @ R2))"
    using zs(7) inst_hd [OF AB] ne(1) P(1) by (auto simp: hd_append split: if_splits)
  ultimately show ?thesis using t1(1) t2(1) zs by auto
qed

text \<open>The entries in use, the normal form of the table, and the type that it gives to an address.\<close>

definition mem_entries :: "meminfo_table \<Rightarrow> meminfo list" where
  "mem_entries t = take (mem_info_c t) (mem_info_v t)"

definition meminfo_wf :: "meminfo_table \<Rightarrow> bool" where
  "meminfo_wf t \<longleftrightarrow> length (mem_info_v t) = MEMINFO_MAXCOUNT \<and> mem_info_c t \<le> MEMINFO_MAXCOUNT \<and> table_wf (mem_entries t)"

definition memtype_at :: "meminfo_table \<Rightarrow> nat \<Rightarrow> nat" where
  "memtype_at t = mem_type (mem_entries t)"

lemma tab_entries: "tab t xs \<Longrightarrow> mem_entries t = xs" "meminfo_wf t \<Longrightarrow> tab t (mem_entries t)"
  by (auto simp: tab_def mem_entries_def meminfo_wf_def)

lemma tab_wf: "tab t xs \<Longrightarrow> table_wf xs \<Longrightarrow> meminfo_wf t"
  using tab_le tab_entries(1) by (auto simp: meminfo_wf_def tab_def)

text \<open>Both splits: the entries before, within and behind the range.\<close>

lemma split_range:
  assumes t: "tab t xs" "table_wf xs" and room: "length xs + 2 \<le> MEMINFO_MAXCOUNT" and num: "0 < num"
  obtains t1 t2 K R R2 where "meminfo_split_at base t = Inr (length K, t1)" "mi_addr (mem_info_v t1 ! length K) = base"
    "meminfo_split_at (base + num) t1 = Inr (length K + length R, t2)"
    "mi_addr (mem_info_v t2 ! length K) = base" "mi_addr (mem_info_v t2 ! (length K + length R)) = base + num"
    "tab t2 (K @ R @ R2)" "by_addr (K @ R @ R2)" "differ K" "differ R" "differ R2" "R \<noteq> []" "R2 \<noteq> []"
    "mi_type (last R2) = mi_type (last xs)" "mem_type (K @ R @ R2) = mem_type xs" "mi_addr (hd (K @ R @ R2)) = 0"
    "mi_addr (hd R) = base" "mi_addr (hd R2) = base + num"
proof -
  have xs: "by_addr xs" "xs \<noteq> []" "mi_addr (hd xs) \<le> base" "differ xs" "mi_addr (hd xs) = 0" using t(2) by (auto simp: table_wf_def)
  obtain K S where KS: "split_list base xs = (K, S)" by (cases "split_list base xs")
  note p = split_list_parts [OF KS xs(1-3)]
  obtain t1 where t1: "meminfo_split_at base t = Inr (length K, t1)" "tab t1 (K @ S)"
    using tab_split_at [OF t(1) _ xs(2,3) KS] room by auto
  have lt: "mi_addr e < base" if "e \<in> set K" for e using that p(10) by (auto dest: set_takeWhileD)
  have hd1: "mi_addr (hd (K @ S)) \<le> base + num" using p(8) xs(5) by simp
  obtain KR R2 where KR: "split_list (base + num) (K @ S) = (KR, R2)" by (cases "split_list (base + num) (K @ S)")
  note q = split_list_parts [OF KR p(1,7) hd1]
  define R where "R = takeWhile (\<lambda>e. mi_addr e < base + num) S"
  have KR_eq: "KR = K @ R" unfolding q(10) R_def by (intro takeWhile_append2) (auto dest: lt)
  obtain s S' where s: "S = s # S'" using p(3) by (cases S) auto
  then have R: "R \<noteq> []" "hd R = s" "mi_addr s = base" using p(4) num by (auto simp: R_def)
  obtain t2 where t2: "meminfo_split_at (base + num) t1 = Inr (length K + length R, t2)" "tab t2 (K @ R @ R2)"
    using tab_split_at [OF t1(2) _ p(7) hd1 KR] p(9) room KR_eq by auto
  have at: "mi_addr (mem_info_v t1 ! length K) = base" "mi_addr (mem_info_v t2 ! length K) = base"
    using tab_entry(1) [OF t1(2), of "length K"] tab_entry(1) [OF t2(2), of "length K"] s R by (cases R; simp)+
  have at2: "mi_addr (mem_info_v t2 ! (length K + length R)) = base + num"
    using tab_entry(1) [OF t2(2), of "length K + length R"] q(3,4) by (cases R2) (auto simp: nth_append)
  have "differ S" and dK: "differ K" using p(6) xs(4) by blast+
  from this(1) have dR: "differ R" unfolding R_def by (metis differ_append takeWhile_dropWhile_id)
  have d2: "differ R2" using split_list_differ [of "base + num" K S R R2] KR KR_eq R(1) \<open>differ S\<close> by simp
  have a: "by_addr (K @ R @ R2)" using q(1) KR_eq by simp
  have m: "mem_type (K @ R @ R2) = mem_type xs" using q(2) p(2) KR_eq by simp
  have l: "mi_type (last R2) = mi_type (last xs)" using q(5) p(3,5) by simp
  have h: "mi_addr (hd (K @ R @ R2)) = 0" "mi_addr (hd R) = base" using q(8) p(8) xs(5) KR_eq R by simp_all
  show ?thesis by (rule that [OF t1(1) at(1) t2(1) at(2) at2 t2(2) a dK dR d2 R(1) q(3) l m h q(4)])
qed

text \<open>C11: \<^verbatim>\<open>mem_install\<close> of a range raises the type of exactly the addresses in the range to at least the new type, keeps the table in
  its normal form (sorted, starting at address 0, neighbours of different types) and trips no assertion. The
  table must have two free slots, the range must end below \<open>2 ^ 64\<close>, and the last entry must not have the new type.\<close>

theorem mem_install_correct:
  assumes "meminfo_wf t" "mem_info_c t + 2 \<le> MEMINFO_MAXCOUNT" "base + num < 2 ^ 64" "mi_type (last (mem_entries t)) \<noteq> type"
  shows "\<exists>t'. mem_install base num type t = Inr t' \<and> meminfo_wf t' \<and>
     (\<forall>a. memtype_at t' a = (if base \<le> a \<and> a < base + num then max type (memtype_at t a) else memtype_at t a))"
proof (cases "num = 0")
  case True
  then show ?thesis using assms(1) by (simp add: mem_install_def)
next
  case False
  have t: "tab t (mem_entries t)" "table_wf (mem_entries t)" "length (mem_entries t) + 2 \<le> MEMINFO_MAXCOUNT"
    using assms(1,2) tab_entries(2) by (auto simp: meminfo_wf_def mem_entries_def)
  obtain t1 t2 K R R2 where s: "meminfo_split_at base t = Inr (length K, t1)" "mi_addr (mem_info_v t1 ! length K) = base"
    "meminfo_split_at (base + num) t1 = Inr (length K + length R, t2)"
    "mi_addr (mem_info_v t2 ! length K) = base" "mi_addr (mem_info_v t2 ! (length K + length R)) = base + num"
    and p: "tab t2 (K @ R @ R2)" "by_addr (K @ R @ R2)" "differ K" "differ R" "differ R2" "R \<noteq> []" "R2 \<noteq> []"
    and m: "mi_type (last R2) = mi_type (last (mem_entries t))" "mem_type (K @ R @ R2) = mem_type (mem_entries t)" "mi_addr (hd (K @ R @ R2)) = 0"
    "mi_addr (hd R) = base" "mi_addr (hd R2) = base + num"
    by (rule split_range [OF t, of num base]) (use False in simp)
  have "mi_type (last R2) \<noteq> type" using m(1) assms(4) by simp
  then obtain t' zs where zs: "rbind (install_loop type (length K) (int (length K + length R)) t2)
       (\<lambda>(stop, t). rbind (merge_stop stop t) (meminfo_merge_with_prev (length K))) = Inr t'"
     "tab t' zs" "zs \<noteq> []" "differ zs" "by_addr zs" "mem_type zs = mem_type (K @ map (raise_type type) R @ R2)" "mi_addr (hd zs) = 0"
    using tab_install_range [OF p, of type] m(3) by auto
  have "mem_install base num type t = Inr t'" using False assms(3) s p(6) zs(1) by (simp add: mem_install_def Let_def)
  moreover have "meminfo_wf t'" using tab_wf [OF zs(2)] zs(3,4,5,7) by (simp add: table_wf_def)
  moreover have "memtype_at t' a = (if base \<le> a \<and> a < base + num then max type (memtype_at t a) else memtype_at t a)" for a
    using mem_type_raise [OF p(2,6,7), of type a] zs(2,6) m tab_entries(1) by (simp add: memtype_at_def)
  ultimately show ?thesis by blast
qed

section \<open>Installing the type of the last entry\<close>

lemma split_at_end:
  assumes "tab t xs" "xs \<noteq> []" "\<forall>e \<in> set xs. mi_addr e < addr" "mem_info_v t = xs @ s # stale"
  shows "meminfo_split_at addr t =
     Inr (length xs, \<lparr>mem_info_v = xs @ \<lparr>mi_type = mi_type (last xs), mi_addr = addr\<rparr> # stale, mem_info_c = Suc (length xs)\<rparr>)"
proof -
  have c: "mem_info_c t = length xs" "take (mem_info_c t) (mem_info_v t) = xs" "length xs \<noteq> MEMINFO_MAXCOUNT"
    using assms(1,4) by (auto simp: tab_def)
  have all: "takeWhile (\<lambda>e. mi_addr e < addr) xs = xs" using assms(3) by (simp add: takeWhile_eq_all_conv)
  have "slot_type t (length xs - 1) = mi_type (last xs)" using tab_prev_type [of t xs "[]"] assms(1,2) by simp
  then show ?thesis
    unfolding meminfo_split_at_def Let_def split_iter c(2) all using c(1,3) assms(4) by (simp add: set_slot_def list_update_append)
qed

text \<open>The loop deletes both entries that were added, so that \<^verbatim>\<open>start\<close> is no longer in use.\<close>

lemma install_loop_end:
  fixes stale :: "meminfo list"
  assumes xs: "xs \<noteq> []" "mi_type (last xs) = type" and n: "mi_type n1 = type" "mi_type n2 = type"
  defines "t2 \<equiv> \<lparr>mem_info_v = xs @ n1 # n2 # stale, mem_info_c = Suc (Suc (length xs))\<rparr>"
  shows "install_loop type (length xs) (int (Suc (length xs))) t2 =
     Inr (int (length xs) - 1, \<lparr>mem_info_v = xs @ n2 # n2 # stale, mem_info_c = length xs\<rparr>)"
proof -
  let ?k = "length xs"
  have prev: "(xs @ ys) ! (?k - 1) = last xs" for ys using xs(1) by (simp add: last_conv_nth nth_append)
  have "(xs @ n1 # n2 # stale)[?k := n1\<lparr>mi_type := type\<rparr>] = xs @ n1 # n2 # stale" using n(1) by (cases n1) simp
  then have set: "set_slot ?k ((mem_info_v t2 ! ?k)\<lparr>mi_type := type\<rparr>) t2 = t2" by (simp add: set_slot_def t2_def)
  let ?t3 = "\<lparr>mem_info_v = xs @ n2 # n2 # stale, mem_info_c = Suc ?k\<rparr>" and ?t4 = "\<lparr>mem_info_v = xs @ n2 # n2 # stale, mem_info_c = ?k\<rparr>"
  have d: "MEMINFO_DELETE ?k t2 = Inr ?t3" "MEMINFO_DELETE ?k ?t3 = Inr ?t4" by (simp_all add: MEMINFO_DELETE_def Let_def t2_def)
  have "merge_next (?k - 1) type ?t4 = Inr (0, ?t4)" by (subst merge_next.simps) (simp add: MEMINFO_HASNEXT_def)
  moreover have "Suc (?k - 1) = ?k" "?k - 1 \<noteq> ?k" using xs(1) by (cases xs; simp)+
  ultimately have "merge_next (?k - 1) type ?t3 = Inr (1, ?t4)"
    using d(2) n(2) xs(1) by (subst merge_next.simps) (simp add: MEMINFO_HASNEXT_def slot_type_def)
  then have "merge_slot ?k type t2 = Inr (?k - 1, 2, ?t4)"
    using d(1) xs prev by (simp add: merge_slot_def MEMINFO_HASPREV_def slot_type_def t2_def)
  moreover have "install_loop type ?k (int ?k - 1) ?t4 = Inr (int ?k - 1, ?t4)" by (subst install_loop.simps) simp
  ultimately show ?thesis using set n(1) xs(1)
    by (subst install_loop.simps) (simp add: slot_type_def t2_def)
qed

text \<open>\<^verbatim>\<open>mem_install\<close> of a range within the memory of the last entry, with the type that this memory already has, ends in a
  \<^verbatim>\<open>memmove\<close> of almost the whole address space: the entry at \<^verbatim>\<open>start\<close> has already been merged away when it is merged once more.\<close>

theorem mem_install_last_type:
  assumes "meminfo_wf t" "mem_info_c t + 2 \<le> MEMINFO_MAXCOUNT" "0 < num" "base + num < 2 ^ 64"
    and "mi_type (last (mem_entries t)) = type" "mi_addr (last (mem_entries t)) < base"
  shows "mem_install base num type t = Inl E_SEGFAULT"
proof -
  define xs where "xs = mem_entries t"
  let ?k = "length xs" and ?n1 = "\<lparr>mi_type = type, mi_addr = base\<rparr>" and ?n2 = "\<lparr>mi_type = type, mi_addr = base + num\<rparr>"
  have t: "tab t xs" "xs \<noteq> []" "by_addr xs" "differ xs" using assms(1) tab_entries(2) by (auto simp: xs_def meminfo_wf_def table_wf_def)
  have xs: "mi_type (last xs) = type" "mi_addr (last xs) < base" using assms(5,6) by (simp_all add: xs_def)
  obtain X l where X: "xs = X @ [l]" using t(2) by (metis append_butlast_last_id)
  have below: "\<forall>e \<in> set xs. mi_addr e < base" using t(3) xs(2) X by (auto simp: sorted_wrt_append)
  obtain stale0 where v0: "mem_info_v t = xs @ stale0" using tab_split [of t xs "[]"] t(1) by auto
  have "2 \<le> length stale0" using v0 assms(2) t(1) by (simp add: tab_def)
  then obtain s0 s1 stale where v: "mem_info_v t = xs @ s0 # s1 # stale" using v0 by (cases stale0; cases "tl stale0") auto
  let ?t1 = "\<lparr>mem_info_v = xs @ ?n1 # s1 # stale, mem_info_c = Suc ?k\<rparr>"
  have s1: "meminfo_split_at base t = Inr (?k, ?t1)" using split_at_end [OF t(1,2) below v] xs by simp
  have "tab ?t1 (xs @ [?n1])" using t(1) v by (simp add: tab_def)
  moreover have "\<forall>e \<in> set (xs @ [?n1]). mi_addr e < base + num" using below assms(3) by auto
  ultimately have s2: "meminfo_split_at (base + num) ?t1 = Inr (Suc ?k, \<lparr>mem_info_v = xs @ ?n1 # ?n2 # stale, mem_info_c = Suc (Suc ?k)\<rparr>)"
    using split_at_end [of ?t1 "xs @ [?n1]" "base + num" s1 stale] by simp
  let ?t4 = "\<lparr>mem_info_v = xs @ ?n2 # ?n2 # stale, mem_info_c = ?k\<rparr>"
  have l: "install_loop type ?k (int (Suc ?k)) \<lparr>mem_info_v = xs @ ?n1 # ?n2 # stale, mem_info_c = Suc (Suc ?k)\<rparr> = Inr (int ?k - 1, ?t4)"
    using install_loop_end [of xs type ?n1 ?n2 stale] t(2) xs(1) by simp
  have "X \<noteq> [] \<Longrightarrow> mi_type (last X) \<noteq> mi_type l" using t(4) X by (simp add: differ_append)
  then have m: "merge_stop (int ?k - 1) ?t4 = Inr ?t4"
    by (cases "X = []") (auto simp: merge_stop_def meminfo_merge_with_prev_def X MEMINFO_HASPREV_def slot_type_def nth_append last_conv_nth)
  have "meminfo_merge_with_prev ?k ?t4 = Inl E_SEGFAULT"
    using xs(1) X by (simp add: meminfo_merge_with_prev_def MEMINFO_HASPREV_def slot_type_def nth_append MEMINFO_DELETE_def)
  then show ?thesis using assms(3,4) s1 s2 l m by (simp add: mem_install_def Let_def nth_append)
qed

section \<open>Releasing preserved memory\<close>

text \<open>Preserved memory of whole pages, with more pages below it than it has itself.\<close>

definition high_preserved :: "meminfo \<Rightarrow> meminfo \<Rightarrow> bool" where
  "high_preserved e e' \<longleftrightarrow> 4096 dvd mi_addr e \<and> 4096 dvd mi_addr e' \<and> mi_addr e < mi_addr e' \<and> mi_addr e' < 2 * mi_addr e \<and> mi_addr e' \<le> 2 ^ 44"

lemma page_free_wraps: "0 < s \<Longrightarrow> s < b \<Longrightarrow> b < 2 ^ 32 \<Longrightarrow>
    page_free b ((4096 * s + 2 ^ 64 - 4096 * b) mod 2 ^ 64 div 4096 mod 2 ^ 32) zones = Inl E_ASSERT"
proof -
  assume s: "0 < s" "s < b" "b < 2 ^ 32"
  have "4096 * s + 2 ^ 64 - 4096 * b = 4096 * (2 ^ 52 - (b - s))" using s by (simp add: algebra_simps)
  moreover have "4096 * (2 ^ 52 - (b - s)) < 2 ^ 64" using s by simp
  ultimately have "(4096 * s + 2 ^ 64 - 4096 * b) mod 2 ^ 64 div 4096 = 2 ^ 52 - (b - s)" by simp
  also have "2 ^ 52 - (b - s) = (2 ^ 32 - (b - s)) + (2 ^ 20 - 1) * 2 ^ 32" using s by simp
  also have "\<dots> mod 2 ^ 32 = 2 ^ 32 - (b - s)" using s by (subst mod_mult_self1) simp
  finally have n: "(4096 * s + 2 ^ 64 - 4096 * b) mod 2 ^ 64 div 4096 mod 2 ^ 32 = 2 ^ 32 - (b - s)" .
  have "(b + (2 ^ 32 - (b - s))) = s + 2 ^ 32" using s by simp
  then have "(b + (2 ^ 32 - (b - s))) mod 2 ^ 32 = s" using s by simp
  then show ?thesis unfolding n using s by (simp add: page_free_def)
qed

lemma free_preserved_asserts:
  assumes t: "tab t (L @ e # e' # R)" and h: "high_preserved e e'"
  shows "free_preserved (length L) t zones = Inl E_ASSERT"
proof -
  obtain b c where b: "mi_addr e = 4096 * b" "mi_addr e' = 4096 * c" using h by (auto simp: high_preserved_def elim!: dvdE)
  have bc: "b < c" "c < 2 * b" "c \<le> 2 ^ 32" using h b by (auto simp: high_preserved_def)
  have "mem_info_v t ! length L = e" "mem_info_v t ! Suc (length L) = e'"
    using tab_entry(1) [OF t, of "length L"] tab_entry(1) [OF t, of "Suc (length L)"] by (simp_all add: nth_append)
  moreover have "MEMINFO_HASNEXT (length L) t" using t by (simp add: tab_def MEMINFO_HASNEXT_def)
  moreover have "CEIL_ALIGN (4096 * b) = 4096 * b" "FLOOR_ALIGN (4096 * c) = 4096 * c" using bc by (simp_all add: CEIL_ALIGN_def FLOOR_ALIGN_def)
  moreover have "4096 * c - 4096 * b = 4096 * (c - b)" by (simp add: diff_mult_distrib2)
  moreover have "page_free b ((4096 * (c - b) + 2 ^ 64 - 4096 * b) mod 2 ^ 64 div 4096 mod 2 ^ 32) zones = Inl E_ASSERT"
    using bc by (intro page_free_wraps) auto
  moreover have "4096 * b div 4096 mod 2 ^ 32 = b" using bc by simp
  ultimately show ?thesis using bc(1) b unfolding free_preserved_def MEMINFO_END_def Let_def by (simp only: if_True mult_less_cancel1) simp
qed

lemma butlast_suffix: "x \<in> set (butlast (D @ S)) \<Longrightarrow> x \<notin> set D \<Longrightarrow> x \<in> set (butlast S)"
  by (auto simp: butlast_append split: if_splits dest: in_set_butlastD)

lemma unpreserve_loop_asserts:
  assumes "tab t (L @ R)" "successively (\<lambda>e e'. mi_type e = MEMTYPE_PRESERVE \<longrightarrow> high_preserved e e') R"
    and "\<exists>e \<in> set (butlast R). mi_type e = MEMTYPE_PRESERVE"
  shows "unpreserve_loop (length L) t zones = Inl E_ASSERT"
  using assms
proof (induction "length R" arbitrary: t L R rule: less_induct)
  case less
  obtain e e' R' where R: "R = e # e' # R'" using less(4) by (cases R; cases "tl R") auto
  have t: "tab t (L @ e # e' # R')" using less(2) R by simp
  have c: "\<not> mem_info_c t \<le> length L" "slot_type t (length L) = mi_type e" using tab_slot_type [OF t] t by (auto simp: tab_def)
  have tl: "successively (\<lambda>e e'. mi_type e = MEMTYPE_PRESERVE \<longrightarrow> high_preserved e e') (e' # R')" using less(3) R by simp
  consider (preserve) "mi_type e = MEMTYPE_PRESERVE" | (alloc) "mi_type e = MEMTYPE_ALLOCATED"
    | (other) "mi_type e \<noteq> MEMTYPE_PRESERVE" "mi_type e \<noteq> MEMTYPE_ALLOCATED" by blast
  then show ?case
  proof cases
    case preserve
    then have "high_preserved e e'" using less(3) R by simp
    from free_preserved_asserts [OF t this] show ?thesis using c preserve by (subst unpreserve_loop.simps) (simp add: MEMTYPE_defs)
  next
    case other
    then have "unpreserve_loop (length (L @ [e])) t zones = Inl E_ASSERT"
      using less(1) [of "e' # R'" t "L @ [e]"] less(4) t tl R by simp
    then show ?thesis using c other by (subst unpreserve_loop.simps) simp
  next
    case alloc
    let ?e = "e\<lparr>mi_type := MEMTYPE_RAM\<rparr>" and ?same = "\<lambda>x. mi_type x = MEMTYPE_RAM"
    let ?R = "dropWhile ?same (e' # R')"
    have "mem_info_v t ! length L = e" using tab_entry(1) [OF t, of "length L"] by simp
    then have "tab (set_slot (length L) ((mem_info_v t ! length L)\<lparr>mi_type := MEMTYPE_RAM\<rparr>) t) (L @ ?e # e' # R')"
      using tab_set_slot [OF t] by simp
    from tab_merge_slot [OF this] obtain n t' where
      m: "merge_slot (length L) MEMTYPE_RAM (set_slot (length L) ((mem_info_v t ! length L)\<lparr>mi_type := MEMTYPE_RAM\<rparr>) t) = Inr (length (push L ?e) - 1, n, t')"
        "tab t' (push L ?e @ ?R)" by auto
    have "Suc (length (push L ?e) - 1) = length (push L ?e)" by (simp add: push_def)
    then have run: "unpreserve_loop (length L) t zones = unpreserve_loop (length (push L ?e)) t' zones"
      using c alloc m(1) by (subst unpreserve_loop.simps) (simp add: MEMTYPE_defs)
    obtain x where x: "x \<in> set (butlast (e' # R'))" "mi_type x = MEMTYPE_PRESERVE" using less(4) R alloc by (auto simp: MEMTYPE_defs)
    define D where "D = takeWhile ?same (e' # R')"
    define S where "S = ?R"
    have split: "e' # R' = D @ S" by (simp add: D_def S_def)
    have D: "x \<notin> set D" using x(2) unfolding D_def by (auto dest!: set_takeWhileD simp: MEMTYPE_defs)
    have "x \<in> set (butlast (D @ S))" using x(1) by (simp only: split)
    from butlast_suffix [OF this D] have "x \<in> set (butlast S)" .
    moreover have "successively (\<lambda>e e'. mi_type e = MEMTYPE_PRESERVE \<longrightarrow> high_preserved e e') S"
      using tl unfolding split successively_append_iff by blast
    moreover have "length S < length R" using length_dropWhile_le [of ?same "e' # R'"] R by (simp add: S_def)
    ultimately show ?thesis unfolding run using less(1) [of S t' "push L ?e"] m(2) [folded S_def] x(2) by blast
  qed
qed

text \<open>If all preserved memory consists of whole pages, and lies above an address that is larger than its size, then
  \<^verbatim>\<open>mem_unpreserve\<close> trips the assertion of \<^verbatim>\<open>page_free\<close>: the start is subtracted from the end twice, and the number of pages wraps around.\<close>

theorem mem_unpreserve_asserts:
  assumes "meminfo_wf t" "successively (\<lambda>e e'. mi_type e = MEMTYPE_PRESERVE \<longrightarrow> high_preserved e e') (mem_entries t)"
    and "\<exists>e \<in> set (butlast (mem_entries t)). mi_type e = MEMTYPE_PRESERVE"
  shows "mem_unpreserve t zones = Inl E_ASSERT"
  using unpreserve_loop_asserts [of t "[]" "mem_entries t" zones] tab_entries(2) [OF assms(1)] assms(2,3) by (simp add: mem_unpreserve_def)

section \<open>A table\<close>

definition boot_table :: meminfo_table where
  "boot_table =
     \<lparr>mem_info_v = [\<lparr>mi_type = MEMTYPE_ALLOCATED, mi_addr = 0\<rparr>, \<lparr>mi_type = MEMTYPE_RAM, mi_addr = 0x1000\<rparr>,
        \<lparr>mi_type = MEMTYPE_PRESERVE, mi_addr = 0x9000\<rparr>, \<lparr>mi_type = MEMTYPE_NDEF, mi_addr = 0xb000\<rparr>] @
        replicate (MEMINFO_MAXCOUNT - 4) \<lparr>mi_type = MEMTYPE_NDEF, mi_addr = 0\<rparr>, mem_info_c = 4\<rparr>"

lemma boot_table_entries: "mem_entries boot_table = [\<lparr>mi_type = MEMTYPE_ALLOCATED, mi_addr = 0\<rparr>, \<lparr>mi_type = MEMTYPE_RAM, mi_addr = 0x1000\<rparr>,
        \<lparr>mi_type = MEMTYPE_PRESERVE, mi_addr = 0x9000\<rparr>, \<lparr>mi_type = MEMTYPE_NDEF, mi_addr = 0xb000\<rparr>]"
  by (simp add: mem_entries_def boot_table_def)

lemma boot_table_wf: "meminfo_wf boot_table" "mem_info_c boot_table + 2 \<le> MEMINFO_MAXCOUNT"
  by (simp_all add: meminfo_wf_def boot_table_entries table_wf_def MEMTYPE_defs) (simp_all add: boot_table_def MEMINFO_MAXCOUNT_def)

theorem mem_install_correct_witness:
  "\<exists>t. mem_install 0xa0000 0x60000 7 boot_table = Inr t \<and> meminfo_wf t \<and> memtype_at t 0xfffff = 7 \<and> memtype_at t 0x9001 = MEMTYPE_PRESERVE"
proof -
  have "mi_type (last (mem_entries boot_table)) \<noteq> 7" by (simp add: boot_table_entries MEMTYPE_defs)
  moreover have "memtype_at boot_table 0xfffff = 0" "memtype_at boot_table 0x9001 = MEMTYPE_PRESERVE"
    by (simp_all add: memtype_at_def mem_type_def boot_table_entries MEMTYPE_defs)
  ultimately show ?thesis using mem_install_correct [OF boot_table_wf, of "0xa0000" "0x60000" 7] by auto
qed

theorem mem_install_last_type_witness: "mem_install 0xe0000 0x20000 MEMTYPE_NDEF boot_table = Inl E_SEGFAULT"
  using mem_install_last_type [OF boot_table_wf, of "0x20000" "0xe0000" MEMTYPE_NDEF] by (simp add: boot_table_entries)

theorem mem_unpreserve_asserts_witness: "mem_unpreserve boot_table [] = Inl E_ASSERT"
  by (rule mem_unpreserve_asserts [OF boot_table_wf(1)]) (simp_all add: boot_table_entries high_preserved_def MEMTYPE_defs)

end
