(* ===== verification/Unicode.thy ===== *)
theory Unicode
  imports Prelude
begin

text \<open>
  The conversions between UTF-8, UTF-16 and UTF-32 of \<^verbatim>\<open>src/libs/libc/unicode.c\<close>, with the shift state
  \<^verbatim>\<open>mbstate_t\<close> of \<^verbatim>\<open>include/bits-generic/mbstate.h\<close> and the mode flags of \<^verbatim>\<open>include/unicode.h\<close>.

  The source text is the list of the units from \<^verbatim>\<open>src\<close> to \<^verbatim>\<open>src_end\<close>, the target buffer the list of the units in its memory;
  the \<^verbatim>\<open>buflen\<close> argument is a number of its own, and a store behind the end of the memory is an error. Each conversion loop of the source is a step function, which does one turn and says by a
  constructor of \<open>ctl\<close> which label of the source is next, and a recursion over the steps. \<^verbatim>\<open>result\<close> is a natural number:
  a text whose conversion takes \<open>2 ^ 32\<close> units or more, so that \<^verbatim>\<open>size_t\<close> wraps, is outside of the model.
\<close>

section \<open>Mode flags and the shift state\<close>

definition UNICODE_F_NOZEROTERM :: "32 word" where "UNICODE_F_NOZEROTERM = 0x0001"
definition UNICODE_F_ALWAYSZEROTERM :: "32 word" where "UNICODE_F_ALWAYSZEROTERM = 0x0002"
definition UNICODE_F_STOPONNUL :: "32 word" where "UNICODE_F_STOPONNUL = 0x0004"
definition UNICODE_F_DOSINGLE :: "32 word" where "UNICODE_F_DOSINGLE = 0x0008"
definition UNICODE_F_UPDATESRC :: "32 word" where "UNICODE_F_UPDATESRC = 0x0020"
definition UNICODE_F_SETERRNO :: "32 word" where "UNICODE_F_SETERRNO = 0x0040"
definition UNICODE_F_NOFAIL :: "32 word" where "UNICODE_F_NOFAIL = 0x0080"
definition UNICODE_F_BUFERROR :: "32 word" where "UNICODE_F_BUFERROR = 0x0100"
definition UNICODE_F_EXCEPT :: "32 word" where "UNICODE_F_EXCEPT = 0x8000"

definition flag :: "32 word \<Rightarrow> 32 word \<Rightarrow> bool" where
  "flag mode f \<longleftrightarrow> mode AND f \<noteq> 0"

text \<open>The character \<^verbatim>\<open>'?'\<close> for what cannot be converted.\<close>

definition UNICODE_REPLACEMENT :: "32 word" where
  "UNICODE_REPLACEMENT = 0x3f"

text \<open>
  The shift state is a union of four bytes: the little-endian word as a whole, its low half \<^verbatim>\<open>__word16\<close>, and three
  bytes \<^verbatim>\<open>__chars\<close> with the byte \<^verbatim>\<open>__count\<close> on top.
\<close>

type_synonym mbstate = "32 word"

definition mb_count :: "mbstate \<Rightarrow> nat" where
  "mb_count s = unat (drop_bit 24 s)"

definition mb_set_count :: "mbstate \<Rightarrow> nat \<Rightarrow> mbstate" where
  "mb_set_count s n = (s AND 0xffffff) OR push_bit 24 (of_nat n)"

definition mb_word24 :: "mbstate \<Rightarrow> 32 word" where
  "mb_word24 s = s AND 0xffffff"

definition mb_word16 :: "mbstate \<Rightarrow> 16 word" where
  "mb_word16 s = ucast s"

definition mb_set_word16 :: "mbstate \<Rightarrow> 16 word \<Rightarrow> mbstate" where
  "mb_set_word16 s w = (s AND 0xffff0000) OR ucast w"

definition mb_bytes :: "mbstate \<Rightarrow> byte list" where
  "mb_bytes s = map (\<lambda>i. ucast (drop_bit (8 * i) s)) [0, 1, 2, 3]"

text \<open>The word that four bytes make up; of a shorter \<^verbatim>\<open>temp\<close> the last bytes are not initialised, and taken as 0 here.
  \<^verbatim>\<open>__count\<close> tells the reader of the shift state to leave them alone.\<close>

fun mb_of_bytes :: "byte list \<Rightarrow> mbstate" where
  "mb_of_bytes [] = 0"
| "mb_of_bytes (b # bs) = ucast b OR push_bit 8 (mb_of_bytes bs)"

section \<open>The target of a conversion\<close>

text \<open>The memory of the target, its length as the caller gave it, the value of \<^verbatim>\<open>result\<close>, the shift state, and whether a store went
  past the end of the memory.\<close>

record 'd sink =
  sk_dst :: "'d list"
  sk_len :: nat
  sk_result :: nat
  sk_state :: mbstate
  sk_fault :: bool

text \<open>\<open>Next\<close> is the next turn of the loop, \<open>Break\<close> its end, \<open>Done\<close> and \<open>Done_Update\<close> are the labels behind the code that
  writes the terminating NUL, and \<open>Error\<close> is a malformed sequence that is not replaced.\<close>

datatype ('s, 'k) ctl =
    Next "'s list" 'k
  | Break "'s list" 'k
  | Done "'s list" 'k
  | Done_Update "'s list" 'k
  | Error 'k

datatype errno = EILSEQ | ERANGE

datatype uret = Ret nat | UNICODE_ERROR "errno option"

text \<open>A store at the index \<^verbatim>\<open>result\<close>; behind the end of the memory it is a fault, which ends the call with \<open>E_SEGFAULT\<close>.\<close>

definition store_unit :: "'d \<Rightarrow> 'd sink \<Rightarrow> 'd sink" where
  "store_unit c k =
     (if sk_result k < length (sk_dst k) then k\<lparr>sk_dst := (sk_dst k)[sk_result k := c]\<rparr> else k\<lparr>sk_fault := True\<rparr>)"

definition put1 :: "'d \<Rightarrow> 'd sink \<Rightarrow> 'd sink" where
  "put1 c k = (let k = (if sk_result k < sk_len k then store_unit c k else k) in k\<lparr>sk_result := sk_result k + 1\<rparr>)"

definition unless_fault :: "'d sink \<Rightarrow> 'a result \<Rightarrow> 'a result" where
  "unless_fault k r = (if sk_fault k then Inl E_SEGFAULT else r)"

definition conv_done :: "32 word \<Rightarrow> 's list \<Rightarrow> mbstate \<Rightarrow> 's list \<Rightarrow> 'd sink \<Rightarrow> (uret \<times> 's list \<times> 'd sink) result" where
  "conv_done mode src0 orig src k = unless_fault k
     (if flag mode UNICODE_F_UPDATESRC then Inr (Ret (sk_result k), src, k)
      else if sk_result k > sk_len k then
        (if flag mode UNICODE_F_BUFERROR then
           (if flag mode UNICODE_F_EXCEPT then Inl E_BUFFER_TOO_SMALL
            else Inr (UNICODE_ERROR (Some ERANGE), src0, k\<lparr>sk_state := orig\<rparr>))
         else Inr (Ret (sk_result k), src0, k\<lparr>sk_state := orig\<rparr>))
      else Inr (Ret (sk_result k), src0, k))"

text \<open>What is behind the conversion loop: the source arguments are changed only by a call that updates them and
  succeeds.\<close>

definition conv_return :: "32 word \<Rightarrow> 's list \<Rightarrow> mbstate \<Rightarrow> ('s, 'd :: zero sink) ctl \<Rightarrow> (uret \<times> 's list \<times> 'd sink) result" where
  "conv_return mode src0 orig x =
     (let terminated = \<lambda>k. if flag mode UNICODE_F_NOZEROTERM then k else put1 0 k in
      case x of
        Next src k \<Rightarrow> conv_done mode src0 orig src (terminated k)
      | Break src k \<Rightarrow> conv_done mode src0 orig src (terminated k)
      | Done src k \<Rightarrow> conv_done mode src0 orig src k
      | Done_Update src k \<Rightarrow> unless_fault k (Inr (Ret (sk_result k), src, k))
      | Error k \<Rightarrow> unless_fault k
          (if flag mode UNICODE_F_SETERRNO then
             (if flag mode UNICODE_F_EXCEPT then Inl E_UNICODE_ERROR else Inr (UNICODE_ERROR (Some EILSEQ), src0, k))
           else Inr (UNICODE_ERROR None, src0, k)))"

section \<open>From UTF-8\<close>

definition utf8_sequence_len :: "nat list" where
  "utf8_sequence_len = replicate 128 1 @ replicate 64 0 @ replicate 32 2 @ replicate 16 3 @ replicate 8 4 @ replicate 8 0"

definition utf8_offset :: "32 word list" where
  "utf8_offset = [0x00, 0xc0, 0xe0, 0xf0]"

text \<open>\<open>put\<close> below is the code at the label \<^verbatim>\<open>put_char\<close>, in which alone \<^verbatim>\<open>libc_utf8to32\<close> and \<^verbatim>\<open>libc_utf8to16\<close> differ. It
  returns false when the source goes on at \<^verbatim>\<open>done_update_src\<close>.\<close>

type_synonym 'd putter = "32 word \<Rightarrow> 'd sink \<Rightarrow> bool \<times> 'd sink"

definition put_char32 :: "(32 word) putter" where
  "put_char32 ch k = (True, put1 ch k)"

definition UNI_SURROGATE_HIGH_BEGIN :: "32 word" where "UNI_SURROGATE_HIGH_BEGIN = 0xd800"
definition UNI_SURROGATE_LOW_BEGIN :: "32 word" where "UNI_SURROGATE_LOW_BEGIN = 0xdc00"
definition UNI_SURROGATE_LOW_END :: "32 word" where "UNI_SURROGATE_LOW_END = 0xdfff"

definition put_char16 :: "32 word \<Rightarrow> (16 word) putter" where
  "put_char16 mode ch k =
     (if ch \<le> 0xffff then (True, put1 (ucast ch) k)
      else
        let ch = ch - 0x10000;
            high = ucast (UNI_SURROGATE_HIGH_BEGIN OR drop_bit 10 ch);
            low = ucast (UNI_SURROGATE_LOW_BEGIN OR (ch AND 0x3ff));
            k = put1 high k
        in if sk_result k < sk_len k then (True, put1 low k)
           else if flag mode UNICODE_F_UPDATESRC
           then (False, k\<lparr>sk_state := mb_set_count (mb_set_word16 (sk_state k) low) 0x80\<rparr>)
           else (True, put1 low k))"

definition put_char :: "'d putter \<Rightarrow> 32 word \<Rightarrow> 32 word \<Rightarrow> byte list \<Rightarrow> 'd sink \<Rightarrow> (byte, 'd sink) ctl" where
  "put_char put mode ch src k =
     (let (ok, k) = put ch k in
      if \<not> ok then Done_Update src k else if flag mode UNICODE_F_DOSINGLE then Break src k else Next src k)"

definition utf8_error :: "'d putter \<Rightarrow> 32 word \<Rightarrow> byte list \<Rightarrow> 'd sink \<Rightarrow> (byte, 'd sink) ctl" where
  "utf8_error put mode src k =
     (if flag mode UNICODE_F_NOFAIL then put_char put mode UNICODE_REPLACEMENT src k else Error k)"

text \<open>The source text ends inside of a sequence: \<open>n\<close> bytes of it are in \<open>ch\<close>, which the shift state keeps.\<close>

definition need_more :: "32 word \<Rightarrow> 32 word \<Rightarrow> nat \<Rightarrow> byte list \<Rightarrow> 'd :: zero sink \<Rightarrow> (byte, 'd sink) ctl" where
  "need_more mode ch n src k =
     (let k = k\<lparr>sk_state := mb_set_count ch n\<rparr> in
      Done src (if flag mode UNICODE_F_ALWAYSZEROTERM then put1 0 k else k))"

datatype seq =
    Complete "32 word" "byte list"
  | More "32 word" nat "byte list"
  | Malformed "byte list"

text \<open>The loops that read the bytes after the first: \<open>full\<close> says that the last byte must be left alone, and \<open>skip\<close> that a
  byte that does not fit is passed over, which only the second of the two loops does.\<close>

fun read_missing :: "bool \<Rightarrow> bool \<Rightarrow> nat \<Rightarrow> 32 word \<Rightarrow> byte list \<Rightarrow> seq" where
  "read_missing full skip 0 ch src = Complete ch src"
| "read_missing full skip (Suc m) ch [] = More ch (Suc m) []"
| "read_missing full skip (Suc m) ch (temp # src) =
     (if m = 0 \<and> full then More ch (Suc m) (temp # src)
      else if temp AND 0xc0 \<noteq> 0x80 then Malformed (if skip then src else temp # src)
      else read_missing full skip m (push_bit 6 ch OR ucast (temp AND 0x3f)) src)"

definition utf8_resume :: "'d putter \<Rightarrow> 32 word \<Rightarrow> byte list \<Rightarrow> 'd :: zero sink \<Rightarrow> (byte, 'd sink) ctl result" where
  "utf8_resume put mode src k =
     (let count = mb_count (sk_state k) in
      rassert (1 \<le> count \<and> count \<le> 3)
        (Inr (case read_missing (sk_len k = 0 \<and> flag mode UNICODE_F_UPDATESRC) False (4 - count) (mb_word24 (sk_state k)) src of
           More ch missing src \<Rightarrow> need_more mode ch (4 - missing) src k
         | Malformed src \<Rightarrow> utf8_error put mode src (k\<lparr>sk_state := 0\<rparr>)
         | Complete ch src \<Rightarrow> put_char put mode ch src (k\<lparr>sk_state := 0\<rparr>))))"

definition utf8_step :: "'d putter \<Rightarrow> 32 word \<Rightarrow> byte \<Rightarrow> byte list \<Rightarrow> 'd :: zero sink \<Rightarrow> (byte, 'd sink) ctl" where
  "utf8_step put mode b src k =
     (let ch = ucast b; seqlen = utf8_sequence_len ! unat b in
      if seqlen = 0 then utf8_error put mode src k
      else if ch = 0 \<and> flag mode UNICODE_F_STOPONNUL then Break (b # src) k
      else
        case read_missing (sk_len k \<le> sk_result k \<and> flag mode UNICODE_F_UPDATESRC) True
               (seqlen - 1) (ch - utf8_offset ! (seqlen - 1)) src of
          More ch missing src \<Rightarrow> need_more mode ch (seqlen - missing) src k
        | Malformed src \<Rightarrow> utf8_error put mode src k
        | Complete ch src \<Rightarrow> put_char put mode ch src k)"

lemma read_missing_length:
  "read_missing full skip m ch src = Complete ch' src' \<Longrightarrow> length src' \<le> length src"
  "read_missing full skip m ch src = Malformed src' \<Longrightarrow> length src' \<le> length src"
  by (induction full skip m ch src rule: read_missing.induct) (auto split: if_splits)

lemma put_char_Next: "put_char put mode ch src k = Next src' k' \<Longrightarrow> src' = src"
  by (auto simp: put_char_def split: prod.splits if_splits)

lemma utf8_error_Next: "utf8_error put mode src k = Next src' k' \<Longrightarrow> src' = src"
  by (auto simp: utf8_error_def put_char_Next split: if_splits)

lemma utf8_step_Next: "utf8_step put mode b src k = Next src' k' \<Longrightarrow> length src' \<le> length src"
  by (auto simp: utf8_step_def Let_def need_more_def split: if_splits seq.splits
      dest!: put_char_Next utf8_error_Next dest: read_missing_length)

function utf8_loop :: "'d putter \<Rightarrow> 32 word \<Rightarrow> byte list \<Rightarrow> 'd :: zero sink \<Rightarrow> (byte, 'd sink) ctl" where
  "utf8_loop put mode [] k = Break [] k"
| "utf8_loop put mode (b # src) k =
     (case utf8_step put mode b src k of Next src' k' \<Rightarrow> utf8_loop put mode src' k' | x \<Rightarrow> x)"
  by pat_completeness auto
termination
  by (relation "measure (\<lambda>(put, mode, src, k). length src)") (auto dest: utf8_step_Next)

text \<open>\<^verbatim>\<open>goto put_char\<close> enters the loop in the middle, and the loop goes on from there.\<close>

definition utf8_continue :: "'d putter \<Rightarrow> 32 word \<Rightarrow> (byte, 'd :: zero sink) ctl \<Rightarrow> (byte, 'd sink) ctl" where
  "utf8_continue put mode x = (case x of Next src k \<Rightarrow> utf8_loop put mode src k | y \<Rightarrow> y)"

definition libc_utf8to32 :: "byte list \<Rightarrow> 32 word list \<Rightarrow> nat \<Rightarrow> mbstate \<Rightarrow> 32 word \<Rightarrow> (uret \<times> byte list \<times> 32 word sink) result" where
  "libc_utf8to32 utf8 utf32 buflen32 state mode =
     (let k = \<lparr>sk_dst = utf32, sk_len = buflen32, sk_result = 0, sk_state = state, sk_fault = False\<rparr> in
      if drop_bit 24 state AND 0x7f \<noteq> 0
      then rbind (utf8_resume put_char32 mode utf8 k) (\<lambda>x. conv_return mode utf8 state (utf8_continue put_char32 mode x))
      else conv_return mode utf8 state (utf8_loop put_char32 mode utf8 k))"

definition libc_utf8to16 :: "byte list \<Rightarrow> 16 word list \<Rightarrow> nat \<Rightarrow> mbstate \<Rightarrow> 32 word \<Rightarrow> (uret \<times> byte list \<times> 16 word sink) result" where
  "libc_utf8to16 utf8 utf16 buflen16 state mode =
     (let k = \<lparr>sk_dst = utf16, sk_len = buflen16, sk_result = 0, sk_state = state, sk_fault = False\<rparr> in
      if mb_count state \<noteq> 0 then
        (if drop_bit 24 state AND 0x80 \<noteq> 0 then
           (if buflen16 = 0 \<and> flag mode UNICODE_F_UPDATESRC then Inr (Ret 0, utf8, k)
            else conv_return mode utf8 state
                   (utf8_loop (put_char16 mode) mode utf8 ((put1 (mb_word16 state) k)\<lparr>sk_state := 0\<rparr>)))
         else rbind (utf8_resume (put_char16 mode) mode utf8 k)
                (\<lambda>x. conv_return mode utf8 state (utf8_continue (put_char16 mode) mode x)))
      else conv_return mode utf8 state (utf8_loop (put_char16 mode) mode utf8 k))"

section \<open>To UTF-8\<close>

definition utf8_temp :: "32 word \<Rightarrow> byte list option" where
  "utf8_temp ch =
     (if ch < 0x800 then Some [ucast (0xc0 OR drop_bit 6 ch), ucast (0x80 OR (ch AND 0x3f))]
      else if ch < 0x10000 then
        Some [ucast (0xe0 OR drop_bit 12 ch), ucast (0x80 OR (drop_bit 6 ch AND 0x3f)), ucast (0x80 OR (ch AND 0x3f))]
      else if ch \<le> 0x10ffff then
        Some [ucast (0xe0 OR drop_bit 18 ch), ucast (0x80 OR (drop_bit 12 ch AND 0x3f)),
              ucast (0x80 OR (drop_bit 6 ch AND 0x3f)), ucast (0x80 OR (ch AND 0x3f))]
      else None)"

definition done_ch :: "32 word \<Rightarrow> 's list \<Rightarrow> byte sink \<Rightarrow> ('s, byte sink) ctl" where
  "done_ch mode src k = (if flag mode UNICODE_F_DOSINGLE then Break src k else Next src k)"

definition skip_zero :: "32 word \<Rightarrow> 'd sink \<Rightarrow> 'd sink" where
  "skip_zero mode k = (if flag mode UNICODE_F_ALWAYSZEROTERM then k\<lparr>sk_result := sk_result k + 1\<rparr> else k)"

definition put_char7 :: "32 word \<Rightarrow> 32 word \<Rightarrow> 's list \<Rightarrow> byte sink \<Rightarrow> ('s, byte sink) ctl" where
  "put_char7 mode ch src k =
     (if sk_len k \<le> sk_result k \<and> flag mode UNICODE_F_UPDATESRC
      then Done_Update src (skip_zero mode (k\<lparr>sk_state := mb_set_count ch 1\<rparr>))
      else done_ch mode src (put1 (ucast ch) k))"

definition encode_error :: "32 word \<Rightarrow> 's list \<Rightarrow> byte sink \<Rightarrow> ('s, byte sink) ctl" where
  "encode_error mode src k =
     (if flag mode UNICODE_F_NOFAIL then put_char7 mode UNICODE_REPLACEMENT src k else Error k)"

text \<open>The loop that writes the bytes of \<^verbatim>\<open>temp\<close>, of which the fourth argument are those that remain. Where not even the
  first of four bytes fits, the last unit of the source is put back (\<open>unread\<close>), and \<open>back\<close> is what the shift state gets.\<close>

primrec put_temp :: "32 word \<Rightarrow> (byte sink \<Rightarrow> byte sink) \<Rightarrow> byte list \<Rightarrow> byte list \<Rightarrow> 's list \<Rightarrow> 's list \<Rightarrow> byte sink \<Rightarrow> ('s, byte sink) ctl" where
  "put_temp mode back temp [] unread src k = done_ch mode src k"
| "put_temp mode back temp (t # ts) unread src k =
     (if sk_len k \<le> sk_result k \<and> flag mode UNICODE_F_UPDATESRC
      then let missing = length (t # ts); k = skip_zero mode k in
        if missing = 4 then Done_Update unread (back k)
        else Done_Update src (k\<lparr>sk_state := mb_set_count (mb_of_bytes temp) missing\<rparr>)
      else put_temp mode back temp ts unread src (put1 t k))"

definition put_utf8 :: "32 word \<Rightarrow> (byte sink \<Rightarrow> byte sink) \<Rightarrow> 32 word \<Rightarrow> 's list \<Rightarrow> 's list \<Rightarrow> byte sink \<Rightarrow> ('s, byte sink) ctl" where
  "put_utf8 mode back ch unread src k =
     (if ch < 0x80 then put_char7 mode ch src k
      else case utf8_temp ch of
        None \<Rightarrow> encode_error mode src k
      | Some temp \<Rightarrow> put_temp mode back temp temp unread src k)"

definition resume_bytes :: "byte sink \<Rightarrow> byte sink result" where
  "resume_bytes k =
     (let count = mb_count (sk_state k); n = min count (sk_len k) in
      if n > 4 \<or> n > length (sk_dst k) then Inl E_SEGFAULT
      else Inr (k\<lparr>sk_dst := take n (mb_bytes (sk_state k)) @ drop n (sk_dst k), sk_result := count, sk_state := 0\<rparr>))"

definition utf32_step :: "32 word \<Rightarrow> 32 word \<Rightarrow> 32 word list \<Rightarrow> byte sink \<Rightarrow> (32 word, byte sink) ctl" where
  "utf32_step mode ch src k =
     (if ch = 0 \<and> flag mode UNICODE_F_STOPONNUL then Break (ch # src) k
      else if UNI_SURROGATE_HIGH_BEGIN \<le> ch \<and> ch \<le> UNI_SURROGATE_LOW_END then encode_error mode src k
      else put_utf8 mode (\<lambda>k. k) ch (ch # src) src k)"

fun utf32_loop :: "32 word \<Rightarrow> 32 word list \<Rightarrow> byte sink \<Rightarrow> (32 word, byte sink) ctl" where
  "utf32_loop mode [] k = Break [] k"
| "utf32_loop mode (ch # src) k =
     (case utf32_step mode ch src k of Next _ k' \<Rightarrow> utf32_loop mode src k' | x \<Rightarrow> x)"

definition libc_utf32to8 :: "32 word list \<Rightarrow> byte list \<Rightarrow> nat \<Rightarrow> mbstate \<Rightarrow> 32 word \<Rightarrow> (uret \<times> 32 word list \<times> byte sink) result" where
  "libc_utf32to8 utf32 utf8 buflen8 state mode =
     (let k = \<lparr>sk_dst = utf8, sk_len = buflen8, sk_result = 0, sk_state = state, sk_fault = False\<rparr> in
      rbind (if drop_bit 24 state AND 0x7f \<noteq> 0 then resume_bytes k else Inr k)
        (\<lambda>k. conv_return mode utf32 state (utf32_loop mode utf32 k)))"

text \<open>The code at the label \<^verbatim>\<open>do_high_surrogate\<close>.\<close>

definition do_high_surrogate :: "32 word \<Rightarrow> 32 word \<Rightarrow> 16 word list \<Rightarrow> byte sink \<Rightarrow> (16 word, byte sink) ctl" where
  "do_high_surrogate mode ch src k =
     (case src of
        [] \<Rightarrow> Done [] (if flag mode UNICODE_F_UPDATESRC
                       then k\<lparr>sk_state := mb_set_count (mb_set_word16 (sk_state k) (ucast ch)) 0x80\<rparr> else k)
      | high # src' \<Rightarrow>
          if ucast high < UNI_SURROGATE_HIGH_BEGIN \<or> UNI_SURROGATE_LOW_END < ucast high then encode_error mode src' k
          else
            let ch = push_bit 10 ch OR (ucast high - UNI_SURROGATE_HIGH_BEGIN);
                back = \<lambda>k. if 0xffff < ch
                  then k\<lparr>sk_state := mb_set_count (mb_set_word16 (sk_state k) (ucast (drop_bit 10 ch))) 0x80\<rparr> else k
            in put_utf8 mode back ch (high # src') src' k)"

definition utf16_step :: "32 word \<Rightarrow> 16 word \<Rightarrow> 16 word list \<Rightarrow> byte sink \<Rightarrow> (16 word, byte sink) ctl" where
  "utf16_step mode u src k =
     (let ch = ucast u in
      if ch = 0 \<and> flag mode UNICODE_F_STOPONNUL then Break (u # src) k
      else if UNI_SURROGATE_LOW_BEGIN \<le> ch \<and> ch \<le> UNI_SURROGATE_LOW_END
      then do_high_surrogate mode (ch - UNI_SURROGATE_LOW_BEGIN) src k
      else put_utf8 mode (\<lambda>k. k) ch (u # src) src k)"

lemma done_ch_Next: "done_ch mode src k = Next src' k' \<Longrightarrow> src' = src"
  by (auto simp: done_ch_def split: if_splits)

lemma put_char7_Next: "put_char7 mode ch src k = Next src' k' \<Longrightarrow> src' = src"
  by (auto simp: put_char7_def done_ch_Next split: if_splits)

lemma encode_error_Next: "encode_error mode src k = Next src' k' \<Longrightarrow> src' = src"
  by (auto simp: encode_error_def put_char7_Next split: if_splits)

lemma put_temp_Next: "put_temp mode back temp ts unread src k = Next src' k' \<Longrightarrow> src' = src"
  by (induction ts arbitrary: k) (auto simp: done_ch_Next Let_def split: if_splits)

lemma put_utf8_Next: "put_utf8 mode back ch unread src k = Next src' k' \<Longrightarrow> src' = src"
  by (auto simp: put_utf8_def put_char7_Next encode_error_Next put_temp_Next split: if_splits option.splits)

lemma utf16_step_Next: "utf16_step mode u src k = Next src' k' \<Longrightarrow> length src' \<le> length src"
  by (auto simp: utf16_step_def do_high_surrogate_def Let_def dest!: put_utf8_Next encode_error_Next split: if_splits list.splits)

function utf16_loop :: "32 word \<Rightarrow> 16 word list \<Rightarrow> byte sink \<Rightarrow> (16 word, byte sink) ctl" where
  "utf16_loop mode [] k = Break [] k"
| "utf16_loop mode (u # src) k =
     (case utf16_step mode u src k of Next src' k' \<Rightarrow> utf16_loop mode src' k' | x \<Rightarrow> x)"
  by pat_completeness auto
termination
  by (relation "measure (\<lambda>(mode, src, k). length src)") (auto dest: utf16_step_Next)

definition libc_utf16to8 :: "16 word list \<Rightarrow> byte list \<Rightarrow> nat \<Rightarrow> mbstate \<Rightarrow> 32 word \<Rightarrow> (uret \<times> 16 word list \<times> byte sink) result" where
  "libc_utf16to8 utf16 utf8 buflen8 state mode =
     (let k = \<lparr>sk_dst = utf8, sk_len = buflen8, sk_result = 0, sk_state = state, sk_fault = False\<rparr> in
      if mb_count state = 0 then conv_return mode utf16 state (utf16_loop mode utf16 k)
      else if drop_bit 24 state AND 0x80 \<noteq> 0 then
        conv_return mode utf16 state
          (case do_high_surrogate mode (ucast (mb_word16 state)) utf16 (k\<lparr>sk_state := 0\<rparr>) of
             Next src k' \<Rightarrow> utf16_loop mode src k' | x \<Rightarrow> x)
      else rbind (resume_bytes k) (\<lambda>k. conv_return mode utf16 state (utf16_loop mode utf16 k)))"

end
