(* ===== verification/Unicode_Strings.thy ===== *)
theory Unicode_Strings
  imports Unicode
begin

text \<open>
  The functions built on the conversions: strings in heap memory (\<^verbatim>\<open>libc_utf8to16ms\<close> and its relatives of
  \<^verbatim>\<open>src/libs/libc/unicode.c\<close>), strings that start out in a buffer on the stack (\<^verbatim>\<open>libc_loadutf16\<close> and its relatives of
  \<^verbatim>\<open>src/libs/libc/widechar.c\<close>), and the printers \<^verbatim>\<open>libc_format_w16sztomb\<close> and \<^verbatim>\<open>libc_format_w32sztomb\<close>.

  The heap is a parameter: \<open>alloc n\<close> is what \<^verbatim>\<open>malloc\<close> returns for \<open>n\<close> bytes, the units that fit into them, or \<open>None\<close> for \<^verbatim>\<open>NULL\<close>,
  and \<open>realloc xs n\<close> what \<^verbatim>\<open>realloc\<close> makes of memory with the contents \<open>xs\<close>. The numbers of bytes and the length of the first buffer are computed
  with the 32 bits of \<^verbatim>\<open>size_t\<close>, and wrap. The loops of the source that convert again until the buffer is
  large enough are partial functions: \<open>None\<close> is a loop that does not end.
\<close>

type_synonym 'd heap_alloc = "nat \<Rightarrow> 'd list option"
type_synonym 'd heap_realloc = "'d list \<Rightarrow> nat \<Rightarrow> 'd list option"
type_synonym ('s, 'd) converter = "'d list \<Rightarrow> nat \<Rightarrow> (uret \<times> 's list \<times> 'd sink) result"

text \<open>The value of a \<^verbatim>\<open>size_t\<close> return; \<^verbatim>\<open>UNICODE_ERROR\<close> is its greatest value.\<close>

definition size_of_ret :: "uret \<Rightarrow> nat" where
  "size_of_ret r = (case r of Ret n \<Rightarrow> n | UNICODE_ERROR _ \<Rightarrow> 2 ^ 32 - 1)"

text \<open>The length of a string in memory: the units before the first NUL.\<close>

definition cstr_len :: "'c :: zero list \<Rightarrow> nat result" where
  "cstr_len s = (if 0 \<in> set s then Inr (length (takeWhile (\<lambda>c. c \<noteq> 0) s)) else Inl E_SEGFAULT)"

definition cstr_nlen :: "'c :: zero list \<Rightarrow> nat \<Rightarrow> nat result" where
  "cstr_nlen s n =
     (if 0 \<in> set (take n s) \<or> n \<le> length s then Inr (length (takeWhile (\<lambda>c. c \<noteq> 0) (take n s))) else Inl E_SEGFAULT)"

section \<open>Strings in heap memory\<close>

definition size_t :: "nat \<Rightarrow> nat" where
  "size_t n = n mod 2 ^ 32"

text \<open>The number of bytes of a unit, \<^verbatim>\<open>sizeof(char16_t)\<close> and its like.\<close>

definition unit_size :: "'a :: len itself \<Rightarrow> nat" where
  "unit_size t = LENGTH('a) div 8"

partial_function (option) ms_again :: "('s, 'a :: len word) converter \<Rightarrow> 'a word heap_realloc \<Rightarrow> 'a word list \<Rightarrow> nat \<Rightarrow>
    'a word list option result option" where
  "ms_again conv realloc result buflen =
     (case conv result buflen of
        Inl e \<Rightarrow> Some (Inl e)
      | Inr (UNICODE_ERROR _, _, _) \<Rightarrow> Some (Inr None)
      | Inr (Ret reqlen, _, k) \<Rightarrow>
          if reqlen \<noteq> buflen then
            (case realloc (sk_dst k) (size_t (reqlen * unit_size TYPE('a))) of
               None \<Rightarrow> Some (Inr None)
             | Some new_result \<Rightarrow>
                 if buflen < reqlen then ms_again conv realloc new_result reqlen else Some (Inr (Some new_result)))
          else Some (Inr (Some (sk_dst k))))"

definition ms_start :: "('s, 'a :: len word) converter \<Rightarrow> 'a word heap_alloc \<Rightarrow> 'a word heap_realloc \<Rightarrow> nat \<Rightarrow>
    'a word list option result option" where
  "ms_start conv alloc realloc buflen =
     (case alloc (size_t (buflen * unit_size TYPE('a))) of
        None \<Rightarrow> Some (Inr None) | Some result \<Rightarrow> ms_again conv realloc result buflen)"

definition libc_utf8to16ms :: "(16 word) heap_alloc \<Rightarrow> (16 word) heap_realloc \<Rightarrow> byte list \<Rightarrow> 16 word list option result option" where
  "libc_utf8to16ms alloc realloc utf8 =
     ms_start (\<lambda>buf buflen. libc_utf8to16 utf8 buf buflen 0 0) alloc realloc (size_t (length utf8 + length utf8 div 3 + 1))"

definition libc_utf8to32ms :: "(32 word) heap_alloc \<Rightarrow> (32 word) heap_realloc \<Rightarrow> byte list \<Rightarrow> 32 word list option result option" where
  "libc_utf8to32ms alloc realloc utf8 =
     ms_start (\<lambda>buf buflen. libc_utf8to32 utf8 buf buflen 0 0) alloc realloc (size_t (length utf8 + length utf8 div 3 + 1))"

definition libc_utf16to8ms :: "byte heap_alloc \<Rightarrow> byte heap_realloc \<Rightarrow> 16 word list \<Rightarrow> byte list option result option" where
  "libc_utf16to8ms alloc realloc utf16 =
     ms_start (\<lambda>buf buflen. libc_utf16to8 utf16 buf buflen 0 0) alloc realloc (size_t (length utf16 + 1))"

definition libc_utf32to8ms :: "byte heap_alloc \<Rightarrow> byte heap_realloc \<Rightarrow> 32 word list \<Rightarrow> byte list option result option" where
  "libc_utf32to8ms alloc realloc utf32 =
     ms_start (\<lambda>buf buflen. libc_utf32to8 utf32 buf buflen 0 0) alloc realloc (size_t (length utf32 + 1))"

definition with_len :: "'c :: zero list \<Rightarrow> ('c list \<Rightarrow> 'r result option) \<Rightarrow> 'r result option" where
  "with_len s f = (case cstr_len s of Inl e \<Rightarrow> Some (Inl e) | Inr n \<Rightarrow> f (take n s))"

definition libc_utf8to16m :: "(16 word) heap_alloc \<Rightarrow> (16 word) heap_realloc \<Rightarrow> byte list \<Rightarrow> 16 word list option result option" where
  "libc_utf8to16m alloc realloc utf8 = with_len utf8 (libc_utf8to16ms alloc realloc)"

definition libc_utf8to32m :: "(32 word) heap_alloc \<Rightarrow> (32 word) heap_realloc \<Rightarrow> byte list \<Rightarrow> 32 word list option result option" where
  "libc_utf8to32m alloc realloc utf8 = with_len utf8 (libc_utf8to32ms alloc realloc)"

definition libc_utf32to8m :: "byte heap_alloc \<Rightarrow> byte heap_realloc \<Rightarrow> 32 word list \<Rightarrow> byte list option result option" where
  "libc_utf32to8m alloc realloc utf32 = with_len utf32 (libc_utf32to8ms alloc realloc)"

definition libc_utf16to8m :: "byte heap_alloc \<Rightarrow> byte heap_realloc \<Rightarrow> 16 word list \<Rightarrow> byte list option result option" where
  "libc_utf16to8m alloc realloc utf16 = with_len utf16 (libc_utf16to8ms alloc realloc)"

section \<open>The same with exceptions\<close>

definition libc_Xutf8to32 :: "byte list \<Rightarrow> 32 word list \<Rightarrow> nat \<Rightarrow> mbstate \<Rightarrow> 32 word \<Rightarrow> (uret \<times> byte list \<times> 32 word sink) result" where
  "libc_Xutf8to32 utf8 utf32 buflen32 state mode = libc_utf8to32 utf8 utf32 buflen32 state (mode OR UNICODE_F_EXCEPT)"

definition libc_Xutf8to16 :: "byte list \<Rightarrow> 16 word list \<Rightarrow> nat \<Rightarrow> mbstate \<Rightarrow> 32 word \<Rightarrow> (uret \<times> byte list \<times> 16 word sink) result" where
  "libc_Xutf8to16 utf8 utf16 buflen16 state mode = libc_utf8to16 utf8 utf16 buflen16 state (mode OR UNICODE_F_EXCEPT)"

definition libc_Xutf32to8 :: "32 word list \<Rightarrow> byte list \<Rightarrow> nat \<Rightarrow> mbstate \<Rightarrow> 32 word \<Rightarrow> (uret \<times> 32 word list \<times> byte sink) result" where
  "libc_Xutf32to8 utf32 utf8 buflen8 state mode = libc_utf32to8 utf32 utf8 buflen8 state (mode OR UNICODE_F_EXCEPT)"

definition libc_Xutf16to8 :: "16 word list \<Rightarrow> byte list \<Rightarrow> nat \<Rightarrow> mbstate \<Rightarrow> 32 word \<Rightarrow> (uret \<times> 16 word list \<times> byte sink) result" where
  "libc_Xutf16to8 utf16 utf8 buflen8 state mode = libc_utf16to8 utf16 utf8 buflen8 state (mode OR UNICODE_F_EXCEPT)"

partial_function (option) Xms_again :: "('s, 'a :: len word) converter \<Rightarrow> 'a word heap_realloc \<Rightarrow> 'a word list \<Rightarrow> nat \<Rightarrow>
    'a word list result option" where
  "Xms_again conv realloc result buflen =
     (case conv result buflen of
        Inl e \<Rightarrow> Some (Inl e)
      | Inr (r, _, k) \<Rightarrow>
          let reqlen = size_of_ret r in
          if reqlen \<noteq> buflen then
            (case realloc (sk_dst k) (size_t (reqlen * unit_size TYPE('a))) of
               None \<Rightarrow> Some (Inl E_BADALLOC)
             | Some result \<Rightarrow> if buflen < reqlen then Xms_again conv realloc result reqlen else Some (Inr result))
          else Some (Inr (sk_dst k)))"

definition Xms_start :: "('s, 'a :: len word) converter \<Rightarrow> 'a word heap_alloc \<Rightarrow> 'a word heap_realloc \<Rightarrow> nat \<Rightarrow>
    'a word list result option" where
  "Xms_start conv alloc realloc buflen =
     (case alloc (size_t (buflen * unit_size TYPE('a))) of
        None \<Rightarrow> Some (Inl E_BADALLOC) | Some result \<Rightarrow> Xms_again conv realloc result buflen)"

definition libc_Xutf8to16ms :: "(16 word) heap_alloc \<Rightarrow> (16 word) heap_realloc \<Rightarrow> byte list \<Rightarrow> 16 word list result option" where
  "libc_Xutf8to16ms alloc realloc utf8 =
     Xms_start (\<lambda>buf buflen. libc_utf8to16 utf8 buf buflen 0 (UNICODE_F_SETERRNO OR UNICODE_F_EXCEPT)) alloc realloc
       (size_t (length utf8 + length utf8 div 3 + 1))"

definition libc_Xutf8to32ms :: "(32 word) heap_alloc \<Rightarrow> (32 word) heap_realloc \<Rightarrow> byte list \<Rightarrow> 32 word list result option" where
  "libc_Xutf8to32ms alloc realloc utf8 =
     Xms_start (\<lambda>buf buflen. libc_utf8to32 utf8 buf buflen 0 (UNICODE_F_SETERRNO OR UNICODE_F_EXCEPT)) alloc realloc
       (size_t (length utf8 + length utf8 div 3 + 1))"

definition libc_Xutf16to8ms :: "byte heap_alloc \<Rightarrow> byte heap_realloc \<Rightarrow> 16 word list \<Rightarrow> byte list result option" where
  "libc_Xutf16to8ms alloc realloc utf16 =
     Xms_start (\<lambda>buf buflen. libc_utf16to8 utf16 buf buflen 0 (UNICODE_F_SETERRNO OR UNICODE_F_EXCEPT)) alloc realloc
       (size_t (length utf16 + 1))"

definition libc_Xutf32to8ms :: "byte heap_alloc \<Rightarrow> byte heap_realloc \<Rightarrow> 32 word list \<Rightarrow> byte list result option" where
  "libc_Xutf32to8ms alloc realloc utf32 =
     Xms_start (\<lambda>buf buflen. libc_utf32to8 utf32 buf buflen 0 (UNICODE_F_SETERRNO OR UNICODE_F_EXCEPT)) alloc realloc
       (size_t (length utf32 + 1))"

definition libc_Xutf8to16m :: "(16 word) heap_alloc \<Rightarrow> (16 word) heap_realloc \<Rightarrow> byte list \<Rightarrow> 16 word list result option" where
  "libc_Xutf8to16m alloc realloc utf8 = with_len utf8 (libc_Xutf8to16ms alloc realloc)"

definition libc_Xutf8to32m :: "(32 word) heap_alloc \<Rightarrow> (32 word) heap_realloc \<Rightarrow> byte list \<Rightarrow> 32 word list result option" where
  "libc_Xutf8to32m alloc realloc utf8 = with_len utf8 (libc_Xutf8to32ms alloc realloc)"

definition libc_Xutf32to8m :: "byte heap_alloc \<Rightarrow> byte heap_realloc \<Rightarrow> 32 word list \<Rightarrow> byte list result option" where
  "libc_Xutf32to8m alloc realloc utf32 = with_len utf32 (libc_Xutf32to8ms alloc realloc)"

definition libc_Xutf16to8m :: "byte heap_alloc \<Rightarrow> byte heap_realloc \<Rightarrow> 16 word list \<Rightarrow> byte list result option" where
  "libc_Xutf16to8m alloc realloc utf16 = with_len utf16 (libc_Xutf16to8ms alloc realloc)"

section \<open>Strings that start out on the stack\<close>

definition UTF_STACK_BUFFER_SIZE :: nat where
  "UTF_STACK_BUFFER_SIZE = 128"

text \<open>The loop behind the attempt with the stack buffer; the \<^verbatim>\<open>NULL\<close> that it starts with is the empty list here.\<close>

partial_function (option) load_loop ::
  "('s, byte) converter \<Rightarrow> byte heap_realloc \<Rightarrow> byte list \<Rightarrow> nat \<Rightarrow> nat \<Rightarrow> byte list option result option" where
  "load_loop conv realloc result buflen reqlen =
     (case realloc result reqlen of
        None \<Rightarrow> Some (Inr None)
      | Some new_result \<Rightarrow>
          if reqlen \<le> buflen then Some (Inr (Some new_result))
          else (case conv new_result reqlen of
                  Inl e \<Rightarrow> Some (Inl e)
                | Inr (UNICODE_ERROR _, _, _) \<Rightarrow> Some (Inr None)
                | Inr (Ret reqlen', _, k) \<Rightarrow> load_loop conv realloc (sk_dst k) reqlen reqlen'))"

definition load_start :: "('s, byte) converter \<Rightarrow> byte heap_realloc \<Rightarrow> byte list \<Rightarrow> byte list option result option" where
  "load_start conv realloc buf =
     (case conv buf UTF_STACK_BUFFER_SIZE of
        Inl e \<Rightarrow> Some (Inl e)
      | Inr (UNICODE_ERROR _, _, _) \<Rightarrow> Some (Inr None)
      | Inr (Ret reqlen, _, k) \<Rightarrow>
          if reqlen \<le> UTF_STACK_BUFFER_SIZE then Some (Inr (Some (sk_dst k)))
          else load_loop conv realloc [] 0 reqlen)"

definition libc_loadutf16 :: "byte heap_realloc \<Rightarrow> byte list \<Rightarrow> 16 word list \<Rightarrow> byte list option result option" where
  "libc_loadutf16 realloc buf string =
     with_len string (\<lambda>s. load_start (\<lambda>buf buflen. libc_utf16to8 s buf buflen 0 UNICODE_F_SETERRNO) realloc buf)"

definition libc_loadutf32 :: "byte heap_realloc \<Rightarrow> byte list \<Rightarrow> 32 word list \<Rightarrow> byte list option result option" where
  "libc_loadutf32 realloc buf string =
     with_len string (\<lambda>s. load_start (\<lambda>buf buflen. libc_utf32to8 s buf buflen 0 UNICODE_F_SETERRNO) realloc buf)"

partial_function (option) Xload_loop ::
  "('s, byte) converter \<Rightarrow> byte heap_realloc \<Rightarrow> byte list \<Rightarrow> nat \<Rightarrow> nat \<Rightarrow> byte list result option" where
  "Xload_loop conv realloc result buflen reqlen =
     (case realloc result reqlen of
        None \<Rightarrow> Some (Inl E_BADALLOC)
      | Some result \<Rightarrow>
          if reqlen \<le> buflen then Some (Inr result)
          else (case conv result reqlen of
                  Inl e \<Rightarrow> Some (Inl e)
                | Inr (r, _, k) \<Rightarrow> Xload_loop conv realloc (sk_dst k) reqlen (size_of_ret r)))"

definition Xload_start :: "('s, byte) converter \<Rightarrow> byte heap_realloc \<Rightarrow> byte list \<Rightarrow> byte list result option" where
  "Xload_start conv realloc buf =
     (case conv buf UTF_STACK_BUFFER_SIZE of
        Inl e \<Rightarrow> Some (Inl e)
      | Inr (r, _, k) \<Rightarrow>
          if size_of_ret r \<le> UTF_STACK_BUFFER_SIZE then Some (Inr (sk_dst k))
          else Xload_loop conv realloc [] 0 (size_of_ret r))"

definition libc_Xloadutf16 :: "byte heap_realloc \<Rightarrow> byte list \<Rightarrow> 16 word list \<Rightarrow> byte list result option" where
  "libc_Xloadutf16 realloc buf string =
     with_len string (\<lambda>s. Xload_start (\<lambda>buf buflen. libc_Xutf16to8 s buf buflen 0 UNICODE_F_SETERRNO) realloc buf)"

definition libc_Xloadutf32 :: "byte heap_realloc \<Rightarrow> byte list \<Rightarrow> 32 word list \<Rightarrow> byte list result option" where
  "libc_Xloadutf32 realloc buf string =
     with_len string (\<lambda>s. Xload_start (\<lambda>buf buflen. libc_Xutf32to8 s buf buflen 0 UNICODE_F_SETERRNO) realloc buf)"

section \<open>Printers\<close>

text \<open>
  A printer takes the bytes and its closure, whose contents it may change, and returns a number that is negative for
  an error. \<open>buf\<close> is the array of 256 bytes on the stack, whose contents are not initialised. A \<^verbatim>\<open>num_chars\<close> beyond the
  array would have the printer read behind it.
\<close>

type_synonym 'p printer = "byte list \<Rightarrow> 'p \<Rightarrow> int \<times> 'p"

partial_function (option) libc_format_w16sztomb ::
  "'p printer \<Rightarrow> 'p \<Rightarrow> 16 word list \<Rightarrow> mbstate \<Rightarrow> 32 word \<Rightarrow> byte list \<Rightarrow> int \<Rightarrow> (int \<times> 'p \<times> mbstate) result option" where
  "libc_format_w16sztomb printer closure c16 ps mode buf result =
     (if c16 = [] then Some (Inr (result, closure, ps))
      else
        case libc_utf16to8 c16 buf (length buf) ps (UNICODE_F_NOZEROTERM OR UNICODE_F_UPDATESRC OR mode) of
          Inl e \<Rightarrow> Some (Inl e)
        | Inr (UNICODE_ERROR _, _, k) \<Rightarrow> Some (Inr (-1, closure, sk_state k))
        | Inr (Ret num_chars, c16', k) \<Rightarrow>
            if length buf < num_chars then Some (Inl E_SEGFAULT)
            else
              let (temp, closure) = printer (take num_chars (sk_dst k)) closure in
              if temp < 0 then Some (Inr (temp, closure, sk_state k))
              else libc_format_w16sztomb printer closure c16' (sk_state k) mode (sk_dst k) (result + temp))"

partial_function (option) libc_format_w32sztomb ::
  "'p printer \<Rightarrow> 'p \<Rightarrow> 32 word list \<Rightarrow> mbstate \<Rightarrow> 32 word \<Rightarrow> byte list \<Rightarrow> int \<Rightarrow> (int \<times> 'p \<times> mbstate) result option" where
  "libc_format_w32sztomb printer closure c32 ps mode buf result =
     (if c32 = [] then Some (Inr (result, closure, ps))
      else
        case libc_utf32to8 c32 buf (length buf) ps (UNICODE_F_NOZEROTERM OR UNICODE_F_UPDATESRC OR mode) of
          Inl e \<Rightarrow> Some (Inl e)
        | Inr (UNICODE_ERROR _, _, k) \<Rightarrow> Some (Inr (-1, closure, sk_state k))
        | Inr (Ret num_chars, c32', k) \<Rightarrow>
            if length buf < num_chars then Some (Inl E_SEGFAULT)
            else
              let (temp, closure) = printer (take num_chars (sk_dst k)) closure in
              if temp < 0 then Some (Inr (temp, closure, sk_state k))
              else libc_format_w32sztomb printer closure c32' (sk_state k) mode (sk_dst k) (result + temp))"

definition libc_format_w16sntomb ::
  "'p printer \<Rightarrow> 'p \<Rightarrow> 16 word list \<Rightarrow> nat \<Rightarrow> mbstate \<Rightarrow> 32 word \<Rightarrow> byte list \<Rightarrow> (int \<times> 'p \<times> mbstate) result option" where
  "libc_format_w16sntomb printer closure c16 c16max ps mode buf =
     (case cstr_nlen c16 c16max of
        Inl e \<Rightarrow> Some (Inl e) | Inr n \<Rightarrow> libc_format_w16sztomb printer closure (take n c16) ps mode buf 0)"

definition libc_format_w32sntomb ::
  "'p printer \<Rightarrow> 'p \<Rightarrow> 32 word list \<Rightarrow> nat \<Rightarrow> mbstate \<Rightarrow> 32 word \<Rightarrow> byte list \<Rightarrow> (int \<times> 'p \<times> mbstate) result option" where
  "libc_format_w32sntomb printer closure c32 c32max ps mode buf =
     (case cstr_nlen c32 c32max of
        Inl e \<Rightarrow> Some (Inl e) | Inr n \<Rightarrow> libc_format_w32sztomb printer closure (take n c32) ps mode buf 0)"

definition libc_Xformat_w16sztomb ::
  "'p printer \<Rightarrow> 'p \<Rightarrow> 16 word list \<Rightarrow> mbstate \<Rightarrow> 32 word \<Rightarrow> byte list \<Rightarrow> (int \<times> 'p \<times> mbstate) result option" where
  "libc_Xformat_w16sztomb printer closure c16 ps mode buf =
     libc_format_w16sztomb printer closure c16 ps (mode OR UNICODE_F_EXCEPT) buf 0"

definition libc_Xformat_w32sztomb ::
  "'p printer \<Rightarrow> 'p \<Rightarrow> 32 word list \<Rightarrow> mbstate \<Rightarrow> 32 word \<Rightarrow> byte list \<Rightarrow> (int \<times> 'p \<times> mbstate) result option" where
  "libc_Xformat_w32sztomb printer closure c32 ps mode buf =
     libc_format_w32sztomb printer closure c32 ps (mode OR UNICODE_F_EXCEPT) buf 0"

definition libc_Xformat_w16sntomb ::
  "'p printer \<Rightarrow> 'p \<Rightarrow> 16 word list \<Rightarrow> nat \<Rightarrow> mbstate \<Rightarrow> 32 word \<Rightarrow> byte list \<Rightarrow> (int \<times> 'p \<times> mbstate) result option" where
  "libc_Xformat_w16sntomb printer closure c16 c16max ps mode buf =
     libc_format_w16sntomb printer closure c16 c16max ps (mode OR UNICODE_F_EXCEPT) buf"

definition libc_Xformat_w32sntomb ::
  "'p printer \<Rightarrow> 'p \<Rightarrow> 32 word list \<Rightarrow> nat \<Rightarrow> mbstate \<Rightarrow> 32 word \<Rightarrow> byte list \<Rightarrow> (int \<times> 'p \<times> mbstate) result option" where
  "libc_Xformat_w32sntomb printer closure c32 c32max ps mode buf =
     libc_format_w32sntomb printer closure c32 c32max ps (mode OR UNICODE_F_EXCEPT) buf"

end
