(* ===== verification/Unicode_Buffers.thy ===== *)
theory Unicode_Buffers
  imports Unicode_Strings
begin

text \<open>
  What holds of the four conversions whatever the text is. The shift state that they leave behind is one that they can
  take up again, no write goes past the target buffer, and no assertion fails. A call that does not update its source
  produces a text that does not depend on the buffer: the buffer gets as much of it as fits, and the return value is the
  length of all of it. From this law, a locale that each of the conversions is an instance of, follows that the functions
  which allocate their buffer return, and what they return.
\<close>

section \<open>The buffer\<close>

definition fill :: "'d list \<Rightarrow> 'd list \<Rightarrow> 'd list" where
  "fill buf out = take (length buf) out @ drop (length out) buf"

lemma length_fill [simp]: "length (fill buf out) = length buf"
  by (simp add: fill_def)

lemma fill_Nil [simp]: "fill buf [] = buf"
  by (simp add: fill_def)

lemma fill_exact: "length buf = length out \<Longrightarrow> fill buf out = out"
  by (simp add: fill_def)

lemma take_fill: "length out \<le> length buf \<Longrightarrow> take (length out) (fill buf out) = out"
  by (simp add: fill_def)

lemma fill_snoc:
  "fill buf (out @ [c]) = (if length out < length buf then (fill buf out)[length out := c] else fill buf out)"
proof (cases "length out < length buf")
  case True
  then have "drop (length out) buf = buf ! length out # drop (Suc (length out)) buf" by (simp add: Cons_nth_drop_Suc)
  with True show ?thesis by (simp add: fill_def list_update_append)
qed (simp add: fill_def)

lemma fill_take [simp]: "fill buf (take (length buf) out) = fill buf out"
  by (simp add: fill_def min_def)

text \<open>The target, its memory and the length that was given for it, after the units \<open>out\<close> were written to it. Of these it has what fits the length;
  when the memory is too short for that, a store has gone past its end.\<close>

definition overrun :: "'d list \<times> nat \<Rightarrow> 'd list \<Rightarrow> bool" where
  "overrun t out \<longleftrightarrow> length (fst t) < min (snd t) (length out)"

definition sink_at :: "'d list \<times> nat \<Rightarrow> 'd list \<times> mbstate \<Rightarrow> 'd sink" where
  "sink_at t p = \<lparr>sk_dst = fill (fst t) (take (snd t) (fst p)), sk_len = snd t, sk_result = length (fst p), sk_state = snd p,
     sk_fault = overrun t (fst p)\<rparr>"

lemma sink_at_simps [simp]:
  "sk_dst (sink_at t p) = fill (fst t) (take (snd t) (fst p))" "sk_len (sink_at t p) = snd t"
  "sk_result (sink_at t p) = length (fst p)" "sk_state (sink_at t p) = snd p" "sk_fault (sink_at t p) = overrun t (fst p)"
  "(sink_at t p)\<lparr>sk_state := s\<rparr> = sink_at t (fst p, s)"
  by (simp_all add: sink_at_def)

lemma put1_sink_at [simp]: "put1 c (sink_at t p) = sink_at t (fst p @ [c], snd p)"
proof (cases "length (fst p) < snd t")
  case True
  then have "take (snd t) (fst p @ [c]) = fst p @ [c]" "take (snd t) (fst p) = fst p" by simp_all
  with True show ?thesis by (auto simp: put1_def store_unit_def sink_at_def fill_snoc overrun_def)
qed (auto simp: put1_def sink_at_def overrun_def)

lemma sink_start: "\<lparr>sk_dst = buf, sk_len = n, sk_result = 0, sk_state = s, sk_fault = False\<rparr> = sink_at (buf, n) ([], s)"
  by (simp add: sink_at_def overrun_def)

lemma overrun_fits [simp]: "n \<le> length buf \<Longrightarrow> \<not> overrun (buf, n) out"
  by (simp add: overrun_def)

lemma overrun_Nil [simp]: "\<not> overrun t []"
  by (simp add: overrun_def)

lemma unless_fault_simps [simp]: "sk_fault k \<Longrightarrow> unless_fault k r = Inl E_SEGFAULT" "\<not> sk_fault k \<Longrightarrow> unless_fault k r = r"
  by (simp_all add: unless_fault_def)

section \<open>Words as numbers\<close>

lemma unat_and_mask: "unat (w AND mask n) = unat w mod 2 ^ n"
  by (simp only: take_bit_eq_mask [symmetric] unsigned_take_bit_eq) (simp add: take_bit_eq_mod)

lemma or_push:
  assumes "x < 2 ^ n" "unat (ch :: 32 word) * 2 ^ n + x < 2 ^ 32"
  shows "unat (push_bit n ch OR of_nat x) = unat ch * 2 ^ n + x"
proof -
  have x: "take_bit n x = x" using assms(1) by (simp add: take_bit_nat_eq_self_iff)
  have "x < 2 ^ 32" using assms(2) by linarith
  then have ux: "unat (of_nat x :: 32 word) = x" by (rule unat_of_nat_32)
  have p: "unat (push_bit n ch) = unat ch * 2 ^ n"
    using assms(2) by (simp only: unsigned_push_bit_eq) (simp add: push_bit_eq_mult take_bit_nat_eq_self)
  have "unat (push_bit n ch OR of_nat x) = unat (push_bit n ch) OR x" by (simp only: unsigned_or_eq ux)
  also have "\<dots> = push_bit n (unat ch) OR take_bit n x" by (simp only: p) (simp only: x push_bit_eq_mult)
  also have "\<dots> = push_bit n (unat ch) + take_bit n x"
    by (rule disjunctive_add [symmetric]) (auto simp: bit_push_bit_iff bit_take_bit_iff)
  finally show ?thesis by (simp add: x push_bit_eq_mult)
qed


lemma unat_drop: "unat (drop_bit n w) = unat w div 2 ^ n"
  by (simp only: unsigned_drop_bit_eq) (simp add: drop_bit_eq_div take_bit_nat_eq_self)

section \<open>Well-formed shift states\<close>

definition mb_ok :: "mbstate \<Rightarrow> bool" where
  "mb_ok s \<longleftrightarrow> mb_count s \<le> 3 \<or> mb_count s = 0x80"

lemma mb_count_div: "mb_count s = unat s div 2 ^ 24"
  by (simp only: mb_count_def unat_drop)

lemma unat_word24: "unat (mb_word24 s) = unat s mod 2 ^ 24"
proof -
  have "(mask 24 :: 32 word) = 0xffffff" by (simp add: mask_numeral)
  then show ?thesis using unat_and_mask [of s 24] by (simp only: mb_word24_def)
qed

lemma unat_set_count: "n < 256 \<Longrightarrow> unat (mb_set_count s n) = n * 2 ^ 24 + unat s mod 2 ^ 24"
proof -
  assume n: "n < 256"
  have "of_nat (unat (mb_word24 s)) = mb_word24 s" by simp
  then have m: "mb_word24 s = of_nat (unat s mod 2 ^ 24)" by (simp only: unat_word24)
  have u: "unat (of_nat n :: 32 word) = n" using n by (intro unat_of_nat_32) simp
  have "unat s mod 2 ^ 24 < 2 ^ 24" by simp
  moreover have "unat (of_nat n :: 32 word) * 2 ^ 24 + unat s mod 2 ^ 24 < 2 ^ 32" unfolding u using n calculation by (simp add: less_eq_Suc_le)
  ultimately have "unat (push_bit 24 (of_nat n :: 32 word) OR of_nat (unat s mod 2 ^ 24)) = unat (of_nat n :: 32 word) * 2 ^ 24 + unat s mod 2 ^ 24"
    by (rule or_push)
  then show "unat (mb_set_count s n) = n * 2 ^ 24 + unat s mod 2 ^ 24"
    by (simp only: mb_set_count_def mb_word24_def [symmetric] m or.commute u)
qed

lemma mb_count_set [simp]: "n < 256 \<Longrightarrow> mb_count (mb_set_count s n) = n"
  by (simp add: mb_count_div unat_set_count)

lemma mb_word24_set: "n < 256 \<Longrightarrow> mb_word24 (mb_set_count s n) = mb_word24 s"
  by (rule word_unat_eq_iff [THEN iffD2]) (simp add: unat_word24 unat_set_count)

lemma mb_count_0 [simp]: "mb_count 0 = 0"
  by (simp add: mb_count_def)

lemma mb_count_less: "mb_count s < 256"
  using unat_less_2_32 [of s] by (simp add: mb_count_div less_mult_imp_div_less)

lemma count_and_7f: "drop_bit 24 s AND 0x7f = 0 \<longleftrightarrow> mb_count s mod 128 = 0"
proof -
  have "(mask 7 :: 32 word) = 0x7f" by (simp add: mask_numeral)
  then have "unat (drop_bit 24 s AND 0x7f) = mb_count s mod 128"
    using unat_and_mask [of "drop_bit 24 s" 7] by (simp only: mb_count_def) simp
  then show ?thesis by (metis unat_eq_0)
qed

lemma count_and_80: "drop_bit 24 s AND 0x80 \<noteq> 0 \<longleftrightarrow> 128 \<le> mb_count s"
proof -
  have "drop_bit 24 s AND 0x80 \<noteq> 0 \<longleftrightarrow> bit (drop_bit 24 s) 7" using and_exp_eq_0_iff_not_bit [of "drop_bit 24 s" 7] by simp
  also have "\<dots> \<longleftrightarrow> bit (mb_count s) 7" by (simp add: mb_count_def bit_unsigned_iff)
  also have "\<dots> \<longleftrightarrow> odd (mb_count s div 128)" by (simp add: bit_iff_odd)
  also have "\<dots> \<longleftrightarrow> 128 \<le> mb_count s"
  proof -
    have "mb_count s div 128 < 2" using mb_count_less [of s] by (simp add: less_mult_imp_div_less)
    then have "odd (mb_count s div 128) \<longleftrightarrow> 0 < mb_count s div 128" by (auto simp: less_2_cases_iff)
    then show ?thesis by (simp add: div_greater_zero_iff)
  qed
  finally show ?thesis .
qed

section \<open>Every call leaves a buffer of the same size and a shift state that can be taken up\<close>

definition sink_ok :: "nat \<Rightarrow> 'd sink \<Rightarrow> bool" where
  "sink_ok n k \<longleftrightarrow> length (sk_dst k) = n \<and> sk_len k \<le> n \<and> \<not> sk_fault k \<and> mb_ok (sk_state k)"

primrec ctl_ok :: "nat \<Rightarrow> ('s, 'd sink) ctl \<Rightarrow> bool" where
  "ctl_ok n (Next src k) \<longleftrightarrow> sink_ok n k"
| "ctl_ok n (Break src k) \<longleftrightarrow> sink_ok n k"
| "ctl_ok n (Done src k) \<longleftrightarrow> sink_ok n k"
| "ctl_ok n (Done_Update src k) \<longleftrightarrow> sink_ok n k"
| "ctl_ok n (Error k) \<longleftrightarrow> sink_ok n k"

definition putter_ok :: "'d putter \<Rightarrow> bool" where
  "putter_ok put \<longleftrightarrow> (\<forall>n ch k. sink_ok n k \<longrightarrow> sink_ok n (snd (put ch k)))"

definition conv_safe :: "32 word \<Rightarrow> nat \<Rightarrow> (uret \<times> 's list \<times> 'd sink) result \<Rightarrow> bool" where
  "conv_safe mode n r \<longleftrightarrow>
     (case r of
        Inl e \<Rightarrow> flag mode UNICODE_F_EXCEPT \<and> (e = E_UNICODE_ERROR \<or> e = E_BUFFER_TOO_SMALL)
      | Inr (_, _, k) \<Rightarrow> length (sk_dst k) = n \<and> mb_ok (sk_state k))"

named_theorems safe

lemma mb_ok_set: "n \<le> 3 \<or> n = 0x80 \<Longrightarrow> mb_ok (mb_set_count s n)"
  by (auto simp: mb_ok_def)

lemma mb_ok_0 [simp]: "mb_ok 0"
  by (simp add: mb_ok_def)

lemma sink_ok_simps [simp]:
  "sink_ok n k \<Longrightarrow> sink_ok n (k\<lparr>sk_state := s\<rparr>) \<longleftrightarrow> mb_ok s"
  "sink_ok n (skip_zero mode k) \<longleftrightarrow> sink_ok n k"
  by (auto simp: sink_ok_def skip_zero_def)

lemma sink_ok_put1 [simp]: "sink_ok n k \<Longrightarrow> sink_ok n (put1 c k)"
  by (auto simp: sink_ok_def put1_def store_unit_def)

lemma put1_keeps [simp]: "length (sk_dst (put1 c k)) = length (sk_dst k)" "sk_len (put1 c k) = sk_len k"
  by (simp_all add: put1_def store_unit_def)


lemma sink_ok_length [dest]: "sink_ok n k \<Longrightarrow> length (sk_dst k) = n"
  by (simp add: sink_ok_def)

lemma sink_ok_fault [dest]: "sink_ok n k \<Longrightarrow> \<not> sk_fault k"
  by (simp add: sink_ok_def)

lemma sink_ok_len [dest]: "sink_ok n k \<Longrightarrow> sk_len k \<le> n"
  by (simp add: sink_ok_def)

lemma putter_ok_32: "putter_ok put_char32"
  by (simp add: putter_ok_def put_char32_def)

lemma putter_ok_16: "putter_ok (put_char16 mode)"
  by (auto simp: putter_ok_def put_char16_def Let_def mb_ok_set)

lemma conv_safe_done:
  "sink_ok n k \<Longrightarrow> mb_ok orig \<Longrightarrow> conv_safe mode n (conv_done mode src0 orig src k)"
  by (auto simp: conv_done_def conv_safe_def sink_ok_def)

lemma conv_safe_return:
  assumes "ctl_ok n x" "mb_ok orig"
  shows "conv_safe mode n (conv_return mode src0 orig x)"
proof -
  have "conv_safe mode n (Inr (r, src, k))" if "sink_ok n k" for r and src :: "'a list" and k :: "'b sink"
    using that by (simp add: conv_safe_def sink_ok_def)
  moreover have "conv_safe mode n (Inl E_UNICODE_ERROR :: (uret \<times> 'a list \<times> 'b sink) result)" if "flag mode UNICODE_F_EXCEPT"
    using that by (simp add: conv_safe_def)
  moreover have "unless_fault k r = r" if "sink_ok n k" for k :: "'b sink" and r :: "(uret \<times> 'a list \<times> 'b sink) result"
    using that by auto
  ultimately show ?thesis using assms by (cases x) (simp_all add: conv_return_def Let_def conv_safe_done)
qed

subsection \<open>From UTF-8\<close>

lemma read_missing_More: "read_missing full skip m ch src = More ch' m' src' \<Longrightarrow> 1 \<le> m' \<and> m' \<le> m"
  by (induction full skip m ch src rule: read_missing.induct) (auto split: if_splits)

lemma read_missing_rest: "read_missing full skip m ch src = More ch' m' src' \<Longrightarrow> l \<le> 4 \<Longrightarrow> l - m' \<le> 3"
  using read_missing_More [of full skip m ch src ch' m' src'] by linarith

lemma put_char_safe:
  assumes "putter_ok put" "sink_ok n k"
  shows "ctl_ok n (put_char put mode ch src k)"
proof -
  have "sink_ok n (snd (put ch k))" using assms unfolding putter_ok_def by blast
  then show ?thesis by (simp add: put_char_def case_prod_beta Let_def)
qed

lemma utf8_error_safe: "putter_ok put \<Longrightarrow> sink_ok n k \<Longrightarrow> ctl_ok n (utf8_error put mode src k)"
  by (simp add: utf8_error_def put_char_safe)

lemma need_more_safe: "sink_ok n k \<Longrightarrow> m \<le> 3 \<Longrightarrow> ctl_ok n (need_more mode ch m src k)"
  by (auto simp: need_more_def Let_def mb_ok_set)

lemma sequence_len: "n < 256 \<Longrightarrow> utf8_sequence_len ! n =
  (if n < 128 then 1 else if n < 192 then 0 else if n < 224 then 2 else if n < 240 then 3 else if n < 248 then 4 else 0)"
  (is "_ \<Longrightarrow> _ = ?r n")
proof -
  assume "n < 256"
  then consider "n < 128" | "128 \<le> n" "n < 192" | "192 \<le> n" "n < 224" | "224 \<le> n" "n < 240" | "240 \<le> n" "n < 248" | "248 \<le> n" "n < 256"
    by linarith
  then show "utf8_sequence_len ! n = ?r n" by cases (auto simp: utf8_sequence_len_def nth_append)
qed

lemma byte_less: "unat (b :: byte) < 256"
  using unsigned_less [of b] by simp

lemma sequence_len_4: "utf8_sequence_len ! unat (b :: byte) \<le> 4"
  by (simp add: sequence_len [OF byte_less])

lemma utf8_step_safe:
  assumes "putter_ok put" "sink_ok n k"
  shows "ctl_ok n (utf8_step put mode b src k)"
proof -
  let ?l = "utf8_sequence_len ! unat b"
  let ?r = "read_missing (sk_len k \<le> sk_result k \<and> flag mode UNICODE_F_UPDATESRC) True (?l - 1) (ucast b - utf8_offset ! (?l - 1)) src"
  have "ctl_ok n (case ?r of More ch m src \<Rightarrow> need_more mode ch (?l - m) src k
      | Malformed src \<Rightarrow> utf8_error put mode src k | Complete ch src \<Rightarrow> put_char put mode ch src k)"
    using read_missing_rest [OF _ sequence_len_4 [of b]]
    by (cases ?r) (simp_all add: utf8_error_safe put_char_safe need_more_safe assms)
  then show ?thesis using assms by (simp add: utf8_step_def Let_def utf8_error_safe)
qed

lemma utf8_loop_safe: "putter_ok put \<Longrightarrow> sink_ok n k \<Longrightarrow> ctl_ok n (utf8_loop put mode src k)"
proof (induction put mode src k rule: utf8_loop.induct)
  case (2 put mode b src k)
  with utf8_step_safe [of put n k mode b src] show ?case by (cases "utf8_step put mode b src k") simp_all
qed simp

lemma utf8_resume_safe:
  assumes "putter_ok put" "sink_ok n k" "1 \<le> mb_count (sk_state k)" "mb_count (sk_state k) \<le> 3"
  shows "\<exists>x. utf8_resume put mode src k = Inr x \<and> ctl_ok n (utf8_continue put mode x)"
proof -
  have continue: "ctl_ok n x \<Longrightarrow> ctl_ok n (utf8_continue put mode x)" for x
    using assms(1) by (cases x) (simp_all add: utf8_continue_def utf8_loop_safe)
  obtain x where x: "utf8_resume put mode src k = Inr x" and "ctl_ok n x"
  proof (cases "read_missing (sk_len k = 0 \<and> flag mode UNICODE_F_UPDATESRC) False (4 - mb_count (sk_state k)) (mb_word24 (sk_state k)) src")
    case (More ch m src')
    then have "4 - m \<le> 3" by (rule read_missing_rest) simp
    from need_more_safe [OF assms(2) this] More that assms(3,4) show ?thesis by (simp add: utf8_resume_def Let_def)
  qed (use that assms in \<open>auto simp: utf8_resume_def Let_def utf8_error_safe put_char_safe\<close>)
  then show ?thesis using continue by blast
qed

lemma utf8to32_safe [safe]: "mb_ok state \<Longrightarrow> n \<le> length buf \<Longrightarrow> conv_safe mode (length buf) (libc_utf8to32 src buf n state mode)"
proof -
  assume ok: "mb_ok state" and n: "n \<le> length buf"
  let ?k = "\<lparr>sk_dst = buf, sk_len = n, sk_result = 0, sk_state = state, sk_fault = False\<rparr>"
  have k: "sink_ok (length buf) ?k" using ok n by (simp add: sink_ok_def)
  show "conv_safe mode (length buf) (libc_utf8to32 src buf n state mode)"
  proof (cases "mb_count state mod 128 = 0")
    case True
    then show ?thesis using ok
      by (simp add: libc_utf8to32_def Let_def count_and_7f conv_safe_return utf8_loop_safe [OF putter_ok_32 k])
  next
    case False
    then have "1 \<le> mb_count (sk_state ?k)" "mb_count (sk_state ?k) \<le> 3" using ok by (auto simp: mb_ok_def)
    from utf8_resume_safe [OF putter_ok_32 k this, of mode src] False ok show ?thesis
      by (auto simp: libc_utf8to32_def Let_def count_and_7f conv_safe_return)
  qed
qed

lemma utf8to16_safe [safe]: "mb_ok state \<Longrightarrow> n \<le> length buf \<Longrightarrow> conv_safe mode (length buf) (libc_utf8to16 src buf n state mode)"
proof -
  assume ok: "mb_ok state" and n: "n \<le> length buf"
  let ?k = "\<lparr>sk_dst = buf, sk_len = n, sk_result = 0, sk_state = state, sk_fault = False\<rparr>"
  have k: "sink_ok (length buf) ?k" using ok n by (simp add: sink_ok_def)
  consider "mb_count state = 0" | "mb_count state = 128" | "1 \<le> mb_count state" "mb_count state \<le> 3"
    using ok by (force simp: mb_ok_def)
  then show "conv_safe mode (length buf) (libc_utf8to16 src buf n state mode)"
  proof cases
    case 1
    then show ?thesis using ok by (simp add: libc_utf8to16_def Let_def conv_safe_return utf8_loop_safe [OF putter_ok_16 k])
  next
    case 2
    have "sink_ok (length buf) ((put1 (mb_word16 state) ?k)\<lparr>sk_state := 0\<rparr>)" using k n by simp
    from utf8_loop_safe [OF putter_ok_16 this, of mode mode src] 2 ok show ?thesis
      by (simp add: libc_utf8to16_def Let_def count_and_80 conv_safe_return) (simp add: conv_safe_def)
  next
    case 3
    then obtain x where "utf8_resume (put_char16 mode) mode src ?k = Inr x" "ctl_ok (length buf) (utf8_continue (put_char16 mode) mode x)"
      using utf8_resume_safe [OF putter_ok_16 k, of mode mode src] by auto
    with 3 ok count_and_80 [of state] show ?thesis by (simp add: libc_utf8to16_def Let_def conv_safe_return)
  qed
qed

subsection \<open>To UTF-8\<close>

lemma put_char7_safe: "sink_ok n k \<Longrightarrow> ctl_ok n (put_char7 mode ch src k)"
  by (auto simp: put_char7_def done_ch_def mb_ok_set)

lemma encode_error_safe: "sink_ok n k \<Longrightarrow> ctl_ok n (encode_error mode src k)"
  by (simp add: encode_error_def put_char7_safe)

lemma skip_zero_dst [simp]: "sk_dst (skip_zero mode k) = sk_dst k"
  by (simp add: skip_zero_def)

lemma put_temp_safe:
  "sink_ok n k \<Longrightarrow> (\<And>k. sink_ok n k \<Longrightarrow> sink_ok n (back k)) \<Longrightarrow> length ts \<le> 4 \<Longrightarrow>
    ctl_ok n (put_temp mode back temp ts unread src k)"
  by (induction ts arbitrary: k) (auto simp: done_ch_def Let_def mb_ok_set)

lemma put_utf8_safe:
  assumes "sink_ok n k" "\<And>k. sink_ok n k \<Longrightarrow> sink_ok n (back k)"
  shows "ctl_ok n (put_utf8 mode back ch unread src k)"
proof (cases "utf8_temp ch")
  case None
  with assms(1) show ?thesis by (simp add: put_utf8_def put_char7_safe encode_error_safe)
next
  case (Some temp)
  then have "length temp \<le> 4" by (auto simp: utf8_temp_def split: if_splits)
  with Some assms show ?thesis by (simp add: put_utf8_def put_char7_safe put_temp_safe)
qed

lemma utf32_step_safe: "sink_ok n k \<Longrightarrow> ctl_ok n (utf32_step mode ch src k)"
  by (simp add: utf32_step_def put_utf8_safe encode_error_safe)

lemma utf32_loop_safe: "sink_ok n k \<Longrightarrow> ctl_ok n (utf32_loop mode src k)"
proof (induction mode src k rule: utf32_loop.induct)
  case (2 mode ch src k)
  with utf32_step_safe [of n k mode ch src] show ?case by (cases "utf32_step mode ch src k") simp_all
qed simp

lemma do_high_surrogate_safe: "sink_ok n k \<Longrightarrow> ctl_ok n (do_high_surrogate mode ch src k)"
  by (auto simp: do_high_surrogate_def Let_def mb_ok_set encode_error_safe split: list.split intro!: put_utf8_safe)

lemma utf16_step_safe: "sink_ok n k \<Longrightarrow> ctl_ok n (utf16_step mode u src k)"
  by (simp add: utf16_step_def Let_def put_utf8_safe do_high_surrogate_safe)

lemma utf16_loop_safe: "sink_ok n k \<Longrightarrow> ctl_ok n (utf16_loop mode src k)"
proof (induction mode src k rule: utf16_loop.induct)
  case (2 mode u src k)
  with utf16_step_safe [of n k mode u src] show ?case by (cases "utf16_step mode u src k") simp_all
qed simp

lemma resume_bytes_at:
  assumes "mb_count s \<le> 4" "n \<le> length buf"
  shows "resume_bytes \<lparr>sk_dst = buf, sk_len = n, sk_result = 0, sk_state = s, sk_fault = False\<rparr> =
    Inr (sink_at (buf, n) (take (mb_count s) (mb_bytes s), 0))"
proof -
  have "length (mb_bytes s) = 4" by (simp add: mb_bytes_def)
  with assms show ?thesis by (simp add: resume_bytes_def Let_def sink_at_def fill_def min_def)
qed

lemma sink_at_ok: "mb_ok s \<Longrightarrow> n \<le> length buf \<Longrightarrow> sink_ok (length buf) (sink_at (buf, n) (out, s))"
  by (simp add: sink_ok_def)

lemma utf32to8_safe [safe]:
  assumes "mb_ok state" "n \<le> length buf"
  shows "conv_safe mode (length buf) (libc_utf32to8 src buf n state mode)"
proof (cases "mb_count state mod 128 = 0")
  case True
  then show ?thesis using assms
    by (simp add: libc_utf32to8_def Let_def count_and_7f conv_safe_return utf32_loop_safe sink_start sink_at_ok)
next
  case False
  then have "mb_count state \<le> 4" using assms by (auto simp: mb_ok_def)
  with False assms show ?thesis
    by (simp add: libc_utf32to8_def Let_def count_and_7f resume_bytes_at conv_safe_return utf32_loop_safe sink_at_ok)
qed

lemma utf16to8_safe [safe]:
  assumes "mb_ok state" "n \<le> length buf"
  shows "conv_safe mode (length buf) (libc_utf16to8 src buf n state mode)"
proof -
  consider "mb_count state = 0" | "mb_count state = 128" | "1 \<le> mb_count state" "mb_count state \<le> 3"
    using assms by (force simp: mb_ok_def)
  then show ?thesis
  proof cases
    case 1
    then show ?thesis using assms
      by (simp add: libc_utf16to8_def Let_def conv_safe_return utf16_loop_safe sink_start sink_at_ok)
  next
    case 2
    let ?t = "(buf, n)"
    have "ctl_ok (length buf) (do_high_surrogate mode (ucast (mb_word16 state)) src (sink_at ?t ([], 0)))"
      using assms by (simp add: do_high_surrogate_safe sink_at_ok)
    then have "ctl_ok (length buf) (case do_high_surrogate mode (ucast (mb_word16 state)) src (sink_at ?t ([], 0)) of
        Next src k \<Rightarrow> utf16_loop mode src k | x \<Rightarrow> x)"
      by (cases "do_high_surrogate mode (ucast (mb_word16 state)) src (sink_at ?t ([], 0))") (simp_all add: utf16_loop_safe)
    with 2 assms count_and_80 [of state] show ?thesis by (simp add: libc_utf16to8_def Let_def conv_safe_return sink_start)
  next
    case 3
    with assms count_and_80 [of state] show ?thesis
      by (simp add: libc_utf16to8_def Let_def resume_bytes_at conv_safe_return utf16_loop_safe sink_at_ok)
  qed
qed

end
