(* ===== verification/Unicode_Uniform.thy ===== *)
theory Unicode_Uniform
  imports Unicode_Buffers
begin

text \<open>
  A conversion that does not update its source produces a text that does not depend on the buffer that it is given. The
  locale \<open>text_converter\<close> is this law, and holds what the functions that allocate their buffers do with it; the four
  conversions are its instances.
\<close>

section \<open>Conversions without update of the source\<close>

definition uniform :: "('d list \<times> nat \<Rightarrow> ('s, 'd sink) ctl) \<Rightarrow> bool" where
  "uniform f \<longleftrightarrow> (\<exists>x. (\<forall>src p. x \<noteq> Done_Update src p) \<and> (\<forall>t. f t = map_ctl id (sink_at t) x))"

lemma uniform_ctl [intro!]:
  "uniform (\<lambda>buf. Next src (sink_at buf p))" "uniform (\<lambda>buf. Break src (sink_at buf p))"
  "uniform (\<lambda>buf. Done src (sink_at buf p))" "uniform (\<lambda>buf. Error (sink_at buf p))"
  unfolding uniform_def
  by (rule exI [of _ "Next src p"], simp) (rule exI [of _ "Break src p"], simp, rule exI [of _ "Done src p"], simp,
      rule exI [of _ "Error p"], simp)

lemma uniform_if [intro!]:
  "(c \<Longrightarrow> uniform f) \<Longrightarrow> (\<not> c \<Longrightarrow> uniform g) \<Longrightarrow> uniform (\<lambda>buf. if c then f buf else g buf)"
  by (cases c) simp_all

lemma uniform_bind:
  assumes "uniform f" "\<And>src p. (\<And>buf. f buf = Next src (sink_at buf p)) \<Longrightarrow> uniform (\<lambda>buf. g src (sink_at buf p))"
  shows "uniform (\<lambda>buf. case f buf of Next src k \<Rightarrow> g src k | x \<Rightarrow> x)"
proof -
  obtain x where x: "\<And>src p. x \<noteq> Done_Update src p" "\<And>buf. f buf = map_ctl id (sink_at buf) x"
    using assms(1) unfolding uniform_def by blast
  show ?thesis by (cases x) (use x assms(2) in \<open>auto simp: uniform_ctl\<close>)
qed

definition putter_uniform :: "'d putter \<Rightarrow> bool" where
  "putter_uniform put \<longleftrightarrow> (\<forall>ch p. \<exists>q. \<forall>buf. put ch (sink_at buf p) = (True, sink_at buf q))"

lemma putter_uniform_32: "putter_uniform put_char32"
  by (auto simp: putter_uniform_def put_char32_def)

lemma putter_uniform_16: "\<not> flag mode UNICODE_F_UPDATESRC \<Longrightarrow> putter_uniform (put_char16 mode)"
  by (auto simp: putter_uniform_def put_char16_def Let_def)

subsection \<open>From UTF-8\<close>

lemma put_char_uniform: "putter_uniform put \<Longrightarrow> uniform (\<lambda>buf. put_char put mode ch src (sink_at buf p))"
proof -
  assume "putter_uniform put"
  then obtain q where "\<And>buf. put ch (sink_at buf p) = (True, sink_at buf q)" unfolding putter_uniform_def by blast
  then show ?thesis by (auto simp: put_char_def)
qed

lemma utf8_error_uniform: "putter_uniform put \<Longrightarrow> uniform (\<lambda>buf. utf8_error put mode src (sink_at buf p))"
  by (auto simp: utf8_error_def intro: put_char_uniform)

lemma need_more_uniform: "uniform (\<lambda>buf. need_more mode ch n src (sink_at buf p))"
  by (cases "flag mode UNICODE_F_ALWAYSZEROTERM") (auto simp: need_more_def Let_def)

lemma uniform_seq:
  assumes "putter_uniform put"
  shows "uniform (\<lambda>buf. case r of More ch m src \<Rightarrow> need_more mode ch (l - m) src (sink_at buf p)
    | Malformed src \<Rightarrow> utf8_error put mode src (sink_at buf q) | Complete ch src \<Rightarrow> put_char put mode ch src (sink_at buf q))"
  by (cases r) (simp_all add: assms need_more_uniform utf8_error_uniform put_char_uniform)

lemma utf8_step_uniform:
  assumes "putter_uniform put" "\<not> flag mode UNICODE_F_UPDATESRC"
  shows "uniform (\<lambda>buf. utf8_step put mode b src (sink_at buf p))"
  using assms(2) by (auto simp: utf8_step_def Let_def intro: utf8_error_uniform [OF assms(1)] uniform_seq [OF assms(1)])

lemma utf8_loop_uniform:
  assumes "putter_uniform put" "\<not> flag mode UNICODE_F_UPDATESRC"
  shows "uniform (\<lambda>buf. utf8_loop put mode src (sink_at buf p))"
proof (induction src arbitrary: p rule: length_induct)
  case (1 src)
  show ?case
  proof (cases src)
    case (Cons b bs)
    have "uniform (\<lambda>buf. utf8_loop put mode src' (sink_at buf q))"
      if "\<And>buf. utf8_step put mode b bs (sink_at buf p) = Next src' (sink_at buf q)" for src' q
    proof -
      have "length src' < length src" using utf8_step_Next [OF that] by (simp add: Cons)
      with 1 show ?thesis by blast
    qed
    from uniform_bind [OF utf8_step_uniform [OF assms] this] show ?thesis by (simp add: Cons)
  qed auto
qed

lemma utf8_resume_uniform:
  assumes "putter_uniform put" "\<not> flag mode UNICODE_F_UPDATESRC" "1 \<le> mb_count (snd p)" "mb_count (snd p) \<le> 3"
  shows "\<exists>f. (\<forall>buf. utf8_resume put mode src (sink_at buf p) = Inr (f buf)) \<and> uniform (\<lambda>buf. utf8_continue put mode (f buf))"
proof -
  let ?f = "\<lambda>buf. case read_missing False False (4 - mb_count (snd p)) (mb_word24 (snd p)) src of
      More ch m src \<Rightarrow> need_more mode ch (4 - m) src (sink_at buf p)
    | Malformed src \<Rightarrow> utf8_error put mode src (sink_at buf (fst p, 0))
    | Complete ch src \<Rightarrow> put_char put mode ch src (sink_at buf (fst p, 0))"
  have "\<forall>buf. utf8_resume put mode src (sink_at buf p) = Inr (?f buf)"
    using assms(2-4) by (simp add: utf8_resume_def Let_def split: seq.split)
  moreover have "uniform (\<lambda>buf. utf8_continue put mode (?f buf))"
    unfolding utf8_continue_def
    by (rule uniform_bind [OF uniform_seq [OF assms(1)]]) (rule utf8_loop_uniform [OF assms(1,2)])
  ultimately show ?thesis by (intro exI [of _ ?f] conjI)
qed

subsection \<open>To UTF-8\<close>

lemma put_char7_uniform: "\<not> flag mode UNICODE_F_UPDATESRC \<Longrightarrow> uniform (\<lambda>buf. put_char7 mode ch src (sink_at buf p))"
  by (auto simp: put_char7_def done_ch_def)

lemma encode_error_uniform: "\<not> flag mode UNICODE_F_UPDATESRC \<Longrightarrow> uniform (\<lambda>buf. encode_error mode src (sink_at buf p))"
  by (auto simp: encode_error_def intro: put_char7_uniform)

lemma put_temp_uniform:
  "\<not> flag mode UNICODE_F_UPDATESRC \<Longrightarrow> uniform (\<lambda>buf. put_temp mode back temp ts unread src (sink_at buf p))"
  by (induction ts arbitrary: p) (auto simp: done_ch_def)

lemma put_utf8_uniform:
  "\<not> flag mode UNICODE_F_UPDATESRC \<Longrightarrow> uniform (\<lambda>buf. put_utf8 mode back ch unread src (sink_at buf p))"
  by (cases "utf8_temp ch") (auto simp: put_utf8_def intro: put_char7_uniform encode_error_uniform put_temp_uniform)

lemma utf32_step_uniform: "\<not> flag mode UNICODE_F_UPDATESRC \<Longrightarrow> uniform (\<lambda>buf. utf32_step mode ch src (sink_at buf p))"
  by (auto simp: utf32_step_def intro: put_utf8_uniform encode_error_uniform)

lemma utf32_loop_uniform: "\<not> flag mode UNICODE_F_UPDATESRC \<Longrightarrow> uniform (\<lambda>buf. utf32_loop mode src (sink_at buf p))"
proof (induction src arbitrary: p)
  case (Cons ch src)
  from uniform_bind [OF utf32_step_uniform [OF Cons.prems] Cons.IH [OF Cons.prems]] show ?case by simp
qed auto

lemma do_high_surrogate_uniform:
  "\<not> flag mode UNICODE_F_UPDATESRC \<Longrightarrow> uniform (\<lambda>buf. do_high_surrogate mode ch src (sink_at buf p))"
  by (cases src) (auto simp: do_high_surrogate_def Let_def intro: put_utf8_uniform encode_error_uniform)

lemma utf16_step_uniform: "\<not> flag mode UNICODE_F_UPDATESRC \<Longrightarrow> uniform (\<lambda>buf. utf16_step mode u src (sink_at buf p))"
  by (auto simp: utf16_step_def Let_def intro: put_utf8_uniform do_high_surrogate_uniform)

lemma utf16_loop_uniform:
  assumes "\<not> flag mode UNICODE_F_UPDATESRC"
  shows "uniform (\<lambda>buf. utf16_loop mode src (sink_at buf p))"
proof (induction src arbitrary: p rule: length_induct)
  case (1 src)
  show ?case
  proof (cases src)
    case (Cons u us)
    have "uniform (\<lambda>buf. utf16_loop mode src' (sink_at buf q))"
      if "\<And>buf. utf16_step mode u us (sink_at buf p) = Next src' (sink_at buf q)" for src' q
    proof -
      have "length src' < length src" using utf16_step_Next [OF that] by (simp add: Cons)
      with 1 show ?thesis by blast
    qed
    from uniform_bind [OF utf16_step_uniform [OF assms] this] show ?thesis by (simp add: Cons)
  qed auto
qed

section \<open>The law of the conversions\<close>

text \<open>What a call comes to: a text and the shift state behind it, an error return, or an exception.\<close>

datatype 'd outcome = Text "'d list" mbstate | Failed "errno option" "'d list" mbstate | Raised kos_error "'d list"

primrec written :: "'d outcome \<Rightarrow> 'd list" where
  "written (Text out s) = out"
| "written (Failed e out s) = out"
| "written (Raised e out) = out"

text \<open>What a call with the outcome \<open>y\<close> returns for a target, the memory with the length that is given for it.\<close>

definition deliver :: "'s list \<Rightarrow> mbstate \<Rightarrow> 'd list \<times> nat \<Rightarrow> 'd outcome \<Rightarrow> (uret \<times> 's list \<times> 'd sink) result" where
  "deliver src orig t y =
     (if overrun t (written y) then Inl E_SEGFAULT
      else case y of
        Text out s \<Rightarrow> Inr (Ret (length out), src, sink_at t (out, if snd t < length out then orig else s))
      | Failed e out s \<Rightarrow> Inr (UNICODE_ERROR e, src, sink_at t (out, s))
      | Raised e out \<Rightarrow> Inl e)"

definition sizing_mode :: "32 word \<Rightarrow> bool" where
  "sizing_mode mode \<longleftrightarrow> \<not> flag mode UNICODE_F_UPDATESRC \<and> \<not> flag mode UNICODE_F_BUFERROR"

lemma conv_done_deliver:
  "sizing_mode mode \<Longrightarrow> conv_done mode src0 orig src (sink_at buf p) = deliver src0 orig buf (Text (fst p) (snd p))"
  by (simp add: conv_done_def deliver_def sizing_mode_def unless_fault_def)

text \<open>The outcome of what a conversion loop ends with.\<close>

definition outcome_of :: "32 word \<Rightarrow> ('s, 'd :: zero list \<times> mbstate) ctl \<Rightarrow> 'd outcome" where
  "outcome_of mode x =
     (let terminated = \<lambda>p. if flag mode UNICODE_F_NOZEROTERM then fst p else fst p @ [0] in
      case x of
        Next src p \<Rightarrow> Text (terminated p) (snd p)
      | Break src p \<Rightarrow> Text (terminated p) (snd p)
      | Done src p \<Rightarrow> Text (fst p) (snd p)
      | Done_Update src p \<Rightarrow> Text (fst p) (snd p)
      | Error p \<Rightarrow>
          (if flag mode UNICODE_F_SETERRNO
           then if flag mode UNICODE_F_EXCEPT then Raised E_UNICODE_ERROR (fst p) else Failed (Some EILSEQ) (fst p) (snd p)
           else Failed None (fst p) (snd p)))"

lemma conv_return_outcome:
  "sizing_mode mode \<Longrightarrow> \<forall>src p. x \<noteq> Done_Update src p \<Longrightarrow>
    conv_return mode src0 orig (map_ctl id (sink_at buf) x) = deliver src0 orig buf (outcome_of mode x)"
  by (cases x) (simp_all add: conv_return_def outcome_of_def conv_done_deliver, simp_all add: deliver_def unless_fault_def)

lemma conv_return_deliver:
  assumes "uniform f" "sizing_mode mode"
  shows "\<exists>y. \<forall>buf n. n \<le> length buf \<longrightarrow> conv_return mode src orig (f (buf, n)) = deliver src orig (buf, n) y"
proof -
  obtain x where x: "\<forall>src p. x \<noteq> Done_Update src p" "\<And>buf. f buf = map_ctl id (sink_at buf) x"
    using assms(1) unfolding uniform_def by blast
  show ?thesis unfolding x(2) conv_return_outcome [OF assms(2) x(1)] by blast
qed

locale text_converter =
  fixes conv :: "'s list \<Rightarrow> 'd list \<Rightarrow> nat \<Rightarrow> mbstate \<Rightarrow> 32 word \<Rightarrow> (uret \<times> 's list \<times> 'd sink) result"
  assumes independent: "mb_ok state \<Longrightarrow> sizing_mode mode \<Longrightarrow>
    \<exists>y. \<forall>buf n. n \<le> length buf \<longrightarrow> conv src buf n state mode = deliver src state (buf, n) y"

lemma sizing_mode_update: "sizing_mode mode \<Longrightarrow> \<not> flag mode UNICODE_F_UPDATESRC"
  by (simp add: sizing_mode_def)

lemmas update_free = utf8_loop_uniform [OF putter_uniform_32 sizing_mode_update]
  utf8_loop_uniform [OF putter_uniform_16 [OF sizing_mode_update] sizing_mode_update]
  utf32_loop_uniform [OF sizing_mode_update] utf16_loop_uniform [OF sizing_mode_update]

interpretation utf8to32: text_converter libc_utf8to32
proof
  fix state mode and src :: "byte list"
  assume ok: "mb_ok state" and mode: "sizing_mode mode"
  show "\<exists>y. \<forall>buf n. n \<le> length buf \<longrightarrow> libc_utf8to32 src buf n state mode = deliver src state (buf, n) y"
  proof (cases "mb_count state mod 128 = 0")
    case True
    then show ?thesis using conv_return_deliver [OF update_free(1) [OF mode] mode, of src state src "([], state)"]
      by (simp add: libc_utf8to32_def Let_def count_and_7f sink_start)
  next
    case False
    then have "1 \<le> mb_count state" "mb_count state \<le> 3" using ok by (auto simp: mb_ok_def)
    then obtain f where f: "\<And>buf. utf8_resume put_char32 mode src (sink_at buf ([], state)) = Inr (f buf)"
        and u: "uniform (\<lambda>buf. utf8_continue put_char32 mode (f buf))"
      using utf8_resume_uniform [OF putter_uniform_32 sizing_mode_update [OF mode], of "([], state)" src] by auto
    from conv_return_deliver [OF u mode, of src state] False show ?thesis
      by (simp add: libc_utf8to32_def Let_def count_and_7f sink_start f)
  qed
qed

interpretation utf8to16: text_converter libc_utf8to16
proof
  fix state mode and src :: "byte list"
  assume ok: "mb_ok state" and mode: "sizing_mode mode"
  note update = sizing_mode_update [OF mode]
  note loop = conv_return_deliver [OF update_free(2) [OF mode mode] mode, of src state src]
  consider "mb_count state = 0" | "mb_count state = 128" | "1 \<le> mb_count state" "mb_count state \<le> 3"
    using ok by (force simp: mb_ok_def)
  then show "\<exists>y. \<forall>buf n. n \<le> length buf \<longrightarrow> libc_utf8to16 src buf n state mode = deliver src state (buf, n) y"
  proof cases
    case 1
    then show ?thesis using loop [of "([], state)"] by (simp add: libc_utf8to16_def Let_def sink_start)
  next
    case 2
    then show ?thesis using loop [of "([mb_word16 state], 0)"] count_and_80 [of state] update
      by (simp add: libc_utf8to16_def Let_def sink_start)
  next
    case 3
    then obtain f where f: "\<And>buf. utf8_resume (put_char16 mode) mode src (sink_at buf ([], state)) = Inr (f buf)"
        and u: "uniform (\<lambda>buf. utf8_continue (put_char16 mode) mode (f buf))"
      using utf8_resume_uniform [OF putter_uniform_16 [OF update] update, of "([], state)" src] by auto
    from conv_return_deliver [OF u mode, of src state] 3 count_and_80 [of state] show ?thesis
      by (simp add: libc_utf8to16_def Let_def sink_start f)
  qed
qed

interpretation utf32to8: text_converter libc_utf32to8
proof
  fix state mode and src :: "32 word list"
  assume ok: "mb_ok state" and mode: "sizing_mode mode"
  note loop = conv_return_deliver [OF update_free(3) [OF mode] mode, of src state src]
  show "\<exists>y. \<forall>buf n. n \<le> length buf \<longrightarrow> libc_utf32to8 src buf n state mode = deliver src state (buf, n) y"
  proof (cases "mb_count state mod 128 = 0")
    case True
    then show ?thesis using loop [of "([], state)"] by (simp add: libc_utf32to8_def Let_def count_and_7f sink_start)
  next
    case False
    then have "mb_count state \<le> 4" using ok by (auto simp: mb_ok_def)
    with False show ?thesis using loop [of "(take (mb_count state) (mb_bytes state), 0)"]
      by (simp add: libc_utf32to8_def Let_def count_and_7f resume_bytes_at)
  qed
qed

interpretation utf16to8: text_converter libc_utf16to8
proof
  fix state mode and src :: "16 word list"
  assume ok: "mb_ok state" and mode: "sizing_mode mode"
  note loop = conv_return_deliver [OF update_free(4) [OF mode] mode, of src state src]
  consider "mb_count state = 0" | "mb_count state = 128" | "1 \<le> mb_count state" "mb_count state \<le> 3"
    using ok by (force simp: mb_ok_def)
  then show "\<exists>y. \<forall>buf n. n \<le> length buf \<longrightarrow> libc_utf16to8 src buf n state mode = deliver src state (buf, n) y"
  proof cases
    case 1
    then show ?thesis using loop [of "([], state)"] by (simp add: libc_utf16to8_def Let_def sink_start)
  next
    case 2
    have "uniform (\<lambda>buf. case do_high_surrogate mode (ucast (mb_word16 state)) src (sink_at buf ([], 0)) of
        Next src k \<Rightarrow> utf16_loop mode src k | x \<Rightarrow> x)"
      by (rule uniform_bind [OF do_high_surrogate_uniform [OF sizing_mode_update [OF mode]] update_free(4) [OF mode]])
    from conv_return_deliver [OF this mode, of src state] 2 count_and_80 [of state] show ?thesis
      by (simp add: libc_utf16to8_def Let_def sink_start)
  next
    case 3
    then show ?thesis using loop [of "(take (mb_count state) (mb_bytes state), 0)"] count_and_80 [of state]
      by (simp add: libc_utf16to8_def Let_def resume_bytes_at)
  qed
qed

section \<open>Strings in heap memory\<close>

text \<open>What is documented of \<^verbatim>\<open>malloc\<close> and \<^verbatim>\<open>realloc\<close>: memory of the size asked for, in which \<^verbatim>\<open>realloc\<close> keeps what was there,
  or \<^verbatim>\<open>NULL\<close>. The size is in bytes.\<close>

definition heap_laws :: "'a :: len word heap_alloc \<Rightarrow> 'a word heap_realloc \<Rightarrow> bool" where
  "heap_laws alloc realloc \<longleftrightarrow>
     (\<forall>n ys. alloc n = Some ys \<longrightarrow> length ys = n div unit_size TYPE('a)) \<and>
     (\<forall>xs n ys. realloc xs n = Some ys \<longrightarrow>
        length ys = n div unit_size TYPE('a) \<and> take (n div unit_size TYPE('a)) xs = take (length xs) ys)"

text \<open>The heap does not run out of memory.\<close>

definition heap_total :: "'d heap_alloc \<Rightarrow> 'd heap_realloc \<Rightarrow> bool" where
  "heap_total alloc realloc \<longleftrightarrow> (\<forall>n. alloc n \<noteq> None) \<and> (\<forall>xs n. realloc xs n \<noteq> None)"

text \<open>A number of units whose size in bytes does not wrap.\<close>

definition size_fits :: "'a :: len word itself \<Rightarrow> nat \<Rightarrow> bool" where
  "size_fits t n \<longleftrightarrow> n * unit_size TYPE('a) < 2 ^ 32 \<and> unit_size TYPE('a) \<noteq> 0"

lemma size_fits_mono: "size_fits t n \<Longrightarrow> m \<le> n \<Longrightarrow> size_fits t m"
  unfolding size_fits_def by (meson le_less_trans mult_le_mono1)

lemma size_fits_units [simp]:
  "size_fits TYPE('a :: len word) n \<Longrightarrow> size_t (n * unit_size TYPE('a)) div unit_size TYPE('a) = n"
  by (simp add: size_fits_def size_t_def)

lemma unit_size_simps [simp]: "unit_size TYPE(8) = 1" "unit_size TYPE(16) = 2" "unit_size TYPE(32) = 4"
  by (simp_all add: unit_size_def)

lemma size_fits_iff [simp]:
  "size_fits TYPE(8 word) n \<longleftrightarrow> n < 2 ^ 32" "size_fits TYPE(16 word) n \<longleftrightarrow> n < 2 ^ 31" "size_fits TYPE(32 word) n \<longleftrightarrow> n < 2 ^ 30"
  by (auto simp: size_fits_def)

lemma heap_lawsD:
  assumes "heap_laws alloc realloc" "size_fits TYPE('a :: len word) n"
  shows "alloc (size_t (n * unit_size TYPE('a))) = Some (ys :: 'a word list) \<Longrightarrow> length ys = n"
    "realloc xs (size_t (n * unit_size TYPE('a))) = Some ys \<Longrightarrow> length ys = n \<and> take n xs = take (length xs) ys"
  using assms(1) size_fits_units [OF assms(2)] unfolding heap_laws_def by metis+

text \<open>The string that a function with the outcome \<open>y\<close> returns: \<^verbatim>\<open>NULL\<close> for an error, or when memory runs out.\<close>

definition string_result :: "bool \<Rightarrow> 'd outcome \<Rightarrow> 'd list option result option \<Rightarrow> bool" where
  "string_result enough y r \<longleftrightarrow>
     (case y of
        Text out s \<Rightarrow> r = Some (Inr (Some out)) \<or> r = Some (Inr None) \<and> \<not> enough
      | Failed _ _ _ \<Rightarrow> r = Some (Inr None)
      | Raised e _ \<Rightarrow> r = Some (Inl e) \<or> r = Some (Inr None) \<and> \<not> enough)"

definition Xstring_result :: "bool \<Rightarrow> 'd outcome \<Rightarrow> 'd list result option \<Rightarrow> bool" where
  "Xstring_result enough y r \<longleftrightarrow>
     (case y of
        Text out s \<Rightarrow> r = Some (Inr out) \<or> r = Some (Inl E_BADALLOC) \<and> \<not> enough
      | Failed _ _ _ \<Rightarrow> False
      | Raised e _ \<Rightarrow> r = Some (Inl e) \<or> r = Some (Inl E_BADALLOC) \<and> \<not> enough)"

lemma realloc_shrink:
  assumes "length ys = length out \<and> take (length out) (fill buf out) = take (length (fill buf out)) ys" "length out \<le> length buf"
  shows "ys = out"
proof -
  have "take (length (fill buf out)) ys = ys" using assms by simp
  with assms(1) show ?thesis by (simp only: take_fill [OF assms(2)])
qed

lemma deliver_Text:
  "n \<le> length buf \<Longrightarrow> deliver src orig (buf, n) (Text out s) =
    Inr (Ret (length out), src, sink_at (buf, n) (out, if n < length out then orig else s))"
  by (simp add: deliver_def)

text \<open>One turn of the loops, with a buffer of the length that is given for it.\<close>

lemma ms_turn:
  fixes conv :: "('s, 'a :: len word) converter"
  assumes "conv buf (length buf) = deliver src orig (buf, length buf) (Text out s)"
  shows "ms_again conv realloc buf (length buf) =
      (if length out = length buf then Some (Inr (Some out))
       else case realloc (fill buf out) (size_t (length out * unit_size TYPE('a))) of
         None \<Rightarrow> Some (Inr None)
       | Some ys \<Rightarrow> if length buf < length out then ms_again conv realloc ys (length out) else Some (Inr (Some ys)))"
    "Xms_again conv realloc buf (length buf) =
      (if length out = length buf then Some (Inr out)
       else case realloc (fill buf out) (size_t (length out * unit_size TYPE('a))) of
         None \<Rightarrow> Some (Inl E_BADALLOC)
       | Some ys \<Rightarrow> if length buf < length out then Xms_again conv realloc ys (length out) else Some (Inr ys))"
  by (subst ms_again.simps, simp add: assms deliver_Text fill_exact)
    (subst Xms_again.simps, simp add: assms deliver_Text fill_exact size_of_ret_def Let_def split: option.split)

lemma ms_stop:
  "conv buf (length buf) = deliver src orig (buf, length buf) (Failed e out s) \<Longrightarrow> ms_again conv realloc buf (length buf) = Some (Inr None)"
  "conv buf (length buf) = deliver src orig (buf, length buf) (Raised f out) \<Longrightarrow> ms_again conv realloc buf (length buf) = Some (Inl f)"
  "conv buf (length buf) = deliver src orig (buf, length buf) (Raised f out) \<Longrightarrow> Xms_again conv realloc buf (length buf) = Some (Inl f)"
  by (simp_all add: deliver_def) (subst ms_again.simps, simp, subst ms_again.simps, simp, subst Xms_again.simps, simp)

lemma ms_text:
  fixes conv :: "('s, 'a :: len word) converter"
  assumes conv: "\<And>buf. conv buf (length buf) = deliver src orig (buf, length buf) (Text out s)" and heap: "heap_laws alloc realloc"
    and fits: "size_fits TYPE('a word) (length out)"
  shows "string_result (heap_total alloc realloc) (Text out s) (ms_again conv realloc buf (length buf))"
    "Xstring_result (heap_total alloc realloc) (Text out s) (Xms_again conv realloc buf (length buf))"
proof -
  note turn = ms_turn [of conv, OF conv, of realloc]
  have "string_result (heap_total alloc realloc) (Text out s) (ms_again conv realloc buf (length buf)) \<and>
    Xstring_result (heap_total alloc realloc) (Text out s) (Xms_again conv realloc buf (length buf))"
  proof (cases "realloc (fill buf out) (size_t (length out * unit_size TYPE('a)))")
    case None
    then have "\<not> heap_total alloc realloc" by (auto simp: heap_total_def)
    moreover have "ms_again conv realloc buf (length buf) \<in> {Some (Inr (Some out)), Some (Inr None)}" by (subst turn) (simp add: None)
    moreover have "Xms_again conv realloc buf (length buf) \<in> {Some (Inr out), Some (Inl E_BADALLOC)}" by (subst turn) (simp add: None)
    ultimately show ?thesis by (simp add: string_result_def Xstring_result_def)
  next
    case (Some ys)
    note ys = heap_lawsD(2) [OF heap fits Some]
    then have again: "ms_again conv realloc ys (length out) = Some (Inr (Some out))" "Xms_again conv realloc ys (length out) = Some (Inr out)"
      using turn [of ys] by simp_all
    have "\<not> length buf < length out \<longrightarrow> ys = out" using realloc_shrink [OF ys] by simp
    with again have "ms_again conv realloc buf (length buf) = Some (Inr (Some out))" "Xms_again conv realloc buf (length buf) = Some (Inr out)"
      by (simp_all only: turn [of buf] Some option.case) auto
    then show ?thesis by (simp add: string_result_def Xstring_result_def)
  qed
  then show "string_result (heap_total alloc realloc) (Text out s) (ms_again conv realloc buf (length buf))"
    "Xstring_result (heap_total alloc realloc) (Text out s) (Xms_again conv realloc buf (length buf))" by blast+
qed

lemma ms_outcome:
  fixes conv :: "('s, 'a :: len word) converter"
  assumes conv: "\<And>buf. conv buf (length buf) = deliver src orig (buf, length buf) y" and heap: "heap_laws alloc realloc"
    and n: "size_fits TYPE('a word) n" and fits: "\<And>out s. y = Text out s \<Longrightarrow> size_fits TYPE('a word) (length out)"
  shows "string_result (heap_total alloc realloc) y (ms_start conv alloc realloc n)"
    "(\<And>e out s. y \<noteq> Failed e out s) \<Longrightarrow> Xstring_result (heap_total alloc realloc) y (Xms_start conv alloc realloc n)"
proof -
  let ?n = "size_t (n * unit_size TYPE('a))"
  have none: "alloc ?n = None \<Longrightarrow> \<not> heap_total alloc realloc" by (auto simp: heap_total_def)
  have some: "alloc ?n = Some buf \<Longrightarrow> n = length buf" for buf using heap_lawsD(1) [OF heap n] by simp
  note defs = ms_start_def Xms_start_def string_result_def Xstring_result_def
  show "string_result (heap_total alloc realloc) y (ms_start conv alloc realloc n)"
  proof (cases y)
    case (Text out s)
    with ms_text(1) [of conv, OF conv [unfolded Text] heap fits [OF Text]] none some show ?thesis
      by (cases "alloc ?n") (auto simp: ms_start_def string_result_def)
  next
    case (Failed e out s)
    with ms_stop(1) [of conv, OF conv [unfolded Failed]] some show ?thesis by (cases "alloc ?n") (auto simp: defs)
  next
    case (Raised e out)
    with ms_stop(2) [of conv, OF conv [unfolded Raised]] none some show ?thesis by (cases "alloc ?n") (auto simp: defs)
  qed
  assume no: "\<And>e out s. y \<noteq> Failed e out s"
  then show "Xstring_result (heap_total alloc realloc) y (Xms_start conv alloc realloc n)"
  proof (cases y)
    case (Text out s)
    with ms_text(2) [of conv, OF conv [unfolded Text] heap fits [OF Text]] none some show ?thesis
      by (cases "alloc ?n") (auto simp: Xms_start_def Xstring_result_def)
  next
    case (Raised e out)
    with ms_stop(3) [of conv, OF conv [unfolded Raised]] none some show ?thesis by (cases "alloc ?n") (auto simp: defs)
  qed (use no in blast)
qed

text \<open>A first buffer whose size in bytes wraps: the text does not fit the memory, but the length that is given for it.\<close>

lemma ms_overrun:
  fixes conv :: "('s, 'a :: len word) converter"
  assumes "\<And>buf. conv buf n = deliver src orig (buf, n) y" "heap_laws alloc realloc" "heap_total alloc realloc"
    and "size_t (n * unit_size TYPE('a)) div unit_size TYPE('a) < min n (length (written y))"
  shows "ms_start conv alloc realloc n = Some (Inl E_SEGFAULT)" "Xms_start conv alloc realloc n = Some (Inl E_SEGFAULT)"
proof -
  let ?n = "size_t (n * unit_size TYPE('a))"
  have "alloc ?n \<noteq> None" using assms(3) unfolding heap_total_def by blast
  then obtain buf where buf: "alloc ?n = Some buf" by blast
  then have "length buf = ?n div unit_size TYPE('a)" using assms(2) unfolding heap_laws_def by blast
  then have "conv buf n = Inl E_SEGFAULT" using assms(4) by (simp add: assms(1) deliver_def overrun_def)
  with buf show "ms_start conv alloc realloc n = Some (Inl E_SEGFAULT)" "Xms_start conv alloc realloc n = Some (Inl E_SEGFAULT)"
    by (simp_all add: ms_start_def Xms_start_def ms_again.simps Xms_again.simps)
qed

subsection \<open>Strings that start out on the stack\<close>

lemma byte_realloc:
  assumes "heap_laws alloc realloc" "realloc xs n = Some (ys :: byte list)"
  shows "length ys = n \<and> take n xs = take (length xs) ys"
  using assms unfolding heap_laws_def by simp

lemma load_loop_last:
  assumes "heap_laws alloc realloc"
  shows "load_loop conv realloc out (length out) (length out) = Some (case realloc out (length out) of None \<Rightarrow> Inr None | Some z \<Rightarrow> Inr (Some out))"
    "Xload_loop conv realloc out (length out) (length out) = Some (case realloc out (length out) of None \<Rightarrow> Inl E_BADALLOC | Some z \<Rightarrow> Inr out)"
proof -
  have z: "z = out" if "realloc out (length out) = Some z" for z using byte_realloc [OF assms that] by (metis order_refl take_all)
  show "load_loop conv realloc out (length out) (length out) = Some (case realloc out (length out) of None \<Rightarrow> Inr None | Some z \<Rightarrow> Inr (Some out))"
    by (subst load_loop.simps) (simp add: z split: option.split)
  show "Xload_loop conv realloc out (length out) (length out) = Some (case realloc out (length out) of None \<Rightarrow> Inl E_BADALLOC | Some z \<Rightarrow> Inr out)"
    by (subst Xload_loop.simps) (simp add: z split: option.split)
qed

lemma load_loop_first:
  assumes "\<And>buf. conv buf (length buf) = deliver src orig (buf, length buf) (Text out s)"
    and "realloc [] (length out) = Some ys" "length ys = length out" "out \<noteq> []"
  shows "load_loop conv realloc [] 0 (length out) = load_loop conv realloc out (length out) (length out)"
    "Xload_loop conv realloc [] 0 (length out) = Xload_loop conv realloc out (length out) (length out)"
  by (subst load_loop.simps, use assms(1) [of ys] in \<open>simp add: assms(2-4) deliver_Text fill_exact\<close>)
    (subst Xload_loop.simps, use assms(1) [of ys] in \<open>simp add: assms(2-4) deliver_Text fill_exact size_of_ret_def\<close>)

lemma load_loop_text:
  assumes conv: "\<And>buf. conv buf (length buf) = deliver src orig (buf, length buf) (Text out s)" and heap: "heap_laws alloc realloc" and out: "out \<noteq> []"
  shows "string_result (heap_total alloc realloc) (Text out s) (load_loop conv realloc [] 0 (length out))"
    "Xstring_result (heap_total alloc realloc) (Text out s) (Xload_loop conv realloc [] 0 (length out))"
proof -
  have none: "realloc xs n = None \<Longrightarrow> \<not> heap_total alloc realloc" for xs n by (auto simp: heap_total_def)
  have "string_result (heap_total alloc realloc) (Text out s) (load_loop conv realloc [] 0 (length out)) \<and>
    Xstring_result (heap_total alloc realloc) (Text out s) (Xload_loop conv realloc [] 0 (length out))"
  proof (cases "realloc [] (length out)")
    case None
    then have "load_loop conv realloc [] 0 (length out) = Some (Inr None)" "Xload_loop conv realloc [] 0 (length out) = Some (Inl E_BADALLOC)"
      by (subst load_loop.simps Xload_loop.simps; simp)+
    with none [OF None] show ?thesis by (simp add: string_result_def Xstring_result_def)
  next
    case (Some ys)
    then have "length ys = length out" using byte_realloc [OF heap] by blast
    from load_loop_first [of conv src orig out s realloc ys, OF conv Some this out] none [of out "length out"] show ?thesis
      by (simp add: load_loop_last [OF heap] string_result_def Xstring_result_def split: option.split)
  qed
  then show "string_result (heap_total alloc realloc) (Text out s) (load_loop conv realloc [] 0 (length out))"
    "Xstring_result (heap_total alloc realloc) (Text out s) (Xload_loop conv realloc [] 0 (length out))" by blast+
qed

lemma load_text:
  assumes conv: "\<And>buf. conv buf (length buf) = deliver src orig (buf, length buf) (Text out s)" and heap: "heap_laws alloc realloc"
    and buf: "length buf = UTF_STACK_BUFFER_SIZE"
  shows "(\<exists>z. load_start conv realloc buf = Some (Inr (Some z)) \<and> take (length out) z = out) \<or>
      load_start conv realloc buf = Some (Inr None) \<and> \<not> heap_total alloc realloc"
    "(\<exists>z. Xload_start conv realloc buf = Some (Inr z) \<and> take (length out) z = out) \<or>
      Xload_start conv realloc buf = Some (Inl E_BADALLOC) \<and> \<not> heap_total alloc realloc"
proof -
  have "out \<noteq> []" if "\<not> length out \<le> UTF_STACK_BUFFER_SIZE" using that by auto
  note loop = load_loop_text [of conv, OF conv heap this]
  have first: "conv buf UTF_STACK_BUFFER_SIZE = Inr (Ret (length out), src, sink_at (buf, length buf) (out, if length buf < length out then orig else s))"
    using conv [of buf] buf by (simp add: deliver_Text)
  show "(\<exists>z. load_start conv realloc buf = Some (Inr (Some z)) \<and> take (length out) z = out) \<or>
      load_start conv realloc buf = Some (Inr None) \<and> \<not> heap_total alloc realloc"
    using loop(1) buf by (cases "length out \<le> UTF_STACK_BUFFER_SIZE") (auto simp: load_start_def first take_fill string_result_def)
  show "(\<exists>z. Xload_start conv realloc buf = Some (Inr z) \<and> take (length out) z = out) \<or>
      Xload_start conv realloc buf = Some (Inl E_BADALLOC) \<and> \<not> heap_total alloc realloc"
    using loop(2) buf
    by (cases "length out \<le> UTF_STACK_BUFFER_SIZE") (auto simp: Xload_start_def first take_fill Xstring_result_def size_of_ret_def)
qed

section \<open>The interface\<close>

context text_converter
begin

lemma independent_length:
  assumes "sizing_mode mode"
  obtains y where "\<And>buf. conv src buf (length buf) 0 mode = deliver src 0 (buf, length buf) y"
  using independent [OF mb_ok_0 assms] that by (metis order_refl)

text \<open>The length of the text is what the conversion returns for a buffer of no length.\<close>

lemma text_length:
  assumes "\<And>buf. conv src buf (length buf) 0 mode = deliver src 0 (buf, length buf) (Text out s)"
  shows "\<exists>k. conv src [] 0 0 mode = Inr (Ret (length out), src, k)"
  using assms [of "[]"] by (simp add: deliver_Text)

end

end
