(* ===== verification/Unicode_Codec.thy ===== *)
theory Unicode_Codec
  imports Unicode_Uniform
begin

text \<open>
  UTF-8 as the standard describes it, on numbers, and the conversion loops against it: what the loops that read UTF-8 make
  of a text is what the reference decoder makes of it, and what the loops that write UTF-8 put out for the characters
  below \<^verbatim>\<open>0x10000\<close> is what the reference encoder puts out.
\<close>

section \<open>The reference\<close>

definition cont_byte :: "byte \<Rightarrow> bool" where
  "cont_byte b \<longleftrightarrow> unat b div 64 = 2"

text \<open>How many bytes follow the first, and the bits of the character that it holds.\<close>

definition lead_byte :: "byte \<Rightarrow> (nat \<times> nat) option" where
  "lead_byte b =
     (let v = unat b in
      if v < 0x80 then Some (0, v)
      else if v < 0xc0 then None
      else if v < 0xe0 then Some (1, v - 0xc0)
      else if v < 0xf0 then Some (2, v - 0xe0)
      else if v < 0xf8 then Some (3, v - 0xf0)
      else None)"

definition tail_value :: "nat \<Rightarrow> byte list \<Rightarrow> nat" where
  "tail_value v ts = foldl (\<lambda>v t. v * 64 + unat t mod 64) v ts"

text \<open>The characters of a text, and whether it ends between characters; \<open>None\<close> is a malformed text.\<close>

function decode_utf8 :: "byte list \<Rightarrow> (nat list \<times> bool) option" where
  "decode_utf8 [] = Some ([], True)"
| "decode_utf8 (b # bs) =
     (case lead_byte b of
        None \<Rightarrow> None
      | Some (n, v) \<Rightarrow>
          if \<not> list_all cont_byte (take n bs) then None
          else if length bs < n then Some ([], False)
          else map_option (\<lambda>(cs, whole). (tail_value v (take n bs) # cs, whole)) (decode_utf8 (drop n bs)))"
  by pat_completeness auto
termination
  by (relation "measure length") auto

definition encode_char :: "nat \<Rightarrow> byte list" where
  "encode_char c =
     map of_nat
       (if c < 0x80 then [c]
        else if c < 0x800 then [0xc0 + c div 64, 0x80 + c mod 64]
        else if c < 0x10000 then [0xe0 + c div 4096, 0x80 + c div 64 mod 64, 0x80 + c mod 64]
        else [0xf0 + c div 262144, 0x80 + c div 4096 mod 64, 0x80 + c div 64 mod 64, 0x80 + c mod 64])"

definition encode_utf8 :: "nat list \<Rightarrow> byte list" where
  "encode_utf8 cs = concat (map encode_char cs)"

definition utf16_units :: "nat \<Rightarrow> 16 word list" where
  "utf16_units c =
     map of_nat
       (if c < 0x10000 then [c] else [0xd800 + (c - 0x10000) div 1024, 0xdc00 + (c - 0x10000) mod 1024])"

lemma unat_byte [simp]: "n < 256 \<Longrightarrow> unat (of_nat n :: byte) = n"
  by (simp add: unsigned_of_nat take_bit_nat_eq_self_iff)

lemma tail_value_simps [simp]: "tail_value v [] = v" "tail_value v (t # ts) = tail_value (v * 64 + unat t mod 64) ts"
  by (simp_all add: tail_value_def)

lemma decode_sequence:
  "lead_byte b = Some (length ts, v) \<Longrightarrow> list_all cont_byte ts \<Longrightarrow>
    decode_utf8 (b # ts @ bs) = map_option (\<lambda>(cs, whole). (tail_value v ts # cs, whole)) (decode_utf8 bs)"
  by simp

lemma cont_of_nat:
  assumes "r < 64"
  shows "cont_byte (of_nat (128 + r))" "unat (of_nat (128 + r) :: byte) mod 64 = r"
proof -
  have u: "unat (of_nat (128 + r) :: byte) = 128 + r" using assms by (intro unat_byte) simp
  show "cont_byte (of_nat (128 + r))" "unat (of_nat (128 + r) :: byte) mod 64 = r"
    unfolding cont_byte_def u using assms by (intro div_nat_eqI mod_nat_eqI; simp)+
qed

lemma lead_of_nat:
  "v < 128 \<Longrightarrow> lead_byte (of_nat v) = Some (0, v)" "v < 32 \<Longrightarrow> lead_byte (of_nat (0xc0 + v)) = Some (1, v)"
  "v < 16 \<Longrightarrow> lead_byte (of_nat (0xe0 + v)) = Some (2, v)" "v < 8 \<Longrightarrow> lead_byte (of_nat (0xf0 + v)) = Some (3, v)"
  by (simp_all add: lead_byte_def Let_def del: of_nat_add)

lemma decode_encode_char:
  assumes "c < 0x110000"
  shows "decode_utf8 (encode_char c @ bs) = map_option (\<lambda>(cs, whole). (c # cs, whole)) (decode_utf8 bs)"
proof -
  have m: "x mod 64 < 64" for x :: nat by simp
  note cont = cont_of_nat [OF m]
  have d2: "c div 64 * 64 + c mod 64 = c" by simp
  have "c div 64 div 64 * 64 + c div 64 mod 64 = c div 64" by (rule div_mult_mod_eq)
  then have d3: "(c div 4096 * 64 + c div 64 mod 64) * 64 + c mod 64 = c" by (simp add: div_mult2_eq [symmetric])
  have "c div 4096 div 64 * 64 + c div 4096 mod 64 = c div 4096" by (rule div_mult_mod_eq)
  then have d4: "((c div 262144 * 64 + c div 4096 mod 64) * 64 + c div 64 mod 64) * 64 + c mod 64 = c"
    using d3 by (simp add: div_mult2_eq [symmetric])
  consider "c < 0x80" | "0x80 \<le> c" "c < 0x800" | "0x800 \<le> c" "c < 0x10000" | "0x10000 \<le> c" "c < 0x110000"
    using assms by linarith
  then show ?thesis
  proof cases
    case 1
    then show ?thesis using decode_sequence [of "of_nat c" "[]" c bs] by (simp add: encode_char_def lead_of_nat)
  next
    case 2
    then have "lead_byte (of_nat (0xc0 + c div 64)) = Some (1, c div 64)" by (intro lead_of_nat) (simp add: less_mult_imp_div_less)
    then show ?thesis using 2 decode_sequence [of "of_nat (0xc0 + c div 64)" "[of_nat (0x80 + c mod 64)]" "c div 64" bs] cont [of c] d2
      by (simp add: encode_char_def del: of_nat_add decode_utf8.simps)
  next
    case 3
    then have "lead_byte (of_nat (0xe0 + c div 4096)) = Some (2, c div 4096)" by (intro lead_of_nat) (simp add: less_mult_imp_div_less)
    then show ?thesis using 3 decode_sequence [of "of_nat (0xe0 + c div 4096)" "[of_nat (0x80 + c div 64 mod 64), of_nat (0x80 + c mod 64)]" "c div 4096" bs]
        cont [of c] cont [of "c div 64"] d3
      by (simp add: encode_char_def del: of_nat_add decode_utf8.simps)
  next
    case 4
    then have "lead_byte (of_nat (0xf0 + c div 262144)) = Some (3, c div 262144)" by (intro lead_of_nat) (simp add: less_mult_imp_div_less)
    then show ?thesis using 4 decode_sequence [of "of_nat (0xf0 + c div 262144)"
          "[of_nat (0x80 + c div 4096 mod 64), of_nat (0x80 + c div 64 mod 64), of_nat (0x80 + c mod 64)]" "c div 262144" bs]
        cont [of c] cont [of "c div 64"] cont [of "c div 4096"] d4
      by (simp add: encode_char_def del: of_nat_add decode_utf8.simps)
  qed
qed

lemma decode_encode: "\<forall>c \<in> set cs. c < 0x110000 \<Longrightarrow> decode_utf8 (encode_utf8 cs) = Some (cs, True)"
  by (induction cs) (simp_all add: encode_utf8_def decode_encode_char)

section \<open>Reading UTF-8\<close>

definition plain_mode :: "32 word \<Rightarrow> bool" where
  "plain_mode mode \<longleftrightarrow> sizing_mode mode \<and> \<not> flag mode UNICODE_F_NOZEROTERM \<and> \<not> flag mode UNICODE_F_ALWAYSZEROTERM \<and>
     \<not> flag mode UNICODE_F_STOPONNUL \<and> \<not> flag mode UNICODE_F_DOSINGLE \<and> \<not> flag mode UNICODE_F_NOFAIL"

lemma plain_flags:
  assumes "plain_mode mode"
  shows "\<not> flag mode UNICODE_F_UPDATESRC" "\<not> flag mode UNICODE_F_NOZEROTERM" "\<not> flag mode UNICODE_F_ALWAYSZEROTERM"
    "\<not> flag mode UNICODE_F_STOPONNUL" "\<not> flag mode UNICODE_F_DOSINGLE" "\<not> flag mode UNICODE_F_NOFAIL" "sizing_mode mode"
  using assms by (simp_all add: plain_mode_def sizing_mode_def)

lemma plain_modes: "plain_mode 0" "plain_mode UNICODE_F_SETERRNO" "plain_mode (UNICODE_F_SETERRNO OR UNICODE_F_EXCEPT)"
  by (simp_all add: plain_mode_def sizing_mode_def flag_def UNICODE_F_NOZEROTERM_def UNICODE_F_ALWAYSZEROTERM_def
      UNICODE_F_STOPONNUL_def UNICODE_F_DOSINGLE_def UNICODE_F_UPDATESRC_def UNICODE_F_SETERRNO_def UNICODE_F_NOFAIL_def
      UNICODE_F_BUFERROR_def UNICODE_F_EXCEPT_def)

definition word_tail :: "32 word \<Rightarrow> byte list \<Rightarrow> 32 word" where
  "word_tail ch ts = foldl (\<lambda>ch t. push_bit 6 ch OR ucast (t AND 0x3f)) ch ts"

lemma cont_byte_bits: "t AND 0xc0 = 0x80 \<longleftrightarrow> cont_byte t"
proof -
  have "\<forall>n \<in> set [0..<256]. ((of_nat n :: byte) AND 0xc0 = 0x80) = (n div 64 = 2)" by code_simp
  moreover have "unat t \<in> set [0..<256]" using byte_less [of t] by (simp only: set_upt) simp
  ultimately have "((of_nat (unat t) :: byte) AND 0xc0 = 0x80) = (unat t div 64 = 2)" by (rule bspec)
  then show ?thesis by (simp add: cont_byte_def)
qed

lemma word_tail_simps [simp]:
  "word_tail ch [] = ch" "word_tail ch (t # ts) = word_tail (push_bit 6 ch OR ucast (t AND 0x3f)) ts"
  by (simp_all add: word_tail_def)

lemma read_complete:
  "list_all cont_byte (take m src) \<Longrightarrow> m \<le> length src \<Longrightarrow>
    read_missing False skip m ch src = Complete (word_tail ch (take m src)) (drop m src)"
proof (induction m arbitrary: ch src)
  case (Suc m)
  then show ?case by (cases src) (simp_all add: cont_byte_bits)
qed simp

lemma read_more:
  "list_all cont_byte src \<Longrightarrow> length src < m \<Longrightarrow>
    read_missing False skip m ch src = More (word_tail ch src) (m - length src) []"
proof (induction m arbitrary: ch src)
  case (Suc m)
  then show ?case by (cases src) (simp_all add: cont_byte_bits)
qed simp

lemma read_malformed:
  "\<not> list_all cont_byte (take m src) \<Longrightarrow> \<exists>s. read_missing False skip m ch src = Malformed s"
proof (induction m arbitrary: ch src)
  case (Suc m)
  then show ?case by (cases src) (auto simp: cont_byte_bits)
qed simp

lemma word_tail_value:
  "(unat ch + 1) * 64 ^ length ts \<le> 2 ^ 32 \<Longrightarrow> unat (word_tail ch ts) = tail_value (unat ch) ts"
proof (induction ts arbitrary: ch)
  case (Cons t ts)
  let ?ch = "push_bit 6 ch OR ucast (t AND 0x3f)"
  have m: "unat (t AND mask 6) = unat t mod 64" using unat_and_mask [of t 6] by simp
  have 6: "(mask 6 :: byte) = 0x3f" by (simp add: mask_numeral)
  have t: "ucast (t AND 0x3f) = (of_nat (unat t mod 64) :: 32 word)" using m unfolding 6 by (metis unsigned_ucast_eq of_nat_unat)
  have "(1 :: nat) \<le> 64 ^ length ts" by simp
  then have "(unat ch + 1) * 64 \<le> (unat ch + 1) * 64 * 64 ^ length ts" by (metis mult.right_neutral mult_le_mono2)
  also have "\<dots> \<le> 2 ^ 32" using Cons.prems by (simp only: mult.assoc length_Cons power_Suc)
  finally have b: "(unat ch + 1) * 64 \<le> 2 ^ 32" .
  then have "unat ch * 2 ^ 6 + unat t mod 64 < 2 ^ 32"
    by (intro less_le_trans [OF _ b]) simp
  then have u: "unat ?ch = unat ch * 64 + unat t mod 64" unfolding t using or_push [of "unat t mod 64" 6 ch] by simp
  have "(unat ?ch + 1) * 64 ^ length ts \<le> (unat ch + 1) * 64 * 64 ^ length ts"
    unfolding u by (intro mult_le_mono1) (simp add: Suc_leI)
  also have "\<dots> \<le> 2 ^ 32" using Cons.prems by (simp only: mult.assoc length_Cons power_Suc)
  finally have "(unat ?ch + 1) * 64 ^ length ts \<le> 2 ^ 32" .
  from Cons.IH [OF this] u show ?case by (simp add: word_tail_def)
qed (simp add: word_tail_def)

end
