(* ===== verification/Unicode_Decode.thy ===== *)
theory Unicode_Decode
  imports Unicode_Codec
begin

text \<open>
  The conversions from UTF-8 in the modes without special treatment of the text, against the reference decoder: the loop
  ends as the decoder does, and puts out the units of the characters that the decoder yields.
\<close>

section \<open>The loop\<close>

definition decoded :: "(32 word \<Rightarrow> 'd list) \<Rightarrow> (nat list \<times> bool) option \<Rightarrow> 'd list \<times> mbstate \<Rightarrow> 'd list \<times> mbstate \<Rightarrow> (byte, 'd list \<times> mbstate) ctl" where
  "decoded units d p q =
     (case d of
        None \<Rightarrow> Error q
      | Some (cs, whole) \<Rightarrow>
          let out = fst p @ concat (map (\<lambda>c. units (of_nat c)) cs) in
          if whole then Break [] (out, snd p) else Done [] (out, snd q))"

lemma lead_step:
  assumes "lead_byte b = Some (n, v)"
  shows "utf8_sequence_len ! unat b = Suc n" "unat (ucast b - utf8_offset ! n :: 32 word) = v" "(v + 1) * 64 ^ n \<le> 2 ^ 21"
proof -
  have l: "utf8_sequence_len ! unat b = (let n = unat b in if n < 128 then 1 else if n < 192 then 0 else if n < 224 then 2
     else if n < 240 then 3 else if n < 248 then 4 else 0)" unfolding Let_def by (rule sequence_len [OF byte_less])
  show "utf8_sequence_len ! unat b = Suc n" using assms l by (auto simp: lead_byte_def Let_def split: if_splits)
  have u: "unat (ucast b :: 32 word) = unat b" 
    using byte_less [of b] by (simp add: unsigned_ucast_eq take_bit_nat_eq_self)
  have "unat (ucast b - c :: 32 word) = unat b - unat c" if "unat c \<le> unat b" for c
    using that u by (simp add: unat_sub word_le_nat_alt)
  then show "unat (ucast b - utf8_offset ! n :: 32 word) = v"
    using assms u by (auto simp: lead_byte_def Let_def utf8_offset_def split: if_splits)
  show "(v + 1) * 64 ^ n \<le> 2 ^ 21" using assms by (auto simp: lead_byte_def Let_def split: if_splits)
qed

lemma no_lead_step: "lead_byte b = None \<Longrightarrow> utf8_sequence_len ! unat b = 0"
  using sequence_len [OF byte_less, of b] by (auto simp: lead_byte_def Let_def split: if_splits)

lemma utf8_loop_decodes:
  assumes plain: "plain_mode mode" and put: "\<And>buf p ch. put ch (sink_at buf p) = (True, sink_at buf (fst p @ units ch, snd p))"
  shows "\<exists>q. \<forall>buf. utf8_loop put mode src (sink_at buf p) = map_ctl id (sink_at buf) (decoded units (decode_utf8 src) p q)"
proof (induction src arbitrary: p rule: decode_utf8.induct)
  case 1
  show ?case by (simp add: decoded_def)
next
  case (2 b bs)
  note mode = plain_flags [OF plain]
  show ?case
  proof (cases "lead_byte b")
    case None
    then show ?thesis
      by (intro exI [of _ p]) (simp add: utf8_step_def no_lead_step utf8_error_def mode decoded_def)
  next
    case (Some nv)
    then obtain n v where nv: "lead_byte b = Some (n, v)" by (cases nv) auto
    note lead = lead_step [OF nv]
    define w :: "32 word" where "w = ucast b - utf8_offset ! n"
    have step: "utf8_step put mode b bs (sink_at buf p) =
        (case read_missing False True n w bs of
           More ch m src \<Rightarrow> need_more mode ch (Suc n - m) src (sink_at buf p)
         | Malformed src \<Rightarrow> utf8_error put mode src (sink_at buf p)
         | Complete ch src \<Rightarrow> put_char put mode ch src (sink_at buf p))" for buf
      by (simp add: utf8_step_def lead(1) mode w_def)
    consider "\<not> list_all cont_byte (take n bs)" | "list_all cont_byte (take n bs)" "length bs < n"
      | "list_all cont_byte (take n bs)" "n \<le> length bs" by linarith
    then show ?thesis
    proof cases
      case 1
      with read_malformed [OF 1, of True w] show ?thesis
        by (intro exI [of _ p]) (auto simp: step utf8_error_def mode decoded_def nv)
    next
      case 2
      let ?q = "(fst p, mb_set_count (word_tail w bs) (Suc n - (n - length bs)))"
      from 2 have "list_all cont_byte bs" by simp
      from read_more [OF this 2(2)] 2 show ?thesis
        by (intro exI [of _ ?q]) (simp add: step need_more_def mode decoded_def nv)
    next
      case 3
      define c where "c = tail_value v (take n bs)"
      have "(unat w + 1) * 64 ^ length (take n bs) \<le> 2 ^ 32" using lead(2,3) 3(2) by (simp add: w_def)
      then have "unat (word_tail w (take n bs)) = c" unfolding c_def using word_tail_value lead(2) by (simp add: w_def)
      moreover have "of_nat (unat (word_tail w (take n bs))) = word_tail w (take n bs)" by simp
      ultimately have ch: "word_tail w (take n bs) = of_nat c" by (simp only:)
      from "2.IH" [OF nv refl] 3 obtain q where
        q: "\<And>buf. utf8_loop put mode (drop n bs) (sink_at buf (fst p @ units (of_nat c), snd p)) =
          map_ctl id (sink_at buf) (decoded units (decode_utf8 (drop n bs)) (fst p @ units (of_nat c), snd p) q)" by fastforce
      have "utf8_loop put mode (b # bs) (sink_at buf p) = map_ctl id (sink_at buf) (decoded units (decode_utf8 (b # bs)) p q)" for buf
        using 3 q [of buf] by (auto simp: step read_complete put_char_def put mode ch nv decoded_def Let_def c_def [symmetric] split: option.splits)
      then show ?thesis by blast
    qed
  qed
qed

section \<open>The two conversions\<close>

lemma put_char32_units: "put_char32 ch (sink_at buf p) = (True, sink_at buf (fst p @ [ch], snd p))"
  by (simp add: put_char32_def)

definition word_units16 :: "32 word \<Rightarrow> 16 word list" where
  "word_units16 ch =
     (if ch \<le> 0xffff then [ucast ch]
      else [ucast (UNI_SURROGATE_HIGH_BEGIN OR drop_bit 10 (ch - 0x10000)), ucast (UNI_SURROGATE_LOW_BEGIN OR ((ch - 0x10000) AND 0x3ff))])"

lemma put_char16_units:
  "\<not> flag mode UNICODE_F_UPDATESRC \<Longrightarrow> put_char16 mode ch (sink_at buf p) = (True, sink_at buf (fst p @ word_units16 ch, snd p))"
  by (simp add: put_char16_def word_units16_def Let_def)

text \<open>The outcome of reading a text: the characters with a NUL behind them, but no NUL behind a text that ends inside of a
  character; or an error.\<close>

definition decode_outcome :: "32 word \<Rightarrow> (32 word \<Rightarrow> 'd :: zero list) \<Rightarrow> byte list \<Rightarrow> 'd outcome \<Rightarrow> bool" where
  "decode_outcome mode units src y \<longleftrightarrow>
     (case decode_utf8 src of
        None \<Rightarrow> (if flag mode UNICODE_F_SETERRNO
                  then if flag mode UNICODE_F_EXCEPT then (\<exists>out. y = Raised E_UNICODE_ERROR out) else (\<exists>out s. y = Failed (Some EILSEQ) out s)
                  else (\<exists>out s. y = Failed None out s))
      | Some (cs, whole) \<Rightarrow> \<exists>s. y = Text (concat (map (\<lambda>c. units (of_nat c)) cs) @ (if whole then [0] else [])) s)"

lemma decoded_outcome:
  "plain_mode mode \<Longrightarrow> decode_outcome mode units src (outcome_of mode (decoded units (decode_utf8 src) ([], s) q))"
  by (auto simp: decode_outcome_def outcome_of_def decoded_def plain_flags Let_def split: option.split prod.split)

lemma decoded_no_update: "\<forall>src p. decoded units d r q \<noteq> Done_Update src p"
  by (auto simp: decoded_def Let_def split: option.split prod.split)

lemma utf8to32_decodes:
  assumes "plain_mode mode"
  shows "\<exists>y. decode_outcome mode (\<lambda>c. [c]) src y \<and> (\<forall>buf n. libc_utf8to32 src buf n 0 mode = deliver src 0 (buf, n) y)"
proof -
  obtain q where "\<And>buf. utf8_loop put_char32 mode src (sink_at buf ([], 0)) =
      map_ctl id (sink_at buf) (decoded (\<lambda>c. [c]) (decode_utf8 src) ([], 0) q)"
    using utf8_loop_decodes [where put = put_char32 and units = "\<lambda>c. [c]" and src = src and p = "([], 0)", OF assms put_char32_units] by blast
  then have "libc_utf8to32 src buf n 0 mode = deliver src 0 (buf, n) (outcome_of mode (decoded (\<lambda>c. [c]) (decode_utf8 src) ([], 0) q))" for buf n
    by (simp add: libc_utf8to32_def Let_def sink_start conv_return_outcome [OF plain_flags(7) [OF assms] decoded_no_update])
  with decoded_outcome [OF assms] show ?thesis by blast
qed

lemma utf8to16_decodes:
  assumes "plain_mode mode"
  shows "\<exists>y. decode_outcome mode word_units16 src y \<and> (\<forall>buf n. libc_utf8to16 src buf n 0 mode = deliver src 0 (buf, n) y)"
proof -
  obtain q where "\<And>buf. utf8_loop (put_char16 mode) mode src (sink_at buf ([], 0)) =
      map_ctl id (sink_at buf) (decoded word_units16 (decode_utf8 src) ([], 0) q)"
    using 
      utf8_loop_decodes [where put = "put_char16 mode" and units = word_units16 and src = src and p = "([], 0)",
        OF assms put_char16_units [OF plain_flags(1) [OF assms]]] by blast
  then have "libc_utf8to16 src buf n 0 mode = deliver src 0 (buf, n) (outcome_of mode (decoded word_units16 (decode_utf8 src) ([], 0) q))" for buf n
    by (simp add: libc_utf8to16_def Let_def sink_start conv_return_outcome [OF plain_flags(7) [OF assms] decoded_no_update])
  with decoded_outcome [OF assms] show ?thesis by blast
qed

lemma or_base:
  assumes "unat X < 2 ^ n" "unat k * 2 ^ n + 2 ^ n \<le> 2 ^ 32"
  shows "unat (push_bit n k OR X :: 32 word) = unat k * 2 ^ n + unat X"
proof -
  have "unat k * 2 ^ n + unat X < 2 ^ 32" using assms by linarith
  from or_push [OF assms(1) this] show ?thesis by simp
qed

lemma ucast_eq_of_nat: "unat w = n \<Longrightarrow> ucast w = of_nat n"
  by (metis of_nat_unat)

lemma word_units16_units:
  assumes "c < 0x110000"
  shows "word_units16 (of_nat c) = utf16_units c"
proof -
  define w :: "32 word" where "w = of_nat c"
  have u: "unat w = c" unfolding w_def using assms by (intro unat_of_nat_32) simp
  show ?thesis unfolding w_def [symmetric]
  proof (cases "c < 0x10000")
    case True
    then have "w \<le> 0xffff" by (simp add: word_le_nat_alt u)
    with True ucast_eq_of_nat [OF u] show "word_units16 w = utf16_units c" by (simp add: word_units16_def utf16_units_def)
  next
    case False
    then have d: "unat (w - 0x10000) = c - 0x10000" by (simp add: unat_sub word_le_nat_alt u)
    have "(mask 10 :: 32 word) = 0x3ff" by (simp add: mask_numeral)
    then have low: "unat ((w - 0x10000) AND 0x3ff) = (c - 0x10000) mod 1024"
      using unat_and_mask [of "w - 0x10000" 10] d by simp
    have high: "unat (drop_bit 10 (w - 0x10000)) = (c - 0x10000) div 1024" using unat_drop [where n = 10 and w = "w - 0x10000"] d by simp
    have "(c - 0x10000) div 1024 < 1024" using assms by (simp add: less_mult_imp_div_less)
    then have "unat (UNI_SURROGATE_HIGH_BEGIN OR drop_bit 10 (w - 0x10000)) = 0xd800 + (c - 0x10000) div 1024"
      using or_base [of "drop_bit 10 (w - 0x10000)" 10 "0x36"] high by (simp add: UNI_SURROGATE_HIGH_BEGIN_def)
    moreover have "unat (UNI_SURROGATE_LOW_BEGIN OR ((w - 0x10000) AND 0x3ff)) = 0xdc00 + (c - 0x10000) mod 1024"
      using or_base [of "(w - 0x10000) AND 0x3ff" 10 "0x37"] low by (simp add: UNI_SURROGATE_LOW_BEGIN_def)
    moreover have "\<not> w \<le> 0xffff" using False by (simp add: word_le_nat_alt u)
    ultimately show "word_units16 w = utf16_units c"
      using False by (simp add: word_units16_def utf16_units_def ucast_eq_of_nat del: of_nat_add)
  qed
qed

section \<open>How long the result is\<close>

text \<open>A text of \<open>n\<close> bytes has at most \<open>n\<close> units: a character of one byte has one, and one of more bytes at most two.\<close>

lemma decode_units_length:
  assumes "\<And>c. c < 0x80 \<Longrightarrow> length (units c) \<le> 1" "\<And>c. length (units c) \<le> 2"
  shows "decode_utf8 src = Some (cs, whole) \<Longrightarrow> length (concat (map units cs)) \<le> length src"
proof (induction src arbitrary: cs whole rule: decode_utf8.induct)
  case (2 b bs)
  then obtain n v where nv: "lead_byte b = Some (n, v)" by (cases "lead_byte b") auto
  show ?case
  proof (cases "list_all cont_byte (take n bs) \<and> n \<le> length bs")
    case True
    with "2.prems" nv obtain ds where ds: "decode_utf8 (drop n bs) = Some (ds, whole)" "cs = tail_value v (take n bs) # ds"
      by (auto split: option.splits)
    with "2.IH" [OF nv refl] True have "length (concat (map units ds)) \<le> length bs - n" by auto
    moreover have "length (units (tail_value v (take n bs))) \<le> 1 + n"
    proof (cases n)
      case 0
      then have "v < 0x80" using nv by (auto simp: lead_byte_def Let_def split: if_splits)
      with 0 assms(1) show ?thesis by simp
    next
      case (Suc m)
      then show ?thesis using assms(2) [of "tail_value v (take n bs)"] by simp
    qed
    moreover have "n \<le> length bs" using True by simp
    ultimately show ?thesis using ds(2) by simp
  next
    case False
    with "2.prems" nv show ?thesis by (auto split: option.splits if_splits)
  qed
qed simp

lemma word_units16_length: "length (word_units16 ch) \<le> 2"
  by (simp add: word_units16_def)

lemma word_units16_ascii: "c < 0x80 \<Longrightarrow> length (word_units16 (of_nat c)) \<le> 1"
proof -
  assume "c < 0x80"
  then have "unat (of_nat c :: 32 word) = c" by (intro unat_of_nat_32) simp
  with \<open>c < 0x80\<close> show ?thesis by (simp add: word_units16_def word_le_nat_alt)
qed

end
