(* ===== verification/Unicode_Encode.thy ===== *)
theory Unicode_Encode
  imports Unicode_Decode
begin

text \<open>
  The conversions to UTF-8 in the modes without special treatment of the text: what they put out for one character, and for
  a text. Up to \<^verbatim>\<open>0xffff\<close> it is what the reference encoder puts out; characters above are given a first byte of
  \<^verbatim>\<open>0xe0\<close>, with which a sequence of three bytes starts, not \<^verbatim>\<open>0xf0\<close>.
\<close>

section \<open>One character\<close>

definition word_bytes :: "32 word \<Rightarrow> byte list" where
  "word_bytes ch = (if ch < 0x80 then [ucast ch] else the (utf8_temp ch))"

lemma put_temp_plain:
  "plain_mode mode \<Longrightarrow> put_temp mode back temp ts unread src (sink_at buf p) = Next src (sink_at buf (fst p @ ts, snd p))"
  by (induction ts arbitrary: p) (simp_all add: plain_flags done_ch_def)

lemma utf8_temp_Some: "ch \<le> 0x10ffff \<Longrightarrow> \<exists>temp. utf8_temp ch = Some temp"
  by (simp add: utf8_temp_def)

lemma put_utf8_plain:
  "plain_mode mode \<Longrightarrow> ch \<le> 0x10ffff \<Longrightarrow>
    put_utf8 mode back ch unread src (sink_at buf p) = Next src (sink_at buf (fst p @ word_bytes ch, snd p))"
  using utf8_temp_Some [of ch]
  by (auto simp: put_utf8_def put_char7_def done_ch_def plain_flags put_temp_plain word_bytes_def)

lemma put_utf8_high: "plain_mode mode \<Longrightarrow> \<not> ch \<le> 0x10ffff \<Longrightarrow> put_utf8 mode back ch unread src (sink_at buf p) = Error (sink_at buf p)"
  by (auto simp: put_utf8_def utf8_temp_def encode_error_def plain_flags word_less_nat_alt word_le_nat_alt)

lemma low_bits: "unat (0x80 OR (w AND 0x3f) :: 32 word) = 0x80 + unat w mod 64"
proof -
  have "(mask 6 :: 32 word) = 0x3f" by (simp add: mask_numeral)
  then have m: "unat (w AND 0x3f) = unat w mod 64" using unat_and_mask [of w 6] by simp
  then show ?thesis using or_base [of "w AND 0x3f" 7 1] by (simp add: less_trans [of _ 64])
qed

text \<open>The bytes per length of the encoding, with the ranges on natural numbers.\<close>

lemma utf8_temp_cases:
  "unat ch < 0x800 \<Longrightarrow> utf8_temp ch = Some [ucast (0xc0 OR drop_bit 6 ch), ucast (0x80 OR (ch AND 0x3f))]"
  "0x800 \<le> unat ch \<Longrightarrow> unat ch < 0x10000 \<Longrightarrow> utf8_temp ch =
     Some [ucast (0xe0 OR drop_bit 12 ch), ucast (0x80 OR (drop_bit 6 ch AND 0x3f)), ucast (0x80 OR (ch AND 0x3f))]"
  "0x10000 \<le> unat ch \<Longrightarrow> unat ch \<le> 0x10ffff \<Longrightarrow> utf8_temp ch =
     Some [ucast (0xe0 OR drop_bit 18 ch), ucast (0x80 OR (drop_bit 12 ch AND 0x3f)),
           ucast (0x80 OR (drop_bit 6 ch AND 0x3f)), ucast (0x80 OR (ch AND 0x3f))]"
  unfolding utf8_temp_def word_less_nat_alt word_le_nat_alt by simp_all

lemma word_bytes_encode:
  assumes "unat ch < 0x10000"
  shows "word_bytes ch = encode_char (unat ch)"
proof -
  have d: "unat (drop_bit n ch) = unat ch div 2 ^ n" for n by (rule unat_drop)
  note base = or_base [of "drop_bit 6 ch" 6 3] or_base [of "drop_bit 12 ch" 5 7]
  consider "unat ch < 0x80" | "0x80 \<le> unat ch" "unat ch < 0x800" | "0x800 \<le> unat ch" "unat ch < 0x10000" using assms by linarith
  then show ?thesis
  proof cases
    case 1
    then show ?thesis by (simp add: word_bytes_def encode_char_def word_less_nat_alt)
  next
    case 2
    then have "unat ch div 64 < 64" by (simp add: less_mult_imp_div_less)
    then have "unat (0xc0 OR drop_bit 6 ch :: 32 word) = 0xc0 + unat ch div 64" using base(1) d [of 6] by simp
    with 2 low_bits [of ch] show ?thesis
      by (simp add: word_bytes_def utf8_temp_cases encode_char_def word_less_nat_alt ucast_eq_of_nat del: of_nat_add)
  next
    case 3
    then have "unat ch div 4096 < 32" by (simp add: less_mult_imp_div_less)
    then have "unat (0xe0 OR drop_bit 12 ch :: 32 word) = 0xe0 + unat ch div 4096" using base(2) d [of 12] by simp
    with 3 low_bits [of ch] low_bits [of "drop_bit 6 ch"] d [of 6] show ?thesis
      by (simp add: word_bytes_def utf8_temp_cases encode_char_def word_less_nat_alt ucast_eq_of_nat del: of_nat_add)
  qed
qed

lemma word_bytes_high:
  assumes "0x10000 \<le> unat ch" "unat ch \<le> 0x10ffff"
  shows "word_bytes ch = map of_nat [0xe0 + unat ch div 262144, 0x80 + unat ch div 4096 mod 64, 0x80 + unat ch div 64 mod 64, 0x80 + unat ch mod 64]"
proof -
  have d: "unat (drop_bit n ch) = unat ch div 2 ^ n" for n by (rule unat_drop)
  have "unat ch div 262144 < 32" using assms(2) by (simp add: less_mult_imp_div_less)
  then have "unat (0xe0 OR drop_bit 18 ch :: 32 word) = 0xe0 + unat ch div 262144"
    using or_base [of "drop_bit 18 ch" 5 7] d [of 18] by simp
  with assms low_bits [of ch] low_bits [of "drop_bit 6 ch"] low_bits [of "drop_bit 12 ch"] d [of 6] d [of 12] show ?thesis
    by (simp add: word_bytes_def utf8_temp_cases word_less_nat_alt word_le_nat_alt ucast_eq_of_nat del: of_nat_add)
qed

section \<open>Texts\<close>

definition utf32_valid :: "32 word \<Rightarrow> bool" where
  "utf32_valid ch \<longleftrightarrow> \<not> (0xd800 \<le> ch \<and> ch \<le> 0xdfff) \<and> ch \<le> 0x10ffff"

lemma utf32_step_plain:
  assumes "plain_mode mode"
  shows "utf32_step mode ch src (sink_at buf p) =
    (if utf32_valid ch then Next src (sink_at buf (fst p @ word_bytes ch, snd p)) else Error (sink_at buf p))"
  using assms by (auto simp: utf32_step_def utf32_valid_def plain_flags put_utf8_plain put_utf8_high encode_error_def
      UNI_SURROGATE_HIGH_BEGIN_def UNI_SURROGATE_LOW_END_def)

lemma utf32_loop_plain:
  assumes "plain_mode mode"
  shows "\<exists>q. \<forall>buf. utf32_loop mode src (sink_at buf p) = map_ctl id (sink_at buf)
    (if list_all utf32_valid src then Break [] (fst p @ concat (map word_bytes src), snd p) else Error q)"
proof (induction src arbitrary: p)
  case (Cons ch src)
  show ?case
  proof (cases "utf32_valid ch")
    case True
    obtain q where "\<And>buf. utf32_loop mode src (sink_at buf (fst p @ word_bytes ch, snd p)) = map_ctl id (sink_at buf)
        (if list_all utf32_valid src then Break [] (fst p @ word_bytes ch @ concat (map word_bytes src), snd p) else Error q)"
      using Cons [of "(fst p @ word_bytes ch, snd p)"] unfolding fst_conv snd_conv append_assoc by blast
    with True show ?thesis by (intro exI [of _ q]) (simp add: utf32_step_plain [OF assms])
  next
    case False
    then show ?thesis by (intro exI [of _ p]) (simp add: utf32_step_plain [OF assms])
  qed
qed simp

text \<open>Units of UTF-16 that are not in the range of the second half of a pair.\<close>

definition utf16_single :: "16 word \<Rightarrow> bool" where
  "utf16_single u \<longleftrightarrow> unat u < 0xdc00 \<or> 0xdfff < unat u"

lemma unit_range: "unat (u :: 16 word) < 0x10000"
  using unsigned_less [of u] by simp

lemma unat_unit: "unat (ucast (u :: 16 word) :: 32 word) = unat u"
  using unit_range [of u] by (simp add: unsigned_ucast_eq take_bit_nat_eq_self)

lemma utf16_loop_singles:
  assumes "plain_mode mode" "list_all utf16_single us"
  shows "utf16_loop mode (us @ src) (sink_at buf p) = utf16_loop mode src (sink_at buf (fst p @ concat (map (\<lambda>u. word_bytes (ucast u)) us), snd p))"
  using assms(2)
proof (induction us arbitrary: p)
  case (Cons u us)
  have "(ucast u :: 32 word) \<le> 0x10ffff" using unit_range [of u] by (simp add: word_le_nat_alt unat_unit)
  then have "utf16_step mode u (us @ src) (sink_at buf p) = Next (us @ src) (sink_at buf (fst p @ word_bytes (ucast u), snd p))"
    using Cons.prems assms(1)
    by (auto simp: utf16_step_def utf16_single_def plain_flags put_utf8_plain word_le_nat_alt unat_unit UNI_SURROGATE_LOW_BEGIN_def UNI_SURROGATE_LOW_END_def)
  with Cons show ?case by simp
qed simp

lemma utf32to8_encodes:
  assumes "plain_mode mode" "list_all utf32_valid src"
  shows "libc_utf32to8 src buf n 0 mode = deliver src 0 (buf, n) (Text (concat (map word_bytes src) @ [0]) 0)"
proof -
  have "utf32_loop mode src (sink_at buf ([], 0)) = map_ctl id (sink_at buf) (Break [] (concat (map word_bytes src), 0))" for buf
    using utf32_loop_plain [OF assms(1), of src "([], 0)"] assms(2) by (cases buf) auto
  then show ?thesis
    by (simp add: libc_utf32to8_def Let_def sink_start conv_return_outcome [OF plain_flags(7) [OF assms(1)]] del: ctl.map)
      (simp add: outcome_of_def plain_flags [OF assms(1)])
qed

lemma utf16to8_encodes:
  assumes "plain_mode mode" "list_all utf16_single src"
  shows "libc_utf16to8 src buf n 0 mode = deliver src 0 (buf, n) (Text (concat (map (\<lambda>u. word_bytes (ucast u)) src) @ [0]) 0)"
proof -
  have "utf16_loop mode src (sink_at buf ([], 0)) = map_ctl id (sink_at buf) (Break [] (concat (map (\<lambda>u. word_bytes (ucast u)) src), 0))" for buf
    using utf16_loop_singles [OF assms, of "[]" buf "([], 0)"] by simp
  then show ?thesis
    by (simp add: libc_utf16to8_def Let_def sink_start conv_return_outcome [OF plain_flags(7) [OF assms(1)]] del: ctl.map)
      (simp add: outcome_of_def plain_flags [OF assms(1)])
qed

text \<open>A unit of that range at the end of the text: the conversion stops before it without a terminating NUL.\<close>

lemma utf16to8_open:
  assumes "plain_mode mode" "list_all utf16_single us" "\<not> utf16_single u"
  shows "libc_utf16to8 (us @ [u]) buf n 0 mode = deliver (us @ [u]) 0 (buf, n) (Text (concat (map (\<lambda>u. word_bytes (ucast u)) us)) 0)"
proof -
  let ?out = "concat (map (\<lambda>u. word_bytes (ucast u)) us)"
  have "utf16_step mode u [] (sink_at (buf, n) (?out, 0)) = Done [] (sink_at (buf, n) (?out, 0))"
    using assms(3) by (auto simp: utf16_step_def do_high_surrogate_def utf16_single_def plain_flags [OF assms(1)] word_le_nat_alt unat_unit
        UNI_SURROGATE_LOW_BEGIN_def UNI_SURROGATE_LOW_END_def)
  then have "utf16_loop mode (us @ [u]) (sink_at (buf, n) ([], 0)) = map_ctl id (sink_at (buf, n)) (Done [] (?out, 0))"
    using utf16_loop_singles [OF assms(1,2), of "[u]" "(buf, n)" "([], 0)"] by simp
  then show ?thesis
    by (simp add: libc_utf16to8_def Let_def sink_start conv_return_outcome [OF plain_flags(7) [OF assms(1)]] del: ctl.map)
      (simp add: outcome_of_def)
qed

section \<open>How long the result is\<close>

text \<open>The value of \<^verbatim>\<open>result\<close> at the end of a loop.\<close>

primrec ctl_result :: "('s, 'd sink) ctl \<Rightarrow> nat" where
  "ctl_result (Next src k) = sk_result k"
| "ctl_result (Break src k) = sk_result k"
| "ctl_result (Done src k) = sk_result k"
| "ctl_result (Done_Update src k) = sk_result k"
| "ctl_result (Error k) = sk_result k"

lemma put1_result [simp]: "sk_result (put1 c k) = Suc (sk_result k)"
  by (simp add: put1_def store_unit_def)

lemma skip_zero_result: "sk_result (skip_zero mode k) \<le> Suc (sk_result k)"
  by (simp add: skip_zero_def)

lemma put_char7_result: "ctl_result (put_char7 mode ch src k) \<le> Suc (sk_result k)"
  using skip_zero_result [of mode "k\<lparr>sk_state := mb_set_count ch 1\<rparr>"] by (simp add: put_char7_def done_ch_def)

lemma encode_error_result: "ctl_result (encode_error mode src k) \<le> Suc (sk_result k)"
  by (simp add: encode_error_def put_char7_result)

lemma put_temp_result:
  "(\<And>k. sk_result (bk k) = sk_result k) \<Longrightarrow> ctl_result (put_temp mode bk temp ts unread src k) \<le> sk_result k + length ts"
proof (induction ts arbitrary: k)
  case (Cons t ts)
  from Cons.IH [OF Cons.prems, of "put1 t k"] Cons.prems skip_zero_result [of mode k] show ?case by (auto simp: Let_def)
qed (simp add: done_ch_def)

lemma put_utf8_result:
  assumes "\<And>k. sk_result (bk k) = sk_result k"
  shows "ctl_result (put_utf8 mode bk ch unread src k) \<le> sk_result k + (if ch < 0x10000 then 3 else 4)"
proof (cases "utf8_temp ch")
  case None
  then show ?thesis using encode_error_result [of mode src k] put_char7_result [of mode ch src k] by (simp add: put_utf8_def)
next
  case (Some temp)
  then have "length temp \<le> (if ch < 0x10000 then 3 else 4)" by (auto simp: utf8_temp_def split: if_splits)
  with put_temp_result [where bk = bk and mode = mode and temp = temp and ts = temp and unread = unread and src = src and k = k, OF assms] put_char7_result [of mode ch src k] Some show ?thesis
    by (auto simp: put_utf8_def split: if_splits)
qed

text \<open>After a turn of the loop, the bytes so far and three for each unit that is left are at most \<open>b\<close>.\<close>

definition turn_within :: "nat \<Rightarrow> ('s, byte sink) ctl \<Rightarrow> bool" where
  "turn_within b x \<longleftrightarrow> ctl_result x + 3 * (case x of Next src k \<Rightarrow> length src | _ \<Rightarrow> 0) \<le> b"

lemma turn_withinI:
  assumes "ctl_result x \<le> r + 3 * n" "\<And>src' k'. x = Next src' k' \<Longrightarrow> src' = src" "n + length src \<le> m"
  shows "turn_within (r + 3 * m) x"
  using assms by (cases x) (auto simp: turn_within_def)

lemma do_high_surrogate_within: "turn_within (sk_result k + 3 * (1 + length src)) (do_high_surrogate mode ch src k)"
proof (cases src)
  case Nil
  then show ?thesis by (simp add: do_high_surrogate_def turn_within_def)
next
  case (Cons high src')
  let ?ch = "push_bit 10 ch OR (ucast high - UNI_SURROGATE_HIGH_BEGIN)"
  define bk :: "byte sink \<Rightarrow> byte sink" where "bk = (\<lambda>k. if 0xffff < ?ch
    then k\<lparr>sk_state := mb_set_count (mb_set_word16 (sk_state k) (ucast (drop_bit 10 ?ch))) 0x80\<rparr> else k)"
  have b: "sk_result (bk k) = sk_result k" for k by (simp add: bk_def)
  have "ctl_result (put_utf8 mode bk ?ch (high # src') src' k) \<le> sk_result k + 3 * 2"
    using put_utf8_result [where bk = bk and mode = mode and ch = ?ch and unread = "high # src'" and src = src' and k = k, OF b]
    by (simp split: if_splits)
  then have "turn_within (sk_result k + 3 * (1 + length src)) (put_utf8 mode bk ?ch (high # src') src' k)"
    by (rule turn_withinI) (auto simp: Cons dest: put_utf8_Next)
  moreover have "ctl_result (encode_error mode src' k) \<le> sk_result k + 3 * 1" using encode_error_result [of mode src' k] by simp
  then have "turn_within (sk_result k + 3 * (1 + length src)) (encode_error mode src' k)"
    by (rule turn_withinI) (auto simp: Cons dest: encode_error_Next)
  ultimately show ?thesis by (simp add: do_high_surrogate_def Let_def Cons bk_def [symmetric])
qed

lemma utf16_step_within: "turn_within (sk_result k + 3 * (1 + length src)) (utf16_step mode u src k)"
proof -
  have "(ucast u :: 32 word) < 0x10000" using unit_range [of u] by (simp add: word_less_nat_alt unat_unit)
  then have "ctl_result (put_utf8 mode (\<lambda>k. k) (ucast u) (u # src) src k) \<le> sk_result k + 3 * 1"
    using put_utf8_result [where bk = "\<lambda>k. k" and mode = mode and ch = "ucast u" and unread = "u # src" and src = src and k = k] by simp
  then have "turn_within (sk_result k + 3 * (1 + length src)) (put_utf8 mode (\<lambda>k. k) (ucast u) (u # src) src k)"
    by (rule turn_withinI) (auto dest: put_utf8_Next)
  moreover have "turn_within (sk_result k + 3 * (1 + length src)) (Break (u # src) k)" by (simp add: turn_within_def)
  ultimately show ?thesis using do_high_surrogate_within by (simp add: utf16_step_def Let_def)
qed

lemma utf16_loop_result: "ctl_result (utf16_loop mode src k) \<le> sk_result k + 3 * length src"
proof (induction mode src k rule: utf16_loop.induct)
  case (2 mode u src k)
  with utf16_step_within [of k src mode u] show ?case by (cases "utf16_step mode u src k") (auto simp: turn_within_def)
qed simp

lemma utf16to8_result:
  assumes "libc_utf16to8 src [] 0 0 0 = Inr (Ret n, src', k)"
  shows "n \<le> 3 * length src + 1"
proof -
  let ?x = "utf16_loop 0 src (sink_at ([], 0) ([], 0))"
  have "n \<le> Suc (ctl_result ?x)"
    using assms by (cases ?x) (auto simp: libc_utf16to8_def Let_def sink_start conv_return_def conv_done_def unless_fault_def split: if_splits)
  with utf16_loop_result [of 0 src "sink_at ([], 0) ([], 0)"] show ?thesis by simp
qed

lemma utf32_step_result: "ctl_result (utf32_step mode ch src k) \<le> sk_result k + 4"
  using encode_error_result [of mode src k] put_utf8_result [where bk = "\<lambda>k. k" and mode = mode and ch = ch and unread = "ch # src" and src = src and k = k]
  by (auto simp: utf32_step_def split: if_splits)

lemma utf32_loop_result: "ctl_result (utf32_loop mode src k) \<le> sk_result k + 4 * length src"
proof (induction mode src k rule: utf32_loop.induct)
  case (2 mode ch src k)
  with utf32_step_result [of mode ch src k] show ?case by (cases "utf32_step mode ch src k") auto
qed simp

lemma utf32to8_result:
  assumes "libc_utf32to8 src [] 0 0 0 = Inr (Ret n, src', k)"
  shows "n \<le> 4 * length src + 1"
proof -
  let ?x = "utf32_loop 0 src (sink_at ([], 0) ([], 0))"
  have "n \<le> Suc (ctl_result ?x)"
    using assms by (cases ?x) (auto simp: libc_utf32to8_def Let_def sink_start conv_return_def conv_done_def unless_fault_def split: if_splits)
  with utf32_loop_result [of 0 src "sink_at ([], 0) ([], 0)"] show ?thesis by simp
qed

end
