(* ===== verification/Unicode_Props.thy ===== *)
theory Unicode_Props
  imports Unicode_Encode
begin

text \<open>The properties of the conversions between the Unicode encodings.\<close>

section \<open>Strings\<close>

text \<open>What a function that reads UTF-8 returns for a text when memory does not run out: \<^verbatim>\<open>NULL\<close> for a malformed text.\<close>

definition decoded_string :: "(nat \<Rightarrow> 'd :: zero list) \<Rightarrow> byte list \<Rightarrow> 'd list option" where
  "decoded_string units src =
     map_option (\<lambda>(cs, whole). concat (map units cs) @ (if whole then [0] else [])) (decode_utf8 src)"

lemma decode_outcome_string:
  assumes "decode_outcome mode units src y" "string_result b y r" "\<not> flag mode UNICODE_F_EXCEPT"
  shows "\<exists>s. r = Some (Inr s) \<and> (s = decoded_string (\<lambda>c. units (of_nat c)) src \<or> s = None \<and> \<not> b)"
  using assms by (auto simp: decode_outcome_def string_result_def decoded_string_def split: option.splits if_splits)

lemma decode_outcome_Xstring:
  assumes "decode_outcome mode units src y" "Xstring_result b y r" "flag mode UNICODE_F_EXCEPT" "flag mode UNICODE_F_SETERRNO"
  shows "r = Some (case decoded_string (\<lambda>c. units (of_nat c)) src of None \<Rightarrow> Inl E_UNICODE_ERROR | Some s \<Rightarrow> Inr s) \<or>
    r = Some (Inl E_BADALLOC) \<and> \<not> b"
  using assms by (auto simp: decode_outcome_def Xstring_result_def decoded_string_def split: option.splits if_splits)

lemma flags_plain: "\<not> flag 0 UNICODE_F_EXCEPT" "flag (UNICODE_F_SETERRNO OR UNICODE_F_EXCEPT) UNICODE_F_EXCEPT"
  "flag (UNICODE_F_SETERRNO OR UNICODE_F_EXCEPT) UNICODE_F_SETERRNO"
  by (simp_all add: flag_def UNICODE_F_SETERRNO_def UNICODE_F_EXCEPT_def)

lemma decode_not_failed:
  "decode_outcome mode units src y \<Longrightarrow> flag mode UNICODE_F_EXCEPT \<Longrightarrow> flag mode UNICODE_F_SETERRNO \<Longrightarrow> y \<noteq> Failed e out s"
  by (auto simp: decode_outcome_def split: option.splits)

text \<open>The length of the first buffer, and that of the result.\<close>

lemma first_length:
  "length src < 0x30000000 \<Longrightarrow> size_t (length src + length src div 3 + 1) < 2 ^ 30"
  "length src < 0x60000000 \<Longrightarrow> size_t (length src + length src div 3 + 1) < 2 ^ 31"
  by (simp_all add: size_t_def)

lemma decode_outcome_length:
  assumes "decode_outcome mode units src (Text out s)"
    and "\<And>c. c < 0x80 \<Longrightarrow> length (units (of_nat c)) \<le> 1" "\<And>c. length (units c) \<le> 2"
  shows "length out \<le> length src + 1"
proof -
  obtain cs whole where d: "decode_utf8 src = Some (cs, whole)" and "out = concat (map (\<lambda>c. units (of_nat c)) cs) @ (if whole then [0] else [])"
    using assms(1) by (cases "decode_utf8 src") (auto simp: decode_outcome_def split: if_splits)
  with decode_units_length [of "\<lambda>c. units (of_nat c)", OF assms(2,3) d] show ?thesis by simp
qed

lemma utf8to32ms_decodes:
  assumes "heap_laws alloc realloc" "length src < 0x30000000"
  shows "\<exists>s. libc_utf8to32ms alloc realloc src = Some (Inr s) \<and>
      (s = decoded_string (\<lambda>c. [of_nat c]) src \<or> s = None \<and> \<not> heap_total alloc realloc)"
proof -
  obtain y where y: "decode_outcome 0 (\<lambda>c. [c]) src y" "\<And>buf n. libc_utf8to32 src buf n 0 0 = deliver src 0 (buf, n) y"
    using utf8to32_decodes [OF plain_modes(1)] by blast
  have "length out \<le> length src + 1" if "y = Text out s" for out s using decode_outcome_length [OF y(1) [unfolded that]] by simp
  then have "string_result (heap_total alloc realloc) y (libc_utf8to32ms alloc realloc src)"
    unfolding libc_utf8to32ms_def using assms(2) first_length(1) [OF assms(2)]
    by (intro ms_outcome(1) [of "\<lambda>buf n. libc_utf8to32 src buf n 0 0" src 0 y, OF y(2) assms(1)]) fastforce+
  then show ?thesis by (rule decode_outcome_string [OF y(1) _ flags_plain(1)])
qed

lemma Xutf8to32ms_decodes:
  assumes "heap_laws alloc realloc" "length src < 0x30000000"
  shows "libc_Xutf8to32ms alloc realloc src =
      Some (case decoded_string (\<lambda>c. [of_nat c]) src of None \<Rightarrow> Inl E_UNICODE_ERROR | Some s \<Rightarrow> Inr s) \<or>
    libc_Xutf8to32ms alloc realloc src = Some (Inl E_BADALLOC) \<and> \<not> heap_total alloc realloc"
proof -
  let ?m = "UNICODE_F_SETERRNO OR UNICODE_F_EXCEPT"
  obtain y where y: "decode_outcome ?m (\<lambda>c. [c]) src y" "\<And>buf n. libc_utf8to32 src buf n 0 ?m = deliver src 0 (buf, n) y"
    using utf8to32_decodes [OF plain_modes(3)] by blast
  have "length out \<le> length src + 1" if "y = Text out s" for out s using decode_outcome_length [OF y(1) [unfolded that]] by simp
  then have "Xstring_result (heap_total alloc realloc) y (libc_Xutf8to32ms alloc realloc src)"
    unfolding libc_Xutf8to32ms_def using assms(2) first_length(1) [OF assms(2)] decode_not_failed [OF y(1) flags_plain(2,3)]
    by (intro ms_outcome(2) [of "\<lambda>buf n. libc_utf8to32 src buf n 0 ?m" src 0 y, OF y(2) assms(1)]) fastforce+
  then show ?thesis by (rule decode_outcome_Xstring [OF y(1) _ flags_plain(2,3)])
qed

lemma concat_units16: "\<forall>c \<in> set cs. c < 0x110000 \<Longrightarrow> concat (map (\<lambda>c. word_units16 (of_nat c)) cs) = concat (map utf16_units cs)"
  by (induction cs) (simp_all add: word_units16_units)

lemma decoded_string16:
  assumes "\<And>cs whole. decode_utf8 src = Some (cs, whole) \<Longrightarrow> \<forall>c \<in> set cs. c < 0x110000"
  shows "decoded_string (\<lambda>c. word_units16 (of_nat c)) src = decoded_string utf16_units src"
  using assms concat_units16 by (cases "decode_utf8 src") (auto simp: decoded_string_def)

lemma utf8to16ms_decodes:
  assumes "heap_laws alloc realloc" "length src < 0x60000000"
    and "\<And>cs whole. decode_utf8 src = Some (cs, whole) \<Longrightarrow> \<forall>c \<in> set cs. c < 0x110000"
  shows "\<exists>s. libc_utf8to16ms alloc realloc src = Some (Inr s) \<and>
      (s = decoded_string utf16_units src \<or> s = None \<and> \<not> heap_total alloc realloc)"
proof -
  obtain y where y: "decode_outcome 0 word_units16 src y" "\<And>buf n. libc_utf8to16 src buf n 0 0 = deliver src 0 (buf, n) y"
    using utf8to16_decodes [OF plain_modes(1)] by blast
  have "length out \<le> length src + 1" if "y = Text out s" for out s
    using decode_outcome_length [OF y(1) [unfolded that] word_units16_ascii word_units16_length] .
  then have "string_result (heap_total alloc realloc) y (libc_utf8to16ms alloc realloc src)"
    unfolding libc_utf8to16ms_def using assms(2) first_length(2) [OF assms(2)]
    by (intro ms_outcome(1) [of "\<lambda>buf n. libc_utf8to16 src buf n 0 0" src 0 y, OF y(2) assms(1)]) fastforce+
  then show ?thesis using decode_outcome_string [OF y(1) _ flags_plain(1)] decoded_string16 [OF assms(3)] by simp
qed

lemma Xutf8to16ms_decodes:
  assumes "heap_laws alloc realloc" "length src < 0x60000000"
    and "\<And>cs whole. decode_utf8 src = Some (cs, whole) \<Longrightarrow> \<forall>c \<in> set cs. c < 0x110000"
  shows "libc_Xutf8to16ms alloc realloc src =
      Some (case decoded_string utf16_units src of None \<Rightarrow> Inl E_UNICODE_ERROR | Some s \<Rightarrow> Inr s) \<or>
    libc_Xutf8to16ms alloc realloc src = Some (Inl E_BADALLOC) \<and> \<not> heap_total alloc realloc"
proof -
  let ?m = "UNICODE_F_SETERRNO OR UNICODE_F_EXCEPT"
  obtain y where y: "decode_outcome ?m word_units16 src y" "\<And>buf n. libc_utf8to16 src buf n 0 ?m = deliver src 0 (buf, n) y"
    using utf8to16_decodes [OF plain_modes(3)] by blast
  have "length out \<le> length src + 1" if "y = Text out s" for out s
    using decode_outcome_length [OF y(1) [unfolded that] word_units16_ascii word_units16_length] .
  then have "Xstring_result (heap_total alloc realloc) y (libc_Xutf8to16ms alloc realloc src)"
    unfolding libc_Xutf8to16ms_def using assms(2) first_length(2) [OF assms(2)] decode_not_failed [OF y(1) flags_plain(2,3)]
    by (intro ms_outcome(2) [of "\<lambda>buf n. libc_utf8to16 src buf n 0 ?m" src 0 y, OF y(2) assms(1)]) fastforce+
  then show ?thesis using decode_outcome_Xstring [OF y(1) _ flags_plain(2,3)] decoded_string16 [OF assms(3)] by simp
qed

subsection \<open>A heap\<close>

text \<open>A heap that never runs out of memory and clears what it hands out.\<close>

definition zero_alloc :: "('a :: len word) heap_alloc" where
  "zero_alloc n = Some (replicate (n div unit_size TYPE('a)) 0)"

definition zero_realloc :: "('a :: len word) heap_realloc" where
  "zero_realloc xs n = Some (take (n div unit_size TYPE('a)) xs @ replicate (n div unit_size TYPE('a) - length xs) 0)"

lemma zero_heap: "heap_laws zero_alloc zero_realloc" "heap_total zero_alloc zero_realloc"
  by (auto simp: heap_laws_def heap_total_def zero_alloc_def zero_realloc_def min_def)

text \<open>C18: The functions that convert a UTF-8 text to a string in heap memory return what the reference decoder makes of the text:
  of a text that ends behind a character the characters with a NUL behind them, of a text that ends inside of a character the
  characters before that one and no NUL, and \<^verbatim>\<open>NULL\<close> for a malformed text. The variants with exceptions throw \<^verbatim>\<open>E_UNICODE_ERROR\<close>
  where the others return \<^verbatim>\<open>NULL\<close>. Only memory that runs out leads to another result. For UTF-32 this holds of texts of fewer than \<^verbatim>\<open>0x30000000\<close>
  bytes, and for UTF-16 of texts of fewer than \<^verbatim>\<open>0x60000000\<close> bytes with no character above \<^verbatim>\<open>0x10ffff\<close>; from these lengths on the size of the buffer wraps.\<close>

theorem utf8_strings_decode:
  assumes "heap_laws alloc16 realloc16" "heap_laws alloc32 realloc32"
  shows "(length src < 0x30000000 \<longrightarrow>
        (\<exists>s. libc_utf8to32ms alloc32 realloc32 src = Some (Inr s) \<and>
          (s = decoded_string (\<lambda>c. [of_nat c]) src \<or> s = None \<and> \<not> heap_total alloc32 realloc32)) \<and>
        (libc_Xutf8to32ms alloc32 realloc32 src =
            Some (case decoded_string (\<lambda>c. [of_nat c]) src of None \<Rightarrow> Inl E_UNICODE_ERROR | Some s \<Rightarrow> Inr s) \<or>
          libc_Xutf8to32ms alloc32 realloc32 src = Some (Inl E_BADALLOC) \<and> \<not> heap_total alloc32 realloc32)) \<and>
      (length src < 0x60000000 \<and> (\<forall>cs whole. decode_utf8 src = Some (cs, whole) \<longrightarrow> (\<forall>c \<in> set cs. c < 0x110000)) \<longrightarrow>
        (\<exists>s. libc_utf8to16ms alloc16 realloc16 src = Some (Inr s) \<and>
          (s = decoded_string utf16_units src \<or> s = None \<and> \<not> heap_total alloc16 realloc16)) \<and>
        (libc_Xutf8to16ms alloc16 realloc16 src =
            Some (case decoded_string utf16_units src of None \<Rightarrow> Inl E_UNICODE_ERROR | Some s \<Rightarrow> Inr s) \<or>
          libc_Xutf8to16ms alloc16 realloc16 src = Some (Inl E_BADALLOC) \<and> \<not> heap_total alloc16 realloc16))"
  using utf8to32ms_decodes [OF assms(2)] Xutf8to32ms_decodes [OF assms(2)] utf8to16ms_decodes [OF assms(1)] Xutf8to16ms_decodes [OF assms(1)]
  by blast

theorem utf8_strings_decode_witness:
  "libc_utf8to32ms zero_alloc zero_realloc [0x61, 0xc3, 0xa9] = Some (Inr (Some [0x61, 0xe9, 0])) \<and>
    libc_Xutf8to16ms zero_alloc zero_realloc [0x61, 0xc3, 0xa9] = Some (Inr [0x61, 0xe9, 0])"
proof -
  have d: "decode_utf8 [0x61, 0xc3, 0xa9] = Some ([0x61, 0xe9], True)" by (simp add: lead_byte_def cont_byte_def Let_def)
  then have "decoded_string (\<lambda>c. [of_nat c]) [0x61, 0xc3, 0xa9] = Some [0x61, 0xe9, 0 :: 32 word]"
    "decoded_string utf16_units [0x61, 0xc3, 0xa9] = Some [0x61, 0xe9, 0]"
    by (simp_all add: decoded_string_def utf16_units_def)
  with utf8_strings_decode [OF zero_heap(1) zero_heap(1), of "[0x61, 0xc3, 0xa9]"] d show ?thesis
    by (auto simp: zero_heap(2) simp del: decode_utf8.simps)
qed

lemma decode_ascii: "\<forall>b \<in> set src. unat b < 0x80 \<Longrightarrow> decode_utf8 src = Some (map unat src, True)"
  by (induction src) (simp_all add: lead_byte_def)

text \<open>C30: \<^verbatim>\<open>libc_utf8to32ms\<close> and \<^verbatim>\<open>libc_Xutf8to32ms\<close> write past the end of their buffer for every text of \<^verbatim>\<open>0x30000000\<close> to \<^verbatim>\<open>0x3fffffff\<close> ASCII
  characters, when memory does not run out: the number of bytes that is passed to \<^verbatim>\<open>malloc\<close> is the number of
  characters times four, and wraps.\<close>

theorem utf8to32ms_wraps:
  assumes "heap_laws alloc realloc" "heap_total alloc realloc"
    and "\<forall>b \<in> set src. unat b < 0x80" "0x30000000 \<le> length src" "length src < 0x40000000"
  shows "libc_utf8to32ms alloc realloc src = Some (Inl E_SEGFAULT) \<and> libc_Xutf8to32ms alloc realloc src = Some (Inl E_SEGFAULT)"
proof -
  let ?n = "length src + length src div 3 + 1"
  define q where "q = length src div 3"
  have q: "0x10000000 \<le> q" "q < 0x15555556" using assms(4,5) by (simp_all add: q_def)
  have n: "size_t ?n = ?n" using assms(5) by (simp add: size_t_def)
  have "2 ^ 30 \<le> ?n" using assms(4) q by (simp add: q_def [symmetric])
  then obtain m where m: "?n = 2 ^ 30 + m" by (metis le_Suc_ex)
  then have "m < 2 ^ 30" "m < length src + 1" using assms(4,5) q by (simp_all add: q_def [symmetric])
  moreover have "?n * 4 = 2 ^ 32 + m * 4" unfolding m by simp
  ultimately have short: "size_t (?n * unit_size TYPE(32)) div unit_size TYPE(32) < min ?n (length src + 1)"
    unfolding size_t_def unit_size_simps by (simp add: m)
  have out: "length (written y) = length src + 1" if "decode_outcome mode (\<lambda>c. [c]) src y" for mode y
    using that decode_ascii [OF assms(3)] by (auto simp: decode_outcome_def)
  obtain y where "decode_outcome 0 (\<lambda>c. [c]) src y" "\<And>buf n. libc_utf8to32 src buf n 0 0 = deliver src 0 (buf, n) y"
    using utf8to32_decodes [OF plain_modes(1)] by blast
  then have "ms_start (\<lambda>buf n. libc_utf8to32 src buf n 0 0) alloc realloc ?n = Some (Inl E_SEGFAULT)"
    using short out by (intro ms_overrun(1) [OF _ assms(1,2)]) auto
  moreover let ?m = "UNICODE_F_SETERRNO OR UNICODE_F_EXCEPT"
  obtain z where "decode_outcome ?m (\<lambda>c. [c]) src z" "\<And>buf n. libc_utf8to32 src buf n 0 ?m = deliver src 0 (buf, n) z"
    using utf8to32_decodes [OF plain_modes(3)] by blast
  then have "Xms_start (\<lambda>buf n. libc_utf8to32 src buf n 0 ?m) alloc realloc ?n = Some (Inl E_SEGFAULT)"
    using short out by (intro ms_overrun(2) [OF _ assms(1,2)]) auto
  ultimately show ?thesis unfolding libc_utf8to32ms_def libc_Xutf8to32ms_def n by blast
qed

theorem utf8to32ms_wraps_witness:
  "libc_utf8to32ms zero_alloc zero_realloc (replicate 0x30000000 0x61) = Some (Inl E_SEGFAULT)"
  using utf8to32ms_wraps [OF zero_heap, of "replicate 0x30000000 0x61"] by simp

section \<open>Round trips\<close>

lemma with_len_terminated: "0 \<notin> set xs \<Longrightarrow> with_len (xs @ [0]) f = f xs"
proof -
  assume "0 \<notin> set xs"
  then have "takeWhile (\<lambda>c. c \<noteq> 0) (xs @ [0]) = xs" by (subst takeWhile_append2) auto
  then show ?thesis by (simp add: with_len_def cstr_len_def)
qed

lemma encode_char_not_0: "0 < c \<Longrightarrow> c < 0x10000 \<Longrightarrow> 0 \<notin> set (encode_char c)"
proof -
  assume c: "0 < c" "c < 0x10000"
  have z: "(of_nat n :: byte) \<noteq> 0" if "0 < n" "n < 256" for n using that by (metis unat_byte unsigned_0 less_irrefl)
  have m: "0x80 + x mod 64 < 256" "0 < 0x80 + x mod 64" for x :: nat by (simp_all add: less_trans [of _ 64])
  have "0 < c \<Longrightarrow> c < 0x80 \<Longrightarrow> (of_nat c :: byte) \<noteq> 0" by (rule z) simp_all
  moreover have "c < 0x800 \<Longrightarrow> (of_nat (0xc0 + c div 64) :: byte) \<noteq> 0"
    by (rule z) (simp_all add: less_mult_imp_div_less less_diff_conv [symmetric])
  moreover have "(of_nat (0xe0 + c div 4096) :: byte) \<noteq> 0"
    using c by (intro z) (simp_all add: less_mult_imp_div_less less_diff_conv [symmetric])
  ultimately show "0 \<notin> set (encode_char c)"
    using c z [OF m(2,1), of c] z [OF m(2,1), of "c div 64"] by (auto simp: encode_char_def simp del: of_nat_add)
qed

definition bmp_char :: "nat \<Rightarrow> bool" where
  "bmp_char c \<longleftrightarrow> 0 < c \<and> c < 0x10000 \<and> \<not> (0xd800 \<le> c \<and> c \<le> 0xdfff)"

lemma encode_utf8_not_0: "\<forall>c \<in> set cs. bmp_char c \<Longrightarrow> 0 \<notin> set (encode_utf8 cs)"
  using encode_char_not_0 by (auto simp: encode_utf8_def bmp_char_def)

lemma string_result_Text:
  "string_result b (Text out s) r \<Longrightarrow> b \<Longrightarrow> r = Some (Inr (Some out))"
  by (simp add: string_result_def)

lemma word_bytes_length: "length (concat (map word_bytes xs)) \<le> 4 * length xs" if "list_all (\<lambda>ch. ch \<le> 0x10ffff) xs" for xs
  using that
proof (induction xs)
  case (Cons ch xs)
  have "length (word_bytes ch) \<le> 4" using Cons.prems by (auto simp: word_bytes_def utf8_temp_def)
  with Cons show ?case by simp
qed simp

lemma utf32to8ms_text:
  assumes "heap_laws alloc realloc" "heap_total alloc realloc" "list_all utf32_valid xs" "length xs < 2 ^ 29"
  shows "libc_utf32to8ms alloc realloc xs = Some (Inr (Some (concat (map word_bytes xs) @ [0])))"
proof -
  have "list_all (\<lambda>ch. ch \<le> 0x10ffff) xs" using assms(3) by (auto simp: list_all_iff utf32_valid_def)
  from word_bytes_length [OF this] assms(4) show ?thesis
    unfolding libc_utf32to8ms_def
    by (intro string_result_Text [OF ms_outcome(1) [of "\<lambda>buf n. libc_utf32to8 xs buf n 0 0", OF utf32to8_encodes [OF plain_modes(1) assms(3)] assms(1)] assms(2)]) (auto simp: size_t_def)
qed

lemma utf16to8ms_text:
  assumes "heap_laws alloc realloc" "heap_total alloc realloc" "list_all utf16_single us" "length us < 2 ^ 29"
  shows "libc_utf16to8ms alloc realloc us = Some (Inr (Some (concat (map (\<lambda>u. word_bytes (ucast u)) us) @ [0])))"
proof -
  have "unat u \<le> 0x10ffff" for u :: "16 word" using unit_range [of u] by simp
  then have "list_all (\<lambda>ch. ch \<le> 0x10ffff) (map ucast us :: 32 word list)" by (auto simp: list_all_iff word_le_nat_alt unat_unit)
  from word_bytes_length [OF this] assms(4) show ?thesis
    unfolding libc_utf16to8ms_def
    by (intro string_result_Text [OF ms_outcome(1) [of "\<lambda>buf n. libc_utf16to8 us buf n 0 0", OF utf16to8_encodes [OF plain_modes(1) assms(3)] assms(1)] assms(2)]) (auto simp: size_t_def comp_def)
qed

lemma word_bytes_text: "\<forall>c \<in> set (map unat xs). c < 0x10000 \<Longrightarrow> concat (map word_bytes xs) = encode_utf8 (map unat xs)"
  by (induction xs) (simp_all add: encode_utf8_def word_bytes_encode)

lemma decoded_string_encode:
  "\<forall>c \<in> set cs. bmp_char c \<Longrightarrow> decoded_string units (encode_utf8 cs) = Some (concat (map units cs) @ [0])"
proof -
  assume "\<forall>c \<in> set cs. bmp_char c"
  then have "\<forall>c \<in> set cs. c < 0x110000" by (auto simp: bmp_char_def)
  then show ?thesis by (simp add: decoded_string_def decode_encode)
qed

lemma encode_utf8_length: "\<forall>c \<in> set cs. c < 0x10000 \<Longrightarrow> length (encode_utf8 cs) \<le> 3 * length cs"
proof (induction cs)
  case (Cons c cs)
  then have "length (encode_char c) \<le> 3" by (auto simp: encode_char_def)
  with Cons show ?case by (simp add: encode_utf8_def)
qed (simp add: encode_utf8_def)

text \<open>C17: A NUL-terminated UTF-32 or UTF-16 string of characters below \<^verbatim>\<open>0x10000\<close>, converted to UTF-8 and back, is the
  string that it was. The strings have fewer than \<open>2 ^ 28\<close> or \<open>2 ^ 29\<close> units, which take one gigabyte of memory: up to these lengths no size
  of a buffer wraps.\<close>

theorem unicode_roundtrip:
  assumes "heap_laws alloc8 realloc8" "heap_laws alloc16 realloc16" "heap_laws alloc32 realloc32"
    and "heap_total alloc8 realloc8" "heap_total alloc16 realloc16" "heap_total alloc32 realloc32"
    and "\<forall>ch \<in> set xs. bmp_char (unat ch)" "\<forall>u \<in> set us. bmp_char (unat u)"
    and "length xs < 2 ^ 28" "length us < 2 ^ 29"
  shows "(\<exists>bs. libc_utf32to8m alloc8 realloc8 (xs @ [0]) = Some (Inr (Some bs)) \<and>
        libc_utf8to32m alloc32 realloc32 bs = Some (Inr (Some (xs @ [0])))) \<and>
      (\<exists>bs. libc_utf16to8m alloc8 realloc8 (us @ [0]) = Some (Inr (Some bs)) \<and>
        libc_utf8to16m alloc16 realloc16 bs = Some (Inr (Some (us @ [0]))))"
proof (intro conjI exI)
  let ?cs = "map unat xs" and ?ds = "map unat us"
  have cs: "\<forall>c \<in> set ?cs. bmp_char c" and ds: "\<forall>c \<in> set ?ds. bmp_char c" using assms(7,8) by auto
  have "0 \<notin> set xs" "0 \<notin> set us" using assms(7,8) by (auto simp: bmp_char_def)
  have lc: "length (encode_utf8 ?cs) < 0x30000000" "length (encode_utf8 ?ds) < 0x60000000"
    using encode_utf8_length [of ?cs] encode_utf8_length [of ?ds] cs ds assms(9,10) by (auto simp: bmp_char_def)
  note len = with_len_terminated [OF \<open>0 \<notin> set xs\<close>] with_len_terminated [OF \<open>0 \<notin> set us\<close>]
    with_len_terminated [OF encode_utf8_not_0 [OF cs]] with_len_terminated [OF encode_utf8_not_0 [OF ds]]
  have "list_all utf32_valid xs" using assms(7) by (auto simp: list_all_iff utf32_valid_def bmp_char_def word_le_nat_alt)
  from utf32to8ms_text [OF assms(1,4) this] assms(9) show "libc_utf32to8m alloc8 realloc8 (xs @ [0]) = Some (Inr (Some (encode_utf8 ?cs @ [0])))"
    using cs by (simp add: libc_utf32to8m_def len word_bytes_text bmp_char_def)
  have "concat (map (\<lambda>c. [of_nat c]) ?cs) = xs" by (induction xs) simp_all
  with utf8to32ms_decodes [OF assms(3) lc(1)] assms(6)
  show "libc_utf8to32m alloc32 realloc32 (encode_utf8 ?cs @ [0]) = Some (Inr (Some (xs @ [0])))"
    by (simp add: libc_utf8to32m_def len decoded_string_encode [OF cs])
  have "list_all utf16_single us" using assms(8) by (auto simp: list_all_iff utf16_single_def bmp_char_def)
  from utf16to8ms_text [OF assms(1,4) this assms(10)] show "libc_utf16to8m alloc8 realloc8 (us @ [0]) = Some (Inr (Some (encode_utf8 ?ds @ [0])))"
    using word_bytes_text [of "map ucast us"] ds by (simp add: libc_utf16to8m_def len bmp_char_def comp_def unat_unit)
  have "concat (map utf16_units ?ds) = us" using unit_range by (induction us) (simp_all add: utf16_units_def)
  moreover have "\<exists>s. libc_utf8to16ms alloc16 realloc16 (encode_utf8 ?ds) = Some (Inr s) \<and>
      (s = decoded_string utf16_units (encode_utf8 ?ds) \<or> s = None \<and> \<not> heap_total alloc16 realloc16)"
    using decode_encode [of ?ds] ds by (intro utf8to16ms_decodes [OF assms(2) lc(2)]) (fastforce simp: bmp_char_def)
  ultimately show "libc_utf8to16m alloc16 realloc16 (encode_utf8 ?ds @ [0]) = Some (Inr (Some (us @ [0])))"
    using assms(5) by (simp add: libc_utf8to16m_def len decoded_string_encode [OF ds])
qed

theorem unicode_roundtrip_witness:
  "\<exists>bs. libc_utf32to8m zero_alloc zero_realloc [0x20ac, 0x41, 0] = Some (Inr (Some bs)) \<and>
     libc_utf8to32m zero_alloc zero_realloc bs = Some (Inr (Some [0x20ac, 0x41, 0]))"
  using unicode_roundtrip [OF zero_heap(1) zero_heap(1) zero_heap(1) zero_heap(2) zero_heap(2) zero_heap(2), of "[0x20ac, 0x41]" "[]"]
  by (simp add: bmp_char_def)

section \<open>Characters above 0xffff\<close>

lemma decode_word_bytes_high:
  assumes "0x10000 \<le> unat ch" "unat ch \<le> 0x10ffff"
  shows "decode_utf8 (word_bytes ch) = None"
proof -
  let ?v = "unat ch div 262144"
  let ?b = "of_nat (0xe0 + ?v) :: byte" and ?t = "\<lambda>x. of_nat (0x80 + x mod 64) :: byte"
  have "?v < 16" using assms(2) by (simp add: less_mult_imp_div_less)
  then have lead: "lead_byte ?b = Some (2, ?v)" by (rule lead_of_nat(3))
  have cont: "cont_byte (?t x)" for x by (rule cont_of_nat) simp
  then have none: "lead_byte (?t x) = None" for x
  proof -
    have "unat (?t x) div 64 = 2" using cont unfolding cont_byte_def .
    moreover have "unat (?t x) div 64 * 64 + unat (?t x) mod 64 = unat (?t x)" by (rule div_mult_mod_eq)
    moreover have "unat (?t x) mod 64 < 64" by (rule mod_less_divisor) simp
    ultimately have "128 \<le> unat (?t x)" "unat (?t x) < 192" by linarith+
    then show ?thesis by (simp add: lead_byte_def Let_def del: of_nat_add)
  qed
  from lead cont none [of "unat ch"] show ?thesis unfolding word_bytes_high [OF assms] by (simp del: of_nat_add)
qed

lemma utf16_pair:
  assumes "0x10000 \<le> c" "c < 0x110000"
  shows "\<exists>h l. utf16_units c = [h, l] \<and> utf16_single h \<and> \<not> utf16_single l"
proof -
  have "(c - 0x10000) div 1024 < 1024" using assms(2) by (simp add: less_mult_imp_div_less)
  moreover have "unat (of_nat n :: 16 word) = n" if "n < 65536" for n
    using that by (simp add: unsigned_of_nat take_bit_nat_eq_self_iff)
  moreover have "(c - 0x10000) mod 1024 < 1024" by simp
  ultimately show ?thesis using assms
    by (simp add: utf16_units_def utf16_single_def del: of_nat_add)
qed

text \<open>C31: No character above \<^verbatim>\<open>0xffff\<close> survives a round trip. The four bytes that \<^verbatim>\<open>libc_utf32to8ms\<close> writes for it are
  malformed UTF-8, for which \<^verbatim>\<open>libc_utf8to32ms\<close> returns \<^verbatim>\<open>NULL\<close>. \<^verbatim>\<open>libc_utf8to16ms\<close> makes the right pair of units of the
  right four bytes, but \<^verbatim>\<open>libc_utf16to8ms\<close> turns the first unit of the pair into three bytes, drops the second one and
  does not terminate the string.\<close>

theorem supplementary_lost:
  assumes "heap_laws alloc8 realloc8" "heap_laws alloc16 realloc16" "heap_laws alloc32 realloc32"
    and "heap_total alloc8 realloc8" "heap_total alloc16 realloc16" "heap_total alloc32 realloc32"
    and "0x10000 \<le> unat ch" "unat ch \<le> 0x10ffff"
  shows "(\<exists>bs. libc_utf32to8ms alloc8 realloc8 [ch] = Some (Inr (Some (bs @ [0]))) \<and> length bs = 4 \<and>
        libc_utf8to32ms alloc32 realloc32 bs = Some (Inr None)) \<and>
      (\<exists>h l. libc_utf8to16ms alloc16 realloc16 (encode_char (unat ch)) = Some (Inr (Some [h, l, 0])) \<and>
        libc_utf16to8ms alloc8 realloc8 [h, l] = Some (Inr (Some (encode_char (unat h)))))"
proof
  have "list_all utf32_valid [ch]" using assms(7,8) by (simp add: utf32_valid_def word_le_nat_alt)
  from utf32to8ms_text [OF assms(1,4) this] have "libc_utf32to8ms alloc8 realloc8 [ch] = Some (Inr (Some (word_bytes ch @ [0])))" by simp
  moreover have "libc_utf8to32ms alloc32 realloc32 (word_bytes ch) = Some (Inr None)"
    using utf8to32ms_decodes [OF assms(3), of "word_bytes ch"] arg_cong [where f = length, OF word_bytes_high [OF assms(7,8)]] by (auto simp: decoded_string_def decode_word_bytes_high [OF assms(7,8)])
  ultimately show "\<exists>bs. libc_utf32to8ms alloc8 realloc8 [ch] = Some (Inr (Some (bs @ [0]))) \<and> length bs = 4 \<and>
      libc_utf8to32ms alloc32 realloc32 bs = Some (Inr None)"
    by (intro exI [of _ "word_bytes ch"]) (simp add: word_bytes_high [OF assms(7,8)])
next
  have c: "unat ch < 0x110000" using assms(8) by simp
  then obtain h l where hl: "utf16_units (unat ch) = [h, l]" "utf16_single h" "\<not> utf16_single l" using utf16_pair assms(7) by blast
  have d: "decode_utf8 (encode_char (unat ch)) = Some ([unat ch], True)" using decode_encode_char [OF c, of "[]"] by simp
  then have "decoded_string utf16_units (encode_char (unat ch)) = Some [h, l, 0]" by (simp add: decoded_string_def hl)
  then have "libc_utf8to16ms alloc16 realloc16 (encode_char (unat ch)) = Some (Inr (Some [h, l, 0]))"
    using utf8to16ms_decodes [OF assms(2), of "encode_char (unat ch)"] assms(5) c d by (auto simp: encode_char_def)
  moreover have "libc_utf16to8 [h, l] buf n 0 0 = deliver [h, l] 0 (buf, n) (Text (encode_char (unat h)) 0)" for buf n
    using utf16to8_open [OF plain_modes(1), of "[h]" l buf n] hl(2,3) word_bytes_encode [of "ucast h"] unit_range [of h]
    by (simp add: unat_unit)
  then have "string_result (heap_total alloc8 realloc8) (Text (encode_char (unat h)) 0) (libc_utf16to8ms alloc8 realloc8 [h, l])"
    unfolding libc_utf16to8ms_def
    by (intro ms_outcome(1) [of "\<lambda>buf n. libc_utf16to8 [h, l] buf n 0 0" "[h, l]" 0, OF _ assms(1)]) (auto simp: size_t_def encode_char_def)
  then have "libc_utf16to8ms alloc8 realloc8 [h, l] = Some (Inr (Some (encode_char (unat h))))" using assms(4) by (rule string_result_Text)
  ultimately show "\<exists>h l. libc_utf8to16ms alloc16 realloc16 (encode_char (unat ch)) = Some (Inr (Some [h, l, 0])) \<and>
      libc_utf16to8ms alloc8 realloc8 [h, l] = Some (Inr (Some (encode_char (unat h))))" by blast
qed

theorem supplementary_lost_witness:
  "\<exists>bs. libc_utf32to8ms zero_alloc zero_realloc [0x1f600] = Some (Inr (Some (bs @ [0]))) \<and> length bs = 4 \<and>
     libc_utf8to32ms zero_alloc zero_realloc bs = Some (Inr None)"
  using supplementary_lost [OF zero_heap(1) zero_heap(1) zero_heap(1) zero_heap(2) zero_heap(2) zero_heap(2), of "0x1f600"] by simp

section \<open>Whatever the text\<close>

text \<open>C19: In every mode, for every source text, and with a shift state as an earlier call leaves it: a conversion whose buffer has at least the length
  that is given for it stores nothing behind its end, reads nothing outside of the shift state, and fails no assertion; an exception is
  thrown only in exception mode; and the call leaves a buffer of the same size and again such a shift state.\<close>

theorem conversions_safe:
  assumes "mb_ok state" "n32 \<le> length buf32" "n16 \<le> length buf16" "n8 \<le> length buf8"
  shows "conv_safe mode (length buf32) (libc_utf8to32 utf8 buf32 n32 state mode) \<and>
    conv_safe mode (length buf16) (libc_utf8to16 utf8 buf16 n16 state mode) \<and>
    conv_safe mode (length buf8) (libc_utf32to8 utf32 buf8 n8 state mode) \<and>
    conv_safe mode (length buf8) (libc_utf16to8 utf16 buf8 n8 state mode)"
  using assms by (simp add: safe)

theorem conversions_safe_witness:
  "conv_safe UNICODE_F_UPDATESRC 1 (libc_utf8to32 [0x82, 0xac] [0] 1 (mb_set_count 2 1) UNICODE_F_UPDATESRC)"
proof -
  have "mb_ok (mb_set_count 2 1)" by (simp add: mb_ok_set)
  from conversions_safe [OF this, of 1 "[0]" 0 "[]" 0 "[]" UNICODE_F_UPDATESRC "[0x82, 0xac]"] show ?thesis by simp
qed

text \<open>C20: The return value of a conversion that neither updates its source nor is told to fail for a buffer that is too small
  (without \<^verbatim>\<open>UNICODE_F_UPDATESRC\<close> and \<^verbatim>\<open>UNICODE_F_BUFERROR\<close>) is the size that the result takes, whatever the
  size of the buffer: there is a text, of which the buffer gets as much as fits and the length of which is returned, that
  is the same for all buffers; and the shift state is kept when the text did not fit. Where the text is malformed, all buffers get the same error.\<close>

theorem conversions_return_required_size:
  assumes "mb_ok state" "\<not> flag mode UNICODE_F_UPDATESRC" "\<not> flag mode UNICODE_F_BUFERROR"
  shows "(\<exists>y. \<forall>buf n. n \<le> length buf \<longrightarrow> libc_utf8to32 utf8 buf n state mode = deliver utf8 state (buf, n) y) \<and>
    (\<exists>y. \<forall>buf n. n \<le> length buf \<longrightarrow> libc_utf8to16 utf8 buf n state mode = deliver utf8 state (buf, n) y) \<and>
    (\<exists>y. \<forall>buf n. n \<le> length buf \<longrightarrow> libc_utf32to8 utf32 buf n state mode = deliver utf32 state (buf, n) y) \<and>
    (\<exists>y. \<forall>buf n. n \<le> length buf \<longrightarrow> libc_utf16to8 utf16 buf n state mode = deliver utf16 state (buf, n) y)"
proof -
  have "sizing_mode mode" using assms(2,3) by (simp add: sizing_mode_def)
  with assms(1) show ?thesis
    using utf8to32.independent utf8to16.independent utf32to8.independent utf16to8.independent by blast
qed

theorem conversions_return_required_size_witness:
  "\<exists>y. \<forall>buf n. n \<le> length buf \<longrightarrow> libc_utf8to16 [0xe2, 0x82, 0xac, 0x41] buf n 0 UNICODE_F_NOFAIL = deliver [0xe2, 0x82, 0xac, 0x41] 0 (buf, n) y"
proof -
  have "\<not> flag UNICODE_F_NOFAIL UNICODE_F_UPDATESRC" "\<not> flag UNICODE_F_NOFAIL UNICODE_F_BUFERROR"
    by (simp_all add: flag_def UNICODE_F_NOFAIL_def UNICODE_F_UPDATESRC_def UNICODE_F_BUFERROR_def)
  from conversions_return_required_size [OF mb_ok_0 this, of "[0xe2, 0x82, 0xac, 0x41]"] show ?thesis by blast
qed

section \<open>Calls that update the source\<close>

lemma stream_flags:
  "flag (UNICODE_F_NOZEROTERM OR UNICODE_F_UPDATESRC) UNICODE_F_UPDATESRC" "flag (UNICODE_F_NOZEROTERM OR UNICODE_F_UPDATESRC) UNICODE_F_NOZEROTERM"
  "\<not> flag (UNICODE_F_NOZEROTERM OR UNICODE_F_UPDATESRC) UNICODE_F_STOPONNUL" "\<not> flag (UNICODE_F_NOZEROTERM OR UNICODE_F_UPDATESRC) UNICODE_F_DOSINGLE"
  "\<not> flag (UNICODE_F_NOZEROTERM OR UNICODE_F_UPDATESRC) UNICODE_F_ALWAYSZEROTERM"
  by (simp_all add: flag_def UNICODE_F_NOZEROTERM_def UNICODE_F_ALWAYSZEROTERM_def UNICODE_F_STOPONNUL_def UNICODE_F_DOSINGLE_def UNICODE_F_UPDATESRC_def)

definition stream_mode :: "32 word" where
  "stream_mode = UNICODE_F_NOZEROTERM OR UNICODE_F_UPDATESRC"

lemmas stream_mode_flags [simp] = stream_flags [folded stream_mode_def]

lemma utf8_loop_ascii:
  "list_all (\<lambda>b. unat b < 0x80) src \<Longrightarrow>
    utf8_loop put_char32 stream_mode src (sink_at buf p) = Break [] (sink_at buf (fst p @ map ucast src, snd p))"
proof (induction src arbitrary: p)
  case (Cons b src)
  then have "lead_byte b = Some (0, unat b)" by (simp add: lead_byte_def)
  then have "utf8_sequence_len ! unat b = 1" using lead_step(1) by fastforce
  then have "utf8_step put_char32 stream_mode b src (sink_at buf p) = Next src (sink_at buf (fst p @ [ucast b], snd p))"
    by (simp add: utf8_step_def put_char_def put_char32_def utf8_offset_def)
  with Cons show ?case by simp
qed simp

text \<open>A call of \<^verbatim>\<open>libc_utf8to32\<close> that updates its source does not stop when the buffer is full, unless it is inside of a
  character at that time: of a text of ASCII characters that is longer than the buffer it takes all, stores what fits,
  and returns the number of all of them, so that the characters behind the buffer are lost.\<close>

theorem utf8to32_update_loses:
  assumes "\<forall>b \<in> set src. unat b < 0x80" "length buf < length src"
  shows "libc_utf8to32 src buf (length buf) 0 (UNICODE_F_NOZEROTERM OR UNICODE_F_UPDATESRC) =
    Inr (Ret (length src), [], \<lparr>sk_dst = map ucast (take (length buf) src), sk_len = length buf, sk_result = length src, sk_state = 0, sk_fault = False\<rparr>)"
proof -
  have "list_all (\<lambda>b. unat b < 0x80) src" using assms(1) by (simp add: list_all_iff)
  from utf8_loop_ascii [OF this, of "(buf, length buf)" "([], 0)"] show ?thesis
    unfolding stream_mode_def [symmetric] using assms(2)
    by (simp add: libc_utf8to32_def Let_def sink_start conv_return_def conv_done_def unless_fault_def) (simp add: sink_at_def fill_def take_map)
qed

theorem utf8to32_update_loses_witness:
  "libc_utf8to32 [0x61, 0x62] [0] 1 0 (UNICODE_F_NOZEROTERM OR UNICODE_F_UPDATESRC) =
    Inr (Ret 2, [], \<lparr>sk_dst = [0x61], sk_len = 1, sk_result = 2, sk_state = 0, sk_fault = False\<rparr>)"
  using utf8to32_update_loses [of "[0x61, 0x62]" "[0]"] by simp

subsection \<open>A character in two calls\<close>

lemma word24_of_small: "unat ch < 2 ^ 24 \<Longrightarrow> n < 256 \<Longrightarrow> mb_word24 (mb_set_count ch n) = ch"
proof -
  assume "unat ch < 2 ^ 24" "n < 256"
  then have "unat (mb_word24 (mb_set_count ch n)) = unat ch" by (simp add: mb_word24_set unat_word24)
  then show ?thesis by (rule word_unat_eq_iff [THEN iffD2])
qed

lemma word_tail_append: "word_tail ch (us @ vs) = word_tail (word_tail ch us) vs"
  by (simp add: word_tail_def)

lemma tail_value_less: "tail_value v ts < (v + 1) * 64 ^ length ts"
proof (induction ts arbitrary: v)
  case (Cons t ts)
  have "unat t mod 64 + 1 \<le> 64" by (simp add: Suc_leI)
  then have "v * 64 + unat t mod 64 + 1 \<le> (v + 1) * 64" by simp
  from mult_le_mono1 [OF this, of "64 ^ length ts"] Cons [of "v * 64 + unat t mod 64"]
  have "tail_value (v * 64 + unat t mod 64) ts < (v + 1) * 64 * 64 ^ length ts" by linarith
  then show ?case by (simp only: tail_value_simps length_Cons power_Suc mult.assoc)
qed simp

lemma sequence_value:
  assumes "lead_byte b = Some (n, v)" "length ts \<le> n"
  shows "unat (word_tail (ucast b - utf8_offset ! n) ts) = tail_value v ts" "tail_value v ts < 2 ^ 21"
proof -
  note lead = lead_step [OF assms(1)]
  have "(v + 1) * 64 ^ length ts \<le> (v + 1) * 64 ^ n" using assms(2) by (intro mult_le_mono2 power_increasing) simp_all
  with lead(3) have p: "(v + 1) * 64 ^ length ts \<le> 2 ^ 21" by linarith
  then show "unat (word_tail (ucast b - utf8_offset ! n) ts) = tail_value v ts"
    using word_tail_value [of "ucast b - utf8_offset ! n" ts] lead(2) by simp
  show "tail_value v ts < 2 ^ 21" using tail_value_less [of v ts] p by linarith
qed

lemma first_part:
  assumes "lead_byte b = Some (n, v)" "length us < n" "list_all cont_byte us" "buf \<noteq> []"
  shows "libc_utf8to32 (b # us) buf (length buf) 0 stream_mode = Inr (Ret 0, [], \<lparr>sk_dst = buf, sk_len = length buf, sk_result = 0,
    sk_state = mb_set_count (word_tail (ucast b - utf8_offset ! n) us) (1 + length us), sk_fault = False\<rparr>)"
proof -
  have "utf8_loop put_char32 stream_mode (b # us) (sink_at (buf, length buf) ([], 0)) =
      Done [] (sink_at (buf, length buf) ([], mb_set_count (word_tail (ucast b - utf8_offset ! n) us) (1 + length us)))"
    using assms(2,4) read_more [OF assms(3,2)] lead_step(1) [OF assms(1)] by (simp add: utf8_step_def need_more_def Suc_diff_le)
  then show ?thesis by (simp add: libc_utf8to32_def Let_def sink_start conv_return_def conv_done_def unless_fault_def)
qed

lemma second_part:
  assumes "mb_count s = 1 + m" "m + length vs \<le> 3" "list_all cont_byte vs" "vs \<noteq> []" "buf \<noteq> []"
  shows "libc_utf8to32 vs buf (length buf) s stream_mode =
    (if m + length vs = 3 then Inr (Ret 1, [], \<lparr>sk_dst = buf[0 := word_tail (mb_word24 s) vs], sk_len = length buf, sk_result = 1, sk_state = 0, sk_fault = False\<rparr>)
     else Inr (Ret 0, [], \<lparr>sk_dst = buf, sk_len = length buf, sk_result = 0, sk_state = mb_set_count (word_tail (mb_word24 s) vs) (1 + m + length vs), sk_fault = False\<rparr>))"
proof -
  have count: "drop_bit 24 s AND 0x7f \<noteq> 0" "4 - mb_count s = 3 - m" "m \<le> 2"
    using assms(1,2,4) by (cases vs; simp add: count_and_7f)+
  show ?thesis
  proof (cases "m + length vs = 3")
    case True
    then have "read_missing False False (3 - m) (mb_word24 s) vs = Complete (word_tail (mb_word24 s) vs) []"
      using read_complete [of "3 - m" vs False "mb_word24 s"] assms(3) by simp
    with True count assms(1,5) show ?thesis
      by (simp add: libc_utf8to32_def Let_def utf8_resume_def put_char_def put_char32_def utf8_continue_def conv_return_def conv_done_def unless_fault_def put1_def store_unit_def)
  next
    case False
    then have "read_missing False False (3 - m) (mb_word24 s) vs = More (word_tail (mb_word24 s) vs) (3 - m - length vs) []"
      using assms(2) by (intro read_more [OF assms(3)]) simp
    with False count assms(1,2,5) show ?thesis
      by (simp add: libc_utf8to32_def Let_def utf8_resume_def need_more_def utf8_continue_def conv_return_def conv_done_def unless_fault_def)
  qed
qed

text \<open>A character of which a first call gets some of the bytes and a second call the others, both of them updating their
  source: only a character of four bytes comes out of it. The shift state counts the bytes that are there, and the second
  call takes it that the others of four are missing, so that after all bytes of a character of two or three it still waits
  for more.\<close>

theorem utf8to32_split:
  assumes "lead_byte b = Some (n, v)" "length us + length vs = n" "vs \<noteq> []" "list_all cont_byte (us @ vs)" "buf \<noteq> []"
  shows "\<exists>s. libc_utf8to32 (b # us) buf (length buf) 0 (UNICODE_F_NOZEROTERM OR UNICODE_F_UPDATESRC) =
        Inr (Ret 0, [], \<lparr>sk_dst = buf, sk_len = length buf, sk_result = 0, sk_state = s, sk_fault = False\<rparr>) \<and>
      libc_utf8to32 vs buf (length buf) s (UNICODE_F_NOZEROTERM OR UNICODE_F_UPDATESRC) =
        (if n = 3 then Inr (Ret 1, [], \<lparr>sk_dst = buf[0 := of_nat (tail_value v (us @ vs))], sk_len = length buf, sk_result = 1, sk_state = 0, sk_fault = False\<rparr>)
         else Inr (Ret 0, [], \<lparr>sk_dst = buf, sk_len = length buf, sk_result = 0, sk_state = mb_set_count (of_nat (tail_value v (us @ vs))) (1 + n), sk_fault = False\<rparr>))"
proof -
  let ?w = "ucast b - utf8_offset ! n :: 32 word"
  define s where "s = mb_set_count (word_tail ?w us) (1 + length us)"
  have n3: "n \<le> 3" using assms(1) by (auto simp: lead_byte_def Let_def split: if_splits)
  have us: "length us < n" "length us \<le> n" using assms(2,3) by (cases vs; simp)+
  have "unat (word_tail ?w us) < 2 ^ 24" using sequence_value [OF assms(1) us(2)] by simp
  then have s24: "mb_word24 s = word_tail ?w us" unfolding s_def using us(1) n3 by (intro word24_of_small) simp_all
  have sc: "mb_count s = 1 + length us" unfolding s_def using us(1) n3 by simp
  have "unat (word_tail (word_tail ?w us) vs) = tail_value v (us @ vs)"
    using sequence_value(1) [OF assms(1), of "us @ vs"] assms(2) by (simp add: word_tail_append)
  moreover have "of_nat (unat (word_tail (word_tail ?w us) vs)) = word_tail (word_tail ?w us) vs" by simp
  ultimately have whole: "word_tail (word_tail ?w us) vs = of_nat (tail_value v (us @ vs))" by (simp only:)
  have "libc_utf8to32 (b # us) buf (length buf) 0 stream_mode = Inr (Ret 0, [], \<lparr>sk_dst = buf, sk_len = length buf, sk_result = 0, sk_state = s, sk_fault = False\<rparr>)"
    unfolding s_def using assms(4) by (intro first_part [OF assms(1) us(1) _ assms(5)]) simp
  moreover have "length us + length vs \<le> 3" "list_all cont_byte vs" using assms(2,4) n3 by simp_all
  from second_part [OF sc this assms(3,5)] have "libc_utf8to32 vs buf (length buf) s stream_mode =
      (if n = 3 then Inr (Ret 1, [], \<lparr>sk_dst = buf[0 := of_nat (tail_value v (us @ vs))], sk_len = length buf, sk_result = 1, sk_state = 0, sk_fault = False\<rparr>)
       else Inr (Ret 0, [], \<lparr>sk_dst = buf, sk_len = length buf, sk_result = 0, sk_state = mb_set_count (of_nat (tail_value v (us @ vs))) (1 + n), sk_fault = False\<rparr>))"
    by (simp only: s24 whole add.assoc assms(2))
  ultimately show ?thesis unfolding stream_mode_def [symmetric] by blast
qed

theorem utf8to32_split_witness:
  "\<exists>s. libc_utf8to32 [0xc3] [0] 1 0 (UNICODE_F_NOZEROTERM OR UNICODE_F_UPDATESRC) = Inr (Ret 0, [], \<lparr>sk_dst = [0], sk_len = 1, sk_result = 0, sk_state = s, sk_fault = False\<rparr>) \<and>
     libc_utf8to32 [0xa9] [0] 1 s (UNICODE_F_NOZEROTERM OR UNICODE_F_UPDATESRC) =
       Inr (Ret 0, [], \<lparr>sk_dst = [0], sk_len = 1, sk_result = 0, sk_state = mb_set_count 0xe9 2, sk_fault = False\<rparr>)"
  using utf8to32_split [of "0xc3" 1 3 "[]" "[0xa9]" "[0]"] 
  by (simp add: lead_byte_def cont_byte_def) (simp only: numeral_2_eq_2)

section \<open>Printing\<close>

lemma utf32_step_ascii:
  assumes "unat ch < 0x80"
  shows "utf32_step stream_mode ch src k =
    (if sk_len k \<le> sk_result k then Done_Update src (k\<lparr>sk_state := mb_set_count ch 1\<rparr>) else Next src (put1 (ucast ch) k))"
  using assms by (simp add: utf32_step_def put_utf8_def put_char7_def done_ch_def skip_zero_def word_less_nat_alt word_le_nat_alt
      UNI_SURROGATE_HIGH_BEGIN_def)

abbreviation ascii :: "32 word list \<Rightarrow> bool" where
  "ascii xs \<equiv> list_all (\<lambda>ch. unat ch < 0x80) xs"

lemma utf32_loop_ascii:
  assumes "ascii src" "length out \<le> length buf"
  shows "utf32_loop stream_mode src (sink_at (buf, length buf) (out, s)) =
    (let room = length buf - length out in
     if length src \<le> room then Break [] (sink_at (buf, length buf) (out @ map ucast src, s))
     else Done_Update (drop (Suc room) src) (sink_at (buf, length buf) (out @ map ucast (take room src), mb_set_count (src ! room) 1)))"
  using assms
proof (induction src arbitrary: out)
  case (Cons ch src)
  show ?case
  proof (cases "length buf = length out")
    case True
    with Cons.prems show ?thesis by (simp add: utf32_step_ascii)
  next
    case False
    define r where "r = length buf - length (out @ [ucast ch :: byte])"
    from False have room: "length buf - length out = Suc r" "length (out @ [ucast ch :: byte]) \<le> length buf"
      using Cons.prems by (simp_all add: r_def)
    from Cons.IH [OF _ room(2)] Cons.prems False show ?thesis
      unfolding room r_def [symmetric] by (simp add: utf32_step_ascii Let_def)
  qed
qed simp

text \<open>The shift state with at most one character that is yet to be written.\<close>

definition pending :: "32 word list \<Rightarrow> mbstate" where
  "pending ps = (case ps of [] \<Rightarrow> 0 | ch # _ \<Rightarrow> mb_set_count ch 1)"

lemma mb_first_byte: "ucast (mb_set_count ch (Suc 0)) = (ucast ch :: byte)"
proof -
  have "(2 ^ 24 + x mod 2 ^ 24) mod 2 ^ 8 = x mod 2 ^ 8" for x :: nat
  proof -
    have "(2 ^ 24 + x mod 2 ^ 24) mod 2 ^ 8 = (2 ^ 16 * 2 ^ 8 + x mod 2 ^ 24) mod (2 ^ 8 :: nat)" by simp
    also have "\<dots> = x mod 2 ^ 24 mod 2 ^ 8" by (rule mod_mult_self3)
    also have "\<dots> = x mod 2 ^ 8" by (rule mod_mod_cancel) (simp add: le_imp_power_dvd)
    finally show ?thesis .
  qed
  then have "unat (ucast (mb_set_count ch (Suc 0)) :: byte) = unat (ucast ch :: byte)"
    by (simp add: unsigned_ucast_eq take_bit_eq_mod unat_set_count)
  then show ?thesis by (rule word_unat_eq_iff [THEN iffD2])
qed

lemma utf32to8_stream_ascii:
  assumes "ascii (ps @ src)" "length ps \<le> 1" "length buf = 256"
  shows "libc_utf32to8 src buf (length buf) (pending ps) stream_mode =
    (let t = ps @ src in
     if length t \<le> 256 then Inr (Ret (length t), [], sink_at (buf, length buf) (map ucast t, 0))
     else Inr (Ret 256, drop 257 t, sink_at (buf, length buf) (map ucast (take 256 t), pending [t ! 256])))"
proof (cases ps)
  case Nil
  then show ?thesis using utf32_loop_ascii [of src "[]" buf 0] assms
    by (simp add: libc_utf32to8_def Let_def pending_def sink_start conv_return_def conv_done_def unless_fault_def)
next
  case (Cons ch ps')
  then have ps: "ps = [ch]" and ch: "unat ch < 0x80" using assms by auto
  have "mb_count (pending ps) = 1" by (simp add: pending_def ps)
  moreover have "take 1 (mb_bytes (pending ps)) = [ucast ch]" by (simp add: mb_bytes_def pending_def ps mb_first_byte)
  ultimately show ?thesis using utf32_loop_ascii [of src "[ucast ch]" buf 0] assms ps
    by (simp add: libc_utf32to8_def Let_def resume_bytes_at count_and_7f conv_return_def conv_done_def unless_fault_def pending_def [of "[_]"])
qed

text \<open>A printer that keeps what it is given.\<close>

definition collect :: "byte list printer" where
  "collect bs acc = (int (length bs), acc @ bs)"

text \<open>How many of \<open>n\<close> characters are printed; the others, at most one, are in the shift state in the end.\<close>

definition printed_length :: "nat \<Rightarrow> nat" where
  "printed_length n = (if 256 < n \<and> n mod 256 = 1 then n - 1 else n)"

definition format_result :: "byte list \<Rightarrow> int \<Rightarrow> 32 word list \<Rightarrow> (int \<times> byte list \<times> mbstate) result option" where
  "format_result acc r t =
     (let k = printed_length (length t) in Some (Inr (r + int k, acc @ map ucast (take k t), pending (drop k t))))"

lemma printed_length_chunk:
  assumes "257 < n"
  shows "printed_length n = 256 + printed_length (n - 256)"
proof -
  have "n mod 256 = (n - 256) mod 256" using assms by (simp add: le_mod_geq)
  moreover have "(n - 256) mod 256 \<noteq> 1" if "n - 256 \<le> 256"
  proof (cases "n - 256 = 256")
    case False
    with that have "(n - 256) mod 256 = n - 256" by simp
    with assms show ?thesis by linarith
  qed simp
  ultimately show ?thesis using assms by (auto simp: printed_length_def)
qed

lemma format_result_chunk:
  assumes "257 < length t"
  shows "format_result acc r t = format_result (acc @ map ucast (take 256 t)) (r + 256) (drop 256 t)"
proof -
  define k where "k = printed_length (length t - 256)"
  have "printed_length (length t) = 256 + k" unfolding k_def by (rule printed_length_chunk [OF assms])
  then show ?thesis by (simp add: format_result_def take_add add.commute [of k] k_def [symmetric])
qed

lemma format_step:
  assumes "src \<noteq> []" "length out \<le> length buf"
    and "libc_utf32to8 src buf (length buf) st stream_mode = Inr (Ret (length out), src', sink_at (buf, length buf) (out, st'))"
  shows "libc_format_w32sztomb collect acc src st 0 buf r =
    libc_format_w32sztomb collect (acc @ out) src' st' 0 (fill buf out) (r + int (length out))"
  using assms by (subst libc_format_w32sztomb.simps) (simp add: stream_mode_def [symmetric] collect_def take_fill)

lemma format_end: "libc_format_w32sztomb printer acc [] st mode buf r = Some (Inr (r, acc, st))"
  by (subst libc_format_w32sztomb.simps) simp

lemma format_w32_pending:
  assumes "ascii (ps @ src)" "length ps \<le> 1" "length buf = 256" "src \<noteq> []"
  shows "libc_format_w32sztomb collect acc src (pending ps) 0 buf r = format_result acc r (ps @ src)"
  using assms
proof (induction "length src" arbitrary: ps src acc buf r rule: less_induct)
  case less
  define t where "t = ps @ src"
  note call = utf32to8_stream_ascii [OF less.prems(1-3), folded t_def]
  have "libc_format_w32sztomb collect acc src (pending ps) 0 buf r = format_result acc r t"
  proof (cases "length t \<le> 256")
    case True
    then have "libc_utf32to8 src buf (length buf) (pending ps) stream_mode = Inr (Ret (length (map ucast t)), [], sink_at (buf, length buf) (map ucast t, 0))"
      using call by simp
    from format_step [OF less.prems(4) _ this] True less.prems(3) show ?thesis
      by (simp add: format_end format_result_def printed_length_def pending_def)
  next
    case False
    let ?out = "map ucast (take 256 t) :: byte list" and ?ps = "[t ! 256]" and ?src = "drop 257 t"
    have "libc_utf32to8 src buf (length buf) (pending ps) stream_mode = Inr (Ret (length ?out), ?src, sink_at (buf, length buf) (?out, pending ?ps))"
      using call False by simp
    from format_step [OF less.prems(4) _ this] False less.prems(3)
    have step: "libc_format_w32sztomb collect acc src (pending ps) 0 buf r =
        libc_format_w32sztomb collect (acc @ ?out) ?src (pending ?ps) 0 (fill buf ?out) (r + 256)" by simp
    have rest: "?ps @ ?src = drop 256 t" using False Cons_nth_drop_Suc [of 256 t] by simp
    show ?thesis
    proof (cases "length t = 257")
      case True
      then show ?thesis using rest by (simp add: step format_end format_result_def printed_length_def)
    next
      case False
      with \<open>\<not> length t \<le> 256\<close> have n: "257 < length t" by simp
      have "ascii t" using less.prems(1) by (simp add: t_def)
      then have "ascii (?ps @ ?src)" unfolding rest by (auto simp: list_all_iff dest: in_set_dropD)
      moreover have "length ?src < length src" using less.prems(2,4) by (cases src) (simp_all add: t_def)
      ultimately show ?thesis using less.hyps [of ?src ?ps "fill buf ?out" "acc @ ?out" "r + 256"] less.prems(3) n
        by (simp add: step rest format_result_chunk del: append.simps)
    qed
  qed
  then show ?case by (simp only: t_def)
qed

text \<open>\<^verbatim>\<open>libc_format_w32sztomb\<close> returns, and prints a text of ASCII characters in chunks of up to 256 bytes, without the last
  character when there is exactly one left for the last chunk: the conversion takes the character that it has no room for
  into the shift state, and the printer does not look there when the text is at its end.\<close>

theorem format_w32_ascii:
  assumes "\<forall>ch \<in> set src. unat ch < 0x80" "length buf = 256"
  shows "libc_format_w32sztomb collect [] src 0 0 buf 0 =
    (let k = (if 256 < length src \<and> length src mod 256 = 1 then length src - 1 else length src) in
     Some (Inr (int k, map ucast (take k src), pending (drop k src))))"
proof (cases "src = []")
  case True
  then show ?thesis by (simp add: format_end pending_def)
next
  case False
  have "ascii ([] @ src)" using assms(1) by (simp add: list_all_iff)
  from format_w32_pending [OF this _ assms(2) False, of "[]" 0] show ?thesis
    by (simp add: pending_def [of "[]"] format_result_def printed_length_def Let_def)
qed

theorem format_w32_ascii_witness:
  "libc_format_w32sztomb collect [] (replicate 257 0x61) 0 0 (replicate 256 0) 0 =
    Some (Inr (256, replicate 256 0x61, pending [0x61]))"
  using format_w32_ascii [of "replicate 257 0x61" "replicate 256 0"] by simp

section \<open>Strings in heap memory and on the stack\<close>

lemma string_result_returns:
  assumes "string_result b y r" "\<And>e out. y \<noteq> Raised e out"
  shows "\<exists>s. r = Some (Inr s)"
  using assms by (cases y) (auto simp: string_result_def)

lemma safe_not_raised:
  assumes "conv_safe 0 n (conv [] 0)" "conv [] 0 = deliver src 0 ([], 0) y"
  shows "y \<noteq> Raised e out"
  using assms flags_plain(1) by (auto simp: conv_safe_def deliver_def)

lemma utf8to16ms_returns:
  assumes "heap_laws alloc realloc" "length src < 0x60000000"
  shows "\<exists>r. libc_utf8to16ms alloc realloc src = Some (Inr r)"
proof -
  obtain y where y: "decode_outcome 0 word_units16 src y" "\<And>buf n. libc_utf8to16 src buf n 0 0 = deliver src 0 (buf, n) y"
    using utf8to16_decodes [OF plain_modes(1)] by blast
  have "length out \<le> length src + 1" if "y = Text out s" for out s
    using decode_outcome_length [OF y(1) [unfolded that] word_units16_ascii word_units16_length] .
  then have "string_result (heap_total alloc realloc) y (libc_utf8to16ms alloc realloc src)"
    unfolding libc_utf8to16ms_def using assms(2) first_length(2) [OF assms(2)]
    by (intro ms_outcome(1) [of "\<lambda>buf n. libc_utf8to16 src buf n 0 0" src 0 y, OF y(2) assms(1)]) fastforce+
  then show ?thesis using decode_outcome_string [OF y(1) _ flags_plain(1)] by blast
qed

lemma utf16to8ms_returns:
  assumes "heap_laws alloc realloc" "3 * length src + 1 < 2 ^ 32"
  shows "\<exists>r. libc_utf16to8ms alloc realloc src = Some (Inr r)"
proof -
  obtain y where y: "\<And>buf. libc_utf16to8 src buf (length buf) 0 0 = deliver src 0 (buf, length buf) y"
    using utf16to8.independent_length [OF plain_flags(7) [OF plain_modes(1)]] by blast
  have "length out \<le> 3 * length src + 1" if "y = Text out s" for out s
    using utf16to8.text_length [OF y [unfolded that]] utf16to8_result by blast
  then have "string_result (heap_total alloc realloc) y (libc_utf16to8ms alloc realloc src)"
    unfolding libc_utf16to8ms_def using assms(2) by (intro ms_outcome(1) [of "\<lambda>buf n. libc_utf16to8 src buf n 0 0" src 0 y, OF y assms(1)]) (auto simp: size_t_def intro: le_less_trans)
  moreover have "y \<noteq> Raised e out" for e out
    using safe_not_raised [of 0 "\<lambda>buf n. libc_utf16to8 src buf n 0 0" src y] safe(4) [OF mb_ok_0, of 0 "[]" 0 src] y [of "[]"] by simp
  ultimately show ?thesis by (rule string_result_returns)
qed

lemma utf32to8ms_returns:
  assumes "heap_laws alloc realloc" "4 * length src + 1 < 2 ^ 32"
  shows "\<exists>r. libc_utf32to8ms alloc realloc src = Some (Inr r)"
proof -
  obtain y where y: "\<And>buf. libc_utf32to8 src buf (length buf) 0 0 = deliver src 0 (buf, length buf) y"
    using utf32to8.independent_length [OF plain_flags(7) [OF plain_modes(1)]] by blast
  have "length out \<le> 4 * length src + 1" if "y = Text out s" for out s
    using utf32to8.text_length [OF y [unfolded that]] utf32to8_result by blast
  then have "string_result (heap_total alloc realloc) y (libc_utf32to8ms alloc realloc src)"
    unfolding libc_utf32to8ms_def using assms(2) by (intro ms_outcome(1) [of "\<lambda>buf n. libc_utf32to8 src buf n 0 0" src 0 y, OF y assms(1)]) (auto simp: size_t_def intro: le_less_trans)
  moreover have "y \<noteq> Raised e out" for e out
    using safe_not_raised [of 0 "\<lambda>buf n. libc_utf32to8 src buf n 0 0" src y] safe(3) [OF mb_ok_0, of 0 "[]" 0 src] y [of "[]"] by simp
  ultimately show ?thesis by (rule string_result_returns)
qed

text \<open>C29: The functions that convert a text to a string in heap memory return, with a string or with \<^verbatim>\<open>NULL\<close>, for every text, malformed ones
  included: the loop that converts again with a larger buffer ends. The texts have fewer than \<^verbatim>\<open>0x30000000\<close> bytes, or units whose conversion takes at most \<open>2 ^ 32 - 1\<close> bytes,
  so that no size wraps.\<close>

theorem string_functions_return:
  assumes "heap_laws alloc8 realloc8" "heap_laws alloc16 realloc16" "heap_laws alloc32 realloc32"
    and "length utf8 < 0x30000000" "3 * length utf16 + 1 < 2 ^ 32" "4 * length utf32 + 1 < 2 ^ 32"
  shows "(\<exists>r. libc_utf8to16ms alloc16 realloc16 utf8 = Some (Inr r)) \<and>
    (\<exists>r. libc_utf8to32ms alloc32 realloc32 utf8 = Some (Inr r)) \<and>
    (\<exists>r. libc_utf16to8ms alloc8 realloc8 utf16 = Some (Inr r)) \<and>
    (\<exists>r. libc_utf32to8ms alloc8 realloc8 utf32 = Some (Inr r))"
  using utf8to16ms_returns [OF assms(2), of utf8] utf8to32ms_decodes [OF assms(3,4)]
    utf16to8ms_returns [OF assms(1,5)] utf32to8ms_returns [OF assms(1,6)] assms(4) by auto

theorem string_functions_return_witness:
  "\<exists>r. libc_utf16to8ms zero_alloc zero_realloc [0xdc00, 0xd83d, 0x41] = Some (Inr r)"
  using string_functions_return [OF zero_heap(1) zero_heap(1) zero_heap(1), of "[]" "[0xdc00, 0xd83d, 0x41]" "[]"] by simp

definition starts_with :: "byte list \<Rightarrow> byte list \<Rightarrow> bool" where
  "starts_with z out \<longleftrightarrow> take (length out) z = out"

text \<open>\<^verbatim>\<open>libc_loadutf16\<close> and \<^verbatim>\<open>libc_loadutf32\<close> return, for a NUL-terminated string of characters below \<^verbatim>\<open>0x10000\<close>, memory
  that starts with the UTF-8 text and a NUL behind it, be it the buffer on the stack or memory of the heap; they return
  \<^verbatim>\<open>NULL\<close> only if memory runs out, where the variants with exceptions throw.\<close>

theorem loadutf_encodes:
  assumes "heap_laws alloc realloc" "length buf = UTF_STACK_BUFFER_SIZE"
    and "\<forall>ch \<in> set xs. bmp_char (unat ch)" "\<forall>u \<in> set us. bmp_char (unat u)"
  shows "((\<exists>z. libc_loadutf32 realloc buf (xs @ [0]) = Some (Inr (Some z)) \<and> starts_with z (encode_utf8 (map unat xs) @ [0])) \<or>
        libc_loadutf32 realloc buf (xs @ [0]) = Some (Inr None) \<and> \<not> heap_total alloc realloc) \<and>
    ((\<exists>z. libc_Xloadutf32 realloc buf (xs @ [0]) = Some (Inr z) \<and> starts_with z (encode_utf8 (map unat xs) @ [0])) \<or>
        libc_Xloadutf32 realloc buf (xs @ [0]) = Some (Inl E_BADALLOC) \<and> \<not> heap_total alloc realloc) \<and>
    ((\<exists>z. libc_loadutf16 realloc buf (us @ [0]) = Some (Inr (Some z)) \<and> starts_with z (encode_utf8 (map unat us) @ [0])) \<or>
        libc_loadutf16 realloc buf (us @ [0]) = Some (Inr None) \<and> \<not> heap_total alloc realloc) \<and>
    ((\<exists>z. libc_Xloadutf16 realloc buf (us @ [0]) = Some (Inr z) \<and> starts_with z (encode_utf8 (map unat us) @ [0])) \<or>
        libc_Xloadutf16 realloc buf (us @ [0]) = Some (Inl E_BADALLOC) \<and> \<not> heap_total alloc realloc)"
proof -
  have "0 \<notin> set xs" "0 \<notin> set us" using assms(3,4) by (auto simp: bmp_char_def)
  note len = with_len_terminated [OF this(1)] with_len_terminated [OF this(2)]
  have "list_all utf32_valid xs" using assms(3) by (auto simp: list_all_iff utf32_valid_def bmp_char_def word_le_nat_alt)
  from utf32to8_encodes [OF _ this] have x: "plain_mode mode \<Longrightarrow> libc_utf32to8 xs buf n 0 mode = deliver xs 0 (buf, n) (Text (encode_utf8 (map unat xs) @ [0]) 0)" for mode buf n
    using assms(3) by (simp add: word_bytes_text bmp_char_def)
  have "list_all utf16_single us" using assms(4) by (auto simp: list_all_iff utf16_single_def bmp_char_def)
  from utf16to8_encodes [OF _ this] have u: "plain_mode mode \<Longrightarrow> libc_utf16to8 us buf n 0 mode = deliver us 0 (buf, n) (Text (encode_utf8 (map unat us) @ [0]) 0)" for mode buf n
    using assms(4) word_bytes_text [of "map ucast us"] by (simp add: bmp_char_def comp_def unat_unit)
  show ?thesis
    unfolding libc_loadutf32_def libc_Xloadutf32_def libc_loadutf16_def libc_Xloadutf16_def len libc_Xutf32to8_def libc_Xutf16to8_def starts_with_def
    by (intro conjI load_text [OF _ assms(1,2)]) (rule x u, rule plain_modes)+
qed

theorem loadutf_encodes_witness:
  "\<exists>z. libc_loadutf32 zero_realloc (replicate 128 0) [0x20ac, 0] = Some (Inr (Some z)) \<and> starts_with z [0xe2, 0x82, 0xac, 0]"
proof -
  have "encode_utf8 [0x20ac] = [0xe2, 0x82, 0xac]" by (simp add: encode_utf8_def encode_char_def)
  with loadutf_encodes [OF zero_heap(1), of "replicate 128 0" "[0x20ac]" "[]"] show ?thesis
    by (simp add: UTF_STACK_BUFFER_SIZE_def bmp_char_def zero_heap(2))
qed

end
