(* ===== verification/Heap_State.thy ===== *)
theory Heap_State
  imports Atree_Props
begin

text \<open>
  The state of a kernel heap (\<^verbatim>\<open>src/kernel/include/kernel/heap.h\<close>), the memory that its blocks lie
  in, and what the heap calls of the rest of the kernel. The model is the one of a build with
  \<^verbatim>\<open>CONFIG_DEBUG_HEAP\<close>, \<^verbatim>\<open>CONFIG_HEAP_TRACE_DANGLE\<close> and \<^verbatim>\<open>CONFIG_HEAP_RANDOMIZE_OFFSETS\<close>, which are the
  defaults of a build with assertions, for the i386. One thread runs; \<^verbatim>\<open>h_lock\<close> is left out.
\<close>

section \<open>Constants\<close>

type_synonym gfp = "32 word"

definition PAGESIZE :: "32 word" where "PAGESIZE = 4096"
definition HEAP_ALIGNMENT :: "32 word" where "HEAP_ALIGNMENT = 16"

text \<open>Two links of a list, two of the tree, the size, and two bytes.\<close>

definition SIZEOF_MFREE :: "32 word" where "SIZEOF_MFREE = 22"

definition CEIL_ALIGN32 :: "32 word \<Rightarrow> 32 word \<Rightarrow> 32 word" where
  "CEIL_ALIGN32 x a = (x + (a - 1)) AND NOT (a - 1)"

definition IS_ALIGNED :: "32 word \<Rightarrow> 32 word \<Rightarrow> bool" where
  "IS_ALIGNED x a \<longleftrightarrow> x mod a = 0"

definition CEILDIV :: "32 word \<Rightarrow> 32 word \<Rightarrow> 32 word" where
  "CEILDIV x y = (x + y - 1) div y"

definition FLOORDIV :: "32 word \<Rightarrow> 32 word \<Rightarrow> 32 word" where
  "FLOORDIV x y = x div y"

definition HEAP_MINSIZE :: "32 word" where
  "HEAP_MINSIZE = CEIL_ALIGN32 SIZEOF_MFREE HEAP_ALIGNMENT"

definition VM_ADDR2PAGE :: "32 word \<Rightarrow> 32 word" where "VM_ADDR2PAGE x = x div PAGESIZE"
definition VM_PAGE2ADDR :: "32 word \<Rightarrow> 32 word" where "VM_PAGE2ADDR x = x * PAGESIZE"

definition GFP_LOCKED :: gfp where "GFP_LOCKED = 0x0001"
definition GFP_HEAPMASK :: gfp where "GFP_HEAPMASK = 3"
definition GFP_CALLOC :: gfp where "GFP_CALLOC = 0x0010"
definition GFP_ATOMIC :: gfp where "GFP_ATOMIC = 0x0800"
definition GFP_NOOVER :: gfp where "GFP_NOOVER = 0x1000"
definition GFP_NOMAP :: gfp where "GFP_NOMAP = 0x4000"
definition VM_GETFREE_FBELOW :: "32 word" where "VM_GETFREE_FBELOW = 0x0001"

definition DEBUGHEAP_NO_MANS_LAND :: "32 word" where "DEBUGHEAP_NO_MANS_LAND = 0xdeadbeef"
definition DEBUGHEAP_FRESH_MEMORY :: "32 word" where "DEBUGHEAP_FRESH_MEMORY = 0xaaaaaaaa"

definition has :: "gfp \<Rightarrow> gfp \<Rightarrow> bool" where
  "has flags f \<longleftrightarrow> flags AND f \<noteq> 0"

section \<open>Free nodes\<close>

text \<open>
  A free node lies at the start of the range that it describes, here its address \<open>mf_self\<close>. It is linked into
  the address tree and into a list of nodes of similar sizes. While it is linked none of its fields changes, so the tree
  and the lists hold nodes by value. Of \<^verbatim>\<open>mf_flags\<close> only the bit \<^verbatim>\<open>GFP_CALLOC\<close> is ever set.
\<close>

record mfree =
  mf_self :: key
  mf_size :: "32 word"
  mf_flags :: gfp
  mf_szchk :: byte

definition MFREE_MIN :: "mfree \<Rightarrow> key" where "MFREE_MIN n = mf_self n"
definition MFREE_MAX :: "mfree \<Rightarrow> key" where "MFREE_MAX n = mf_self n + mf_size n - 1"
definition MFREE_END :: "mfree \<Rightarrow> key" where "MFREE_END n = mf_self n + mf_size n"

definition mfree_get_checksum :: "mfree \<Rightarrow> byte" where
  "mfree_get_checksum n = 0 - (ucast (mf_size n) + ucast (drop_bit 8 (mf_size n)) +
     ucast (drop_bit 16 (mf_size n)) + ucast (drop_bit 24 (mf_size n)))"

definition mfree_set_checksum :: "mfree \<Rightarrow> mfree" where
  "mfree_set_checksum n = n\<lparr>mf_szchk := mfree_get_checksum n\<rparr>"

text \<open>The buckets: one per number of bits of the size.\<close>

fun bit_length :: "nat \<Rightarrow> nat" where
  "bit_length n = (if n = 0 then 0 else Suc (bit_length (n div 2)))"

declare bit_length.simps [simp del]

definition clz :: "32 word \<Rightarrow> nat" where
  "clz w = 32 - bit_length (unat w)"

definition HEAP_BUCKET_OFFSET :: "32 word" where "HEAP_BUCKET_OFFSET = 5"

definition HEAP_BUCKET_OF :: "32 word \<Rightarrow> nat" where
  "HEAP_BUCKET_OF sz = unat (4 * 8 - of_nat (clz sz) - HEAP_BUCKET_OFFSET)"

definition HEAP_BUCKET_COUNT :: nat where
  "HEAP_BUCKET_COUNT = unat (4 * 8 - (HEAP_BUCKET_OFFSET - 1))"

record heap =
  h_addr :: "mfree atree"
  h_size :: "mfree list list"
  h_overalloc :: "32 word"
  h_freethresh :: "32 word"
  h_hintpage :: "32 word"
  h_hintmode :: "32 word"
  h_dangle :: "32 word"

definition DEFAULT_OVERALLOC :: "32 word" where "DEFAULT_OVERALLOC = PAGESIZE * 32"
definition DEFAULT_FREETHRESH :: "32 word" where "DEFAULT_FREETHRESH = PAGESIZE * 64"

text \<open>The heaps of the kernel, in the order of their flags; what is not given is zero.\<close>

definition empty_heap :: "32 word \<Rightarrow> 32 word \<Rightarrow> 32 word \<Rightarrow> 32 word \<Rightarrow> heap" where
  "empty_heap overalloc freethresh hintpage hintmode =
     \<lparr>h_addr = ATREE_NULL, h_size = replicate HEAP_BUCKET_COUNT [], h_overalloc = overalloc, h_freethresh = freethresh,
      h_hintpage = hintpage, h_hintmode = hintmode, h_dangle = 0\<rparr>"

definition kernel_heaps :: "heap list" where
  "kernel_heaps =
     [empty_heap DEFAULT_OVERALLOC DEFAULT_FREETHRESH 0xe1200 0,
      empty_heap (DEFAULT_OVERALLOC div 4) (DEFAULT_FREETHRESH div 4) 0xe1a00 0,
      empty_heap DEFAULT_OVERALLOC DEFAULT_FREETHRESH 0xc0000 VM_GETFREE_FBELOW,
      empty_heap (DEFAULT_OVERALLOC div 4) (DEFAULT_FREETHRESH div 4) 0xbf800 VM_GETFREE_FBELOW]"

record heapptr =
  hp_ptr :: key
  hp_siz :: "32 word"

section \<open>Memory\<close>

type_synonym memory = "key \<Rightarrow> byte"

definition memset :: "memory \<Rightarrow> key \<Rightarrow> byte \<Rightarrow> 32 word \<Rightarrow> memory" where
  "memset m p b n = (\<lambda>x. if x - p < n then b else m x)"

definition memsetl :: "memory \<Rightarrow> key \<Rightarrow> 32 word \<Rightarrow> 32 word \<Rightarrow> memory" where
  "memsetl m p pattern dwords = (\<lambda>x. if (x - p) div 4 < dwords
     then ucast (drop_bit (8 * unat ((x - p) AND 3)) pattern) else m x)"

definition mempatl :: "memory \<Rightarrow> key \<Rightarrow> 32 word \<Rightarrow> 32 word \<Rightarrow> memory" where
  "mempatl m p pattern n = (\<lambda>x. if x - p < n then ucast (drop_bit (8 * unat (x AND 3)) pattern) else m x)"

definition memcpy :: "memory \<Rightarrow> key \<Rightarrow> key \<Rightarrow> 32 word \<Rightarrow> memory" where
  "memcpy m dst src n = (\<lambda>x. if x - dst < n then m (src + (x - dst)) else m x)"

section \<open>The rest of the kernel\<close>

text \<open>
  \<open>'v\<close> is the state of the rest of the kernel: its virtual memory, the other heaps, and the generator of random
  numbers. The heap calls:
  \<^item> \<open>k_corepair\<close>: the allocation of the control structures of a mapping (\<^verbatim>\<open>vm_corealloc\<close> or \<^verbatim>\<open>kmalloc\<close>) and, for a locked
    heap, of its physical memory (\<^verbatim>\<open>page_malloc\<close>); \<open>k_discard\<close> releases them;
  \<^item> \<open>k_tryacquire\<close>: whether \<^verbatim>\<open>vm_tryacquire\<close> gets the lock of \<^verbatim>\<open>vm_kernel\<close>;
  \<^item> \<open>k_getfree\<close>, \<open>k_getanynode\<close>, \<open>k_insert\<close>, \<open>k_unmap\<close>, \<open>k_merge\<close>: \<^verbatim>\<open>vm_getfree\<close>, \<^verbatim>\<open>vm_getanynode\<close> (is there a node between
    the two pages, both included), \<^verbatim>\<open>vm_insert_and_activate_node\<close>, \<^verbatim>\<open>vm_unmap\<close>, \<^verbatim>\<open>vm_merge_before\<close>;
  \<^item> \<open>k_ismapped\<close>: \<^verbatim>\<open>pagedir_ismapped\<close>; \<open>k_rand\<close>: \<^verbatim>\<open>rand\<close>;
  \<^item> \<open>k_yield\<close>: what other threads do to the world during \<^verbatim>\<open>task_yield\<close>;
  \<^item> \<open>k_copyfault\<close>: the exception of a page that cannot be loaded while memory is copied, if there is one.

  \<open>k_header\<close> is the byte that the headers of the free nodes have at an address: links and fields in the layout of the
  compiler.
\<close>

record 'v world =
  w_heap :: heap
  w_mem :: memory
  w_vm :: 'v

record 'v kernel =
  k_corepair :: "gfp \<Rightarrow> 32 word \<Rightarrow> 'v \<Rightarrow> unit result \<times> 'v"
  k_discard :: "'v \<Rightarrow> 'v"
  k_tryacquire :: "'v \<Rightarrow> bool"
  k_getfree :: "32 word \<Rightarrow> 32 word \<Rightarrow> 32 word \<Rightarrow> 'v \<Rightarrow> 32 word result"
  k_getanynode :: "32 word \<Rightarrow> 32 word \<Rightarrow> 'v \<Rightarrow> bool"
  k_insert :: "32 word \<Rightarrow> 32 word \<Rightarrow> 'v \<Rightarrow> unit result \<times> 'v"
  k_unmap :: "32 word \<Rightarrow> 32 word \<Rightarrow> 'v \<Rightarrow> 'v"
  k_merge :: "32 word \<Rightarrow> 'v \<Rightarrow> 'v"
  k_ismapped :: "32 word \<Rightarrow> 'v \<Rightarrow> bool"
  k_rand :: "'v \<Rightarrow> 32 word \<times> 'v"
  k_yield :: "'v world \<Rightarrow> 'v world"
  k_copyfault :: "key \<Rightarrow> key \<Rightarrow> 32 word \<Rightarrow> 'v \<Rightarrow> kos_error option"
  k_header :: "heap \<Rightarrow> key \<Rightarrow> byte"

section \<open>Sequencing\<close>

text \<open>
  Code of the heap returns the way it ended with the world that it leaves, also when it throws; or \<open>None\<close> if it does
  not return. A handler catches exceptions, not failed assertions.
\<close>

type_synonym ('v, 'a) hres = "('a result \<times> 'v world) option"

definition hbind :: "('v, 'a) hres \<Rightarrow> ('a \<Rightarrow> 'v world \<Rightarrow> ('v, 'b) hres) \<Rightarrow> ('v, 'b) hres" where
  "hbind m f = Option.bind m (\<lambda>(r, w). case r of Inl e \<Rightarrow> Some (Inl e, w) | Inr x \<Rightarrow> f x w)"

definition hcatch :: "('v, 'a) hres \<Rightarrow> (kos_error \<Rightarrow> 'v world \<Rightarrow> ('v, 'a) hres) \<Rightarrow> ('v, 'a) hres" where
  "hcatch m f = Option.bind m (\<lambda>(r, w). case r of
     Inl e \<Rightarrow> if e = E_ASSERT then Some (Inl e, w) else f e w | Inr x \<Rightarrow> Some (Inr x, w))"

definition hassert :: "bool \<Rightarrow> 'v world \<Rightarrow> ('v, 'a) hres \<Rightarrow> ('v, 'a) hres" where
  "hassert b w m = (if b then m else Some (Inl E_ASSERT, w))"

definition hlift :: "'a pres \<Rightarrow> 'v world \<Rightarrow> ('v, 'a) hres" where
  "hlift p w = Option.bind p (\<lambda>r. Some (r, w))"

lemma hbind_simps [simp]:
  "hbind (Some (Inr x, w)) f = f x w" "hbind (Some (Inl e, w)) f = Some (Inl e, w)" "hbind None f = None"
  by (simp_all add: hbind_def)

lemma hcatch_simps [simp]:
  "hcatch (Some (Inr x, w)) f = Some (Inr x, w)" "hcatch None f = None"
  "hcatch (Some (Inl E_ASSERT, w)) f = Some (Inl E_ASSERT, w)"
  "e \<noteq> E_ASSERT \<Longrightarrow> hcatch (Some (Inl e, w)) f = f e w"
  by (simp_all add: hcatch_def)

lemma hassert_simps [simp]:
  "hassert True w m = m" "hassert False w m = Some (Inl E_ASSERT, w)"
  by (simp_all add: hassert_def)

lemma hlift_simps [simp]:
  "hlift (Some r) w = Some (r, w)" "hlift None w = None"
  by (simp_all add: hlift_def)

lemma hbind_mono [partial_function_mono]:
  assumes "mono_option B" "\<And>y w. mono_option (\<lambda>f. C y w f)"
  shows "mono_option (\<lambda>f. hbind (B f) (\<lambda>y w. C y w f))"
  unfolding hbind_def
proof (rule bind_mono [OF assms(1)])
  show "mono_option (\<lambda>f. case p of (r, w) \<Rightarrow> case r of Inl e \<Rightarrow> Some (Inl e, w) | Inr x \<Rightarrow> C x w f)" for p
    by (cases p; cases "fst p") (auto intro: assms(2) option.const_mono)
qed

lemma hcatch_mono [partial_function_mono]:
  assumes "mono_option B" "\<And>y w. mono_option (\<lambda>f. C y w f)"
  shows "mono_option (\<lambda>f. hcatch (B f) (\<lambda>y w. C y w f))"
  unfolding hcatch_def
proof (rule bind_mono [OF assms(1)])
  show "mono_option (\<lambda>f. case p of (r, w) \<Rightarrow> case r of
      Inl e \<Rightarrow> if e = E_ASSERT then Some (Inl e, w) else C e w f | Inr x \<Rightarrow> Some (Inr x, w))" for p
    by (cases p; cases "fst p") (auto intro!: partial_function_mono assms(2))
qed

lemma hassert_mono [partial_function_mono]:
  "mono_option B \<Longrightarrow> mono_option (\<lambda>f. hassert b w (B f))"
  unfolding hassert_def by (intro partial_function_mono)

end
