(* ===== verification/Heap.thy ===== *)
theory Heap
  imports Heap_State
begin

text \<open>
  The kernel heap (\<^verbatim>\<open>src/kernel/src/kernel/heap.c\<close>): the pages that it takes from the virtual memory of the kernel
  and gives back, the free nodes, and \<^verbatim>\<open>heap_free\<close>. The source turns the calls of \<^verbatim>\<open>heap_validate_all\<close> off with a macro;
  they are left out, as are the messages to the debugger and the assertion that a heap of the kernel is used in its address space.
\<close>

section \<open>Debug patterns\<close>

function reset_pages :: "'v kernel \<Rightarrow> 'v \<Rightarrow> key \<Rightarrow> 32 word \<Rightarrow> 32 word \<Rightarrow> memory \<Rightarrow> memory" where
  "reset_pages K v ptr pattern num_bytes m =
     (if PAGESIZE \<le> num_bytes
      then reset_pages K v (ptr + PAGESIZE) pattern (num_bytes - PAGESIZE)
             (if k_ismapped K (VM_ADDR2PAGE ptr) v then memsetl m ptr pattern (PAGESIZE div 4) else m)
      else if num_bytes \<noteq> 0 then mempatl m ptr pattern num_bytes else m)"
  by pat_completeness auto
termination
  by (relation "measure (\<lambda>(K, v, ptr, pattern, num_bytes, m). unat num_bytes)")
     (auto simp: PAGESIZE_def unat_sub word_le_nat_alt)

declare reset_pages.simps [simp del]

definition reset_heap_data :: "'v kernel \<Rightarrow> key \<Rightarrow> 32 word \<Rightarrow> 32 word \<Rightarrow> 'v world \<Rightarrow> 'v world" where
  "reset_heap_data K ptr pattern num_bytes w =
     w_mem_update (\<lambda>m.
       if num_bytes < PAGESIZE then mempatl m ptr pattern num_bytes
       else if ptr AND (PAGESIZE - 1) \<noteq> 0 then
         let inpage_free = PAGESIZE - (ptr AND (PAGESIZE - 1));
             inpage_free = (if num_bytes < inpage_free then num_bytes else inpage_free)
         in reset_pages K (w_vm w) (ptr + inpage_free) pattern (num_bytes - inpage_free) (mempatl m ptr pattern inpage_free)
       else reset_pages K (w_vm w) ptr pattern num_bytes m) w"

section \<open>Pages\<close>

text \<open>
  New pages read as zero, or as fresh memory: a locked heap writes them, the others have the pattern as the filler of
  the region.
\<close>

definition page_fill :: "gfp \<Rightarrow> 32 word \<Rightarrow> 32 word \<Rightarrow> memory \<Rightarrow> memory" where
  "page_fill flags page num_pages m =
     memsetl m (VM_PAGE2ADDR page) (if has flags GFP_CALLOC then 0 else DEBUGHEAP_FRESH_MEMORY) (num_pages * PAGESIZE div 4)"

definition core_page_alloc :: "'v kernel \<Rightarrow> 32 word \<Rightarrow> gfp \<Rightarrow> 'v world \<Rightarrow> ('v, 32 word) hres" where
  "core_page_alloc K num_pages flags w =
     hassert (num_pages \<noteq> 0) w
     (if has flags GFP_NOMAP then Some (Inl E_WOULDBLOCK, w)
      else case k_corepair K flags num_pages (w_vm w) of
        (Inl e, v) \<Rightarrow> Some (Inl e, w\<lparr>w_vm := v\<rparr>)
      | (Inr _, v) \<Rightarrow>
          if \<not> k_tryacquire K v \<and> has flags GFP_ATOMIC then Some (Inl E_WOULDBLOCK, w\<lparr>w_vm := k_discard K v\<rparr>)
          else case k_getfree K (h_hintpage (w_heap w)) num_pages (h_hintmode (w_heap w)) v of
            Inl e \<Rightarrow> Some (Inl e, w\<lparr>w_vm := k_discard K v\<rparr>)
          | Inr page \<Rightarrow>
              let w = w_heap_update (h_hintpage_update (\<lambda>_. page)) w in
              (case k_insert K page num_pages v of
                (Inl e, v) \<Rightarrow> Some (Inl e, w\<lparr>w_vm := k_discard K v\<rparr>)
              | (Inr _, v) \<Rightarrow> Some (Inr page, w_mem_update (page_fill flags page num_pages) (w\<lparr>w_vm := v\<rparr>))))"

definition core_page_allocat :: "'v kernel \<Rightarrow> 32 word \<Rightarrow> 32 word \<Rightarrow> gfp \<Rightarrow> 'v world \<Rightarrow> ('v, bool) hres" where
  "core_page_allocat K page num_pages flags w =
     hassert (num_pages \<noteq> 0) w
     (if has flags GFP_NOMAP then Some (Inl E_WOULDBLOCK, w)
      else if \<not> k_tryacquire K (w_vm w) \<and> has flags GFP_ATOMIC then Some (Inl E_WOULDBLOCK, w)
      else if k_getanynode K page (page + num_pages) (w_vm w) then Some (Inr False, w)
      else case k_corepair K flags num_pages (w_vm w) of
        (Inl e, v) \<Rightarrow> Some (Inl e, w\<lparr>w_vm := v\<rparr>)
      | (Inr _, v) \<Rightarrow>
          (case k_insert K page num_pages v of
            (Inl e, v) \<Rightarrow> Some (Inl e, w\<lparr>w_vm := k_discard K v\<rparr>)
          | (Inr _, v) \<Rightarrow> Some (Inr True, w_mem_update (page_fill flags page num_pages) (w\<lparr>w_vm := v\<rparr>))))"

definition core_page_free :: "'v kernel \<Rightarrow> 32 word \<Rightarrow> 32 word \<Rightarrow> 'v world \<Rightarrow> ('v, unit) hres" where
  "core_page_free K page num_pages w =
     hassert (num_pages \<noteq> 0) w (Some (Inr (), w_vm_update (k_unmap K page num_pages) w))"

definition merge_before :: "'v kernel \<Rightarrow> 32 word \<Rightarrow> 32 word \<Rightarrow> 'v world \<Rightarrow> 'v world" where
  "merge_before K p q w = w_vm_update (\<lambda>v. if k_tryacquire K v then k_merge K q (k_merge K p v) else v) w"

definition heap_allocation_overflow :: "'v world \<Rightarrow> ('v, 'a) hres" where
  "heap_allocation_overflow w = Some (Inl E_BADALLOC, w)"

section \<open>Free nodes\<close>

definition header :: "mfree \<Rightarrow> key set" where
  "header n = {x. x - mf_self n < SIZEOF_MFREE}"

text \<open>The headers of the linked nodes are part of memory.\<close>

definition write_headers :: "'v kernel \<Rightarrow> 'v world \<Rightarrow> 'v world" where
  "write_headers K w =
     w_mem_update (\<lambda>m x. if \<exists>n\<in>set (concat (h_size (w_heap w))). x - mf_self n < SIZEOF_MFREE
                         then k_header K (w_heap w) x else m x) w"

primrec size_insert :: "mfree \<Rightarrow> mfree list \<Rightarrow> mfree list" where
  "size_insert node [] = [node]"
| "size_insert node (slot # slots) =
     (if mf_size slot < mf_size node then slot # size_insert node slots else node # slot # slots)"

definition heap_insert_node_unlocked :: "'v kernel \<Rightarrow> mfree \<Rightarrow> 'v world \<Rightarrow> ('v, unit) hres" where
  "heap_insert_node_unlocked K node w =
     hassert (mf_size node \<noteq> 0) w
     (hbind (hlift (insert_tree (h_addr (w_heap w)) (MFREE_MIN node, MFREE_MAX node, node)) w) (\<lambda>t w.
        let h = w_heap w; i = HEAP_BUCKET_OF (mf_size node) in
        if i < length (h_size h)
        then Some (Inr (), write_headers K (w\<lparr>w_heap := h\<lparr>h_addr := t, h_size := (h_size h)[i := size_insert node (h_size h ! i)]\<rparr>\<rparr>))
        else Some (Inl E_SEGFAULT, w)))"

text \<open>
  \<^verbatim>\<open>plocate_at\<close>, and if there is a node, \<^verbatim>\<open>pop_at\<close> and \<^verbatim>\<open>LIST_REMOVE\<close>; the removal by the address of a node is the
  same. \<^verbatim>\<open>LIST_REMOVE\<close> takes the node out of the list that it is in.
\<close>

definition heap_pop :: "'v kernel \<Rightarrow> key \<Rightarrow> 'v world \<Rightarrow> ('v, mfree option) hres" where
  "heap_pop K addr w =
     hbind (hlift (remove_tree (h_addr (w_heap w)) addr) w) (\<lambda>(slot, t) w.
       case slot of
         None \<Rightarrow> Some (Inr None, w)
       | Some (_, _, slot) \<Rightarrow>
           let h = w_heap w in
           Some (Inr (Some slot), write_headers K (w\<lparr>w_heap := h\<lparr>h_addr := t, h_size := map (remove1 slot) (h_size h)\<rparr>\<rparr>)))"

definition zero_or_pattern :: "gfp \<Rightarrow> key \<Rightarrow> 'v world \<Rightarrow> 'v world" where
  "zero_or_pattern flags p w =
     w_mem_update (\<lambda>m. if has flags GFP_CALLOC then memset m p 0 SIZEOF_MFREE
                       else mempatl m p DEBUGHEAP_NO_MANS_LAND SIZEOF_MFREE) w"

section \<open>Free\<close>

text \<open>
  What can be given back of a new node: the first page and the one after the last, and what is kept below and above.
  \<open>None\<close> if the node is to be linked as a whole.
\<close>

definition release_range :: "mfree \<Rightarrow> (32 word \<times> 32 word \<times> 32 word \<times> key \<times> 32 word) option" where
  "release_range new_slot =
     (let free_minpage = CEILDIV (MFREE_MIN new_slot) PAGESIZE;
          free_endpage = FLOORDIV (MFREE_END new_slot) PAGESIZE
      in if free_minpage < free_endpage then
        (let tkeep = free_endpage * PAGESIZE;
             hkeep_size = free_minpage * PAGESIZE - MFREE_MIN new_slot;
             tkeep_size = MFREE_END new_slot - tkeep;
             (hkeep_size, free_minpage) =
               (if hkeep_size \<noteq> 0 \<and> hkeep_size < HEAP_MINSIZE then (hkeep_size + PAGESIZE, free_minpage + 1)
                else (hkeep_size, free_minpage));
             (tkeep_size, tkeep, free_endpage) =
               (if tkeep_size \<noteq> 0 \<and> tkeep_size < HEAP_MINSIZE then (tkeep_size + PAGESIZE, tkeep - PAGESIZE, free_endpage - 1)
                else (tkeep_size, tkeep, free_endpage))
         in if free_endpage \<le> free_minpage then None
            else Some (free_minpage, free_endpage, hkeep_size, tkeep, tkeep_size))
      else None)"

definition reset_hint :: "32 word \<Rightarrow> 32 word \<Rightarrow> heap \<Rightarrow> heap" where
  "reset_hint free_minpage free_endpage h =
     (if has (h_hintmode h) VM_GETFREE_FBELOW
      then (if free_endpage \<le> h_hintpage h then h else h\<lparr>h_hintpage := free_endpage\<rparr>)
      else (if h_hintpage h \<le> free_minpage then h else h\<lparr>h_hintpage := free_minpage\<rparr>))"

text \<open>
  The end of \<^verbatim>\<open>heap_free_raw\<close>, from the label \<^verbatim>\<open>load_new_slot\<close>. The assertion that the kept tail starts inside of the
  node comes before the tail is adjusted. \<open>free\<close> is the recursive call.
\<close>

definition load_new_slot ::
  "(key \<Rightarrow> 32 word \<Rightarrow> gfp \<Rightarrow> 'v world \<Rightarrow> ('v, unit) hres) \<Rightarrow> 'v kernel \<Rightarrow> mfree \<Rightarrow> gfp \<Rightarrow> 32 word \<Rightarrow> 'v world \<Rightarrow> ('v, unit) hres" where
  "load_new_slot free K new_slot flags dandle_size w =
     (let w = w_heap_update (h_dangle_update (\<lambda>d. d - dandle_size)) w;
          insert = heap_insert_node_unlocked K (mfree_set_checksum new_slot) w
      in if \<not> has flags GFP_NOMAP \<and> h_freethresh (w_heap w) \<le> mf_size new_slot
      then hassert (CEILDIV (MFREE_MIN new_slot) PAGESIZE < FLOORDIV (MFREE_END new_slot) PAGESIZE \<longrightarrow>
                    FLOORDIV (MFREE_END new_slot) PAGESIZE * PAGESIZE \<le> MFREE_END new_slot) w
        (case release_range new_slot of
           None \<Rightarrow> insert
         | Some (free_minpage, free_endpage, hkeep_size, tkeep, tkeep_size) \<Rightarrow>
             let hkeep = MFREE_MIN new_slot;
                 flags = (flags AND NOT GFP_CALLOC) OR mf_flags new_slot;
                 w = (if hkeep_size \<noteq> 0 then zero_or_pattern flags hkeep w else w);
                 w = (if tkeep_size \<noteq> 0 then zero_or_pattern flags tkeep w else w)
             in hbind (if hkeep_size \<noteq> 0 then free hkeep hkeep_size flags w else Some (Inr (), w)) (\<lambda>_ w.
                hbind (if tkeep_size \<noteq> 0 then free tkeep tkeep_size flags w else Some (Inr (), w)) (\<lambda>_ w.
                hbind (core_page_free K free_minpage (free_endpage - free_minpage) w) (\<lambda>_ w.
                Some (Inr (), w_heap_update (reset_hint free_minpage free_endpage) w)))))
      else insert)"

lemma load_new_slot_mono [partial_function_mono]:
  assumes "\<And>p n fl w. mono_option (\<lambda>f. g f p n fl w)"
  shows "mono_option (\<lambda>f. load_new_slot (g f) K new_slot flags dandle_size w)"
proof (cases "release_range new_slot")
  case None
  show ?thesis unfolding load_new_slot_def Let_def None option.case by (intro partial_function_mono)
next
  case (Some r)
  obtain a b c d e where r: "r = (a, b, c, d, e)" by (cases r)
  show ?thesis unfolding load_new_slot_def Let_def Some option.case r prod.case
    by (intro partial_function_mono assms)
qed

text \<open>The part of \<^verbatim>\<open>heap_free_raw\<close> from the label \<^verbatim>\<open>again\<close>.\<close>

partial_function (option) heap_free_again ::
  "'v kernel \<Rightarrow> 32 word \<Rightarrow> key \<Rightarrow> 32 word \<Rightarrow> gfp \<Rightarrow> 'v world \<Rightarrow> ('v, unit) hres" where
  "heap_free_again K dandle_size ptr num_bytes flags w =
     hassert (HEAP_MINSIZE \<le> num_bytes) w
     (hassert (IS_ALIGNED ptr HEAP_ALIGNMENT) w
     (hassert (IS_ALIGNED num_bytes HEAP_ALIGNMENT) w
     (hassert (ptr < ptr + num_bytes) w
     (hbind (heap_pop K (ptr - 1) w) (\<lambda>low w.
      case low of
        Some slot \<Rightarrow>
          if has flags GFP_CALLOC \<and> has (mf_flags slot) GFP_CALLOC
          then (let slot = slot\<lparr>mf_size := mf_size slot + num_bytes\<rparr> in
                hbind (heap_pop K (ptr + num_bytes) w) (\<lambda>high w.
                case high of
                  None \<Rightarrow> load_new_slot (heap_free_again K 0) K slot flags dandle_size w
                | Some high_slot \<Rightarrow>
                    if has (mf_flags slot) GFP_CALLOC \<and> has (mf_flags high_slot) GFP_CALLOC
                    then load_new_slot (heap_free_again K 0) K (slot\<lparr>mf_size := mf_size slot + mf_size high_slot\<rparr>) flags dandle_size
                           (w_mem_update (\<lambda>m. memset m (mf_self high_slot) 0 SIZEOF_MFREE) w)
                    else (let w = w_heap_update (h_dangle_update (\<lambda>d. d + mf_size high_slot)) w;
                              w = (if has (mf_flags slot) GFP_CALLOC
                                   then reset_heap_data K (mf_self slot + SIZEOF_MFREE) DEBUGHEAP_NO_MANS_LAND (mf_size slot - SIZEOF_MFREE) w
                                   else w);
                              w = (if has (mf_flags high_slot) GFP_CALLOC
                                   then reset_heap_data K (mf_self high_slot + SIZEOF_MFREE) DEBUGHEAP_NO_MANS_LAND (mf_size high_slot - SIZEOF_MFREE) w
                                   else w);
                              w = w_mem_update (\<lambda>m. mempatl m (mf_self slot) DEBUGHEAP_NO_MANS_LAND SIZEOF_MFREE) w;
                              w = w_mem_update (\<lambda>m. mempatl m (mf_self high_slot) DEBUGHEAP_NO_MANS_LAND SIZEOF_MFREE) w
                          in heap_free_again K (dandle_size + mf_size high_slot) (mf_self slot)
                               (mf_size slot + mf_size high_slot) (flags AND NOT GFP_CALLOC) w)))
          else (let w = w_heap_update (h_dangle_update (\<lambda>d. d + mf_size slot)) w;
                    w = (if has flags GFP_CALLOC then reset_heap_data K ptr DEBUGHEAP_NO_MANS_LAND num_bytes w else w);
                    w = (if has (mf_flags slot) GFP_CALLOC
                         then reset_heap_data K (mf_self slot + SIZEOF_MFREE) DEBUGHEAP_NO_MANS_LAND (mf_size slot - SIZEOF_MFREE) w
                         else w);
                    w = w_mem_update (\<lambda>m. mempatl m (mf_self slot) DEBUGHEAP_NO_MANS_LAND SIZEOF_MFREE) w
                in heap_free_again K (dandle_size + mf_size slot) (mf_self slot) (num_bytes + mf_size slot)
                     (flags AND NOT GFP_CALLOC) w)
      | None \<Rightarrow>
          hbind (heap_pop K (ptr + num_bytes) w) (\<lambda>high w.
          case high of
            Some slot \<Rightarrow>
              if has (mf_flags slot) GFP_CALLOC \<and> has flags GFP_CALLOC
              then load_new_slot (heap_free_again K 0) K
                     \<lparr>mf_self = ptr, mf_size = mf_size slot + num_bytes, mf_flags = mf_flags slot, mf_szchk = 0\<rparr> flags dandle_size
                     (w_mem_update (\<lambda>m. memset m (mf_self slot) 0 SIZEOF_MFREE) w)
              else (let w = w_heap_update (h_dangle_update (\<lambda>d. d + mf_size slot)) w;
                        w = (if has flags GFP_CALLOC then reset_heap_data K ptr DEBUGHEAP_NO_MANS_LAND num_bytes w else w);
                        w = (if has (mf_flags slot) GFP_CALLOC
                             then reset_heap_data K (mf_self slot) DEBUGHEAP_NO_MANS_LAND (mf_size slot) w
                             else w_mem_update (\<lambda>m. mempatl m (mf_self slot) DEBUGHEAP_NO_MANS_LAND SIZEOF_MFREE) w)
                    in heap_free_again K (dandle_size + mf_size slot) ptr (num_bytes + mf_size slot)
                         (flags AND NOT GFP_CALLOC) w)
          | None \<Rightarrow>
              load_new_slot (heap_free_again K 0) K
                \<lparr>mf_self = ptr, mf_size = num_bytes, mf_flags = flags AND GFP_CALLOC, mf_szchk = 0\<rparr> flags dandle_size w))))))"

definition heap_free_raw :: "'v kernel \<Rightarrow> key \<Rightarrow> 32 word \<Rightarrow> gfp \<Rightarrow> 'v world \<Rightarrow> ('v, unit) hres" where
  "heap_free_raw K ptr num_bytes flags w = heap_free_again K 0 ptr num_bytes flags w"

definition heap_free_untraced :: "'v kernel \<Rightarrow> key \<Rightarrow> 32 word \<Rightarrow> gfp \<Rightarrow> 'v world \<Rightarrow> ('v, unit) hres" where
  "heap_free_untraced K ptr num_bytes flags w =
     hassert (HEAP_MINSIZE \<le> num_bytes) w
     (hassert (IS_ALIGNED ptr HEAP_ALIGNMENT) w
     (hassert (IS_ALIGNED num_bytes HEAP_ALIGNMENT) w
     (heap_free_raw K ptr num_bytes flags
        (if has flags GFP_CALLOC then w else reset_heap_data K ptr DEBUGHEAP_NO_MANS_LAND num_bytes w))))"

end
