(* ===== verification/Heap_Blocks.thy ===== *)
theory Heap_Blocks
  imports Heap
begin

text \<open>
  The second half of \<^verbatim>\<open>src/kernel/src/kernel/heap.c\<close>: giving cached pages back, and the allocation, extension
  and reallocation of blocks.
\<close>

section \<open>Searching the buckets\<close>

text \<open>
  Three functions look through the buckets from the one of a size on. Of each bucket they consider the first
  node that is large enough, and go on with the next bucket if they cannot use it.
\<close>

primrec chain_search :: "32 word \<Rightarrow> mfree list \<Rightarrow> mfree option result" where
  "chain_search siz [] = Inr None"
| "chain_search siz (chain # rest) =
     rassert (IS_ALIGNED (mf_size chain) HEAP_ALIGNMENT)
      (if mf_size chain < siz then chain_search siz rest else Inr (Some chain))"

primrec bucket_search :: "(mfree \<Rightarrow> bool) \<Rightarrow> 32 word \<Rightarrow> mfree list list \<Rightarrow> mfree option result" where
  "bucket_search usable siz [] = Inr None"
| "bucket_search usable siz (bucket # buckets) =
     rbind (chain_search siz bucket) (\<lambda>chain. case chain of
       None \<Rightarrow> bucket_search usable siz buckets
     | Some chain \<Rightarrow> if usable chain then Inr (Some chain) else bucket_search usable siz buckets)"

text \<open>\<^verbatim>\<open>mfree_tree_remove\<close> of the address of a node, which must give the node, and \<^verbatim>\<open>LIST_REMOVE\<close>.\<close>

definition heap_take :: "'v kernel \<Rightarrow> mfree \<Rightarrow> 'v world \<Rightarrow> ('v, unit) hres" where
  "heap_take K chain w =
     hbind (heap_pop K (mf_self chain) w) (\<lambda>slot w. hassert (slot = Some chain) w (Some (Inr (), w)))"

section \<open>Trim\<close>

definition trim_usable :: "mfree \<Rightarrow> bool" where
  "trim_usable chain =
     (let free_min = CEILDIV (mf_self chain) PAGESIZE;
          free_end = FLOORDIV (MFREE_END chain) PAGESIZE;
          head_keep = free_min * PAGESIZE - mf_self chain;
          tail_keep = MFREE_END chain - free_end * PAGESIZE
      in free_min < free_end \<and> \<not> (head_keep \<noteq> 0 \<and> head_keep < HEAP_MINSIZE) \<and> \<not> (tail_keep \<noteq> 0 \<and> tail_keep < HEAP_MINSIZE))"

partial_function (option) heap_trim_again :: "'v kernel \<Rightarrow> 32 word \<Rightarrow> 32 word \<Rightarrow> 'v world \<Rightarrow> ('v, 32 word) hres" where
  "heap_trim_again K threshold result w =
     hbind (hlift (Some (bucket_search trim_usable threshold (drop (HEAP_BUCKET_OF threshold) (h_size (w_heap w))))) w) (\<lambda>chain w.
       case chain of
         None \<Rightarrow> Some (Inr result, w)
       | Some chain \<Rightarrow>
           let free_min = CEILDIV (mf_self chain) PAGESIZE;
               free_end = FLOORDIV (MFREE_END chain) PAGESIZE;
               head_keep = free_min * PAGESIZE - mf_self chain;
               tail_keep = MFREE_END chain - free_end * PAGESIZE;
               tail_pointer = MFREE_END chain - tail_keep;
               free_flags = mf_flags chain
           in hbind (heap_take K chain w) (\<lambda>_ w.
              let w = zero_or_pattern free_flags (mf_self chain) w in
              hbind (if head_keep \<noteq> 0 then heap_free_raw K (mf_self chain) head_keep free_flags w else Some (Inr (), w)) (\<lambda>_ w.
              hbind (if tail_keep \<noteq> 0 then heap_free_raw K tail_pointer tail_keep free_flags w else Some (Inr (), w)) (\<lambda>_ w.
              hbind (core_page_free K free_min (free_end - free_min) w) (\<lambda>_ w.
              heap_trim_again K threshold (result + (free_end - free_min) * PAGESIZE) w)))))"

definition heap_trim :: "'v kernel \<Rightarrow> 32 word \<Rightarrow> 'v world \<Rightarrow> ('v, 32 word) hres" where
  "heap_trim K threshold w =
     (let threshold = CEIL_ALIGN32 threshold PAGESIZE;
          threshold = (if threshold = 0 then PAGESIZE else threshold)
      in heap_trim_again K threshold 0 w)"

section \<open>Allocation\<close>

definition heap_free_overallocation :: "'v kernel \<Rightarrow> key \<Rightarrow> key \<Rightarrow> 32 word \<Rightarrow> gfp \<Rightarrow> 'v world \<Rightarrow> ('v, unit) hres" where
  "heap_free_overallocation K base_pointer overallocation_base num_free_bytes flags w =
     hassert (IS_ALIGNED overallocation_base HEAP_ALIGNMENT) w
     (hassert (IS_ALIGNED num_free_bytes HEAP_ALIGNMENT) w
     (let clear_size = PAGESIZE - (overallocation_base AND (PAGESIZE - 1));
          clear_size = (if clear_size < SIZEOF_MFREE then clear_size + PAGESIZE else clear_size);
          end_offset = (overallocation_base + num_free_bytes) AND (PAGESIZE - 1)
      in heap_free_raw K overallocation_base num_free_bytes flags
        (if (overallocation_base + (SIZEOF_MFREE - 1)) AND NOT (PAGESIZE - 1) \<noteq> base_pointer AND NOT (PAGESIZE - 1) \<and>
            (end_offset = 0 \<or> end_offset \<noteq> overallocation_base AND NOT (PAGESIZE - 1)) \<and>
            clear_size \<le> num_free_bytes \<and> \<not> has flags GFP_CALLOC
         then w_mem_update (\<lambda>m. mempatl m overallocation_base DEBUGHEAP_NO_MANS_LAND clear_size) w
         else w)))"

text \<open>The number of bytes that are allocated for a request; \<open>None\<close> if the sum overflows.\<close>

definition heap_alloc_size :: "32 word \<Rightarrow> 32 word option" where
  "heap_alloc_size num_bytes =
     (if num_bytes + (HEAP_ALIGNMENT - 1) < num_bytes then None
      else let siz = (num_bytes + (HEAP_ALIGNMENT - 1)) AND NOT (HEAP_ALIGNMENT - 1)
           in Some (if siz < HEAP_MINSIZE then HEAP_MINSIZE else siz))"

text \<open>The memory of a block that came out of a node.\<close>

definition init_block :: "'v kernel \<Rightarrow> gfp \<Rightarrow> gfp \<Rightarrow> heapptr \<Rightarrow> 'v world \<Rightarrow> 'v world" where
  "init_block K flags chain_flags result w =
     (if has flags GFP_CALLOC
      then w_mem_update (\<lambda>m. memset m (hp_ptr result) 0 (if has chain_flags GFP_CALLOC then SIZEOF_MFREE else hp_siz result)) w
      else reset_heap_data K (hp_ptr result) DEBUGHEAP_FRESH_MEMORY (hp_siz result) w)"

text \<open>What becomes of the bytes of a node that are not needed: they stay with the block, or are freed above and below it.\<close>

definition heap_split_chain :: "'v kernel \<Rightarrow> 32 word \<Rightarrow> gfp \<Rightarrow> mfree \<Rightarrow> 'v world \<Rightarrow> ('v, heapptr) hres" where
  "heap_split_chain K siz flags chain w =
     (let unused_size = mf_size chain - siz;
          free_flags = (flags AND NOT GFP_CALLOC) OR mf_flags chain
      in if unused_size < HEAP_MINSIZE then Some (Inr \<lparr>hp_ptr = mf_self chain, hp_siz = siz + unused_size\<rparr>, w)
      else
        let (r, v) = k_rand K (w_vm w);
            w = w\<lparr>w_vm := v\<rparr>;
            random_offset = (r mod unused_size) AND NOT (HEAP_ALIGNMENT - 1)
        in if HEAP_MINSIZE \<le> random_offset then
             hbind (heap_free_raw K (mf_self chain) random_offset free_flags (zero_or_pattern (mf_flags chain) (mf_self chain) w)) (\<lambda>_ w.
             let ptr = mf_self chain + random_offset;
                 unused_size = unused_size - random_offset
             in if unused_size < HEAP_MINSIZE then Some (Inr \<lparr>hp_ptr = ptr, hp_siz = siz + unused_size\<rparr>, w)
                else hbind (heap_free_overallocation K ptr (ptr + siz) unused_size free_flags w) (\<lambda>_ w.
                  Some (Inr \<lparr>hp_ptr = ptr, hp_siz = siz\<rparr>, w)))
           else hassert (unused_size < mf_size chain) w
             (hbind (heap_free_overallocation K (mf_self chain) (mf_self chain + siz) unused_size free_flags w) (\<lambda>_ w.
              Some (Inr \<lparr>hp_ptr = mf_self chain, hp_siz = siz\<rparr>, w))))"

text \<open>The body of the search loop of \<^verbatim>\<open>heap_alloc_untraced\<close>, for the node that it found.\<close>

definition heap_alloc_chain :: "'v kernel \<Rightarrow> 32 word \<Rightarrow> gfp \<Rightarrow> mfree \<Rightarrow> 'v world \<Rightarrow> ('v, heapptr) hres" where
  "heap_alloc_chain K siz flags chain w =
     hbind (heap_take K chain w) (\<lambda>_ w.
     let dangle_size = mf_size chain - siz;
         w = w_heap_update (h_dangle_update (\<lambda>d. d + dangle_size)) w
     in hassert (IS_ALIGNED dangle_size HEAP_ALIGNMENT) w
       (hbind (heap_split_chain K siz flags chain w) (\<lambda>result w.
         let w = w_heap_update (h_dangle_update (\<lambda>d. d - dangle_size)) w;
             w = init_block K flags (mf_flags chain) result w
         in hassert (IS_ALIGNED (hp_ptr result) HEAP_ALIGNMENT) w
           (hassert (IS_ALIGNED (hp_siz result) HEAP_ALIGNMENT) w
           (hassert (HEAP_MINSIZE \<le> hp_siz result) w (Some (Inr result, w)))))))"

text \<open>The end of \<^verbatim>\<open>heap_alloc_untraced\<close>: new pages.\<close>

definition heap_alloc_pages :: "'v kernel \<Rightarrow> 32 word \<Rightarrow> gfp \<Rightarrow> 'v world \<Rightarrow> ('v, heapptr) hres" where
  "heap_alloc_pages K siz flags w =
     (let page_bytes = siz + (PAGESIZE - 1) in
      if page_bytes < siz then heap_allocation_overflow w
      else
        let exact = page_bytes AND NOT (PAGESIZE - 1);
            without_overalloc = (\<lambda>w. hbind (core_page_alloc K (exact div PAGESIZE) flags w) (\<lambda>page w. Some (Inr (page, exact), w)));
            over = (if has flags GFP_NOOVER then page_bytes else page_bytes + h_overalloc (w_heap w))
        in hbind
          (if over < page_bytes then without_overalloc w
           else hcatch
             (let bytes = over AND NOT (PAGESIZE - 1)
              in hbind (core_page_alloc K (bytes div PAGESIZE) flags w) (\<lambda>page w. Some (Inr (page, bytes), w)))
             (\<lambda>e w. if e = E_BADALLOC then without_overalloc w else Some (Inl e, w)))
          (\<lambda>(pageaddr, page_bytes) w.
            let ptr = VM_PAGE2ADDR pageaddr;
                unused_size = page_bytes - siz
            in hbind
              (if unused_size < HEAP_MINSIZE then Some (Inr \<lparr>hp_ptr = ptr, hp_siz = page_bytes\<rparr>, w)
               else
                 let unused_begin = ptr + siz in
                 hassert (IS_ALIGNED unused_size HEAP_ALIGNMENT) w
                 (hassert (IS_ALIGNED unused_begin HEAP_ALIGNMENT) w
                 (hbind (heap_free_raw K unused_begin unused_size flags
                   (if has flags GFP_CALLOC then w
                    else w_mem_update (\<lambda>m. mempatl m unused_begin DEBUGHEAP_NO_MANS_LAND unused_size) w)) (\<lambda>_ w.
                  Some (Inr \<lparr>hp_ptr = ptr, hp_siz = siz\<rparr>, w)))))
              (\<lambda>result w.
                let w = merge_before K pageaddr (pageaddr + page_bytes div PAGESIZE) w
                in hassert (IS_ALIGNED (hp_ptr result) HEAP_ALIGNMENT) w
                  (hassert (IS_ALIGNED (hp_siz result) HEAP_ALIGNMENT) w
                  (hassert (HEAP_MINSIZE \<le> hp_siz result) w (Some (Inr result, w)))))))"

text \<open>
  \<^verbatim>\<open>heap_alloc_untraced\<close> from the label \<^verbatim>\<open>search_heap\<close>. \<open>iter\<close> is the bucket at which the search starts; the loop
  increments it for every bucket without a node that is large enough, and \<^verbatim>\<open>goto search_heap\<close> does not set it again.
\<close>

partial_function (option) heap_alloc_search :: "'v kernel \<Rightarrow> 32 word \<Rightarrow> gfp \<Rightarrow> nat \<Rightarrow> 'v world \<Rightarrow> ('v, heapptr) hres" where
  "heap_alloc_search K siz flags iter w =
     hbind (hlift (Some (bucket_search (\<lambda>_. True) siz (drop iter (h_size (w_heap w))))) w) (\<lambda>chain w.
       case chain of
         Some chain \<Rightarrow> heap_alloc_chain K siz flags chain w
       | None \<Rightarrow>
           if siz \<le> h_dangle (w_heap w) then heap_alloc_search K siz flags (iter + length (drop iter (h_size (w_heap w)))) (k_yield K w)
           else heap_alloc_pages K siz flags w)"

definition heap_alloc_untraced :: "'v kernel \<Rightarrow> 32 word \<Rightarrow> gfp \<Rightarrow> 'v world \<Rightarrow> ('v, heapptr) hres" where
  "heap_alloc_untraced K num_bytes flags w =
     (case heap_alloc_size num_bytes of
        None \<Rightarrow> heap_allocation_overflow w
      | Some siz \<Rightarrow> hassert (HEAP_BUCKET_OF siz < HEAP_BUCKET_COUNT) w
          (heap_alloc_search K siz flags (HEAP_BUCKET_OF siz) w))"

section \<open>Allocation at an address\<close>

text \<open>
  \<^verbatim>\<open>heap_allat_partial\<close> from the label \<^verbatim>\<open>again\<close>: the bytes from an address to the end of the free node that has it, after
  mapping pages where there is no such node, or where what is left of it below or above is too small. \<open>page_to_heap\<close> maps
  a page and adds it to the free nodes; the third place does not merge mappings, here \<open>merge\<close> says which one it is.
\<close>

definition page_to_heap :: "'v kernel \<Rightarrow> bool \<Rightarrow> 32 word \<Rightarrow> gfp \<Rightarrow> 'v world \<Rightarrow> ('v, bool) hres" where
  "page_to_heap K merge page flags w =
     hbind (core_page_allocat K page 1 flags w) (\<lambda>ok w.
       if \<not> ok then Some (Inr False, w)
       else
         let w = w_mem_update (\<lambda>m. memsetl m (VM_PAGE2ADDR page) DEBUGHEAP_NO_MANS_LAND (PAGESIZE div 4)) w
         in hbind (heap_free_raw K (VM_PAGE2ADDR page) PAGESIZE (flags OR GFP_NOMAP) w) (\<lambda>_ w.
            Some (Inr True, if merge then merge_before K page (page + 1) w else w)))"

partial_function (option) heap_allat_partial :: "'v kernel \<Rightarrow> key \<Rightarrow> gfp \<Rightarrow> 'v world \<Rightarrow> ('v, 32 word) hres" where
  "heap_allat_partial K ptr flags w =
     hassert (IS_ALIGNED ptr HEAP_ALIGNMENT) w
     (hbind (hlift (Some (locate_tree (h_addr (w_heap w)) ptr)) w) (\<lambda>pslot w.
      case pslot of
        None \<Rightarrow>
          hbind (page_to_heap K True (VM_ADDR2PAGE ptr) flags w) (\<lambda>ok w.
            if ok then heap_allat_partial K ptr flags w else Some (Inr 0, w))
      | Some (_, _, slot) \<Rightarrow>
          hassert (mf_self slot \<le> ptr) w
          (let free_offset = ptr - mf_self slot;
               result = mf_size slot - free_offset;
               slot_flags = (flags AND GFP_HEAPMASK) OR mf_flags slot;
               init = (\<lambda>w.
                 let w = (if has flags GFP_CALLOC then w else reset_heap_data K ptr DEBUGHEAP_FRESH_MEMORY result w);
                     w = (if has flags GFP_CALLOC \<and> \<not> has slot_flags GFP_CALLOC
                          then w_mem_update (\<lambda>m. memset m ptr 0 result) w else w)
                 in hassert (HEAP_MINSIZE \<le> result) w (Some (Inr result, w)))
           in if free_offset = 0 then
                hbind (heap_take K slot w) (\<lambda>_ w. init (zero_or_pattern flags (mf_self slot) w))
              else hassert (IS_ALIGNED free_offset HEAP_ALIGNMENT) w
                (if free_offset < HEAP_MINSIZE then
                   if mf_self slot AND (PAGESIZE - 1) \<noteq> 0 then Some (Inr 0, w)
                   else
                     let slot_page = VM_PAGE2ADDR (mf_self slot) in
                     if slot_page = 0 then Some (Inr 0, w)
                     else hbind (page_to_heap K True (slot_page - 1) (flags AND GFP_HEAPMASK) w) (\<lambda>ok w.
                       if ok then heap_allat_partial K ptr flags w else Some (Inr 0, w))
                 else if result < HEAP_MINSIZE then
                   let slot_end = MFREE_END slot in
                   if slot_end AND (PAGESIZE - 1) \<noteq> 0 then Some (Inr 0, w)
                   else hbind (page_to_heap K False (VM_ADDR2PAGE slot_end) (flags AND GFP_HEAPMASK) w) (\<lambda>ok w.
                     if ok then heap_allat_partial K ptr flags w else Some (Inr 0, w))
                 else
                   hbind (heap_take K slot w) (\<lambda>_ w.
                   let w = w_heap_update (h_dangle_update (\<lambda>d. d + free_offset)) w;
                       n = (if free_offset < SIZEOF_MFREE then free_offset else SIZEOF_MFREE);
                       w = w_mem_update (\<lambda>m. if has slot_flags GFP_CALLOC then memset m (mf_self slot) 0 n
                                             else mempatl m (mf_self slot) DEBUGHEAP_NO_MANS_LAND n) w
                   in hbind (heap_free_raw K (mf_self slot) free_offset slot_flags w) (\<lambda>_ w.
                      init (w_heap_update (h_dangle_update (\<lambda>d. d - free_offset)) w)))))))"

partial_function (option) heap_allat_loop :: "'v kernel \<Rightarrow> key \<Rightarrow> 32 word \<Rightarrow> gfp \<Rightarrow> 32 word \<Rightarrow> 'v world \<Rightarrow> ('v, 32 word) hres" where
  "heap_allat_loop K ptr alloc_size flags result w =
     (let give_up = (\<lambda>r w. if result \<noteq> 0 then hbind (heap_free_untraced K ptr result flags w) (\<lambda>_ w. Some (r, w)) else Some (r, w))
      in if result < alloc_size then
        hbind (hcatch (heap_allat_partial K (ptr + result) flags w) (\<lambda>e w. give_up (Inl e) w)) (\<lambda>part w.
          if part = 0 then give_up (Inr 0) w
          else heap_allat_loop K ptr alloc_size flags (result + part) w)
      else
        let unused_size = result - alloc_size in
        if HEAP_MINSIZE \<le> unused_size
        then hbind (heap_free_untraced K (ptr + alloc_size) unused_size flags w) (\<lambda>_ w. Some (Inr alloc_size, w))
        else Some (Inr result, w))"

definition heap_allat_untraced :: "'v kernel \<Rightarrow> key \<Rightarrow> 32 word \<Rightarrow> gfp \<Rightarrow> 'v world \<Rightarrow> ('v, 32 word) hres" where
  "heap_allat_untraced K ptr num_bytes flags w =
     (case heap_alloc_size num_bytes of
        None \<Rightarrow> heap_allocation_overflow w
      | Some alloc_size \<Rightarrow> heap_allat_loop K ptr alloc_size flags 0 w)"

section \<open>Aligned allocation\<close>

text \<open>
  The address in a node at which an aligned block would start. The loop adds the alignment until what is
  left below the block is large enough for a node.
\<close>

partial_function (option) advance_base :: "key \<Rightarrow> 32 word \<Rightarrow> key \<Rightarrow> key option" where
  "advance_base chain min_alignment alignment_base =
     (if alignment_base - chain < HEAP_MINSIZE then advance_base chain min_alignment (alignment_base + min_alignment)
      else Some alignment_base)"

definition alignment_base :: "32 word \<Rightarrow> 32 word \<Rightarrow> mfree \<Rightarrow> key option" where
  "alignment_base min_alignment offset chain =
     (let base = ((mf_self chain - offset + (min_alignment - 1)) AND NOT (min_alignment - 1)) + offset
      in if base \<noteq> mf_self chain then advance_base (mf_self chain) min_alignment base else Some base)"

text \<open>The body of the search loop of \<^verbatim>\<open>heap_align_untraced\<close>, for a node that it can use.\<close>

definition heap_align_chain ::
  "'v kernel \<Rightarrow> 32 word \<Rightarrow> 32 word \<Rightarrow> 32 word \<Rightarrow> gfp \<Rightarrow> mfree \<Rightarrow> key \<Rightarrow> 'v world \<Rightarrow> ('v, heapptr) hres" where
  "heap_align_chain K min_alignment offset alloc_bytes flags chain base w =
     hbind (heap_take K chain w) (\<lambda>_ w.
     let dangle_size = mf_size chain - alloc_bytes;
         w = w_heap_update (h_dangle_update (\<lambda>d. d + dangle_size)) w;
         chain_flags = mf_flags chain;
         hkeep = mf_self chain;
         hkeep_size = base - mf_self chain;
         tkeep = base + alloc_bytes;
         tkeep_size = MFREE_END chain - tkeep;
         (random_offset, w) =
           (if tkeep_size \<noteq> 0 then
              let (r, v) = k_rand K (w_vm w) in ((r mod tkeep_size) AND NOT (min_alignment - 1), w\<lparr>w_vm := v\<rparr>)
            else (0, w));
         random_offset = (if HEAP_MINSIZE \<le> hkeep_size + random_offset then random_offset else 0);
         hkeep_size = hkeep_size + random_offset;
         tkeep_size = tkeep_size - random_offset;
         tkeep = tkeep + random_offset;
         ptr = base + random_offset
     in hbind
       (if hkeep_size \<noteq> 0
        then hassert (HEAP_MINSIZE \<le> hkeep_size) w
          (heap_free_raw K hkeep hkeep_size chain_flags (zero_or_pattern chain_flags hkeep w))
        else Some (Inr (), w)) (\<lambda>_ w.
       hbind
       (if tkeep_size < HEAP_MINSIZE then Some (Inr (alloc_bytes + tkeep_size), w)
        else hbind (heap_free_overallocation K ptr tkeep tkeep_size ((flags AND NOT GFP_CALLOC) OR chain_flags) w)
          (\<lambda>_ w. Some (Inr alloc_bytes, w))) (\<lambda>siz w.
       let w = w_heap_update (h_dangle_update (\<lambda>d. d - dangle_size)) w;
           result = \<lparr>hp_ptr = ptr, hp_siz = siz\<rparr>;
           w = init_block K flags chain_flags result w
       in hassert (IS_ALIGNED (hp_ptr result) HEAP_ALIGNMENT) w
         (hassert (IS_ALIGNED (hp_ptr result + offset) min_alignment) w
         (hassert (IS_ALIGNED (hp_siz result) HEAP_ALIGNMENT) w
         (hassert (HEAP_MINSIZE \<le> hp_siz result) w (Some (Inr result, w))))))))"

text \<open>The search itself; it does not return if the loop on the alignment does not.\<close>

primrec align_search :: "32 word \<Rightarrow> 32 word \<Rightarrow> 32 word \<Rightarrow> mfree list list \<Rightarrow> (mfree \<times> key) option pres" where
  "align_search min_alignment offset alloc_bytes [] = Some (Inr None)"
| "align_search min_alignment offset alloc_bytes (bucket # buckets) =
     pbind (Some (chain_search alloc_bytes bucket)) (\<lambda>chain. case chain of
       None \<Rightarrow> align_search min_alignment offset alloc_bytes buckets
     | Some chain \<Rightarrow>
         Option.bind (alignment_base min_alignment offset chain) (\<lambda>base.
         if MFREE_END chain < base + alloc_bytes then align_search min_alignment offset alloc_bytes buckets
         else Some (Inr (Some (chain, base)))))"

text \<open>The fallback of \<^verbatim>\<open>heap_align_untraced\<close>: a larger block, of which both ends are freed.\<close>

definition heap_align_over :: "'v kernel \<Rightarrow> 32 word \<Rightarrow> 32 word \<Rightarrow> 32 word \<Rightarrow> gfp \<Rightarrow> 'v world \<Rightarrow> ('v, heapptr) hres" where
  "heap_align_over K min_alignment offset alloc_bytes flags w =
     (let sum = alloc_bytes + min_alignment;
          heap_alloc_bytes = sum + HEAP_MINSIZE
      in if sum < alloc_bytes then heap_allocation_overflow w
      else if heap_alloc_bytes < sum then heap_allocation_overflow w
      else hbind (heap_alloc_untraced K heap_alloc_bytes flags w) (\<lambda>result_base w.
        hassert (heap_alloc_bytes \<le> hp_siz result_base) w
        (let ptr = CEIL_ALIGN32 (hp_ptr result_base + HEAP_MINSIZE + offset) min_alignment - offset;
             nouse_size = ptr - hp_ptr result_base
         in hassert (ptr + alloc_bytes \<le> hp_ptr result_base + hp_siz result_base) w
           (hassert (nouse_size + alloc_bytes \<le> hp_siz result_base) w
           (hassert (HEAP_MINSIZE \<le> nouse_size) w
           (hbind (heap_free_untraced K (hp_ptr result_base) nouse_size flags w) (\<lambda>_ w.
             let base_siz = hp_siz result_base - nouse_size in
             hassert (HEAP_MINSIZE \<le> base_siz) w
             (hassert (alloc_bytes \<le> base_siz) w
             (let nouse_size = base_siz - alloc_bytes in
              hbind (if HEAP_MINSIZE \<le> nouse_size
                     then hbind (heap_free_untraced K (ptr + alloc_bytes) nouse_size flags w) (\<lambda>_ w. Some (Inr (base_siz - nouse_size), w))
                     else Some (Inr base_siz, w)) (\<lambda>siz w.
              hassert (alloc_bytes \<le> siz) w
              (hassert (IS_ALIGNED (ptr + offset) min_alignment) w
              (hassert (IS_ALIGNED siz HEAP_ALIGNMENT) w
              (hassert (HEAP_MINSIZE \<le> siz) w (Some (Inr \<lparr>hp_ptr = ptr, hp_siz = siz\<rparr>, w)))))))))))))))"

definition heap_align_untraced ::
  "'v kernel \<Rightarrow> 32 word \<Rightarrow> 32 word \<Rightarrow> 32 word \<Rightarrow> gfp \<Rightarrow> 'v world \<Rightarrow> ('v, heapptr) hres" where
  "heap_align_untraced K min_alignment offset num_bytes flags w =
     hassert (min_alignment \<noteq> 0) w
     (hassert (min_alignment AND (min_alignment - 1) = 0) w
     (let offset = offset AND (min_alignment - 1) in
      if min_alignment \<le> HEAP_ALIGNMENT \<and> offset = 0 then heap_alloc_untraced K num_bytes flags w
      else case heap_alloc_size num_bytes of
        None \<Rightarrow> heap_allocation_overflow w
      | Some alloc_bytes \<Rightarrow> hassert (HEAP_BUCKET_OF alloc_bytes < HEAP_BUCKET_COUNT) w
          (hbind (hlift (align_search min_alignment offset alloc_bytes (drop (HEAP_BUCKET_OF alloc_bytes) (h_size (w_heap w)))) w)
            (\<lambda>found w. case found of
               Some (chain, base) \<Rightarrow> heap_align_chain K min_alignment offset alloc_bytes flags chain base w
             | None \<Rightarrow> heap_align_over K min_alignment offset alloc_bytes flags w))))"

section \<open>Reallocation\<close>

text \<open>Shrinking a block, which both functions do the same way.\<close>

definition heap_shrink :: "'v kernel \<Rightarrow> key \<Rightarrow> 32 word \<Rightarrow> 32 word \<Rightarrow> gfp \<Rightarrow> 'v world \<Rightarrow> ('v, heapptr) hres" where
  "heap_shrink K old_ptr old_bytes new_bytes free_flags w =
     (let free_bytes = old_bytes - new_bytes in
      if HEAP_MINSIZE \<le> free_bytes
      then hbind (heap_free_untraced K (old_ptr + new_bytes) free_bytes free_flags w)
        (\<lambda>_ w. Some (Inr \<lparr>hp_ptr = old_ptr, hp_siz = new_bytes\<rparr>, w))
      else Some (Inr \<lparr>hp_ptr = old_ptr, hp_siz = old_bytes\<rparr>, w))"

text \<open>Growing a block: in place, or with the copy to a new block that \<open>alloc\<close> allocates.\<close>

definition heap_grow ::
  "'v kernel \<Rightarrow> ('v world \<Rightarrow> ('v, heapptr) hres) \<Rightarrow> key \<Rightarrow> 32 word \<Rightarrow> 32 word \<Rightarrow> gfp \<Rightarrow> gfp \<Rightarrow> 'v world \<Rightarrow> ('v, heapptr) hres" where
  "heap_grow K alloc old_ptr old_bytes new_bytes alloc_flags free_flags w =
     hbind (heap_allat_untraced K (old_ptr + old_bytes) (new_bytes - old_bytes) alloc_flags w) (\<lambda>missing_bytes w.
       if missing_bytes \<noteq> 0 then Some (Inr \<lparr>hp_ptr = old_ptr, hp_siz = old_bytes + missing_bytes\<rparr>, w)
       else hbind (alloc w) (\<lambda>result w.
         case k_copyfault K (hp_ptr result) old_ptr old_bytes (w_vm w) of
           Some e \<Rightarrow>
             hbind (heap_free_untraced K (hp_ptr result) (hp_siz result) (alloc_flags AND NOT GFP_CALLOC) w) (\<lambda>_ w. Some (Inl e, w))
         | None \<Rightarrow>
             hbind (heap_free_untraced K old_ptr old_bytes (free_flags AND NOT GFP_CALLOC)
                     (w_mem_update (\<lambda>m. memcpy m (hp_ptr result) old_ptr old_bytes) w)) (\<lambda>_ w. Some (Inr result, w))))"

definition heap_realloc_untraced ::
  "'v kernel \<Rightarrow> key \<Rightarrow> 32 word \<Rightarrow> 32 word \<Rightarrow> gfp \<Rightarrow> gfp \<Rightarrow> 'v world \<Rightarrow> ('v, heapptr) hres" where
  "heap_realloc_untraced K old_ptr old_bytes new_bytes alloc_flags free_flags w =
     hassert (IS_ALIGNED old_bytes HEAP_ALIGNMENT) w
     (hassert (old_bytes = 0 \<or> IS_ALIGNED old_ptr HEAP_ALIGNMENT) w
     (hassert (old_bytes = 0 \<or> HEAP_MINSIZE \<le> old_bytes) w
     (if old_bytes = 0 then heap_alloc_untraced K new_bytes alloc_flags w
      else if new_bytes + (HEAP_ALIGNMENT - 1) < new_bytes then heap_allocation_overflow w
      else
        let new_bytes = (new_bytes + (HEAP_ALIGNMENT - 1)) AND NOT (HEAP_ALIGNMENT - 1);
            new_bytes = (if new_bytes < HEAP_MINSIZE then HEAP_MINSIZE else new_bytes)
        in if new_bytes \<le> old_bytes then heap_shrink K old_ptr old_bytes new_bytes free_flags w
           else heap_grow K (heap_alloc_untraced K new_bytes alloc_flags) old_ptr old_bytes new_bytes alloc_flags free_flags w)))"

definition heap_realign_untraced ::
  "'v kernel \<Rightarrow> key \<Rightarrow> 32 word \<Rightarrow> 32 word \<Rightarrow> 32 word \<Rightarrow> 32 word \<Rightarrow> gfp \<Rightarrow> gfp \<Rightarrow> 'v world \<Rightarrow> ('v, heapptr) hres" where
  "heap_realign_untraced K old_ptr old_bytes min_alignment offset new_bytes alloc_flags free_flags w =
     hassert (IS_ALIGNED old_bytes HEAP_ALIGNMENT) w
     (hassert (old_bytes = 0 \<or> IS_ALIGNED old_ptr HEAP_ALIGNMENT) w
     (hassert (old_bytes = 0 \<or> HEAP_MINSIZE \<le> old_bytes) w
     (if old_bytes = 0 then heap_align_untraced K min_alignment offset new_bytes alloc_flags w
      else if new_bytes + (HEAP_ALIGNMENT - 1) < new_bytes then heap_allocation_overflow w
      else
        let new_bytes = (new_bytes + (HEAP_ALIGNMENT - 1)) AND NOT (HEAP_ALIGNMENT - 1)
        in if new_bytes \<le> old_bytes
           then heap_shrink K old_ptr old_bytes (if new_bytes < HEAP_MINSIZE then HEAP_MINSIZE else new_bytes) free_flags w
           else heap_grow K (heap_align_untraced K min_alignment offset new_bytes alloc_flags) old_ptr old_bytes new_bytes
                  alloc_flags free_flags w)))"

end
