(* ===== verification/Heap_Nodes.thy ===== *)
theory Heap_Nodes
  imports Heap_Blocks
begin

text \<open>
  The free nodes of a heap as one set: the address tree and the buckets hold the same nodes, which do not overlap.
  Taking a node out and linking one in are operations on this set.
\<close>

lemmas heap_consts = PAGESIZE_def HEAP_ALIGNMENT_def SIZEOF_MFREE_def

lemma HEAP_MINSIZE_32 [simp]: "HEAP_MINSIZE = 32"
  by (simp add: HEAP_MINSIZE_def CEIL_ALIGN32_def SIZEOF_MFREE_def HEAP_ALIGNMENT_def)

lemma HEAP_BUCKET_COUNT_28: "HEAP_BUCKET_COUNT = 28"
  by (simp add: HEAP_BUCKET_COUNT_def HEAP_BUCKET_OFFSET_def)

section \<open>Ranges of addresses\<close>

definition region :: "key \<Rightarrow> 32 word \<Rightarrow> key set" where
  "region p n = {x. x - p < n}"

definition fits :: "key \<Rightarrow> 32 word \<Rightarrow> bool" where
  "fits p n \<longleftrightarrow> p < p + n"

lemma fits_iff: "fits p n \<longleftrightarrow> n \<noteq> 0 \<and> unat p + unat n < 2 ^ 32"
proof -
  have "unat p < 2 ^ 32" "unat n < 2 ^ 32" by (rule unat_less_2_32)+
  then show ?thesis
    by (auto simp: fits_def word_less_nat_alt unat_word_ariths(1) mod_if unat_gt_0)
qed

lemma unat_sub_32: "unat (x - y :: 32 word) = (if unat y \<le> unat x then unat x - unat y else 2 ^ 32 + unat x - unat y)"
  using unat_less_2_32 [of x] unat_less_2_32 [of y] by (auto simp: unat_sub_if_size word_le_nat_alt word_size)

lemma unat_add_32: "unat a + unat b < 2 ^ 32 \<Longrightarrow> unat (a + b :: 32 word) = unat a + unat b"
  by (simp add: unat_word_ariths(1))

lemma unat_fits: "fits p n \<Longrightarrow> unat (p + n) = unat p + unat n"
  by (simp add: fits_iff unat_add_32)

lemma in_region: "unat p + unat n \<le> 2 ^ 32 \<Longrightarrow> x \<in> region p n \<longleftrightarrow> unat p \<le> unat x \<and> unat x < unat p + unat n"
  using unat_less_2_32 [of x] unat_less_2_32 [of p] by (auto simp: region_def word_less_nat_alt unat_sub_32)

lemma in_region_fits: "fits p n \<Longrightarrow> x \<in> region p n \<longleftrightarrow> unat p \<le> unat x \<and> unat x < unat p + unat n"
  by (rule in_region) (simp add: fits_iff)

lemma region_0 [simp]: "region p 0 = {}"
  by (simp add: region_def)

lemma IS_ALIGNED_iff: "IS_ALIGNED x a \<longleftrightarrow> unat a dvd unat x"
  by (simp add: IS_ALIGNED_def word_unat_eq_iff unat_mod dvd_eq_mod_eq_0)

lemma aligned_16: "IS_ALIGNED x HEAP_ALIGNMENT \<longleftrightarrow> 16 dvd unat x"
  by (simp add: IS_ALIGNED_iff HEAP_ALIGNMENT_def)

section \<open>Nodes\<close>

definition node_bytes :: "mfree \<Rightarrow> key set" where
  "node_bytes n = region (mf_self n) (mf_size n)"

definition node_ok :: "mfree \<Rightarrow> bool" where
  "node_ok n \<longleftrightarrow> IS_ALIGNED (mf_self n) HEAP_ALIGNMENT \<and> IS_ALIGNED (mf_size n) HEAP_ALIGNMENT \<and> HEAP_MINSIZE \<le> mf_size n \<and>
     fits (mf_self n) (mf_size n) \<and> mf_flags n \<in> {0, GFP_CALLOC} \<and> mf_szchk n = mfree_get_checksum n"

definition node_leaf :: "mfree \<Rightarrow> mfree aleaf" where
  "node_leaf n = (MFREE_MIN n, MFREE_MAX n, n)"

definition nodes :: "heap \<Rightarrow> mfree set" where
  "nodes h = set (concat (h_size h))"

definition free_bytes :: "heap \<Rightarrow> key set" where
  "free_bytes h = \<Union> (node_bytes ` nodes h)"

definition header_bytes :: "heap \<Rightarrow> key set" where
  "header_bytes h = \<Union> (header ` nodes h)"

text \<open>The buckets: a node is in the one of its size, and each is sorted.\<close>

definition buckets_ok :: "mfree list list \<Rightarrow> bool" where
  "buckets_ok bs \<longleftrightarrow> length bs = HEAP_BUCKET_COUNT \<and>
     (\<forall>i < length bs. distinct (bs ! i) \<and> sorted (map mf_size (bs ! i)) \<and> (\<forall>n \<in> set (bs ! i). HEAP_BUCKET_OF (mf_size n) = i))"

definition linked :: "heap \<Rightarrow> bool" where
  "linked h \<longleftrightarrow> tree_ok (h_addr h) \<and> ranges (h_addr h) = node_leaf ` nodes h \<and> buckets_ok (h_size h) \<and> (\<forall>n \<in> nodes h. node_ok n)"

lemma node_ok_size: "node_ok n \<Longrightarrow> 32 \<le> unat (mf_size n)"
  by (simp add: node_ok_def word_le_nat_alt)

lemma node_ok_fits: "node_ok n \<Longrightarrow> fits (mf_self n) (mf_size n)"
  by (simp add: node_ok_def)

lemma in_node_bytes: "node_ok n \<Longrightarrow> x \<in> node_bytes n \<longleftrightarrow> unat (mf_self n) \<le> unat x \<and> unat x < unat (mf_self n) + unat (mf_size n)"
  by (simp add: node_bytes_def in_region_fits node_ok_def)

lemma self_in_node_bytes: "node_ok n \<Longrightarrow> mf_self n \<in> node_bytes n"
  using node_ok_size [of n] by (simp add: in_node_bytes)

lemma header_region: "header n = region (mf_self n) SIZEOF_MFREE"
  by (simp add: header_def region_def)

lemma header_subset: "node_ok n \<Longrightarrow> header n \<subseteq> node_bytes n"
  using node_ok_size [of n] by (auto simp: header_def node_bytes_def region_def SIZEOF_MFREE_def word_less_nat_alt)

lemma header_bytes_subset: "linked h \<Longrightarrow> header_bytes h \<subseteq> free_bytes h"
  using header_subset by (fastforce simp: linked_def header_bytes_def free_bytes_def)

lemma unat_MFREE_MAX: "node_ok n \<Longrightarrow> unat (MFREE_MAX n) = unat (mf_self n) + unat (mf_size n) - 1"
  using node_ok_size [of n] unat_fits [of "mf_self n" "mf_size n"]
  by (simp add: MFREE_MAX_def node_ok_def unat_sub_32)

lemma unat_MFREE_END: "node_ok n \<Longrightarrow> unat (MFREE_END n) = unat (mf_self n) + unat (mf_size n)"
  by (simp add: MFREE_END_def node_ok_def unat_fits)

lemma covers_node_leaf: "node_ok n \<Longrightarrow> covers (node_leaf n) a \<longleftrightarrow> a \<in> node_bytes n"
  using node_ok_size [of n] unat_MFREE_MAX [of n]
  by (auto simp: covers_def node_leaf_def MFREE_MIN_def in_node_bytes word_le_nat_alt)

lemma apart_node_leaf:
  assumes "node_ok a" "node_ok b"
  shows "apart (node_leaf a) (node_leaf b) \<longleftrightarrow> node_bytes a \<inter> node_bytes b = {}"
proof -
  have s: "32 \<le> unat (mf_size a)" "32 \<le> unat (mf_size b)" using assms by (simp_all add: node_ok_size)
  have "apart (node_leaf a) (node_leaf b) \<longleftrightarrow>
      unat (mf_self a) + unat (mf_size a) \<le> unat (mf_self b) \<or> unat (mf_self b) + unat (mf_size b) \<le> unat (mf_self a)"
    using s assms by (auto simp: apart_def node_leaf_def MFREE_MIN_def word_less_nat_alt unat_MFREE_MAX)
  also have "\<dots> \<longleftrightarrow> node_bytes a \<inter> node_bytes b = {}"
  proof
    assume "node_bytes a \<inter> node_bytes b = {}"
    then have "mf_self a \<notin> node_bytes b" "mf_self b \<notin> node_bytes a"
      using self_in_node_bytes assms by blast+
    then show "unat (mf_self a) + unat (mf_size a) \<le> unat (mf_self b) \<or> unat (mf_self b) + unat (mf_size b) \<le> unat (mf_self a)"
      using assms by (auto simp: in_node_bytes)
  qed (use assms in \<open>auto simp: in_node_bytes\<close>)
  finally show ?thesis .
qed

lemma node_leaf_inj: "inj node_leaf"
  by (auto simp: node_leaf_def inj_def)

lemma linked_disjoint:
  assumes "linked h" "a \<in> nodes h" "b \<in> nodes h" "a \<noteq> b"
  shows "node_bytes a \<inter> node_bytes b = {}"
proof -
  have "apart (node_leaf a) (node_leaf b)"
    using assms node_leaf_inj by (intro tree_ok_apart [of "h_addr h"]) (auto simp: linked_def inj_def)
  with assms show ?thesis by (simp add: apart_node_leaf linked_def)
qed

lemma linked_node_ok: "linked h \<Longrightarrow> n \<in> nodes h \<Longrightarrow> node_ok n"
  by (simp add: linked_def)

section \<open>Buckets\<close>

lemma bit_length_less: "n < 2 ^ k \<Longrightarrow> bit_length n \<le> k"
proof (induction n arbitrary: k rule: bit_length.induct)
  case (1 n)
  show ?case
  proof (cases "n = 0")
    case False
    then obtain j where k: "k = Suc j" using 1(2) by (cases k) auto
    then have "n div 2 < 2 ^ j" using 1(2) by (simp add: less_mult_imp_div_less mult.commute)
    with 1(1) False k show ?thesis by (simp add: bit_length.simps [of n])
  qed (simp add: bit_length.simps)
qed

lemma bit_length_ge: "2 ^ k \<le> n \<Longrightarrow> Suc k \<le> bit_length n"
proof (induction k arbitrary: n)
  case 0
  then show ?case by (simp add: bit_length.simps [of n])
next
  case (Suc k)
  then have "2 ^ k \<le> n div 2" by (simp add: less_eq_div_iff_mult_less_eq mult.commute)
  from Suc.IH [OF this] have "Suc k \<le> bit_length (n div 2)" .
  moreover have "n \<noteq> 0" using Suc.prems by (cases n) simp_all
  ultimately show ?case by (simp add: bit_length.simps [of n])
qed

lemma HEAP_BUCKET_OF_bits: "16 \<le> unat s \<Longrightarrow> HEAP_BUCKET_OF s = bit_length (unat s) - 5"
proof -
  assume s: "16 \<le> unat s"
  have b: "5 \<le> bit_length (unat s)" using bit_length_ge [of 4 "unat s"] s by simp
  have c: "bit_length (unat s) \<le> 32" using bit_length_less [of "unat s" 32] unat_less_2_32 [of s] by simp
  then have "4 * 8 - of_nat (clz s) - HEAP_BUCKET_OFFSET = (of_nat (bit_length (unat s) - 5) :: 32 word)"
    using b by (simp add: clz_def HEAP_BUCKET_OFFSET_def of_nat_diff)
  then show ?thesis using c by (simp add: HEAP_BUCKET_OF_def unat_of_nat)
qed

lemma HEAP_BUCKET_OF_less: "16 \<le> unat s \<Longrightarrow> HEAP_BUCKET_OF s < HEAP_BUCKET_COUNT"
  using bit_length_less [of "unat s" 32] unat_less_2_32 [of s]
  by (simp add: HEAP_BUCKET_OF_bits HEAP_BUCKET_COUNT_28)

lemma bit_length_mono: "m \<le> n \<Longrightarrow> bit_length m \<le> bit_length n"
proof (induction n arbitrary: m rule: bit_length.induct)
  case (1 n)
  show ?case
  proof (cases "m = 0")
    case False
    with 1 have "bit_length (m div 2) \<le> bit_length (n div 2)" by (simp add: div_le_mono)
    with False 1(2) show ?thesis by (simp add: bit_length.simps [of n] bit_length.simps [of m])
  qed (simp add: bit_length.simps)
qed

lemma HEAP_BUCKET_OF_mono: "16 \<le> unat a \<Longrightarrow> a \<le> b \<Longrightarrow> HEAP_BUCKET_OF a \<le> HEAP_BUCKET_OF b"
  using bit_length_mono [of "unat a" "unat b"] by (simp add: HEAP_BUCKET_OF_bits word_le_nat_alt diff_le_mono)

lemma size_insert_set [simp]: "set (size_insert n bs) = insert n (set bs)"
  by (induction bs) auto

lemma size_insert_distinct: "n \<notin> set bs \<Longrightarrow> distinct bs \<Longrightarrow> distinct (size_insert n bs)"
  by (induction bs) auto

lemma size_insert_sorted: "sorted (map mf_size bs) \<Longrightarrow> sorted (map mf_size (size_insert n bs))"
  by (induction bs) (auto intro: order_trans less_imp_le)

lemma nodes_iff: "n \<in> nodes h \<longleftrightarrow> (\<exists>i < length (h_size h). n \<in> set (h_size h ! i))"
  by (auto simp: nodes_def in_set_conv_nth) (metis nth_mem)+

lemma buckets_where:
  assumes "buckets_ok (h_size h)" "n \<in> nodes h"
  shows "HEAP_BUCKET_OF (mf_size n) < length (h_size h)" "n \<in> set (h_size h ! HEAP_BUCKET_OF (mf_size n))"
  using assms by (auto simp: nodes_iff buckets_ok_def)

lemma buckets_ok_remove:
  assumes "buckets_ok (h_size h)"
  shows "buckets_ok (map (remove1 n) (h_size h))" "set (concat (map (remove1 n) (h_size h))) = nodes h - {n}"
proof -
  show "buckets_ok (map (remove1 n) (h_size h))"
    using assms set_remove1_subset [of n] by (fastforce simp: buckets_ok_def intro: sorted_map_remove1)
  have "set (remove1 n xs) = set xs - {n}" if "xs \<in> set (h_size h)" for xs
    using that assms by (auto simp: buckets_ok_def in_set_conv_nth)
  then show "set (concat (map (remove1 n) (h_size h))) = nodes h - {n}"
    by (auto simp: nodes_def)
qed

section \<open>Taking nodes out and linking them in\<close>

definition same_rest :: "heap \<Rightarrow> heap \<Rightarrow> bool" where
  "same_rest h h' \<longleftrightarrow> h_overalloc h' = h_overalloc h \<and> h_freethresh h' = h_freethresh h \<and> h_hintpage h' = h_hintpage h \<and>
     h_hintmode h' = h_hintmode h \<and> h_dangle h' = h_dangle h"

definition relinked :: "mfree set \<Rightarrow> 'v world \<Rightarrow> 'v world \<Rightarrow> bool" where
  "relinked N w w' \<longleftrightarrow> linked (w_heap w') \<and> nodes (w_heap w') = N \<and> same_rest (w_heap w) (w_heap w') \<and>
     w_vm w' = w_vm w \<and> (\<forall>x. x \<notin> header_bytes (w_heap w') \<longrightarrow> w_mem w' x = w_mem w x)"

lemma write_headers_simps [simp]:
  "w_heap (write_headers K w) = w_heap w" "w_vm (write_headers K w) = w_vm w"
  by (simp_all add: write_headers_def)

lemma write_headers_mem: "x \<notin> header_bytes (w_heap w) \<Longrightarrow> w_mem (write_headers K w) x = w_mem w x"
  by (auto simp: write_headers_def header_bytes_def header_def nodes_def)

lemma heap_pop_cases:
  assumes "linked (w_heap w)"
  obtains (hit) n w' where "n \<in> nodes (w_heap w)" "a \<in> node_bytes n" "heap_pop K a w = Some (Inr (Some n), w')"
      "relinked (nodes (w_heap w) - {n}) w w'"
  | (miss) "a \<notin> free_bytes (w_heap w)" "heap_pop K a w = Some (Inr None, w)"
proof -
  let ?h = "w_heap w"
  have ok: "tree_ok (h_addr ?h)" "ranges (h_addr ?h) = node_leaf ` nodes ?h" "buckets_ok (h_size ?h)" "\<forall>n \<in> nodes ?h. node_ok n"
    using assms by (simp_all add: linked_def)
  obtain r t where rt: "remove_tree (h_addr ?h) a = Some (Inr (r, t))" "locate_tree (h_addr ?h) a = Inr r" "tree_ok t"
      "ranges t = ranges (h_addr ?h) - set_option r"
    using tree.del_law [OF ok(1), of a] by blast
  have r: "r = Some y \<longleftrightarrow> y \<in> ranges (h_addr ?h) \<and> covers y a" for y
    using tree.look_law [OF ok(1), of a] rt(2) by (metis sum.inject(2))
  show ?thesis
  proof (cases r)
    case None
    then have "\<not> covers (node_leaf n) a" if "n \<in> nodes ?h" for n using r [of "node_leaf n"] ok(2) that by simp
    then have "a \<notin> free_bytes ?h" using ok(4) by (auto simp: free_bytes_def covers_node_leaf)
    with miss None rt(1) show ?thesis by (simp add: heap_pop_def)
  next
    case (Some y)
    then obtain n where n: "y = node_leaf n" "n \<in> nodes ?h" "a \<in> node_bytes n"
      using r [of y] ok(2,4) by (auto simp: covers_node_leaf)
    define h' where "h' = ?h\<lparr>h_addr := t, h_size := map (remove1 n) (h_size ?h)\<rparr>"
    have h': "nodes h' = nodes ?h - {n}" "buckets_ok (h_size h')"
      using buckets_ok_remove [OF ok(3), of n] by (simp_all add: h'_def nodes_def)
    have "linked h'"
      using h' ok rt(3,4) Some n(1) node_leaf_inj by (auto simp: linked_def h'_def inj_def)
    moreover have "heap_pop K a w = Some (Inr (Some n), write_headers K (w\<lparr>w_heap := h'\<rparr>))"
      using rt(1) Some n(1) by (simp add: heap_pop_def node_leaf_def h'_def Let_def)
    ultimately show ?thesis using hit n(2,3) h'(1)
      by (simp add: relinked_def same_rest_def write_headers_mem h'_def)
  qed
qed

lemma heap_insert_node:
  assumes l: "linked (w_heap w)" and n: "node_ok n" "node_bytes n \<inter> free_bytes (w_heap w) = {}"
  obtains w' where "heap_insert_node_unlocked K n w = Some (Inr (), w')" "relinked (insert n (nodes (w_heap w))) w w'"
proof -
  let ?h = "w_heap w" and ?i = "HEAP_BUCKET_OF (mf_size n)"
  have ok: "tree_ok (h_addr ?h)" "ranges (h_addr ?h) = node_leaf ` nodes ?h" "buckets_ok (h_size ?h)" "\<forall>n \<in> nodes ?h. node_ok n"
    using l by (simp_all add: linked_def)
  have s: "32 \<le> unat (mf_size n)" using n(1) by (rule node_ok_size)
  then have nz: "mf_size n \<noteq> 0" by auto
  have "\<forall>y \<in> ranges (h_addr ?h). apart (node_leaf n) y"
    using n ok(2,4) by (auto simp: apart_node_leaf free_bytes_def)
  moreover have "fst (node_leaf n) \<le> fst (snd (node_leaf n))"
    using unat_MFREE_MAX [OF n(1)] s by (simp add: node_leaf_def MFREE_MIN_def word_le_nat_alt)
  ultimately obtain t where t: "insert_tree (h_addr ?h) (node_leaf n) = Some (Inr t)" "tree_ok t"
      "ranges t = insert (node_leaf n) (ranges (h_addr ?h))"
    using tree.ins_law [OF ok(1)] by blast
  have i: "?i < length (h_size ?h)" using HEAP_BUCKET_OF_less [of "mf_size n"] s ok(3) by (simp add: buckets_ok_def)
  have fresh: "n \<notin> nodes ?h" using n self_in_node_bytes [OF n(1)] by (auto simp: free_bytes_def)
  define bs where "bs = (h_size ?h)[?i := size_insert n (h_size ?h ! ?i)]"
  have "n \<notin> set (h_size ?h ! ?i)" using fresh i by (auto simp: nodes_iff)
  then have bs: "buckets_ok bs" using ok(3) i
    by (auto simp: bs_def buckets_ok_def nth_list_update size_insert_distinct size_insert_sorted)
  define h' where "h' = ?h\<lparr>h_addr := t, h_size := bs\<rparr>"
  have h': "nodes h' = insert n (nodes ?h)" using i by (auto simp: h'_def bs_def nodes_iff nth_list_update split: if_splits)
  have "linked h'" using t ok bs n(1) h' by (simp add: linked_def h'_def)
  then have "relinked (insert n (nodes ?h)) w (write_headers K (w\<lparr>w_heap := h'\<rparr>))"
    using h' by (simp add: relinked_def same_rest_def write_headers_mem h'_def)
  moreover have "heap_insert_node_unlocked K n w = Some (Inr (), write_headers K (w\<lparr>w_heap := h'\<rparr>))"
    using t(1) i nz by (simp add: heap_insert_node_unlocked_def node_leaf_def Let_def h'_def bs_def)
  ultimately show ?thesis using that by blast
qed

lemma heap_take_node:
  assumes l: "linked (w_heap w)" and n: "n \<in> nodes (w_heap w)"
  obtains w' where "heap_take K n w = Some (Inr (), w')" "relinked (nodes (w_heap w) - {n}) w w'"
proof (cases rule: heap_pop_cases [OF l, of "mf_self n" K, case_names hit miss])
  case (hit m w')
  have "m = n"
    using linked_disjoint [OF l hit(1) n] hit(2) self_in_node_bytes [OF linked_node_ok [OF l n]] by blast
  with hit that show ?thesis by (simp add: heap_take_def)
next
  case miss
  then show ?thesis using n self_in_node_bytes [OF linked_node_ok [OF l n]] by (auto simp: free_bytes_def)
qed

end
