(* ===== verification/Heap_Sound.thy ===== *)
theory Heap_Sound
  imports Heap_Nodes
begin

text \<open>
  Sound heaps: what the heap relies on, its invariant, the effect of linking a node in, and what writes to memory leave alone.
\<close>

section \<open>The rest of the kernel\<close>

text \<open>
  What the heap relies on. \<open>own\<close> are the pages that have been mapped for this heap and not been given to \<^verbatim>\<open>vm_unmap\<close> since: with
  \<^verbatim>\<open>VM_UNMAP_NOEXCEPT\<close>, \<^verbatim>\<open>vm_unmap\<close> may leave pages mapped for want of memory, and the heap does not look at them again. The control
  structures of mappings come from elsewhere: the laws are for a heap that the mapping functions do not use themselves. That is every heap
  but \<^verbatim>\<open>kernel_heaps[GFP_SHARED|GFP_LOCKED]\<close>, from which \<^verbatim>\<open>vm_unmap\<close> and \<^verbatim>\<open>vm_merge_before\<close> allocate the nodes of a
  mapping that they split and into which they free those of one that they merge, changing the heap in the middle of its operation. The pages from \<open>kernel_pages\<close> on are reserved for the page directory (\<^verbatim>\<open>X86_VM_KERNEL_PDIR_RESERVED_BASE\<close>), by
  a node of \<^verbatim>\<open>vm_kernel\<close> that is always there: \<^verbatim>\<open>vm_getfree\<close> returns a range below them that has no mapping, and
  \<^verbatim>\<open>vm_getanynode\<close> finds them like any other mapping. None of the functions trips an assertion for a range below them.
\<close>

abbreviation kernel_pages :: nat where
  "kernel_pages \<equiv> 1047552"

definition core_laws :: "'v kernel \<Rightarrow> ('v \<Rightarrow> 32 word set) \<Rightarrow> bool" where
  "core_laws K own \<longleftrightarrow>
     (\<forall>flags n v. own (snd (k_corepair K flags n v)) = own v \<and> fst (k_corepair K flags n v) \<noteq> Inl E_ASSERT) \<and>
     (\<forall>v. own (k_discard K v) = own v) \<and>
     (\<forall>hint n mode v. k_getfree K hint n mode v \<noteq> Inl E_ASSERT) \<and>
     (\<forall>hint n mode v p. k_getfree K hint n mode v = Inr p \<longrightarrow> unat p + unat n \<le> kernel_pages \<and> {p..<p + n} \<inter> own v = {}) \<and>
     (\<forall>p q v. p \<le> q \<longrightarrow> \<not> k_getanynode K p q v \<longrightarrow> {p..q} \<inter> own v = {} \<and> unat q < kernel_pages) \<and>
     (\<forall>p n v. unat p + unat n \<le> kernel_pages \<longrightarrow> (case k_insert K p n v of
        (Inr _, v') \<Rightarrow> own v' = own v \<union> {p..<p + n}
      | (Inl e, v') \<Rightarrow> own v' = own v \<and> e \<noteq> E_ASSERT)) \<and>
     (\<forall>p n v. own (k_unmap K p n v) = own v - {p..<p + n}) \<and>
     (\<forall>p v. own (k_merge K p v) = own v) \<and>
     (\<forall>v. own (snd (k_rand K v)) = own v) \<and>
     (\<forall>p q n v. k_copyfault K p q n v \<noteq> Some E_ASSERT)"

lemma core_laws_dest:
  assumes "core_laws K own"
  shows "own (snd (k_corepair K flags n v)) = own v" "fst (k_corepair K flags n v) \<noteq> Inl E_ASSERT" "own (k_discard K v) = own v"
    "k_getfree K hint n mode v \<noteq> Inl E_ASSERT" "own (k_unmap K p n v) = own v - {p..<p + n}" "own (k_merge K p v) = own v"
    "own (snd (k_rand K v)) = own v" "k_copyfault K p q n v \<noteq> Some E_ASSERT"
    "k_getfree K hint n mode v = Inr p \<Longrightarrow> unat p + unat n \<le> kernel_pages \<and> {p..<p + n} \<inter> own v = {}"
    "p \<le> q \<Longrightarrow> \<not> k_getanynode K p q v \<Longrightarrow> {p..q} \<inter> own v = {} \<and> unat q < kernel_pages"
    "k_insert K p n v = (Inr u, v') \<Longrightarrow> unat p + unat n \<le> kernel_pages \<Longrightarrow> own v' = own v \<union> {p..<p + n}"
    "k_insert K p n v = (Inl e, v') \<Longrightarrow> unat p + unat n \<le> kernel_pages \<Longrightarrow> own v' = own v \<and> e \<noteq> E_ASSERT"
proof -
  note l = assms [unfolded core_laws_def]
  show "own (snd (k_corepair K flags n v)) = own v" "fst (k_corepair K flags n v) \<noteq> Inl E_ASSERT" "own (k_discard K v) = own v"
    "k_getfree K hint n mode v \<noteq> Inl E_ASSERT" "own (k_unmap K p n v) = own v - {p..<p + n}" "own (k_merge K p v) = own v"
    "own (snd (k_rand K v)) = own v" "k_copyfault K p q n v \<noteq> Some E_ASSERT" using l by simp_all
  show "k_getfree K hint n mode v = Inr p \<Longrightarrow> unat p + unat n \<le> kernel_pages \<and> {p..<p + n} \<inter> own v = {}"
    using l [THEN conjunct2, THEN conjunct2, THEN conjunct2, THEN conjunct1, rule_format] .
  show "p \<le> q \<Longrightarrow> \<not> k_getanynode K p q v \<Longrightarrow> {p..q} \<inter> own v = {} \<and> unat q < kernel_pages"
    using l [THEN conjunct2, THEN conjunct2, THEN conjunct2, THEN conjunct2, THEN conjunct1, rule_format] .
  note i = l [THEN conjunct2, THEN conjunct2, THEN conjunct2, THEN conjunct2, THEN conjunct2, THEN conjunct1, rule_format, of p n v]
  from i show "k_insert K p n v = (Inr u, v') \<Longrightarrow> unat p + unat n \<le> kernel_pages \<Longrightarrow> own v' = own v \<union> {p..<p + n}" by simp
  from i show "k_insert K p n v = (Inl e, v') \<Longrightarrow> unat p + unat n \<le> kernel_pages \<Longrightarrow> own v' = own v \<and> e \<noteq> E_ASSERT" by simp
qed

definition page_bytes :: "32 word set \<Rightarrow> key set" where
  "page_bytes P = {x. VM_ADDR2PAGE x \<in> P}"

lemma unat_VM_ADDR2PAGE: "unat (VM_ADDR2PAGE x) = unat x div 4096"
  by (simp add: VM_ADDR2PAGE_def PAGESIZE_def unat_div)

lemma page_bytes_simps [simp]:
  "page_bytes {} = {}" "page_bytes (P \<union> Q) = page_bytes P \<union> page_bytes Q" "page_bytes (P - Q) = page_bytes P - page_bytes Q"
  by (auto simp: page_bytes_def)

lemma page_bytes_range:
  "x \<in> page_bytes {p..<q} \<longleftrightarrow> 4096 * unat p \<le> unat x \<and> unat x < 4096 * unat q"
  by (auto simp: page_bytes_def word_le_nat_alt word_less_nat_alt unat_VM_ADDR2PAGE)

section \<open>Sound heaps\<close>

definition merged :: "heap \<Rightarrow> bool" where
  "merged h \<longleftrightarrow> (\<forall>n \<in> nodes h. mf_self n - 1 \<notin> free_bytes h \<and> MFREE_END n \<notin> free_bytes h)"

definition heap_ok :: "heap \<Rightarrow> bool" where
  "heap_ok h \<longleftrightarrow> linked h \<and> merged h \<and> PAGESIZE \<le> h_freethresh h"

definition zero_ok :: "'v world \<Rightarrow> bool" where
  "zero_ok w \<longleftrightarrow> (\<forall>n \<in> nodes (w_heap w). mf_flags n = GFP_CALLOC \<longrightarrow> (\<forall>x \<in> node_bytes n - header n. w_mem w x = 0))"

definition same_config :: "heap \<Rightarrow> heap \<Rightarrow> bool" where
  "same_config h h' \<longleftrightarrow> h_overalloc h' = h_overalloc h \<and> h_freethresh h' = h_freethresh h \<and> h_hintmode h' = h_hintmode h \<and>
     h_dangle h' = h_dangle h"

text \<open>
  \<open>gives own S w w'\<close>: the bytes \<open>S\<close>, which were not free, have been given to the heap, which may have given whole pages back.
  No other byte has changed.
\<close>

definition gives :: "('v \<Rightarrow> 32 word set) \<Rightarrow> key set \<Rightarrow> 'v world \<Rightarrow> 'v world \<Rightarrow> bool" where
  "gives own S w w' \<longleftrightarrow> heap_ok (w_heap w') \<and> zero_ok w' \<and> same_config (w_heap w) (w_heap w') \<and>
     (\<exists>R. own (w_vm w') = own (w_vm w) - R \<and> page_bytes R \<subseteq> free_bytes (w_heap w) \<union> S \<and>
        free_bytes (w_heap w') = (free_bytes (w_heap w) \<union> S) - page_bytes R) \<and>
     (\<forall>x. x \<notin> free_bytes (w_heap w) \<union> S \<longrightarrow> w_mem w' x = w_mem w x)"

lemma givesI:
  assumes "heap_ok (w_heap w')" "zero_ok w'" "same_config (w_heap w) (w_heap w')" "own (w_vm w') = own (w_vm w) - R"
    "page_bytes R \<subseteq> free_bytes (w_heap w) \<union> S" "free_bytes (w_heap w') = (free_bytes (w_heap w) \<union> S) - page_bytes R"
    "\<And>x. x \<notin> free_bytes (w_heap w) \<union> S \<Longrightarrow> w_mem w' x = w_mem w x"
  shows "gives own S w w'"
  using assms unfolding gives_def by blast

text \<open>The same step, seen from another state before it.\<close>

lemma gives_from:
  assumes "gives own T v w'" "free_bytes (w_heap v) \<union> T = free_bytes (w_heap w) \<union> S" "same_config (w_heap w) (w_heap v)"
    "own (w_vm v) = own (w_vm w)" "\<And>x. x \<notin> free_bytes (w_heap w) \<union> S \<Longrightarrow> w_mem v x = w_mem w x"
  shows "gives own S w w'"
  using assms unfolding gives_def same_config_def by metis

lemma gives_trans:
  assumes "gives own S u v" "gives own T v w" "T \<inter> (free_bytes (w_heap u) \<union> S) = {}"
  shows "gives own (S \<union> T) u w"
proof -
  obtain R where R: "own (w_vm v) = own (w_vm u) - R" "page_bytes R \<subseteq> free_bytes (w_heap u) \<union> S"
      "free_bytes (w_heap v) = (free_bytes (w_heap u) \<union> S) - page_bytes R"
    using assms(1) unfolding gives_def by blast
  obtain Q where Q: "own (w_vm w) = own (w_vm v) - Q" "page_bytes Q \<subseteq> free_bytes (w_heap v) \<union> T"
      "free_bytes (w_heap w) = (free_bytes (w_heap v) \<union> T) - page_bytes Q"
    using assms(2) unfolding gives_def by blast
  show ?thesis
  proof (rule givesI [where R = "R \<union> Q"])
    show "own (w_vm w) = own (w_vm u) - (R \<union> Q)" using R(1) Q(1) by blast
    show "page_bytes (R \<union> Q) \<subseteq> free_bytes (w_heap u) \<union> (S \<union> T)" using R(2,3) Q(2) by auto
    show "free_bytes (w_heap w) = (free_bytes (w_heap u) \<union> (S \<union> T)) - page_bytes (R \<union> Q)"
      using R(2,3) Q(3) assms(3) by auto
    show "w_mem w x = w_mem u x" if "x \<notin> free_bytes (w_heap u) \<union> (S \<union> T)" for x
      using that assms(1,2) R(3) unfolding gives_def by auto
  qed (use assms(1,2) in \<open>auto simp: gives_def same_config_def\<close>)
qed

text \<open>The case without pages given back.\<close>

definition adds :: "key set \<Rightarrow> 'v world \<Rightarrow> 'v world \<Rightarrow> bool" where
  "adds S w w' \<longleftrightarrow> heap_ok (w_heap w') \<and> zero_ok w' \<and> same_config (w_heap w) (w_heap w') \<and> w_vm w' = w_vm w \<and>
     free_bytes (w_heap w') = free_bytes (w_heap w) \<union> S \<and> (\<forall>x. x \<notin> free_bytes (w_heap w) \<union> S \<longrightarrow> w_mem w' x = w_mem w x)"

lemma adds_gives: "adds S w w' \<Longrightarrow> gives own S w w'"
  by (rule givesI [where R = "{}"]) (auto simp: adds_def)

lemma adds_refl: "heap_ok (w_heap w) \<Longrightarrow> zero_ok w \<Longrightarrow> adds {} w w"
  by (simp add: adds_def same_config_def)

lemma adds_trans: "adds S u v \<Longrightarrow> adds T v w \<Longrightarrow> adds (S \<union> T) u w"
  by (auto simp: adds_def same_config_def)

definition sub_dangle :: "32 word \<Rightarrow> 'v world \<Rightarrow> 'v world" where
  "sub_dangle d w = w_heap_update (h_dangle_update (\<lambda>x. x - d)) w"

lemma sub_dangle_simps [simp]:
  "w_vm (sub_dangle d w) = w_vm w" "w_mem (sub_dangle d w) = w_mem w" "nodes (w_heap (sub_dangle d w)) = nodes (w_heap w)"
  "h_freethresh (w_heap (sub_dangle d w)) = h_freethresh (w_heap w)" "linked (w_heap (sub_dangle d w)) = linked (w_heap w)"
  "h_dangle (w_heap (sub_dangle d w)) = h_dangle (w_heap w) - d" "h_overalloc (w_heap (sub_dangle d w)) = h_overalloc (w_heap w)"
  "h_hintmode (w_heap (sub_dangle d w)) = h_hintmode (w_heap w)" "h_hintpage (w_heap (sub_dangle d w)) = h_hintpage (w_heap w)"
  by (simp_all add: sub_dangle_def nodes_def linked_def)

lemma sub_dangle_0 [simp]: "sub_dangle 0 w = w"
  by (simp add: sub_dangle_def)

lemma free_bytes_nodes: "nodes h = nodes h' \<Longrightarrow> free_bytes h = free_bytes h'"
  by (simp add: free_bytes_def)

lemma sub_dangle_ok [simp]:
  "free_bytes (w_heap (sub_dangle d w)) = free_bytes (w_heap w)" "heap_ok (w_heap (sub_dangle d w)) = heap_ok (w_heap w)"
  "zero_ok (sub_dangle d w) = zero_ok w"
  by (simp_all add: free_bytes_def heap_ok_def merged_def zero_ok_def)

section \<open>Memory\<close>

lemma has_CALLOC [simp]: "has 0 GFP_CALLOC = False" "has GFP_CALLOC GFP_CALLOC = True"
  by (simp_all add: has_def GFP_CALLOC_def)

lemma CALLOC_nonzero [simp]: "GFP_CALLOC \<noteq> 0"
  by (simp add: GFP_CALLOC_def)

lemma bit_CALLOC: "bit GFP_CALLOC i \<longleftrightarrow> i = 4"
proof -
  have "GFP_CALLOC = 2 ^ 4" by (simp add: GFP_CALLOC_def)
  then show ?thesis unfolding \<open>GFP_CALLOC = 2 ^ 4\<close> bit_exp_iff by (auto simp: possible_bit_word)
qed

lemma and_CALLOC: "flags AND GFP_CALLOC = (if has flags GFP_CALLOC then GFP_CALLOC else 0)"
proof -
  have "flags AND GFP_CALLOC = (if bit flags 4 then GFP_CALLOC else 0)"
    by (rule bit_word_eqI) (auto simp: bit_and_iff bit_CALLOC)
  then show ?thesis by (auto simp: has_def GFP_CALLOC_def)
qed

lemma has_not_CALLOC [simp]: "has (flags AND NOT GFP_CALLOC) GFP_CALLOC = False"
  by (simp add: has_def and.assoc)

lemma has_or: "has (a OR b) f \<longleftrightarrow> has a f \<or> has b f"
  by (auto simp: has_def bit.conj_disj_distrib2 or_eq_0_iff)

lemma has_NOMAP_flags [simp]: "has (flags AND NOT GFP_CALLOC) GFP_NOMAP = has flags GFP_NOMAP"
proof -
  have "NOT GFP_CALLOC AND GFP_NOMAP = GFP_NOMAP" by (simp add: GFP_CALLOC_def GFP_NOMAP_def)
  then show ?thesis by (simp add: has_def and.assoc)
qed

lemma has_CALLOC_NOMAP [simp]: "has GFP_CALLOC GFP_NOMAP = False" "has 0 f = False" "has GFP_NOMAP GFP_CALLOC = False"
  "has GFP_NOMAP GFP_NOMAP = True"
  by (simp_all add: has_def GFP_CALLOC_def GFP_NOMAP_def)

lemma mempatl_outside: "x \<notin> region p n \<Longrightarrow> mempatl m p pat n x = m x"
  by (simp add: mempatl_def region_def)

lemma memset_in: "memset m p b n x = (if x \<in> region p n then b else m x)"
  by (simp add: memset_def region_def)

lemma reset_pages_outside: "x \<notin> region ptr n \<Longrightarrow> reset_pages K v ptr pat n m x = m x"
proof (induction K v ptr pat n m rule: reset_pages.induct)
  case (1 K v ptr pat n m)
  show ?case
  proof (cases "PAGESIZE \<le> n")
    case True
    then have n: "4096 \<le> unat n" by (simp add: PAGESIZE_def word_le_nat_alt)
    have x: "unat n \<le> unat (x - ptr)" using 1(2) by (simp add: region_def word_less_nat_alt)
    have s: "x - (ptr + PAGESIZE) = (x - ptr) - PAGESIZE" by simp
    have "x \<notin> region (ptr + PAGESIZE) (n - PAGESIZE)" unfolding region_def mem_Collect_eq s
      using n x unat_less_2_32 [of "x - ptr"] by (simp add: word_less_nat_alt unat_sub_32 PAGESIZE_def del: diff_diff_eq2)
    moreover have "\<not> (x - ptr) div 4 < PAGESIZE div 4"
      using n x by (simp add: word_less_nat_alt unat_div PAGESIZE_def)
    ultimately show ?thesis using 1(1) [OF True] True
      by (simp add: reset_pages.simps [of K v ptr] memsetl_def)
  next
    case False
    then show ?thesis using 1(2) by (simp add: reset_pages.simps [of K v ptr] mempatl_outside)
  qed
qed

lemma region_tail: "k \<le> n \<Longrightarrow> region (p + k) (n - k) \<subseteq> region p n"
proof
  fix x assume k: "k \<le> n" and "x \<in> region (p + k) (n - k)"
  moreover have "x - (p + k) = (x - p) - k" by simp
  ultimately have "(x - p) - k < n - k" by (simp add: region_def)
  then show "x \<in> region p n" using k unat_less_2_32 [of "x - p"] unat_less_2_32 [of n]
    by (simp add: region_def word_less_nat_alt word_le_nat_alt unat_sub_32 split: if_splits del: diff_diff_eq2)
qed

lemma region_head: "k \<le> n \<Longrightarrow> region p k \<subseteq> region p n"
  by (auto simp: region_def)

lemma reset_heap_data_simps [simp]:
  "w_heap (reset_heap_data K p pat n w) = w_heap w" "w_vm (reset_heap_data K p pat n w) = w_vm w"
  by (simp_all add: reset_heap_data_def)

lemma reset_heap_data_outside:
  assumes "x \<notin> region p n"
  shows "w_mem (reset_heap_data K p pat n w) x = w_mem w x"
proof -
  define k where "k = (let i = PAGESIZE - (p AND (PAGESIZE - 1)) in if n < i then n else i)"
  have "k \<le> n" by (auto simp: k_def Let_def)
  then have "x \<notin> region p k" "x \<notin> region (p + k) (n - k)" using assms region_tail region_head by blast+
  then show ?thesis using assms
    by (simp add: reset_heap_data_def Let_def mempatl_outside reset_pages_outside k_def)
qed

lemma zero_or_pattern_simps [simp]:
  "w_heap (zero_or_pattern flags p w) = w_heap w" "w_vm (zero_or_pattern flags p w) = w_vm w"
  by (simp_all add: zero_or_pattern_def)

lemma zero_or_pattern_mem:
  "x \<notin> region p SIZEOF_MFREE \<Longrightarrow> w_mem (zero_or_pattern flags p w) x = w_mem w x"
  "has flags GFP_CALLOC \<Longrightarrow> x \<in> region p SIZEOF_MFREE \<Longrightarrow> w_mem (zero_or_pattern flags p w) x = 0"
  by (simp_all add: zero_or_pattern_def mempatl_outside memset_in)

section \<open>Linking a node in\<close>

lemma node_self_minus_1: "node_ok n \<Longrightarrow> mf_self n - 1 \<notin> node_bytes n"
  using node_ok_fits [of n] by (auto simp: in_node_bytes unat_sub_32 fits_iff split: if_splits)

lemma node_end_notin: "node_ok n \<Longrightarrow> MFREE_END n \<notin> node_bytes n"
  by (simp add: in_node_bytes unat_MFREE_END)

lemma adjacent_above:
  assumes "node_ok a" "node_ok b" "node_bytes a \<inter> node_bytes b = {}" "mf_self b - 1 \<in> node_bytes a"
  shows "MFREE_END a = mf_self b"
proof -
  have "mf_self b \<notin> node_bytes a" using assms(3) self_in_node_bytes [OF assms(2)] by blast
  moreover have "unat (mf_self b) \<noteq> 0"
    using assms(4) node_ok_fits [OF assms(1)] by (auto simp: in_node_bytes [OF assms(1)] unat_sub_32 fits_iff split: if_splits)
  ultimately have "unat (mf_self b) = unat (MFREE_END a)"
    using assms(4) by (auto simp: in_node_bytes [OF assms(1)] unat_sub_32 unat_MFREE_END [OF assms(1)])
  then show ?thesis by (simp add: word_unat_eq_iff)
qed

lemma adjacent_below:
  assumes "node_ok a" "node_ok b" "node_bytes a \<inter> node_bytes b = {}" "MFREE_END a \<in> node_bytes b"
  shows "mf_self b - 1 \<in> node_bytes a"
proof -
  have s: "32 \<le> unat (mf_size a)" using assms(1) by (rule node_ok_size)
  have u: "unat (MFREE_END a - 1) = unat (mf_self a) + unat (mf_size a) - 1"
    using s by (simp add: unat_sub_32 unat_MFREE_END [OF assms(1)])
  then have "MFREE_END a - 1 \<in> node_bytes a" using s by (simp add: in_node_bytes [OF assms(1)])
  with assms(3) have "MFREE_END a - 1 \<notin> node_bytes b" by blast
  with assms(4) u s have "unat (mf_self b) = unat (MFREE_END a)"
    by (auto simp: in_node_bytes [OF assms(2)] unat_MFREE_END [OF assms(1)])
  then have "mf_self b = MFREE_END a" by (simp add: word_unat_eq_iff)
  with \<open>MFREE_END a - 1 \<in> node_bytes a\<close> show ?thesis by simp
qed

lemma merged_insert:
  assumes "linked h" "merged h" "node_ok n" "node_bytes n \<inter> free_bytes h = {}" "mf_self n - 1 \<notin> free_bytes h"
    "MFREE_END n \<notin> free_bytes h" "nodes h' = insert n (nodes h)"
  shows "merged h'" "free_bytes h' = free_bytes h \<union> node_bytes n"
proof -
  show f: "free_bytes h' = free_bytes h \<union> node_bytes n" using assms(7) by (auto simp: free_bytes_def)
  have "mf_self m - 1 \<notin> node_bytes n" "MFREE_END m \<notin> node_bytes n" if m: "m \<in> nodes h" for m
  proof -
    have mok: "node_ok m" and sub: "node_bytes m \<subseteq> free_bytes h"
      using linked_node_ok [OF assms(1) m] m by (auto simp: free_bytes_def)
    with assms(4) have d: "node_bytes n \<inter> node_bytes m = {}" by blast
    show "mf_self m - 1 \<notin> node_bytes n"
      using adjacent_above [OF assms(3) mok d] assms(6) sub self_in_node_bytes [OF mok] by auto
    show "MFREE_END m \<notin> node_bytes n"
      using adjacent_below [OF mok assms(3)] d assms(5) sub by blast
  qed
  then show "merged h'" using assms(2,3,5-7) node_self_minus_1 [OF assms(3)] node_end_notin [OF assms(3)]
    unfolding merged_def f by auto
qed

lemma relinked_zero_ok:
  assumes "relinked N w w'" "\<And>n x. n \<in> N \<Longrightarrow> mf_flags n = GFP_CALLOC \<Longrightarrow> x \<in> node_bytes n - header n \<Longrightarrow> w_mem w x = 0"
  shows "zero_ok w'"
  unfolding zero_ok_def
proof (intro ballI impI)
  fix n x assume n: "n \<in> nodes (w_heap w')" "mf_flags n = GFP_CALLOC" "x \<in> node_bytes n - header n"
  have l: "linked (w_heap w')" "nodes (w_heap w') = N" using assms(1) by (simp_all add: relinked_def)
  have "x \<notin> header m" if "m \<in> nodes (w_heap w')" for m
    using that n linked_disjoint [OF l(1) n(1) that] header_subset [OF linked_node_ok [OF l(1) that]] by (cases "m = n") auto
  then have "w_mem w' x = w_mem w x" using assms(1) by (auto simp: relinked_def header_bytes_def)
  with assms(2) n l(2) show "w_mem w' x = 0" by simp
qed

lemma insert_gives:
  assumes ok: "heap_ok (w_heap w)" "zero_ok w" and n: "node_ok n" "node_bytes n \<inter> free_bytes (w_heap w) = {}"
    "mf_self n - 1 \<notin> free_bytes (w_heap w)" "MFREE_END n \<notin> free_bytes (w_heap w)"
    and z: "\<And>x. mf_flags n = GFP_CALLOC \<Longrightarrow> x \<in> node_bytes n - header n \<Longrightarrow> w_mem w x = 0"
  obtains w' where "heap_insert_node_unlocked K n w = Some (Inr (), w')" "adds (node_bytes n) w w'"
proof -
  have l: "linked (w_heap w)" "merged (w_heap w)" "PAGESIZE \<le> h_freethresh (w_heap w)" using ok(1) by (simp_all add: heap_ok_def)
  obtain w' where w': "heap_insert_node_unlocked K n w = Some (Inr (), w')" "relinked (insert n (nodes (w_heap w))) w w'"
    using heap_insert_node [OF l(1) n(1,2)] .
  then have nd: "nodes (w_heap w') = insert n (nodes (w_heap w))" and r: "same_rest (w_heap w) (w_heap w')" "w_vm w' = w_vm w"
    "linked (w_heap w')" by (simp_all add: relinked_def)
  note m = merged_insert [OF l(1,2) n nd]
  have "adds (node_bytes n) w w'"
    unfolding adds_def
  proof (intro conjI allI impI)
    show "heap_ok (w_heap w')" using r m(1) l(3) by (simp add: heap_ok_def same_rest_def)
    show "zero_ok w'" using relinked_zero_ok [OF w'(2)] z ok(2) by (auto simp: zero_ok_def)
    show "w_mem w' x = w_mem w x" if "x \<notin> free_bytes (w_heap w) \<union> node_bytes n" for x
      using that w'(2) header_bytes_subset [OF r(3)] m(2) by (auto simp: relinked_def)
  qed (use m(2) r in \<open>simp_all add: same_rest_def same_config_def\<close>)
  with that w'(1) show ?thesis by blast
qed

section \<open>Freeing a block without neighbours\<close>

text \<open>A block as the callers of the free functions pass it.\<close>

definition block_ok :: "key \<Rightarrow> 32 word \<Rightarrow> bool" where
  "block_ok p n \<longleftrightarrow> IS_ALIGNED p HEAP_ALIGNMENT \<and> IS_ALIGNED n HEAP_ALIGNMENT \<and> HEAP_MINSIZE \<le> n \<and> fits p n"

definition isolated :: "key \<Rightarrow> 32 word \<Rightarrow> heap \<Rightarrow> bool" where
  "isolated p n h \<longleftrightarrow> region p n \<inter> free_bytes h = {} \<and> p - 1 \<notin> free_bytes h \<and> p + n \<notin> free_bytes h"

abbreviation new_node :: "key \<Rightarrow> 32 word \<Rightarrow> gfp \<Rightarrow> mfree" where
  "new_node p n fl \<equiv> \<lparr>mf_self = p, mf_size = n, mf_flags = fl, mf_szchk = 0\<rparr>"

lemma node_ok_block: "block_ok (mf_self n) (mf_size n) \<Longrightarrow> mf_flags n \<in> {0, GFP_CALLOC} \<Longrightarrow> node_ok (mfree_set_checksum n)"
  by (simp add: node_ok_def block_ok_def mfree_set_checksum_def mfree_get_checksum_def)

lemma set_checksum_simps [simp]:
  "mf_self (mfree_set_checksum n) = mf_self n" "mf_size (mfree_set_checksum n) = mf_size n" "mf_flags (mfree_set_checksum n) = mf_flags n"
  "node_bytes (mfree_set_checksum n) = node_bytes n" "header (mfree_set_checksum n) = header n" "MFREE_END (mfree_set_checksum n) = MFREE_END n"
  by (simp_all add: mfree_set_checksum_def node_bytes_def header_def MFREE_END_def)

lemma node_bytes_new: "node_bytes n = region (mf_self n) (mf_size n)"
  by (simp add: node_bytes_def)

definition kept_whole :: "mfree \<Rightarrow> gfp \<Rightarrow> heap \<Rightarrow> bool" where
  "kept_whole n flags h \<longleftrightarrow> has flags GFP_NOMAP \<or> mf_size n < h_freethresh h \<or> release_range n = None"

lemma floor_page_le: "FLOORDIV x PAGESIZE * PAGESIZE \<le> x"
proof -
  have "unat (x div 4096 * 4096 :: 32 word) = unat x div 4096 * 4096"
    using unat_less_2_32 [of x] by (subst unat_mult_lem [THEN iffD1]) (simp_all add: unat_div le_less_trans [OF div_times_less_eq_dividend])
  then show ?thesis by (simp add: FLOORDIV_def PAGESIZE_def word_le_nat_alt)
qed

lemma load_new_slot_whole:
  assumes "kept_whole n flags (w_heap w)"
  shows "load_new_slot f K n flags d w = heap_insert_node_unlocked K (mfree_set_checksum n) (sub_dangle d w)"
  using assms unfolding load_new_slot_def kept_whole_def sub_dangle_def [symmetric] Let_def
  by (auto simp: floor_page_le not_le)

lemma load_whole_adds:
  assumes "heap_ok (w_heap w)" "zero_ok w" "block_ok (mf_self n) (mf_size n)" "mf_flags n \<in> {0, GFP_CALLOC}"
    "isolated (mf_self n) (mf_size n) (w_heap w)" "kept_whole n flags (w_heap w)"
    and z: "\<And>x. mf_flags n = GFP_CALLOC \<Longrightarrow> x \<in> node_bytes n - header n \<Longrightarrow> w_mem w x = 0"
  obtains w' where "load_new_slot f K n flags d w = Some (Inr (), w')" "adds (node_bytes n) (sub_dangle d w) w'"
proof -
  obtain w' where "heap_insert_node_unlocked K (mfree_set_checksum n) (sub_dangle d w) = Some (Inr (), w')"
      "adds (node_bytes (mfree_set_checksum n)) (sub_dangle d w) w'"
    by (rule insert_gives [of "sub_dangle d w" "mfree_set_checksum n" K])
      (use assms node_ok_block [OF assms(3,4)] in \<open>auto simp: isolated_def node_bytes_def MFREE_END_def\<close>)
  with that assms(6) show ?thesis by (simp add: load_new_slot_whole)
qed

lemma free_again_whole:
  assumes ok: "heap_ok (w_heap w)" "zero_ok w" and b: "block_ok p n" "isolated p n (w_heap w)"
    and k: "kept_whole (new_node p n (flags AND GFP_CALLOC)) flags (w_heap w)"
    and z: "\<And>x. has flags GFP_CALLOC \<Longrightarrow> x \<in> region p n \<Longrightarrow> w_mem w x = 0"
  obtains w' where "heap_free_again K d p n flags w = Some (Inr (), w')" "adds (region p n) (sub_dangle d w) w'"
proof -
  have l: "linked (w_heap w)" using ok(1) by (simp add: heap_ok_def)
  have "heap_pop K (p - 1) w = Some (Inr None, w)" "heap_pop K (p + n) w = Some (Inr None, w)"
    using b(2) by (cases rule: heap_pop_cases [OF l]; auto simp: isolated_def free_bytes_def)+
  moreover obtain w' where "load_new_slot (heap_free_again K 0) K (new_node p n (flags AND GFP_CALLOC)) flags d w = Some (Inr (), w')"
      "adds (node_bytes (new_node p n (flags AND GFP_CALLOC))) (sub_dangle d w) w'"
    by (rule load_whole_adds [OF ok, of "new_node p n (flags AND GFP_CALLOC)" flags "heap_free_again K 0" K d])
      (use b k z in \<open>auto simp: and_CALLOC node_bytes_def split: if_splits\<close>)
  ultimately show ?thesis using that b(1)
    by (subst (asm) heap_free_again.simps) (simp add: block_ok_def fits_def node_bytes_def)
qed

end
