(* ===== verification/Heap_Release.thy ===== *)
theory Heap_Release
  imports Heap_Sound
begin

text \<open>
  The end of the free function: a node is linked in, or its whole pages go back to the virtual memory of the
  kernel.
\<close>

section \<open>Giving pages back\<close>

lemma unat_page_addr: "unat c < 2 ^ 20 \<Longrightarrow> unat (c * PAGESIZE) = unat c * 4096"
  by (subst unat_mult_lem [THEN iffD1]) (simp_all add: PAGESIZE_def)

lemma unat_CEILDIV_page: "unat x + 4096 \<le> 2 ^ 32 \<Longrightarrow> unat (CEILDIV x PAGESIZE) = (unat x + 4095) div 4096"
proof -
  assume x: "unat x + 4096 \<le> 2 ^ 32"
  have "x + PAGESIZE - 1 = x + 4095" by (simp add: PAGESIZE_def)
  with x show ?thesis by (simp add: CEILDIV_def PAGESIZE_def unat_div unat_add_32)
qed

lemma unat_FLOORDIV_page: "unat (FLOORDIV x PAGESIZE) = unat x div 4096"
  by (simp add: FLOORDIV_def PAGESIZE_def unat_div)

definition kept_part :: "nat \<Rightarrow> bool" where
  "kept_part k \<longleftrightarrow> k = 0 \<or> 32 \<le> k \<and> k < 4096 \<or> 4096 < k \<and> k < 4128"

lemma unat_page_inc: "unat c < 2 ^ 20 \<Longrightarrow> unat (c + 1 :: 32 word) = unat c + 1"
  by (subst unat_add_32) simp_all

lemma unat_minus_1: "c \<noteq> 0 \<Longrightarrow> unat (c - 1 :: 32 word) = unat c - 1"
  by (metis unat_minus_one)

lemma unat_sub_le: "unat y \<le> unat x \<Longrightarrow> unat (x - y :: 32 word) = unat x - unat y"
  by (simp add: unat_sub_32)

lemma page_bounds:
  fixes a b :: nat
  defines "c \<equiv> (a + 4095) div 4096" and "f \<equiv> b div 4096"
  shows "a \<le> 4096 * c" "4096 * c < a + 4096" "4096 * f \<le> b" "b < 4096 * f + 4096"
  unfolding c_def f_def by linarith+

lemma release_range_spec:
  assumes n: "block_ok (mf_self n) (mf_size n)" "PAGESIZE \<le> mf_size n" and r: "release_range n = Some (mp, ep, hk, tk, tks)"
  defines "a \<equiv> unat (mf_self n)" and "b \<equiv> unat (mf_self n) + unat (mf_size n)"
  shows "unat mp < unat ep \<and> unat ep < 2 ^ 20 \<and> a + unat hk = 4096 * unat mp \<and> unat tk = 4096 * unat ep \<and> unat tk + unat tks = b \<and>
    kept_part (unat hk) \<and> kept_part (unat tks)"
proof -
  let ?c = "CEILDIV (MFREE_MIN n) PAGESIZE" and ?f = "FLOORDIV (MFREE_END n) PAGESIZE"
  have s: "4096 \<le> unat (mf_size n)" using n(2) by (simp add: PAGESIZE_def word_le_nat_alt)
  have b: "b < 2 ^ 32" "unat (MFREE_END n) = b" using n(1) by (simp_all add: b_def block_ok_def fits_iff MFREE_END_def unat_add_32)
  have c: "unat ?c = (a + 4095) div 4096" using b(1) s by (subst unat_CEILDIV_page) (simp_all add: MFREE_MIN_def a_def b_def)
  have f: "unat ?f = b div 4096" using b(2) by (simp add: unat_FLOORDIV_page)
  note pb = page_bounds(1,2) [of a, folded c] page_bounds(3,4) [of b, folded f]
  have lt: "?c < ?f" using r by (auto simp: release_range_def Let_def split: if_splits)
  then have lt': "unat ?c < unat ?f" by (simp add: word_less_nat_alt)
  have f20: "unat ?f < 2 ^ 20" using pb(3) b(1) by simp
  then have c20: "unat ?c < 2 ^ 20" using lt' by (rule less_trans [rotated])
  note cf = unat_page_addr [OF c20] unat_page_addr [OF f20]
  define hk0 where "hk0 = ?c * PAGESIZE - MFREE_MIN n"
  define tk0 where "tk0 = MFREE_END n - ?f * PAGESIZE"
  have hk0: "a + unat hk0 = 4096 * unat ?c" "unat hk0 < 4096"
    using pb(1,2) cf(1) unfolding hk0_def by (auto simp: MFREE_MIN_def a_def unat_sub_le)
  have tk0: "4096 * unat ?f + unat tk0 = b" "unat tk0 < 4096"
    using pb(3,4) cf(2) b(2) unfolding tk0_def by (auto simp: unat_sub_le)
  define hadj where "hadj \<longleftrightarrow> hk0 \<noteq> 0 \<and> hk0 < 32"
  define tadj where "tadj \<longleftrightarrow> tk0 \<noteq> 0 \<and> tk0 < 32"
  have up: "unat (x + PAGESIZE) = unat x + 4096" if "unat x < 4096" for x :: "32 word"
    using that by (simp add: PAGESIZE_def unat_add_32)
  have fnz: "?f \<noteq> 0" using lt by auto
  have "(mp, ep, hk, tk, tks) = (if hadj then ?c + 1 else ?c, if tadj then ?f - 1 else ?f, if hadj then hk0 + PAGESIZE else hk0,
      if tadj then ?f * PAGESIZE - PAGESIZE else ?f * PAGESIZE, if tadj then tk0 + PAGESIZE else tk0) \<and> mp < ep"
    using r lt unfolding release_range_def Let_def hk0_def [symmetric] tk0_def [symmetric] HEAP_MINSIZE_32 hadj_def [symmetric] tadj_def [symmetric]
    by (auto split: if_splits)
  then have e: "mp = (if hadj then ?c + 1 else ?c)" "ep = (if tadj then ?f - 1 else ?f)" "hk = (if hadj then hk0 + PAGESIZE else hk0)"
      "tk = (if tadj then ?f * PAGESIZE - PAGESIZE else ?f * PAGESIZE)" "tks = (if tadj then tk0 + PAGESIZE else tk0)" "mp < ep"
    by blast+
  have h: "a + unat hk = 4096 * unat mp" "kept_part (unat hk)"
    using hk0 c20 by (auto simp: e(1,3) hadj_def kept_part_def up unat_page_inc word_less_nat_alt unat_eq_zero [symmetric])
  have f1: "1 \<le> unat ?f" using lt' by linarith
  have down: "unat (?f * PAGESIZE - PAGESIZE) = unat ?f * 4096 - 4096"
    using f1 cf(2) by (subst unat_sub_le) (simp_all add: PAGESIZE_def)
  have t: "unat tk = 4096 * unat ep" "unat tk + unat tks = b" "kept_part (unat tks)" "unat ep < 2 ^ 20"
    using tk0 f20 f1 cf(2) fnz
    by (auto simp: e(2,4,5) tadj_def kept_part_def up down unat_minus_1 word_less_nat_alt unat_eq_zero [symmetric])
  show ?thesis using h t e(6) by (simp add: word_less_nat_alt)
qed

lemma release_none: "block_ok (mf_self n) (mf_size n) \<Longrightarrow> 4096 < unat (mf_size n) \<Longrightarrow> unat (mf_size n) < 4128 \<Longrightarrow> release_range n = None"
proof (rule ccontr)
  assume b: "block_ok (mf_self n) (mf_size n)" and s: "4096 < unat (mf_size n)" "unat (mf_size n) < 4128" and "release_range n \<noteq> None"
  then obtain mp ep hk tk tks where "release_range n = Some (mp, ep, hk, tk, tks)" by (cases "release_range n") auto
  moreover have "PAGESIZE \<le> mf_size n" using s by (simp add: PAGESIZE_def word_le_nat_alt)
  ultimately have sp: "unat mp < unat ep" "unat (mf_self n) + unat hk = 4096 * unat mp" "unat tk = 4096 * unat ep"
      "unat tk + unat tks = unat (mf_self n) + unat (mf_size n)" "kept_part (unat hk)" "kept_part (unat tks)"
    using release_range_spec [OF b] by blast+
  then have "unat hk + unat tks < 32" using s by linarith
  with sp(5,6) have "unat hk = 0" "unat tks = 0" by (auto simp: kept_part_def)
  with sp s have "4096 * (unat ep - unat mp) = unat (mf_size n)" by (simp add: diff_mult_distrib2)
  with s sp(1) show False by (cases "unat ep - unat mp = 1") auto
qed

lemma kept_part_whole:
  assumes "block_ok p n" "kept_part (unat n)" "PAGESIZE \<le> h_freethresh h"
  shows "kept_whole (new_node p n f) flags h"
proof -
  consider "unat n < 4096" | "4096 < unat n" "unat n < 4128" using assms(2) by (auto simp: kept_part_def)
  then show ?thesis
  proof cases
    case 1
    then have "n < h_freethresh h" using assms(3) by (simp add: PAGESIZE_def word_less_nat_alt word_le_nat_alt)
    then show ?thesis by (simp add: kept_whole_def)
  next
    case 2
    with assms(1) show ?thesis by (simp add: kept_whole_def release_none)
  qed
qed

text \<open>One of the two parts that are kept, if it is not empty.\<close>

lemma free_kept_part:
  assumes "heap_ok (w_heap w)" "zero_ok w" "n \<noteq> 0 \<longrightarrow> block_ok p n \<and> isolated p n (w_heap w)" "kept_part (unat n)"
    "\<And>x. has flags GFP_CALLOC \<Longrightarrow> x \<in> region p n \<Longrightarrow> w_mem w x = 0"
  obtains w' where "(if n \<noteq> 0 then heap_free_again K 0 p n flags w else Some (Inr (), w)) = Some (Inr (), w')" "adds (region p n) w w'"
proof (cases "n = 0")
  case True
  then show ?thesis using that [of w] adds_refl [OF assms(1,2)] by simp
next
  case False
  then have b: "block_ok p n" "isolated p n (w_heap w)" using assms(3) by simp_all
  have "PAGESIZE \<le> h_freethresh (w_heap w)" using assms(1) by (simp add: heap_ok_def)
  then obtain w' where "heap_free_again K 0 p n flags w = Some (Inr (), w')" "adds (region p n) (sub_dangle 0 w) w'"
    using free_again_whole [OF assms(1,2) b kept_part_whole [OF b(1) assms(4)] assms(5)] by blast
  with that False show ?thesis by simp
qed

lemma release_flags:
  assumes "f \<in> {0, GFP_CALLOC}"
  shows "has ((flags AND NOT GFP_CALLOC) OR f) GFP_CALLOC \<longleftrightarrow> f = GFP_CALLOC"
  using assms by (auto simp: has_or)

text \<open>How the addresses of a node are divided when pages of it are released.\<close>

lemma release_regions:
  assumes b: "block_ok (mf_self n) (mf_size n)" and p: "PAGESIZE \<le> mf_size n" and r: "release_range n = Some (mp, ep, hk, tk, tks)"
  shows "x \<in> node_bytes n \<longleftrightarrow> unat (mf_self n) \<le> unat x \<and> unat x < unat (mf_self n) + unat (mf_size n)"
    "x \<in> region (mf_self n) hk \<longleftrightarrow> unat (mf_self n) \<le> unat x \<and> unat x < 4096 * unat mp"
    "x \<in> page_bytes {mp..<ep} \<longleftrightarrow> 4096 * unat mp \<le> unat x \<and> unat x < 4096 * unat ep"
    "x \<in> region tk tks \<longleftrightarrow> 4096 * unat ep \<le> unat x \<and> unat x < unat (mf_self n) + unat (mf_size n)"
    "unat (mf_self n) \<le> 4096 * unat mp" "unat mp < unat ep" "4096 * unat ep \<le> unat (mf_self n) + unat (mf_size n)"
    "unat (tk - 1) = 4096 * unat ep - 1" "unat (mf_self n + hk) = 4096 * unat mp" "tk + tks = MFREE_END n"
    "hk \<noteq> 0 \<longrightarrow> block_ok (mf_self n) hk" "tks \<noteq> 0 \<longrightarrow> block_ok tk tks" "kept_part (unat hk)" "kept_part (unat tks)"
proof -
  have sp: "unat mp < unat ep" "unat (mf_self n) + unat hk = 4096 * unat mp" "unat tk = 4096 * unat ep"
      "unat tk + unat tks = unat (mf_self n) + unat (mf_size n)" and kp: "kept_part (unat hk)" "kept_part (unat tks)"
    using release_range_spec [OF b p r] by blast+
  have f: "unat (mf_self n) + unat (mf_size n) < 2 ^ 32" using b by (simp add: block_ok_def fits_iff)
  have al: "16 dvd unat (mf_self n)" "16 dvd unat (mf_size n)" using b by (simp_all add: block_ok_def aligned_16)
  have al2: "(16::nat) dvd 4096 * k" for k by (rule dvd_mult2) simp
  show "unat (mf_self n) \<le> 4096 * unat mp" "unat mp < unat ep" "4096 * unat ep \<le> unat (mf_self n) + unat (mf_size n)"
    "kept_part (unat hk)" "kept_part (unat tks)" using sp kp by linarith+
  show "x \<in> node_bytes n \<longleftrightarrow> unat (mf_self n) \<le> unat x \<and> unat x < unat (mf_self n) + unat (mf_size n)"
    using f by (simp add: node_bytes_def in_region)
  show "x \<in> region (mf_self n) hk \<longleftrightarrow> unat (mf_self n) \<le> unat x \<and> unat x < 4096 * unat mp"
    using sp f by (subst in_region) auto
  show "x \<in> page_bytes {mp..<ep} \<longleftrightarrow> 4096 * unat mp \<le> unat x \<and> unat x < 4096 * unat ep"
    by (rule page_bytes_range)
  show "x \<in> region tk tks \<longleftrightarrow> 4096 * unat ep \<le> unat x \<and> unat x < unat (mf_self n) + unat (mf_size n)"
    using sp f by (subst in_region) auto
  show "unat (tk - 1) = 4096 * unat ep - 1" using sp by (simp add: unat_sub_32)
  show "unat (mf_self n + hk) = 4096 * unat mp" using sp f by (subst unat_add_32) auto
  have "unat (tk + tks) = unat (MFREE_END n)" using sp f by (simp add: unat_add_32 MFREE_END_def)
  then show "tk + tks = MFREE_END n" by (simp add: word_unat_eq_iff)
  have "16 dvd unat (mf_self n) + unat hk" "16 dvd unat tk" "16 dvd unat tk + unat tks"
    using al al2 sp(2-4) by (simp_all add: dvd_add)
  then have d: "16 dvd unat hk" "16 dvd unat tk" "16 dvd unat tks" using al(1) by (simp_all add: dvd_add_right_iff)
  show "hk \<noteq> 0 \<longrightarrow> block_ok (mf_self n) hk" "tks \<noteq> 0 \<longrightarrow> block_ok tk tks"
    using kp d al sp f
    by (auto simp: block_ok_def aligned_16 fits_iff kept_part_def word_le_nat_alt unat_eq_zero [symmetric])
qed

lemma reset_hint_simps [simp]:
  "nodes (reset_hint p q h) = nodes h" "linked (reset_hint p q h) = linked h" "h_freethresh (reset_hint p q h) = h_freethresh h"
  "same_config h' (reset_hint p q h) = same_config h' h"
  by (simp_all add: reset_hint_def nodes_def linked_def same_config_def)

lemma reset_hint_ok [simp]:
  "free_bytes (reset_hint p q h) = free_bytes h" "heap_ok (reset_hint p q h) = heap_ok h"
  by (simp_all add: free_bytes_def heap_ok_def merged_def)

definition zero_kept :: "gfp \<Rightarrow> key \<Rightarrow> 32 word \<Rightarrow> 'v world \<Rightarrow> 'v world" where
  "zero_kept flags p k w = (if k \<noteq> 0 then zero_or_pattern flags p w else w)"

lemma zero_kept_simps [simp]: "w_heap (zero_kept flags p k w) = w_heap w" "w_vm (zero_kept flags p k w) = w_vm w"
  by (simp_all add: zero_kept_def)

lemma zero_kept_mem:
  assumes "k \<noteq> 0 \<longrightarrow> block_ok p k"
  shows "x \<notin> region p k \<Longrightarrow> w_mem (zero_kept flags p k w) x = w_mem w x"
    "has flags GFP_CALLOC \<Longrightarrow> x \<in> region p k \<Longrightarrow> w_mem w x = 0 \<or> x \<in> region p SIZEOF_MFREE \<Longrightarrow> w_mem (zero_kept flags p k w) x = 0"
proof -
  have "region p SIZEOF_MFREE \<subseteq> region p k" if "k \<noteq> 0"
    using that assms by (intro region_head) (auto simp: block_ok_def SIZEOF_MFREE_def word_le_nat_alt)
  then show "x \<notin> region p k \<Longrightarrow> w_mem (zero_kept flags p k w) x = w_mem w x"
    "has flags GFP_CALLOC \<Longrightarrow> x \<in> region p k \<Longrightarrow> w_mem w x = 0 \<or> x \<in> region p SIZEOF_MFREE \<Longrightarrow> w_mem (zero_kept flags p k w) x = 0"
    by (cases "x \<in> region p SIZEOF_MFREE"; auto simp: zero_kept_def zero_or_pattern_mem)+
qed

lemma load_new_slot_release:
  assumes "\<not> has flags GFP_NOMAP" "h_freethresh (w_heap w) \<le> mf_size n" "release_range n = Some (mp, ep, hk, tk, tks)"
  shows "load_new_slot f K n flags d w =
    (let fl = (flags AND NOT GFP_CALLOC) OR mf_flags n;
         w = zero_kept fl tk tks (zero_kept fl (mf_self n) hk (sub_dangle d w))
     in hbind (if hk \<noteq> 0 then f (mf_self n) hk fl w else Some (Inr (), w)) (\<lambda>_ w.
        hbind (if tks \<noteq> 0 then f tk tks fl w else Some (Inr (), w)) (\<lambda>_ w.
        hbind (core_page_free K mp (ep - mp) w) (\<lambda>_ w. Some (Inr (), w_heap_update (reset_hint mp ep) w)))))"
  using assms unfolding load_new_slot_def sub_dangle_def [symmetric] zero_kept_def
  by (simp add: Let_def floor_page_le MFREE_MIN_def)

text \<open>The parts that are kept are zero if the node was.\<close>

lemma zero_kept_release:
  assumes b: "block_ok (mf_self n) (mf_size n)" and p: "PAGESIZE \<le> mf_size n" and r: "release_range n = Some (mp, ep, hk, tk, tks)"
    and f: "has fl GFP_CALLOC" and z: "\<And>x. x \<in> node_bytes n - header n \<Longrightarrow> w_mem w x = 0"
    and x: "x \<in> region (mf_self n) hk \<union> region tk tks"
  shows "w_mem (zero_kept fl tk tks (zero_kept fl (mf_self n) hk w)) x = 0"
proof -
  note reg = release_regions [OF b p r]
  have h: "x \<in> header n \<longleftrightarrow> unat (mf_self n) \<le> unat x \<and> unat x < unat (mf_self n) + 22" for x
    using b by (subst header_region, subst in_region) (auto simp: SIZEOF_MFREE_def block_ok_def fits_iff word_le_nat_alt)
  have hk: "hk = 0 \<or> 32 \<le> unat hk" using reg(13) by (auto simp: kept_part_def unat_eq_zero)
  show ?thesis
  proof (cases "x \<in> region tk tks")
    case True
    then have "x \<notin> region (mf_self n) hk" "x \<in> node_bytes n - header n"
      using reg(5-7,9) hk unat_fits [of "mf_self n" hk] reg(11) by (auto simp: reg(1,2,4) h block_ok_def)
    then show ?thesis using True z f zero_kept_mem(2) [OF reg(12) f True] zero_kept_mem(1) [OF reg(11)] by metis
  next
    case False
    with x have "x \<in> region (mf_self n) hk" by blast
    moreover have "x \<in> node_bytes n" using calculation reg(5-7) by (auto simp: reg(1,2))
    ultimately show ?thesis using False z zero_kept_mem(1) [OF reg(12)] zero_kept_mem(2) [OF reg(11) f]
      by (metis DiffI header_region)
  qed
qed

lemma release_parts:
  assumes b: "block_ok (mf_self n) (mf_size n)" and p: "PAGESIZE \<le> mf_size n" and r: "release_range n = Some (mp, ep, hk, tk, tks)"
  shows "node_bytes n = region (mf_self n) hk \<union> page_bytes {mp..<ep} \<union> region tk tks"
    "region (mf_self n) hk \<inter> region tk tks = {}" "(region (mf_self n) hk \<union> region tk tks) \<inter> page_bytes {mp..<ep} = {}"
  using release_regions(5-7) [OF b p r] by (auto simp: release_regions(1-4) [OF b p r])

text \<open>Freeing the two parts that are kept of a node.\<close>

lemma free_kept_parts:
  assumes ok: "heap_ok (w_heap w)" "zero_ok w" and b: "block_ok (mf_self n) (mf_size n)" "isolated (mf_self n) (mf_size n) (w_heap w)"
    and p: "PAGESIZE \<le> mf_size n" and r: "release_range n = Some (mp, ep, hk, tk, tks)"
    and z: "\<And>x. has fl GFP_CALLOC \<Longrightarrow> x \<in> region (mf_self n) hk \<union> region tk tks \<Longrightarrow> w_mem w x = 0"
  obtains w3 w4 where "(if hk \<noteq> 0 then heap_free_again K 0 (mf_self n) hk fl w else Some (Inr (), w)) = Some (Inr (), w3)"
    "(if tks \<noteq> 0 then heap_free_again K 0 tk tks fl w3 else Some (Inr (), w3)) = Some (Inr (), w4)"
    "adds (region (mf_self n) hk \<union> region tk tks) w w4"
proof -
  note reg = release_regions [OF b(1) p r]
  note parts = release_parts [OF b(1) p r]
  have iso: "node_bytes n \<inter> free_bytes (w_heap w) = {}" "mf_self n - 1 \<notin> free_bytes (w_heap w)" "MFREE_END n \<notin> free_bytes (w_heap w)"
    using b(2) by (simp_all add: isolated_def node_bytes_def MFREE_END_def)
  have pg: "y \<in> node_bytes n" if "unat y = 4096 * unat mp \<or> unat y = 4096 * unat ep - 1" for y :: key
    using that reg(5-7) by (auto simp: reg(1))
  have iso1: "hk \<noteq> 0 \<longrightarrow> block_ok (mf_self n) hk \<and> isolated (mf_self n) hk (w_heap w)"
    using reg(11) iso pg [of "mf_self n + hk"] reg(9) parts(1) unfolding isolated_def by blast
  obtain w3 where w3: "(if hk \<noteq> 0 then heap_free_again K 0 (mf_self n) hk fl w else Some (Inr (), w)) = Some (Inr (), w3)"
      "adds (region (mf_self n) hk) w w3"
    using free_kept_part [OF ok iso1 reg(13)] z by blast
  have f3: "free_bytes (w_heap w3) = free_bytes (w_heap w) \<union> region (mf_self n) hk" and ok3: "heap_ok (w_heap w3)" "zero_ok w3"
    using w3(2) by (simp_all add: adds_def)
  have ends: "tk - 1 \<notin> region (mf_self n) hk" "MFREE_END n \<notin> region (mf_self n) hk"
    using reg(5-8) b(1) by (auto simp: reg(2) MFREE_END_def block_ok_def unat_fits)
  have iso2: "tks \<noteq> 0 \<longrightarrow> block_ok tk tks \<and> isolated tk tks (w_heap w3)"
    using reg(12) iso ends pg [of "tk - 1"] reg(8,10) parts(1,2) unfolding isolated_def f3 by auto
  have "w_mem w3 x = 0" if "has fl GFP_CALLOC" "x \<in> region tk tks" for x
    using z [of x] that w3(2) parts(1,2) iso(1) by (auto simp: adds_def)
  then obtain w4 where w4: "(if tks \<noteq> 0 then heap_free_again K 0 tk tks fl w3 else Some (Inr (), w3)) = Some (Inr (), w4)"
      "adds (region tk tks) w3 w4"
    using free_kept_part [OF ok3 iso2 reg(14)] by blast
  show thesis using that [OF w3(1) w4(1) adds_trans [OF w3(2) w4(2)]] .
qed

lemma load_release_gives:
  assumes K: "core_laws K own" and ok: "heap_ok (w_heap w)" "zero_ok w" and b: "block_ok (mf_self n) (mf_size n)" "mf_flags n \<in> {0, GFP_CALLOC}"
    "isolated (mf_self n) (mf_size n) (w_heap w)"
    and z: "\<And>x. mf_flags n = GFP_CALLOC \<Longrightarrow> x \<in> node_bytes n - header n \<Longrightarrow> w_mem w x = 0"
    and r: "\<not> has flags GFP_NOMAP" "h_freethresh (w_heap w) \<le> mf_size n" "release_range n = Some (mp, ep, hk, tk, tks)"
  obtains w' where "load_new_slot (heap_free_again K 0) K n flags d w = Some (Inr (), w')" "gives own (node_bytes n) (sub_dangle d w) w'"
proof -
  define fl where "fl = (flags AND NOT GFP_CALLOC) OR mf_flags n"
  define w2 where "w2 = zero_kept fl tk tks (zero_kept fl (mf_self n) hk (sub_dangle d w))"
  have fl: "has fl GFP_CALLOC \<longleftrightarrow> mf_flags n = GFP_CALLOC" using release_flags [OF b(2)] by (simp add: fl_def)
  have p: "PAGESIZE \<le> mf_size n" using ok(1) r(2) by (auto simp: heap_ok_def)
  note reg = release_regions [OF b(1) p r(3)]
  have w2: "w_heap w2 = w_heap (sub_dangle d w)" "w_vm w2 = w_vm w" by (simp_all add: w2_def)
  have free: "free_bytes (w_heap w2) = free_bytes (w_heap w)" and nd: "nodes (w_heap w2) = nodes (w_heap w)"
    and ok2: "heap_ok (w_heap w2)" using ok(1) by (simp_all add: w2)
  have iso: "node_bytes n \<inter> free_bytes (w_heap w) = {}" "mf_self n - 1 \<notin> free_bytes (w_heap w)" "MFREE_END n \<notin> free_bytes (w_heap w)"
    using b(3) by (simp_all add: isolated_def node_bytes_def MFREE_END_def)
  note parts = release_parts [OF b(1) p r(3)]
  have mem2: "w_mem w2 x = w_mem w x" if "x \<notin> node_bytes n" for x
    using that parts(1) by (simp add: w2_def zero_kept_mem(1) [OF reg(11)] zero_kept_mem(1) [OF reg(12)])
  have zero: "w_mem w2 x = 0" if "has fl GFP_CALLOC" "x \<in> region (mf_self n) hk \<union> region tk tks" for x
    using zero_kept_release [OF b(1) p r(3) that(1) _ that(2), of "sub_dangle d w"] z that(1) fl by (simp add: w2_def)
  have zok2: "zero_ok w2" unfolding zero_ok_def nd
    using ok(2) mem2 iso(1) by (fastforce simp: zero_ok_def free_bytes_def)
  have iso2: "isolated (mf_self n) (mf_size n) (w_heap w2)" using b(3) unfolding isolated_def free .
  from free_kept_parts [OF ok2 zok2 b(1) iso2 p r(3) zero]
  obtain w3 w4 where w3: "(if hk \<noteq> 0 then heap_free_again K 0 (mf_self n) hk fl w2 else Some (Inr (), w2)) = Some (Inr (), w3)"
    and w4: "(if tks \<noteq> 0 then heap_free_again K 0 tk tks fl w3 else Some (Inr (), w3)) = Some (Inr (), w4)"
    and a: "adds (region (mf_self n) hk \<union> region tk tks) w2 w4" .
  define w' where "w' = w_heap_update (reset_hint mp ep) (w_vm_update (k_unmap K mp (ep - mp)) w4)"
  have ne: "ep - mp \<noteq> 0" using reg(6) by auto
  have "load_new_slot (heap_free_again K 0) K n flags d w = Some (Inr (), w')"
    unfolding load_new_slot_release [OF r] Let_def fl_def [symmetric] w2_def [symmetric] w3 hbind_simps w4
    using ne by (simp add: core_page_free_def w'_def)
  moreover have "gives own (node_bytes n) (sub_dangle d w) w'"
  proof (rule givesI [where R = "{mp..<ep}"])
    show "own (w_vm w') = own (w_vm (sub_dangle d w)) - {mp..<ep}"
      using K a w2(2) by (simp add: w'_def core_laws_def adds_def)
    show "free_bytes (w_heap w') = (free_bytes (w_heap (sub_dangle d w)) \<union> node_bytes n) - page_bytes {mp..<ep}"
      using a free parts iso(1) by (auto simp: w'_def adds_def)
    show "zero_ok w'" using a by (simp add: w'_def adds_def zero_ok_def)
    show "w_mem w' x = w_mem (sub_dangle d w) x" if "x \<notin> free_bytes (w_heap (sub_dangle d w)) \<union> node_bytes n" for x
      using that a mem2 [of x] free parts(1) by (simp add: w'_def adds_def)
  qed (use a w2(1) parts(1) in \<open>auto simp: w'_def adds_def\<close>)
  ultimately show thesis using that by blast
qed

lemma load_new_slot_spec:
  assumes K: "core_laws K own" and ok: "heap_ok (w_heap w)" "zero_ok w" and b: "block_ok (mf_self n) (mf_size n)" "mf_flags n \<in> {0, GFP_CALLOC}"
    "isolated (mf_self n) (mf_size n) (w_heap w)"
    and z: "\<And>x. mf_flags n = GFP_CALLOC \<Longrightarrow> x \<in> node_bytes n - header n \<Longrightarrow> w_mem w x = 0"
  shows "\<exists>w'. load_new_slot (heap_free_again K 0) K n flags d w = Some (Inr (), w') \<and> gives own (node_bytes n) (sub_dangle d w) w' \<and>
    (has flags GFP_NOMAP \<longrightarrow> adds (node_bytes n) (sub_dangle d w) w')"
proof (cases "kept_whole n flags (w_heap w)")
  case True
  obtain w' where "load_new_slot (heap_free_again K 0) K n flags d w = Some (Inr (), w')" "adds (node_bytes n) (sub_dangle d w) w'"
    using load_whole_adds [OF ok b True z] .
  then show ?thesis by (auto intro: adds_gives)
next
  case False
  then obtain mp ep hk tk tks where "\<not> has flags GFP_NOMAP" "h_freethresh (w_heap w) \<le> mf_size n" "release_range n = Some (mp, ep, hk, tk, tks)"
    by (cases "release_range n") (auto simp: kept_whole_def)
  note r = this
  obtain w' where "load_new_slot (heap_free_again K 0) K n flags d w = Some (Inr (), w')" "gives own (node_bytes n) (sub_dangle d w) w'"
    using load_release_gives [OF K ok b z r] .
  with r(1) show ?thesis by auto
qed

end
