(* ===== verification/Heap_Free.thy ===== *)
theory Heap_Free
  imports Heap_Release
begin

text \<open>
  What freeing does: the bytes of the block become free, adjacent nodes become one, and whole pages go back to the
  virtual memory of the kernel once a node has grown large enough.
\<close>

section \<open>Freeing a block with neighbours\<close>

definition taken :: "mfree \<Rightarrow> 'v world \<Rightarrow> 'v world \<Rightarrow> bool" where
  "taken s w w' \<longleftrightarrow> node_ok s \<and> heap_ok (w_heap w') \<and> zero_ok w' \<and> same_rest (w_heap w) (w_heap w') \<and> w_vm w' = w_vm w \<and>
     free_bytes (w_heap w) = free_bytes (w_heap w') \<union> node_bytes s \<and> isolated (mf_self s) (mf_size s) (w_heap w') \<and>
     (\<forall>x. x \<notin> free_bytes (w_heap w') \<longrightarrow> w_mem w' x = w_mem w x) \<and>
     (mf_flags s = GFP_CALLOC \<longrightarrow> (\<forall>x \<in> node_bytes s - header s. w_mem w' x = 0)) \<and>
     card (nodes (w_heap w')) < card (nodes (w_heap w))"

lemma relinked_taken:
  assumes ok: "heap_ok (w_heap w)" "zero_ok w" and s: "s \<in> nodes (w_heap w)" and r: "relinked (nodes (w_heap w) - {s}) w w'"
  shows "taken s w w'"
proof -
  have l: "linked (w_heap w)" "merged (w_heap w)" using ok(1) by (simp_all add: heap_ok_def)
  have r': "linked (w_heap w')" "nodes (w_heap w') = nodes (w_heap w) - {s}" "same_rest (w_heap w) (w_heap w')" "w_vm w' = w_vm w"
    using r by (simp_all add: relinked_def)
  have f: "free_bytes (w_heap w) = free_bytes (w_heap w') \<union> node_bytes s" using r'(2) s by (auto simp: free_bytes_def)
  have d: "node_bytes s \<inter> free_bytes (w_heap w') = {}"
    using linked_disjoint [OF l(1) s] r'(2) by (fastforce simp: free_bytes_def)
  have "merged (w_heap w')" using l(2) r'(2) f by (auto simp: merged_def)
  then have ok': "heap_ok (w_heap w')" using ok(1) r' by (simp add: heap_ok_def same_rest_def)
  have iso: "isolated (mf_self s) (mf_size s) (w_heap w')"
    using d l(2) s f by (auto simp: isolated_def merged_def node_bytes_def MFREE_END_def)
  have z: "zero_ok w'" using relinked_zero_ok [OF r] ok(2) by (auto simp: zero_ok_def)
  have m: "w_mem w' x = w_mem w x" if "x \<notin> free_bytes (w_heap w')" for x
    using that r header_bytes_subset [OF r'(1)] by (auto simp: relinked_def)
  have zs: "mf_flags s = GFP_CALLOC \<longrightarrow> (\<forall>x \<in> node_bytes s - header s. w_mem w' x = 0)"
  proof (intro impI ballI)
    fix x assume x: "mf_flags s = GFP_CALLOC" "x \<in> node_bytes s - header s"
    then have "w_mem w x = 0" using ok(2) s by (simp add: zero_ok_def)
    with m [of x] x(2) d show "w_mem w' x = 0" by auto
  qed
  have "finite (nodes (w_heap w))" by (simp add: nodes_def)
  then have "card (nodes (w_heap w')) < card (nodes (w_heap w))" using s r'(2) by (metis card_Diff1_less)
  then show ?thesis unfolding taken_def
    by (intro conjI allI impI linked_node_ok [OF l(1) s] ok' z r'(3,4) f iso m zs)
qed

lemma block_append:
  assumes "block_ok p a" "block_ok (p + a) b"
  shows "block_ok p (a + b)" "region p (a + b) = region p a \<union> region (p + a) b" "unat (a + b) = unat a + unat b"
    "region p a \<inter> region (p + a) b = {}"
proof -
  have f: "unat (p + a) = unat p + unat a" "unat p + unat a + unat b < 2 ^ 32" "32 \<le> unat a" "32 \<le> unat b"
    using assms unat_fits [of p a] by (simp_all add: block_ok_def fits_iff word_le_nat_alt)
  then show u: "unat (a + b) = unat a + unat b" by (subst unat_add_32) auto
  have d: "16 dvd unat p" "16 dvd unat a" "16 dvd unat b" using assms by (simp_all add: block_ok_def aligned_16)
  show "block_ok p (a + b)" using f u d
    by (auto simp: block_ok_def aligned_16 fits_iff word_le_nat_alt unat_eq_zero [symmetric])
  show "region p (a + b) = region p a \<union> region (p + a) b" "region p a \<inter> region (p + a) b = {}"
    using f u by (auto simp: in_region)
qed

lemma block_ok_node: "node_ok n \<Longrightarrow> block_ok (mf_self n) (mf_size n)"
  by (simp add: node_ok_def block_ok_def)

lemma pop_low:
  assumes ok: "heap_ok (w_heap w)" "zero_ok w" and b: "block_ok p n" "region p n \<inter> free_bytes (w_heap w) = {}"
  obtains (hit) s w1 where "heap_pop K (p - 1) w = Some (Inr (Some s), w1)" "taken s w w1" "mf_self s + mf_size s = p"
  | (miss) "heap_pop K (p - 1) w = Some (Inr None, w)" "p - 1 \<notin> free_bytes (w_heap w)"
proof -
  have l: "linked (w_heap w)" using ok(1) by (simp add: heap_ok_def)
  show ?thesis
  proof (cases rule: heap_pop_cases [OF l, of "p - 1" K, case_names hit miss])
    case (hit s w1)
    note t = relinked_taken [OF ok hit(1,4)]
    have "MFREE_END s = mf_self (mfree_set_checksum (new_node p n 0))"
    proof (rule adjacent_above)
      show "node_ok s" using t by (simp add: taken_def)
      show "node_ok (mfree_set_checksum (new_node p n 0))" using b(1) by (intro node_ok_block) simp_all
      show "node_bytes s \<inter> node_bytes (mfree_set_checksum (new_node p n 0)) = {}"
        using b(2) hit(1) by (auto simp: free_bytes_def node_bytes_def)
    qed (use hit(2) in simp)
    then show ?thesis using that(1) [OF hit(3) t] by (simp add: MFREE_END_def)
  next
    case miss
    then show ?thesis using that(2) by blast
  qed
qed

lemma pop_high:
  assumes ok: "heap_ok (w_heap w)" "zero_ok w" and b: "block_ok p n" "region p n \<inter> free_bytes (w_heap w) = {}"
  obtains (hit) s w1 where "heap_pop K (p + n) w = Some (Inr (Some s), w1)" "taken s w w1" "mf_self s = p + n"
  | (miss) "heap_pop K (p + n) w = Some (Inr None, w)" "p + n \<notin> free_bytes (w_heap w)"
proof -
  have l: "linked (w_heap w)" using ok(1) by (simp add: heap_ok_def)
  show ?thesis
  proof (cases rule: heap_pop_cases [OF l, of "p + n" K, case_names hit miss])
    case (hit s w1)
    note t = relinked_taken [OF ok hit(1,4)]
    let ?m = "mfree_set_checksum (new_node p n 0)"
    have k: "node_ok s" "node_ok ?m" "node_bytes ?m \<inter> node_bytes s = {}"
      using t b hit(1) node_ok_block [of "new_node p n 0"] by (auto simp: taken_def free_bytes_def node_bytes_def)
    have "mf_self s - 1 \<in> node_bytes ?m" using adjacent_below [OF k(2,1,3)] hit(2) by (simp add: MFREE_END_def)
    from adjacent_above [OF k(2,1,3) this] have "mf_self s = p + n" by (simp add: MFREE_END_def)
    then show ?thesis using that(1) [OF hit(3) t] by blast
  next
    case miss
    then show ?thesis using that(2) by blast
  qed
qed

text \<open>How a call of the free functions ends: the block is given to the heap, and if nothing may be unmapped, it stays there.\<close>

definition freed :: "('v \<Rightarrow> 32 word set) \<Rightarrow> gfp \<Rightarrow> key set \<Rightarrow> 'v world \<Rightarrow> ('v, unit) hres \<Rightarrow> bool" where
  "freed own flags S w r \<longleftrightarrow> (\<exists>w'. r = Some (Inr (), w') \<and> gives own S w w' \<and> (has flags GFP_NOMAP \<longrightarrow> adds S w w'))"

lemma adds_from:
  assumes "adds T v w'" "free_bytes (w_heap v) \<union> T = free_bytes (w_heap w) \<union> S" "same_config (w_heap w) (w_heap v)"
    "w_vm v = w_vm w" "\<And>x. x \<notin> free_bytes (w_heap w) \<union> S \<Longrightarrow> w_mem v x = w_mem w x"
  shows "adds S w w'"
  using assms unfolding adds_def same_config_def by auto

lemma freed_from:
  assumes "freed own fl T v r" "free_bytes (w_heap v) \<union> T = free_bytes (w_heap w) \<union> S" "same_config (w_heap w) (w_heap v)"
    "w_vm v = w_vm w" "\<And>x. x \<notin> free_bytes (w_heap w) \<union> S \<Longrightarrow> w_mem v x = w_mem w x" "has fl GFP_NOMAP = has flags GFP_NOMAP"
  shows "freed own flags S w r"
proof -
  obtain w' where w': "r = Some (Inr (), w')" "gives own T v w'" "has fl GFP_NOMAP \<longrightarrow> adds T v w'"
    using assms(1) by (auto simp: freed_def)
  have "gives own S w w'" using gives_from [OF w'(2) assms(2,3)] assms(4,5) by simp
  moreover have "has flags GFP_NOMAP \<longrightarrow> adds S w w'" using adds_from [OF _ assms(2-5)] w'(3) assms(6) by blast
  ultimately show ?thesis using w'(1) by (auto simp: freed_def)
qed

text \<open>Writes into a range that is not free, and more bytes that count as dangling.\<close>

definition touches :: "key set \<Rightarrow> 32 word \<Rightarrow> 'v world \<Rightarrow> 'v world \<Rightarrow> bool" where
  "touches R c w w' \<longleftrightarrow> w_heap w' = h_dangle_update (\<lambda>x. x + c) (w_heap w) \<and> w_vm w' = w_vm w \<and> (\<forall>x. x \<notin> R \<longrightarrow> w_mem w' x = w_mem w x)"

lemma touches_simps:
  assumes "touches R c w w'"
  shows "nodes (w_heap w') = nodes (w_heap w)" "free_bytes (w_heap w') = free_bytes (w_heap w)" "heap_ok (w_heap w') = heap_ok (w_heap w)"
    "w_vm w' = w_vm w" "h_dangle (w_heap w') = h_dangle (w_heap w) + c"
    "isolated p n (w_heap w') = isolated p n (w_heap w)"
  using assms by (simp_all add: touches_def nodes_def free_bytes_def heap_ok_def linked_def merged_def isolated_def)

lemma touches_zero_ok:
  assumes "touches R c w w'" "zero_ok w" "R \<inter> free_bytes (w_heap w) = {}"
  shows "zero_ok w'"
  using assms unfolding zero_ok_def touches_simps(1) [OF assms(1)]
  by (fastforce simp: touches_def free_bytes_def)

lemma touches_mem: "touches R c w w' \<Longrightarrow> x \<notin> R \<Longrightarrow> w_mem w' x = w_mem w x"
  by (simp add: touches_def)

text \<open>
  \<open>merging S T w w1\<close>: \<open>w1\<close> is \<open>w\<close> without the nodes that have been merged with the block \<open>S\<close> into \<open>T\<close>.
\<close>

definition merging :: "key set \<Rightarrow> key set \<Rightarrow> 'v world \<Rightarrow> 'v world \<Rightarrow> bool" where
  "merging S T w w1 \<longleftrightarrow> heap_ok (w_heap w1) \<and> zero_ok w1 \<and> same_rest (w_heap w) (w_heap w1) \<and> w_vm w1 = w_vm w \<and>
     free_bytes (w_heap w1) \<union> T = free_bytes (w_heap w) \<union> S \<and> T \<inter> free_bytes (w_heap w1) = {} \<and>
     (\<forall>x. x \<notin> free_bytes (w_heap w) \<longrightarrow> w_mem w1 x = w_mem w x)"

lemma merging_refl: "heap_ok (w_heap w) \<Longrightarrow> zero_ok w \<Longrightarrow> S \<inter> free_bytes (w_heap w) = {} \<Longrightarrow> merging S S w w"
  by (simp add: merging_def same_rest_def)

lemma merging_take:
  assumes m: "merging S T w w1" and S: "S \<inter> free_bytes (w_heap w) = {}" "S \<subseteq> T" and t: "taken s w1 w2"
  shows "merging S (T \<union> node_bytes s) w w2"
proof -
  have m': "free_bytes (w_heap w1) \<union> T = free_bytes (w_heap w) \<union> S" "T \<inter> free_bytes (w_heap w1) = {}"
      "\<And>x. x \<notin> free_bytes (w_heap w) \<Longrightarrow> w_mem w1 x = w_mem w x" using m by (simp_all add: merging_def)
  have t': "free_bytes (w_heap w1) = free_bytes (w_heap w2) \<union> node_bytes s" "node_bytes s \<inter> free_bytes (w_heap w2) = {}"
      "\<And>x. x \<notin> free_bytes (w_heap w2) \<Longrightarrow> w_mem w2 x = w_mem w1 x" using t by (simp_all add: taken_def isolated_def node_bytes_def)
  have sub: "free_bytes (w_heap w2) \<subseteq> free_bytes (w_heap w)" using m' t'(1) S by blast
  show ?thesis unfolding merging_def
  proof (intro conjI allI impI)
    show "w_mem w2 x = w_mem w x" if "x \<notin> free_bytes (w_heap w)" for x using that sub m'(3) t'(3) by (metis subsetD)
    show "free_bytes (w_heap w2) \<union> (T \<union> node_bytes s) = free_bytes (w_heap w) \<union> S" using m'(1) t'(1) by blast
    show "(T \<union> node_bytes s) \<inter> free_bytes (w_heap w2) = {}" using m'(2) t'(1,2) by blast
  qed (use m t in \<open>simp_all add: merging_def taken_def same_rest_def\<close>)
qed

lemma freed_merged:
  assumes "freed own fl T (sub_dangle (d + c) w2) r" "touches T c w1 w2" "merging S T w w1" "has fl GFP_NOMAP = has flags GFP_NOMAP"
  shows "freed own flags S (sub_dangle d w) r"
proof (rule freed_from [OF assms(1) _ _ _ _ assms(4)])
  have m: "same_rest (w_heap w) (w_heap w1)" "w_vm w1 = w_vm w" "free_bytes (w_heap w1) \<union> T = free_bytes (w_heap w) \<union> S"
    "x \<notin> free_bytes (w_heap w) \<Longrightarrow> w_mem w1 x = w_mem w x" for x using assms(3) by (simp_all add: merging_def)
  show "same_config (w_heap (sub_dangle d w)) (w_heap (sub_dangle (d + c) w2))"
    using assms(2) m(1) by (simp add: same_config_def same_rest_def touches_def)
  show "w_mem (sub_dangle (d + c) w2) x = w_mem (sub_dangle d w) x" if "x \<notin> free_bytes (w_heap (sub_dangle d w)) \<union> S" for x
    using that m(3,4) touches_mem [OF assms(2), of x] by auto
  show "free_bytes (w_heap (sub_dangle (d + c) w2)) \<union> T = free_bytes (w_heap (sub_dangle d w)) \<union> S"
    "w_vm (sub_dangle (d + c) w2) = w_vm (sub_dangle d w)"
    using m(2,3) touches_simps [OF assms(2)] by simp_all
qed

text \<open>The recursive call and the end of the function, after nodes have been merged.\<close>

definition frees_below :: "'v kernel \<Rightarrow> ('v \<Rightarrow> 32 word set) \<Rightarrow> nat \<Rightarrow> bool" where
  "frees_below K own N \<longleftrightarrow> (\<forall>w d p n flags. card (nodes (w_heap w)) < N \<longrightarrow> heap_ok (w_heap w) \<longrightarrow> zero_ok w \<longrightarrow> block_ok p n \<longrightarrow>
     region p n \<inter> free_bytes (w_heap w) = {} \<longrightarrow> (has flags GFP_CALLOC \<longrightarrow> (\<forall>x \<in> region p n. w_mem w x = 0)) \<longrightarrow>
     freed own flags (region p n) (sub_dangle d w) (heap_free_again K d p n flags w))"

lemma again_merged:
  assumes "frees_below K own N" "card (nodes (w_heap w1)) < N" "merging S (region q m) w w1" "block_ok q m" "touches (region q m) c w1 w2"
  shows "freed own flags S (sub_dangle d w) (heap_free_again K (d + c) q m (flags AND NOT GFP_CALLOC) w2)"
proof -
  have m: "heap_ok (w_heap w1)" "zero_ok w1" "region q m \<inter> free_bytes (w_heap w1) = {}" using assms(3) by (simp_all add: merging_def)
  have "freed own (flags AND NOT GFP_CALLOC) (region q m) (sub_dangle (d + c) w2) (heap_free_again K (d + c) q m (flags AND NOT GFP_CALLOC) w2)"
    using assms(1) [unfolded frees_below_def, rule_format, of w2 q m "flags AND NOT GFP_CALLOC" "d + c"] assms(2,4) m
      touches_simps [OF assms(5)] touches_zero_ok [OF assms(5) m(2,3)] by simp
  from freed_merged [OF this assms(5,3)] show ?thesis by simp
qed

lemma load_merged:
  assumes K: "core_laws K own" and m: "merging S (node_bytes n) w w1" "touches (node_bytes n) 0 w1 w2"
    and n: "block_ok (mf_self n) (mf_size n)" "mf_flags n \<in> {0, GFP_CALLOC}" "isolated (mf_self n) (mf_size n) (w_heap w1)"
    and z: "\<And>x. mf_flags n = GFP_CALLOC \<Longrightarrow> x \<in> node_bytes n - header n \<Longrightarrow> w_mem w2 x = 0"
  shows "freed own flags S (sub_dangle d w) (load_new_slot (heap_free_again K 0) K n flags d w2)"
proof -
  have ok: "heap_ok (w_heap w1)" "zero_ok w1" "node_bytes n \<inter> free_bytes (w_heap w1) = {}" using m(1) by (simp_all add: merging_def)
  note t = touches_simps [OF m(2)]
  have "freed own flags (node_bytes n) (sub_dangle (d + 0) w2) (load_new_slot (heap_free_again K 0) K n flags d w2)"
    using load_new_slot_spec [OF K _ touches_zero_ok [OF m(2) ok(2,3)] n(1,2) _ z, of flags d] ok(1) n(3) t by (simp add: freed_def)
  from freed_merged [OF this m(2,1)] show ?thesis by simp
qed

named_theorems touches_intros

lemma touches_refl [touches_intros]: "touches R 0 w w"
  by (simp add: touches_def)

lemma touches_dangle [touches_intros]: "touches R c w (w_heap_update (h_dangle_update (\<lambda>d. d + c)) w)"
  by (simp add: touches_def)

lemma touches_reset [touches_intros]: "touches R c w w' \<Longrightarrow> region p n \<subseteq> R \<Longrightarrow> touches R c w (reset_heap_data K p pat n w')"
  unfolding touches_def by (metis reset_heap_data_outside reset_heap_data_simps subsetD)

lemma touches_mempatl [touches_intros]:
  "touches R c w w' \<Longrightarrow> region p n \<subseteq> R \<Longrightarrow> touches R c w (w_mem_update (\<lambda>m. mempatl m p pat n) w')"
  by (simp add: touches_def) (metis mempatl_outside subsetD)

lemma touches_memset [touches_intros]:
  "touches R c w w' \<Longrightarrow> region p n \<subseteq> R \<Longrightarrow> touches R c w (w_mem_update (\<lambda>m. memset m p b n) w')"
  by (auto simp: touches_def memset_in)

lemma touches_if [touches_intros]:
  "(b \<Longrightarrow> touches R c w x) \<Longrightarrow> (\<not> b \<Longrightarrow> touches R c w y) \<Longrightarrow> touches R c w (if b then x else y)"
  by simp

lemma block_parts:
  assumes "block_ok p n"
  shows "region p SIZEOF_MFREE \<subseteq> region p n" "region (p + SIZEOF_MFREE) (n - SIZEOF_MFREE) \<subseteq> region p n"
proof -
  have "SIZEOF_MFREE \<le> n" using assms by (simp add: block_ok_def SIZEOF_MFREE_def word_le_nat_alt)
  then show "region p SIZEOF_MFREE \<subseteq> region p n" "region (p + SIZEOF_MFREE) (n - SIZEOF_MFREE) \<subseteq> region p n"
    by (rule region_head, intro region_tail)
qed

lemmas region_node_parts = block_parts [OF block_ok_node, folded node_bytes_def]

lemma node_flags: "node_ok s \<Longrightarrow> has (mf_flags s) GFP_CALLOC \<longleftrightarrow> mf_flags s = GFP_CALLOC"
  by (auto simp: node_ok_def)

text \<open>The block and its lower neighbour, both zero, with the upper neighbour.\<close>

lemma free_low_zero:
  assumes K: "core_laws K own" and IH: "frees_below K own (card (nodes (w_heap w)))" and c: "card (nodes (w_heap w1)) < card (nodes (w_heap w))"
    and m: "merging S (node_bytes s) w w1" "S \<inter> free_bytes (w_heap w) = {}" "S \<subseteq> node_bytes s"
    and s: "block_ok (mf_self s) (mf_size s)" "mf_flags s = GFP_CALLOC" "mf_self s - 1 \<notin> free_bytes (w_heap w1)"
    and z: "\<And>x. x \<in> node_bytes s - header s \<Longrightarrow> w_mem w1 x = 0"
    and g: "\<And>t w2. node_ok t \<Longrightarrow> touches (node_bytes s \<union> node_bytes t) (mf_size t) w2 (g t w2)"
  shows "freed own flags S (sub_dangle d w)
    (hbind (heap_pop K (mf_self s + mf_size s) w1) (\<lambda>high w. case high of
       None \<Rightarrow> load_new_slot (heap_free_again K 0) K s flags d w
     | Some t \<Rightarrow>
        if has (mf_flags s) GFP_CALLOC \<and> has (mf_flags t) GFP_CALLOC
        then load_new_slot (heap_free_again K 0) K (s\<lparr>mf_size := mf_size s + mf_size t\<rparr>) flags d
               (w_mem_update (\<lambda>m. memset m (mf_self t) 0 SIZEOF_MFREE) w)
        else heap_free_again K (d + mf_size t) (mf_self s) (mf_size s + mf_size t) (flags AND NOT GFP_CALLOC) (g t w)))"
proof -
  have ok1: "heap_ok (w_heap w1)" "zero_ok w1" "region (mf_self s) (mf_size s) \<inter> free_bytes (w_heap w1) = {}"
    using m(1) by (simp_all add: merging_def node_bytes_def)
  show ?thesis
  proof (cases rule: pop_high [OF ok1(1,2) s(1) ok1(3), of K, case_names hit miss])
    case miss
    have "isolated (mf_self s) (mf_size s) (w_heap w1)" using ok1(3) s(3) miss(2) by (simp add: isolated_def)
    from load_merged [OF K m(1) touches_refl s(1) _ this] s(2) z miss(1) show ?thesis by simp
  next
    case (hit t w2)
    have t: "node_ok t" "isolated (mf_self t) (mf_size t) (w_heap w2)" "card (nodes (w_heap w2)) < card (nodes (w_heap w1))"
      "free_bytes (w_heap w1) = free_bytes (w_heap w2) \<union> node_bytes t" "\<And>x. x \<notin> free_bytes (w_heap w2) \<Longrightarrow> w_mem w2 x = w_mem w1 x"
      "mf_flags t = GFP_CALLOC \<Longrightarrow> x \<in> node_bytes t - header t \<Longrightarrow> w_mem w2 x = 0" for x
      using hit(2) by (simp_all add: taken_def)
    note ap = block_append [OF s(1), of "mf_size t", folded hit(3), OF block_ok_node [OF t(1)]]
    have T: "region (mf_self s) (mf_size s + mf_size t) = node_bytes s \<union> node_bytes t" using ap(2) by (simp add: node_bytes_def)
    note m2 = merging_take [OF m(1-3) hit(2)]
    show ?thesis
    proof (cases "mf_flags t = GFP_CALLOC")
      case False
      from again_merged [OF IH less_trans [OF t(3) c] m2 [folded T] ap(1), of "mf_size t" "g t w2"] g [OF t(1), of w2] False hit(1)
      show ?thesis by (simp add: node_flags [OF t(1)] T)
    next
      case True
      let ?n = "s\<lparr>mf_size := mf_size s + mf_size t\<rparr>" and ?w = "w_mem_update (\<lambda>m. memset m (mf_self t) 0 SIZEOF_MFREE) w2"
      have n: "node_bytes ?n = node_bytes s \<union> node_bytes t" "header ?n = header s" using T by (simp_all add: node_bytes_def header_def)
      have "isolated (mf_self ?n) (mf_size ?n) (w_heap w2)"
        using t(2,4) s(3) m2 T hit(3) by (auto simp: isolated_def merging_def add.assoc)
      moreover have "touches (node_bytes ?n) 0 w2 ?w" using region_node_parts(1) [OF t(1)] by (intro touches_intros) (auto simp: n)
      moreover have "w_mem ?w x = 0" if "x \<in> node_bytes ?n - header ?n" for x
      proof (cases "x \<in> node_bytes t")
        case False
        then have "x \<in> node_bytes s - header s" using that n by simp
        moreover have "x \<notin> free_bytes (w_heap w2)" using calculation m2 by (auto simp: merging_def)
        ultimately show ?thesis using z t(5) by (simp add: memset_in)
      qed (use t(6) True in \<open>auto simp: memset_in header_region\<close>)
      ultimately have "freed own flags S (sub_dangle d w) (load_new_slot (heap_free_again K 0) K ?n flags d ?w)"
        using load_merged [OF K m2 [folded n(1)], of ?w] ap(1) s(2) by simp
      with True s(2) hit(1) show ?thesis by simp
    qed
  qed
qed

text \<open>A block whose lower neighbour has been taken; \<open>T\<close> is what they are together.\<close>

lemma free_low:
  assumes K: "core_laws K own" and IH: "frees_below K own (card (nodes (w_heap w)))" and ok: "heap_ok (w_heap w)" "zero_ok w"
    and b: "block_ok p n" "region p n \<inter> free_bytes (w_heap w) = {}"
    and z: "\<And>x. has flags GFP_CALLOC \<Longrightarrow> x \<in> region p n \<Longrightarrow> w_mem w x = 0"
    and low: "heap_pop K (p - 1) w = Some (Inr (Some s), w1)" "taken s w w1" "mf_self s + mf_size s = p"
  shows "freed own flags (region p n) (sub_dangle d w) (heap_free_again K d p n flags w)"
proof -
  let ?T = "region (mf_self s) (mf_size s + n)"
  have s: "node_ok s" "isolated (mf_self s) (mf_size s) (w_heap w1)" "card (nodes (w_heap w1)) < card (nodes (w_heap w))"
    using low(2) by (simp_all add: taken_def)
  have ok1: "heap_ok (w_heap w1)" "zero_ok w1" using low(2) by (simp_all add: taken_def)
  note ap = block_append [OF block_ok_node [OF s(1)], of n, unfolded low(3), OF b(1)]
  have T: "?T = region p n \<union> node_bytes s" using ap(2) by (auto simp: node_bytes_def)
  have m: "merging (region p n) ?T w w1" unfolding T by (rule merging_take [OF merging_refl [OF ok b(2)] b(2) _ low(2)]) simp
  note sub = region_node_parts [OF s(1)]
  have asserts: "HEAP_MINSIZE \<le> n" "IS_ALIGNED p HEAP_ALIGNMENT" "IS_ALIGNED n HEAP_ALIGNMENT" "p < p + n"
    using b(1) by (simp_all add: block_ok_def fits_def)
  show ?thesis
  proof (cases "has flags GFP_CALLOC \<and> has (mf_flags s) GFP_CALLOC")
    case False
    have "freed own flags (region p n) (sub_dangle d w) (heap_free_again K (d + mf_size s) (mf_self s) (mf_size s + n) (flags AND NOT GFP_CALLOC) w2)"
      if "touches ?T (mf_size s) w1 w2" for w2
      by (rule again_merged [OF IH s(3) m ap(1) that])
    note step = this
    show ?thesis
      apply (subst heap_free_again.simps)
      apply (simp only: asserts low(1) hassert_simps hbind_simps option.case False if_False Let_def add.commute [of n])
      apply (rule step)
      apply (intro touches_intros)
      using sub T by auto
  next
    case True
    let ?s = "s\<lparr>mf_size := mf_size s + n\<rparr>"
    have ns: "node_bytes ?s = ?T" "header ?s = header s" "mf_self s + (mf_size s + n) = p + n"
      using low(3) by (simp_all add: node_bytes_def header_def add.assoc [symmetric])
    have fs: "mf_flags s = GFP_CALLOC" using True s(1) by (simp add: node_flags)
    have zs: "w_mem w1 x = 0" if "x \<in> node_bytes ?s - header ?s" for x
    proof (cases "x \<in> node_bytes s")
      case True
      then show ?thesis using that low(2) fs ns(2) by (simp add: taken_def)
    next
      case False
      then have "x \<in> region p n" using that T ns(1) by simp
      moreover have "x \<notin> free_bytes (w_heap w)" using calculation b(2) by blast
      ultimately show ?thesis using z True m by (simp add: merging_def)
    qed
    have e: "p + n = mf_self ?s + mf_size ?s" using ns(3) by simp
    have T1: "region p n \<subseteq> node_bytes ?s" "block_ok (mf_self ?s) (mf_size ?s)" "mf_flags ?s = GFP_CALLOC"
      "mf_self ?s - 1 \<notin> free_bytes (w_heap w1)" "region (mf_self ?s) SIZEOF_MFREE \<subseteq> node_bytes ?s"
      "region (mf_self ?s + SIZEOF_MFREE) (mf_size ?s - SIZEOF_MFREE) \<subseteq> node_bytes ?s"
      using T ns(1) ap(1) fs s(2) block_parts [OF ap(1)] by (simp_all add: isolated_def)
    show ?thesis
      apply (subst heap_free_again.simps)
      apply (simp only: asserts low(1) hassert_simps hbind_simps option.case True if_True simp_thms Let_def)
      apply (subst e)
      apply (rule free_low_zero [OF K IH s(3) m [folded ns(1)] b(2) T1(1-4) zs])
       apply assumption
      apply (intro touches_intros)
      using T1(5,6) by (auto dest: region_node_parts [THEN subsetD])
  qed
qed

text \<open>A block without a lower neighbour.\<close>

lemma free_no_low:
  assumes K: "core_laws K own" and IH: "frees_below K own (card (nodes (w_heap w)))" and ok: "heap_ok (w_heap w)" "zero_ok w"
    and b: "block_ok p n" "region p n \<inter> free_bytes (w_heap w) = {}"
    and z: "\<And>x. has flags GFP_CALLOC \<Longrightarrow> x \<in> region p n \<Longrightarrow> w_mem w x = 0"
    and low: "heap_pop K (p - 1) w = Some (Inr None, w)" "p - 1 \<notin> free_bytes (w_heap w)"
  shows "freed own flags (region p n) (sub_dangle d w) (heap_free_again K d p n flags w)"
proof -
  have asserts: "HEAP_MINSIZE \<le> n" "IS_ALIGNED p HEAP_ALIGNMENT" "IS_ALIGNED n HEAP_ALIGNMENT" "p < p + n"
    using b(1) by (simp_all add: block_ok_def fits_def)
  note m0 = merging_refl [OF ok b(2)]
  show ?thesis
  proof (cases rule: pop_high [OF ok b, of K, case_names hit miss])
    case miss
    let ?n = "new_node p n (flags AND GFP_CALLOC)"
    have n: "node_bytes ?n = region p n" by (simp add: node_bytes_def)
    have m1: "merging (region p n) (node_bytes ?n) w w" using m0 n by simp
    have "freed own flags (region p n) (sub_dangle d w) (load_new_slot (heap_free_again K 0) K ?n flags d w)"
      by (rule load_merged [OF K m1 touches_refl])
         (use b low(2) miss(2) z in \<open>auto simp: node_bytes_def and_CALLOC isolated_def split: if_splits\<close>)
    with asserts low(1) miss(1) show ?thesis by (subst heap_free_again.simps) simp
  next
    case (hit s w1)
    have s: "node_ok s" "isolated (mf_self s) (mf_size s) (w_heap w1)" "card (nodes (w_heap w1)) < card (nodes (w_heap w))"
      "free_bytes (w_heap w) = free_bytes (w_heap w1) \<union> node_bytes s" "\<And>x. x \<notin> free_bytes (w_heap w1) \<Longrightarrow> w_mem w1 x = w_mem w x"
      "mf_flags s = GFP_CALLOC \<Longrightarrow> x \<in> node_bytes s - header s \<Longrightarrow> w_mem w1 x = 0" for x
      using hit(2) by (simp_all add: taken_def)
    note ap = block_append [OF b(1), of "mf_size s", folded hit(3), OF block_ok_node [OF s(1)]]
    have T: "region p (n + mf_size s) = region p n \<union> node_bytes s" using ap(2) by (simp add: node_bytes_def)
    note m = merging_take [OF m0 b(2) subset_refl hit(2)]
    show ?thesis
    proof (cases "has (mf_flags s) GFP_CALLOC \<and> has flags GFP_CALLOC")
      case False
      note step = again_merged [OF IH s(3) m [folded T] ap(1)]
      show ?thesis
        apply (subst heap_free_again.simps)
        apply (simp only: asserts low(1) hit(1) hassert_simps hbind_simps option.case False if_False Let_def)
        apply (rule step)
        apply (intro touches_intros)
        using region_node_parts(1) [OF s(1)] T by (auto simp: node_bytes_def)
    next
      case True
      let ?n = "new_node p (mf_size s + n) (mf_flags s)" and ?w = "w_mem_update (\<lambda>m. memset m (mf_self s) 0 SIZEOF_MFREE) w1"
      have n: "node_bytes ?n = region p n \<union> node_bytes s" using T by (simp add: node_bytes_def add.commute)
      have fs: "mf_flags s = GFP_CALLOC" using True s(1) by (simp add: node_flags)
      have "isolated (mf_self ?n) (mf_size ?n) (w_heap w1)"
        using s(2,4) low(2) m n hit(3) by (auto simp: isolated_def merging_def node_bytes_def add_ac)
      moreover have "touches (node_bytes ?n) 0 w1 ?w" using region_node_parts(1) [OF s(1)] by (intro touches_intros) (auto simp: n)
      moreover have "w_mem ?w x = 0" if "x \<in> node_bytes ?n - header ?n" for x
      proof (cases "x \<in> node_bytes s")
        case False
        then have "x \<in> region p n" using that n by simp
        moreover have "x \<notin> free_bytes (w_heap w)" using calculation b(2) by blast
        ultimately show ?thesis using z True m by (simp add: memset_in merging_def)
      qed (use s(6) fs in \<open>auto simp: memset_in header_region\<close>)
      ultimately have "freed own flags (region p n) (sub_dangle d w) (load_new_slot (heap_free_again K 0) K ?n flags d ?w)"
        using load_merged [OF K m [folded n], of ?w] ap(1) fs by (simp add: add.commute)
      then show ?thesis using asserts low(1) hit(1) True by (subst heap_free_again.simps) (simp add: Let_def)
    qed
  qed
qed

lemma free_again_spec: "core_laws K own \<Longrightarrow> frees_below K own N"
proof (induction N rule: less_induct)
  case (less N)
  show ?case unfolding frees_below_def
  proof (intro allI impI)
    fix w :: "'a world" and d p n flags
    assume a: "card (nodes (w_heap w)) < N" "heap_ok (w_heap w)" "zero_ok w" "block_ok p n" "region p n \<inter> free_bytes (w_heap w) = {}"
      "has flags GFP_CALLOC \<longrightarrow> (\<forall>x \<in> region p n. w_mem w x = 0)"
    note IH = less.IH [OF a(1) less.prems]
    have z: "has flags GFP_CALLOC \<Longrightarrow> x \<in> region p n \<Longrightarrow> w_mem w x = 0" for x using a(6) by blast
    show "freed own flags (region p n) (sub_dangle d w) (heap_free_again K d p n flags w)"
    proof (cases rule: pop_low [OF a(2-5), of K, case_names hit miss])
      case (hit s w1)
      then show ?thesis by (intro free_low [OF less.prems IH a(2-5)] z)
    next
      case miss
      then show ?thesis by (intro free_no_low [OF less.prems IH a(2-5)] z)
    qed
  qed
qed

lemma heap_free_raw_spec:
  assumes "core_laws K own" "heap_ok (w_heap w)" "zero_ok w" "block_ok p n" "region p n \<inter> free_bytes (w_heap w) = {}"
    "\<And>x. has flags GFP_CALLOC \<Longrightarrow> x \<in> region p n \<Longrightarrow> w_mem w x = 0"
  shows "freed own flags (region p n) w (heap_free_raw K p n flags w)"
  using free_again_spec [OF assms(1), of "Suc (card (nodes (w_heap w)))", unfolded frees_below_def, rule_format, of w p n flags 0] assms
  by (simp add: heap_free_raw_def)

end
