(* ===== verification/Heap_Runs.thy ===== *)
theory Heap_Runs
  imports Heap_Free
begin

text \<open>
  Rules to run the code of the heap: triples with a postcondition for values and one for exceptions, which rule out failed
  assertions and code that does not return, and the invariant that they are about.
\<close>

section \<open>Triples\<close>

definition runs :: "('v, 'a) hres \<Rightarrow> (kos_error \<Rightarrow> 'v world \<Rightarrow> bool) \<Rightarrow> ('a \<Rightarrow> 'v world \<Rightarrow> bool) \<Rightarrow> bool" where
  "runs m E P \<longleftrightarrow> (case m of None \<Rightarrow> False | Some (Inl e, w) \<Rightarrow> e \<noteq> E_ASSERT \<and> E e w | Some (Inr x, w) \<Rightarrow> P x w)"

lemma runs_cases:
  assumes "runs m E P"
  obtains (returns) x w where "m = Some (Inr x, w)" "P x w" | (throws) e w where "m = Some (Inl e, w)" "e \<noteq> E_ASSERT" "E e w"
  using assms by (cases m; cases "the m"; cases "fst (the m)") (auto simp: runs_def)

lemma runs_value [simp]: "runs (Some (Inr x, w)) E P \<longleftrightarrow> P x w"
  by (simp add: runs_def)

lemma runs_error [simp]: "runs (Some (Inl e, w)) E P \<longleftrightarrow> e \<noteq> E_ASSERT \<and> E e w"
  by (simp add: runs_def)

lemma runs_hbind: "runs m E Q \<Longrightarrow> (\<And>x w. Q x w \<Longrightarrow> runs (f x w) E P) \<Longrightarrow> runs (hbind m f) E P"
  by (erule runs_cases) simp_all

lemma runs_hassert: "b \<Longrightarrow> runs m E P \<Longrightarrow> runs (hassert b w m) E P"
  by simp

lemma runs_hcatch: "runs m E' P \<Longrightarrow> (\<And>e w. E' e w \<Longrightarrow> e \<noteq> E_ASSERT \<Longrightarrow> runs (f e w) E P) \<Longrightarrow> runs (hcatch m f) E P"
  by (erule runs_cases) simp_all

lemma runs_weaken: "runs m E P \<Longrightarrow> (\<And>x w. P x w \<Longrightarrow> Q x w) \<Longrightarrow> (\<And>e w. E e w \<Longrightarrow> e \<noteq> E_ASSERT \<Longrightarrow> F e w) \<Longrightarrow> runs m F Q"
  by (erule runs_cases) simp_all

section \<open>The invariant\<close>

text \<open>
  \<open>L\<close> are the bytes that have been handed out. Together with the free bytes they are the pages that are
  mapped for the heap: no byte is in both, and none is lost. None of them is reserved for the page directory.
\<close>

definition sound :: "('v \<Rightarrow> 32 word set) \<Rightarrow> key set \<Rightarrow> 'v world \<Rightarrow> bool" where
  "sound own L w \<longleftrightarrow> heap_ok (w_heap w) \<and> zero_ok w \<and> free_bytes (w_heap w) \<union> L = page_bytes (own (w_vm w)) \<and> free_bytes (w_heap w) \<inter> L = {} \<and>
     (\<forall>p \<in> own (w_vm w). unat p < kernel_pages)"

definition after :: "('v \<Rightarrow> 32 word set) \<Rightarrow> key set \<Rightarrow> key set \<Rightarrow> 'v world \<Rightarrow> 'v world \<Rightarrow> bool" where
  "after own F L w w' \<longleftrightarrow> sound own L w' \<and> same_config (w_heap w) (w_heap w') \<and> (\<forall>x \<in> F. w_mem w' x = w_mem w x)"

lemma after_refl: "sound own L w \<Longrightarrow> after own F L w w"
  by (simp add: after_def same_config_def)

lemma after_trans: "after own F L u v \<Longrightarrow> after own F L' v w \<Longrightarrow> after own F L' u w"
  by (auto simp: after_def same_config_def)

lemma after_mono: "after own F L v w \<Longrightarrow> G \<subseteq> F \<Longrightarrow> after own G L v w"
  by (auto simp: after_def)

lemma sound_gives:
  assumes "sound own L w" "gives own S w w'" "S \<subseteq> L"
  shows "after own (L - S) (L - S) w w'"
proof -
  obtain R where R: "own (w_vm w') = own (w_vm w) - R" "page_bytes R \<subseteq> free_bytes (w_heap w) \<union> S"
      "free_bytes (w_heap w') = (free_bytes (w_heap w) \<union> S) - page_bytes R"
    using assms(2) unfolding gives_def by blast
  have s: "free_bytes (w_heap w) \<union> L = page_bytes (own (w_vm w))" "free_bytes (w_heap w) \<inter> L = {}"
    using assms(1) by (simp_all add: sound_def)
  have "page_bytes (own (w_vm w')) = page_bytes (own (w_vm w)) - page_bytes R" by (simp add: R(1))
  then have "free_bytes (w_heap w') \<union> (L - S) = page_bytes (own (w_vm w'))" "free_bytes (w_heap w') \<inter> (L - S) = {}"
    using R(2,3) s assms(3) by auto
  moreover have "\<forall>x \<in> L - S. w_mem w' x = w_mem w x" using assms(2) s(2) unfolding gives_def by blast
  moreover have "\<forall>p \<in> own (w_vm w'). unat p < kernel_pages" using assms(1) by (simp add: sound_def R(1))
  ultimately show ?thesis using assms(2) by (simp add: after_def sound_def gives_def)
qed

lemma sound_taken:
  assumes "sound own L w" "taken s w w'"
  shows "after own L (L \<union> node_bytes s) w w'"
proof -
  have t: "free_bytes (w_heap w) = free_bytes (w_heap w') \<union> node_bytes s" "node_bytes s \<inter> free_bytes (w_heap w') = {}"
      "\<And>x. x \<notin> free_bytes (w_heap w') \<Longrightarrow> w_mem w' x = w_mem w x" "w_vm w' = w_vm w" "heap_ok (w_heap w')" "zero_ok w'"
      "same_rest (w_heap w) (w_heap w')"
    using assms(2) by (simp_all add: taken_def isolated_def node_bytes_def)
  have s: "free_bytes (w_heap w) \<union> L = page_bytes (own (w_vm w))" "free_bytes (w_heap w) \<inter> L = {}" "\<forall>p \<in> own (w_vm w). unat p < kernel_pages"
    using assms(1) by (simp_all add: sound_def)
  have "\<forall>x \<in> L. w_mem w' x = w_mem w x" using s(2) t(1,3) by auto
  then show ?thesis using s t unfolding after_def sound_def same_config_def same_rest_def by auto
qed

lemma sound_touches:
  assumes "sound own L w" "touches R 0 w w'" "R \<subseteq> L"
  shows "after own (L - R) L w w'"
proof -
  have "R \<inter> free_bytes (w_heap w) = {}" using assms(1,3) by (auto simp: sound_def)
  with assms(1) have "zero_ok w'" using touches_zero_ok [OF assms(2)] by (simp add: sound_def)
  then show ?thesis using assms(1,2) touches_simps [OF assms(2)]
    by (simp add: after_def sound_def same_config_def) (simp add: touches_def)
qed

text \<open>Counting dangling bytes.\<close>

lemma sound_dangle [simp]: "sound own L (w_heap_update (h_dangle_update f) w) = sound own L w"
  by (simp add: sound_def heap_ok_def linked_def merged_def zero_ok_def free_bytes_def nodes_def)

lemma sound_w_vm: "own v = own (w_vm w) \<Longrightarrow> sound own L (w\<lparr>w_vm := v\<rparr>) = sound own L w"
  by (simp add: sound_def zero_ok_def)

lemma sound_hint [simp]: "sound own L (w_heap_update (h_hintpage_update f) w) = sound own L w"
  by (simp add: sound_def heap_ok_def linked_def merged_def zero_ok_def free_bytes_def nodes_def)

section \<open>Free\<close>

abbreviation no_error :: "kos_error \<Rightarrow> 'v world \<Rightarrow> bool" where "no_error \<equiv> \<lambda>_ _. False"

lemma freed_runs:
  assumes "freed own flags S w r" "sound own L w" "S \<subseteq> L"
  shows "runs r no_error (\<lambda>_ w'. after own (L - S) (L - S) w w')"
proof -
  obtain w' where "r = Some (Inr (), w')" "gives own S w w'" using assms(1) unfolding freed_def by blast
  with sound_gives [OF assms(2) this(2) assms(3)] show ?thesis by simp
qed

lemma runs_heap_free_raw:
  assumes K: "core_laws K own" and s: "sound own L w" and b: "block_ok p n" "region p n \<subseteq> L"
    and z: "\<And>x. has flags GFP_CALLOC \<Longrightarrow> x \<in> region p n \<Longrightarrow> w_mem w x = 0"
  shows "runs (heap_free_raw K p n flags w) no_error (\<lambda>_ w'. after own (L - region p n) (L - region p n) w w')"
proof (rule freed_runs [OF heap_free_raw_spec [OF K _ _ b(1) _ z] s b(2)])
  show "heap_ok (w_heap w)" "zero_ok w" "region p n \<inter> free_bytes (w_heap w) = {}" using s b(2) by (auto simp: sound_def)
qed

text \<open>A free after writes to the block.\<close>

lemma runs_heap_free_touched:
  assumes K: "core_laws K own" and s: "sound own L w" and b: "block_ok p n" "region p n \<subseteq> L" and t: "touches (region p n) 0 w v"
    and z: "\<And>x. has flags GFP_CALLOC \<Longrightarrow> x \<in> region p n \<Longrightarrow> w_mem v x = 0"
  shows "runs (heap_free_raw K p n flags v) no_error (\<lambda>_ w'. after own (L - region p n) (L - region p n) w w')"
proof -
  note a = sound_touches [OF s t b(2)]
  have "sound own L v" using a by (simp add: after_def)
  from runs_heap_free_raw [OF K this b z] show ?thesis
    by (rule runs_weaken) (use a in \<open>auto simp: after_def same_config_def\<close>)
qed

lemma block_ok_asserts: "block_ok p n \<Longrightarrow> HEAP_MINSIZE \<le> n \<and> IS_ALIGNED p HEAP_ALIGNMENT \<and> IS_ALIGNED n HEAP_ALIGNMENT"
  by (simp add: block_ok_def)

lemma runs_heap_free_untraced:
  assumes K: "core_laws K own" and s: "sound own L w" and b: "block_ok p n" "region p n \<subseteq> L"
    and z: "\<And>x. has flags GFP_CALLOC \<Longrightarrow> x \<in> region p n \<Longrightarrow> w_mem w x = 0"
  shows "runs (heap_free_untraced K p n flags w) no_error (\<lambda>_ w'. after own (L - region p n) (L - region p n) w w')"
proof -
  let ?v = "if has flags GFP_CALLOC then w else reset_heap_data K p DEBUGHEAP_NO_MANS_LAND n w"
  have "touches (region p n) 0 w ?v" by (intro touches_intros) simp_all
  from runs_heap_free_touched [OF K s b this, of flags] z block_ok_asserts [OF b(1)] show ?thesis
    by (auto simp: heap_free_untraced_def)
qed

lemma runs_heap_free_overallocation:
  assumes K: "core_laws K own" and s: "sound own L w" and b: "block_ok p n" "region p n \<subseteq> L"
    and z: "\<And>x. has flags GFP_CALLOC \<Longrightarrow> x \<in> region p n \<Longrightarrow> w_mem w x = 0"
  shows "runs (heap_free_overallocation K base p n flags w) no_error (\<lambda>_ w'. after own (L - region p n) (L - region p n) w w')"
  unfolding heap_free_overallocation_def Let_def
  by (intro runs_hassert runs_heap_free_touched [OF K s b] touches_intros)
     (use z b(1) in \<open>auto simp: block_ok_def dest: region_head [THEN subsetD]\<close>)

end
