(* ===== verification/Heap_Alloc.thy ===== *)
theory Heap_Alloc
  imports Heap_Runs
begin

text \<open>
  What allocation does: which node the search finds, and that the block that it returns is aligned, large enough, disjoint from
  all others, and zero if that was asked for.
\<close>

section \<open>Searching\<close>

lemma chain_search_spec:
  assumes "\<forall>n \<in> set xs. IS_ALIGNED (mf_size n) HEAP_ALIGNMENT" "sorted (map mf_size xs)"
  shows "\<exists>r. chain_search siz xs = Inr r \<and> (r = None \<longrightarrow> (\<forall>n \<in> set xs. mf_size n < siz)) \<and>
    (\<forall>c. r = Some c \<longrightarrow> c \<in> set xs \<and> siz \<le> mf_size c \<and> (\<forall>n \<in> set xs. siz \<le> mf_size n \<longrightarrow> mf_size c \<le> mf_size n))"
  using assms by (induction xs) auto

lemma bucket_search_spec:
  assumes "\<forall>b \<in> set bs. (\<forall>n \<in> set b. IS_ALIGNED (mf_size n) HEAP_ALIGNMENT) \<and> sorted (map mf_size b)"
  shows "\<exists>r. bucket_search usable siz bs = Inr r \<and> (\<forall>c. r = Some c \<longrightarrow> c \<in> set (concat bs) \<and> siz \<le> mf_size c \<and> usable c)"
  using assms
proof (induction bs)
  case (Cons b bs)
  obtain r where "chain_search siz b = Inr r" "\<forall>c. r = Some c \<longrightarrow> c \<in> set b \<and> siz \<le> mf_size c"
    using chain_search_spec [of b siz] Cons.prems by auto
  moreover obtain r' where "bucket_search usable siz bs = Inr r'" "\<forall>c. r' = Some c \<longrightarrow> c \<in> set (concat bs) \<and> siz \<le> mf_size c \<and> usable c"
    using Cons by auto
  ultimately show ?case by (auto split: option.splits)
qed simp

definition size_ordered :: "mfree list \<Rightarrow> mfree list \<Rightarrow> bool" where
  "size_ordered xs ys \<longleftrightarrow> (\<forall>a \<in> set xs. \<forall>b \<in> set ys. mf_size a \<le> mf_size b)"

lemma bucket_search_best:
  assumes "\<forall>b \<in> set bs. (\<forall>n \<in> set b. IS_ALIGNED (mf_size n) HEAP_ALIGNMENT) \<and> sorted (map mf_size b)" "sorted_wrt size_ordered bs"
  shows "\<exists>r. bucket_search (\<lambda>_. True) siz bs = Inr r \<and> (r = None \<longrightarrow> (\<forall>n \<in> set (concat bs). mf_size n < siz)) \<and>
    (\<forall>c. r = Some c \<longrightarrow> c \<in> set (concat bs) \<and> siz \<le> mf_size c \<and> (\<forall>n \<in> set (concat bs). siz \<le> mf_size n \<longrightarrow> mf_size c \<le> mf_size n))"
  using assms
proof (induction bs)
  case (Cons b bs)
  obtain r where r: "chain_search siz b = Inr r" "r = None \<longrightarrow> (\<forall>n \<in> set b. mf_size n < siz)"
      "\<forall>c. r = Some c \<longrightarrow> c \<in> set b \<and> siz \<le> mf_size c \<and> (\<forall>n \<in> set b. siz \<le> mf_size n \<longrightarrow> mf_size c \<le> mf_size n)"
    using chain_search_spec [of b siz] Cons.prems by auto
  show ?case
  proof (cases r)
    case (Some c)
    then show ?thesis using r Cons.prems(2) by (auto simp: size_ordered_def)
  next
    case None
    then have b: "\<forall>n \<in> set b. mf_size n < siz" using r(2) by simp
    from Cons.IH Cons.prems obtain r' where "bucket_search (\<lambda>_. True) siz bs = Inr r'" "r' = None \<longrightarrow> (\<forall>n \<in> set (concat bs). mf_size n < siz)"
      "\<forall>c. r' = Some c \<longrightarrow> c \<in> set (concat bs) \<and> siz \<le> mf_size c \<and> (\<forall>n \<in> set (concat bs). siz \<le> mf_size n \<longrightarrow> mf_size c \<le> mf_size n)"
      by auto
    with b r(1) None show ?thesis by (auto dest: leD)
  qed
qed simp

lemma linked_buckets:
  assumes "linked h"
  shows "\<forall>b \<in> set (drop i (h_size h)). (\<forall>n \<in> set b. IS_ALIGNED (mf_size n) HEAP_ALIGNMENT) \<and> sorted (map mf_size b)"
    "sorted_wrt size_ordered (h_size h)"
proof -
  have ok: "buckets_ok (h_size h)" "\<And>n. n \<in> nodes h \<Longrightarrow> node_ok n" using assms by (simp_all add: linked_def)
  show "\<forall>b \<in> set (drop i (h_size h)). (\<forall>n \<in> set b. IS_ALIGNED (mf_size n) HEAP_ALIGNMENT) \<and> sorted (map mf_size b)"
  proof (intro ballI conjI)
    fix b assume "b \<in> set (drop i (h_size h))"
    then have b: "b \<in> set (h_size h)" by (rule in_set_dropD)
    then show "IS_ALIGNED (mf_size n) HEAP_ALIGNMENT" if "n \<in> set b" for n
      using that ok(2) [of n] by (auto simp: nodes_def node_ok_def)
    show "sorted (map mf_size b)" using b ok(1) by (auto simp: buckets_ok_def in_set_conv_nth)
  qed
  have "mf_size a \<le> mf_size b" if "i < j" "j < length (h_size h)" "a \<in> set (h_size h ! i)" "b \<in> set (h_size h ! j)" for i j a b
  proof (rule ccontr)
    assume "\<not> mf_size a \<le> mf_size b"
    moreover have "node_ok b" using that ok(2) by (auto simp: nodes_iff)
    ultimately have "HEAP_BUCKET_OF (mf_size b) \<le> HEAP_BUCKET_OF (mf_size a)"
      using node_ok_size [of b] by (intro HEAP_BUCKET_OF_mono) auto
    moreover have "HEAP_BUCKET_OF (mf_size a) = i" "HEAP_BUCKET_OF (mf_size b) = j"
      using that ok(1) less_trans [OF that(1,2)] by (simp_all add: buckets_ok_def)
    ultimately show False using that(1) by simp
  qed
  then show "sorted_wrt size_ordered (h_size h)" by (auto simp: sorted_wrt_iff_nth_less size_ordered_def)
qed

lemma nodes_drop:
  assumes "linked h" "n \<in> nodes h" "siz \<le> mf_size n" "16 \<le> unat siz"
  shows "n \<in> set (concat (drop (HEAP_BUCKET_OF siz) (h_size h)))"
proof -
  let ?i = "HEAP_BUCKET_OF siz" and ?j = "HEAP_BUCKET_OF (mf_size n)"
  have j: "?j < length (h_size h)" "n \<in> set (h_size h ! ?j)" using buckets_where [of h n] assms by (simp_all add: linked_def)
  have "?i \<le> ?j" using assms(3,4) by (intro HEAP_BUCKET_OF_mono)
  then have "h_size h ! ?j = drop ?i (h_size h) ! (?j - ?i)" "?j - ?i < length (drop ?i (h_size h))" using j(1) by auto
  then have "h_size h ! ?j \<in> set (drop ?i (h_size h))" by (metis nth_mem)
  with j(2) show ?thesis by auto
qed

lemma heap_best_fit:
  assumes "linked h" "16 \<le> unat siz"
  shows "\<exists>r. bucket_search (\<lambda>_. True) siz (drop (HEAP_BUCKET_OF siz) (h_size h)) = Inr r \<and> (r = None \<longrightarrow> (\<forall>n \<in> nodes h. mf_size n < siz)) \<and>
    (\<forall>c. r = Some c \<longrightarrow> c \<in> nodes h \<and> siz \<le> mf_size c \<and> (\<forall>n \<in> nodes h. siz \<le> mf_size n \<longrightarrow> mf_size c \<le> mf_size n))"
proof -
  let ?bs = "drop (HEAP_BUCKET_OF siz) (h_size h)"
  have sub: "set (concat ?bs) \<subseteq> nodes h" by (auto simp: nodes_def dest: in_set_dropD)
  have sw: "sorted_wrt size_ordered ?bs" using linked_buckets(2) [OF assms(1)] by (simp add: sorted_wrt_drop)
  from bucket_search_best [OF linked_buckets(1) [OF assms(1)] sw, of siz]
  obtain r where r: "bucket_search (\<lambda>_. True) siz ?bs = Inr r" "r = None \<longrightarrow> (\<forall>n \<in> set (concat ?bs). mf_size n < siz)"
      "\<forall>c. r = Some c \<longrightarrow> c \<in> set (concat ?bs) \<and> siz \<le> mf_size c \<and> (\<forall>n \<in> set (concat ?bs). siz \<le> mf_size n \<longrightarrow> mf_size c \<le> mf_size n)"
    by blast
  have in_bs: "n \<in> set (concat ?bs)" if "n \<in> nodes h" "siz \<le> mf_size n" for n using nodes_drop [OF assms(1) that assms(2)] .
  have none: "r = None \<longrightarrow> (\<forall>n \<in> nodes h. mf_size n < siz)" using r(2) in_bs by (meson not_less)
  have some: "\<forall>c. r = Some c \<longrightarrow> c \<in> nodes h \<and> siz \<le> mf_size c \<and> (\<forall>n \<in> nodes h. siz \<le> mf_size n \<longrightarrow> mf_size c \<le> mf_size n)"
    using r(3) in_bs sub by blast
  show ?thesis using r(1) none some by blast
qed

section \<open>Splitting blocks\<close>

lemma unat_floor_16: "unat (x AND NOT (HEAP_ALIGNMENT - 1)) = 16 * (unat x div 16)"
proof -
  have "(mask 4 :: 32 word) = 15" by (simp add: mask_numeral)
  then have "HEAP_ALIGNMENT - 1 = (mask 4 :: 32 word)" by (simp add: HEAP_ALIGNMENT_def)
  moreover have "x AND NOT (mask 4) = push_bit 4 (drop_bit 4 x)"
    by (rule bit_word_eqI) (auto simp: bit_and_iff bit_not_iff bit_mask_iff bit_push_bit_iff bit_drop_bit_eq)
  moreover have "unat (push_bit 4 (drop_bit 4 x)) = 16 * (unat x div 16)"
    using unat_less_2_32 [of x] by (simp add: push_bit_eq_mult drop_bit_eq_div unat_word_ariths(2) unat_div)
  ultimately show ?thesis by simp
qed

lemma block_split:
  assumes b: "block_ok p n" and k: "k \<le> n" "IS_ALIGNED k HEAP_ALIGNMENT"
  shows "unat (n - k) = unat n - unat k" "unat (p + k) = unat p + unat k" "IS_ALIGNED (n - k) HEAP_ALIGNMENT" "IS_ALIGNED (p + k) HEAP_ALIGNMENT"
    "region p n = region p k \<union> region (p + k) (n - k)" "region p k \<inter> region (p + k) (n - k) = {}"
    "HEAP_MINSIZE \<le> k \<Longrightarrow> block_ok p k" "HEAP_MINSIZE \<le> n - k \<Longrightarrow> block_ok (p + k) (n - k)"
proof -
  have f: "unat p + unat n < 2 ^ 32" "unat k \<le> unat n" "32 \<le> unat n" using b k(1) by (simp_all add: block_ok_def fits_iff word_le_nat_alt)
  show u: "unat (n - k) = unat n - unat k" "unat (p + k) = unat p + unat k"
    using f by (simp_all add: unat_sub_le unat_add_32)
  have d: "16 dvd unat p" "16 dvd unat n" "16 dvd unat k" using b k(2) by (simp_all add: block_ok_def aligned_16)
  then show al: "IS_ALIGNED (n - k) HEAP_ALIGNMENT" "IS_ALIGNED (p + k) HEAP_ALIGNMENT"
    by (simp_all add: aligned_16 u dvd_diff_nat)
  show "region p n = region p k \<union> region (p + k) (n - k)" "region p k \<inter> region (p + k) (n - k) = {}"
    using f u by (auto simp: in_region)
  show "HEAP_MINSIZE \<le> k \<Longrightarrow> block_ok p k" "HEAP_MINSIZE \<le> n - k \<Longrightarrow> block_ok (p + k) (n - k)"
    using b k(2) al f u by (auto simp: block_ok_def fits_iff word_le_nat_alt)
qed

section \<open>Allocation from a node\<close>

definition allocated :: "('v \<Rightarrow> 32 word set) \<Rightarrow> key set \<Rightarrow> gfp \<Rightarrow> 32 word \<Rightarrow> 'v world \<Rightarrow> heapptr \<Rightarrow> 'v world \<Rightarrow> bool" where
  "allocated own L flags num w b w' \<longleftrightarrow> block_ok (hp_ptr b) (hp_siz b) \<and> num \<le> hp_siz b \<and> region (hp_ptr b) (hp_siz b) \<inter> L = {} \<and>
     after own L (L \<union> region (hp_ptr b) (hp_siz b)) w w' \<and>
     (has flags GFP_CALLOC \<longrightarrow> (\<forall>x \<in> region (hp_ptr b) (hp_siz b). w_mem w' x = 0))"

text \<open>What \<open>heap_split_chain\<close> leaves of a node that has been taken: the block, zero after its header if the node was.\<close>

definition splits :: "('v \<Rightarrow> 32 word set) \<Rightarrow> key set \<Rightarrow> 32 word \<Rightarrow> mfree \<Rightarrow> 'v world \<Rightarrow> heapptr \<Rightarrow> 'v world \<Rightarrow> bool" where
  "splits own L siz c w b w' \<longleftrightarrow> block_ok (hp_ptr b) (hp_siz b) \<and> siz \<le> hp_siz b \<and> region (hp_ptr b) (hp_siz b) \<subseteq> node_bytes c \<and>
     after own L (L \<union> region (hp_ptr b) (hp_siz b)) w w' \<and>
     (mf_flags c = GFP_CALLOC \<longrightarrow> (\<forall>x \<in> region (hp_ptr b) (hp_siz b) - region (hp_ptr b) SIZEOF_MFREE. w_mem w' x = 0))"

lemma runs_free_tail:
  assumes K: "core_laws K own" and s: "sound own (L \<union> region p n) w" "L \<inter> region p n = {}" and b: "block_ok p n"
    and k: "HEAP_MINSIZE \<le> k" "k \<le> n" "IS_ALIGNED k HEAP_ALIGNMENT" "HEAP_MINSIZE \<le> n - k"
    and z: "\<And>x. has flags GFP_CALLOC \<Longrightarrow> x \<in> region (p + k) (n - k) \<Longrightarrow> w_mem w x = 0"
  shows "runs (heap_free_overallocation K base (p + k) (n - k) flags w) no_error
    (\<lambda>_ w'. after own (L \<union> region p k) (L \<union> region p k) w w')"
proof -
  note sp = block_split [OF b k(2,3)]
  have "L \<union> region p n - region (p + k) (n - k) = L \<union> region p k" using sp(5,6) s(2) by blast
  with runs_heap_free_overallocation [OF K s(1) sp(8) [OF k(4)] _ z] sp(5) show ?thesis by auto
qed

lemma after_w_vm [simp]: "after own F L (w\<lparr>w_vm := v\<rparr>) = after own F L w"
  by (simp add: after_def fun_eq_iff)

lemma splits_w_vm [simp]: "splits own L siz c (w\<lparr>w_vm := v\<rparr>) = splits own L siz c w"
  by (simp add: splits_def fun_eq_iff)

lemma touches_zero_or_pattern [touches_intros]:
  "touches R c w w' \<Longrightarrow> region p SIZEOF_MFREE \<subseteq> R \<Longrightarrow> touches R c w (zero_or_pattern flags p w')"
  unfolding zero_or_pattern_def by (cases "has flags GFP_CALLOC") (auto intro: touches_intros)

text \<open>A block at the start of a range, with the rest of the range freed if it is large enough.\<close>

lemma runs_split_tail:
  assumes K: "core_laws K own" and s: "sound own (L \<union> region p n) w" "L \<inter> region p n = {}" and b: "block_ok p n" "region p n \<subseteq> node_bytes c"
    and k: "HEAP_MINSIZE \<le> k" "k \<le> n" "IS_ALIGNED k HEAP_ALIGNMENT" and fl: "has flags GFP_CALLOC \<longleftrightarrow> mf_flags c = GFP_CALLOC"
    and z: "\<And>x. mf_flags c = GFP_CALLOC \<Longrightarrow> x \<in> region p n - region p SIZEOF_MFREE \<Longrightarrow> w_mem w x = 0"
  shows "runs (if n - k < HEAP_MINSIZE then Some (Inr \<lparr>hp_ptr = p, hp_siz = k + (n - k)\<rparr>, w)
      else hbind (heap_free_overallocation K p (p + k) (n - k) flags w) (\<lambda>_ w. Some (Inr \<lparr>hp_ptr = p, hp_siz = k\<rparr>, w)))
    no_error (splits own L k c w)"
proof (cases "n - k < HEAP_MINSIZE")
  case True
  then show ?thesis using s b k z after_refl [OF s(1), of L] by (simp add: splits_def)
next
  case False
  note sp = block_split [OF b(1) k(2,3)]
  have hd: "region p SIZEOF_MFREE \<subseteq> region p k" using block_parts(1) [OF sp(7) [OF k(1)]] .
  have z': "\<And>x. has flags GFP_CALLOC \<Longrightarrow> x \<in> region (p + k) (n - k) \<Longrightarrow> w_mem w x = 0" using z fl hd sp(5,6) by blast
  have "runs (heap_free_overallocation K p (p + k) (n - k) flags w) no_error (\<lambda>_ w'. after own (L \<union> region p k) (L \<union> region p k) w w')"
    by (rule runs_free_tail [OF K s b(1) k(1-3) _ z']) (use False in auto)
  then have "runs (hbind (heap_free_overallocation K p (p + k) (n - k) flags w) (\<lambda>_ w. Some (Inr \<lparr>hp_ptr = p, hp_siz = k\<rparr>, w))) no_error (splits own L k c w)"
    by (rule runs_hbind) (use sp(5,7) k(1) b(2) z in \<open>auto simp: splits_def after_def\<close>)
  with False show ?thesis by simp
qed

text \<open>The bytes of a node below a block, freed; and then the rest of it.\<close>

lemma runs_free_head:
  assumes K: "core_laws K own" and s: "sound own (L \<union> node_bytes c) w" "L \<inter> node_bytes c = {}" and c: "node_ok c"
    and q: "HEAP_MINSIZE \<le> q" "q \<le> mf_size c" "IS_ALIGNED q HEAP_ALIGNMENT" and fl: "has fl GFP_CALLOC \<longleftrightarrow> mf_flags c = GFP_CALLOC"
    and z: "\<And>x. mf_flags c = GFP_CALLOC \<Longrightarrow> x \<in> node_bytes c - header c \<Longrightarrow> w_mem w x = 0"
  shows "runs (heap_free_raw K (mf_self c) q fl (zero_or_pattern (mf_flags c) (mf_self c) w)) no_error
    (\<lambda>_ w'. after own (L \<union> region (mf_self c + q) (mf_size c - q)) (L \<union> region (mf_self c + q) (mf_size c - q)) w w')"
proof -
  let ?p = "mf_self c" and ?n = "mf_size c" and ?v = "zero_or_pattern (mf_flags c) (mf_self c) w"
  note sp = block_split [OF block_ok_node [OF c] q(2,3)]
  have nb: "node_bytes c = region ?p ?n" by (simp add: node_bytes_def)
  have lo: "region ?p SIZEOF_MFREE \<subseteq> region ?p q" using block_parts(1) [OF sp(7) [OF q(1)]] .
  have t: "touches (region ?p q) 0 w ?v" by (intro touches_intros lo)
  have zv: "w_mem ?v x = 0" if "has fl GFP_CALLOC" "x \<in> region ?p q" for x
    using that z [of x] fl sp(5) by (cases "x \<in> header c") (auto simp: zero_or_pattern_mem header_region nb)
  have L: "L \<union> node_bytes c - region ?p q = L \<union> region (?p + q) (?n - q)" using sp(5,6) s(2) by (auto simp: nb)
  show ?thesis
    using runs_heap_free_touched [OF K s(1) sp(7) [OF q(1)] _ t zv] sp(5) unfolding L by (simp add: nb le_supI2)
qed

lemma runs_split_rest:
  assumes K: "core_laws K own" and c: "node_ok c" "L \<inter> node_bytes c = {}" and q: "q \<le> mf_size c" "IS_ALIGNED q HEAP_ALIGNMENT" "q = 0 \<or> HEAP_MINSIZE \<le> q"
    and k: "HEAP_MINSIZE \<le> siz" "siz \<le> mf_size c - q" "IS_ALIGNED siz HEAP_ALIGNMENT" and fl: "has fl GFP_CALLOC \<longleftrightarrow> mf_flags c = GFP_CALLOC"
    and z: "\<And>x. mf_flags c = GFP_CALLOC \<Longrightarrow> x \<in> node_bytes c - header c \<Longrightarrow> w_mem w x = 0"
    and a: "after own (L \<union> region (mf_self c + q) (mf_size c - q)) (L \<union> region (mf_self c + q) (mf_size c - q)) w w'"
  shows "runs (if mf_size c - q - siz < HEAP_MINSIZE then Some (Inr \<lparr>hp_ptr = mf_self c + q, hp_siz = siz + (mf_size c - q - siz)\<rparr>, w')
      else hbind (heap_free_overallocation K (mf_self c + q) (mf_self c + q + siz) (mf_size c - q - siz) fl w')
        (\<lambda>_ w. Some (Inr \<lparr>hp_ptr = mf_self c + q, hp_siz = siz\<rparr>, w)))
    no_error (splits own L siz c w)"
proof -
  let ?q = "mf_self c + q" and ?m = "mf_size c - q"
  note b = block_ok_node [OF c(1)]
  note sp = block_split [OF b q(1,2)]
  have nb: "node_bytes c = region (mf_self c) (mf_size c)" by (simp add: node_bytes_def)
  have bm: "block_ok ?q ?m" using sp(8) k(1,2) by (auto intro: order_trans)
  have s': "sound own (L \<union> region ?q ?m) w'" "L \<inter> region ?q ?m = {}" using a c(2) sp(5) by (auto simp: after_def nb)
  have hd: "x \<notin> header c" if "x \<in> region ?q ?m - region ?q SIZEOF_MFREE" for x
  proof (cases "q = 0")
    case True
    with that show ?thesis by (simp add: header_region)
  next
    case False
    then have "header c \<subseteq> region (mf_self c) q" using block_parts(1) [OF sp(7)] q(3) by (simp add: header_region)
    with that sp(6) show ?thesis by blast
  qed
  have "w_mem w' x = 0" if "mf_flags c = GFP_CALLOC" "x \<in> region ?q ?m - region ?q SIZEOF_MFREE" for x
    using that a z [OF that(1), of x] sp(5) hd [OF that(2)] by (auto simp: after_def nb)
  then have "runs (if ?m - siz < HEAP_MINSIZE then Some (Inr \<lparr>hp_ptr = ?q, hp_siz = siz + (?m - siz)\<rparr>, w')
      else hbind (heap_free_overallocation K ?q (?q + siz) (?m - siz) fl w') (\<lambda>_ w. Some (Inr \<lparr>hp_ptr = ?q, hp_siz = siz\<rparr>, w)))
    no_error (splits own L siz c w')"
    using sp(5) by (intro runs_split_tail [OF K s' bm _ k fl]) (auto simp: nb)
  then show ?thesis by (rule runs_weaken) (use a in \<open>auto simp: splits_def after_def same_config_def\<close>)
qed

lemma runs_split_chain:
  assumes K: "core_laws K own" and s: "sound own (L \<union> node_bytes c) w" "L \<inter> node_bytes c = {}" and c: "node_ok c"
    and k: "HEAP_MINSIZE \<le> siz" "siz \<le> mf_size c" "IS_ALIGNED siz HEAP_ALIGNMENT"
    and z: "\<And>x. mf_flags c = GFP_CALLOC \<Longrightarrow> x \<in> node_bytes c - header c \<Longrightarrow> w_mem w x = 0"
  shows "runs (heap_split_chain K siz flags c w) no_error (splits own L siz c w)"
proof -
  note b = block_ok_node [OF c]
  let ?p = "mf_self c" and ?n = "mf_size c"
  define fl where "fl = (flags AND NOT GFP_CALLOC) OR mf_flags c"
  have fl: "has fl GFP_CALLOC \<longleftrightarrow> mf_flags c = GFP_CALLOC" using c release_flags [of "mf_flags c"] by (simp add: fl_def node_ok_def)
  obtain r v where rv: "k_rand K (w_vm w) = (r, v)" by (cases "k_rand K (w_vm w)")
  then have v: "own v = own (w_vm w)" using core_laws_dest(7) [OF K, of "w_vm w"] by simp
  define ro where "ro = (r mod (?n - siz)) AND NOT (HEAP_ALIGNMENT - 1)"
  have nb: "node_bytes c = region ?p ?n" by (simp add: node_bytes_def)
  have sv: "sound own (L \<union> node_bytes c) (w\<lparr>w_vm := v\<rparr>)" using s(1) v by (simp add: sound_w_vm)
  have whole: "runs (if ?n - siz < HEAP_MINSIZE then Some (Inr \<lparr>hp_ptr = ?p, hp_siz = siz + (?n - siz)\<rparr>, u)
      else hbind (heap_free_overallocation K ?p (?p + siz) (?n - siz) fl u) (\<lambda>_ w. Some (Inr \<lparr>hp_ptr = ?p, hp_siz = siz\<rparr>, w)))
    no_error (splits own L siz c w)" if "after own (L \<union> node_bytes c) (L \<union> node_bytes c) w u" for u
    by (rule runs_split_rest [OF K c s(2) _ _ _ k(1) _ k(3) fl z, of 0 u, unfolded add_0_right diff_zero])
       (use that k(2) in \<open>simp_all add: nb aligned_16\<close>)
  show ?thesis
  proof (cases "?n - siz < HEAP_MINSIZE")
    case True
    with whole [OF after_refl [OF s(1)]] show ?thesis by (simp add: heap_split_chain_def)
  next
    case False
    have big: "siz \<le> ?n" "?n - siz \<noteq> 0" using k(2) False by auto
    have un: "unat (?n - siz) = unat ?n - unat siz" using block_split(1) [OF b k(2,3)] .
    have ro: "unat ro \<le> unat (r mod (?n - siz))" "16 dvd unat ro" unfolding ro_def unat_floor_16 by auto
    have "unat (r mod (?n - siz)) < unat (?n - siz)" using big(2) by (simp add: unat_mod unat_gt_0)
    with ro(1) un have rn: "unat ro + unat siz < unat ?n" by simp
    show ?thesis
    proof (cases "HEAP_MINSIZE \<le> ro")
      case False': False
      have "?n - siz < ?n" using rn k(1) un by (simp add: word_less_nat_alt word_le_nat_alt)
      moreover have "after own (L \<union> node_bytes c) (L \<union> node_bytes c) w (w\<lparr>w_vm := v\<rparr>)"
        using sv by (simp add: after_def same_config_def)
      ultimately show ?thesis using whole [of "w\<lparr>w_vm := v\<rparr>"] False False' rv
        by (simp add: heap_split_chain_def ro_def [symmetric] fl_def [symmetric])
    next
      case True
      have ron: "ro \<le> ?n" "IS_ALIGNED ro HEAP_ALIGNMENT" using rn ro(2) by (simp_all add: word_le_nat_alt aligned_16)
      have sm: "siz \<le> ?n - ro" using block_split(1) [OF b ron] rn by (simp add: word_le_nat_alt)
      have fr: "runs (heap_free_raw K ?p ro fl (zero_or_pattern (mf_flags c) ?p (w\<lparr>w_vm := v\<rparr>))) no_error
          (\<lambda>_ w'. after own (L \<union> region (?p + ro) (?n - ro)) (L \<union> region (?p + ro) (?n - ro)) w w')"
        using runs_free_head [OF K sv s(2) c True ron fl] z by simp
      note tl = runs_split_rest [OF K c s(2) ron disjI2 [OF True] k(1) sm k(3) fl z]
      have e: "?n - siz - ro = ?n - ro - siz" by simp
      from runs_hbind [OF fr tl] show ?thesis using False True rv
        by (simp add: heap_split_chain_def ro_def [symmetric] fl_def [symmetric] Let_def e)
    qed
  qed
qed

lemma init_block_touches: "SIZEOF_MFREE \<le> hp_siz b \<Longrightarrow> touches (region (hp_ptr b) (hp_siz b)) 0 w (init_block K flags cf b w)"
  unfolding init_block_def by (auto intro!: touches_intros dest: region_head [THEN subsetD])

lemma init_block_zero:
  "has flags GFP_CALLOC \<Longrightarrow> x \<in> region (hp_ptr b) (hp_siz b) \<Longrightarrow>
    (has cf GFP_CALLOC \<Longrightarrow> x \<notin> region (hp_ptr b) SIZEOF_MFREE \<Longrightarrow> w_mem w x = 0) \<Longrightarrow> w_mem (init_block K flags cf b w) x = 0"
  by (simp add: init_block_def memset_in)

lemma after_dangle:
  assumes "after own F L (w_heap_update (h_dangle_update (\<lambda>d. d + c)) w) w'"
  shows "after own F L w (w_heap_update (h_dangle_update (\<lambda>d. d - c)) w')"
  using assms by (simp add: after_def same_config_def)

text \<open>The end of an allocation from a node \<open>c\<close> that has been taken.\<close>

lemma splits_allocated:
  assumes s: "sound own L w" and c: "c \<in> nodes (w_heap w)" and t: "taken c w w1"
    and sp: "splits own L siz c (w_heap_update (h_dangle_update (\<lambda>d. d + n)) w1) b w3"
  shows "allocated own L flags siz w b (init_block K flags (mf_flags c) b (w_heap_update (h_dangle_update (\<lambda>d. d - n)) w3)) \<and>
    region (hp_ptr b) (hp_siz b) \<subseteq> node_bytes c \<and> block_ok (hp_ptr b) (hp_siz b)"
proof -
  let ?w4 = "w_heap_update (h_dangle_update (\<lambda>d. d - n)) w3" and ?b = "region (hp_ptr b) (hp_siz b)"
  let ?w5 = "init_block K flags (mf_flags c) b ?w4"
  note a1 = sound_taken [OF s t]
  have c': "node_ok c" using t by (simp add: taken_def)
  have disj: "L \<inter> node_bytes c = {}" using s c by (auto simp: sound_def free_bytes_def)
  have b: "block_ok (hp_ptr b) (hp_siz b)" "siz \<le> hp_siz b" "?b \<subseteq> node_bytes c" using sp by (simp_all add: splits_def)
  have a4: "after own L (L \<union> ?b) w1 ?w4" using sp by (intro after_dangle) (simp add: splits_def)
  have lb: "SIZEOF_MFREE \<le> hp_siz b" using b(1) by (simp add: block_ok_def word_le_nat_alt SIZEOF_MFREE_def)
  have s4: "sound own (L \<union> ?b) ?w4" using a4 by (simp add: after_def)
  have a5: "after own (L \<union> ?b - ?b) (L \<union> ?b) ?w4 ?w5" by (rule sound_touches [OF s4 init_block_touches [OF lb]]) simp
  have Lb: "L \<union> ?b - ?b = L" "?b \<inter> L = {}" using disj b(3) by auto
  have "after own L (L \<union> ?b) w ?w5"
    using after_trans [OF after_mono [OF a1] after_trans [OF a4 a5 [unfolded Lb]]] by simp
  moreover have "w_mem ?w5 x = 0" if "has flags GFP_CALLOC" "x \<in> ?b" for x
    by (rule init_block_zero [OF that]) (use sp that(2) node_flags [OF c'] in \<open>simp add: splits_def\<close>)
  ultimately show ?thesis using b Lb(2) by (simp add: allocated_def)
qed

text \<open>A node that has been taken: its bytes belong to nobody, and are zero after the header if its flag says so.\<close>

lemma taken_node:
  assumes s: "sound own L w" and c: "c \<in> nodes (w_heap w)"
  obtains w1 where "heap_take K c w = Some (Inr (), w1)" "taken c w w1" "node_ok c" "L \<inter> node_bytes c = {}"
    "sound own (L \<union> node_bytes c) w1" "\<And>x. mf_flags c = GFP_CALLOC \<Longrightarrow> x \<in> node_bytes c - header c \<Longrightarrow> w_mem w1 x = 0"
proof -
  have ok: "heap_ok (w_heap w)" "zero_ok w" "linked (w_heap w)" using s by (simp_all add: sound_def heap_ok_def)
  obtain w1 where w1: "heap_take K c w = Some (Inr (), w1)" "relinked (nodes (w_heap w) - {c}) w w1"
    using heap_take_node [OF ok(3) c] by blast
  note t = relinked_taken [OF ok(1,2) c w1(2)]
  have disj: "L \<inter> node_bytes c = {}" using s c by (auto simp: sound_def free_bytes_def)
  show thesis using that [OF w1(1) t _ disj] t sound_taken [OF s t] by (simp add: taken_def after_def)
qed

lemma runs_alloc_chain:
  assumes K: "core_laws K own" and s: "sound own L w" and c: "c \<in> nodes (w_heap w)"
    and k: "HEAP_MINSIZE \<le> siz" "siz \<le> mf_size c" "IS_ALIGNED siz HEAP_ALIGNMENT"
  shows "runs (heap_alloc_chain K siz flags c w) no_error (\<lambda>b w'. allocated own L flags siz w b w' \<and> region (hp_ptr b) (hp_siz b) \<subseteq> node_bytes c)"
proof -
  obtain w1 where w1: "heap_take K c w = Some (Inr (), w1)" "taken c w w1" "node_ok c" "L \<inter> node_bytes c = {}"
    "sound own (L \<union> node_bytes c) w1" and z: "\<And>x. mf_flags c = GFP_CALLOC \<Longrightarrow> x \<in> node_bytes c - header c \<Longrightarrow> w_mem w1 x = 0"
    using taken_node [OF s c] by blast
  let ?d = "mf_size c - siz"
  let ?w2 = "w_heap_update (h_dangle_update (\<lambda>d. d + ?d)) w1"
  have "runs (heap_split_chain K siz flags c ?w2) no_error (splits own L siz c ?w2)"
    by (rule runs_split_chain [OF K _ w1(4,3) k]) (use w1(5) z in simp_all)
  moreover have "IS_ALIGNED ?d HEAP_ALIGNMENT" using block_split(3) [OF block_ok_node [OF w1(3)] k(2,3)] .
  ultimately show ?thesis using w1(1) splits_allocated [OF s c w1(2)]
    by (auto simp: heap_alloc_chain_def Let_def block_ok_def intro!: runs_hbind)
qed

section \<open>Allocation of pages\<close>

definition mapped :: "('v \<Rightarrow> 32 word set) \<Rightarrow> key set \<Rightarrow> gfp \<Rightarrow> 32 word \<Rightarrow> 'v world \<Rightarrow> 32 word \<Rightarrow> 'v world \<Rightarrow> bool" where
  "mapped own L flags n w p w' \<longleftrightarrow> unat p + unat n \<le> kernel_pages \<and> L \<inter> page_bytes {p..<p + n} = {} \<and> after own L (L \<union> page_bytes {p..<p + n}) w w' \<and>
     (has flags GFP_CALLOC \<longrightarrow> (\<forall>x \<in> page_bytes {p..<p + n}. w_mem w' x = 0))"

lemma page_region:
  assumes "unat p + unat n \<le> kernel_pages"
  shows "region (VM_PAGE2ADDR p) (n * PAGESIZE) = page_bytes {p..<p + n}" "unat (VM_PAGE2ADDR p) = 4096 * unat p" "unat (n * PAGESIZE) = 4096 * unat n"
proof -
  show u: "unat (VM_PAGE2ADDR p) = 4096 * unat p" "unat (n * PAGESIZE) = 4096 * unat n"
    using assms unat_page_addr [of p] unat_page_addr [of n] by (simp_all add: VM_PAGE2ADDR_def)
  have "unat (p + n) = unat p + unat n" using assms by (intro unat_add_32) simp
  then show "region (VM_PAGE2ADDR p) (n * PAGESIZE) = page_bytes {p..<p + n}" using assms u by (auto simp: in_region page_bytes_range)
qed

lemma memsetl_region: "unat b = 4 * unat n \<Longrightarrow> memsetl m p pat n x = (if x \<in> region p b then ucast (drop_bit (8 * unat ((x - p) AND 3)) pat) else m x)"
  by (auto simp: memsetl_def region_def word_less_nat_alt unat_div)

lemma page_fill_mem:
  assumes "unat p + unat n \<le> kernel_pages"
  shows "x \<notin> page_bytes {p..<p + n} \<Longrightarrow> page_fill flags p n m x = m x"
    "has flags GFP_CALLOC \<Longrightarrow> x \<in> page_bytes {p..<p + n} \<Longrightarrow> page_fill flags p n m x = 0"
proof -
  have "unat (n * PAGESIZE) = 4 * unat (n * PAGESIZE div 4)" using page_region(3) [OF assms] by (simp add: unat_div)
  note f = memsetl_region [OF this, of m "VM_PAGE2ADDR p", unfolded page_region(1) [OF assms]]
  show "x \<notin> page_bytes {p..<p + n} \<Longrightarrow> page_fill flags p n m x = m x"
    "has flags GFP_CALLOC \<Longrightarrow> x \<in> page_bytes {p..<p + n} \<Longrightarrow> page_fill flags p n m x = 0"
    by (simp_all add: page_fill_def f)
qed

lemma zero_ok_frame:
  assumes "zero_ok w" "w_heap w' = w_heap w" "\<And>x. x \<in> free_bytes (w_heap w) \<Longrightarrow> w_mem w' x = w_mem w x"
  shows "zero_ok w'"
  using assms(1) unfolding zero_ok_def assms(2)
  by (intro ballI impI) (subst assms(3), auto simp: free_bytes_def)

lemma mapped_fill:
  assumes s: "sound own L w" and p: "unat p + unat n \<le> kernel_pages" "{p..<p + n} \<inter> own (w_vm w) = {}" and v: "own v = own (w_vm w) \<union> {p..<p + n}"
  shows "mapped own L flags n w p (w_mem_update (page_fill flags p n) (w\<lparr>w_vm := v\<rparr>))"
proof -
  let ?w = "w_mem_update (page_fill flags p n) (w\<lparr>w_vm := v\<rparr>)" and ?P = "page_bytes {p..<p + n}"
  have f: "free_bytes (w_heap w) \<union> L = page_bytes (own (w_vm w))" "free_bytes (w_heap w) \<inter> L = {}" "zero_ok w" "heap_ok (w_heap w)"
      "\<forall>p \<in> own (w_vm w). unat p < kernel_pages" using s by (simp_all add: sound_def)
  have "\<forall>q \<in> {p..<p + n}. unat q < kernel_pages" using p(1) unat_add_32 [of p n] by (auto simp: word_less_nat_alt)
  with f(5) v have k: "\<forall>p \<in> own v. unat p < kernel_pages" by auto
  have "?P \<inter> page_bytes (own (w_vm w)) = {}" using p(2) by (auto simp: page_bytes_def)
  with f(1) have d: "free_bytes (w_heap w) \<inter> ?P = {}" "L \<inter> ?P = {}" by auto
  have "zero_ok ?w" using f(3) by (rule zero_ok_frame) (use d(1) in \<open>auto intro!: page_fill_mem [OF p(1)]\<close>)
  then have "sound own (L \<union> ?P) ?w" using f(1-4) d v k by (auto simp: sound_def)
  moreover have "\<forall>x \<in> L. w_mem ?w x = w_mem w x" using d(2) by (auto intro!: page_fill_mem [OF p(1)])
  ultimately show ?thesis using p(1) d(2) page_fill_mem(2) [OF p(1)] by (simp add: mapped_def after_def same_config_def)
qed

lemma mapped_hint [simp]: "mapped own L flags n (w_heap_update (h_hintpage_update f) w) = mapped own L flags n w"
  by (simp add: mapped_def after_def same_config_def fun_eq_iff)

abbreviation failed :: "('v \<Rightarrow> 32 word set) \<Rightarrow> key set \<Rightarrow> 'v world \<Rightarrow> kos_error \<Rightarrow> 'v world \<Rightarrow> bool" where
  "failed own L w \<equiv> \<lambda>_. after own L L w"

lemma after_vm: "sound own L w \<Longrightarrow> own v = own (w_vm w) \<Longrightarrow> after own F L w (w\<lparr>w_vm := v\<rparr>)"
  by (simp add: after_def same_config_def sound_w_vm)

lemma after_hint [simp]: "after own F L w (w_heap_update (h_hintpage_update f) w') = after own F L w w'"
  by (simp add: after_def same_config_def)

lemma runs_core_page_alloc:
  assumes K: "core_laws K own" and s: "sound own L w" and n: "n \<noteq> 0"
  shows "runs (core_page_alloc K n flags w) (failed own L w) (mapped own L flags n w)"
proof -
  note laws = core_laws_dest [OF K]
  obtain r v where r: "k_corepair K flags n (w_vm w) = (r, v)" by (cases "k_corepair K flags n (w_vm w)")
  have v: "own v = own (w_vm w)" "own (k_discard K v) = own (w_vm w)" "r \<noteq> Inl E_ASSERT" using laws(1,2) [of flags n "w_vm w"] laws(3) r by simp_all
  have av: "after own L L w (w\<lparr>w_vm := v\<rparr>)" "after own L L w (w\<lparr>w_vm := k_discard K v\<rparr>)" using s v by (simp_all add: after_vm)
  have found: "runs (case k_insert K p n v of
                (Inl e, v) \<Rightarrow> Some (Inl e, (w_heap_update (h_hintpage_update (\<lambda>_. p)) w)\<lparr>w_vm := k_discard K v\<rparr>)
              | (Inr _, v) \<Rightarrow> Some (Inr p, w_mem_update (page_fill flags p n) ((w_heap_update (h_hintpage_update (\<lambda>_. p)) w)\<lparr>w_vm := v\<rparr>)))
     (failed own L w) (mapped own L flags n w)" if g: "k_getfree K (h_hintpage (w_heap w)) n (h_hintmode (w_heap w)) v = Inr p" for p
  proof -
    have p: "unat p + unat n \<le> kernel_pages" "{p..<p + n} \<inter> own (w_vm w) = {}" using laws(9) [OF g] v(1) by simp_all
    let ?w = "w_heap_update (h_hintpage_update (\<lambda>_. p)) w"
    obtain i v' where i: "k_insert K p n v = (i, v')" by (cases "k_insert K p n v")
    have s': "sound own L ?w" using s by simp
    show ?thesis
    proof (cases i)
      case (Inl e)
      then have "own v' = own (w_vm ?w)" "e \<noteq> E_ASSERT" using laws(12) [of p n v e v', OF _ p(1)] i v(1) by simp_all
      moreover from this have "after own L L ?w (?w\<lparr>w_vm := k_discard K v'\<rparr>)" using laws(3) by (intro after_vm [OF s']) simp
      ultimately show ?thesis using i Inl by (simp add: after_def same_config_def)
    next
      case (Inr u)
      then have "own v' = own (w_vm ?w) \<union> {p..<p + n}" using laws(11) [of p n v u v', OF _ p(1)] i v(1) by simp
      from mapped_fill [OF s' p(1) _ this, of flags] p(2) show ?thesis using i Inr by simp
    qed
  qed
  show ?thesis using n v(3) av after_refl [OF s] laws(4) found unfolding core_page_alloc_def r Let_def
    by (auto split: sum.split)
qed

lemma unat_floor_page: "unat (x AND NOT (PAGESIZE - 1)) = 4096 * (unat x div 4096)"
proof -
  have "(mask 12 :: 32 word) = 4095" by (simp add: mask_numeral)
  then have "PAGESIZE - 1 = (mask 12 :: 32 word)" by (simp add: PAGESIZE_def)
  moreover have "x AND NOT (mask 12) = push_bit 12 (drop_bit 12 x)"
    by (rule bit_word_eqI) (auto simp: bit_and_iff bit_not_iff bit_mask_iff bit_push_bit_iff bit_drop_bit_eq)
  moreover have "unat (push_bit 12 (drop_bit 12 x)) = 4096 * (unat x div 4096)"
    using unat_less_2_32 [of x] by (simp add: push_bit_eq_mult drop_bit_eq_div unat_word_ariths(2) unat_div)
  ultimately show ?thesis by simp
qed

definition page_amount :: "32 word \<Rightarrow> 32 word \<Rightarrow> bool" where
  "page_amount siz b \<longleftrightarrow> 4096 dvd unat b \<and> siz \<le> b"

lemma page_amount_floor: "siz \<le> siz + (PAGESIZE - 1) \<Longrightarrow> siz + (PAGESIZE - 1) \<le> x \<Longrightarrow> page_amount siz (x AND NOT (PAGESIZE - 1))"
proof -
  assume "siz \<le> siz + (PAGESIZE - 1)" "siz + (PAGESIZE - 1) \<le> x"
  then have m: "unat siz \<le> (unat siz + 4095) mod 2 ^ 32" "(unat siz + 4095) mod 2 ^ 32 \<le> unat x"
    by (simp_all add: word_le_nat_alt PAGESIZE_def unat_word_ariths(1))
  then have "unat siz + 4095 < 2 ^ 32" using unat_less_2_32 [of siz] by (cases "unat siz + 4095 < 2 ^ 32") (simp_all add: le_mod_geq)
  with m(2) have "unat siz + 4095 \<le> unat x" by simp
  then have "unat siz \<le> 4096 * (unat x div 4096)" using mult_div_mod_eq [of 4096 "unat x"] mod_less_divisor [of 4096 "unat x"] by linarith
  then show ?thesis by (simp add: page_amount_def word_le_nat_alt unat_floor_page)
qed

lemma page_amount_pages:
  assumes "page_amount siz b" "HEAP_MINSIZE \<le> siz"
  shows "b div PAGESIZE \<noteq> 0" "b div PAGESIZE * PAGESIZE = b" "unat b = 4096 * unat (b div PAGESIZE)"
proof -
  have "32 \<le> unat siz" "unat siz \<le> unat b" "4096 dvd unat b" using assms by (simp_all add: page_amount_def word_le_nat_alt)
  moreover show u: "unat b = 4096 * unat (b div PAGESIZE)" using calculation by (simp add: PAGESIZE_def unat_div)
  ultimately show "b div PAGESIZE \<noteq> 0" by (metis mult_0_right not_numeral_le_zero order_trans unat_0)
  have "unat (b div PAGESIZE) < 2 ^ 20" using u unat_less_2_32 [of b] by simp
  then show "b div PAGESIZE * PAGESIZE = b" using u unat_page_addr [of "b div PAGESIZE"] by (simp add: word_unat_eq_iff)
qed

lemma sound_merge_before: "core_laws K own \<Longrightarrow> after own F L w w' \<Longrightarrow> after own F L w (merge_before K p q w')"
  by (simp add: merge_before_def after_def sound_def zero_ok_def core_laws_dest(6))

lemma merge_before_mem [simp]: "w_mem (merge_before K p q w) = w_mem w"
  by (simp add: merge_before_def)

lemma runs_alloc_paged:
  assumes K: "core_laws K own" and m: "mapped own L flags (b div PAGESIZE) w p w1" and b: "page_amount siz b"
    and k: "HEAP_MINSIZE \<le> siz" "IS_ALIGNED siz HEAP_ALIGNMENT"
  shows "runs (let ptr = VM_PAGE2ADDR p;
                unused_size = b - siz
            in hbind
              (if unused_size < HEAP_MINSIZE then Some (Inr \<lparr>hp_ptr = ptr, hp_siz = b\<rparr>, w1)
               else
                 let unused_begin = ptr + siz in
                 hassert (IS_ALIGNED unused_size HEAP_ALIGNMENT) w1
                 (hassert (IS_ALIGNED unused_begin HEAP_ALIGNMENT) w1
                 (hbind (heap_free_raw K unused_begin unused_size flags
                   (if has flags GFP_CALLOC then w1
                    else w_mem_update (\<lambda>m. mempatl m unused_begin DEBUGHEAP_NO_MANS_LAND unused_size) w1)) (\<lambda>_ w.
                  Some (Inr \<lparr>hp_ptr = ptr, hp_siz = siz\<rparr>, w)))))
              (\<lambda>result w.
                let w = merge_before K p (p + b div PAGESIZE) w
                in hassert (IS_ALIGNED (hp_ptr result) HEAP_ALIGNMENT) w
                  (hassert (IS_ALIGNED (hp_siz result) HEAP_ALIGNMENT) w
                  (hassert (HEAP_MINSIZE \<le> hp_siz result) w (Some (Inr result, w)))))) (failed own L w) (allocated own L flags siz w)"
proof -
  note pa = page_amount_pages [OF b k(1)]
  let ?p = "VM_PAGE2ADDR p" and ?n = "b div PAGESIZE"
  have mm: "unat p + unat ?n \<le> kernel_pages" "L \<inter> page_bytes {p..<p + ?n} = {}" "after own L (L \<union> page_bytes {p..<p + ?n}) w w1"
    "has flags GFP_CALLOC \<Longrightarrow> \<forall>x \<in> page_bytes {p..<p + ?n}. w_mem w1 x = 0" using m by (simp_all add: mapped_def)
  note pr = page_region [OF mm(1), unfolded pa(2)]
  have sb: "siz \<le> b" using b by (simp add: page_amount_def)
  have bo: "block_ok ?p b" using pr(2,3) mm(1) sb k(1) by (auto simp: block_ok_def aligned_16 fits_iff word_le_nat_alt)
  note mm = mm(2-4) [folded pr(1)]
  note sp = block_split [OF bo sb k(2)]
  have s1: "sound own (L \<union> region ?p b) w1" using mm(2) by (simp add: after_def)
  let ?Q = "\<lambda>r w'. allocated own L flags siz w r w' \<and> block_ok (hp_ptr r) (hp_siz r)"
  have fin: "?Q r (merge_before K p (p + ?n) w')" if "?Q r w'" for r w'
    using that sound_merge_before [OF K] by (simp add: allocated_def)
  have rest: "runs (heap_free_raw K (?p + siz) (b - siz) flags (if has flags GFP_CALLOC then w1
                    else w_mem_update (\<lambda>m. mempatl m (?p + siz) DEBUGHEAP_NO_MANS_LAND (b - siz)) w1)) (failed own L w)
     (\<lambda>_ w'. after own (L \<union> region ?p siz) (L \<union> region ?p siz) w1 w')" if "HEAP_MINSIZE \<le> b - siz"
  proof -
    have L: "L \<union> region ?p b - region (?p + siz) (b - siz) = L \<union> region ?p siz" using sp(5,6) mm(1) by blast
    have sub: "region (?p + siz) (b - siz) \<subseteq> L \<union> region ?p b" using sp(5) by blast
    have t: "touches (region (?p + siz) (b - siz)) 0 w1 (if has flags GFP_CALLOC then w1
                    else w_mem_update (\<lambda>m. mempatl m (?p + siz) DEBUGHEAP_NO_MANS_LAND (b - siz)) w1)" (is "touches _ _ _ ?v")
      by (intro touches_intros subset_refl)
    have "w_mem ?v x = 0" if "has flags GFP_CALLOC" "x \<in> region (?p + siz) (b - siz)" for x using mm(3) that sp(5) by simp
    from runs_heap_free_touched [OF K s1 sp(8) [OF that] sub t this, unfolded L] show ?thesis
      by (rule runs_weaken) simp_all
  qed
  have part: "?Q \<lparr>hp_ptr = ?p, hp_siz = siz\<rparr> w'" if "after own (L \<union> region ?p siz) (L \<union> region ?p siz) w1 w'" for w'
  proof -
    have "after own L (L \<union> region ?p siz) w w'" using after_trans [OF mm(2) after_mono [OF that]] by simp
    then show ?thesis using sp(5) sp(7) [OF k(1)] mm(1,3) that by (auto simp: allocated_def after_def)
  qed
  have whole: "?Q \<lparr>hp_ptr = ?p, hp_siz = b\<rparr> w1" using bo sb mm by (auto simp: allocated_def)
  show ?thesis unfolding Let_def
    apply (rule runs_hbind [where Q = ?Q])
    subgoal
    proof (cases "b - siz < HEAP_MINSIZE")
      case True
      with whole show ?thesis by simp
    next
      case False
      then have "HEAP_MINSIZE \<le> b - siz" by simp
      note fr = rest [OF this]
      show ?thesis unfolding if_not_P [OF False] by (intro runs_hassert sp(3,4) runs_hbind [OF fr]) (simp only: runs_value part)
    qed
    subgoal premises q for r w'
    proof -
      note f = fin [OF q]
      show ?thesis using f block_ok_asserts [OF f [THEN conjunct2]] by (intro runs_hassert) (simp_all only: runs_value)
    qed
    done
qed

lemma runs_alloc_pages:
  assumes K: "core_laws K own" and s: "sound own L w" and k: "HEAP_MINSIZE \<le> siz" "IS_ALIGNED siz HEAP_ALIGNMENT"
  shows "runs (heap_alloc_pages K siz flags w) (failed own L w) (allocated own L flags siz w)"
proof (cases "siz + (PAGESIZE - 1) < siz")
  case True
  then show ?thesis using after_refl [OF s] by (simp add: heap_alloc_pages_def heap_allocation_overflow_def)
next
  case False
  then have lo: "siz \<le> siz + (PAGESIZE - 1)" by simp
  let ?m = "\<lambda>b w'. hbind (core_page_alloc K (b div PAGESIZE) flags w') (\<lambda>page w. Some (Inr (page, b), w))"
  let ?P = "\<lambda>(p, b) w'. page_amount siz b \<and> mapped own L flags (b div PAGESIZE) w p w'"
  have get: "runs (?m b w') (failed own L w) ?P" if "page_amount siz b" "after own L L w w'" for b w'
  proof -
    have "sound own L w'" using that(2) by (simp add: after_def)
    from runs_core_page_alloc [OF K this page_amount_pages(1) [OF that(1) k(1)]]
    have "runs (core_page_alloc K (b div PAGESIZE) flags w') (failed own L w) (mapped own L flags (b div PAGESIZE) w)"
      by (rule runs_weaken) (use that(2) in \<open>auto simp: mapped_def intro: after_trans\<close>)
    then show ?thesis by (rule runs_hbind) (use that(1) in simp)
  qed
  note am = page_amount_floor [OF lo]
  show ?thesis unfolding heap_alloc_pages_def Let_def
    apply (subst if_not_P [OF False])
    apply (rule runs_hbind [where Q = ?P])
    subgoal
    proof -
      let ?x = "siz + (PAGESIZE - 1)"
      let ?o = "if has flags GFP_NOOVER then ?x else ?x + h_overalloc (w_heap w)"
      have "runs (hcatch (?m (?o AND NOT (PAGESIZE - 1)) w)
          (\<lambda>e w. if e = E_BADALLOC then ?m (?x AND NOT (PAGESIZE - 1)) w else Some (Inl e, w))) (failed own L w) ?P" if "\<not> ?o < ?x"
        by (rule runs_hcatch [OF get [OF am after_refl [OF s]]]) (use that get [OF am [OF order_refl]] in auto)
      moreover have "runs (?m (?x AND NOT (PAGESIZE - 1)) w) (failed own L w) ?P" by (rule get [OF am [OF order_refl] after_refl [OF s]])
      ultimately show ?thesis by (cases "?o < ?x") (simp_all only: if_True if_False not_False_eq_True)
    qed
    subgoal for r w'
    proof (cases r)
      case (Pair p b)
      assume "?P r w'"
      then have "mapped own L flags (b div PAGESIZE) w p w'" "page_amount siz b" unfolding Pair by simp_all
      then show ?thesis unfolding Pair prod.case by (rule runs_alloc_paged [OF K _ _ k, unfolded Let_def])
    qed
    done
qed

text \<open>No pages are mapped with \<^verbatim>\<open>GFP_NOMAP\<close>.\<close>

lemma heap_alloc_pages_nomap:
  assumes "has flags GFP_NOMAP" "HEAP_MINSIZE \<le> siz"
  shows "\<exists>e \<in> {E_WOULDBLOCK, E_BADALLOC}. heap_alloc_pages K siz flags w = Some (Inl e, w)"
proof (cases "siz + (PAGESIZE - 1) < siz")
  case True
  then show ?thesis by (simp add: heap_alloc_pages_def heap_allocation_overflow_def)
next
  case False
  let ?x = "siz + (PAGESIZE - 1)"
  have "core_page_alloc K ((x AND NOT (PAGESIZE - 1)) div PAGESIZE) flags w = Some (Inl E_WOULDBLOCK, w)" if "?x \<le> x" for x
    using page_amount_pages(1) [OF page_amount_floor [OF _ that] assms(2)] False assms(1) by (simp add: core_page_alloc_def)
  then show ?thesis using False by (auto simp: heap_alloc_pages_def Let_def not_less)
qed

section \<open>The allocator\<close>

lemma heap_alloc_size_spec:
  assumes "heap_alloc_size n = Some siz"
  shows "n \<le> siz" "HEAP_MINSIZE \<le> siz" "IS_ALIGNED siz HEAP_ALIGNMENT"
proof -
  let ?x = "n + (HEAP_ALIGNMENT - 1)"
  let ?f = "?x AND NOT (HEAP_ALIGNMENT - 1)"
  have nov: "n \<le> ?x" and siz: "siz = (if ?f < HEAP_MINSIZE then HEAP_MINSIZE else ?f)"
    using assms by (auto simp: heap_alloc_size_def Let_def split: if_splits)
  have "unat n \<le> (unat n + 15) mod 2 ^ 32" using nov by (simp add: word_le_nat_alt HEAP_ALIGNMENT_def unat_word_ariths(1))
  then have "unat n + 15 < 2 ^ 32" using unat_less_2_32 [of n] by (cases "unat n + 15 < 2 ^ 32") (simp_all add: le_mod_geq)
  then have "unat ?x = unat n + 15" by (simp add: HEAP_ALIGNMENT_def unat_word_ariths(1))
  then have "unat n \<le> unat ?f" unfolding unat_floor_16
    using mult_div_mod_eq [of 16 "unat ?x"] mod_less_divisor [of 16 "unat ?x"] by linarith
  then have "n \<le> ?f" by (simp add: word_le_nat_alt)
  moreover have "IS_ALIGNED ?f HEAP_ALIGNMENT" by (simp only: aligned_16 unat_floor_16 dvd_triv_left)
  moreover have "IS_ALIGNED 32 HEAP_ALIGNMENT" by (simp add: aligned_16)
  ultimately show "n \<le> siz" "HEAP_MINSIZE \<le> siz" "IS_ALIGNED siz HEAP_ALIGNMENT" unfolding siz by (auto intro: order_trans)
qed

lemma allocated_weaken: "allocated own L flags siz w b w' \<Longrightarrow> n \<le> siz \<Longrightarrow> allocated own L flags n w b w'"
  by (auto simp: allocated_def)

lemma heap_alloc_search_found:
  assumes "bucket_search (\<lambda>_. True) siz (drop i (h_size (w_heap w))) = Inr (Some c)"
  shows "heap_alloc_search K siz flags i w = heap_alloc_chain K siz flags c w"
  by (subst heap_alloc_search.simps) (simp add: assms)

lemma heap_alloc_search_none:
  assumes "bucket_search (\<lambda>_. True) siz (drop i (h_size (w_heap w))) = Inr None" "h_dangle (w_heap w) < siz"
  shows "heap_alloc_search K siz flags i w = heap_alloc_pages K siz flags w"
  by (subst heap_alloc_search.simps) (simp add: assms(1) assms(2) [unfolded not_le [symmetric]])

lemma runs_alloc_untraced:
  assumes K: "core_laws K own" and s: "sound own L w" and d: "h_dangle (w_heap w) = 0"
  shows "runs (heap_alloc_untraced K n flags w) (failed own L w) (allocated own L flags n w)"
proof (cases "heap_alloc_size n")
  case None
  then show ?thesis using after_refl [OF s] by (simp add: heap_alloc_untraced_def heap_allocation_overflow_def)
next
  case (Some siz)
  note z = heap_alloc_size_spec [OF Some]
  have l: "linked (w_heap w)" using s by (simp add: sound_def heap_ok_def)
  have big: "16 \<le> unat siz" "(0 :: 32 word) < siz" using z(2) by (simp_all add: word_le_nat_alt word_less_nat_alt)
  obtain r where r: "bucket_search (\<lambda>_. True) siz (drop (HEAP_BUCKET_OF siz) (h_size (w_heap w))) = Inr r"
      "\<forall>c. r = Some c \<longrightarrow> c \<in> nodes (w_heap w) \<and> siz \<le> mf_size c"
    using heap_best_fit [OF l big(1)] by blast
  have "runs (heap_alloc_search K siz flags (HEAP_BUCKET_OF siz) w) (failed own L w) (allocated own L flags siz w)"
  proof (cases r)
    case None
    then show ?thesis using heap_alloc_search_none r(1) d big(2) runs_alloc_pages [OF K s z(2,3)] by metis
  next
    case (Some c)
    then have "runs (heap_alloc_chain K siz flags c w) no_error (\<lambda>b w'. allocated own L flags siz w b w' \<and> region (hp_ptr b) (hp_siz b) \<subseteq> node_bytes c)"
      using r(2) by (intro runs_alloc_chain [OF K s _ z(2) _ z(3)]) simp_all
    then show ?thesis unfolding heap_alloc_search_found [OF r(1) [unfolded Some]] by (rule runs_weaken) simp_all
  qed
  then have "runs (heap_alloc_search K siz flags (HEAP_BUCKET_OF siz) w) (failed own L w) (allocated own L flags n w)"
    by (rule runs_weaken) (use z(1) in \<open>auto intro: allocated_weaken\<close>)
  with Some HEAP_BUCKET_OF_less [OF big(1)] show ?thesis by (simp add: heap_alloc_untraced_def)
qed

text \<open>The bytes of a cached allocation are those of a smallest node that is large enough, and no call to the kernel can fail it.\<close>

lemma runs_alloc_cached:
  assumes K: "core_laws K own" and s: "sound own L w" and siz: "heap_alloc_size n = Some siz" and m: "m \<in> nodes (w_heap w)" "siz \<le> mf_size m"
  shows "runs (heap_alloc_untraced K n flags w) no_error (\<lambda>b w'. allocated own L flags n w b w' \<and>
    (\<exists>c \<in> nodes (w_heap w). region (hp_ptr b) (hp_siz b) \<subseteq> node_bytes c \<and> (\<forall>n \<in> nodes (w_heap w). siz \<le> mf_size n \<longrightarrow> mf_size c \<le> mf_size n)))"
    (is "runs _ _ ?P")
proof -
  note z = heap_alloc_size_spec [OF siz]
  have l: "linked (w_heap w)" using s by (simp add: sound_def heap_ok_def)
  have big: "16 \<le> unat siz" using z(2) by (simp add: word_le_nat_alt)
  obtain r where r: "bucket_search (\<lambda>_. True) siz (drop (HEAP_BUCKET_OF siz) (h_size (w_heap w))) = Inr r"
      "r = None \<longrightarrow> (\<forall>n \<in> nodes (w_heap w). mf_size n < siz)" "\<forall>c. r = Some c \<longrightarrow> c \<in> nodes (w_heap w) \<and> siz \<le> mf_size c \<and> (\<forall>n \<in> nodes (w_heap w). siz \<le> mf_size n \<longrightarrow> mf_size c \<le> mf_size n)"
    using heap_best_fit [OF l big] by blast
  obtain c where c: "r = Some c" using r(2) m by (cases r) (auto dest: leD)
  then have "runs (heap_alloc_chain K siz flags c w) no_error (\<lambda>b w'. allocated own L flags siz w b w' \<and> region (hp_ptr b) (hp_siz b) \<subseteq> node_bytes c)"
    using r(3) by (intro runs_alloc_chain [OF K s _ z(2) _ z(3)]) simp_all
  then have "runs (heap_alloc_chain K siz flags c w) no_error ?P"
    by (rule runs_weaken) (use z(1) r(3) c in \<open>auto intro: allocated_weaken\<close>)
  then show ?thesis using siz HEAP_BUCKET_OF_less [OF big] heap_alloc_search_found [OF r(1) [unfolded c]]
    by (simp add: heap_alloc_untraced_def)
qed

end
