(* ===== verification/Heap_Extend.thy ===== *)
theory Heap_Extend
  imports Heap_Alloc
begin

text \<open>
  Allocation at the end of a block (\<^verbatim>\<open>heap_allat\<close>, without \<^verbatim>\<open>GFP_CALLOC\<close>): the bytes that follow it are allocated, or nothing is.
\<close>

section \<open>Pages at an address\<close>

lemma runs_core_page_allocat:
  assumes K: "core_laws K own" and s: "sound own L w" and p: "unat p < 2 ^ 20"
  shows "runs (core_page_allocat K p 1 flags w) (failed own L w) (\<lambda>ok w'. if ok then mapped own L flags 1 w p w' else after own L L w w')"
proof -
  note laws = core_laws_dest [OF K]
  obtain r v where r: "k_corepair K flags 1 (w_vm w) = (r, v)" by (cases "k_corepair K flags 1 (w_vm w)")
  have v: "own v = own (w_vm w)" "r \<noteq> Inl E_ASSERT" using laws(1,2) [of flags 1 "w_vm w"] r by simp_all
  have u: "unat (p + 1) = unat p + 1" "p \<le> p + 1" using p unat_page_inc [of p] by (simp_all add: word_le_nat_alt)
  have map: "runs (case k_insert K p 1 v of
            (Inl e, v) \<Rightarrow> Some (Inl e, w\<lparr>w_vm := k_discard K v\<rparr>)
          | (Inr _, v) \<Rightarrow> Some (Inr True, w_mem_update (page_fill flags p 1) (w\<lparr>w_vm := v\<rparr>)))
      (failed own L w) (\<lambda>ok w'. if ok then mapped own L flags 1 w p w' else after own L L w w')" if g: "\<not> k_getanynode K p (p + 1) (w_vm w)"
  proof -
    have b: "unat p + unat (1 :: 32 word) \<le> kernel_pages" using laws(10) [OF u(2) g] u(1) by simp
    have "{p..<p + 1} \<subseteq> {p..p + 1}" by auto
    then have free: "{p..<p + 1} \<inter> own (w_vm w) = {}" using laws(10) [OF u(2) g] by blast
    obtain i v' where i: "k_insert K p 1 v = (i, v')" by (cases "k_insert K p 1 v")
    show ?thesis
    proof (cases i)
      case (Inl e)
      then have "own (k_discard K v') = own (w_vm w)" "e \<noteq> E_ASSERT" using laws(12) [of p 1 v e v', OF _ b] laws(3) i v(1) by simp_all
      then show ?thesis using i Inl after_vm [OF s] by simp
    next
      case (Inr x)
      then have "own v' = own (w_vm w) \<union> {p..<p + 1}" using laws(11) [of p 1 v x v', OF _ b] i v(1) by simp
      then show ?thesis using i Inr mapped_fill [OF s b free] by simp
    qed
  qed
  have "runs (case r of Inl e \<Rightarrow> Some (Inl e, w\<lparr>w_vm := v\<rparr>) | Inr _ \<Rightarrow> case k_insert K p 1 v of
            (Inl e, v) \<Rightarrow> Some (Inl e, w\<lparr>w_vm := k_discard K v\<rparr>)
          | (Inr _, v) \<Rightarrow> Some (Inr True, w_mem_update (page_fill flags p 1) (w\<lparr>w_vm := v\<rparr>)))
      (failed own L w) (\<lambda>ok w'. if ok then mapped own L flags 1 w p w' else after own L L w w')" if "\<not> k_getanynode K p (p + 1) (w_vm w)"
    using map [OF that] v(2) after_vm [OF s v(1)] by (cases r) simp_all
  then show ?thesis unfolding core_page_allocat_def r prod.case using after_refl [OF s] by (auto simp: hassert_def)
qed

lemma touches_memsetl [touches_intros]:
  "touches R c w w' \<Longrightarrow> unat b = 4 * unat n \<Longrightarrow> region p b \<subseteq> R \<Longrightarrow> touches R c w (w_mem_update (\<lambda>m. memsetl m p pat n) w')"
  unfolding touches_def by (auto simp: memsetl_region)

text \<open>With \<^verbatim>\<open>GFP_NOMAP\<close>, no page is given back.\<close>

lemma runs_free_nomap:
  assumes K: "core_laws K own" and s: "sound own L w" and b: "block_ok p n" "region p n \<subseteq> L" and f: "\<not> has flags GFP_CALLOC" "has flags GFP_NOMAP"
  shows "runs (heap_free_raw K p n flags w) no_error (\<lambda>_ w'. after own (L - region p n) (L - region p n) w w' \<and> w_vm w' = w_vm w)"
proof -
  have "heap_ok (w_heap w)" "zero_ok w" "region p n \<inter> free_bytes (w_heap w) = {}" using s b(2) by (auto simp: sound_def)
  then have "freed own flags (region p n) w (heap_free_raw K p n flags w)" using f(1) by (intro heap_free_raw_spec [OF K _ _ b(1)]) auto
  then obtain w' where "heap_free_raw K p n flags w = Some (Inr (), w')" "gives own (region p n) w w'" "adds (region p n) w w'"
    using f(2) unfolding freed_def by blast
  then show ?thesis using sound_gives [OF s _ b(2)] by (simp add: adds_def)
qed

lemma runs_page_to_heap:
  assumes K: "core_laws K own" and s: "sound own L w" and p: "unat p < 2 ^ 20" and f: "\<not> has flags GFP_CALLOC"
  shows "runs (page_to_heap K m p flags w) (failed own L w)
    (\<lambda>ok w'. after own L L w w' \<and> (ok \<longrightarrow> page_bytes {p} \<inter> L = {} \<and> page_bytes {p} \<subseteq> free_bytes (w_heap w')))"
  unfolding page_to_heap_def
proof (rule runs_hbind [OF runs_core_page_allocat [OF K s p]])
  fix ok w1 assume w1: "if ok then mapped own L flags 1 w p w1 else after own L L w w1"
  show "runs (if \<not> ok then Some (Inr False, w1)
      else let w = w_mem_update (\<lambda>m. memsetl m (VM_PAGE2ADDR p) DEBUGHEAP_NO_MANS_LAND (PAGESIZE div 4)) w1
         in hbind (heap_free_raw K (VM_PAGE2ADDR p) PAGESIZE (flags OR GFP_NOMAP) w) (\<lambda>_ w.
            Some (Inr True, if m then merge_before K p (p + 1) w else w)))
     (failed own L w) (\<lambda>ok w'. after own L L w w' \<and> (ok \<longrightarrow> page_bytes {p} \<inter> L = {} \<and> page_bytes {p} \<subseteq> free_bytes (w_heap w')))"
  proof (cases ok)
    case False
    with w1 show ?thesis by simp
  next
    case True
    let ?w2 = "w_mem_update (\<lambda>m. memsetl m (VM_PAGE2ADDR p) DEBUGHEAP_NO_MANS_LAND (PAGESIZE div 4)) w1"
    have one: "{p..<p + 1} = {p}" using unat_page_inc [OF p] by (auto simp: word_le_nat_alt word_less_nat_alt word_unat_eq_iff)
    have m: "unat p + unat (1 :: 32 word) \<le> kernel_pages" "L \<inter> page_bytes {p} = {}" "after own L (L \<union> page_bytes {p}) w w1"
      using w1 True by (simp_all add: mapped_def one)
    note pr = page_region [OF m(1), unfolded one mult_1]
    have b: "block_ok (VM_PAGE2ADDR p) PAGESIZE"
      using pr(2,3) m(1) by (auto simp: block_ok_def aligned_16 fits_iff word_le_nat_alt)
    have t: "touches (page_bytes {p}) 0 w1 ?w2"
      by (rule touches_memsetl [OF touches_refl, of PAGESIZE]) (use pr(1) in \<open>simp_all add: PAGESIZE_def unat_div\<close>)
    have "sound own (L \<union> page_bytes {p}) w1" using m(3) by (simp add: after_def)
    note a2 = sound_touches [OF this t Un_upper2]
    have L: "L \<union> page_bytes {p} - page_bytes {p} = L" using m(2) by blast
    have s2: "sound own (L \<union> page_bytes {p}) ?w2" using a2 by (simp add: after_def)
    have "runs (heap_free_raw K (VM_PAGE2ADDR p) PAGESIZE (flags OR GFP_NOMAP) ?w2) no_error
        (\<lambda>_ w'. after own L L ?w2 w' \<and> w_vm w' = w_vm ?w2)"
      using runs_free_nomap [OF K s2 b] f by (simp add: pr(1) L has_or)
    moreover have "after own L L w w' \<and> page_bytes {p} \<subseteq> free_bytes (w_heap w')" if w': "after own L L ?w2 w'" "w_vm w' = w_vm ?w2" for w'
    proof -
      have "after own L L w w'" using after_trans [OF m(3) after_trans [OF a2 [unfolded L] w'(1)]] .
      moreover have "free_bytes (w_heap w') \<union> L = free_bytes (w_heap ?w2) \<union> (L \<union> page_bytes {p})"
        using w' s2 by (simp add: after_def sound_def)
      ultimately show ?thesis using m(2) by blast
    qed
    ultimately show ?thesis using True m(2) sound_merge_before [OF K]
      by (auto simp: Let_def merge_before_def elim!: runs_cases)
  qed
qed

section \<open>Allocation at an address\<close>

text \<open>
  \<open>extended\<close>: the bytes from \<open>ptr\<close> on have been allocated, or nothing has been done and the result is 0.
\<close>

definition extended :: "('v \<Rightarrow> 32 word set) \<Rightarrow> key set \<Rightarrow> key \<Rightarrow> 'v world \<Rightarrow> 32 word \<Rightarrow> 'v world \<Rightarrow> bool" where
  "extended own L ptr w r w' \<longleftrightarrow> (if r = 0 then after own L L w w'
     else block_ok ptr r \<and> region ptr r \<inter> L = {} \<and> after own L (L \<union> region ptr r) w w')"

lemma locate_node:
  assumes "linked h"
  obtains (hit) n where "n \<in> nodes h" "a \<in> node_bytes n" "locate_tree (h_addr h) a = Inr (Some (node_leaf n))"
  | (miss) "a \<notin> free_bytes h" "locate_tree (h_addr h) a = Inr None"
proof -
  have ok: "tree_ok (h_addr h)" "ranges (h_addr h) = node_leaf ` nodes h" "\<And>n. n \<in> nodes h \<Longrightarrow> node_ok n" using assms by (simp_all add: linked_def)
  obtain r where r: "locate_tree (h_addr h) a = Inr r" "\<forall>y. r = Some y \<longleftrightarrow> y \<in> ranges (h_addr h) \<and> covers y a"
    using tree.look_law [OF ok(1), of a] by blast
  show thesis
  proof (cases r)
    case None
    have "a \<notin> node_bytes n" if "n \<in> nodes h" for n
      using r(2) [rule_format, of "node_leaf n"] None that ok(2) covers_node_leaf [OF ok(3) [OF that], of a] by simp
    then have "a \<notin> free_bytes h" by (auto simp: free_bytes_def)
    with None r(1) miss show ?thesis by simp
  next
    case (Some y)
    then obtain n where "y = node_leaf n" "n \<in> nodes h" "covers y a" using r(2) ok(2) by auto
    with Some r(1) ok(3) hit show ?thesis by (simp add: covers_node_leaf)
  qed
qed

text \<open>The byte below \<open>ptr\<close> is not free: the node at \<open>ptr\<close>, if there is one, starts there.\<close>

lemma runs_allat_hit:
  assumes K: "core_laws K own" and s: "sound own L w" and p: "IS_ALIGNED ptr HEAP_ALIGNMENT" "ptr - 1 \<in> L" "ptr \<noteq> 0"
    and f: "\<not> has flags GFP_CALLOC" and free: "ptr \<in> free_bytes (w_heap w)"
  shows "runs (heap_allat_partial K ptr flags w) (failed own L w) (\<lambda>r w'. r \<noteq> 0 \<and> extended own L ptr w r w')"
proof -
  have ok: "heap_ok (w_heap w)" "zero_ok w" "linked (w_heap w)" and sf: "free_bytes (w_heap w) \<inter> L = {}"
    using s by (simp_all add: sound_def heap_ok_def)
  show ?thesis
  proof (cases rule: locate_node [OF ok(3), of ptr, case_names hit miss])
    case miss
    with free show ?thesis by simp
  next
    case (hit n)
    have n: "node_ok n" by (rule linked_node_ok [OF ok(3) hit(1)])
    have "ptr - 1 \<notin> node_bytes n" using p(2) sf hit(1) by (auto simp: free_bytes_def)
    then have self: "mf_self n = ptr" using hit(2) p(3) n
      by (auto simp: in_node_bytes unat_minus_1 word_unat_eq_iff)
    obtain w1 where w1: "heap_take K n w = Some (Inr (), w1)" "relinked (nodes (w_heap w) - {n}) w w1"
      using heap_take_node [OF ok(3) hit(1)] by blast
    note t = relinked_taken [OF ok(1,2) hit(1) w1(2)]
    have a1: "after own L (L \<union> region ptr (mf_size n)) w w1" using sound_taken [OF s t] by (simp add: node_bytes_def self)
    let ?R = "region ptr (mf_size n)"
    let ?v = "reset_heap_data K ptr DEBUGHEAP_FRESH_MEMORY (mf_size n) (zero_or_pattern flags ptr w1)"
    have b: "block_ok ptr (mf_size n)" using block_ok_node [OF n] self by simp
    have dj: "?R \<inter> L = {}" using sf hit(1) self by (auto simp: free_bytes_def node_bytes_def)
    have t: "touches ?R 0 w1 ?v" by (intro touches_intros block_parts(1) [OF b] subset_refl)
    have "sound own (L \<union> ?R) w1" using a1 by (simp add: after_def)
    note av = sound_touches [OF this t Un_upper2]
    have L: "L \<union> ?R - ?R = L" using dj by blast
    have "after own L (L \<union> ?R) w ?v" using after_trans [OF a1 av [unfolded L]] .
    then have "extended own L ptr w (mf_size n) ?v" "mf_size n \<noteq> 0" "HEAP_MINSIZE \<le> mf_size n"
      using b dj by (auto simp: extended_def block_ok_def fits_def)
    then show ?thesis using p(1) f hit(3) self w1(1)
      by (subst heap_allat_partial.simps) (simp add: node_leaf_def Let_def)
  qed
qed

lemma runs_allat_partial:
  assumes K: "core_laws K own" and s: "sound own L w" and p: "IS_ALIGNED ptr HEAP_ALIGNMENT" "ptr - 1 \<in> L" "ptr \<noteq> 0" and f: "\<not> has flags GFP_CALLOC"
  shows "runs (heap_allat_partial K ptr flags w) (failed own L w) (extended own L ptr w)"
proof (cases "ptr \<in> free_bytes (w_heap w)")
  case True
  show ?thesis by (rule runs_weaken [OF runs_allat_hit [OF K s p f True]]) simp_all
next
  case False
  have "linked (w_heap w)" using s by (simp add: sound_def heap_ok_def)
  then have miss: "locate_tree (h_addr (w_heap w)) ptr = Inr None"
    using False by (cases rule: locate_node [of _ ptr, case_names hit miss]) (auto simp: free_bytes_def)
  let ?p = "VM_ADDR2PAGE ptr"
  have pg: "unat ?p < 2 ^ 20" using unat_less_2_32 [of ptr] by (simp add: unat_VM_ADDR2PAGE)
  have "runs (hbind (page_to_heap K True ?p flags w) (\<lambda>ok w. if ok then heap_allat_partial K ptr flags w else Some (Inr 0, w)))
    (failed own L w) (extended own L ptr w)"
  proof (rule runs_hbind [OF runs_page_to_heap [OF K s pg f]])
    fix ok w1 assume w1: "after own L L w w1 \<and> (ok \<longrightarrow> page_bytes {?p} \<inter> L = {} \<and> page_bytes {?p} \<subseteq> free_bytes (w_heap w1))"
    show "runs (if ok then heap_allat_partial K ptr flags w1 else Some (Inr 0, w1)) (failed own L w) (extended own L ptr w)"
    proof (cases ok)
      case False
      with w1 show ?thesis by (simp add: extended_def)
    next
      case True
      have "ptr \<in> page_bytes {?p}" by (simp add: page_bytes_def)
      then have "ptr \<in> free_bytes (w_heap w1)" "sound own L w1" "after own L L w w1" using w1 True by (auto simp: after_def)
      with runs_allat_hit [OF K this(2) p f this(1)] True show ?thesis
        by (auto simp: extended_def intro: after_trans elim!: runs_weaken)
    qed
  qed
  then show ?thesis using miss p(1) by (subst heap_allat_partial.simps) simp
qed

lemma extended_end:
  assumes e: "extended own L ptr w0 res w" and p: "IS_ALIGNED ptr HEAP_ALIGNMENT" "ptr - 1 \<in> L" "ptr \<noteq> 0"
  shows "sound own (L \<union> region ptr res) w" "IS_ALIGNED (ptr + res) HEAP_ALIGNMENT" "ptr + res - 1 \<in> L \<union> region ptr res" "ptr + res \<noteq> 0"
proof -
  have "sound own (L \<union> region ptr res) w \<and> IS_ALIGNED (ptr + res) HEAP_ALIGNMENT \<and> ptr + res - 1 \<in> L \<union> region ptr res \<and> ptr + res \<noteq> 0"
  proof (cases "res = 0")
    case True
    with e p show ?thesis by (simp add: extended_def after_def)
  next
    case False
    then have b: "block_ok ptr res" "sound own (L \<union> region ptr res) w" using e by (simp_all add: extended_def after_def)
    have "unat (ptr + res) = unat ptr + unat res" using b(1) by (simp add: block_ok_def unat_fits)
    moreover have "0 < unat ptr" using p(3) by (simp add: unat_gt_0)
    moreover have "16 dvd unat ptr" "16 dvd unat res" using b(1) by (simp_all add: block_ok_def aligned_16)
    moreover have "ptr + res - 1 \<in> region ptr res" using False by (simp add: region_def word_less_nat_alt unat_minus_1 unat_gt_0)
    ultimately show ?thesis using b(2) by (auto simp: aligned_16 unat_eq_zero [symmetric])
  qed
  then show "sound own (L \<union> region ptr res) w" "IS_ALIGNED (ptr + res) HEAP_ALIGNMENT" "ptr + res - 1 \<in> L \<union> region ptr res" "ptr + res \<noteq> 0" by simp_all
qed

text \<open>Giving up frees what has been allocated so far.\<close>

lemma runs_give_up:
  assumes K: "core_laws K own" and e: "extended own L ptr w0 res w" and a: "after own (L \<union> region ptr res) (L \<union> region ptr res) w v"
    and f: "\<not> has flags GFP_CALLOC" and post: "\<And>w'. after own L L w0 w' \<Longrightarrow> runs (Some (r, w')) E P"
  shows "runs (if res \<noteq> 0 then hbind (heap_free_untraced K ptr res flags v) (\<lambda>_ w. Some (r, w)) else Some (r, v)) E P"
proof (cases "res = 0")
  case True
  with e a have "after own L L w0 v" by (auto simp: extended_def intro: after_trans)
  with True post show ?thesis by simp
next
  case False
  then have b: "block_ok ptr res" "region ptr res \<inter> L = {}" "after own L (L \<union> region ptr res) w0 w" using e by (simp_all add: extended_def)
  have L: "L \<union> region ptr res - region ptr res = L" using b(2) by blast
  have "sound own (L \<union> region ptr res) v" using a by (simp add: after_def)
  from runs_heap_free_untraced [OF K this b(1) Un_upper2, of flags, unfolded L] f
  have "runs (heap_free_untraced K ptr res flags v) no_error (\<lambda>_. after own L L v)" by simp
  then obtain w' where w': "heap_free_untraced K ptr res flags v = Some (Inr (), w')" "after own L L v w'" by (auto elim: runs_cases)
  have "after own L L w0 w'" using after_trans [OF b(3) after_trans [OF after_mono [OF a] w'(2)]] by simp
  with w'(1) False post show ?thesis by simp
qed

lemma extended_append:
  assumes e: "extended own L ptr w0 res w" and x: "extended own (L \<union> region ptr res) (ptr + res) w part v" "part \<noteq> 0"
  shows "extended own L ptr w0 (res + part) v \<and> unat res < unat (res + part)"
proof (cases "res = 0")
  case True
  with e x show ?thesis by (auto simp: extended_def unat_gt_0 intro: after_trans)
next
  case False
  have b: "block_ok ptr res" "region ptr res \<inter> L = {}" "after own L (L \<union> region ptr res) w0 w" using e False by (simp_all add: extended_def)
  have c: "block_ok (ptr + res) part" "region (ptr + res) part \<inter> (L \<union> region ptr res) = {}"
      "after own (L \<union> region ptr res) (L \<union> region ptr res \<union> region (ptr + res) part) w v" using x by (simp_all add: extended_def)
  note ap = block_append [OF b(1) c(1)]
  have "after own L (L \<union> region ptr (res + part)) w0 v" using after_trans [OF b(3) after_mono [OF c(3)]] by (simp add: ap(2) Un_assoc)
  moreover have "region ptr (res + part) \<inter> L = {}" using b(2) c(2) by (auto simp: ap(2))
  moreover have "unat res < unat (res + part)" using ap(3) x(2) by (simp add: unat_gt_0)
  moreover from this have "res + part \<noteq> 0" by auto
  ultimately show ?thesis using ap(1) by (simp add: extended_def)
qed

lemma extended_cut:
  assumes K: "core_laws K own" and e: "extended own L ptr w0 res w" and a: "HEAP_MINSIZE \<le> a" "a \<le> res" "IS_ALIGNED a HEAP_ALIGNMENT" "HEAP_MINSIZE \<le> res - a"
    and f: "\<not> has flags GFP_CALLOC"
  shows "runs (heap_free_untraced K (ptr + a) (res - a) flags w) no_error (\<lambda>_. extended own L ptr w0 a)"
proof -
  have "res \<noteq> 0" "a \<noteq> 0" using a(1,2) by (auto simp: word_le_nat_alt)
  then have b: "block_ok ptr res" "region ptr res \<inter> L = {}" "after own L (L \<union> region ptr res) w0 w" using e by (simp_all add: extended_def)
  note sp = block_split [OF b(1) a(2,3)]
  have L: "L \<union> region ptr res - region (ptr + a) (res - a) = L \<union> region ptr a" and sub: "region (ptr + a) (res - a) \<subseteq> L \<union> region ptr res"
    using sp(5,6) b(2) by auto
  have "sound own (L \<union> region ptr res) w" using b(3) by (simp add: after_def)
  from runs_heap_free_untraced [OF K this sp(8) [OF a(4)] sub, of flags, unfolded L] f
  have "runs (heap_free_untraced K (ptr + a) (res - a) flags w) no_error (\<lambda>_. after own (L \<union> region ptr a) (L \<union> region ptr a) w)" by simp
  then show ?thesis
  proof (rule runs_weaken)
    fix u w' assume "after own (L \<union> region ptr a) (L \<union> region ptr a) w w'"
    from after_trans [OF b(3) after_mono [OF this]] have "after own L (L \<union> region ptr a) w0 w'" by simp
    then show "extended own L ptr w0 a w'" using sp(5) sp(7) [OF a(1)] b(2) \<open>a \<noteq> 0\<close> by (auto simp: extended_def)
  qed simp
qed

lemma runs_allat_loop:
  assumes K: "core_laws K own" and p: "IS_ALIGNED ptr HEAP_ALIGNMENT" "ptr - 1 \<in> L" "ptr \<noteq> 0"
    and a: "HEAP_MINSIZE \<le> a" "IS_ALIGNED a HEAP_ALIGNMENT" and f: "\<not> has flags GFP_CALLOC"
  shows "extended own L ptr w0 res w \<Longrightarrow>
    runs (heap_allat_loop K ptr a flags res w) (failed own L w0) (\<lambda>r w'. extended own L ptr w0 r w' \<and> (r = 0 \<or> a \<le> r))"
proof (induction "2 ^ 32 - unat res" arbitrary: res w rule: less_induct)
  case less
  note e = less.prems
  note en = extended_end [OF e p]
  let ?E = "failed own L w0" and ?P = "\<lambda>r w'. extended own L ptr w0 r w' \<and> (r = 0 \<or> a \<le> r)"
  let ?L = "L \<union> region ptr res"
  let ?g = "\<lambda>r w. if res \<noteq> 0 then hbind (heap_free_untraced K ptr res flags w) (\<lambda>_ w. Some (r, w)) else Some (r, w)"
  show ?case
  proof (cases "res < a")
    case True
    have "runs (heap_allat_partial K (ptr + res) flags w) (failed own ?L w) (extended own ?L (ptr + res) w)"
      by (rule runs_allat_partial [OF K en f])
    then have part: "runs (hcatch (heap_allat_partial K (ptr + res) flags w) (\<lambda>e w. ?g (Inl e) w)) ?E (extended own ?L (ptr + res) w)"
      by (rule runs_hcatch) (rule runs_give_up [OF K e _ f], auto)
    have next_part: "runs (if part = 0 then ?g (Inr 0) v else heap_allat_loop K ptr a flags (res + part) v) ?E ?P"
      if x: "extended own ?L (ptr + res) w part v" for part v
    proof (cases "part = 0")
      case True
      with x have "after own ?L ?L w v" by (simp add: extended_def)
      from runs_give_up [OF K e this f, of "Inr 0" ?E ?P] True show ?thesis by (simp add: extended_def)
    next
      case False
      note ap = extended_append [OF e x False]
      have "2 ^ 32 - unat (res + part) < 2 ^ 32 - unat res" using ap unat_less_2_32 [of "res + part"] by linarith
      from less.hyps [OF this] ap False show ?thesis by simp
    qed
    show ?thesis unfolding heap_allat_loop.simps [of K ptr a flags res w] Let_def if_P [OF True]
      by (rule runs_hbind [OF part next_part])
  next
    case False
    then have le: "a \<le> res" by simp
    show ?thesis
    proof (cases "HEAP_MINSIZE \<le> res - a")
      case True
      from extended_cut [OF K e a(1) le a(2) True f]
      have "runs (hbind (heap_free_untraced K (ptr + a) (res - a) flags w) (\<lambda>_ w. Some (Inr a, w))) ?E ?P"
        by (auto elim!: runs_cases)
      with True False show ?thesis by (subst heap_allat_loop.simps) (simp add: Let_def)
    next
      case False: False
      with \<open>\<not> res < a\<close> e le show ?thesis by (subst heap_allat_loop.simps) (simp add: Let_def)
    qed
  qed
qed

lemma runs_allat_untraced:
  assumes K: "core_laws K own" and s: "sound own L w" and p: "IS_ALIGNED ptr HEAP_ALIGNMENT" "ptr - 1 \<in> L" "ptr \<noteq> 0" and f: "\<not> has flags GFP_CALLOC"
  shows "runs (heap_allat_untraced K ptr n flags w) (failed own L w) (\<lambda>r w'. extended own L ptr w r w' \<and> (r = 0 \<or> n \<le> r))"
proof (cases "heap_alloc_size n")
  case None
  then show ?thesis using after_refl [OF s] by (simp add: heap_allat_untraced_def heap_allocation_overflow_def)
next
  case (Some a)
  note z = heap_alloc_size_spec [OF Some]
  have "extended own L ptr w 0 w" using after_refl [OF s] by (simp add: extended_def)
  from runs_allat_loop [OF K p z(2,3) f this] Some z(1) show ?thesis
    by (auto simp: heap_allat_untraced_def elim!: runs_weaken)
qed

end
