(* ===== verification/Heap_Realloc.thy ===== *)
theory Heap_Realloc
  imports Heap_Extend
begin

text \<open>
  What \<^verbatim>\<open>heap_realloc\<close> makes of a block: it shrinks, grows in place, or moves, and keeps its contents.
\<close>

section \<open>Reallocation\<close>

text \<open>
  The block \<open>b\<close> has taken the place of the bytes \<open>region p n\<close>, with their contents.
\<close>

definition reallocated ::
  "('v \<Rightarrow> 32 word set) \<Rightarrow> key set \<Rightarrow> key \<Rightarrow> 32 word \<Rightarrow> 32 word \<Rightarrow> 'v world \<Rightarrow> heapptr \<Rightarrow> 'v world \<Rightarrow> bool" where
  "reallocated own L p n new w b w' \<longleftrightarrow> block_ok (hp_ptr b) (hp_siz b) \<and> new \<le> hp_siz b \<and> region (hp_ptr b) (hp_siz b) \<inter> (L - region p n) = {} \<and>
     after own (L - region p n) (L - region p n \<union> region (hp_ptr b) (hp_siz b)) w w' \<and>
     (\<forall>i. i < n \<longrightarrow> i < hp_siz b \<longrightarrow> w_mem w' (hp_ptr b + i) = w_mem w (p + i))"

lemma in_region_offset [simp]: "p + i \<in> region p n \<longleftrightarrow> i < n"
  by (simp add: region_def)

lemma runs_shrink:
  assumes K: "core_laws K own" and s: "sound own L w" and b: "block_ok p n" "region p n \<subseteq> L"
    and a: "HEAP_MINSIZE \<le> a" "a \<le> n" "IS_ALIGNED a HEAP_ALIGNMENT"
    and z: "\<And>x. has ff GFP_CALLOC \<Longrightarrow> x \<in> region p n \<Longrightarrow> w_mem w x = 0"
  shows "runs (heap_shrink K p n a ff w) no_error (\<lambda>b w'. reallocated own L p n a w b w' \<and> hp_ptr b = p)"
proof (cases "HEAP_MINSIZE \<le> n - a")
  case False
  have "L - region p n \<union> region p n = L" using b(2) by blast
  with False show ?thesis using after_refl [OF s] b(1) a(2) by (auto simp: heap_shrink_def reallocated_def)
next
  case True
  note sp = block_split [OF b(1) a(2,3)]
  have L: "L - region (p + a) (n - a) = L - region p n \<union> region p a" using sp(5,6) b(2) by blast
  have sub: "region (p + a) (n - a) \<subseteq> L" using sp(5) b(2) by blast
  have "runs (heap_free_untraced K (p + a) (n - a) ff w) no_error
      (\<lambda>_. after own (L - region p n \<union> region p a) (L - region p n \<union> region p a) w)"
    unfolding L [symmetric] by (rule runs_heap_free_untraced [OF K s sp(8) [OF True] sub]) (use z sp(5) in blast)
  moreover have "reallocated own L p n a w \<lparr>hp_ptr = p, hp_siz = a\<rparr> w'" if "after own (L - region p n \<union> region p a) (L - region p n \<union> region p a) w w'" for w'
  proof -
    have "after own (L - region p n) (L - region p n \<union> region p a) w w'" using after_mono [OF that] by simp
    moreover have "region p a \<inter> (L - region p n) = {}" using sp(5) by blast
    moreover have "w_mem w' (p + i) = w_mem w (p + i)" if "i < a" for i
      using \<open>after own (L - region p n \<union> region p a) _ w w'\<close> that by (simp add: after_def)
    ultimately show ?thesis using sp(7) [OF a(1)] by (simp add: reallocated_def)
  qed
  ultimately show ?thesis using True unfolding heap_shrink_def Let_def by (simp only: if_True) (rule runs_hbind, assumption, simp)
qed

lemma touches_memcpy [touches_intros]:
  "touches R c w w' \<Longrightarrow> region q n \<subseteq> R \<Longrightarrow> touches R c w (w_mem_update (\<lambda>m. memcpy m q p n) w')"
  unfolding touches_def by (auto simp: memcpy_def region_def)

lemma runs_move:
  assumes K: "core_laws K own" and b: "block_ok p n" "region p n \<subseteq> L" and w1: "after own L L w w1" and n: "n \<le> new"
    and al: "allocated own L af new w1 r w2" and ff: "\<not> has ff GFP_CALLOC"
  shows "runs (heap_free_untraced K p n ff (w_mem_update (\<lambda>m. memcpy m (hp_ptr r) p n) w2)) no_error (\<lambda>_. reallocated own L p n new w r)"
proof -
  let ?R = "region (hp_ptr r) (hp_siz r)" and ?w3 = "w_mem_update (\<lambda>m. memcpy m (hp_ptr r) p n) w2"
  have r: "block_ok (hp_ptr r) (hp_siz r)" "new \<le> hp_siz r" "?R \<inter> L = {}" "after own L (L \<union> ?R) w1 w2" using al by (simp_all add: allocated_def)
  have ns: "n \<le> hp_siz r" using n r(2) by simp
  have t: "touches ?R 0 w2 ?w3" by (rule touches_memcpy [OF touches_refl region_head [OF ns]])
  have s2: "sound own (L \<union> ?R) w2" using r(4) by (simp add: after_def)
  have "L \<union> ?R - ?R = L" using r(3) by blast
  with sound_touches [OF s2 t Un_upper2] have a3: "after own L (L \<union> ?R) w2 ?w3" by (simp only:)
  have copy: "w_mem ?w3 (hp_ptr r + i) = w_mem w (p + i)" if "i < n" for i
  proof -
    have "p + i \<in> region p n" using that by simp
    then have "p + i \<in> L" using b(2) by blast
    then have "w_mem w2 (p + i) = w_mem w (p + i)" using w1 r(4) by (simp add: after_def)
    then show ?thesis using that by (simp add: memcpy_def)
  qed
  have s3: "sound own (L \<union> ?R) ?w3" using a3 by (simp add: after_def)
  have L: "L \<union> ?R - region p n = L - region p n \<union> ?R" using r(3) b(2) by blast
  have "runs (heap_free_untraced K p n ff ?w3) no_error (\<lambda>_. after own (L - region p n \<union> ?R) (L - region p n \<union> ?R) ?w3)"
    using runs_heap_free_untraced [OF K s3 b(1) le_supI1 [OF b(2)], of ff, unfolded L] ff by simp
  then show ?thesis
  proof (rule runs_weaken)
    fix u w' assume a4: "after own (L - region p n \<union> ?R) (L - region p n \<union> ?R) ?w3 w'"
    note a0 = after_trans [OF w1 after_trans [OF r(4) a3]]
    have "after own (L - region p n) (L - region p n \<union> ?R) w w'"
      by (rule after_trans [OF after_mono [OF a0 Diff_subset] after_mono [OF a4 Un_upper1]])
    moreover have "w_mem w' (hp_ptr r + i) = w_mem w (p + i)" if "i < n" "i < hp_siz r" for i
      using copy [OF that(1)] a4 that(2) by (simp add: after_def)
    moreover have "?R \<inter> (L - region p n) = {}" using r(3) by blast
    ultimately show "reallocated own L p n new w r w'" using r(1,2) by (simp add: reallocated_def)
  qed simp
qed

lemma runs_grow:
  assumes K: "core_laws K own" and s: "sound own L w" and b: "block_ok p n" "region p n \<subseteq> L" and n: "n < new"
    and f: "\<not> has af GFP_CALLOC" and al: "\<And>v. after own L L w v \<Longrightarrow> runs (alloc v) (failed own L v) (\<lambda>b v'. allocated own L af new v b v' \<and> Q b)"
  shows "runs (heap_grow K alloc p n new af ff w) (failed own L w) (\<lambda>b w'. reallocated own L p n new w b w' \<and> (hp_ptr b = p \<or> Q b))"
    (is "runs _ _ ?P")
proof -
  have e: "unat (p + n) = unat p + unat n" "32 \<le> unat n" "16 dvd unat p" "16 dvd unat n"
    using b(1) unat_fits [of p n] by (simp_all add: block_ok_def aligned_16 word_le_nat_alt)
  have "n \<noteq> 0" using e(2) by auto
  then have "p + n - 1 \<in> region p n" by (simp add: region_def word_less_nat_alt unat_minus_1 unat_gt_0)
  then have end_L: "p + n - 1 \<in> L" using b(2) by blast
  have pn: "IS_ALIGNED (p + n) HEAP_ALIGNMENT" "p + n \<noteq> 0" using e by (auto simp: aligned_16 unat_eq_zero [symmetric])
  have moved: "runs (case k_copyfault K (hp_ptr r) p n (w_vm v2) of
           Some e \<Rightarrow> hbind (heap_free_untraced K (hp_ptr r) (hp_siz r) (af AND NOT GFP_CALLOC) v2) (\<lambda>_ w. Some (Inl e, w))
         | None \<Rightarrow> hbind (heap_free_untraced K p n (ff AND NOT GFP_CALLOC) (w_mem_update (\<lambda>m. memcpy m (hp_ptr r) p n) v2)) (\<lambda>_ w. Some (Inr r, w)))
      (failed own L w) ?P" if v: "after own L L w v" and r: "allocated own L af new v r v2 \<and> Q r" for v r v2
  proof (cases "k_copyfault K (hp_ptr r) p n (w_vm v2)")
    case None
    from runs_move [OF K b v less_imp_le [OF n] r [THEN conjunct1], of "ff AND NOT GFP_CALLOC"] None r show ?thesis
      by (auto elim!: runs_cases)
  next
    case (Some x)
    let ?R = "region (hp_ptr r) (hp_siz r)"
    have r': "block_ok (hp_ptr r) (hp_siz r)" "?R \<inter> L = {}" "after own L (L \<union> ?R) v v2" using r by (simp_all add: allocated_def)
    have L: "L \<union> ?R - ?R = L" using r'(2) by blast
    have "sound own (L \<union> ?R) v2" using r'(3) by (simp add: after_def)
    from runs_heap_free_untraced [OF K this r'(1) Un_upper2, of "af AND NOT GFP_CALLOC", unfolded L]
    have "runs (heap_free_untraced K (hp_ptr r) (hp_siz r) (af AND NOT GFP_CALLOC) v2) no_error (\<lambda>_. after own L L v2)" by simp
    then obtain v3 where v3: "heap_free_untraced K (hp_ptr r) (hp_siz r) (af AND NOT GFP_CALLOC) v2 = Some (Inr (), v3)" "after own L L v2 v3"
      by (auto elim: runs_cases)
    have "after own L L w v3" using after_trans [OF v after_trans [OF r'(3) v3(2)]] .
    then show ?thesis using Some v3(1) core_laws_dest(8) [OF K, of "hp_ptr r" p n "w_vm v2"] by auto
  qed
  have ext: "runs (if m \<noteq> 0 then Some (Inr \<lparr>hp_ptr = p, hp_siz = n + m\<rparr>, v)
       else hbind (alloc v) (\<lambda>r w. case k_copyfault K (hp_ptr r) p n (w_vm w) of
           Some e \<Rightarrow> hbind (heap_free_untraced K (hp_ptr r) (hp_siz r) (af AND NOT GFP_CALLOC) w) (\<lambda>_ w. Some (Inl e, w))
         | None \<Rightarrow> hbind (heap_free_untraced K p n (ff AND NOT GFP_CALLOC) (w_mem_update (\<lambda>m. memcpy m (hp_ptr r) p n) w)) (\<lambda>_ w. Some (Inr r, w))))
      (failed own L w) ?P" if x: "extended own L (p + n) w m v \<and> (m = 0 \<or> new - n \<le> m)" for m v
  proof (cases "m = 0")
    case True
    with x have v: "after own L L w v" by (simp add: extended_def)
    have "runs (alloc v) (failed own L w) (\<lambda>b v'. allocated own L af new v b v' \<and> Q b)"
      by (rule runs_weaken [OF al [OF v]]) (auto intro: after_trans [OF v])
    from runs_hbind [OF this moved [OF v]] True show ?thesis by simp
  next
    case False
    then have m: "block_ok (p + n) m" "region (p + n) m \<inter> L = {}" "after own L (L \<union> region (p + n) m) w v" "new - n \<le> m"
      using x by (simp_all add: extended_def)
    note ap = block_append [OF b(1) m(1)]
    have "new \<le> n + m" using m(4) n by (simp add: word_le_nat_alt word_less_nat_alt unat_sub_le ap(3))
    moreover have "L - region p n \<union> region p (n + m) = L \<union> region (p + n) m" using b(2) by (auto simp: ap(2))
    moreover have "region p (n + m) \<inter> (L - region p n) = {}" using m(2) by (auto simp: ap(2))
    moreover have "w_mem v (p + i) = w_mem w (p + i)" if "i < n" for i
    proof -
      have "p + i \<in> region p n" using that by simp
      then have "p + i \<in> L" using b(2) by blast
      with m(3) show ?thesis by (simp add: after_def)
    qed
    ultimately show ?thesis using False ap(1) after_mono [OF m(3) Diff_subset] by (simp add: reallocated_def)
  qed
  show ?thesis unfolding heap_grow_def
    by (rule runs_hbind [OF runs_allat_untraced [OF K s pn(1) end_L pn(2) f] ext])
qed

lemma runs_realloc:
  assumes K: "core_laws K own" and s: "sound own L w" and d: "h_dangle (w_heap w) = 0" and b: "n \<noteq> 0 \<Longrightarrow> block_ok p n" "region p n \<subseteq> L"
    and f: "\<not> has af GFP_CALLOC" and z: "\<And>x. has ff GFP_CALLOC \<Longrightarrow> x \<in> region p n \<Longrightarrow> w_mem w x = 0"
  shows "runs (heap_realloc_untraced K p n new af ff w) (failed own L w) (reallocated own L p n new w)"
proof (cases "n = 0")
  case True
  have "runs (heap_alloc_untraced K new af w) (failed own L w) (reallocated own L p n new w)"
    by (rule runs_weaken [OF runs_alloc_untraced [OF K s d]]) (use True in \<open>auto simp: allocated_def reallocated_def\<close>)
  with True show ?thesis by (simp add: heap_realloc_untraced_def IS_ALIGNED_def)
next
  case False
  note b' = b(1) [OF False]
  let ?f = "(new + (HEAP_ALIGNMENT - 1)) AND NOT (HEAP_ALIGNMENT - 1)"
  let ?a = "if ?f < HEAP_MINSIZE then HEAP_MINSIZE else ?f"
  show ?thesis
  proof (cases "heap_alloc_size new")
    case None
    then have "new + (HEAP_ALIGNMENT - 1) < new" by (simp add: heap_alloc_size_def Let_def split: if_splits)
    with False b' show ?thesis using after_refl [OF s]
      by (simp add: heap_realloc_untraced_def heap_allocation_overflow_def block_ok_def)
  next
    case (Some a)
    then have a: "\<not> new + (HEAP_ALIGNMENT - 1) < new" "?a = a" by (simp_all add: heap_alloc_size_def Let_def split: if_splits)
    note z' = heap_alloc_size_spec [OF Some]
    have al: "runs (heap_alloc_untraced K a af v) (failed own L v) (\<lambda>b v'. allocated own L af a v b v' \<and> True)" if "after own L L w v" for v
      using runs_alloc_untraced [OF K, of L v a af] that d by (simp add: after_def same_config_def)
    have grow: "runs (heap_grow K (heap_alloc_untraced K a af) p n a af ff w) (failed own L w) (reallocated own L p n a w)" if "n < a"
      using runs_grow [OF K s b' b(2) that f al] by simp
    have shrink: "runs (heap_shrink K p n a ff w) no_error (\<lambda>b w'. reallocated own L p n a w b w' \<and> hp_ptr b = p)" if "a \<le> n"
      by (rule runs_shrink [OF K s b' b(2) z'(2) that z'(3) z])
    have weak: "reallocated own L p n a w r w' \<Longrightarrow> reallocated own L p n new w r w'" for r w' using z'(1) by (auto simp: reallocated_def)
    have "runs (if a \<le> n then heap_shrink K p n a ff w else heap_grow K (heap_alloc_untraced K a af) p n a af ff w)
        (failed own L w) (reallocated own L p n new w)"
    proof (cases "a \<le> n")
      case True
      show ?thesis unfolding if_P [OF True] by (rule runs_weaken [OF shrink [OF True]]) (use weak in simp_all)
    next
      case False
      then have "n < a" by simp
      from runs_weaken [OF grow [OF this] weak] False show ?thesis by simp
    qed
    then show ?thesis using False b' block_ok_asserts [OF b'] unfolding heap_realloc_untraced_def Let_def a(2)
      by (simp only: a(1) hassert_simps simp_thms if_False)
  qed
qed

end
