(* ===== verification/Heap_Align.thy ===== *)
theory Heap_Align
  imports Heap_Realloc
begin

text \<open>
  Aligned allocation (\<^verbatim>\<open>heap_align\<close>) without an offset, for alignments of up to 2 MiB: the addresses that it computes stay below the end of
  the address space, and the block is aligned.
\<close>

section \<open>Aligned addresses\<close>

lemma unat_pow2: "k < 32 \<Longrightarrow> unat (2 ^ k :: 32 word) = 2 ^ k"
proof -
  assume "k < 32"
  then have "(2 :: nat) ^ k < 2 ^ 32" by (rule power_strict_increasing) simp
  from unat_of_nat_32 [OF this] show ?thesis by simp
qed

lemma and_not_pow2: "unat ((x :: 32 word) AND NOT (2 ^ k - 1)) = 2 ^ k * (unat x div 2 ^ k)" if "k < 32"
proof -
  have "(2 ^ k - 1 :: 32 word) = mask k" by (simp add: mask_eq_exp_minus_1)
  moreover have "x AND NOT (mask k) = push_bit k (drop_bit k x)"
    by (rule bit_word_eqI) (auto simp: bit_and_iff bit_not_iff bit_mask_iff bit_push_bit_iff bit_drop_bit_eq)
  moreover have "unat (push_bit k (drop_bit k x)) = 2 ^ k * (unat x div 2 ^ k)"
  proof -
    have "2 ^ k * (unat x div 2 ^ k) \<le> unat x" by (simp add: div_times_less_eq_dividend mult.commute)
    then have "2 ^ k * (unat x div 2 ^ k) < 2 ^ 32" using unat_less_2_32 [of x] by (rule le_less_trans)
    moreover have "unat (drop_bit k x) = unat x div 2 ^ k" using that by (simp add: drop_bit_eq_div unat_div unat_pow2)
    ultimately show ?thesis using that by (simp only: push_bit_eq_mult unat_word_ariths(2) unat_pow2 mult.commute [of "2 ^ k"]) simp
  qed
  ultimately show ?thesis by simp
qed

definition alignment :: "32 word \<Rightarrow> nat \<Rightarrow> bool" where
  "alignment a k \<longleftrightarrow> a = 2 ^ k \<and> 5 \<le> k \<and> k \<le> 21"

lemma alignment_unat:
  assumes "alignment a k"
  shows "unat a = 2 ^ k" "32 \<le> (2 :: nat) ^ k" "(2 :: nat) ^ k \<le> 2 ^ 21" "16 dvd (2 :: nat) ^ k"
proof -
  have k: "5 \<le> k" "k \<le> 21" "a = 2 ^ k" using assms by (simp_all add: alignment_def)
  show "unat a = 2 ^ k" using k by (simp add: unat_pow2)
  have "(2 :: nat) ^ 5 \<le> 2 ^ k" by (rule power_increasing) (use k in auto)
  then show "32 \<le> (2 :: nat) ^ k" by simp
  show "(2 :: nat) ^ k \<le> 2 ^ 21" by (rule power_increasing) (use k in auto)
  have "(2 :: nat) ^ 4 dvd 2 ^ k" by (rule le_imp_power_dvd) (use k in auto)
  then show "16 dvd (2 :: nat) ^ k" by simp
qed

lemma ceil_nat:
  assumes "0 < (a :: nat)"
  shows "x \<le> a * ((x + (a - 1)) div a)" "a * ((x + (a - 1)) div a) < x + a"
proof -
  have "a * ((x + (a - 1)) div a) + (x + (a - 1)) mod a = x + (a - 1)" "(x + (a - 1)) mod a < a" using assms by (simp_all)
  then show "x \<le> a * ((x + (a - 1)) div a)" "a * ((x + (a - 1)) div a) < x + a" using assms by linarith+
qed

lemma alignment_base_spec:
  assumes a: "alignment a k" and n: "node_ok n" and e: "unat (mf_self n) + unat (mf_size n) \<le> 4096 * kernel_pages"
  shows "\<exists>base. alignment_base a 0 n = Some base \<and> 2 ^ k dvd unat base \<and> unat (mf_self n) \<le> unat base \<and>
    unat base < unat (mf_self n) + 2 ^ k + 32 \<and> (base = mf_self n \<or> unat (mf_self n) + 32 \<le> unat base)"
proof -
  note u = alignment_unat [OF a]
  let ?s = "unat (mf_self n)"
  have k: "k < 32" "a = 2 ^ k" using a by (simp_all add: alignment_def)
  have sz: "32 \<le> unat (mf_size n)" "16 dvd ?s" using n by (simp_all add: node_ok_def aligned_16 word_le_nat_alt)
  define b where "b = (mf_self n + (a - 1)) AND NOT (a - 1)"
  have "unat (a - 1) = 2 ^ k - 1" using u(1,2) by (simp add: unat_minus_1 unat_gt_0 [symmetric])
  moreover have "?s + 2 ^ k < 2 ^ 32" using e sz(1) u(3) by simp
  ultimately have "unat (mf_self n + (a - 1)) = ?s + (2 ^ k - 1)" by (subst unat_add_32) auto
  then have ub: "unat b = 2 ^ k * ((?s + (2 ^ k - 1)) div 2 ^ k)" unfolding b_def k(2) by (simp add: and_not_pow2 [OF k(1)])
  have b: "?s \<le> unat b" "unat b < ?s + 2 ^ k" "2 ^ k dvd unat b" using ceil_nat [of "2 ^ k" ?s] by (simp_all add: ub)
  have base: "alignment_base a 0 n = (if b \<noteq> mf_self n then advance_base (mf_self n) a b else Some b)"
    by (simp add: alignment_base_def b_def Let_def)
  show ?thesis
  proof (cases "b = mf_self n")
    case True
    then show ?thesis using base b u(2) by simp
  next
    case False
    then have "?s \<noteq> unat b" by (simp add: word_unat_eq_iff)
    then have gap: "unat (b - mf_self n) = unat b - ?s" using b(1) by (simp add: unat_sub_le)
    show ?thesis
    proof (cases "unat b - ?s < 32")
      case far: False
      then have "advance_base (mf_self n) a b = Some b" using gap by (subst advance_base.simps) (simp add: word_less_nat_alt)
      then show ?thesis using False base b far by simp
    next
      case True
      have ba: "unat (b + a) = unat b + 2 ^ k" using b(2) e sz(1) u by (subst unat_add_32) auto
      then have "unat (b + a - mf_self n) = unat b + 2 ^ k - ?s" using b(1) by (simp add: unat_sub_le)
      then have "\<not> b + a - mf_self n < HEAP_MINSIZE" using b(1) u(2) by (simp add: word_less_nat_alt)
      then have "advance_base (mf_self n) a (b + a) = Some (b + a)" by (subst advance_base.simps) simp
      then have "advance_base (mf_self n) a b = Some (b + a)" using True gap by (subst advance_base.simps) (simp add: word_less_nat_alt)
      then show ?thesis using False base b ba True u(2) by auto
    qed
  qed
qed

section \<open>Allocation from a node\<close>

lemma sound_below:
  assumes "sound own L w" "x \<in> free_bytes (w_heap w) \<union> L"
  shows "unat x < 4096 * kernel_pages"
proof -
  have "VM_ADDR2PAGE x \<in> own (w_vm w)" using assms by (auto simp: sound_def page_bytes_def)
  then have "unat x div 4096 < kernel_pages" using assms(1) unat_VM_ADDR2PAGE [of x] by (auto simp: sound_def)
  then show ?thesis by simp
qed

lemma block_below:
  assumes s: "sound own L w" and b: "block_ok p n" "region p n \<subseteq> free_bytes (w_heap w) \<union> L"
  shows "unat p + unat n \<le> 4096 * kernel_pages"
proof -
  have f: "unat p + unat n < 2 ^ 32" "32 \<le> unat n" using b(1) by (simp_all add: block_ok_def fits_iff word_le_nat_alt)
  have "unat (p + n - 1) = unat p + unat n - 1" using f by (simp add: unat_minus_1 unat_add_32 unat_eq_zero [symmetric])
  moreover have "p + n - 1 \<in> region p n" using f calculation by (subst in_region) auto
  ultimately show ?thesis using sound_below [OF s, of "p + n - 1"] b(2) f by auto
qed

lemma align_search_spec:
  assumes a: "alignment a k"
    and bs: "\<forall>b \<in> set bs. (\<forall>n \<in> set b. node_ok n \<and> unat (mf_self n) + unat (mf_size n) \<le> 4096 * kernel_pages) \<and> sorted (map mf_size b)"
  shows "\<exists>r. align_search a 0 siz bs = Some (Inr r) \<and>
    (\<forall>c base. r = Some (c, base) \<longrightarrow> c \<in> set (concat bs) \<and> siz \<le> mf_size c \<and> alignment_base a 0 c = Some base \<and> base + siz \<le> MFREE_END c)"
  using bs
proof (induction bs)
  case (Cons b bs)
  have "\<forall>n \<in> set b. IS_ALIGNED (mf_size n) HEAP_ALIGNMENT" using Cons.prems by (auto simp: node_ok_def)
  then obtain r where r: "chain_search siz b = Inr r" "\<forall>c. r = Some c \<longrightarrow> c \<in> set b \<and> siz \<le> mf_size c"
    using chain_search_spec [of b siz] Cons.prems by auto
  obtain r' where r': "align_search a 0 siz bs = Some (Inr r')"
      "\<forall>c base. r' = Some (c, base) \<longrightarrow> c \<in> set (concat bs) \<and> siz \<le> mf_size c \<and> alignment_base a 0 c = Some base \<and> base + siz \<le> MFREE_END c"
    using Cons by auto
  show ?case
  proof (cases r)
    case None
    then show ?thesis using r(1) r' by auto
  next
    case (Some c)
    then have c: "c \<in> set b" "siz \<le> mf_size c" using r(2) by simp_all
    then obtain base where "alignment_base a 0 c = Some base" using alignment_base_spec [OF a, of c] Cons.prems by auto
    then show ?thesis using r(1) r' Some c by auto
  qed
qed simp

text \<open>What is left of a node below and above an aligned block.\<close>

lemma runs_align_parts:
  assumes K: "core_laws K own" and s: "sound own (L \<union> node_bytes c) w" "L \<inter> node_bytes c = {}" and c: "node_ok c"
    and q: "unat q + unat siz \<le> unat (mf_size c)" "IS_ALIGNED q HEAP_ALIGNMENT" "q = 0 \<or> HEAP_MINSIZE \<le> q"
    and k: "HEAP_MINSIZE \<le> siz" "IS_ALIGNED siz HEAP_ALIGNMENT"
    and z: "\<And>x. mf_flags c = GFP_CALLOC \<Longrightarrow> x \<in> node_bytes c - header c \<Longrightarrow> w_mem w x = 0"
    and f: "\<And>n v. splits own L siz c w \<lparr>hp_ptr = mf_self c + q, hp_siz = n\<rparr> v \<Longrightarrow> runs (f n v) E P"
  shows "runs (hbind
       (if q \<noteq> 0
        then hassert (HEAP_MINSIZE \<le> q) w (heap_free_raw K (mf_self c) q (mf_flags c) (zero_or_pattern (mf_flags c) (mf_self c) w))
        else Some (Inr (), w)) (\<lambda>_ w.
       hbind
       (if mf_size c - q - siz < HEAP_MINSIZE then Some (Inr (siz + (mf_size c - q - siz)), w)
        else hbind (heap_free_overallocation K (mf_self c + q) (mf_self c + q + siz) (mf_size c - q - siz) ((flags AND NOT GFP_CALLOC) OR mf_flags c) w)
          (\<lambda>_ w. Some (Inr siz, w))) f)) E P"
proof -
  have le: "q \<le> mf_size c" using q(1) by (simp add: word_le_nat_alt)
  have sm: "siz \<le> mf_size c - q" using q(1) block_split(1) [OF block_ok_node [OF c] le q(2)] by (simp add: word_le_nat_alt)
  let ?R = "L \<union> region (mf_self c + q) (mf_size c - q)"
  let ?fl = "(flags AND NOT GFP_CALLOC) OR mf_flags c"
  have fl: "has ?fl GFP_CALLOC \<longleftrightarrow> mf_flags c = GFP_CALLOC" "has (mf_flags c) GFP_CALLOC \<longleftrightarrow> mf_flags c = GFP_CALLOC"
    using c release_flags [of "mf_flags c"] node_flags [OF c] by (simp_all add: node_ok_def)
  have "\<exists>v. (if q \<noteq> 0
        then hassert (HEAP_MINSIZE \<le> q) w (heap_free_raw K (mf_self c) q (mf_flags c) (zero_or_pattern (mf_flags c) (mf_self c) w))
        else Some (Inr (), w)) = Some (Inr (), v) \<and> after own ?R ?R w v"
  proof (cases "q = 0")
    case True
    then show ?thesis using after_refl [OF s(1)] by (simp add: node_bytes_def)
  next
    case False
    then have "HEAP_MINSIZE \<le> q" using q(3) by simp
    from runs_free_head [OF K s c this le q(2) fl(2) z] this False show ?thesis by (auto elim!: runs_cases)
  qed
  then obtain v where v: "(if q \<noteq> 0
        then hassert (HEAP_MINSIZE \<le> q) w (heap_free_raw K (mf_self c) q (mf_flags c) (zero_or_pattern (mf_flags c) (mf_self c) w))
        else Some (Inr (), w)) = Some (Inr (), v)" "after own ?R ?R w v" by blast
  note rest = runs_split_rest [OF K c s(2) le q(2,3) k(1) sm k(2) fl(1) z v(2)]
  show ?thesis
  proof (cases "mf_size c - q - siz < HEAP_MINSIZE")
    case True
    with rest f show ?thesis unfolding v(1) hbind_simps by (simp only: if_True hbind_simps runs_value)
  next
    case False
    with rest obtain v' where "heap_free_overallocation K (mf_self c + q) (mf_self c + q + siz) (mf_size c - q - siz) ?fl v = Some (Inr (), v')"
        "splits own L siz c w \<lparr>hp_ptr = mf_self c + q, hp_siz = siz\<rparr> v'"
      by (cases "heap_free_overallocation K (mf_self c + q) (mf_self c + q + siz) (mf_size c - q - siz) ?fl v")
         (auto simp: runs_def hbind_def split: sum.splits)
    with False f show ?thesis unfolding v(1) hbind_simps by (simp only: if_False hbind_simps)
  qed
qed

text \<open>The random distance by which a block is moved up in what is left above it.\<close>

lemma align_random:
  assumes a: "alignment a k" and K: "core_laws K own"
  obtains r v where "(if t \<noteq> 0 then let (r, v) = k_rand K (w_vm w) in ((r mod t) AND NOT (a - 1), w\<lparr>w_vm := v\<rparr>) else (0, w)) = (r, w\<lparr>w_vm := v\<rparr>)"
    "own v = own (w_vm w)" "unat r \<le> unat t" "2 ^ k dvd unat r"
proof (cases "t = 0")
  case True
  then show ?thesis using that [of 0 "w_vm w"] by simp
next
  case False
  obtain r v where rv: "k_rand K (w_vm w) = (r, v)" by (cases "k_rand K (w_vm w)")
  have k: "a = 2 ^ k" "k < 32" using a by (simp_all add: alignment_def)
  have u: "unat ((r mod t) AND NOT (a - 1)) = 2 ^ k * (unat (r mod t) div 2 ^ k)" unfolding k(1) by (rule and_not_pow2 [OF k(2)])
  have "unat (r mod t) < unat t" using False by (simp add: unat_mod unat_gt_0)
  moreover have "2 ^ k * (unat (r mod t) div 2 ^ k) \<le> unat (r mod t)" by simp
  ultimately have "2 ^ k * (unat (r mod t) div 2 ^ k) \<le> unat t" by (meson le_less_trans less_imp_le)
  then show ?thesis using that [of "(r mod t) AND NOT (a - 1)" v] False rv core_laws_dest(7) [OF K, of "w_vm w"] u by simp
qed

lemma runs_align_chain:
  assumes K: "core_laws K own" and s: "sound own L w" and c: "c \<in> nodes (w_heap w)" and a: "alignment a k"
    and k: "HEAP_MINSIZE \<le> siz" "siz \<le> mf_size c" "IS_ALIGNED siz HEAP_ALIGNMENT"
    and base: "alignment_base a 0 c = Some base" "base + siz \<le> MFREE_END c"
  shows "runs (heap_align_chain K a 0 siz flags c base w) no_error (\<lambda>b w'. allocated own L flags siz w b w' \<and> IS_ALIGNED (hp_ptr b) a)"
proof -
  obtain w1 where w1: "heap_take K c w = Some (Inr (), w1)" "taken c w w1" "node_ok c" "L \<inter> node_bytes c = {}"
    "sound own (L \<union> node_bytes c) w1" and z: "\<And>x. mf_flags c = GFP_CALLOC \<Longrightarrow> x \<in> node_bytes c - header c \<Longrightarrow> w_mem w1 x = 0"
    using taken_node [OF s c] by blast
  note b = block_ok_node [OF w1(3)] and u = alignment_unat [OF a]
  let ?s = "mf_self c" and ?n = "mf_size c"
  have below: "unat ?s + unat ?n \<le> 4096 * kernel_pages"
    by (rule block_below [OF s b]) (use c in \<open>auto simp: free_bytes_def node_bytes_def\<close>)
  have bs: "2 ^ k dvd unat base" "unat ?s \<le> unat base" "unat base < unat ?s + 2 ^ k + 32" "base = ?s \<or> unat ?s + 32 \<le> unat base"
    using alignment_base_spec [OF a w1(3) below] base(1) by auto
  have "unat (base + siz) = unat base + unat siz"
    using bs(3) below k(2) u(3) by (intro unat_add_32) (auto simp: word_le_nat_alt)
  moreover have ue: "unat (MFREE_END c) = unat ?s + unat ?n" using unat_MFREE_END [OF w1(3)] .
  ultimately have fit: "unat base + unat siz \<le> unat ?s + unat ?n" using base(2) by (simp add: word_le_nat_alt)
  let ?d = "?n - siz" and ?t = "MFREE_END c - (base + siz)"
  let ?w2 = "w_heap_update (h_dangle_update (\<lambda>d. d + ?d)) w1"
  obtain r v where r: "(if ?t \<noteq> 0 then let (r, v) = k_rand K (w_vm ?w2) in ((r mod ?t) AND NOT (a - 1), ?w2\<lparr>w_vm := v\<rparr>) else (0, ?w2)) = (r, ?w2\<lparr>w_vm := v\<rparr>)"
      "own v = own (w_vm ?w2)" "unat r \<le> unat ?t" "2 ^ k dvd unat r" using align_random [OF a K] .
  have ut: "unat ?t = unat ?s + unat ?n - (unat base + unat siz)"
    using fit ue \<open>unat (base + siz) = unat base + unat siz\<close> by (simp add: unat_sub_le)
  define m where "m = (if HEAP_MINSIZE \<le> base - ?s + r then r else 0)"
  define q where "q = base - ?s + m"
  have m: "unat m \<le> unat ?t" "2 ^ k dvd unat m" using r(3,4) by (auto simp: m_def)
  have ub: "unat (base - ?s) = unat base - unat ?s" using bs(2) by (simp add: unat_sub_le)
  have ur: "unat (base - ?s + x) = unat base - unat ?s + unat x" if "unat x \<le> unat ?t" for x
    using that ub ut fit below by (subst unat_add_32) auto
  have uq: "unat q = unat base - unat ?s + unat m" unfolding q_def by (rule ur [OF m(1)])
  have ptr: "base + m = ?s + q" "unat (base + m) = unat base + unat m" using m(1) ut fit below
    by (simp_all add: q_def unat_add_32)
  have al: "2 ^ k dvd unat (base + m)" using bs(1) m(2) ptr(2) by simp
  have d16: "16 dvd unat x" if "2 ^ k dvd unat x" for x :: key using dvd_trans [OF u(4) that] .
  have "16 dvd unat ?s" using b by (simp add: block_ok_def aligned_16)
  then have q16: "16 dvd unat q" using uq bs(2) d16 [OF bs(1)] d16 [OF m(2)] by (simp add: dvd_diff_nat)
  have q: "unat q + unat siz \<le> unat ?n" "IS_ALIGNED q HEAP_ALIGNMENT" "q = 0 \<or> HEAP_MINSIZE \<le> q"
  proof -
    show "unat q + unat siz \<le> unat ?n" using uq m(1) ut fit bs(2) by linarith
    show "IS_ALIGNED q HEAP_ALIGNMENT" using q16 by (simp add: aligned_16)
    have "HEAP_MINSIZE \<le> q" if "\<not> HEAP_MINSIZE \<le> base - ?s + r" "base \<noteq> ?s"
      using that bs(4) ub by (auto simp: q_def m_def word_le_nat_alt)
    then show "q = 0 \<or> HEAP_MINSIZE \<le> q" by (auto simp: q_def m_def)
  qed
  have w3: "sound own (L \<union> node_bytes c) (?w2\<lparr>w_vm := v\<rparr>)" using w1(5) r(2) by (simp add: sound_w_vm)
  have fin: "allocated own L flags siz w \<lparr>hp_ptr = ?s + q, hp_siz = n\<rparr>
        (init_block K flags (mf_flags c) \<lparr>hp_ptr = ?s + q, hp_siz = n\<rparr> (w_heap_update (h_dangle_update (\<lambda>d. d - ?d)) w4)) \<and>
      block_ok (?s + q) n" if "splits own L siz c (?w2\<lparr>w_vm := v\<rparr>) \<lparr>hp_ptr = ?s + q, hp_siz = n\<rparr> w4" for n w4
    using splits_allocated [OF s c w1(2), of siz ?d "\<lparr>hp_ptr = ?s + q, hp_siz = n\<rparr>" w4 flags K] that by simp
  have eqs: "base - ?s + m = q" "?t - m = ?n - q - siz" "base + siz + m = ?s + q + siz"
    by (simp_all add: q_def MFREE_END_def algebra_simps)
  have ali: "IS_ALIGNED (?s + q) a" using al u(1) by (simp add: IS_ALIGNED_iff ptr(1))
  have rest: "runs (let w' = w_heap_update (h_dangle_update (\<lambda>d. d - ?d)) w4;
          result = \<lparr>hp_ptr = ?s + q, hp_siz = n\<rparr>;
          w' = init_block K flags (mf_flags c) result w'
      in hassert (IS_ALIGNED (hp_ptr result) HEAP_ALIGNMENT) w'
         (hassert (IS_ALIGNED (hp_ptr result + 0) a) w'
         (hassert (IS_ALIGNED (hp_siz result) HEAP_ALIGNMENT) w'
         (hassert (HEAP_MINSIZE \<le> hp_siz result) w' (Some (Inr result, w'))))))
      no_error (\<lambda>b w'. allocated own L flags siz w b w' \<and> IS_ALIGNED (hp_ptr b) a)"
    if "splits own L siz c (?w2\<lparr>w_vm := v\<rparr>) \<lparr>hp_ptr = ?s + q, hp_siz = n\<rparr> w4" for n w4
    using fin [OF that] ali by (simp add: Let_def block_ok_def)
  have z2: "w_mem (?w2\<lparr>w_vm := v\<rparr>) x = 0" if "mf_flags c = GFP_CALLOC" "x \<in> node_bytes c - header c" for x using z [OF that] by simp
  note parts = runs_align_parts [OF K w3 w1(4,3) q k(1,3) z2 rest, where flags = flags]
  show ?thesis unfolding heap_align_chain_def w1(1) hbind_simps Let_def [of "?n - siz"]
    using parts unfolding Let_def r(1) [unfolded Let_def] prod.case m_def [symmetric] eqs ptr(1) by (simp only:)
qed

section \<open>Allocation of a larger block\<close>

text \<open>An allocated block stays one when a part of it at either end is freed.\<close>

lemma allocated_part:
  assumes K: "core_laws K own" and al: "allocated own L flags n w b w1" and f: "block_ok p m" and r: "block_ok (hp_ptr c) (hp_siz c)" "num \<le> hp_siz c"
    and u: "region (hp_ptr b) (hp_siz b) = region p m \<union> region (hp_ptr c) (hp_siz c)" "region p m \<inter> region (hp_ptr c) (hp_siz c) = {}"
  shows "runs (heap_free_untraced K p m flags w1) no_error (\<lambda>_. allocated own L flags num w c)"
proof -
  let ?B = "region (hp_ptr b) (hp_siz b)" and ?C = "region (hp_ptr c) (hp_siz c)"
  have a: "?B \<inter> L = {}" "after own L (L \<union> ?B) w w1" "has flags GFP_CALLOC \<Longrightarrow> \<forall>x \<in> ?B. w_mem w1 x = 0" using al by (simp_all add: allocated_def)
  have L: "L \<union> ?B - region p m = L \<union> ?C" using u a(1) by auto
  have "sound own (L \<union> ?B) w1" using a(2) by (simp add: after_def)
  then have "runs (heap_free_untraced K p m flags w1) no_error (\<lambda>_. after own (L \<union> ?C) (L \<union> ?C) w1)"
    unfolding L [symmetric] by (rule runs_heap_free_untraced [OF K _ f]) (use u(1) a(3) in auto)
  then show ?thesis
  proof (rule runs_weaken)
    fix x w' assume a': "after own (L \<union> ?C) (L \<union> ?C) w1 w'"
    have "after own L (L \<union> ?C) w w'" by (rule after_trans [OF a(2) after_mono [OF a' Un_upper1]])
    moreover have "\<forall>x \<in> ?C. w_mem w' x = 0" if "has flags GFP_CALLOC" using a' a(3) [OF that] u(1) by (simp add: after_def)
    moreover have "?C \<inter> L = {}" using a(1) u(1) by blast
    ultimately show "allocated own L flags num w c w'" using r by (simp add: allocated_def)
  qed simp
qed

lemma align_cut:
  assumes a: "alignment a k" and b: "block_ok p n" "unat p + unat n \<le> 4096 * kernel_pages" and n: "unat siz + 2 ^ k + 32 \<le> unat n" and z: "HEAP_MINSIZE \<le> siz"
  defines "ptr \<equiv> CEIL_ALIGN32 (p + HEAP_MINSIZE) a"
  shows "IS_ALIGNED ptr a" "HEAP_MINSIZE \<le> ptr - p" "IS_ALIGNED (ptr - p) HEAP_ALIGNMENT" "ptr - p + siz \<le> n" "ptr + siz \<le> p + n"
    "ptr - p \<le> n" "siz \<le> n - (ptr - p)" "HEAP_MINSIZE \<le> n - (ptr - p)"
proof -
  note u = alignment_unat [OF a]
  have k: "a = 2 ^ k" "k < 32" using a by (simp_all add: alignment_def)
  have "unat (a - 1) = 2 ^ k - 1" using u(1,2) by (simp add: unat_minus_1 unat_gt_0 [symmetric])
  moreover have up: "unat (p + 32) = unat p + 32" using b(2) n by (subst unat_add_32) auto
  ultimately have "unat (p + 32 + (a - 1)) = unat p + 32 + (2 ^ k - 1)" using b(2) n u(2) by (subst unat_add_32) auto
  then have ptr: "unat ptr = 2 ^ k * ((unat p + 32 + (2 ^ k - 1)) div 2 ^ k)"
    unfolding ptr_def CEIL_ALIGN32_def k(1) HEAP_MINSIZE_32 by (simp add: and_not_pow2 [OF k(2)] add.assoc)
  have c: "unat p + 32 \<le> unat ptr" "unat ptr < unat p + 32 + 2 ^ k" "2 ^ k dvd unat ptr"
    using ceil_nat [of "2 ^ k" "unat p + 32"] by (simp_all add: ptr)
  have uq: "unat (ptr - p) = unat ptr - unat p" using c(1) by (simp add: unat_sub_le)
  show "IS_ALIGNED ptr a" using c(3) u(1) by (simp add: IS_ALIGNED_iff)
  show "HEAP_MINSIZE \<le> ptr - p" using c(1) uq by (simp add: word_le_nat_alt)
  have "16 dvd unat p" "16 dvd unat ptr" using b(1) dvd_trans [OF u(4) c(3)] by (simp_all add: block_ok_def aligned_16)
  then show "IS_ALIGNED (ptr - p) HEAP_ALIGNMENT" by (simp add: aligned_16 uq dvd_diff_nat)
  show "ptr - p + siz \<le> n" using uq c b(2) n by (simp add: word_le_nat_alt unat_add_32)
  show "ptr + siz \<le> p + n" using c b(2) n by (simp add: word_le_nat_alt unat_add_32)
  show le: "ptr - p \<le> n" using uq c n by (simp add: word_le_nat_alt)
  then have "unat (n - (ptr - p)) = unat n - (unat ptr - unat p)" using uq by (simp add: unat_sub_le word_le_nat_alt)
  then show "siz \<le> n - (ptr - p)" "HEAP_MINSIZE \<le> n - (ptr - p)" using c n z by (simp_all add: word_le_nat_alt)
qed

text \<open>Freeing what is above the aligned block.\<close>

lemma runs_cut_tail:
  assumes K: "core_laws K own" and al: "allocated own L flags siz w \<lparr>hp_ptr = p, hp_siz = m\<rparr> v" and z: "HEAP_MINSIZE \<le> siz" "IS_ALIGNED siz HEAP_ALIGNMENT"
    and f: "\<And>n v'. allocated own L flags siz w \<lparr>hp_ptr = p, hp_siz = n\<rparr> v' \<Longrightarrow> runs (f n v') E P"
  shows "runs (hbind (if HEAP_MINSIZE \<le> m - siz
      then hbind (heap_free_untraced K (p + siz) (m - siz) flags v) (\<lambda>_ w. Some (Inr (m - (m - siz)), w)) else Some (Inr m, v)) f) E P"
proof (cases "HEAP_MINSIZE \<le> m - siz")
  case False
  with al f show ?thesis by simp
next
  case True
  have b: "block_ok p m" "siz \<le> m" using al by (simp_all add: allocated_def)
  note sp = block_split [OF b z(2)]
  have "runs (heap_free_untraced K (p + siz) (m - siz) flags v) no_error (\<lambda>_. allocated own L flags siz w \<lparr>hp_ptr = p, hp_siz = siz\<rparr>)"
    by (rule allocated_part [OF K al sp(8) [OF True]]) (use sp(5,6) sp(7) [OF z(1)] in auto)
  with True f show ?thesis by (auto elim!: runs_cases)
qed

lemma runs_align_over:
  assumes K: "core_laws K own" and s: "sound own L w" and d: "h_dangle (w_heap w) = 0" and a: "alignment a k"
    and z: "HEAP_MINSIZE \<le> siz" "IS_ALIGNED siz HEAP_ALIGNMENT"
  shows "runs (heap_align_over K a 0 siz flags w) (failed own L w) (\<lambda>b w'. allocated own L flags siz w b w' \<and> IS_ALIGNED (hp_ptr b) a)"
proof -
  let ?h = "siz + a + HEAP_MINSIZE"
  let ?P = "\<lambda>b w'. allocated own L flags siz w b w' \<and> IS_ALIGNED (hp_ptr b) a"
  show ?thesis
  proof (cases "siz + a < siz \<or> ?h < siz + a")
    case True
    then show ?thesis using after_refl [OF s] by (auto simp: heap_align_over_def heap_allocation_overflow_def Let_def)
  next
    case False
    then have nov: "siz \<le> siz + a" "siz + a \<le> ?h" by (simp_all only: de_Morgan_disj not_less)
    then have "unat (siz + a) = unat siz + unat a" "unat ?h = unat (siz + a) + unat HEAP_MINSIZE" by (simp_all only: unat_plus_simple)
    then have h: "unat ?h = unat siz + 2 ^ k + 32" using alignment_unat(1) [OF a] by simp
    have no: "\<not> siz + a < siz" "\<not> ?h < siz + a" using nov by (simp_all only: not_less)
    show ?thesis unfolding heap_align_over_def Let_def [of "siz + a"] Let_def [of ?h] if_not_P [OF no(1)] if_not_P [OF no(2)]
    proof (rule runs_hbind [OF runs_alloc_untraced [OF K s d]])
      fix b w1 assume al: "allocated own L flags ?h w b w1"
      let ?p = "hp_ptr b" and ?n = "hp_siz b"
      let ?ptr = "CEIL_ALIGN32 (?p + HEAP_MINSIZE) a"
      have bo: "block_ok ?p ?n" "?h \<le> ?n" "sound own (L \<union> region ?p ?n) w1" using al by (simp_all add: allocated_def after_def)
      have below: "unat ?p + unat ?n \<le> 4096 * kernel_pages" by (rule block_below [OF bo(3,1)]) blast
      have "unat siz + 2 ^ k + 32 \<le> unat ?n" using bo(2) h by (simp add: word_le_nat_alt)
      note c = align_cut [OF a bo(1) below this z(1)]
      note sp = block_split [OF bo(1) c(6) c(3)]
      have e: "?p + (?ptr - ?p) = ?ptr" by simp
      have "runs (heap_free_untraced K ?p (?ptr - ?p) flags w1) no_error (\<lambda>_. allocated own L flags siz w \<lparr>hp_ptr = ?ptr, hp_siz = ?n - (?ptr - ?p)\<rparr>)"
        by (rule allocated_part [OF K al sp(7) [OF c(2)]]) (use sp(5,6,8) c(7,8) in \<open>simp_all add: e\<close>)
      then have hd: "runs (heap_free_untraced K ?p (?ptr - ?p) flags w1) (failed own L w)
          (\<lambda>_. allocated own L flags siz w \<lparr>hp_ptr = ?ptr, hp_siz = ?n - (?ptr - ?p)\<rparr>)" by (rule runs_weaken) simp_all
      have fin: "runs (hassert (siz \<le> n) v (hassert (IS_ALIGNED ?ptr a) v (hassert (IS_ALIGNED n HEAP_ALIGNMENT) v
          (hassert (HEAP_MINSIZE \<le> n) v (Some (Inr \<lparr>hp_ptr = ?ptr, hp_siz = n\<rparr>, v)))))) (failed own L w) ?P"
        if "allocated own L flags siz w \<lparr>hp_ptr = ?ptr, hp_siz = n\<rparr> v" for n v
        using that c(1) by (simp add: allocated_def block_ok_def)
      show "runs (hassert (?h \<le> ?n) w1
        (let ptr = CEIL_ALIGN32 (?p + HEAP_MINSIZE + 0) a - 0;
             nouse_size = ptr - ?p
         in hassert (ptr + siz \<le> ?p + ?n) w1
           (hassert (nouse_size + siz \<le> ?n) w1
           (hassert (HEAP_MINSIZE \<le> nouse_size) w1
           (hbind (heap_free_untraced K ?p nouse_size flags w1) (\<lambda>_ w.
             let base_siz = ?n - nouse_size in
             hassert (HEAP_MINSIZE \<le> base_siz) w
             (hassert (siz \<le> base_siz) w
             (let nouse_size = base_siz - siz in
              hbind (if HEAP_MINSIZE \<le> nouse_size
                     then hbind (heap_free_untraced K (ptr + siz) nouse_size flags w) (\<lambda>_ w. Some (Inr (base_siz - nouse_size), w))
                     else Some (Inr base_siz, w)) (\<lambda>n w.
              hassert (siz \<le> n) w
              (hassert (IS_ALIGNED (ptr + 0) a) w
              (hassert (IS_ALIGNED n HEAP_ALIGNMENT) w
              (hassert (HEAP_MINSIZE \<le> n) w (Some (Inr \<lparr>hp_ptr = ptr, hp_siz = n\<rparr>, w)))))))))))))) (failed own L w) ?P"
        unfolding Let_def add_0_right diff_zero
        by (intro runs_hassert bo(2) c runs_hbind [OF hd] runs_cut_tail [OF K _ z] fin)
    qed
  qed
qed

section \<open>The allocator\<close>

lemma runs_align_untraced:
  assumes K: "core_laws K own" and s: "sound own L w" and d: "h_dangle (w_heap w) = 0" and a: "a = 2 ^ k" "k \<le> 21"
  shows "runs (heap_align_untraced K a 0 n flags w) (failed own L w) (\<lambda>b w'. allocated own L flags n w b w' \<and> IS_ALIGNED (hp_ptr b) a)"
    (is "runs _ _ ?P")
proof -
  have k32: "k < 32" using a(2) by simp
  have ua: "unat a = 2 ^ k" using a(1) unat_pow2 [OF k32] by simp
  have a0: "a \<noteq> 0" using ua by auto
  have "a AND mask k = 0" unfolding a(1) by (rule bit_word_eqI) (auto simp: bit_and_iff bit_mask_iff bit_exp_iff)
  then have pow: "a AND (a - 1) = 0" using a(1) by (simp add: mask_eq_exp_minus_1)
  show ?thesis
  proof (cases "k \<le> 4")
    case True
    have "(2 :: nat) ^ k dvd 2 ^ 4" by (rule le_imp_power_dvd) (rule True)
    then have "IS_ALIGNED p a" if "IS_ALIGNED p HEAP_ALIGNMENT" for p
      using dvd_trans [OF _ that [unfolded aligned_16], of "2 ^ k"] ua by (simp add: IS_ALIGNED_iff)
    then have "runs (heap_alloc_untraced K n flags w) (failed own L w) ?P"
      by (intro runs_weaken [OF runs_alloc_untraced [OF K s d]]) (auto simp: allocated_def block_ok_def)
    moreover have "(2 :: nat) ^ k \<le> 2 ^ 4" by (rule power_increasing [OF True]) simp
    then have "a \<le> HEAP_ALIGNMENT" using ua by (simp add: word_le_nat_alt HEAP_ALIGNMENT_def)
    ultimately show ?thesis using a0 pow by (simp add: heap_align_untraced_def)
  next
    case False
    then have al: "alignment a k" using a by (simp add: alignment_def)
    have "\<not> a \<le> HEAP_ALIGNMENT" using alignment_unat(1,2) [OF al] by (simp add: word_le_nat_alt HEAP_ALIGNMENT_def)
    note u = a0 pow this
    show ?thesis
    proof (cases "heap_alloc_size n")
      case None
      then show ?thesis using after_refl [OF s] u by (simp add: heap_align_untraced_def heap_allocation_overflow_def)
    next
      case (Some siz)
      note z = heap_alloc_size_spec [OF Some]
      have big: "16 \<le> unat siz" using z(2) by (simp add: word_le_nat_alt)
      have l: "linked (w_heap w)" using s by (simp add: sound_def heap_ok_def)
      let ?bs = "drop (HEAP_BUCKET_OF siz) (h_size (w_heap w))"
      have sub: "m \<in> nodes (w_heap w)" if "b \<in> set ?bs" "m \<in> set b" for b m using that by (auto simp: nodes_def dest: in_set_dropD)
      have "node_ok m \<and> unat (mf_self m) + unat (mf_size m) \<le> 4096 * kernel_pages" if "m \<in> nodes (w_heap w)" for m
      proof -
        have "node_ok m" by (rule linked_node_ok [OF l that])
        with block_below [OF s block_ok_node [OF this]] that show ?thesis by (auto simp: free_bytes_def node_bytes_def)
      qed
      then have "\<forall>b \<in> set ?bs. (\<forall>n \<in> set b. node_ok n \<and> unat (mf_self n) + unat (mf_size n) \<le> 4096 * kernel_pages) \<and> sorted (map mf_size b)"
        using sub linked_buckets(1) [OF l] by blast
      from align_search_spec [OF al this, of siz] obtain r where r: "align_search a 0 siz ?bs = Some (Inr r)"
          "\<forall>c base. r = Some (c, base) \<longrightarrow> c \<in> set (concat ?bs) \<and> siz \<le> mf_size c \<and> alignment_base a 0 c = Some base \<and> base + siz \<le> MFREE_END c"
        by blast
      have weak: "allocated own L flags siz w b w' \<and> IS_ALIGNED (hp_ptr b) a \<Longrightarrow> ?P b w'" for b w' using allocated_weaken [OF _ z(1)] by blast
      have "runs (case r of Some (chain, base) \<Rightarrow> heap_align_chain K a 0 siz flags chain base w | None \<Rightarrow> heap_align_over K a 0 siz flags w)
          (failed own L w) ?P"
      proof (cases r)
        case None
        then show ?thesis using runs_weaken [OF runs_align_over [OF K s d al z(2,3)] weak] by simp
      next
        case (Some x)
        obtain c base where x: "x = (c, base)" by (cases x)
        then have c: "c \<in> nodes (w_heap w)" "siz \<le> mf_size c" "alignment_base a 0 c = Some base" "base + siz \<le> MFREE_END c"
          using r(2) Some sub by auto
        show ?thesis using Some x runs_weaken [OF runs_align_chain [OF K s c(1) al z(2) c(2) z(3) c(3,4)] weak] by simp
      qed
      then show ?thesis using r(1) Some u HEAP_BUCKET_OF_less [OF big] by (simp add: heap_align_untraced_def)
    qed
  qed
qed

lemma runs_realign:
  assumes K: "core_laws K own" and s: "sound own L w" and d: "h_dangle (w_heap w) = 0" and b: "n \<noteq> 0 \<Longrightarrow> block_ok p n" "region p n \<subseteq> L"
    and a: "a = 2 ^ k" "k \<le> 21" and f: "\<not> has af GFP_CALLOC" and z: "\<And>x. has ff GFP_CALLOC \<Longrightarrow> x \<in> region p n \<Longrightarrow> w_mem w x = 0"
  shows "runs (heap_realign_untraced K p n a 0 new af ff w) (failed own L w)
    (\<lambda>b w'. reallocated own L p n new w b w' \<and> (n \<noteq> 0 \<and> hp_ptr b = p \<or> IS_ALIGNED (hp_ptr b) a))"
    (is "runs _ _ ?P")
proof (cases "n = 0")
  case True
  have "runs (heap_align_untraced K a 0 new af w) (failed own L w) ?P"
    by (rule runs_weaken [OF runs_align_untraced [OF K s d a]]) (use True in \<open>auto simp: allocated_def reallocated_def\<close>)
  with True show ?thesis by (simp add: heap_realign_untraced_def IS_ALIGNED_def)
next
  case False
  note b' = b(1) [OF False]
  let ?f = "(new + (HEAP_ALIGNMENT - 1)) AND NOT (HEAP_ALIGNMENT - 1)"
  show ?thesis
  proof (cases "heap_alloc_size new")
    case None
    then have "new + (HEAP_ALIGNMENT - 1) < new" by (simp add: heap_alloc_size_def Let_def split: if_splits)
    with False b' show ?thesis using after_refl [OF s]
      by (simp add: heap_realign_untraced_def heap_allocation_overflow_def block_ok_def)
  next
    case (Some m)
    then have m: "\<not> new + (HEAP_ALIGNMENT - 1) < new" "(if ?f < HEAP_MINSIZE then HEAP_MINSIZE else ?f) = m"
      by (simp_all add: heap_alloc_size_def Let_def split: if_splits)
    note z' = heap_alloc_size_spec [OF Some]
    have "HEAP_MINSIZE \<le> n" using b' by (simp add: block_ok_def)
    then have le: "?f \<le> n \<longleftrightarrow> m \<le> n" and gt: "n < m \<Longrightarrow> ?f = m" using m(2) by (auto split: if_splits)
    have weak: "reallocated own L p n m w r w' \<Longrightarrow> reallocated own L p n new w r w'" for r w' using z'(1) by (auto simp: reallocated_def)
    have al: "runs (heap_align_untraced K a 0 m af v) (failed own L v) (\<lambda>b v'. allocated own L af m v b v' \<and> IS_ALIGNED (hp_ptr b) a)"
      if "after own L L w v" for v
      using runs_align_untraced [OF K _ _ a, of L v m af] that d by (simp add: after_def same_config_def)
    have "runs (if ?f \<le> n then heap_shrink K p n m ff w else heap_grow K (heap_align_untraced K a 0 ?f af) p n ?f af ff w) (failed own L w) ?P"
    proof (cases "m \<le> n")
      case True
      have "runs (heap_shrink K p n m ff w) no_error (\<lambda>b w'. reallocated own L p n m w b w' \<and> hp_ptr b = p)"
        by (rule runs_shrink [OF K s b' b(2) z'(2) True z'(3) z])
      from runs_weaken [OF this, of ?P "failed own L w"] weak False True le show ?thesis by simp
    next
      case gr: False
      then have "n < m" by simp
      from runs_weaken [OF runs_grow [OF K s b' b(2) this f al], of ?P "failed own L w"] weak False gr le gt [OF this] show ?thesis by auto
    qed
    then show ?thesis using False b' block_ok_asserts [OF b'] unfolding heap_realign_untraced_def Let_def m(2)
      by (simp only: m(1) hassert_simps simp_thms if_False)
  qed
qed

end
