(* ===== verification/Heap_Trim.thy ===== *)
theory Heap_Trim
  imports Heap_Alloc
begin

text \<open>
  Giving cached pages back: that \<^verbatim>\<open>heap_trim\<close> returns, what it releases, and that it changes no block.
\<close>

lemma trim_usable_release:
  assumes "trim_usable c"
  shows "release_range c = Some (CEILDIV (mf_self c) PAGESIZE, FLOORDIV (MFREE_END c) PAGESIZE, CEILDIV (mf_self c) PAGESIZE * PAGESIZE - mf_self c,
    FLOORDIV (MFREE_END c) PAGESIZE * PAGESIZE, MFREE_END c - FLOORDIV (MFREE_END c) PAGESIZE * PAGESIZE)"
proof -
  let ?m = "CEILDIV (mf_self c) PAGESIZE" and ?e = "FLOORDIV (MFREE_END c) PAGESIZE"
  have "?m < ?e" "\<not> (?m * PAGESIZE - mf_self c \<noteq> 0 \<and> ?m * PAGESIZE - mf_self c < HEAP_MINSIZE)"
    "\<not> (MFREE_END c - ?e * PAGESIZE \<noteq> 0 \<and> MFREE_END c - ?e * PAGESIZE < HEAP_MINSIZE)"
    using assms unfolding trim_usable_def Let_def by blast+
  then show ?thesis unfolding release_range_def Let_def MFREE_MIN_def by (simp only: if_True if_False prod.case not_le [symmetric] simp_thms)
qed

text \<open>One round of the loop: it returns whole pages that were free.\<close>

lemma trim_round:
  assumes K: "core_laws K own" and s: "sound own L w" and c: "c \<in> nodes (w_heap w)" "PAGESIZE \<le> mf_size c"
    and r: "release_range c = Some (mp, ep, hk, tk, tks)"
  obtains w1 w3 w4 where "heap_take K c w = Some (Inr (), w1)"
    "(if hk \<noteq> 0 then heap_free_raw K (mf_self c) hk (mf_flags c) (zero_or_pattern (mf_flags c) (mf_self c) w1)
      else Some (Inr (), zero_or_pattern (mf_flags c) (mf_self c) w1)) = Some (Inr (), w3)"
    "(if tks \<noteq> 0 then heap_free_raw K tk tks (mf_flags c) w3 else Some (Inr (), w3)) = Some (Inr (), w4)"
    "after own L L w (w_vm_update (k_unmap K mp (ep - mp)) w4)" "own (k_unmap K mp (ep - mp) (w_vm w4)) = own (w_vm w) - {mp..<ep}"
    "{mp..<ep} \<subseteq> own (w_vm w)" "mp < ep" "unat ep < 2 ^ 20"
proof -
  obtain w1 where w1: "heap_take K c w = Some (Inr (), w1)" and t: "taken c w w1" using taken_node [OF s c(1)] by blast
  have t1: "node_ok c" "heap_ok (w_heap w1)" "zero_ok w1" "isolated (mf_self c) (mf_size c) (w_heap w1)" "w_vm w1 = w_vm w"
    "free_bytes (w_heap w) = free_bytes (w_heap w1) \<union> node_bytes c" "\<And>x. x \<notin> free_bytes (w_heap w1) \<Longrightarrow> w_mem w1 x = w_mem w x"
    "mf_flags c = GFP_CALLOC \<Longrightarrow> \<forall>x \<in> node_bytes c - header c. w_mem w1 x = 0" "same_rest (w_heap w) (w_heap w1)"
    using t by (simp_all add: taken_def)
  note b = block_ok_node [OF t1(1)]
  note reg = release_regions [OF b c(2) r] and parts = release_parts [OF b c(2) r]
  let ?w2 = "zero_or_pattern (mf_flags c) (mf_self c) w1"
  have hd: "header c \<subseteq> node_bytes c" by (rule header_subset [OF t1(1)])
  have dj: "node_bytes c \<inter> free_bytes (w_heap w1) = {}" using t1(4) by (simp add: isolated_def node_bytes_def)
  have m2: "w_mem ?w2 x = w_mem w1 x" if "x \<notin> header c" for x using that by (simp add: zero_or_pattern_mem header_region)
  have ok2: "zero_ok ?w2" by (rule zero_ok_frame [OF t1(3)]) (use m2 hd dj in auto)
  have z: "w_mem ?w2 x = 0" if "has (mf_flags c) GFP_CALLOC" "x \<in> region (mf_self c) hk \<union> region tk tks" for x
    using that parts(1) t1(8) node_flags [OF t1(1)] m2 [of x]
    by (cases "x \<in> header c") (auto simp: zero_or_pattern_mem header_region)
  have w2: "heap_ok (w_heap ?w2)" "isolated (mf_self c) (mf_size c) (w_heap ?w2)" using t1(2,4) by simp_all
  from free_kept_parts [where fl = "mf_flags c", OF w2(1) ok2 b w2(2) c(2) r z]
  obtain w3 w4 where w3: "(if hk \<noteq> 0 then heap_free_again K 0 (mf_self c) hk (mf_flags c) ?w2 else Some (Inr (), ?w2)) = Some (Inr (), w3)"
    and w4: "(if tks \<noteq> 0 then heap_free_again K 0 tk tks (mf_flags c) w3 else Some (Inr (), w3)) = Some (Inr (), w4)"
    and a: "adds (region (mf_self c) hk \<union> region tk tks) ?w2 w4" .
  let ?w5 = "w_vm_update (k_unmap K mp (ep - mp)) w4"
  have own5: "own (w_vm ?w5) = own (w_vm w) - {mp..<ep}" using a t1(5) by (simp add: core_laws_dest(5) [OF K] adds_def)
  have sf: "free_bytes (w_heap w) \<union> L = page_bytes (own (w_vm w))" "free_bytes (w_heap w) \<inter> L = {}" and "\<forall>p \<in> own (w_vm w). unat p < kernel_pages"
    using s by (simp_all add: sound_def)
  then have kp: "\<forall>p \<in> own (w_vm w) - {mp..<ep}. unat p < kernel_pages" by blast
  have f5: "free_bytes (w_heap ?w5) = free_bytes (w_heap w) - page_bytes {mp..<ep}"
    using a parts dj by (auto simp: adds_def t1(6))
  have "zero_ok ?w5" using a by (simp add: adds_def zero_ok_def)
  then have "sound own L ?w5" using a sf kp parts(1) t1(6) unfolding sound_def own5 f5 by (auto simp: adds_def)
  moreover have "same_config (w_heap w) (w_heap ?w5)" using a t1(9) by (simp add: adds_def same_config_def same_rest_def)
  moreover have "w_mem ?w5 x = w_mem w x" if "x \<in> L" for x
  proof -
    have "x \<notin> free_bytes (w_heap w1)" "x \<notin> node_bytes c" using that sf(2) t1(6) by auto
    moreover from this have "w_mem ?w2 x = w_mem w x" using t1(7) [of x] m2 [of x] hd by auto
    ultimately show ?thesis using a parts(1) by (auto simp: adds_def)
  qed
  ultimately have af: "after own L L w ?w5" by (simp add: after_def)
  have "{mp..<ep} \<subseteq> own (w_vm w)"
  proof
    fix q assume q: "q \<in> {mp..<ep}"
    then have u: "unat mp \<le> unat q" "unat q < unat ep" by (simp_all add: word_le_nat_alt word_less_nat_alt)
    then have q20: "unat q < 2 ^ 20" using reg(7) b by (auto simp: block_ok_def fits_iff)
    then have "VM_ADDR2PAGE (VM_PAGE2ADDR q) = q" using unat_page_addr [of q]
      by (simp add: word_unat_eq_iff unat_VM_ADDR2PAGE VM_PAGE2ADDR_def)
    moreover have "VM_PAGE2ADDR q \<in> page_bytes {mp..<ep}" using q20 u unat_page_addr [of q] by (simp add: reg(3) VM_PAGE2ADDR_def)
    then have "VM_PAGE2ADDR q \<in> page_bytes (own (w_vm w))" using parts(1) t1(6) sf(1) by blast
    ultimately show "q \<in> own (w_vm w)" by (simp add: page_bytes_def)
  qed
  moreover have "mp < ep" "unat ep < 2 ^ 20" using reg(6,7) b by (auto simp: word_less_nat_alt block_ok_def fits_iff)
  ultimately show thesis using that [OF w1 w3 [folded heap_free_raw_def] w4 [folded heap_free_raw_def] af] own5 by simp
qed

definition trimmed :: "('v \<Rightarrow> 32 word set) \<Rightarrow> key set \<Rightarrow> 32 word \<Rightarrow> 32 word \<Rightarrow> 'v world \<Rightarrow> 32 word \<Rightarrow> 'v world \<Rightarrow> bool" where
  "trimmed own L threshold start w result w' \<longleftrightarrow> after own L L w w' \<and> own (w_vm w') \<subseteq> own (w_vm w) \<and>
     own (w_vm w) - own (w_vm w') \<subseteq> {p. unat p + 1 < 2 ^ 20} \<and>
     result = start + of_nat (4096 * card (own (w_vm w) - own (w_vm w'))) \<and>
     bucket_search trim_usable threshold (drop (HEAP_BUCKET_OF threshold) (h_size (w_heap w'))) = Inr None"

lemma trimmed_step:
  assumes t: "trimmed own L th (start + (ep - mp) * PAGESIZE) v result w'" and a: "after own L L w v" and o: "own (w_vm v) = own (w_vm w) - {mp..<ep}"
    and p: "{mp..<ep} \<subseteq> own (w_vm w)" "mp < ep" "unat ep < 2 ^ 20"
  shows "trimmed own L th start w result w'"
proof -
  let ?A = "own (w_vm w)" and ?C = "own (w_vm w')"
  have A: "?C \<subseteq> ?A - {mp..<ep}" using t o by (simp add: trimmed_def)
  then have split: "?A - ?C = {mp..<ep} \<union> (?A - {mp..<ep} - ?C)" "{mp..<ep} \<inter> (?A - {mp..<ep} - ?C) = {}" using p(1) by auto
  have "card (?A - ?C) = card {mp..<ep} + card (?A - {mp..<ep} - ?C)" by (subst split(1)) (simp add: card_Un_disjoint split(2))
  moreover have "card {mp..<ep} = unat ep - unat mp"
  proof -
    have "k \<in> unat ` {mp..<ep}" if "k \<in> {unat mp..<unat ep}" for k
    proof (rule image_eqI)
      show k: "k = unat (of_nat k :: 32 word)" using that unat_less_2_32 [of ep] by (intro unat_of_nat_32 [symmetric]) simp
      show "of_nat k \<in> {mp..<ep}" using that k [symmetric] by (simp add: word_le_nat_alt word_less_nat_alt)
    qed
    then have "unat ` {mp..<ep} = {unat mp..<unat ep}" by (auto simp: word_le_nat_alt word_less_nat_alt)
    moreover have "inj_on unat {mp..<ep}" by (simp add: inj_on_def word_unat_eq_iff)
    ultimately show ?thesis by (metis card_atLeastLessThan card_image)
  qed
  moreover have "(of_nat (unat ep - unat mp) :: 32 word) = ep - mp" using p(2)
    by (simp add: of_nat_diff word_less_nat_alt)
  ultimately have "card (?A - ?C) = card {mp..<ep} + card (?A - {mp..<ep} - ?C)" "of_nat (card {mp..<ep}) = ep - mp" by simp_all
  then have "of_nat (4096 * card (?A - ?C)) = (ep - mp) * PAGESIZE + of_nat (4096 * card (?A - {mp..<ep} - ?C))"
    by (simp only: of_nat_mult of_nat_add distrib_left PAGESIZE_def of_nat_numeral mult.commute [of "ep - mp"])
  moreover have "?A - ?C \<subseteq> {p. unat p + 1 < 2 ^ 20}"
  proof -
    have "{mp..<ep} \<subseteq> {p. unat p + 1 < 2 ^ 20}" using p(3) by (auto simp: word_less_nat_alt)
    then show ?thesis using t o split(1) by (auto simp: trimmed_def)
  qed
  ultimately show ?thesis using t o A after_trans [OF a] by (auto simp: trimmed_def)
qed

lemma runs_trim_again:
  assumes K: "core_laws K own" and th: "PAGESIZE \<le> threshold"
  shows "sound own L w \<Longrightarrow> runs (heap_trim_again K threshold start w) no_error (trimmed own L threshold start w)"
proof (induction "card (own (w_vm w))" arbitrary: w start rule: less_induct)
  case less
  note s = less.prems
  have l: "linked (w_heap w)" using s by (simp add: sound_def heap_ok_def)
  obtain r where r: "bucket_search trim_usable threshold (drop (HEAP_BUCKET_OF threshold) (h_size (w_heap w))) = Inr r"
      "\<forall>c. r = Some c \<longrightarrow> c \<in> set (concat (drop (HEAP_BUCKET_OF threshold) (h_size (w_heap w)))) \<and> threshold \<le> mf_size c \<and> trim_usable c"
    using bucket_search_spec [OF linked_buckets(1) [OF l]] by blast
  show ?case
  proof (cases r)
    case None
    then show ?thesis using r(1) after_refl [OF s, of L] by (subst heap_trim_again.simps) (simp add: trimmed_def)
  next
    case (Some c)
    then have c: "c \<in> nodes (w_heap w)" "PAGESIZE \<le> mf_size c" "trim_usable c"
      using r(2) th by (auto simp: nodes_def dest: in_set_dropD)
    let ?m = "CEILDIV (mf_self c) PAGESIZE" and ?e = "FLOORDIV (MFREE_END c) PAGESIZE"
    let ?hk = "?m * PAGESIZE - mf_self c" and ?tks = "MFREE_END c - ?e * PAGESIZE"
    obtain w1 w3 w4 where run: "heap_take K c w = Some (Inr (), w1)"
        "(if ?hk \<noteq> 0 then heap_free_raw K (mf_self c) ?hk (mf_flags c) (zero_or_pattern (mf_flags c) (mf_self c) w1)
          else Some (Inr (), zero_or_pattern (mf_flags c) (mf_self c) w1)) = Some (Inr (), w3)"
        "(if ?tks \<noteq> 0 then heap_free_raw K (?e * PAGESIZE) ?tks (mf_flags c) w3 else Some (Inr (), w3)) = Some (Inr (), w4)"
      and a: "after own L L w (w_vm_update (k_unmap K ?m (?e - ?m)) w4)" "own (k_unmap K ?m (?e - ?m) (w_vm w4)) = own (w_vm w) - {?m..<?e}"
        "{?m..<?e} \<subseteq> own (w_vm w)" "?m < ?e" "unat ?e < 2 ^ 20"
      using trim_round [OF K s c(1,2) trim_usable_release [OF c(3)]] .
    let ?v = "w_vm_update (k_unmap K ?m (?e - ?m)) w4"
    have "MFREE_END c - ?tks = ?e * PAGESIZE" "?e - ?m \<noteq> 0" using a(4) by auto
    then have "heap_trim_again K threshold start w = heap_trim_again K threshold (start + (?e - ?m) * PAGESIZE) ?v"
      by (subst heap_trim_again.simps) (simp only: r(1) Some hlift_simps hbind_simps option.case Let_def run core_page_free_def hassert_simps not_False_eq_True)
    moreover have "card (own (w_vm ?v)) < card (own (w_vm w))"
    proof (rule psubset_card_mono)
      have "?m \<in> {?m..<?e}" using a(4) by simp
      then have "?m \<in> own (w_vm w)" "?m \<notin> own (w_vm ?v)" using a(2,3) by (blast, simp)
      then show "own (w_vm ?v) \<subset> own (w_vm w)" using a(2) by auto
    qed simp
    moreover have "sound own L ?v" using a(1) by (simp add: after_def)
    ultimately have "runs (heap_trim_again K threshold start w) no_error (trimmed own L threshold (start + (?e - ?m) * PAGESIZE) ?v)"
      using less.hyps by simp
    then show ?thesis by (rule runs_weaken) (use trimmed_step [OF _ a(1) _ a(3-5)] a(2) in auto)
  qed
qed

definition trim_threshold :: "32 word \<Rightarrow> 32 word" where
  "trim_threshold t = (if CEIL_ALIGN32 t PAGESIZE = 0 then PAGESIZE else CEIL_ALIGN32 t PAGESIZE)"

lemma page_le_threshold: "PAGESIZE \<le> trim_threshold t"
proof -
  let ?c = "CEIL_ALIGN32 t PAGESIZE"
  have "?c = (t + (PAGESIZE - 1)) AND NOT (PAGESIZE - 1)" by (simp add: CEIL_ALIGN32_def)
  then have "4096 dvd unat ?c" by (simp only: unat_floor_page dvd_triv_left)
  then show ?thesis by (auto simp: trim_threshold_def word_le_nat_alt PAGESIZE_def unat_gt_0 [symmetric] dvd_def)
qed

lemma runs_trim:
  assumes K: "core_laws K own" and s: "sound own L w"
  shows "runs (heap_trim K t w) no_error (\<lambda>result w'. after own L L w w' \<and> own (w_vm w') \<subseteq> own (w_vm w) \<and>
    unat result = 4096 * card (own (w_vm w) - own (w_vm w')) \<and>
    bucket_search trim_usable (trim_threshold t) (drop (HEAP_BUCKET_OF (trim_threshold t)) (h_size (w_heap w'))) = Inr None)"
proof -
  have "unat result = 4096 * card (own (w_vm w) - own (w_vm w'))" if "trimmed own L (trim_threshold t) 0 w result w'" for result w'
  proof -
    let ?R = "own (w_vm w) - own (w_vm w')"
    have R: "?R \<subseteq> {p. unat p + 1 < 2 ^ 20}" "result = of_nat (4096 * card ?R)" using that by (simp_all add: trimmed_def)
    have "card ?R = card (unat ` ?R)" by (rule card_image [symmetric]) (simp add: inj_on_def word_unat_eq_iff)
    also have "\<dots> \<le> card {..<2 ^ 20 - 1 :: nat}" using R(1) by (intro card_mono) auto
    finally have "4096 * card ?R < 2 ^ 32" by simp
    then show ?thesis unfolding R(2) by (rule unat_of_nat_32)
  qed
  moreover have "heap_trim K t w = heap_trim_again K (trim_threshold t) 0 w" by (simp add: heap_trim_def trim_threshold_def Let_def)
  ultimately show ?thesis using runs_trim_again [OF K page_le_threshold s, of t 0]
    by (auto elim!: runs_weaken simp: trimmed_def)
qed

end
