(* ===== verification/Heap_Client.thy ===== *)
theory Heap_Client
  imports Heap_Align Heap_Trim
begin

text \<open>
  The heap as its users see it: an allocator with a contract, and what follows from the contract for any sequence of requests.
\<close>

section \<open>Allocators\<close>

type_synonym ('s, 'a) effect = "'s \<Rightarrow> ('a result \<times> 's) option"

record 's allocator =
  al_alloc :: "32 word \<Rightarrow> gfp \<Rightarrow> ('s, heapptr) effect"
  al_align :: "32 word \<Rightarrow> 32 word \<Rightarrow> gfp \<Rightarrow> ('s, heapptr) effect"
  al_free :: "heapptr \<Rightarrow> gfp \<Rightarrow> ('s, unit) effect"
  al_realloc :: "heapptr \<Rightarrow> 32 word \<Rightarrow> gfp \<Rightarrow> gfp \<Rightarrow> ('s, heapptr) effect"
  al_trim :: "32 word \<Rightarrow> ('s, 32 word) effect"
  al_store :: "key \<Rightarrow> byte \<Rightarrow> 's \<Rightarrow> 's"
  al_mem :: "'s \<Rightarrow> memory"

abbreviation block_bytes :: "heapptr \<Rightarrow> key set" where
  "block_bytes b \<equiv> region (hp_ptr b) (hp_siz b)"

definition heap_allocator :: "'v kernel \<Rightarrow> 'v world allocator" where
  "heap_allocator K =
     \<lparr>al_alloc = heap_alloc_untraced K,
      al_align = (\<lambda>a. heap_align_untraced K a 0),
      al_free = (\<lambda>b. heap_free_untraced K (hp_ptr b) (hp_siz b)),
      al_realloc = (\<lambda>b. heap_realloc_untraced K (hp_ptr b) (hp_siz b)),
      al_trim = heap_trim K,
      al_store = (\<lambda>x v. w_mem_update (\<lambda>m. m(x := v))),
      al_mem = w_mem\<rparr>"

section \<open>Requests\<close>

datatype request =
    Alloc "32 word" gfp
  | Align nat "32 word" gfp
  | Free heapptr gfp
  | Realloc heapptr "32 word" gfp gfp
  | Trim "32 word"
  | Store key byte

text \<open>
  What a user may ask for, given the memory and the blocks that it has: any allocation, one that is aligned by up to 2 MiB (and has no offset),
  to free or to reallocate one of its blocks as a whole, with \<^verbatim>\<open>GFP_CALLOC\<close> for the memory that becomes free only when the block is zero
  and never for the memory that is added to a block, to trim the heap, and to write to its blocks.
\<close>

fun allowed :: "memory \<Rightarrow> heapptr list \<Rightarrow> request \<Rightarrow> bool" where
  "allowed m bs (Alloc n fl) = True"
| "allowed m bs (Align k n fl) = (k \<le> 21)"
| "allowed m bs (Free b fl) = (b \<in> set bs \<and> (has fl GFP_CALLOC \<longrightarrow> (\<forall>x \<in> block_bytes b. m x = 0)))"
| "allowed m bs (Realloc b n af ff) = (b \<in> set bs \<and> \<not> has af GFP_CALLOC \<and> (has ff GFP_CALLOC \<longrightarrow> (\<forall>x \<in> block_bytes b. m x = 0)))"
| "allowed m bs (Trim t) = True"
| "allowed m bs (Store x v) = (\<exists>b \<in> set bs. x \<in> block_bytes b)"

text \<open>A request is served, or throws an exception and leaves the blocks as they are; a failed assertion ends the run.\<close>

definition served :: "('a result \<times> 's) option \<Rightarrow> ('a \<Rightarrow> heapptr list) \<Rightarrow> heapptr list \<Rightarrow> ('s \<times> heapptr list) pres" where
  "served r f bs = Option.bind r (\<lambda>(x, s). case x of
     Inl e \<Rightarrow> if e = E_ASSERT then Some (Inl e) else Some (Inr (s, bs))
   | Inr y \<Rightarrow> Some (Inr (s, f y)))"

fun serve :: "'s allocator \<Rightarrow> request \<Rightarrow> 's \<times> heapptr list \<Rightarrow> ('s \<times> heapptr list) pres" where
  "serve A (Alloc n fl) (s, bs) = served (al_alloc A n fl s) (\<lambda>b. b # bs) bs"
| "serve A (Align k n fl) (s, bs) = served (al_align A (2 ^ k) n fl s) (\<lambda>b. b # bs) bs"
| "serve A (Free b fl) (s, bs) = served (al_free A b fl s) (\<lambda>_. remove1 b bs) bs"
| "serve A (Realloc b n af ff) (s, bs) = served (al_realloc A b n af ff s) (\<lambda>c. c # remove1 b bs) bs"
| "serve A (Trim t) (s, bs) = served (al_trim A t s) (\<lambda>_. bs) bs"
| "serve A (Store x v) (s, bs) = Some (Inr (al_store A x v s, bs))"

text \<open>Turn by turn, users look at the memory and at the blocks that are held, and make a request or none.\<close>

type_synonym user = "memory \<Rightarrow> heapptr list \<Rightarrow> request option"

primrec serve_users :: "'s allocator \<Rightarrow> user list \<Rightarrow> 's \<times> heapptr list \<Rightarrow> ('s \<times> heapptr list) pres" where
  "serve_users A [] st = Some (Inr st)"
| "serve_users A (u # us) st = (case u (al_mem A (fst st)) (snd st) of
     None \<Rightarrow> serve_users A us st
   | Some r \<Rightarrow> pbind (serve A r st) (serve_users A us))"

text \<open>A list of requests, of which those are made that are allowed when it is their turn.\<close>

definition serve_all :: "'s allocator \<Rightarrow> request list \<Rightarrow> 's \<times> heapptr list \<Rightarrow> ('s \<times> heapptr list) pres" where
  "serve_all A rs = serve_users A (map (\<lambda>r m bs. if allowed m bs r then Some r else None) rs)"

text \<open>Whether a request leaves a block alone.\<close>

fun spares :: "heapptr \<Rightarrow> request \<Rightarrow> bool" where
  "spares b (Free c fl) = (c \<noteq> b)"
| "spares b (Realloc c n af ff) = (c \<noteq> b)"
| "spares b (Store x v) = (x \<notin> block_bytes b)"
| "spares b r = True"

section \<open>The contract\<close>

definition live :: "heapptr list \<Rightarrow> key set" where
  "live bs = (\<Union>b \<in> set bs. block_bytes b)"

definition apart_blocks :: "heapptr list \<Rightarrow> bool" where
  "apart_blocks bs \<longleftrightarrow> (\<forall>b \<in> set bs. block_ok (hp_ptr b) (hp_siz b)) \<and> sorted_wrt (\<lambda>b c. block_bytes b \<inter> block_bytes c = {}) bs"

lemma live_simps [simp]: "live [] = {}" "live (b # bs) = block_bytes b \<union> live bs"
  by (simp_all add: live_def)

lemma live_mem: "b \<in> set bs \<Longrightarrow> block_bytes b \<subseteq> live bs"
  by (auto simp: live_def)

lemma apart_blocks_simps [simp]:
  "apart_blocks []" "apart_blocks (b # bs) \<longleftrightarrow> block_ok (hp_ptr b) (hp_siz b) \<and> block_bytes b \<inter> live bs = {} \<and> apart_blocks bs"
  by (auto simp: apart_blocks_def live_def)

lemma apart_blocks_ok: "apart_blocks bs \<Longrightarrow> b \<in> set bs \<Longrightarrow> block_ok (hp_ptr b) (hp_siz b)"
  by (simp add: apart_blocks_def)

lemma apart_blocks_remove:
  assumes "apart_blocks bs" "b \<in> set bs"
  shows "apart_blocks (remove1 b bs) \<and> live (remove1 b bs) = live bs - block_bytes b"
  using assms
proof (induction bs)
  case (Cons c bs)
  show ?case
  proof (cases "c = b")
    case True
    with Cons.prems(1) show ?thesis by auto
  next
    case False
    then have b: "b \<in> set bs" using Cons.prems(2) by simp
    then have "block_bytes c \<inter> block_bytes b = {}" using Cons.prems(1) live_mem [OF b] by auto
    then show ?thesis using Cons.IH Cons.prems(1) b False by auto
  qed
qed simp

lemma apart_blocks_other: "apart_blocks bs \<Longrightarrow> b \<in> set bs \<Longrightarrow> c \<in> set bs \<Longrightarrow> b \<noteq> c \<Longrightarrow> block_bytes c \<subseteq> live bs - block_bytes b"
  using apart_blocks_remove [of bs b] live_mem [of c "remove1 b bs"] by (simp add: in_set_remove1)

locale block_allocator =
  fixes A :: "'s allocator" and inv :: "key set \<Rightarrow> 's \<Rightarrow> bool"
  assumes alloc_law: "inv L s \<Longrightarrow> \<exists>r s'. al_alloc A n fl s = Some (r, s') \<and> r \<noteq> Inl E_ASSERT \<and> (\<forall>x \<in> L. al_mem A s' x = al_mem A s x) \<and>
      (case r of Inl _ \<Rightarrow> inv L s' | Inr b \<Rightarrow> block_ok (hp_ptr b) (hp_siz b) \<and> block_bytes b \<inter> L = {} \<and> inv (L \<union> block_bytes b) s')"
    and align_law: "inv L s \<Longrightarrow> k \<le> 21 \<Longrightarrow> \<exists>r s'. al_align A (2 ^ k) n fl s = Some (r, s') \<and> r \<noteq> Inl E_ASSERT \<and> (\<forall>x \<in> L. al_mem A s' x = al_mem A s x) \<and>
      (case r of Inl _ \<Rightarrow> inv L s' | Inr b \<Rightarrow> block_ok (hp_ptr b) (hp_siz b) \<and> block_bytes b \<inter> L = {} \<and> inv (L \<union> block_bytes b) s')"
    and free_law: "inv L s \<Longrightarrow> block_ok (hp_ptr b) (hp_siz b) \<Longrightarrow> block_bytes b \<subseteq> L \<Longrightarrow> (has fl GFP_CALLOC \<Longrightarrow> \<forall>x \<in> block_bytes b. al_mem A s x = 0) \<Longrightarrow>
      \<exists>s'. al_free A b fl s = Some (Inr (), s') \<and> inv (L - block_bytes b) s' \<and> (\<forall>x \<in> L - block_bytes b. al_mem A s' x = al_mem A s x)"
    and realloc_law: "inv L s \<Longrightarrow> block_ok (hp_ptr b) (hp_siz b) \<Longrightarrow> block_bytes b \<subseteq> L \<Longrightarrow> \<not> has af GFP_CALLOC \<Longrightarrow>
      (has ff GFP_CALLOC \<Longrightarrow> \<forall>x \<in> block_bytes b. al_mem A s x = 0) \<Longrightarrow>
      \<exists>r s'. al_realloc A b n af ff s = Some (r, s') \<and> r \<noteq> Inl E_ASSERT \<and> (\<forall>x \<in> L - block_bytes b. al_mem A s' x = al_mem A s x) \<and>
      (case r of Inl _ \<Rightarrow> inv L s'
       | Inr c \<Rightarrow> block_ok (hp_ptr c) (hp_siz c) \<and> block_bytes c \<inter> (L - block_bytes b) = {} \<and> inv (L - block_bytes b \<union> block_bytes c) s')"
    and trim_law: "inv L s \<Longrightarrow> \<exists>n s'. al_trim A t s = Some (Inr n, s') \<and> inv L s' \<and> (\<forall>x \<in> L. al_mem A s' x = al_mem A s x)"
    and store_law: "inv L s \<Longrightarrow> x \<in> L \<Longrightarrow> inv L (al_store A x v s) \<and> al_mem A (al_store A x v s) = (al_mem A s)(x := v)"
begin

lemma served_new:
  assumes a: "apart_blocks bs" and m: "\<exists>r s'. m = Some (r, s') \<and> r \<noteq> Inl E_ASSERT \<and> (\<forall>x \<in> live bs. al_mem A s' x = al_mem A s x) \<and>
      (case r of Inl _ \<Rightarrow> inv (live bs) s'
       | Inr b \<Rightarrow> block_ok (hp_ptr b) (hp_siz b) \<and> block_bytes b \<inter> live bs = {} \<and> inv (live bs \<union> block_bytes b) s')"
  shows "\<exists>s' bs'. served m (\<lambda>b. b # bs) bs = Some (Inr (s', bs')) \<and> inv (live bs') s' \<and> apart_blocks bs' \<and>
    (\<forall>b \<in> set bs. b \<in> set bs' \<and> (\<forall>x \<in> block_bytes b. al_mem A s' x = al_mem A s x))"
proof -
  obtain r s' where r: "m = Some (r, s')" "r \<noteq> Inl E_ASSERT" "\<forall>x \<in> live bs. al_mem A s' x = al_mem A s x"
      "case r of Inl _ \<Rightarrow> inv (live bs) s'
       | Inr b \<Rightarrow> block_ok (hp_ptr b) (hp_siz b) \<and> block_bytes b \<inter> live bs = {} \<and> inv (live bs \<union> block_bytes b) s'"
    using m by blast
  have "\<forall>b \<in> set bs. \<forall>x \<in> block_bytes b. al_mem A s' x = al_mem A s x" using r(3) live_mem by blast
  then show ?thesis using r a by (cases r) (auto simp: served_def Un_commute)
qed

lemma serve_ok:
  assumes i: "inv (live bs) s" and a: "apart_blocks bs" and r: "allowed (al_mem A s) bs r"
  shows "\<exists>s' bs'. serve A r (s, bs) = Some (Inr (s', bs')) \<and> inv (live bs') s' \<and> apart_blocks bs' \<and>
    (\<forall>b \<in> set bs. spares b r \<longrightarrow> b \<in> set bs' \<and> (\<forall>x \<in> block_bytes b. al_mem A s' x = al_mem A s x))"
proof (cases r)
  case (Alloc n fl)
  with served_new [OF a alloc_law [OF i, of n fl]] show ?thesis by simp
next
  case (Align k n fl)
  then have "k \<le> 21" using r by simp
  from served_new [OF a align_law [OF i this, of n fl]] Align show ?thesis by simp
next
  case (Free b fl)
  then have b: "b \<in> set bs" "has fl GFP_CALLOC \<Longrightarrow> \<forall>x \<in> block_bytes b. al_mem A s x = 0" using r by simp_all
  note rm = apart_blocks_remove [OF a b(1)]
  obtain s' where "al_free A b fl s = Some (Inr (), s')" "inv (live bs - block_bytes b) s'" "\<forall>x \<in> live bs - block_bytes b. al_mem A s' x = al_mem A s x"
    using free_law [OF i apart_blocks_ok [OF a b(1)] live_mem [OF b(1)] b(2)] by blast
  with Free rm show ?thesis using apart_blocks_other [OF a b(1)] by (auto simp: served_def in_set_remove1)
next
  case (Realloc b n af ff)
  then have b: "b \<in> set bs" "\<not> has af GFP_CALLOC" "has ff GFP_CALLOC \<Longrightarrow> \<forall>x \<in> block_bytes b. al_mem A s x = 0" using r by simp_all
  note rm = apart_blocks_remove [OF a b(1)]
  note other = apart_blocks_other [OF a b(1)]
  obtain x s' where x: "al_realloc A b n af ff s = Some (x, s')" "x \<noteq> Inl E_ASSERT" "\<forall>y \<in> live bs - block_bytes b. al_mem A s' y = al_mem A s y"
      "case x of Inl _ \<Rightarrow> inv (live bs) s'
       | Inr c \<Rightarrow> block_ok (hp_ptr c) (hp_siz c) \<and> block_bytes c \<inter> (live bs - block_bytes b) = {} \<and> inv (live bs - block_bytes b \<union> block_bytes c) s'"
    using realloc_law [OF i apart_blocks_ok [OF a b(1)] live_mem [OF b(1)] b(2,3)] by blast
  have fr: "\<forall>c \<in> set bs. spares c r \<longrightarrow> (\<forall>y \<in> block_bytes c. al_mem A s' y = al_mem A s y)" using x(3) other Realloc by fastforce
  show ?thesis
  proof (cases x)
    case (Inl e)
    with x Realloc a fr show ?thesis by (auto simp: served_def)
  next
    case (Inr c)
    with x rm have "inv (live (c # remove1 b bs)) s'" "apart_blocks (c # remove1 b bs)" by (simp_all add: Un_commute)
    with x(1) Inr Realloc fr show ?thesis by (auto simp: served_def in_set_remove1)
  qed
next
  case (Trim t)
  obtain n s' where t: "al_trim A t s = Some (Inr n, s')" "inv (live bs) s'" "\<forall>x \<in> live bs. al_mem A s' x = al_mem A s x"
    using trim_law [OF i, of t] by blast
  have "\<forall>b \<in> set bs. \<forall>x \<in> block_bytes b. al_mem A s' x = al_mem A s x" using t(3) live_mem by blast
  with t(1,2) Trim a show ?thesis by (simp add: served_def)
next
  case (Store x v)
  then have "x \<in> live bs" using r by (auto simp: live_def)
  then show ?thesis using store_law [OF i, of x v] Store a by auto
qed

lemma serve_users_ok:
  assumes "inv (live bs) s" "apart_blocks bs" "\<forall>u \<in> set us. \<forall>m cs r. u m cs = Some r \<longrightarrow> allowed m cs r"
  shows "\<exists>s' bs'. serve_users A us (s, bs) = Some (Inr (s', bs')) \<and> inv (live bs') s' \<and> apart_blocks bs' \<and>
    (\<forall>b \<in> set bs. (\<forall>u \<in> set us. \<forall>m cs r. u m cs = Some r \<longrightarrow> spares b r) \<longrightarrow> b \<in> set bs' \<and> (\<forall>x \<in> block_bytes b. al_mem A s' x = al_mem A s x))"
  using assms
proof (induction us arbitrary: s bs)
  case (Cons u us)
  have us: "\<forall>u \<in> set us. \<forall>m cs r. u m cs = Some r \<longrightarrow> allowed m cs r" using Cons.prems(3) by simp
  show ?case
  proof (cases "u (al_mem A s) bs")
    case None
    obtain s' bs' where "serve_users A us (s, bs) = Some (Inr (s', bs'))" "inv (live bs') s'" "apart_blocks bs'"
        "\<forall>b \<in> set bs. (\<forall>u \<in> set us. \<forall>m cs r. u m cs = Some r \<longrightarrow> spares b r) \<longrightarrow> b \<in> set bs' \<and> (\<forall>x \<in> block_bytes b. al_mem A s' x = al_mem A s x)"
      using Cons.IH [OF Cons.prems(1,2) us] by blast
    with None show ?thesis by auto
  next
    case (Some r)
    with Cons.prems(3) have "allowed (al_mem A s) bs r" by simp
    then obtain t cs where t: "serve A r (s, bs) = Some (Inr (t, cs))" "inv (live cs) t" "apart_blocks cs"
        "\<forall>b \<in> set bs. spares b r \<longrightarrow> b \<in> set cs \<and> (\<forall>x \<in> block_bytes b. al_mem A t x = al_mem A s x)"
      using serve_ok [OF Cons.prems(1,2)] by blast
    obtain s' bs' where v: "serve_users A us (t, cs) = Some (Inr (s', bs'))" "inv (live bs') s'" "apart_blocks bs'"
        "\<forall>b \<in> set cs. (\<forall>u \<in> set us. \<forall>m cs r. u m cs = Some r \<longrightarrow> spares b r) \<longrightarrow> b \<in> set bs' \<and> (\<forall>x \<in> block_bytes b. al_mem A s' x = al_mem A t x)"
      using Cons.IH [OF t(2,3) us] by blast
    have "serve_users A (u # us) (s, bs) = Some (Inr (s', bs'))" using Some t(1) v(1) by simp
    moreover have "b \<in> set bs' \<and> (\<forall>x \<in> block_bytes b. al_mem A s' x = al_mem A s x)"
      if "b \<in> set bs" "\<forall>u \<in> set (u # us). \<forall>m cs r. u m cs = Some r \<longrightarrow> spares b r" for b
      using that Some t(4) v(4) by (metis list.set_intros)
    ultimately show ?thesis using v(2,3) by blast
  qed
qed simp

lemma serve_all_ok:
  assumes "inv (live bs) s" "apart_blocks bs"
  shows "\<exists>s' bs'. serve_all A rs (s, bs) = Some (Inr (s', bs')) \<and> inv (live bs') s' \<and> apart_blocks bs' \<and>
    (\<forall>b \<in> set bs. (\<forall>r \<in> set rs. spares b r) \<longrightarrow> b \<in> set bs' \<and> (\<forall>x \<in> block_bytes b. al_mem A s' x = al_mem A s x))"
proof -
  let ?us = "map (\<lambda>r m bs. if allowed m bs r then Some r else None) rs"
  have ok: "\<forall>u \<in> set ?us. \<forall>m cs r. u m cs = Some r \<longrightarrow> allowed m cs r" by (auto split: if_splits)
  have spare: "\<forall>u \<in> set ?us. \<forall>m cs r. u m cs = Some r \<longrightarrow> spares b r" if "\<forall>r \<in> set rs. spares b r" for b
    using that by (auto split: if_splits)
  obtain s' bs' where "serve_users A ?us (s, bs) = Some (Inr (s', bs'))" "inv (live bs') s'" "apart_blocks bs'"
      "\<forall>b \<in> set bs. (\<forall>u \<in> set ?us. \<forall>m cs r. u m cs = Some r \<longrightarrow> spares b r) \<longrightarrow> b \<in> set bs' \<and> (\<forall>x \<in> block_bytes b. al_mem A s' x = al_mem A s x)"
    using serve_users_ok [OF assms ok] by blast
  then show ?thesis using spare unfolding serve_all_def by blast
qed

end

section \<open>The heap keeps the contract\<close>

definition heap_inv :: "'v kernel \<Rightarrow> ('v \<Rightarrow> 32 word set) \<Rightarrow> key set \<Rightarrow> 'v world \<Rightarrow> bool" where
  "heap_inv K own L w \<longleftrightarrow> core_laws K own \<and> sound own L w \<and> h_dangle (w_heap w) = 0"

lemma heap_inv_after: "heap_inv K own L w \<Longrightarrow> after own F L' w w' \<Longrightarrow> heap_inv K own L' w' \<and> (\<forall>x \<in> F. w_mem w' x = w_mem w x)"
  by (simp add: heap_inv_def after_def same_config_def)

lemma runs_result:
  assumes "runs m E P"
  obtains r w where "m = Some (r, w)" "r \<noteq> Inl E_ASSERT" "case r of Inl e \<Rightarrow> E e w | Inr x \<Rightarrow> P x w"
  using assms by (cases rule: runs_cases) auto

lemma heap_alloc_contract:
  assumes i: "heap_inv K own L w" and m: "runs m (failed own L w) (\<lambda>b w'. allocated own L fl n w b w' \<and> Q b)"
  shows "\<exists>r w'. m = Some (r, w') \<and> r \<noteq> Inl E_ASSERT \<and> (\<forall>x \<in> L. w_mem w' x = w_mem w x) \<and>
    (case r of Inl _ \<Rightarrow> heap_inv K own L w'
     | Inr b \<Rightarrow> block_ok (hp_ptr b) (hp_siz b) \<and> block_bytes b \<inter> L = {} \<and> heap_inv K own (L \<union> block_bytes b) w')"
proof -
  obtain r w' where r: "m = Some (r, w')" "r \<noteq> Inl E_ASSERT" "case r of Inl e \<Rightarrow> after own L L w w' | Inr b \<Rightarrow> allocated own L fl n w b w' \<and> Q b"
    by (rule runs_result [OF m]) blast
  show ?thesis
  proof (cases r)
    case (Inl e)
    with r heap_inv_after [OF i, of L L w'] show ?thesis by simp
  next
    case (Inr b)
    with r(3) have b: "allocated own L fl n w b w'" by simp
    with heap_inv_after [OF i, of L "L \<union> block_bytes b" w'] Inr r(1) show ?thesis by (simp add: allocated_def)
  qed
qed

interpretation kheap: block_allocator "heap_allocator K" "heap_inv K own" for K own
proof
  fix L w n fl assume i: "heap_inv K own L w"
  then have s: "core_laws K own" "sound own L w" "h_dangle (w_heap w) = 0" by (simp_all add: heap_inv_def)
  from runs_alloc_untraced [OF s, of n fl]
  have "runs (heap_alloc_untraced K n fl w) (failed own L w) (\<lambda>b w'. allocated own L fl n w b w' \<and> True)" by simp
  from heap_alloc_contract [OF i this]
  show "\<exists>r w'. al_alloc (heap_allocator K) n fl w = Some (r, w') \<and> r \<noteq> Inl E_ASSERT \<and> (\<forall>x \<in> L. al_mem (heap_allocator K) w' x = al_mem (heap_allocator K) w x) \<and>
      (case r of Inl _ \<Rightarrow> heap_inv K own L w' | Inr b \<Rightarrow> block_ok (hp_ptr b) (hp_siz b) \<and> block_bytes b \<inter> L = {} \<and> heap_inv K own (L \<union> block_bytes b) w')"
    by (simp add: heap_allocator_def)
next
  fix L w n fl and k :: nat assume i: "heap_inv K own L w" and k: "k \<le> 21"
  then have s: "core_laws K own" "sound own L w" "h_dangle (w_heap w) = 0" by (simp_all add: heap_inv_def)
  from heap_alloc_contract [OF i runs_align_untraced [OF s refl k, of n fl]]
  show "\<exists>r w'. al_align (heap_allocator K) (2 ^ k) n fl w = Some (r, w') \<and> r \<noteq> Inl E_ASSERT \<and> (\<forall>x \<in> L. al_mem (heap_allocator K) w' x = al_mem (heap_allocator K) w x) \<and>
      (case r of Inl _ \<Rightarrow> heap_inv K own L w' | Inr b \<Rightarrow> block_ok (hp_ptr b) (hp_siz b) \<and> block_bytes b \<inter> L = {} \<and> heap_inv K own (L \<union> block_bytes b) w')"
    by (simp add: heap_allocator_def)
next
  fix L w b fl assume i: "heap_inv K own L w" and b: "block_ok (hp_ptr b) (hp_siz b)" "block_bytes b \<subseteq> L"
    and z: "has fl GFP_CALLOC \<Longrightarrow> \<forall>x \<in> block_bytes b. al_mem (heap_allocator K) w x = 0"
  then have s: "core_laws K own" "sound own L w" by (simp_all add: heap_inv_def)
  have "runs (heap_free_untraced K (hp_ptr b) (hp_siz b) fl w) no_error (\<lambda>_. after own (L - block_bytes b) (L - block_bytes b) w)"
    by (intro runs_heap_free_untraced [OF s b(1,2)]) (use z in \<open>simp add: heap_allocator_def\<close>)
  then show "\<exists>w'. al_free (heap_allocator K) b fl w = Some (Inr (), w') \<and> heap_inv K own (L - block_bytes b) w' \<and>
      (\<forall>x \<in> L - block_bytes b. al_mem (heap_allocator K) w' x = al_mem (heap_allocator K) w x)"
    using heap_inv_after [OF i] by (cases rule: runs_cases) (auto simp: heap_allocator_def)
next
  fix L w b af ff n assume i: "heap_inv K own L w" and b: "block_ok (hp_ptr b) (hp_siz b)" "block_bytes b \<subseteq> L" "\<not> has af GFP_CALLOC"
    and z: "has ff GFP_CALLOC \<Longrightarrow> \<forall>x \<in> block_bytes b. al_mem (heap_allocator K) w x = 0"
  then have s: "core_laws K own" "sound own L w" "h_dangle (w_heap w) = 0" by (simp_all add: heap_inv_def)
  have "runs (heap_realloc_untraced K (hp_ptr b) (hp_siz b) n af ff w) (failed own L w) (reallocated own L (hp_ptr b) (hp_siz b) n w)"
    by (rule runs_realloc [OF s b(1) b(2,3)]) (use z in \<open>simp add: heap_allocator_def\<close>)
  then obtain r w' where r: "heap_realloc_untraced K (hp_ptr b) (hp_siz b) n af ff w = Some (r, w')" "r \<noteq> Inl E_ASSERT"
      "case r of Inl e \<Rightarrow> after own L L w w' | Inr c \<Rightarrow> reallocated own L (hp_ptr b) (hp_siz b) n w c w'"
    by (rule runs_result) blast
  show "\<exists>r w'. al_realloc (heap_allocator K) b n af ff w = Some (r, w') \<and> r \<noteq> Inl E_ASSERT \<and>
      (\<forall>x \<in> L - block_bytes b. al_mem (heap_allocator K) w' x = al_mem (heap_allocator K) w x) \<and>
      (case r of Inl _ \<Rightarrow> heap_inv K own L w'
       | Inr c \<Rightarrow> block_ok (hp_ptr c) (hp_siz c) \<and> block_bytes c \<inter> (L - block_bytes b) = {} \<and> heap_inv K own (L - block_bytes b \<union> block_bytes c) w')"
  proof (cases r)
    case (Inl e)
    with r heap_inv_after [OF i, of L L w'] show ?thesis by (simp add: heap_allocator_def)
  next
    case (Inr c)
    with r(3) have c: "reallocated own L (hp_ptr b) (hp_siz b) n w c w'" by simp
    with heap_inv_after [OF i, of "L - block_bytes b" "L - block_bytes b \<union> block_bytes c" w'] Inr r(1)
    show ?thesis by (simp add: reallocated_def heap_allocator_def)
  qed
next
  fix L w t assume i: "heap_inv K own L w"
  then have s: "core_laws K own" "sound own L w" by (simp_all add: heap_inv_def)
  from runs_trim [OF s, of t] show "\<exists>n w'. al_trim (heap_allocator K) t w = Some (Inr n, w') \<and> heap_inv K own L w' \<and>
      (\<forall>x \<in> L. al_mem (heap_allocator K) w' x = al_mem (heap_allocator K) w x)"
    using heap_inv_after [OF i] by (cases rule: runs_cases) (auto simp: heap_allocator_def)
next
  fix L w x v assume i: "heap_inv K own L w" and x: "x \<in> L"
  have s: "sound own L w" using i by (simp add: heap_inv_def)
  have "touches {x} 0 w (w_mem_update (\<lambda>m. m(x := v)) w)" by (simp add: touches_def)
  from sound_touches [OF s this] x have "after own (L - {x}) L w (w_mem_update (\<lambda>m. m(x := v)) w)" by simp
  from heap_inv_after [OF i this] show "heap_inv K own L (al_store (heap_allocator K) x v w) \<and>
      al_mem (heap_allocator K) (al_store (heap_allocator K) x v w) = (al_mem (heap_allocator K) w)(x := v)"
    by (simp add: heap_allocator_def)
qed

end
