(* ===== verification/Heap_Validate.thy ===== *)
theory Heap_Validate
  imports Heap_Runs
begin

text \<open>
  The checks of free memory: \<^verbatim>\<open>find_modified_address\<close>, which is also a system call, and \<^verbatim>\<open>heap_validate\<close>. Whether the
  processor has marked a page as changed (\<^verbatim>\<open>pagedir_haschanged\<close>) is a function of the page that the search updates. The
  search returns \<open>None\<close> for \<^verbatim>\<open>NULL\<close>, also where C cannot tell a byte at address 0 from it. Below, the search is shown
  to be right on regions that end at a multiple of 4, as those of \<^verbatim>\<open>heap_validate\<close> do.
\<close>

section \<open>Modified memory\<close>

type_synonym changed = "32 word \<Rightarrow> bool"

definition pattern_byte :: "32 word \<Rightarrow> key \<Rightarrow> byte" where
  "pattern_byte pattern x = ucast (drop_bit (8 * unat (x AND 3)) pattern)"

definition u32_at :: "memory \<Rightarrow> key \<Rightarrow> 32 word" where
  "u32_at m x = ucast (m x) OR push_bit 8 (ucast (m (x + 1))) OR push_bit 16 (ucast (m (x + 2))) OR push_bit 24 (ucast (m (x + 3)))"

text \<open>The loop at the start, which ends at a multiple of 4.\<close>

function align_start :: "memory \<Rightarrow> key \<Rightarrow> 32 word \<Rightarrow> 32 word \<Rightarrow> key option + key \<times> 32 word" where
  "align_start m start pattern num_bytes =
     (if start AND 3 \<noteq> 0 then
        if num_bytes = 0 then Inl None
        else if m start \<noteq> pattern_byte pattern start then Inl (Some start)
        else align_start m (start + 1) pattern (num_bytes - 1)
      else Inr (start, num_bytes))"
  by pat_completeness auto
termination
  by (relation "measure (\<lambda>(m, start, pattern, num_bytes). unat num_bytes)") (auto simp: unat_minus_1 unat_gt_0)

declare align_start.simps [simp del]

text \<open>The loop over pages that have not changed.\<close>

function skip_pages :: "changed \<Rightarrow> key \<Rightarrow> 32 word \<Rightarrow> (key \<times> 32 word) option \<times> changed" where
  "skip_pages d start num_bytes =
     (let page = VM_ADDR2PAGE start in
      if d page then (Some (start, num_bytes), d(page := False))
      else if num_bytes \<le> PAGESIZE then (None, d)
      else skip_pages d (start + PAGESIZE) (num_bytes - PAGESIZE))"
  by pat_completeness auto
termination
  by (relation "measure (\<lambda>(d, start, num_bytes). unat num_bytes)")
     (auto simp: PAGESIZE_def not_le unat_sub_32 word_less_nat_alt)

declare skip_pages.simps [simp del]

text \<open>The loop at the end.\<close>

function scan_bytes :: "memory \<Rightarrow> key \<Rightarrow> 32 word \<Rightarrow> 32 word \<Rightarrow> key option" where
  "scan_bytes m start pattern num_bytes =
     (if num_bytes = 0 then None
      else if m start \<noteq> pattern_byte pattern start then Some start
      else scan_bytes m (start + 1) pattern (num_bytes - 1))"
  by pat_completeness auto
termination
  by (relation "measure (\<lambda>(m, start, pattern, num_bytes). unat num_bytes)") (auto simp: unat_minus_1 unat_gt_0)

declare scan_bytes.simps [simp del]

definition differs_at :: "memory \<Rightarrow> key \<Rightarrow> 32 word \<Rightarrow> key" where
  "differs_at m start pattern =
     (if m start \<noteq> ucast pattern then start
      else if m (start + 1) \<noteq> ucast (drop_bit 8 pattern) then start + 1
      else if m (start + 2) \<noteq> ucast (drop_bit 16 pattern) then start + 2
      else start + 3)"

partial_function (option) scan_dwords :: "memory \<Rightarrow> changed \<Rightarrow> key \<Rightarrow> 32 word \<Rightarrow> 32 word \<Rightarrow> (key option \<times> changed) option" where
  "scan_dwords m d start pattern num_bytes =
     (if 4 < num_bytes then
        case (if start AND (PAGESIZE - 1) = 0 then skip_pages d start num_bytes else (Some (start, num_bytes), d)) of
          (None, d) \<Rightarrow> Some (None, d)
        | (Some (start, num_bytes), d) \<Rightarrow>
            if u32_at m start = pattern then scan_dwords m d (start + 4) pattern (num_bytes - 4)
            else Some (Some (differs_at m start pattern), d)
      else Some (scan_bytes m start pattern num_bytes, d))"

definition find_modified_address :: "memory \<Rightarrow> changed \<Rightarrow> key \<Rightarrow> 32 word \<Rightarrow> 32 word \<Rightarrow> (key option \<times> changed) option" where
  "find_modified_address m d start pattern num_bytes =
     (case align_start m start pattern num_bytes of
        Inl r \<Rightarrow> Some (r, d)
      | Inr (start, num_bytes) \<Rightarrow> scan_dwords m d start pattern num_bytes)"

section \<open>Validation\<close>

text \<open>
  The assertions on one node. Those on its links (\<^verbatim>\<open>quick_verify_mfree\<close>) have no counterpart, as nodes are held by value.
\<close>

definition validate_node :: "memory \<Rightarrow> mfree \<Rightarrow> changed \<Rightarrow> changed pres" where
  "validate_node m iter d =
     passert (IS_ALIGNED (mf_self iter) HEAP_ALIGNMENT)
     (passert (HEAP_MINSIZE \<le> mf_size iter)
     (passert (mf_self iter < mf_self iter + mf_size iter)
     (passert (IS_ALIGNED (mf_size iter) HEAP_ALIGNMENT)
     (passert (mf_flags iter AND NOT GFP_CALLOC = 0)
     (passert (mf_szchk iter = mfree_get_checksum iter)
     (let expected_data = (if has (mf_flags iter) GFP_CALLOC then 0 else DEBUGHEAP_NO_MANS_LAND)
      in Option.bind (find_modified_address m d (mf_self iter + SIZEOF_MFREE) expected_data ((mf_size iter - SIZEOF_MFREE) div 4))
        (\<lambda>(faulting_address, d). passert (faulting_address = None) (Some (Inr d)))))))))"

primrec validate_nodes :: "memory \<Rightarrow> mfree list \<Rightarrow> changed \<Rightarrow> changed pres" where
  "validate_nodes m [] d = Some (Inr d)"
| "validate_nodes m (iter # rest) d = pbind (validate_node m iter d) (validate_nodes m rest)"

definition heap_validate :: "memory \<Rightarrow> heap \<Rightarrow> changed \<Rightarrow> changed pres" where
  "heap_validate m h d = validate_nodes m (concat (h_size h)) d"

primrec heap_validate_each :: "memory \<Rightarrow> heap list \<Rightarrow> changed \<Rightarrow> changed pres" where
  "heap_validate_each m [] d = Some (Inr d)"
| "heap_validate_each m (h # hs) d = pbind (heap_validate m h d) (heap_validate_each m hs)"

text \<open>The heaps in the order of their flags; the second pair is seen by the kernel only.\<close>

definition heap_validate_all :: "bool \<Rightarrow> memory \<Rightarrow> heap list \<Rightarrow> changed \<Rightarrow> changed pres" where
  "heap_validate_all in_kernel m heaps d = heap_validate_each m (if in_kernel then heaps else take 2 heaps) d"

section \<open>What the search finds\<close>

lemma word_and_mask: "x AND 3 = (x :: 32 word) mod 4" "x AND 4095 = (x :: 32 word) mod 4096"
  using take_bit_eq_mod [of 2 x] take_bit_eq_mod [of 12 x]
  by (simp_all add: take_bit_eq_mask mask_eq_exp_minus_1)

lemma and_3_0: "(x :: 32 word) AND 3 = 0 \<longleftrightarrow> 4 dvd unat x"
  by (simp add: word_and_mask word_unat_eq_iff unat_mod dvd_eq_mod_eq_0)

lemma and_page_0: "(x :: 32 word) AND (PAGESIZE - 1) = 0 \<longleftrightarrow> 4096 dvd unat x"
  by (simp add: PAGESIZE_def word_and_mask word_unat_eq_iff unat_mod dvd_eq_mod_eq_0)

lemma unat_page: "unat (VM_ADDR2PAGE x) = unat x div 4096"
  by (simp add: VM_ADDR2PAGE_def PAGESIZE_def unat_div)

lemma page_eq: "VM_ADDR2PAGE x = VM_ADDR2PAGE y \<longleftrightarrow> unat x div 4096 = unat y div 4096"
  by (simp add: word_unat_eq_iff unat_page)

lemma region_step: "n \<noteq> 0 \<Longrightarrow> region p n = insert p (region (p + 1) (n - 1))"
proof -
  assume n: "n \<noteq> 0"
  have "x - p < n \<longleftrightarrow> x = p \<or> x - (p + 1) < n - 1" for x
  proof (cases "x = p")
    case False
    define y where "y = x - p"
    have "y \<noteq> 0" using False by (simp add: y_def)
    then have "0 < unat y" "0 < unat n" using n by (simp_all add: unat_gt_0)
    then have "y < n \<longleftrightarrow> y - 1 < n - 1" by (simp add: word_less_nat_alt unat_minus_1 n \<open>y \<noteq> 0\<close>) linarith
    moreover have "x - (p + 1) = y - 1" by (simp add: y_def)
    ultimately show ?thesis using False by (simp only: y_def [symmetric]) simp
  qed (use n in \<open>simp add: word_neq_0_conv\<close>)
  then show ?thesis by (auto simp: region_def)
qed

definition clean :: "memory \<Rightarrow> 32 word \<Rightarrow> key set \<Rightarrow> bool" where
  "clean m pattern S \<longleftrightarrow> (\<forall>x \<in> S. m x = pattern_byte pattern x)"

lemma clean_simps [simp]: "clean m p {}" "clean m p (insert x S) \<longleftrightarrow> m x = pattern_byte p x \<and> clean m p S"
  by (simp_all add: clean_def)

text \<open>A byte that the search finds lies in the region and differs from the pattern.\<close>

definition modified :: "memory \<Rightarrow> 32 word \<Rightarrow> key set \<Rightarrow> key option \<Rightarrow> bool" where
  "modified m pattern S r \<longleftrightarrow> (\<forall>a. r = Some a \<longrightarrow> a \<in> S \<and> m a \<noteq> pattern_byte pattern a)"

lemma modified_simps [simp]: "modified m p S None" "modified m p S (Some a) \<longleftrightarrow> a \<in> S \<and> m a \<noteq> pattern_byte p a"
  by (simp_all add: modified_def)

lemma modified_mono: "modified m p S r \<Longrightarrow> S \<subseteq> T \<Longrightarrow> modified m p T r"
  by (auto simp: modified_def)

lemma scan_bytes_finds:
  "modified m pat (region p n) (scan_bytes m p pat n) \<and> (scan_bytes m p pat n = None \<longrightarrow> clean m pat (region p n))"
proof (induction m p pat n rule: scan_bytes.induct)
  case (1 m start pattern num_bytes)
  then show ?case
    by (cases "num_bytes = 0")
      (auto simp: scan_bytes.simps [of m start pattern 0] scan_bytes.simps [of m start pattern num_bytes] region_step [of num_bytes start] intro: modified_mono)
qed

text \<open>The bytes of a double word.\<close>

lemma bit_u32_at:
  assumes "k < 32"
  shows "bit (u32_at m x) k \<longleftrightarrow> (if k < 8 then bit (m x) k else if k < 16 then bit (m (x + 1)) (k - 8)
      else if k < 24 then bit (m (x + 2)) (k - 16) else bit (m (x + 3)) (k - 24))"
proof -
  have l: "\<not> bit (m y) j" if "8 \<le> j" for y j using that bit_imp_le_length [of "m y" j] by auto
  consider "k < 8" | "8 \<le> k" "k < 16" | "16 \<le> k" "k < 24" | "24 \<le> k" by linarith
  then show ?thesis
    using assms by cases (simp_all add: u32_at_def bit_or_iff bit_push_bit_iff bit_unsigned_iff l less_diff_conv2)
qed

lemma bit_ucast_drop: "bit (ucast (drop_bit n (w :: 32 word)) :: byte) k \<longleftrightarrow> k < 8 \<and> bit w (n + k)"
  by (auto simp: bit_unsigned_iff bit_drop_bit_eq)

lemma byte_eq_iff: "(v :: byte) = w \<longleftrightarrow> (\<forall>k < 8. bit v k = bit w k)"
  by (auto intro: bit_word_eqI)

lemma u32_at_bytes: "u32_at m x = pat \<longleftrightarrow> m x = ucast pat \<and> m (x + 1) = ucast (drop_bit 8 pat) \<and>
    m (x + 2) = ucast (drop_bit 16 pat) \<and> m (x + 3) = ucast (drop_bit 24 pat)"
  (is "_ \<longleftrightarrow> ?B")
proof
  assume e: "u32_at m x = pat"
  have b: "bit (m x) k = bit pat k" "bit (m (x + 1)) k = bit pat (8 + k)" "bit (m (x + 2)) k = bit pat (16 + k)"
    "bit (m (x + 3)) k = bit pat (24 + k)" if "k < 8" for k
    using that bit_u32_at [of k m x] bit_u32_at [of "8 + k" m x] bit_u32_at [of "16 + k" m x] bit_u32_at [of "24 + k" m x]
    unfolding e by simp_all
  show ?B
    by (intro conjI) (simp_all add: byte_eq_iff bit_unsigned_iff bit_drop_bit_eq b)
next
  assume B: ?B
  have "bit (u32_at m x) k = bit pat k" if "k < 32" for k
  proof -
    consider "k < 8" | "8 \<le> k" "k < 16" | "16 \<le> k" "k < 24" | "24 \<le> k" by linarith
    then show ?thesis
      using that by cases (simp_all add: bit_u32_at B bit_unsigned_iff bit_drop_bit_eq less_diff_conv2)
  qed
  then show "u32_at m x = pat" by (rule bit_word_eqI) simp
qed

lemma region_4: "region p 4 = {p, p + 1, p + 2, p + 3}"
  using region_step [of 4 p] region_step [of 3 "p + 1"] region_step [of 2 "p + 2"] region_step [of 1 "p + 3"]
  by (simp add: add.assoc)

lemma pattern_bytes:
  assumes "4 dvd unat p"
  shows "pattern_byte pat p = ucast pat" "pattern_byte pat (p + 1) = ucast (drop_bit 8 pat)"
    "pattern_byte pat (p + 2) = ucast (drop_bit 16 pat)" "pattern_byte pat (p + 3) = ucast (drop_bit 24 pat)"
proof -
  have p: "unat p + 4 \<le> 2 ^ 32" using assms unat_less_2_32 [of p] by (auto elim!: dvdE)
  have "unat ((p + of_nat k) AND 3) = k" if "k < 4" for k
  proof -
    have "unat (p + of_nat k) = unat p + k" using that p by (subst unat_add_32) (simp_all add: unat_of_nat)
    then show ?thesis using that assms by (simp add: word_and_mask unat_mod) (auto elim!: dvdE)
  qed
  from this [of 0] this [of 1] this [of 2] this [of 3]
  show "pattern_byte pat p = ucast pat" "pattern_byte pat (p + 1) = ucast (drop_bit 8 pat)"
    "pattern_byte pat (p + 2) = ucast (drop_bit 16 pat)" "pattern_byte pat (p + 3) = ucast (drop_bit 24 pat)"
    by (simp_all add: pattern_byte_def)
qed

lemma u32_at_clean: "4 dvd unat p \<Longrightarrow> u32_at m p = pat \<longleftrightarrow> clean m pat (region p 4)"
  by (auto simp: u32_at_bytes region_4 pattern_bytes)

lemma differs_at_modified: "4 dvd unat p \<Longrightarrow> u32_at m p \<noteq> pat \<Longrightarrow> modified m pat (region p 4) (Some (differs_at m p pat))"
  by (auto simp: u32_at_bytes region_4 pattern_bytes differs_at_def)

text \<open>
  The bytes that a search from \<open>start\<close> looks at: those of the pages that have changed, and those of its first page when it does not
  start with that page.
\<close>

definition looked_at :: "changed \<Rightarrow> key \<Rightarrow> key set" where
  "looked_at d start = {x. d (VM_ADDR2PAGE x) \<or> \<not> 4096 dvd unat start \<and> VM_ADDR2PAGE x = VM_ADDR2PAGE start}"

definition searched :: "memory \<Rightarrow> changed \<Rightarrow> key \<Rightarrow> 32 word \<Rightarrow> 32 word \<Rightarrow> (key option \<times> changed) option \<Rightarrow> bool" where
  "searched m d start pattern n res \<longleftrightarrow> (\<exists>r d'. res = Some (r, d') \<and> modified m pattern (region start n) r \<and>
     (r = None \<longrightarrow> clean m pattern (region start n \<inter> looked_at d start)))"

lemma skip_pages_stops:
  assumes "\<forall>i < k. \<not> d (VM_ADDR2PAGE (p + 4096 * of_nat i))" "d (VM_ADDR2PAGE (p + 4096 * of_nat k))" "4096 * k < unat n"
  shows "skip_pages d p n = (Some (p + 4096 * of_nat k, n - 4096 * of_nat k), d(VM_ADDR2PAGE (p + 4096 * of_nat k) := False))"
  using assms
proof (induction k arbitrary: p n)
  case 0
  then show ?case by (auto simp: skip_pages.simps [of d p n])
next
  case (Suc k)
  have "\<not> d (VM_ADDR2PAGE p)" using Suc.prems(1) [THEN spec, of 0] by simp
  moreover have n: "4096 < unat n" using Suc.prems(3) by simp
  then have "\<not> n \<le> PAGESIZE" by (simp add: PAGESIZE_def word_le_nat_alt)
  ultimately have "skip_pages d p n = skip_pages d (p + 4096) (n - 4096)" by (simp add: skip_pages.simps [of d p n] PAGESIZE_def)
  moreover have "\<forall>i < k. \<not> d (VM_ADDR2PAGE (p + 4096 + 4096 * of_nat i))"
  proof (intro allI impI)
    fix i assume "i < k"
    then show "\<not> d (VM_ADDR2PAGE (p + 4096 + 4096 * of_nat i))" using Suc.prems(1) [THEN spec, of "Suc i"] by (simp add: algebra_simps)
  qed
  moreover have "4096 * k < unat (n - 4096)" using n Suc.prems(3) by (simp add: unat_sub_32)
  ultimately show ?case using Suc.IH [of "p + 4096" "n - 4096"] Suc.prems(2) by (simp add: algebra_simps)
qed

lemma skip_pages_finds:
  assumes "skip_pages d p n = (r, d')" "unat p + unat n < 2 ^ 32" "4096 dvd unat p" "n \<noteq> 0"
  shows "case r of None \<Rightarrow> region p n \<inter> looked_at d p = {}
    | Some (q, k) \<Rightarrow> 4096 dvd unat q \<and> k \<noteq> 0 \<and> unat p \<le> unat q \<and> unat q + unat k = unat p + unat n \<and> d' = d(VM_ADDR2PAGE q := False) \<and>
        (\<forall>x. unat p \<le> unat x \<longrightarrow> unat x < unat q \<longrightarrow> x \<notin> looked_at d p)"
  using assms
proof (induction d p n rule: skip_pages.induct)
  case (1 d p n)
  have look: "looked_at d p = {x. d (VM_ADDR2PAGE x)}" using 1(4) by (simp add: looked_at_def)
  show ?case
  proof (cases "d (VM_ADDR2PAGE p)")
    case True
    then show ?thesis using 1(2,4,5) by (auto simp: skip_pages.simps [of d p n])
  next
    case F: False
    have first: "x \<notin> looked_at d p" if "unat p \<le> unat x" "unat x < unat p + 4096" for x
    proof -
      have "unat x div 4096 = unat p div 4096" using that 1(4) by (auto elim!: dvdE)
      then show ?thesis using F by (simp add: look page_eq [symmetric])
    qed
    show ?thesis
    proof (cases "n \<le> PAGESIZE")
      case True
      then have "unat n \<le> 4096" by (simp add: PAGESIZE_def word_le_nat_alt)
      moreover have "r = None" using F True 1(2) by (simp add: skip_pages.simps [of d p n])
      ultimately show ?thesis using first 1(3) by (auto simp: in_region)
    next
      case False
      then have n: "4096 < unat n" by (simp add: PAGESIZE_def not_le word_less_nat_alt)
      have u: "unat (p + PAGESIZE) = unat p + 4096" "unat (n - PAGESIZE) = unat n - 4096"
        using n 1(3) by (simp_all add: PAGESIZE_def unat_add_32 unat_sub_32)
      have nz: "n - PAGESIZE \<noteq> 0" using u(2) n by (metis unat_0 zero_less_diff less_numeral_extra(3))
      have l: "looked_at d (p + PAGESIZE) = looked_at d p" using 1(4) by (simp add: look looked_at_def u)
      have e: "skip_pages d (p + PAGESIZE) (n - PAGESIZE) = (r, d')"
        using F False 1(2) by (simp add: skip_pages.simps [of d p n])
      have IH: "case r of None \<Rightarrow> region (p + PAGESIZE) (n - PAGESIZE) \<inter> looked_at d p = {}
        | Some (q, k) \<Rightarrow> 4096 dvd unat q \<and> k \<noteq> 0 \<and> unat p + 4096 \<le> unat q \<and> unat q + unat k = unat p + 4096 + (unat n - 4096) \<and>
            d' = d(VM_ADDR2PAGE q := False) \<and> (\<forall>x. unat p + 4096 \<le> unat x \<longrightarrow> unat x < unat q \<longrightarrow> x \<notin> looked_at d p)"
        using 1(1) [OF refl F False e, unfolded u l, OF _ _ nz] 1(3,4) n by simp
      show ?thesis
      proof (cases r)
        case None
        have "x \<notin> looked_at d p" if x: "unat p \<le> unat x" "unat x < unat p + unat n" for x
        proof (cases "unat x < unat p + 4096")
          case False
          then have "x \<in> region (p + PAGESIZE) (n - PAGESIZE)" using x n 1(3) by (simp add: in_region u)
          then show ?thesis using IH None by auto
        qed (rule first [OF x(1)])
        then show ?thesis using None 1(3) by (auto simp: in_region)
      next
        case (Some a)
        obtain q k where a: "a = (q, k)" by fastforce
        have f: "4096 dvd unat q" "k \<noteq> 0" "unat p + 4096 \<le> unat q" "unat q + unat k = unat p + 4096 + (unat n - 4096)"
          "d' = d(VM_ADDR2PAGE q := False)" "\<And>x. unat p + 4096 \<le> unat x \<Longrightarrow> unat x < unat q \<Longrightarrow> x \<notin> looked_at d p"
          using IH by (simp_all add: Some a)
        have "x \<notin> looked_at d p" if x: "unat p \<le> unat x" "unat x < unat q" for x
          using first [of x] f(6) [of x] x by linarith
        then show ?thesis using f(1-5) n by (simp add: Some a)
      qed
    qed
  qed
qed

text \<open>A step of four bytes.\<close>

lemma looked_at_next:
  assumes "4 dvd unat q" "unat q + 4 < 2 ^ 32" "unat q + 4 \<le> unat x"
    and "d (VM_ADDR2PAGE x) \<or> VM_ADDR2PAGE x = VM_ADDR2PAGE q"
    and d': "\<And>pg. d pg \<Longrightarrow> pg \<noteq> VM_ADDR2PAGE q \<Longrightarrow> d' pg"
  shows "x \<in> looked_at d' (q + 4)"
proof -
  have u: "unat (q + 4) = unat q + 4" using assms(2) by (simp add: unat_add_32)
  show ?thesis
  proof (cases "VM_ADDR2PAGE x = VM_ADDR2PAGE q")
    case True
    then have e: "unat x div 4096 = unat q div 4096" by (simp add: page_eq)
    have m: "unat x = 4096 * (unat x div 4096) + unat x mod 4096" "unat q = 4096 * (unat q div 4096) + unat q mod 4096"
      "unat x mod 4096 < 4096" "unat q mod 4096 < 4096" by simp_all
    have lt: "unat q mod 4096 + 4 < 4096" using m assms(3) e by linarith
    define b c where "b = unat q div 4096" and "c = unat q mod 4096 + 4"
    have "unat q + 4 = c + b * 4096" unfolding b_def c_def using m(2) by linarith
    moreover have "(c + b * 4096) div 4096 = b" "(c + b * 4096) mod 4096 = c" using lt by (simp_all add: c_def [symmetric])
    ultimately have "(unat q + 4) div 4096 = unat q div 4096" "(unat q + 4) mod 4096 = unat q mod 4096 + 4"
      by (simp_all only: b_def c_def)
    then show ?thesis by (simp add: looked_at_def u page_eq e dvd_eq_mod_eq_0)
  next
    case False
    then have "d (VM_ADDR2PAGE x)" using assms(4) by blast
    then show ?thesis using False d' by (simp add: looked_at_def)
  qed
qed

lemma searched_step:
  assumes q: "4 dvd unat q" "4 \<le> unat k" "unat p \<le> unat q" "unat q + unat k = unat p + unat n" "unat p + unat n < 2 ^ 32"
    and before: "\<And>x. unat p \<le> unat x \<Longrightarrow> unat x < unat q \<Longrightarrow> x \<notin> looked_at d p"
    and now: "\<And>x. x \<in> looked_at d p \<Longrightarrow> d (VM_ADDR2PAGE x) \<or> VM_ADDR2PAGE x = VM_ADDR2PAGE q"
    and d': "\<And>pg. d pg \<Longrightarrow> pg \<noteq> VM_ADDR2PAGE q \<Longrightarrow> d' pg"
    and rest: "searched m d' (q + 4) pat (k - 4) res"
  shows "searched m d p pat n (if u32_at m q = pat then res else Some (Some (differs_at m q pat), d'))"
proof -
  have lim: "unat q + 4 < 2 ^ 32" using q by linarith
  have u: "unat (q + 4) = unat q + 4" "unat (k - 4) = unat k - 4" using lim q(2) by (simp_all add: unat_add_32 unat_sub_32)
  have sub: "region q 4 \<subseteq> region p n" "region (q + 4) (k - 4) \<subseteq> region p n"
    using q lim by (auto simp: in_region u)
  show ?thesis
  proof (cases "u32_at m q = pat")
    case False
    then show ?thesis using differs_at_modified [OF q(1) False] sub by (auto simp: searched_def)
  next
    case True
    then have c4: "clean m pat (region q 4)" by (simp add: u32_at_clean [OF q(1)])
    obtain r d2 where r: "res = Some (r, d2)" "modified m pat (region (q + 4) (k - 4)) r"
        "r = None \<longrightarrow> clean m pat (region (q + 4) (k - 4) \<inter> looked_at d' (q + 4))"
      using rest unfolding searched_def by blast
    have "m x = pattern_byte pat x" if x: "x \<in> region p n" "x \<in> looked_at d p" "r = None" for x
    proof (cases "unat x < unat q + 4")
      case True
      have "\<not> unat x < unat q" using before [of x] x q(5) by (auto simp: in_region)
      then have "x \<in> region q 4" using True lim by (simp add: in_region)
      then show ?thesis using c4 by (simp add: clean_def)
    next
      case False
      then have "x \<in> region (q + 4) (k - 4)" using x(1) q lim by (simp add: in_region u)
      moreover have "x \<in> looked_at d' (q + 4)"
        by (rule looked_at_next [where d = d, OF q(1) lim _ now [OF x(2)] d']) (use False in auto)
      ultimately show ?thesis using r(3) x(3) by (simp add: clean_def)
    qed
    then show ?thesis using True r(1) modified_mono [OF r(2) sub(2)] by (simp add: searched_def clean_def)
  qed
qed

lemma scan_dwords_finds:
  "4 dvd unat p \<Longrightarrow> 4 dvd unat n \<Longrightarrow> unat p + unat n < 2 ^ 32 \<Longrightarrow> searched m d p pat n (scan_dwords m d p pat n)"
proof (induction "unat n" arbitrary: p n d rule: less_induct)
  case less
  have go: "searched m d p pat n (if u32_at m q = pat then scan_dwords m d' (q + 4) pat (k - 4) else Some (Some (differs_at m q pat), d'))"
    if q: "4 dvd unat q" "k \<noteq> 0" "unat p \<le> unat q" "unat q + unat k = unat p + unat n"
      and before: "\<And>x. unat p \<le> unat x \<Longrightarrow> unat x < unat q \<Longrightarrow> x \<notin> looked_at d p"
      and now: "\<And>x. x \<in> looked_at d p \<Longrightarrow> d (VM_ADDR2PAGE x) \<or> VM_ADDR2PAGE x = VM_ADDR2PAGE q"
      and d': "\<And>pg. d pg \<Longrightarrow> pg \<noteq> VM_ADDR2PAGE q \<Longrightarrow> d' pg" for q k d'
  proof -
    have "4 dvd unat q + unat k" unfolding q(4) using less(2,3) by (rule dvd_add)
    then have k: "4 dvd unat k" using q(1) by (simp add: dvd_add_right_iff)
    have "0 < unat k" using q(2) by (simp add: unat_gt_0)
    with k have k4: "4 \<le> unat k" by (rule dvd_imp_le)
    have u: "unat (q + 4) = unat q + 4" "unat (k - 4) = unat k - 4"
      using k4 q(4) less(4) by (simp_all add: unat_add_32 unat_sub_32)
    have rest: "searched m d' (q + 4) pat (k - 4) (scan_dwords m d' (q + 4) pat (k - 4))"
      by (rule less(1)) (use k k4 q less(4) in \<open>simp_all add: u dvd_diff_nat\<close>)
    show ?thesis by (rule searched_step [OF q(1) k4 q(3,4) less(4) _ _ _ rest]) (fact before | fact now | fact d')+
  qed
  show ?case
  proof (cases "4 < n")
    case False
    then show ?thesis
      using scan_bytes_finds [of m pat p n] by (auto simp: scan_dwords.simps [of m d p pat n] searched_def clean_def)
  next
    case n: True
    then have nz: "n \<noteq> 0" by auto
    show ?thesis
    proof (cases "4096 dvd unat p")
      case False
      have "searched m d p pat n (if u32_at m p = pat then scan_dwords m d (p + 4) pat (n - 4) else Some (Some (differs_at m p pat), d))"
        by (rule go) (use less(2) nz in \<open>auto simp: looked_at_def\<close>)
      then show ?thesis using n False by (simp add: scan_dwords.simps [of m d p pat n] and_page_0)
    next
      case True
      obtain r d' where sk: "skip_pages d p n = (r, d')" by fastforce
      note f = skip_pages_finds [OF sk less(4) True nz]
      show ?thesis
      proof (cases r)
        case None
        then show ?thesis using n True f by (simp add: scan_dwords.simps [of m d p pat n] and_page_0 sk searched_def)
      next
        case (Some qk)
        obtain q k where qk: "qk = (q, k)" by fastforce
        have f': "4096 dvd unat q" "k \<noteq> 0" "unat p \<le> unat q" "unat q + unat k = unat p + unat n" "d' = d(VM_ADDR2PAGE q := False)"
          "\<And>x. unat p \<le> unat x \<Longrightarrow> unat x < unat q \<Longrightarrow> x \<notin> looked_at d p"
          using f by (simp_all add: Some qk)
        have "4 dvd unat q" using f'(1) by (rule dvd_trans [rotated]) simp
        then have "searched m d p pat n (if u32_at m q = pat then scan_dwords m d' (q + 4) pat (k - 4) else Some (Some (differs_at m q pat), d'))"
          by (rule go) (use f' True in \<open>auto simp: looked_at_def\<close>)
        then show ?thesis using n True by (simp add: scan_dwords.simps [of m d p pat n] and_page_0 sk Some qk)
      qed
    qed
  qed
qed

lemma align_start_finds:
  assumes "unat p + unat n < 2 ^ 32"
  shows "case align_start m p pat n of
      Inl r \<Rightarrow> modified m pat (region p n) r \<and> (r = None \<longrightarrow> clean m pat (region p n))
    | Inr (q, k) \<Rightarrow> 4 dvd unat q \<and> unat p \<le> unat q \<and> unat q + unat k = unat p + unat n \<and>
        (\<forall>x. unat p \<le> unat x \<longrightarrow> unat x < unat q \<longrightarrow> m x = pattern_byte pat x)"
  using assms
proof (induction m p pat n rule: align_start.induct)
  case (1 m p pat n)
  show ?case
  proof (cases "p AND 3 \<noteq> 0 \<and> n \<noteq> 0 \<and> m p = pattern_byte pat p")
    case False
    then show ?thesis
      using region_step [of n p] by (auto simp: align_start.simps [of m p pat n] and_3_0)
  next
    case True
    then have n: "0 < unat n" by (simp add: unat_gt_0)
    have u: "unat (p + 1) = unat p + 1" "unat (n - 1) = unat n - 1" using n 1(2) True by (simp_all add: unat_add_32 unat_minus_1)
    have e: "align_start m p pat n = align_start m (p + 1) pat (n - 1)" using True by (simp add: align_start.simps [of m p pat n])
    have s: "region p n = insert p (region (p + 1) (n - 1))" using True by (intro region_step) simp
    have IH: "case align_start m (p + 1) pat (n - 1) of
        Inl r \<Rightarrow> modified m pat (region (p + 1) (n - 1)) r \<and> (r = None \<longrightarrow> clean m pat (region (p + 1) (n - 1)))
      | Inr (q, k) \<Rightarrow> 4 dvd unat q \<and> unat p + 1 \<le> unat q \<and> unat q + unat k = unat p + 1 + (unat n - 1) \<and>
          (\<forall>x. unat p + 1 \<le> unat x \<longrightarrow> unat x < unat q \<longrightarrow> m x = pattern_byte pat x)"
      using 1(1) [unfolded u] True 1(2) n by simp
    show ?thesis
    proof (cases "align_start m (p + 1) pat (n - 1)")
      case (Inl r)
      then show ?thesis using IH True by (auto simp: e s intro: modified_mono)
    next
      case (Inr a)
      obtain q k where a: "a = (q, k)" by fastforce
      have f: "4 dvd unat q" "unat p + 1 \<le> unat q" "unat q + unat k = unat p + 1 + (unat n - 1)"
        "\<And>x. unat p + 1 \<le> unat x \<Longrightarrow> unat x < unat q \<Longrightarrow> m x = pattern_byte pat x"
        using IH by (simp_all add: Inr a)
      have "m x = pattern_byte pat x" if "unat p \<le> unat x" "unat x < unat q" for x
      proof (cases "x = p")
        case False
        then have "unat x \<noteq> unat p" by (simp add: word_unat_eq_iff)
        then show ?thesis using that by (intro f(4)) simp_all
      qed (use True in simp)
      then show ?thesis using f(1-3) n by (simp add: e Inr a)
    qed
  qed
qed

lemma looked_at_aligned:
  assumes "unat p \<le> unat q" "unat q \<le> unat x" "x \<in> looked_at d p"
  shows "x \<in> looked_at d q"
proof (cases "d (VM_ADDR2PAGE x)")
  case False
  then have e: "\<not> 4096 dvd unat p" "unat x div 4096 = unat p div 4096" using assms(3) by (auto simp: looked_at_def page_eq)
  have q: "unat q div 4096 = unat p div 4096"
    using div_le_mono [OF assms(1), of 4096] div_le_mono [OF assms(2), of 4096] e(2) by linarith
  have "\<not> 4096 dvd unat q"
  proof
    assume "4096 dvd unat q"
    then have "unat q = 4096 * (unat q div 4096)" by simp
    then have "unat p = 4096 * (unat p div 4096)"
      using q assms(1) div_mult_mod_eq [of "unat p" 4096] by linarith
    then show False using e(1) by (metis dvd_triv_left)
  qed
  then show ?thesis using q e(2) by (simp add: looked_at_def page_eq)
qed (simp add: looked_at_def)

lemma find_modified_address_searches:
  assumes "unat p + unat n < 2 ^ 32" "4 dvd unat p + unat n"
  shows "searched m d p pat n (find_modified_address m d p pat n)"
proof (cases "align_start m p pat n")
  case (Inl r)
  then show ?thesis using align_start_finds [OF assms(1), of m pat] by (auto simp: find_modified_address_def searched_def clean_def)
next
  case (Inr a)
  obtain q k where a: "a = (q, k)" by fastforce
  have f: "4 dvd unat q" "unat p \<le> unat q" "unat q + unat k = unat p + unat n"
    "\<And>x. unat p \<le> unat x \<Longrightarrow> unat x < unat q \<Longrightarrow> m x = pattern_byte pat x"
    using align_start_finds [OF assms(1), of m pat] by (simp_all add: Inr a)
  have "4 dvd unat q + unat k" unfolding f(3) by (rule assms(2))
  then have "4 dvd unat k" using f(1) by (simp add: dvd_add_right_iff)
  then have "searched m d q pat k (scan_dwords m d q pat k)" using f(1,3) assms(1) by (intro scan_dwords_finds) simp_all
  then obtain r d' where r: "scan_dwords m d q pat k = Some (r, d')" "modified m pat (region q k) r"
      "r = None \<longrightarrow> clean m pat (region q k \<inter> looked_at d q)"
    unfolding searched_def by blast
  have sub: "region q k \<subseteq> region p n" using f(2,3) assms(1) by (auto simp: in_region)
  have "m x = pattern_byte pat x" if x: "x \<in> region p n" "x \<in> looked_at d p" "r = None" for x
  proof (cases "unat x < unat q")
    case True
    then show ?thesis using f(4) x(1) assms(1) by (simp add: in_region)
  next
    case False
    then have "x \<in> region q k \<inter> looked_at d q"
      using looked_at_aligned [OF f(2) _ x(2)] x(1) f(3) assms(1) by (simp add: in_region)
    then show ?thesis using r(3) x(3) by (simp add: clean_def)
  qed
  then show ?thesis
    using r(1) modified_mono [OF r(2) sub] by (simp add: find_modified_address_def Inr a searched_def clean_def)
qed

section \<open>What validation shows\<close>

text \<open>The part of the data of a node that is checked, a quarter of it, and what it should hold.\<close>

definition checked_bytes :: "mfree \<Rightarrow> key set" where
  "checked_bytes n = region (mf_self n + SIZEOF_MFREE) ((mf_size n - SIZEOF_MFREE) div 4)"

definition node_pattern :: "mfree \<Rightarrow> 32 word" where
  "node_pattern n = (if mf_flags n = GFP_CALLOC then 0 else DEBUGHEAP_NO_MANS_LAND)"

lemma checked_range:
  assumes "node_ok n"
  shows "unat (mf_self n + SIZEOF_MFREE) + unat ((mf_size n - SIZEOF_MFREE) div 4) < 2 ^ 32"
    "4 dvd unat (mf_self n + SIZEOF_MFREE) + unat ((mf_size n - SIZEOF_MFREE) div 4)"
    "\<not> 4096 dvd unat (mf_self n + SIZEOF_MFREE)"
proof -
  obtain j k where jk: "unat (mf_self n) = 16 * k" "unat (mf_size n) = 16 * j"
    using assms by (auto simp: node_ok_def aligned_16 elim!: dvdE)
  have j: "32 \<le> 16 * j" "16 * k + 16 * j < 2 ^ 32"
    using assms node_ok_fits [OF assms] by (simp_all add: node_ok_def HEAP_MINSIZE_def word_le_nat_alt jk [symmetric] fits_iff)
  have u: "unat (mf_self n + SIZEOF_MFREE) = 16 * k + 22" "unat (mf_size n - SIZEOF_MFREE) = 16 * j - 22"
    using j by (simp_all add: SIZEOF_MFREE_def unat_add_32 unat_sub_32 jk)
  have "16 * j - 22 = 4 * (4 * j - 6) + 2" using j by linarith
  then have v: "unat ((mf_size n - SIZEOF_MFREE) div 4) = 4 * j - 6" by (simp add: unat_div u)
  have e: "16 * k + 22 + (4 * j - 6) = 4 * (4 * k + j + 4)" using j by simp
  show "unat (mf_self n + SIZEOF_MFREE) + unat ((mf_size n - SIZEOF_MFREE) div 4) < 2 ^ 32" unfolding u v using j by linarith
  show "4 dvd unat (mf_self n + SIZEOF_MFREE) + unat ((mf_size n - SIZEOF_MFREE) div 4)" unfolding u v e by simp
  show "\<not> 4096 dvd unat (mf_self n + SIZEOF_MFREE)"
  proof
    assume "4096 dvd unat (mf_self n + SIZEOF_MFREE)"
    then have "16 dvd 16 * k + 22" unfolding u by (rule dvd_trans [rotated]) simp
    then have "16 dvd (22 :: nat)" by (simp only: dvd_add_right_iff dvd_triv_left)
    then show False by simp
  qed
qed

lemma validate_node_result:
  assumes "node_ok n"
  shows "\<exists>r d'. validate_node m n d = (if r = None then Some (Inr d') else Some (Inl E_ASSERT)) \<and>
    modified m (node_pattern n) (checked_bytes n) r \<and>
    (r = None \<longrightarrow> clean m (node_pattern n) (checked_bytes n \<inter> looked_at d (mf_self n + SIZEOF_MFREE)))"
proof -
  have ok: "IS_ALIGNED (mf_self n) HEAP_ALIGNMENT" "IS_ALIGNED (mf_size n) HEAP_ALIGNMENT" "HEAP_MINSIZE \<le> mf_size n"
    "mf_self n < mf_self n + mf_size n" "mf_flags n AND NOT GFP_CALLOC = 0" "mf_szchk n = mfree_get_checksum n"
    using assms by (auto simp: node_ok_def fits_def)
  have pat: "(if has (mf_flags n) GFP_CALLOC then 0 else DEBUGHEAP_NO_MANS_LAND) = node_pattern n"
    using assms by (auto simp: node_ok_def has_def node_pattern_def GFP_CALLOC_def)
  obtain r d' where r: "find_modified_address m d (mf_self n + SIZEOF_MFREE) (node_pattern n) ((mf_size n - SIZEOF_MFREE) div 4) = Some (r, d')"
      "modified m (node_pattern n) (checked_bytes n) r"
      "r = None \<longrightarrow> clean m (node_pattern n) (checked_bytes n \<inter> looked_at d (mf_self n + SIZEOF_MFREE))"
    using find_modified_address_searches [OF checked_range(1,2) [OF assms]] unfolding searched_def checked_bytes_def by blast
  then show ?thesis by (intro exI [of _ r] exI [of _ d']) (cases r; simp add: validate_node_def ok ok(3) [simplified] pat)
qed

text \<open>Validation never raises a false alarm, and it finds every change in the part of the checked bytes that lies in the first page.\<close>

definition first_page :: "mfree \<Rightarrow> key set" where
  "first_page n = {x. VM_ADDR2PAGE x = VM_ADDR2PAGE (mf_self n + SIZEOF_MFREE)}"

lemma validate_node_cases:
  assumes "node_ok n"
  obtains d' where "validate_node m n d = Some (Inr d')" "clean m (node_pattern n) (checked_bytes n \<inter> first_page n)"
  | "validate_node m n d = Some (Inl E_ASSERT)" "\<not> clean m (node_pattern n) (checked_bytes n)"
proof -
  obtain r d' where r: "validate_node m n d = (if r = None then Some (Inr d') else Some (Inl E_ASSERT))"
    "modified m (node_pattern n) (checked_bytes n) r"
    "r = None \<longrightarrow> clean m (node_pattern n) (checked_bytes n \<inter> looked_at d (mf_self n + SIZEOF_MFREE))"
    using validate_node_result [OF assms] by blast
  have "first_page n \<subseteq> looked_at d (mf_self n + SIZEOF_MFREE)"
    using checked_range(3) [OF assms] by (auto simp: first_page_def looked_at_def)
  then have sub: "checked_bytes n \<inter> first_page n \<subseteq> checked_bytes n \<inter> looked_at d (mf_self n + SIZEOF_MFREE)" by blast
  show thesis
  proof (cases r)
    case None
    then have "clean m (node_pattern n) (checked_bytes n \<inter> first_page n)" using r(3) sub unfolding clean_def by blast
    then show thesis using r(1) None that(1) by simp
  next
    case (Some a)
    then have "\<not> clean m (node_pattern n) (checked_bytes n)" using r(2) unfolding modified_def clean_def by blast
    then show thesis using r(1) Some that(2) by simp
  qed
qed

lemma validate_nodes_passes:
  assumes "\<And>n. n \<in> set ns \<Longrightarrow> node_ok n \<and> clean m (node_pattern n) (checked_bytes n)"
  shows "\<exists>d'. validate_nodes m ns d = Some (Inr d')"
  using assms
proof (induction ns arbitrary: d)
  case (Cons n ns)
  from Cons(2) [of n] have "node_ok n" "clean m (node_pattern n) (checked_bytes n)" by simp_all
  then obtain d' where "validate_node m n d = Some (Inr d')" by (cases rule: validate_node_cases [of n m d]) auto
  then show ?case using Cons by simp
qed simp

lemma validate_nodes_finds:
  assumes "\<And>n. n \<in> set ns \<Longrightarrow> node_ok n" "n \<in> set ns" "\<not> clean m (node_pattern n) (checked_bytes n \<inter> first_page n)"
  shows "validate_nodes m ns d = Some (Inl E_ASSERT)"
  using assms
proof (induction ns arbitrary: d)
  case (Cons k ns)
  have "node_ok k" using Cons(2) by simp
  then show ?case
  proof (cases rule: validate_node_cases [of k m d])
    case (1 d')
    then have "n \<in> set ns" using Cons(3,4) by auto
    then show ?thesis using Cons 1 by simp
  qed simp
qed simp

end
