(* ===== verification/Heap_Props.thy ===== *)
theory Heap_Props
  imports Heap_Client Heap_Validate
begin

text \<open>
  The properties of the kernel heap. Witnesses use a kernel that can map pages once, and an empty heap.
\<close>

section \<open>An example\<close>

definition demo_kernel :: "32 word set kernel" where
  "demo_kernel =
     \<lparr>k_corepair = (\<lambda>flags n v. (Inr (), v)), k_discard = (\<lambda>v. v), k_tryacquire = (\<lambda>v. True),
      k_getfree = (\<lambda>hint n mode v. if v = {} \<and> n \<le> 16 then Inr 0xC0000 else Inl E_BADALLOC),
      k_getanynode = (\<lambda>p q v. kernel_pages \<le> unat q \<or> {p..q} \<inter> v \<noteq> {}),
      k_insert = (\<lambda>p n v. (Inr (), v \<union> {p..<p + n})), k_unmap = (\<lambda>p n v. v - {p..<p + n}), k_merge = (\<lambda>p v. v),
      k_ismapped = (\<lambda>p v. p \<in> v), k_rand = (\<lambda>v. (0, v)), k_yield = (\<lambda>w. w), k_copyfault = (\<lambda>p q n v. None),
      k_header = (\<lambda>h x. 0)\<rparr>"

definition boot :: "heap \<Rightarrow> memory \<Rightarrow> 'v \<Rightarrow> 'v world" where
  "boot h m v = \<lparr>w_heap = h, w_mem = m, w_vm = v\<rparr>"

lemma boot_sound:
  assumes "h \<in> set kernel_heaps" "own v = {}"
  shows "sound own {} (boot h m v) \<and> h_dangle (w_heap (boot h m v)) = 0"
proof -
  have "h_addr h = ATREE_NULL" "h_size h = replicate HEAP_BUCKET_COUNT []" "PAGESIZE \<le> h_freethresh h" "h_dangle h = 0"
    using assms(1) by (auto simp: kernel_heaps_def empty_heap_def DEFAULT_FREETHRESH_def PAGESIZE_def)
  then show ?thesis using assms(2)
    by (simp add: sound_def boot_def heap_ok_def linked_def merged_def zero_ok_def free_bytes_def nodes_def buckets_ok_def tree_ok_def ranges_def)
qed

lemma demo_laws: "core_laws demo_kernel (\<lambda>v. v)"
  by (auto simp: core_laws_def demo_kernel_def word_le_nat_alt)

abbreviation demo_world :: "32 word set world" where
  "demo_world \<equiv> boot (hd kernel_heaps) (\<lambda>_. 7) {}"

lemma demo_boot: "sound (\<lambda>v. v) {} demo_world" "h_dangle (w_heap demo_world) = 0"
  using boot_sound [of "hd kernel_heaps" "\<lambda>v. v" "{} :: 32 word set" "\<lambda>_. 7"] by (simp_all add: kernel_heaps_def)

text \<open>The same heap after a page has been mapped for a block.\<close>

definition demo_block :: heapptr where
  "demo_block = \<lparr>hp_ptr = 0xC0000000, hp_siz = 4096\<rparr>"

abbreviation demo_used :: "32 word set world" where
  "demo_used \<equiv> boot (hd kernel_heaps) (\<lambda>_. 7) {0xC0000}"

lemma demo_block_ok: "block_ok (hp_ptr demo_block) (hp_siz demo_block)" "block_bytes demo_block = page_bytes {0xC0000}"
proof -
  show "block_ok (hp_ptr demo_block) (hp_siz demo_block)" by (simp add: demo_block_def block_ok_def IS_ALIGNED_def HEAP_ALIGNMENT_def fits_iff)
  have "{0xC0000..<0xC0000 + 1 :: 32 word} = {0xC0000}" by (auto simp: word_le_nat_alt word_less_nat_alt word_unat_eq_iff)
  with page_region(1) [of "0xC0000" 1] show "block_bytes demo_block = page_bytes {0xC0000}"
    by (simp add: demo_block_def VM_PAGE2ADDR_def PAGESIZE_def)
qed

lemma demo_used_ok: "sound (\<lambda>v. v) (live [demo_block]) demo_used" "h_dangle (w_heap demo_used) = 0" "apart_blocks [demo_block]"
proof -
  have "heap_ok (hd kernel_heaps)" "free_bytes (hd kernel_heaps) = {}" "nodes (hd kernel_heaps) = {}" "h_dangle (hd kernel_heaps) = 0"
    using demo_boot by (simp_all add: sound_def boot_def kernel_heaps_def empty_heap_def free_bytes_def nodes_def)
  then show "sound (\<lambda>v. v) (live [demo_block]) demo_used" "h_dangle (w_heap demo_used) = 0" "apart_blocks [demo_block]"
    using demo_block_ok by (simp_all add: sound_def boot_def zero_ok_def)
qed

text \<open>And with that page free.\<close>

lemma demo_freed:
  obtains w m where "heap_free_raw demo_kernel 0xC0000000 4096 GFP_NOMAP demo_used = Some (Inr (), w)" "sound (\<lambda>v. v) {} w"
    "m \<in> nodes (w_heap w)" "node_ok m" "h_dangle (w_heap w) = 0"
proof -
  let ?b = "block_bytes demo_block"
  have s: "sound (\<lambda>v. v) ?b demo_used" using demo_used_ok(1) by simp
  from runs_free_nomap [OF demo_laws s demo_block_ok(1) order_refl, of GFP_NOMAP]
  obtain w where w: "heap_free_raw demo_kernel 0xC0000000 4096 GFP_NOMAP demo_used = Some (Inr (), w)" "after (\<lambda>v. v) {} {} demo_used w" "w_vm w = {0xC0000}"
    by (auto simp: demo_block_def boot_def has_or has_def GFP_NOMAP_def GFP_CALLOC_def elim!: runs_cases)
  then have sw: "sound (\<lambda>v. v) {} w" "free_bytes (w_heap w) = ?b" using demo_block_ok(2) by (simp_all add: after_def sound_def)
  have "0xC0000000 \<in> ?b" by (simp add: demo_block_def region_def)
  then obtain m where m: "m \<in> nodes (w_heap w)" using sw(2) by (auto simp: free_bytes_def)
  moreover have "node_ok m" using linked_node_ok [OF _ m] sw(1) by (simp add: sound_def heap_ok_def)
  moreover have "h_dangle (w_heap w) = 0" using w(2) demo_used_ok(2) by (simp add: after_def same_config_def)
  ultimately show thesis using that w(1) sw(1) by blast
qed

section \<open>Sequences of requests\<close>

text \<open>
  C2: The heaps that the kernel starts with, except \<^verbatim>\<open>kernel_heaps[GFP_SHARED|GFP_LOCKED]\<close>, which \<^verbatim>\<open>vm_unmap\<close> allocates from while
  the heap calls it. Any number of users that look at the memory and at the blocks that are held, and each ask for something that \<open>allowed\<close>
  admits: to allocate any size, to allocate it at a multiple of a power of two up to 2 MiB, to free or to reallocate a whole block that is held, to trim
  the heap, to write to a byte of a block; with \<^verbatim>\<open>GFP_CALLOC\<close> for allocations, for the bytes that become free when the block is zero, but not
  for the bytes that a reallocation adds. Every request is served or throws an exception: no assertion fails and no loop runs forever. The blocks that
  are held at the end are aligned, do not overlap each other or the free memory, and blocks and free memory together are the pages that have been mapped
  for the heap and not been given to \<^verbatim>\<open>vm_unmap\<close>: nothing is lost.
\<close>

theorem heap_serves_requests:
  assumes "core_laws K own" "i < length kernel_heaps" "i \<noteq> unat GFP_LOCKED" "own v = {}"
    "\<forall>u \<in> set us. \<forall>m bs r. u m bs = Some r \<longrightarrow> allowed m bs r"
  shows "\<exists>w bs. serve_users (heap_allocator K) us (boot (kernel_heaps ! i) m v, []) = Some (Inr (w, bs)) \<and> apart_blocks bs \<and>
    free_bytes (w_heap w) \<inter> live bs = {} \<and> free_bytes (w_heap w) \<union> live bs = page_bytes (own (w_vm w)) \<and> heap_ok (w_heap w)"
proof -
  have "heap_inv K own (live []) (boot (kernel_heaps ! i) m v)"
    using assms(1) boot_sound [OF nth_mem [OF assms(2)], of own v, OF assms(4)] by (simp add: heap_inv_def)
  from kheap.serve_users_ok [OF this _ assms(5)] show ?thesis by (auto simp: heap_inv_def sound_def)
qed

text \<open>Three users: one that allocates, one that zeroes the first byte of a block, and one that reallocates, frees or trims, depending on what is held.\<close>

definition demo_users :: "user list" where
  "demo_users =
     [\<lambda>m bs. Some (Alloc 100 0), \<lambda>m bs. Some (Align 6 50 GFP_CALLOC),
      \<lambda>m bs. case bs of b # _ \<Rightarrow> if hp_ptr b \<in> block_bytes b then Some (Store (hp_ptr b) 0) else None | [] \<Rightarrow> None,
      \<lambda>m bs. case bs of b # c # _ \<Rightarrow> Some (Realloc c 5000 0 0) | [b] \<Rightarrow> Some (Free b 0) | [] \<Rightarrow> Some (Trim 0)]"

theorem heap_serves_requests_witness:
  "\<exists>w bs. serve_users (heap_allocator demo_kernel) demo_users (demo_world, []) = Some (Inr (w, bs)) \<and>
    apart_blocks bs \<and> free_bytes (w_heap w) \<union> live bs = page_bytes (w_vm w)"
proof -
  have "\<forall>u \<in> set demo_users. \<forall>m bs r. u m bs = Some r \<longrightarrow> allowed m bs r"
    by (auto simp: demo_users_def split: list.splits if_splits)
  from heap_serves_requests [OF demo_laws _ _ _ this, of 0 "{}" "\<lambda>_. 7"] show ?thesis
    by (auto simp: kernel_heaps_def GFP_LOCKED_def)
qed

text \<open>
  C7: A block that no request of a sequence frees, reallocates or writes to is still held at the end, with the contents that it had. Requests of the sequence that
  \<open>allowed\<close> does not admit when it is their turn are not made.
\<close>

theorem heap_keeps_contents:
  assumes "core_laws K own" "sound own (live bs) w" "h_dangle (w_heap w) = 0" "apart_blocks bs" "b \<in> set bs" "\<forall>r \<in> set rs. spares b r"
  shows "\<exists>w' bs'. serve_all (heap_allocator K) rs (w, bs) = Some (Inr (w', bs')) \<and> b \<in> set bs' \<and> (\<forall>x \<in> block_bytes b. w_mem w' x = w_mem w x)"
proof -
  have "heap_inv K own (live bs) w" using assms(1-3) by (simp add: heap_inv_def)
  from kheap.serve_all_ok [OF this assms(4), of rs] assms(5,6) show ?thesis by (auto simp: heap_allocator_def)
qed

theorem heap_keeps_contents_witness:
  "\<exists>w' bs'. serve_all (heap_allocator demo_kernel) [Alloc 100 0, Trim 0] (demo_used, [demo_block]) = Some (Inr (w', bs')) \<and> demo_block \<in> set bs' \<and>
    (\<forall>x \<in> block_bytes demo_block. w_mem w' x = 7)"
  using heap_keeps_contents [OF demo_laws demo_used_ok, of demo_block "[Alloc 100 0, Trim 0]"] by (simp add: boot_def)

section \<open>Allocation\<close>

text \<open>
  C8: \<^verbatim>\<open>heap_alloc\<close> returns an aligned block of at least the size that was asked for, that no one holds, and that is zero if \<^verbatim>\<open>GFP_CALLOC\<close>
  was given; or it throws an exception and changes nothing. The bytes \<open>L\<close> that are in use do not change, and no assertion fails.
\<close>

theorem heap_alloc_correct:
  assumes "core_laws K own" "sound own L w" "h_dangle (w_heap w) = 0"
  shows "runs (heap_alloc_untraced K n flags w)
    (\<lambda>e w'. sound own L w' \<and> (\<forall>x \<in> L. w_mem w' x = w_mem w x))
    (\<lambda>b w'. block_ok (hp_ptr b) (hp_siz b) \<and> n \<le> hp_siz b \<and> block_bytes b \<inter> L = {} \<and> sound own (L \<union> block_bytes b) w' \<and>
      (\<forall>x \<in> L. w_mem w' x = w_mem w x) \<and> (has flags GFP_CALLOC \<longrightarrow> (\<forall>x \<in> block_bytes b. w_mem w' x = 0)))"
  by (rule runs_weaken [OF runs_alloc_untraced [OF assms]]) (simp_all add: allocated_def after_def)

theorem heap_alloc_correct_witness:
  "runs (heap_alloc_untraced demo_kernel 100 GFP_CALLOC demo_world) (\<lambda>e w'. True)
    (\<lambda>b w'. 100 \<le> hp_siz b \<and> (\<forall>x \<in> block_bytes b. w_mem w' x = 0))"
  by (rule runs_weaken [OF heap_alloc_correct [OF demo_laws demo_boot]]) simp_all

text \<open>
  C33: If a free node is large enough, \<^verbatim>\<open>heap_alloc\<close> throws no exception: the block comes out of a smallest node that is
  large enough, and the kernel is not asked for pages.
\<close>

theorem heap_alloc_best_fit:
  assumes "core_laws K own" "sound own L w" "heap_alloc_size n = Some siz" "m \<in> nodes (w_heap w)" "siz \<le> mf_size m"
  shows "runs (heap_alloc_untraced K n flags w) (\<lambda>_ _. False) (\<lambda>b w'. n \<le> hp_siz b \<and> sound own (L \<union> block_bytes b) w' \<and>
    (\<exists>c \<in> nodes (w_heap w). block_bytes b \<subseteq> node_bytes c \<and> (\<forall>n \<in> nodes (w_heap w). siz \<le> mf_size n \<longrightarrow> mf_size c \<le> mf_size n)))"
  by (rule runs_weaken [OF runs_alloc_cached [OF assms]]) (auto simp: allocated_def after_def)

theorem heap_alloc_best_fit_witness:
  "\<exists>w. heap_free_raw demo_kernel 0xC0000000 4096 GFP_NOMAP demo_used = Some (Inr (), w) \<and>
    runs (heap_alloc_untraced demo_kernel 20 0 w) (\<lambda>_ _. False) (\<lambda>b w'. 20 \<le> hp_siz b)"
proof -
  obtain w m where w: "heap_free_raw demo_kernel 0xC0000000 4096 GFP_NOMAP demo_used = Some (Inr (), w)" "sound (\<lambda>v. v) {} w"
    and m: "m \<in> nodes (w_heap w)" "node_ok m" by (rule demo_freed)
  have "32 \<le> mf_size m" using m(2) by (simp add: node_ok_def)
  moreover have "heap_alloc_size 20 = Some 32" by (simp add: heap_alloc_size_def HEAP_ALIGNMENT_def)
  ultimately have "runs (heap_alloc_untraced demo_kernel 20 0 w) (\<lambda>_ _. False) (\<lambda>b w'. 20 \<le> hp_siz b)"
    using runs_weaken [OF heap_alloc_best_fit [OF demo_laws w(2) _ m(1)]] by simp
  with w(1) show ?thesis by blast
qed

text \<open>
  C32: \<^verbatim>\<open>heap_align\<close> without an offset, for alignments of up to 2 MiB: the block starts at a multiple of the alignment, and otherwise is
  what \<^verbatim>\<open>heap_alloc\<close> would return.
\<close>

theorem heap_align_correct:
  assumes "core_laws K own" "sound own L w" "h_dangle (w_heap w) = 0" "min_alignment = 2 ^ k" "k \<le> 21"
  shows "runs (heap_align_untraced K min_alignment 0 n flags w)
    (\<lambda>e w'. sound own L w' \<and> (\<forall>x \<in> L. w_mem w' x = w_mem w x))
    (\<lambda>b w'. IS_ALIGNED (hp_ptr b) min_alignment \<and> block_ok (hp_ptr b) (hp_siz b) \<and> n \<le> hp_siz b \<and> block_bytes b \<inter> L = {} \<and>
      sound own (L \<union> block_bytes b) w' \<and> (\<forall>x \<in> L. w_mem w' x = w_mem w x) \<and> (has flags GFP_CALLOC \<longrightarrow> (\<forall>x \<in> block_bytes b. w_mem w' x = 0)))"
  by (rule runs_weaken [OF runs_align_untraced [OF assms]]) (simp_all add: allocated_def after_def)

theorem heap_align_correct_witness:
  "runs (heap_align_untraced demo_kernel 4096 0 100 0 demo_used) (\<lambda>e w'. True) (\<lambda>b w'. IS_ALIGNED (hp_ptr b) 4096 \<and> 100 \<le> hp_siz b)"
  by (rule runs_weaken [OF heap_align_correct [OF demo_laws demo_used_ok(1,2), of 4096 12]]) simp_all

section \<open>Free, reallocation and trim\<close>

text \<open>
  C9: \<^verbatim>\<open>heap_free\<close> of bytes in use returns for every size and every state of the neighbours, makes exactly these bytes free or gives their pages back,
  and changes no other byte in use. With \<^verbatim>\<open>GFP_CALLOC\<close> they must be zero.
\<close>

theorem heap_free_correct:
  assumes "core_laws K own" "sound own L w" "block_ok p n" "region p n \<subseteq> L" "has flags GFP_CALLOC \<Longrightarrow> \<forall>x \<in> region p n. w_mem w x = 0"
  shows "\<exists>w'. heap_free_untraced K p n flags w = Some (Inr (), w') \<and> sound own (L - region p n) w' \<and> (\<forall>x \<in> L - region p n. w_mem w' x = w_mem w x)"
proof -
  have "runs (heap_free_untraced K p n flags w) no_error (\<lambda>_ w'. after own (L - region p n) (L - region p n) w w')"
    by (rule runs_heap_free_untraced [OF assms(1-4)]) (use assms(5) in blast)
  then show ?thesis by (cases rule: runs_cases) (auto simp: after_def)
qed

theorem heap_free_correct_witness:
  "\<exists>w'. heap_free_untraced demo_kernel 0xC0000000 4096 0 demo_used = Some (Inr (), w') \<and> sound (\<lambda>v. v) {} w'"
  using heap_free_correct [OF demo_laws demo_used_ok(1) demo_block_ok(1), of 0] by (simp add: demo_block_def)

text \<open>
  C10: \<^verbatim>\<open>heap_realloc\<close> returns a block of at least the new size in place of the old one, or throws an exception and leaves the old block. The
  bytes that both blocks have keep their values, wherever the new block is, and no other byte in use changes.
\<close>

theorem heap_realloc_correct:
  assumes "core_laws K own" "sound own L w" "h_dangle (w_heap w) = 0" "block_ok p n" "region p n \<subseteq> L"
    "\<not> has alloc_flags GFP_CALLOC" "\<not> has free_flags GFP_CALLOC"
  shows "runs (heap_realloc_untraced K p n new alloc_flags free_flags w)
    (\<lambda>e w'. sound own L w' \<and> (\<forall>x \<in> L. w_mem w' x = w_mem w x))
    (\<lambda>b w'. block_ok (hp_ptr b) (hp_siz b) \<and> new \<le> hp_siz b \<and> block_bytes b \<inter> (L - region p n) = {} \<and>
      sound own (L - region p n \<union> block_bytes b) w' \<and> (\<forall>x \<in> L - region p n. w_mem w' x = w_mem w x) \<and>
      (\<forall>i. i < n \<longrightarrow> i < hp_siz b \<longrightarrow> w_mem w' (hp_ptr b + i) = w_mem w (p + i)))"
  by (rule runs_weaken [OF runs_realloc [OF assms(1-3) _ assms(5,6)]]) (use assms(4,7) in \<open>simp_all add: reallocated_def after_def\<close>)

theorem heap_realloc_correct_witness:
  "runs (heap_realloc_untraced demo_kernel 0xC0000000 4096 5000 0 0 demo_used) (\<lambda>e w'. True)
    (\<lambda>b w'. 5000 \<le> hp_siz b \<and> (\<forall>i < 4096. w_mem w' (hp_ptr b + i) = 7))"
proof -
  have b: "block_ok 0xC0000000 4096" "region 0xC0000000 4096 \<subseteq> live [demo_block]" using demo_block_ok(1) by (simp_all add: demo_block_def)
  have f: "\<not> has 0 GFP_CALLOC" by simp
  have le: "i < n" if "i < 4096" "5000 \<le> n" for i n :: "32 word" using that by (simp add: word_less_nat_alt word_le_nat_alt)
  show ?thesis
    by (rule runs_weaken [OF heap_realloc_correct [OF demo_laws demo_used_ok(1,2) b f f]]) (auto simp: boot_def le)
qed

text \<open>
  C34: \<^verbatim>\<open>heap_trim\<close> returns, gives only free pages back, returns the number of their bytes, and changes no byte in use. It ends when the first node of
  the size in every bucket has no page that can be given back.
\<close>

theorem heap_trim_correct:
  assumes "core_laws K own" "sound own L w"
  shows "\<exists>n w'. heap_trim K t w = Some (Inr n, w') \<and> sound own L w' \<and> (\<forall>x \<in> L. w_mem w' x = w_mem w x) \<and> own (w_vm w') \<subseteq> own (w_vm w) \<and>
    unat n = 4096 * card (own (w_vm w) - own (w_vm w')) \<and>
    bucket_search trim_usable (trim_threshold t) (drop (HEAP_BUCKET_OF (trim_threshold t)) (h_size (w_heap w'))) = Inr None"
  using runs_trim [OF assms, of t] by (cases rule: runs_cases) (auto simp: after_def)

theorem heap_trim_correct_witness:
  "\<exists>n w'. heap_trim demo_kernel 1 demo_used = Some (Inr n, w') \<and> unat n = 4096 * card ({0xC0000} - w_vm w')"
  using heap_trim_correct [OF demo_laws demo_used_ok(1), of 1] by (auto simp: boot_def)

section \<open>Defects\<close>







text \<open>
  C39: \<^verbatim>\<open>heap_alloc\<close> finds no node that is large enough, but sees that another thread holds back as many bytes, and waits for them in order to search the heap
  again. When that thread has freed a node that is large enough, \<^verbatim>\<open>heap_alloc\<close> with \<^verbatim>\<open>GFP_NOMAP\<close> fails nevertheless: it has not searched again.
  The same call after the wait returns a block.
\<close>

theorem heap_alloc_search_not_repeated:
  assumes "core_laws K own" "sound own L w" "heap_alloc_size n = Some siz" "has flags GFP_NOMAP"
    and "\<forall>c \<in> nodes (w_heap w). mf_size c < siz" "siz \<le> h_dangle (w_heap w)"
    and "sound own L' (k_yield K w)" "h_dangle (w_heap (k_yield K w)) < siz" "c \<in> nodes (w_heap (k_yield K w))" "siz \<le> mf_size c"
  shows "(\<exists>e w'. heap_alloc_untraced K n flags w = Some (Inl e, w') \<and> e \<in> {E_WOULDBLOCK, E_BADALLOC}) \<and>
    (\<exists>b w'. heap_alloc_untraced K n flags (k_yield K w) = Some (Inr b, w') \<and> n \<le> hp_siz b)"
proof
  note z = heap_alloc_size_spec [OF assms(3)]
  have l: "linked (w_heap w)" "linked (w_heap (k_yield K w))" using assms(2,7) by (simp_all add: sound_def heap_ok_def)
  have big: "16 \<le> unat siz" using z(2) by (simp add: word_le_nat_alt)
  obtain r where r: "bucket_search (\<lambda>_. True) siz (drop (HEAP_BUCKET_OF siz) (h_size (w_heap w))) = Inr r"
      "\<forall>c. r = Some c \<longrightarrow> c \<in> nodes (w_heap w) \<and> siz \<le> mf_size c"
    using heap_best_fit [OF l(1) big] by blast
  then have none: "r = None" using assms(5) by (cases r) (auto dest: leD)
  have len: "length (h_size (w_heap v)) = HEAP_BUCKET_COUNT" if "linked (w_heap v)" for v :: "'a world"
    using that by (simp add: linked_def buckets_ok_def)
  have "heap_alloc_search K siz flags (HEAP_BUCKET_OF siz) w = heap_alloc_search K siz flags HEAP_BUCKET_COUNT (k_yield K w)"
    using r(1) none assms(6) len [OF l(1)] HEAP_BUCKET_OF_less [OF big] by (subst heap_alloc_search.simps) simp
  also have "\<dots> = heap_alloc_pages K siz flags (k_yield K w)"
    using assms(8) len [OF l(2)] by (intro heap_alloc_search_none) simp_all
  finally show "\<exists>e w'. heap_alloc_untraced K n flags w = Some (Inl e, w') \<and> e \<in> {E_WOULDBLOCK, E_BADALLOC}"
    using heap_alloc_pages_nomap [OF assms(4) z(2), of K "k_yield K w"] assms(3) HEAP_BUCKET_OF_less [OF big]
    by (auto simp: heap_alloc_untraced_def)
  show "\<exists>b w'. heap_alloc_untraced K n flags (k_yield K w) = Some (Inr b, w') \<and> n \<le> hp_siz b"
    using runs_alloc_cached [OF assms(1,7,3,9,10), of flags] by (cases rule: runs_cases) (auto simp: allocated_def)
qed

theorem heap_alloc_search_not_repeated_witness:
  "\<exists>w. heap_free_raw demo_kernel 0xC0000000 4096 GFP_NOMAP demo_used = Some (Inr (), w) \<and>
    (let K = demo_kernel\<lparr>k_yield := \<lambda>_. w\<rparr>; held = w_heap_update (h_dangle_update (\<lambda>_. 64)) demo_world
     in (\<exists>e w'. heap_alloc_untraced K 20 GFP_NOMAP held = Some (Inl e, w')) \<and> (\<exists>b w'. heap_alloc_untraced K 20 GFP_NOMAP w = Some (Inr b, w')))"
proof -
  obtain w m where w: "heap_free_raw demo_kernel 0xC0000000 4096 GFP_NOMAP demo_used = Some (Inr (), w)" "sound (\<lambda>v. v) {} w"
    and m: "m \<in> nodes (w_heap w)" "node_ok m" and d: "h_dangle (w_heap w) = 0" by (rule demo_freed)
  let ?K = "demo_kernel\<lparr>k_yield := \<lambda>_. w\<rparr>" and ?h = "w_heap_update (h_dangle_update (\<lambda>_. 64)) demo_world"
  have K: "core_laws ?K (\<lambda>v. v)" using demo_laws by (simp add: core_laws_def)
  have h: "sound (\<lambda>v. v) {} ?h" "nodes (w_heap ?h) = {}"
    using demo_boot(1) by (simp_all add: sound_def heap_ok_def linked_def merged_def zero_ok_def free_bytes_def nodes_def boot_def kernel_heaps_def empty_heap_def)
  have s: "heap_alloc_size 20 = Some 32" "32 \<le> mf_size m" using m(2) by (simp_all add: heap_alloc_size_def HEAP_ALIGNMENT_def node_ok_def)
  have f: "has GFP_NOMAP GFP_NOMAP" by (simp add: has_def GFP_NOMAP_def)
  from heap_alloc_search_not_repeated [OF K h(1) s(1) f, of "{}" m] h(2) w(2) d m(1) s(2) w(1) show ?thesis by (auto simp: Let_def)
qed

text \<open>A block that is freed with \<^verbatim>\<open>GFP_CALLOC\<close> into an empty heap is linked as it is, zero or not.\<close>

lemma heap_free_into_empty:
  assumes h: "linked (w_heap w)" "nodes (w_heap w) = {}" "h_dangle (w_heap w) = 0" and b: "block_ok p n" "p < p + n" and fl: "has fl GFP_CALLOC" "has fl GFP_NOMAP"
  defines "s \<equiv> mfree_set_checksum \<lparr>mf_self = p, mf_size = n, mf_flags = GFP_CALLOC, mf_szchk = 0\<rparr>"
  obtains w' where "heap_free_raw K p n fl w = Some (Inr (), w')" "relinked {s} w w'"
proof -
  have pop: "heap_pop K a w = Some (Inr None, w)" for a
    by (cases rule: heap_pop_cases [OF h(1), of a K, case_names hit miss]) (use h(2) in auto)
  have ok: "node_ok s" unfolding s_def by (rule node_ok_block) (use b(1) in simp_all)
  obtain w' where w': "heap_insert_node_unlocked K s w = Some (Inr (), w')" "relinked {s} w w'"
    using heap_insert_node [OF h(1) ok, of K] h(2) by (auto simp: free_bytes_def)
  have d0: "w_heap_update (h_dangle_update (\<lambda>d. d)) w = w" by simp
  have "fl AND GFP_CALLOC = GFP_CALLOC" using fl(1) by (simp add: and_CALLOC)
  then have "heap_free_raw K p n fl w = Some (Inr (), w')"
    unfolding heap_free_raw_def using b w'(1) fl(2)
    by (subst heap_free_again.simps) (simp add: pop block_ok_def load_new_slot_def s_def d0)
  with w'(2) that show thesis by blast
qed

lemma page_to_heap_dirty:
  defines "s \<equiv> mfree_set_checksum \<lparr>mf_self = 0xC0001000, mf_size = 4096, mf_flags = GFP_CALLOC, mf_szchk = 0\<rparr>"
  obtains w where "page_to_heap demo_kernel True 0xC0001 GFP_CALLOC demo_world = Some (Inr True, w)" "linked (w_heap w)" "nodes (w_heap w) = {s}"
    "w_mem w 0xC0001020 = 0xef"
proof -
  let ?p = "0xC0001000 :: key" and ?fl = "GFP_CALLOC OR GFP_NOMAP"
  define w1 where "w1 = w_mem_update (page_fill GFP_CALLOC 0xC0001 1) (demo_world\<lparr>w_vm := {0xC0001..<0xC0001 + 1}\<rparr>)"
  define w2 where "w2 = w_mem_update (\<lambda>m. memsetl m ?p DEBUGHEAP_NO_MANS_LAND 1024) w1"
  have h: "w_heap w2 = w_heap demo_world" by (simp add: w2_def w1_def)
  have e: "linked (w_heap w2)" "nodes (w_heap w2) = {}" "h_dangle (w_heap w2) = 0"
    using demo_boot unfolding h by (simp_all add: sound_def heap_ok_def boot_def kernel_heaps_def empty_heap_def nodes_def)
  have m2: "w_mem w2 0xC0001020 = 0xef" by (simp add: w2_def memsetl_def PAGESIZE_def DEBUGHEAP_NO_MANS_LAND_def)
  have b: "block_ok ?p 4096" "?p < ?p + 4096" by (simp_all add: block_ok_def IS_ALIGNED_def HEAP_ALIGNMENT_def fits_iff)
  have fl: "has ?fl GFP_CALLOC" "has ?fl GFP_NOMAP" by (simp_all add: has_or)
  obtain w3 where w3: "heap_free_raw demo_kernel ?p 4096 ?fl w2 = Some (Inr (), w3)" "relinked {s} w2 w3"
    using heap_free_into_empty [OF e b fl] unfolding s_def .
  have "header_bytes (w_heap w3) = header s" using w3(2) by (simp add: header_bytes_def relinked_def)
  moreover have "0xC0001020 \<notin> header s" by (simp add: header_def s_def SIZEOF_MFREE_def)
  ultimately have "w_mem w3 0xC0001020 = 0xef" using w3(2) m2 by (simp add: relinked_def)
  moreover have "core_page_allocat demo_kernel 0xC0001 1 GFP_CALLOC demo_world = Some (Inr True, w1)"
    by (simp add: core_page_allocat_def demo_kernel_def w1_def boot_def has_def GFP_CALLOC_def GFP_NOMAP_def)
  moreover have "linked (w_heap w3)" "nodes (w_heap w3) = {s}" using w3(2) by (simp_all add: relinked_def)
  ultimately show thesis using w3(1) that [of "merge_before demo_kernel 0xC0001 (0xC0001 + 1) w3"]
    by (simp add: page_to_heap_def w2_def [symmetric] VM_PAGE2ADDR_def PAGESIZE_def) (simp add: merge_before_def)
qed

text \<open>
  C40: Memory that \<^verbatim>\<open>heap_allat\<close> returns for \<^verbatim>\<open>GFP_CALLOC\<close> need not be zero: a page that it has to map is filled with the debug pattern and then
  taken for zeroed memory.
\<close>

theorem heap_allat_calloc_dirty:
  "\<exists>w. heap_allat_untraced demo_kernel 0xC0001000 4096 GFP_CALLOC demo_world = Some (Inr 4096, w) \<and> w_mem w 0xC0001020 = 0xef"
proof -
  let ?s = "mfree_set_checksum \<lparr>mf_self = 0xC0001000, mf_size = 4096, mf_flags = GFP_CALLOC, mf_szchk = 0\<rparr>" and ?p = "0xC0001000 :: key"
  obtain w where w: "page_to_heap demo_kernel True 0xC0001 GFP_CALLOC demo_world = Some (Inr True, w)" "linked (w_heap w)" "nodes (w_heap w) = {?s}"
    "w_mem w 0xC0001020 = 0xef" using page_to_heap_dirty .
  obtain w1 where w1: "heap_take demo_kernel ?s w = Some (Inr (), w1)" "relinked {} w w1" using heap_take_node [OF w(2), of ?s demo_kernel] w(3) by auto
  have hit: "locate_tree (h_addr (w_heap w)) ?p = Inr (Some (node_leaf ?s))"
  proof (cases rule: locate_node [OF w(2), of ?p, case_names hit miss])
    case (hit n)
    with w(3) show ?thesis by simp
  next
    case miss
    have "?p \<in> node_bytes ?s" by (simp add: node_bytes_def region_def)
    with miss w(3) show ?thesis by (simp add: free_bytes_def)
  qed
  let ?w2 = "zero_or_pattern GFP_CALLOC ?p w1"
  have al: "IS_ALIGNED ?p HEAP_ALIGNMENT" by (simp add: IS_ALIGNED_def HEAP_ALIGNMENT_def)
  have "heap_allat_partial demo_kernel ?p GFP_CALLOC w = Some (Inr 4096, ?w2)"
    by (subst heap_allat_partial.simps) (simp add: al hit node_leaf_def w1(1) Let_def has_or)
  moreover have "linked (w_heap demo_world)" using demo_boot(1) by (simp add: sound_def heap_ok_def)
  then have "locate_tree (h_addr (w_heap demo_world)) ?p = Inr None"
    by (cases rule: locate_node [of _ ?p, case_names hit miss]) (auto simp: boot_def kernel_heaps_def empty_heap_def nodes_def)
  ultimately have part: "heap_allat_partial demo_kernel ?p GFP_CALLOC demo_world = Some (Inr 4096, ?w2)"
    using w(1) by (subst heap_allat_partial.simps) (simp add: al VM_ADDR2PAGE_def PAGESIZE_def)
  have "heap_allat_loop demo_kernel ?p 4096 GFP_CALLOC 4096 ?w2 = Some (Inr 4096, ?w2)" by (subst heap_allat_loop.simps) simp
  then have "heap_allat_loop demo_kernel ?p 4096 GFP_CALLOC 0 demo_world = Some (Inr 4096, ?w2)" by (subst heap_allat_loop.simps) (simp add: part)
  moreover have "heap_alloc_size 4096 = Some 4096" by (simp add: heap_alloc_size_def HEAP_ALIGNMENT_def)
  ultimately have "heap_allat_untraced demo_kernel ?p 4096 GFP_CALLOC demo_world = Some (Inr 4096, ?w2)" by (simp add: heap_allat_untraced_def)
  moreover have "w_mem w1 0xC0001020 = 0xef" using w1(2) w(4) by (simp add: relinked_def header_bytes_def)
  then have "w_mem ?w2 0xC0001020 = 0xef" by (simp add: zero_or_pattern_def memset_def SIZEOF_MFREE_def)
  ultimately show ?thesis by blast
qed

section \<open>Checks of free memory\<close>

text \<open>
  C35: \<^verbatim>\<open>find_modified_address\<close>, on a region that ends at a multiple of 4, returns. An address that it returns lies in
  the region and holds another byte than the pattern. When it returns none, no byte differs in a page that has changed since the
  last search, or in the page in which the region starts when it starts inside of that page.
\<close>

theorem find_modified_address_correct:
  assumes "unat start + unat n < 2 ^ 32" "4 dvd unat start + unat n"
  shows "\<exists>r d'. find_modified_address m d start pattern n = Some (r, d') \<and>
    (\<forall>a. r = Some a \<longrightarrow> a \<in> region start n \<and> m a \<noteq> pattern_byte pattern a) \<and>
    (r = None \<longrightarrow> (\<forall>x \<in> region start n. d (VM_ADDR2PAGE x) \<or> \<not> 4096 dvd unat start \<and> VM_ADDR2PAGE x = VM_ADDR2PAGE start \<longrightarrow>
      m x = pattern_byte pattern x))"
proof -
  obtain r d' where "find_modified_address m d start pattern n = Some (r, d')" "modified m pattern (region start n) r"
      "r = None \<longrightarrow> clean m pattern (region start n \<inter> looked_at d start)"
    using find_modified_address_searches [OF assms, of m d pattern] unfolding searched_def by blast
  then show ?thesis by (intro exI [of _ r] exI [of _ d']) (simp add: modified_def clean_def looked_at_def)
qed

theorem find_modified_address_correct_witness:
  "\<exists>a d'. find_modified_address ((\<lambda>_. 0xAC)(0x3007 := 1)) (\<lambda>_. True) 0x1ffa 0xACACACAC 0x1016 = Some (Some a, d') \<and> a \<in> region 0x1ffa 0x1016"
proof -
  let ?m = "(\<lambda>_. 0xAC :: byte)(0x3007 := 1)"
  obtain r d' where r: "find_modified_address ?m (\<lambda>_. True) 0x1ffa 0xACACACAC 0x1016 = Some (r, d')" "\<forall>a. r = Some a \<longrightarrow> a \<in> region 0x1ffa 0x1016"
      "r = None \<longrightarrow> (\<forall>x \<in> region 0x1ffa 0x1016. ?m x = pattern_byte 0xACACACAC x)"
    using find_modified_address_correct [of "0x1ffa" "0x1016" ?m "\<lambda>_. True" "0xACACACAC"] by auto
  have "0x3007 \<in> region 0x1ffa 0x1016" by (simp add: region_def)
  moreover have "?m 0x3007 \<noteq> pattern_byte 0xACACACAC 0x3007" by (simp add: pattern_byte_def)
  ultimately have "r \<noteq> None" using r(3) by blast
  with r(1,2) show ?thesis by auto
qed

text \<open>
  A region that starts at a page and ends 1 to 3 bytes into a later page. When the pages before the last one have not changed and the last one has,
  and the double word at the start of the last page (which is not all in the region) is the pattern, the number of bytes left wraps around, and the search goes
  on: a byte behind the double word that differs from the pattern is reported, though it is not in the region.
\<close>

theorem find_modified_address_wraps:
  assumes "4096 dvd unat start" "k \<noteq> 0" "0 < r" "r < 4" "unat start + 4096 * k + 4 < 2 ^ 32" "q = start + 4096 * of_nat k"
    and "\<forall>i < k. \<not> d (VM_ADDR2PAGE (start + 4096 * of_nat i))" "d (VM_ADDR2PAGE q)"
    and "u32_at m q = pattern" "m (q + 4) \<noteq> ucast pattern"
  shows "\<exists>d'. find_modified_address m d start pattern (4096 * of_nat k + r) = Some (Some (q + 4), d') \<and>
    q + 4 \<notin> region start (4096 * of_nat k + r)"
proof -
  let ?n = "4096 * of_nat k + r" and ?d = "d(VM_ADDR2PAGE q := False)"
  have r: "0 < unat r" "unat r < 4" using assms(3,4) by (simp_all add: word_less_nat_alt)
  have k: "unat (4096 * of_nat k :: 32 word) = 4096 * k" using assms(5) by (simp add: unat_word_ariths unat_of_nat)
  have n: "unat ?n = 4096 * k + unat r" using r assms(5) by (simp add: unat_add_32 k)
  have u: "unat q = unat start + 4096 * k" "unat (q + 4) = unat start + 4096 * k + 4"
    using assms(5) by (simp_all add: assms(6) unat_add_32 k)
  have na: "\<not> 4096 dvd unat (q + 4)" using assms(1) unfolding u by (simp add: dvd_add_right_iff)
  have a: "4 dvd unat start" using assms(1) by (rule dvd_trans [rotated]) simp
  have sk: "skip_pages d start ?n = (Some (q, r), ?d)"
    using skip_pages_stops [of k d start ?n] assms(7,8) n r(1) by (simp add: assms(6))
  have "4 < ?n" using n assms(2) by (simp add: word_less_nat_alt)
  then have 1: "scan_dwords m d start pattern ?n = scan_dwords m ?d (q + 4) pattern (r - 4)"
    by (subst scan_dwords.simps) (simp add: and_page_0 assms(1,9) sk)
  have "unat (r - 4) = 2 ^ 32 - 4 + unat r" using r by (simp add: unat_sub_if')
  then have "4 < r - 4" by (simp add: word_less_nat_alt)
  moreover have "u32_at m (q + 4) \<noteq> pattern" using assms(10) by (simp add: u32_at_bytes)
  ultimately have "scan_dwords m ?d (q + 4) pattern (r - 4) = Some (Some (q + 4), ?d)"
    by (subst scan_dwords.simps) (simp add: and_page_0 na differs_at_def assms(10))
  then have "find_modified_address m d start pattern ?n = Some (Some (q + 4), ?d)"
    by (simp add: find_modified_address_def align_start.simps [of m start] and_3_0 a 1)
  moreover have "q + 4 \<notin> region start ?n" using r n u assms(5) by (simp add: in_region)
  ultimately show ?thesis by blast
qed

theorem find_modified_address_wraps_witness:
  "\<exists>d'. find_modified_address ((\<lambda>_. 0)(0x3004 := 1)) (\<lambda>p. p = 3) 0x1000 0 8194 = Some (Some 0x3004, d') \<and> 0x3004 \<notin> region 0x1000 8194"
  using find_modified_address_wraps [of "0x1000" 2 2 "0x3000" "\<lambda>p. p = 3" "(\<lambda>_. 0)(0x3004 := 1)" 0]
  by (simp add: VM_ADDR2PAGE_def PAGESIZE_def u32_at_def less_2_cases_iff)

text \<open>
  C36: \<^verbatim>\<open>heap_validate\<close> on a heap that satisfies the invariant: it reports every change of the checked bytes of a
  free node in the page in which its data start, and it returns when all checked bytes are as they were written. Those
  are a quarter of the data only: whatever the other three quarters hold, it returns.
\<close>

theorem heap_validate_correct:
  assumes "heap_ok h"
  shows "((\<exists>n \<in> nodes h. \<exists>x \<in> checked_bytes n \<inter> first_page n. m x \<noteq> pattern_byte (node_pattern n) x) \<longrightarrow>
      heap_validate m h d = Some (Inl E_ASSERT)) \<and>
    ((\<forall>n \<in> nodes h. \<forall>x \<in> checked_bytes n. m x = pattern_byte (node_pattern n) x) \<longrightarrow> (\<exists>d'. heap_validate m h d = Some (Inr d')))"
proof -
  have ok: "node_ok n" if "n \<in> set (concat (h_size h))" for n
    using assms that by (auto simp: heap_ok_def linked_def nodes_def)
  have "heap_validate m h d = Some (Inl E_ASSERT)"
    if "n \<in> nodes h" "x \<in> checked_bytes n \<inter> first_page n" "m x \<noteq> pattern_byte (node_pattern n) x" for n x
    unfolding heap_validate_def
    by (rule validate_nodes_finds [of _ n]) (use ok that in \<open>auto simp: nodes_def clean_def\<close>)
  moreover have "\<exists>d'. heap_validate m h d = Some (Inr d')" if "\<forall>n \<in> nodes h. clean m (node_pattern n) (checked_bytes n)"
    unfolding heap_validate_def by (rule validate_nodes_passes) (use ok that in \<open>auto simp: nodes_def\<close>)
  ultimately show ?thesis unfolding clean_def by blast
qed

theorem heap_validate_correct_witness:
  "\<exists>w n. heap_free_raw demo_kernel 0xC0000000 4096 GFP_NOMAP demo_used = Some (Inr (), w) \<and> n \<in> nodes (w_heap w) \<and>
    heap_validate (\<lambda>x. pattern_byte (node_pattern n) x + 1) (w_heap w) (\<lambda>_. False) = Some (Inl E_ASSERT)"
proof -
  obtain w n where w: "heap_free_raw demo_kernel 0xC0000000 4096 GFP_NOMAP demo_used = Some (Inr (), w)" "sound (\<lambda>v. v) {} w"
    and n: "n \<in> nodes (w_heap w)" "node_ok n" by (rule demo_freed)
  have "32 \<le> unat (mf_size n)" using n(2) by (simp add: node_ok_def word_le_nat_alt)
  then have "0 < (unat (mf_size n) - 22) div 4" by (simp add: div_greater_zero_iff)
  then have "mf_self n + SIZEOF_MFREE \<in> checked_bytes n \<inter> first_page n"
    using \<open>32 \<le> unat (mf_size n)\<close>
    by (simp add: checked_bytes_def first_page_def region_def unat_div unat_sub_32 SIZEOF_MFREE_def word_less_nat_alt)
  then have "\<exists>n' \<in> nodes (w_heap w). \<exists>x \<in> checked_bytes n' \<inter> first_page n'. pattern_byte (node_pattern n) x + 1 \<noteq> pattern_byte (node_pattern n') x"
    using n(1) by (intro bexI [of _ n] bexI [of _ "mf_self n + SIZEOF_MFREE"]) simp_all
  moreover have "heap_ok (w_heap w)" using w(2) by (simp add: sound_def)
  ultimately have "heap_validate (\<lambda>x. pattern_byte (node_pattern n) x + 1) (w_heap w) (\<lambda>_. False) = Some (Inl E_ASSERT)"
    using heap_validate_correct [of "w_heap w" "\<lambda>x. pattern_byte (node_pattern n) x + 1" "\<lambda>_. False"] by blast
  with w(1) n(1) show ?thesis by blast
qed

end
