(* ===== verification/Spec2Isabelle.thy ===== *)
theory Spec2Isabelle
  imports Page_Alloc Atree_Props Rects_Props Ringbuffer_Props Rwlock_Props Meminfo_Props Unicode_Props Heap_Props
begin

text \<open>
  A verification library for parts of the KOS kernel and of the code it shares with user-space.

  \<^bold>\<open>Conventions.\<close> C functions are translated into HOL functions, with the state they change
  passed explicitly. A function that can throw, or trip an assertion, returns a
  \<open>result\<close> (theory \<open>Prelude\<close>): \<open>Inr\<close> a value, or \<open>Inl\<close> the way it
  failed. Loops that need not end are \<open>partial_function\<close>s into \<open>pres\<close>, where not returning is \<open>None\<close>, or
  return \<open>NO_RETURN\<close> where the state is known to repeat. Machine integers have the widths of the i386 target; they
  are words where the code works on their bits, and natural numbers with the wrap-around written out otherwise.
  Assertions are enabled. Unless said otherwise the models run one thread, for which a compare-exchange succeeds at its
  first attempt. A function that waits runs against a schedule: for the locks the list of what other threads do between its
  attempts, for the ring buffer a list of the steps of all threads with the signals that they send, and of exceptions that are raised in the waiting one. The
  heap is a parameter of the ring buffer and of the C library, and virtual memory is one of the kernel heap.

  \<^bold>\<open>Physical memory\<close> (\<^verbatim>\<open>src/kernel/src/kernel/memory.c\<close>). \<open>Page_Memory\<close> models the
  zones (\<^verbatim>\<open>struct mzone\<close>) and every function of the file. \<open>Page_Zones\<close> proves what the
  functions on one zone do, \<open>Page_Alloc\<close> what the allocator as a whole does: the free pages
  of all zones as one set, allocation and free as operations on this set, the interface
  \<open>page_provider\<close> with the invariant of its clients, and two theorems on inputs for which the
  code fails.

  \<^bold>\<open>The map of physical memory\<close> (\<^verbatim>\<open>src/kernel/src/kernel/meminfo.c\<close>). \<open>Meminfo\<close> models the table of memory types as a
  buffer of slots, with \<^verbatim>\<open>mem_install\<close> and \<^verbatim>\<open>mem_unpreserve\<close>, which frees pages in the zones of \<open>Page_Memory\<close>.
  \<open>Meminfo_Lists\<close> turns the operations on slots into operations on the list of entries and defines the type of an
  address; \<open>Meminfo_Props\<close> shows that installing memory raises the types of a range and nothing else, keeps the normal form
  of the table, and two ways in which the code fails.

  \<^bold>\<open>Address tree\<close> (\<^verbatim>\<open>include/hybrid/list/atree.h\<close> and \<^verbatim>\<open>atree-abi.h\<close>), which holds the nodes of an address space and the
  free ranges of the heap. \<open>Atree\<close> models the tree with ranges as keys, \<open>Atree_Props\<close> its invariant, lookups after
  insertions and removals, and an assertion of \<^verbatim>\<open>tryinsert\<close> that fails.

  \<^bold>\<open>Kernel heap\<close> (\<^verbatim>\<open>src/kernel/src/kernel/heap.c\<close>, \<^verbatim>\<open>heap.h\<close>), in the debug build for the i386. \<open>Heap_State\<close> has the free nodes,
  the heap with its buckets and its address tree (the one of \<open>Atree\<close>), the bytes of memory, the record \<open>kernel\<close> of what the
  heap calls (mapping pages, random numbers, other threads), and sequencing with exceptions. \<open>Heap\<close> models pages, nodes and
  \<^verbatim>\<open>heap_free\<close>, \<open>Heap_Blocks\<close> trimming, allocation, extension, alignment and reallocation, \<open>Heap_Validate\<close> the search for
  changed bytes and \<^verbatim>\<open>heap_validate\<close>. \<open>Heap_Nodes\<close> and \<open>Heap_Sound\<close> define the invariant: tree and buckets hold the same
  nodes, which are aligned, merged and of the right bucket; \<open>sound own L\<close> adds that the free bytes and the bytes \<open>L\<close> in use are
  disjoint and together are the pages \<open>own\<close> that are mapped for the heap. \<open>Heap_Release\<close>, \<open>Heap_Free\<close>, \<open>Heap_Alloc\<close>, \<open>Heap_Trim\<close>,
  \<open>Heap_Extend\<close>, \<open>Heap_Realloc\<close> and \<open>Heap_Align\<close> show what each operation does, as total correctness in the small logic of
  \<open>Heap_Runs\<close>, from the laws of the address tree and the hypotheses \<open>core_laws\<close> on the rest of the kernel: mapped ranges are
  unused before and below the page directory, unmapping removes exactly a range, and the other calls leave the mapping
  alone. Pages that are given to \<^verbatim>\<open>vm_unmap\<close> count as gone, though with \<^verbatim>\<open>VM_UNMAP_NOEXCEPT\<close> it may leave them mapped. The hypotheses are for
  heaps that the mapping functions do not use themselves: all but \<^verbatim>\<open>kernel_heaps[GFP_SHARED|GFP_LOCKED]\<close>, which they change in the middle of its operations.
  \<open>Heap_Client\<close> has the interface \<open>block_allocator\<close>, the requests that users may make (\<open>allowed\<close>), and sequences of them; \<open>Heap_Props\<close> the properties, and the
  inputs for which the code fails. Allocation is shown for a heap without dangling bytes (no other thread is inside of
  the heap), alignment up to 2 MiB without an offset, and extending a block without \<^verbatim>\<open>GFP_CALLOC\<close>; an alignment of
  2 GiB, an offset, and \<^verbatim>\<open>GFP_CALLOC\<close> for an extension are among the defects.

  \<^bold>\<open>Pixel sets\<close> (\<^verbatim>\<open>src/apps/wms/rect.c\<close>), the regions of windows that have to be drawn. \<open>Rects\<close> models
  the strips and blocks and all operations on them; \<open>Rects_Blocks\<close> proves the operations on the blocks of one strip, and
  \<open>Rects_Props\<close> those on the set, with the interface \<open>region_set\<close>: sequences of insertions and removals refine unions
  and differences of sets of points.

  \<^bold>\<open>Vectors of buffers and ring buffer\<close> (\<^verbatim>\<open>src/kernel/src/fs/iov.c\<close>, \<^verbatim>\<open>ringbuffer.c\<close> and its header). \<open>Iov\<close> models copying from and to
  vectors of buffers, \<open>Ringbuffer\<close> all operations of the ring buffer with the signals they send. \<open>Ringbuffer_Queue\<close> defines the bytes that a
  buffer holds and its invariant; \<open>Ringbuffer_Props\<close> shows, with the interface \<open>byte_queue\<close>, that the buffer is a queue for
  transfers that do not cross the end of its memory, that all operations keep the invariant, that no wake-up of a waiting reader is lost in any interleaving, that growing ends,
  and the inputs that lose or corrupt bytes.

  \<^bold>\<open>Locks\<close> (\<^verbatim>\<open>include/hybrid/sync\<close>). \<open>Rwlock\<close> holds the contract \<open>rw_lock\<close> of a read/write lock in a word, and proves for
  any number of threads and any order of their steps what it gives. \<open>Atomic_Rwlock\<close> (\<^verbatim>\<open>atomic-rwlock.h\<close>) and \<open>Atomic_Rwptr\<close>
  (\<^verbatim>\<open>atomic-rwptr.h\<close>, a pointer with the lock in its low four bits) model two locks that keep this contract. \<open>Owner_Rwlock\<close>
  (\<^verbatim>\<open>atomic-owner-rwlock.h\<close>) models the lock whose writer may take it again, with the store of the owner as a step of its
  own, and the invariant of threads that use it. \<open>Rwlock_Props\<close> has mutual exclusion for all three, and the
  interleaving in which the last one fails.

  \<^bold>\<open>Unicode conversions of the C library\<close> (\<^verbatim>\<open>src/libs/libc/unicode.c\<close> and the start of \<^verbatim>\<open>widechar.c\<close>). \<open>Unicode\<close> models the four
  conversions between UTF-8, UTF-16 and UTF-32 with all mode flags and the shift state, \<open>Unicode_Strings\<close> the functions that
  allocate or print the result. A buffer is memory with a length that the caller claims for it; a store behind the memory is the error \<open>E_SEGFAULT\<close>, and the sizes of
  allocations are numbers of bytes that wrap at \<open>2 ^ 32\<close>. \<open>Unicode_Buffers\<close> shows that the conversions are safe on every input and keep the shift state
  well-formed; \<open>Unicode_Uniform\<close> has the interface \<open>text_converter\<close>, the law that the text does not depend on the buffer, and
  what the functions that allocate do with it. \<open>Unicode_Codec\<close> is a reference decoder and encoder on numbers, against
  which \<open>Unicode_Decode\<close> and \<open>Unicode_Encode\<close> compare the loops. \<open>Unicode_Props\<close> has the round trips, and the characters,
  lengths and modes for which the code fails.

  \<^bold>\<open>Bounds.\<close> No fuel is used: the loops of the heap are partial functions that are shown to return. The schedules of waiting functions are arbitrary finite lists. Texts are as long as the sizes of their buffers allow, as each theorem states; results of \<open>2 ^ 32\<close> units and more are outside of the model. The table of memory types
  has the 2048 slots of the i386 target, an address tree 32 levels of keys, an \<^verbatim>\<open>atomic_rwlock\<close> counts \<open>2 ^ 31 - 1\<close>
  readers and an \<^verbatim>\<open>atomic_rwptr\<close> seven.

  \<^bold>\<open>Not modelled.\<close> \<^verbatim>\<open>kmalloc\<close> and the tracing of leaks on top of the heap, virtual memory, the scheduler, the file system layer, terminals
  and pipes, networking, exception unwinding, device drivers, platform code, the rest of the C library, and the window server
  apart from its pixel sets. Retries of a compare-exchange on contention, and builds without assertions.
\<close>

end
